(* ===== verification/Prelude.thy ===== *)
theory Prelude
  imports Main "HOL-Library.List_Lexorder" "HOL-Library.Sublist" "HOL-Library.Multiset"
begin

text \<open>
  Shared vocabulary of the development: Rust's \<^verbatim>\<open>str\<close> as a list of Unicode scalar values, the
  string operations of the standard library the sources use, decimal and hexadecimal numbers,
  fixed-width arithmetic, \<^verbatim>\<open>Result\<close> as a sum type with the source's \<^verbatim>\<open>Error\<close> enum on its left,
  and the generic lemmas the components share.  What depends on the Unicode tables (upper and
  lower case, alphanumeric) is a parameter of type \<open>ucd\<close>; white space is the fixed list
  of the Unicode White_Space property.
\<close>

named_theorems text_simps \<open>rewrite rules for the string operations\<close>
named_theorems result_simps \<open>rewrite rules for results and options\<close>

section \<open>Strings\<close>

type_synonym rstr = "nat list"
type_synonym bytes = "nat list"

definition lit :: "string \<Rightarrow> rstr" where
  "lit s = map of_char s"

lemma lit_Nil [simp, text_simps]: "lit [] = []"
  and lit_Cons [simp, text_simps]: "lit (c # s) = of_char c # lit s"
  by (simp_all add: lit_def)

record ucd =
  ucd_upper :: "nat \<Rightarrow> nat list"
  ucd_lower_str :: "rstr \<Rightarrow> rstr"
  ucd_alphabetic :: "nat \<Rightarrow> bool"
  ucd_numeric :: "nat \<Rightarrow> bool"
  ucd_uppercase :: "nat \<Rightarrow> bool"
  ucd_lowercase :: "nat \<Rightarrow> bool"

text \<open>The tables restricted to ASCII, the instance the witnesses evaluate.\<close>

definition ascii_upper :: "nat \<Rightarrow> nat" where
  "ascii_upper c = (if 97 \<le> c \<and> c \<le> 122 then c - 32 else c)"

definition ascii_lower :: "nat \<Rightarrow> nat" where
  "ascii_lower c = (if 65 \<le> c \<and> c \<le> 90 then c + 32 else c)"

definition is_ascii_digit :: "nat \<Rightarrow> bool" where
  "is_ascii_digit c \<longleftrightarrow> 48 \<le> c \<and> c \<le> 57"

definition is_ascii_alphabetic :: "nat \<Rightarrow> bool" where
  "is_ascii_alphabetic c \<longleftrightarrow> (65 \<le> c \<and> c \<le> 90) \<or> (97 \<le> c \<and> c \<le> 122)"

definition is_ascii_alphanumeric :: "nat \<Rightarrow> bool" where
  "is_ascii_alphanumeric c \<longleftrightarrow> is_ascii_alphabetic c \<or> is_ascii_digit c"

definition ascii_ucd :: ucd where
  "ascii_ucd = \<lparr>ucd_upper = (\<lambda>c. [ascii_upper c]), ucd_lower_str = map ascii_lower,
     ucd_alphabetic = is_ascii_alphabetic, ucd_numeric = is_ascii_digit,
     ucd_uppercase = (\<lambda>c. 65 \<le> c \<and> c \<le> 90), ucd_lowercase = (\<lambda>c. 97 \<le> c \<and> c \<le> 122)\<rparr>"

text \<open>What the Unicode tables are known to say about ASCII.\<close>

definition ucd_ok :: "ucd \<Rightarrow> bool" where
  "ucd_ok U \<longleftrightarrow> (\<forall>c < 128. ucd_upper U c = [ascii_upper c])
     \<and> (\<forall>c < 128. ucd_alphabetic U c = is_ascii_alphabetic c)
     \<and> (\<forall>c < 128. ucd_numeric U c = is_ascii_digit c)"

lemma ascii_ucd_ok: "ucd_ok ascii_ucd"
  by (simp add: ucd_ok_def ascii_ucd_def)

definition is_alphanumeric :: "ucd \<Rightarrow> nat \<Rightarrow> bool" where
  "is_alphanumeric U c \<longleftrightarrow> ucd_alphabetic U c \<or> ucd_numeric U c"

definition to_uppercase :: "ucd \<Rightarrow> rstr \<Rightarrow> rstr" where
  "to_uppercase U s = concat (map (ucd_upper U) s)"

definition is_whitespace :: "nat \<Rightarrow> bool" where
  "is_whitespace c \<longleftrightarrow> (9 \<le> c \<and> c \<le> 13) \<or> c = 32 \<or> c = 133 \<or> c = 160 \<or> c = 5760
     \<or> (8192 \<le> c \<and> c \<le> 8202) \<or> c = 8232 \<or> c = 8233 \<or> c = 8239 \<or> c = 8287 \<or> c = 12288"

definition trim_start :: "rstr \<Rightarrow> rstr" where
  "trim_start s = dropWhile is_whitespace s"

definition trim_end :: "rstr \<Rightarrow> rstr" where
  "trim_end s = rev (dropWhile is_whitespace (rev s))"

definition trim :: "rstr \<Rightarrow> rstr" where
  "trim s = trim_end (trim_start s)"

fun split_ws :: "rstr \<Rightarrow> rstr \<Rightarrow> rstr list" where
  "split_ws acc [] = (if acc = [] then [] else [rev acc])"
| "split_ws acc (c # cs) =
     (if is_whitespace c
      then (if acc = [] then split_ws [] cs else rev acc # split_ws [] cs)
      else split_ws (c # acc) cs)"

definition split_whitespace :: "rstr \<Rightarrow> rstr list" where
  "split_whitespace s = split_ws [] s"

definition starts_with :: "rstr \<Rightarrow> rstr \<Rightarrow> bool" where
  "starts_with p s \<longleftrightarrow> take (length p) s = p"

definition ends_with :: "rstr \<Rightarrow> rstr \<Rightarrow> bool" where
  "ends_with p s \<longleftrightarrow> starts_with (rev p) (rev s)"

definition strip_prefix :: "rstr \<Rightarrow> rstr \<Rightarrow> rstr option" where
  "strip_prefix p s = (if starts_with p s then Some (drop (length p) s) else None)"

definition strip_suffix :: "rstr \<Rightarrow> rstr \<Rightarrow> rstr option" where
  "strip_suffix p s = (if ends_with p s then Some (take (length s - length p) s) else None)"

text \<open>\<open>str_find p s\<close> is the position of the first occurrence of \<open>p\<close> in \<open>s\<close>, counted in characters.\<close>

fun str_find :: "rstr \<Rightarrow> rstr \<Rightarrow> nat option" where
  "str_find p [] = (if p = [] then Some 0 else None)"
| "str_find p (c # cs) =
     (if starts_with p (c # cs) then Some 0 else map_option Suc (str_find p cs))"

definition str_contains :: "rstr \<Rightarrow> rstr \<Rightarrow> bool" where
  "str_contains s p \<longleftrightarrow> str_find p s \<noteq> None"

text \<open>\<^verbatim>\<open>join\<close> of a list of strings with a separator.\<close>

fun str_join :: "rstr \<Rightarrow> rstr list \<Rightarrow> rstr" where
  "str_join sep [] = []"
| "str_join sep [x] = x"
| "str_join sep (x # y # ys) = x @ sep @ str_join sep (y # ys)"

fun split_on :: "(nat \<Rightarrow> bool) \<Rightarrow> rstr \<Rightarrow> rstr list" where
  "split_on P [] = [[]]"
| "split_on P (c # cs) =
     (if P c then [] # split_on P cs
      else (case split_on P cs of [] \<Rightarrow> [[c]] | w # ws \<Rightarrow> (c # w) # ws))"

lemma starts_with_iff: "starts_with p s \<longleftrightarrow> (\<exists>t. s = p @ t)"
  unfolding starts_with_def by (metis append_eq_conv_conj append_take_drop_id)

lemma starts_with_prefix: "starts_with p s \<longleftrightarrow> prefix p s"
  by (auto simp: starts_with_iff prefix_def)

lemma str_find_SomeD:
  "str_find p s = Some n \<Longrightarrow> n \<le> length s \<and> starts_with p (drop n s)"
proof (induction s arbitrary: n)
  case Nil
  then show ?case by (auto simp: starts_with_def split: if_splits)
next
  case (Cons c s)
  then show ?case by (auto split: if_splits)
qed

lemma str_contains_iff: "str_contains s p \<longleftrightarrow> (\<exists>a b. s = a @ p @ b)"
proof (induction s)
  case Nil
  then show ?case by (auto simp: str_contains_def)
next
  case (Cons c s)
  have "str_contains (c # s) p \<longleftrightarrow> starts_with p (c # s) \<or> str_contains s p"
    by (cases "starts_with p (c # s)") (simp_all add: str_contains_def)
  also have "\<dots> \<longleftrightarrow> (\<exists>b. c # s = p @ b) \<or> (\<exists>a b. s = a @ p @ b)"
    unfolding Cons.IH starts_with_iff by (rule refl)
  also have "\<dots> \<longleftrightarrow> (\<exists>a b. c # s = a @ p @ b)"
    by (auto simp: Cons_eq_append_conv)
  finally show ?case .
qed

text \<open>Evaluation of closed terms: the definitions of the string operations, for the simplifier.\<close>

lemmas text_eval = is_whitespace_def split_whitespace_def starts_with_def ends_with_def
  strip_prefix_def strip_suffix_def str_contains_def to_uppercase_def ascii_ucd_def ascii_upper_def
  ascii_lower_def is_alphanumeric_def is_ascii_alphabetic_def is_ascii_alphanumeric_def
  is_ascii_digit_def trim_def trim_start_def trim_end_def

section \<open>White space\<close>

lemma split_ws_tokens:
  assumes "\<forall>c \<in> set acc. \<not> is_whitespace c" and "t \<in> set (split_ws acc s)"
  shows "t \<noteq> [] \<and> (\<forall>c \<in> set t. \<not> is_whitespace c)"
  using assms
proof (induction s arbitrary: acc)
  case Nil
  then show ?case by (auto split: if_splits)
next
  case (Cons c s)
  show ?case
  proof (cases "is_whitespace c")
    case True
    with Cons.prems consider "acc \<noteq> []" "t = rev acc" | "t \<in> set (split_ws [] s)"
      by (auto split: if_splits)
    then show ?thesis using Cons.prems(1) Cons.IH [of "[]"] by cases auto
  next
    case False
    with Cons.prems show ?thesis by (intro Cons.IH [of "c # acc"]) auto
  qed
qed

lemma split_whitespace_tokens:
  "t \<in> set (split_whitespace s) \<Longrightarrow> t \<noteq> [] \<and> (\<forall>c \<in> set t. \<not> is_whitespace c)"
  unfolding split_whitespace_def by (rule split_ws_tokens) auto

lemma set_trim_start: "set (trim_start s) \<subseteq> set s"
  unfolding trim_start_def by (rule set_dropWhileD [THEN subsetI])

lemma set_trim_end: "set (trim_end s) \<subseteq> set s"
  unfolding trim_end_def by (auto dest: set_dropWhileD)

lemma set_trim: "set (trim s) \<subseteq> set s"
  unfolding trim_def using set_trim_start set_trim_end by blast

lemma length_trim_start: "length (trim_start s) \<le> length s"
  by (simp add: trim_start_def length_dropWhile_le)

lemma length_trim_end: "length (trim_end s) \<le> length s"
  unfolding trim_end_def by (simp) (metis length_dropWhile_le length_rev)

lemma length_trim: "length (trim s) \<le> length s"
  unfolding trim_def using length_trim_start length_trim_end le_trans by blast

lemma trim_end_last: "trim_end s \<noteq> [] \<Longrightarrow> \<not> is_whitespace (last (trim_end s))"
  unfolding trim_end_def by (metis dropWhile_eq_Nil_conv hd_dropWhile last_rev rev_is_Nil_conv)

lemma trim_start_hd: "trim_start s \<noteq> [] \<Longrightarrow> \<not> is_whitespace (hd (trim_start s))"
  unfolding trim_start_def by (metis hd_dropWhile dropWhile_eq_Nil_conv)

lemma trim_start_id: "s = [] \<or> \<not> is_whitespace (hd s) \<Longrightarrow> trim_start s = s"
  unfolding trim_start_def by (cases s) auto

lemma trim_end_id: "s = [] \<or> \<not> is_whitespace (last s) \<Longrightarrow> trim_end s = s"
  unfolding trim_end_def by (cases s rule: rev_cases) auto

lemma trim_id:
  "s = [] \<or> (\<not> is_whitespace (hd s) \<and> \<not> is_whitespace (last s)) \<Longrightarrow> trim s = s"
  unfolding trim_def by (auto simp: trim_start_id trim_end_id)

lemma trim_end_prefix: "prefix (trim_end s) s"
  unfolding trim_end_def
  by (metis rev_rev_ident suffix_dropWhile suffix_to_prefix)

section \<open>Numbers\<close>

fun show_nat :: "nat \<Rightarrow> rstr" where
  "show_nat n = (if n < 10 then [48 + n] else show_nat (n div 10) @ [48 + n mod 10])"

declare show_nat.simps [simp del]

text \<open>The digits of \<^verbatim>\<open>parse\<close> and \<^verbatim>\<open>from_str_radix\<close>: an overflow at any digit is an error.\<close>

fun digits_val :: "(nat \<Rightarrow> nat option) \<Rightarrow> nat \<Rightarrow> nat \<Rightarrow> nat \<Rightarrow> rstr \<Rightarrow> nat option" where
  "digits_val dig radix mx acc [] = Some acc"
| "digits_val dig radix mx acc (c # cs) =
     (case dig c of None \<Rightarrow> None
      | Some d \<Rightarrow> (let v = acc * radix + d in
          if v > mx then None else digits_val dig radix mx v cs))"

definition dec_digit :: "nat \<Rightarrow> nat option" where
  "dec_digit c = (if 48 \<le> c \<and> c \<le> 57 then Some (c - 48) else None)"

definition hex_digit :: "nat \<Rightarrow> nat option" where
  "hex_digit c = (if 48 \<le> c \<and> c \<le> 57 then Some (c - 48)
     else if 65 \<le> c \<and> c \<le> 70 then Some (c - 55)
     else if 97 \<le> c \<and> c \<le> 102 then Some (c - 87) else None)"

text \<open>Rust's unsigned parsers accept one leading plus sign and refuse the empty string.\<close>

definition from_str_radix :: "(nat \<Rightarrow> nat option) \<Rightarrow> nat \<Rightarrow> nat \<Rightarrow> rstr \<Rightarrow> nat option" where
  "from_str_radix dig radix mx s =
     (case s of [] \<Rightarrow> None
      | c # cs \<Rightarrow> if c = 43 then (if cs = [] then None else digits_val dig radix mx 0 cs)
                  else digits_val dig radix mx 0 s)"

definition u32_max :: nat where "u32_max = 4294967295"
definition u64_max :: nat where "u64_max = 18446744073709551615"

definition parse_uint :: "nat \<Rightarrow> rstr \<Rightarrow> nat option" where
  "parse_uint mx s = from_str_radix dec_digit 10 mx s"

definition u8_from_hex :: "rstr \<Rightarrow> nat option" where
  "u8_from_hex s = from_str_radix hex_digit 16 255 s"

text \<open>Lowercase hexadecimal, two digits per byte (\<^verbatim>\<open>sha256_hex.rs\<close>).\<close>

definition hex_lower :: "nat \<Rightarrow> nat" where
  "hex_lower d = (if d < 10 then 48 + d else 87 + d)"

definition to_hex :: "bytes \<Rightarrow> rstr" where
  "to_hex bs = concat (map (\<lambda>b. [hex_lower (b div 16), hex_lower (b mod 16)]) bs)"

lemma digits_val_append:
  "digits_val dig radix mx acc (xs @ ys) =
     (case digits_val dig radix mx acc xs of None \<Rightarrow> None
      | Some v \<Rightarrow> digits_val dig radix mx v ys)"
  by (induction xs arbitrary: acc) (auto simp: Let_def split: option.splits)

lemma digits_val_show_nat:
  "n \<le> mx \<Longrightarrow> digits_val dec_digit 10 mx 0 (show_nat n) = Some n"
proof (induction n rule: show_nat.induct)
  case (1 n)
  show ?case
  proof (cases "n < 10")
    case True
    with "1.prems" show ?thesis by (subst show_nat.simps) (simp add: dec_digit_def)
  next
    case False
    with "1.IH" "1.prems" have IH: "digits_val dec_digit 10 mx 0 (show_nat (n div 10)) = Some (n div 10)"
      by (simp add: div_le_dividend [THEN le_trans])
    have "n div 10 * 10 + n mod 10 = n" by simp
    with False IH "1.prems" show ?thesis
      by (subst show_nat.simps) (simp add: digits_val_append dec_digit_def Let_def)
  qed
qed

lemma show_nat_digits: "\<forall>c \<in> set (show_nat n). 48 \<le> c \<and> c \<le> 57"
proof (induction n rule: show_nat.induct)
  case (1 n)
  then show ?case by (cases "n < 10") (auto simp: show_nat.simps [of n])
qed

lemma show_nat_nonempty [simp]: "show_nat n \<noteq> []"
  by (subst show_nat.simps) simp

lemma parse_show_nat: "n \<le> mx \<Longrightarrow> parse_uint mx (show_nat n) = Some n"
proof -
  assume n: "n \<le> mx"
  obtain c cs where eq: "show_nat n = c # cs"
    by (cases "show_nat n") auto
  with show_nat_digits [of n] have "c \<noteq> 43" by auto
  with n digits_val_show_nat [OF n] eq show ?thesis
    by (simp add: parse_uint_def from_str_radix_def)
qed

lemma digits_val_le: "digits_val dig radix mx acc s = Some v \<Longrightarrow> acc \<le> mx \<Longrightarrow> v \<le> mx"
  by (induction s arbitrary: acc) (auto simp: Let_def split: option.splits if_splits)

lemma parse_uint_le: "parse_uint mx s = Some v \<Longrightarrow> v \<le> mx"
  unfolding parse_uint_def from_str_radix_def
  by (auto simp del: digits_val.simps split: list.splits if_splits dest: digits_val_le)

section \<open>Fixed-width arithmetic\<close>

text \<open>A release build wraps \<^verbatim>\<open>+\<close> on overflow; \<^verbatim>\<open>saturating_add\<close> and \<^verbatim>\<open>saturating_mul\<close> stop at the maximum.\<close>

definition wrap_add :: "nat \<Rightarrow> nat \<Rightarrow> nat \<Rightarrow> nat" where
  "wrap_add mx a b = (a + b) mod Suc mx"

definition sat_add :: "nat \<Rightarrow> nat \<Rightarrow> nat \<Rightarrow> nat" where
  "sat_add mx a b = min (a + b) mx"

definition sat_mul :: "nat \<Rightarrow> nat \<Rightarrow> nat \<Rightarrow> nat" where
  "sat_mul mx a b = min (a * b) mx"

lemma wrap_add_small: "a + b \<le> mx \<Longrightarrow> wrap_add mx a b = a + b"
  by (simp add: wrap_add_def)

section \<open>Results\<close>

datatype io_error = NotFound | AlreadyExists | OtherIo rstr

datatype error =
    Lbug rstr | InvalidPath | QueryFailed rstr | Http rstr | Json rstr | Ipc rstr | Join rstr
  | WalIo io_error | WalJson rstr | DbUnavailable rstr | Cancelled | Config rstr
  | CassetteMiss rstr | CassetteCorrupt rstr | CassetteDuplicateKey rstr
  | CheckpointInvalidName rstr | CheckpointDuplicateName rstr | CheckpointNotFound rstr
  | InvalidGroupId rstr | WalGenerationUnknown rstr | InvalidKind rstr
  | AmbiguousEntity rstr rstr "(rstr \<times> rstr) list"
  | IdentitySetChangeRefused rstr rstr nat rstr

type_synonym 'a result = "error + 'a"

fun rbind :: "'e + 'a \<Rightarrow> ('a \<Rightarrow> 'e + 'b) \<Rightarrow> 'e + 'b" where
  "rbind (Inl e) f = Inl e"
| "rbind (Inr x) f = f x"

lemma rbind_Inr_iff [result_simps]: "rbind r f = Inr y \<longleftrightarrow> (\<exists>x. r = Inr x \<and> f x = Inr y)"
  by (cases r) auto

lemma rbind_Inl_iff [result_simps]:
  "rbind r f = Inl e \<longleftrightarrow> r = Inl e \<or> (\<exists>x. r = Inr x \<and> f x = Inl e)"
  by (cases r) auto

text \<open>\<^verbatim>\<open>collect::<Option<Vec<_>>>\<close> and \<^verbatim>\<open>collect::<Result<Vec<_>, _>>\<close>.\<close>

fun collect_opt :: "('a \<Rightarrow> 'b option) \<Rightarrow> 'a list \<Rightarrow> 'b list option" where
  "collect_opt f [] = Some []"
| "collect_opt f (x # xs) =
     (case f x of None \<Rightarrow> None
      | Some y \<Rightarrow> map_option ((#) y) (collect_opt f xs))"

lemma collect_opt_Some_iff:
  "collect_opt f xs = Some ys \<longleftrightarrow> map f xs = map Some ys"
proof (induction xs arbitrary: ys)
  case Nil
  then show ?case by auto
next
  case (Cons x xs)
  then show ?case by (cases ys) (auto split: option.splits)
qed

lemma collect_opt_all: "(\<And>x. x \<in> set xs \<Longrightarrow> f x = Some (g x)) \<Longrightarrow> collect_opt f xs = Some (map g xs)"
  by (simp add: collect_opt_Some_iff)

section \<open>Optional maxima and minima\<close>

text \<open>The idiom \<^verbatim>\<open>Some(acc.map_or(x, |m| m.max(x)))\<close>.\<close>

definition opt_max :: "nat option \<Rightarrow> nat \<Rightarrow> nat option" where
  "opt_max acc x = Some (case acc of None \<Rightarrow> x | Some m \<Rightarrow> max m x)"

definition opt_min :: "nat option \<Rightarrow> nat \<Rightarrow> nat option" where
  "opt_min acc x = Some (case acc of None \<Rightarrow> x | Some m \<Rightarrow> min m x)"

definition list_max :: "nat list \<Rightarrow> nat option" where
  "list_max xs = (if xs = [] then None else Some (Max (set xs)))"

lemma foldl_opt_max:
  "foldl opt_max acc xs =
     (case acc of None \<Rightarrow> list_max xs
      | Some m \<Rightarrow> Some (Max (insert m (set xs))))"
proof (induction xs arbitrary: acc)
  case Nil
  then show ?case by (auto simp: list_max_def split: option.splits)
next
  case (Cons x xs)
  have "Max (insert (max a x) (set xs)) = Max (insert a (insert x (set xs)))" for a
    by (cases "xs = []") (auto simp: max.assoc)
  with Cons show ?case
    by (cases acc) (auto simp: opt_max_def list_max_def)
qed

lemma list_max_ge: "list_max xs = Some m \<Longrightarrow> x \<in> set xs \<Longrightarrow> x \<le> m"
  by (auto simp: list_max_def split: if_splits)

lemma list_max_in: "list_max xs = Some m \<Longrightarrow> m \<in> set xs"
  unfolding list_max_def by (metis List.finite_set Max_in option.distinct(1) option.inject set_empty)

end
