(* ===== verification/Utf8.thy ===== *)
theory Utf8
  imports Prelude
begin

text \<open>
  UTF-8 as Rust's \<^verbatim>\<open>str\<close> and \<^verbatim>\<open>String\<close> store it: the encoder of a scalar value, the validating
  scanner behind \<^verbatim>\<open>String::from_utf8\<close> and \<^verbatim>\<open>from_utf8_lossy\<close> (with its maximal invalid
  subsequences), and the byte length of a string.  The locale \<open>unit_codec\<close> is the interface of
  every encoding in the development that works unit by unit; UTF-8, percent-encoded directory
  names and hexadecimal cursors are its interpretations.
\<close>

section \<open>Encodings that work unit by unit\<close>

text \<open>
  A provider gives the code of one unit and a scanner that reads one unit off the front of a
  non-empty input, returning it with the number of input elements it used.  The client lemmas
  are about running the scanner to the end of the input.
\<close>

function scan_units :: "('b list \<Rightarrow> 'a option \<times> nat) \<Rightarrow> 'b list \<Rightarrow> 'a option list" where
  "scan_units nxt [] = []"
| "scan_units nxt (b # bs) =
     (case nxt (b # bs) of (u, n) \<Rightarrow> u # scan_units nxt (drop (n - 1) bs))"
  by pat_completeness auto
termination
  by (relation "measure (\<lambda>(nxt, bs). length bs)") auto

locale unit_codec =
  fixes enc1 :: "'a \<Rightarrow> 'b list"
    and nxt :: "'b list \<Rightarrow> 'a option \<times> nat"
    and valid :: "'a \<Rightarrow> bool"
  assumes enc1_nonempty: "enc1 x \<noteq> []"
    and nxt_enc1: "valid x \<Longrightarrow> nxt (enc1 x @ r) = (Some x, length (enc1 x))"
begin

lemma scan_cons: "valid x \<Longrightarrow> scan_units nxt (enc1 x @ r) = Some x # scan_units nxt r"
proof -
  assume v: "valid x"
  obtain b bs where e: "enc1 x = b # bs"
    using enc1_nonempty [of x] by (cases "enc1 x") auto
  have "scan_units nxt (b # (bs @ r)) = Some x # scan_units nxt (drop (length bs) (bs @ r))"
    using nxt_enc1 [OF v, of r] e by simp
  with e show ?thesis by simp
qed

lemma scan_concat:
  "(\<And>x. x \<in> set xs \<Longrightarrow> valid x) \<Longrightarrow>
     scan_units nxt (concat (map enc1 xs) @ r) = map Some xs @ scan_units nxt r"
  by (induction xs) (auto simp: scan_cons)

lemma scan_all:
  "(\<And>x. x \<in> set xs \<Longrightarrow> valid x) \<Longrightarrow>
     collect_opt id (scan_units nxt (concat (map enc1 xs))) = Some xs"
  using scan_concat [of xs "[]"] by (simp add: collect_opt_Some_iff)

lemma enc_inj:
  assumes "\<And>x. x \<in> set xs \<Longrightarrow> valid x" and "\<And>x. x \<in> set ys \<Longrightarrow> valid x"
    and "concat (map enc1 xs) = concat (map enc1 ys)"
  shows "xs = ys"
proof -
  have "Some xs = Some ys"
    using scan_all [of xs] scan_all [of ys] assms by metis
  then show ?thesis by simp
qed

end

section \<open>One scalar value\<close>

definition is_scalar :: "nat \<Rightarrow> bool" where
  "is_scalar c \<longleftrightarrow> c < 55296 \<or> (57344 \<le> c \<and> c \<le> 1114111)"

definition utf8_encode1 :: "nat \<Rightarrow> bytes" where
  "utf8_encode1 c =
     (if c < 128 then [c]
      else if c < 2048 then [192 + c div 64, 128 + c mod 64]
      else if c < 65536 then [224 + c div 4096, 128 + c div 64 mod 64, 128 + c mod 64]
      else [240 + c div 262144, 128 + c div 4096 mod 64, 128 + c div 64 mod 64, 128 + c mod 64])"

definition utf8_len :: "nat \<Rightarrow> nat" where
  "utf8_len c = (if c < 128 then 1 else if c < 2048 then 2 else if c < 65536 then 3 else 4)"

definition in_range :: "nat \<Rightarrow> nat \<Rightarrow> bytes \<Rightarrow> nat \<Rightarrow> bool" where
  "in_range lo hi bs i \<longleftrightarrow> i < length bs \<and> lo \<le> bs ! i \<and> bs ! i \<le> hi"

text \<open>
  The scanner of the standard library's UTF-8 validation: the scalar value at the front, or
  \<open>None\<close> with the length of the invalid part (\<^verbatim>\<open>error_len\<close>).
\<close>

definition utf8_next :: "bytes \<Rightarrow> nat option \<times> nat" where
  "utf8_next bs =
     (let b0 = bs ! 0; at = (\<lambda>i. bs ! i - 128) in
      if b0 < 128 then (Some b0, 1)
      else if 194 \<le> b0 \<and> b0 \<le> 223 then
        (if in_range 128 191 bs 1 then (Some ((b0 - 192) * 64 + at 1), 2) else (None, 1))
      else if 224 \<le> b0 \<and> b0 \<le> 239 then
        (if in_range (if b0 = 224 then 160 else 128) (if b0 = 237 then 159 else 191) bs 1 then
           (if in_range 128 191 bs 2 then (Some ((b0 - 224) * 4096 + at 1 * 64 + at 2), 3)
            else (None, 2))
         else (None, 1))
      else if 240 \<le> b0 \<and> b0 \<le> 244 then
        (if in_range (if b0 = 240 then 144 else 128) (if b0 = 244 then 143 else 191) bs 1 then
           (if in_range 128 191 bs 2 then
              (if in_range 128 191 bs 3
               then (Some ((b0 - 240) * 262144 + at 1 * 4096 + at 2 * 64 + at 3), 4)
               else (None, 3))
            else (None, 2))
         else (None, 1))
      else (None, 1))"

section \<open>Strings and bytes\<close>

definition as_bytes :: "rstr \<Rightarrow> bytes" where
  "as_bytes s = concat (map utf8_encode1 s)"

definition str_len :: "rstr \<Rightarrow> nat" where
  "str_len s = sum_list (map utf8_len s)"

definition valid_str :: "rstr \<Rightarrow> bool" where
  "valid_str s \<longleftrightarrow> list_all is_scalar s"

definition from_utf8 :: "bytes \<Rightarrow> rstr option" where
  "from_utf8 bs = collect_opt id (scan_units utf8_next bs)"

definition from_utf8_lossy :: "bytes \<Rightarrow> rstr" where
  "from_utf8_lossy bs = map (case_option 65533 id) (scan_units utf8_next bs)"

section \<open>Round trip\<close>

lemma utf8_encode1_nonempty: "utf8_encode1 c \<noteq> []"
  by (simp add: utf8_encode1_def)

lemma length_utf8_encode1: "length (utf8_encode1 c) = utf8_len c"
  by (simp add: utf8_encode1_def utf8_len_def)

lemma length_as_bytes: "length (as_bytes s) = str_len s"
  by (simp add: as_bytes_def str_len_def length_concat comp_def length_utf8_encode1)

text \<open>The digits of a number to base 64, as linear facts.\<close>

lemma base64_digits:
  fixes c :: nat
  obtains x k where "c = x * 64 + k" "k < 64" "c div 64 = x" "c mod 64 = k"
  by (rule that [of "c div 64" "c mod 64"]) auto

lemma div_4096: "(c::nat) div 4096 = c div 64 div 64"
  using div_mult2_eq [of c 64 64] by simp

lemma div_262144: "(c::nat) div 262144 = c div 64 div 64 div 64"
  using div_mult2_eq [of c 64 4096] by (simp add: div_4096)

lemmas utf8_scan_defs = utf8_encode1_def utf8_next_def in_range_def Let_def nth_Cons'

lemma utf8_next_2:
  assumes "128 \<le> c" "c < 2048"
  shows "utf8_next (utf8_encode1 c @ r) = (Some c, 2)"
proof -
  obtain x k where c: "c = x * 64 + k" "k < 64" "c div 64 = x" "c mod 64 = k"
    by (rule base64_digits)
  then have "2 \<le> x" "x < 32" using assms by linarith+
  then show ?thesis using assms c by (simp add: utf8_scan_defs)
qed

lemma utf8_next_3:
  assumes "2048 \<le> c" "c < 65536" "is_scalar c"
  shows "utf8_next (utf8_encode1 c @ r) = (Some c, 3)"
proof -
  obtain x k where c: "c = x * 64 + k" "k < 64" "c div 64 = x" "c mod 64 = k"
    by (rule base64_digits)
  obtain q m where x: "x = q * 64 + m" "m < 64" "x div 64 = q" "x mod 64 = m"
    by (rule base64_digits)
  have e: "utf8_encode1 c = [224 + q, 128 + m, 128 + k]"
    using assms(1,2) c(3,4) x(3,4) by (simp add: utf8_encode1_def div_4096)
  have b: "q < 16" using assms c(1,2) x(1,2) by linarith
  have lo: "q = 0 \<Longrightarrow> 32 \<le> m" using assms(1) c(1,2) x(1,2) by linarith
  have hi: "q = 13 \<Longrightarrow> m < 32" using assms(3) c(1,2) x(1,2) unfolding is_scalar_def by linarith
  have v: "q * 4096 + m * 64 + k = c" using c(1) x(1) by simp
  have ir: "in_range (if 224 + q = 224 then 160 else 128) (if 224 + q = 237 then 159 else 191)
      ([224 + q, 128 + m, 128 + k] @ r) 1"
    using lo hi x(2) by (auto simp: in_range_def)
  have ir2: "in_range 128 191 ([224 + q, 128 + m, 128 + k] @ r) 2"
    using c(2) by (simp add: in_range_def nth_Cons')
  show ?thesis unfolding e using ir ir2 b v
    by (simp add: utf8_next_def Let_def nth_Cons')
qed

lemma utf8_next_4:
  assumes "65536 \<le> c" "is_scalar c"
  shows "utf8_next (utf8_encode1 c @ r) = (Some c, 4)"
proof -
  obtain x k where c: "c = x * 64 + k" "k < 64" "c div 64 = x" "c mod 64 = k"
    by (rule base64_digits)
  obtain y m where x: "x = y * 64 + m" "m < 64" "x div 64 = y" "x mod 64 = m"
    by (rule base64_digits)
  obtain q n where y: "y = q * 64 + n" "n < 64" "y div 64 = q" "y mod 64 = n"
    by (rule base64_digits)
  let ?bs = "[240 + q, 128 + n, 128 + m, 128 + k]"
  have e: "utf8_encode1 c = ?bs"
    using assms(1) c(3,4) x(3,4) y(3,4) by (simp add: utf8_encode1_def div_4096 div_262144)
  have b: "q < 5" using assms(2) c(1,2) x(1,2) y(1,2) unfolding is_scalar_def by linarith
  have lo: "q = 0 \<Longrightarrow> 16 \<le> n" using assms(1) c(1,2) x(1,2) y(1,2) by linarith
  have hi: "q = 4 \<Longrightarrow> n < 16"
    using assms(2) c(1,2) x(1,2) y(1,2) unfolding is_scalar_def by linarith
  have v: "q * 262144 + n * 4096 + m * 64 + k = c" using c(1) x(1) y(1) by simp
  have ir: "in_range (if 240 + q = 240 then 144 else 128) (if 240 + q = 244 then 143 else 191)
      (?bs @ r) 1"
    using lo hi y(2) by (auto simp: in_range_def)
  have ir2: "in_range 128 191 (?bs @ r) 2" "in_range 128 191 (?bs @ r) 3"
    using c(2) x(2) by (simp_all add: in_range_def nth_Cons')
  show ?thesis unfolding e using ir ir2 b v
    by (simp add: utf8_next_def Let_def nth_Cons')
qed

lemma utf8_next_encode1:
  "is_scalar c \<Longrightarrow> utf8_next (utf8_encode1 c @ r) = (Some c, length (utf8_encode1 c))"
proof -
  assume sc: "is_scalar c"
  have one: "c < 128 \<Longrightarrow> utf8_next (utf8_encode1 c @ r) = (Some c, 1)"
    by (simp add: utf8_encode1_def utf8_next_def)
  show ?thesis
    using sc one utf8_next_2 [of c r] utf8_next_3 [of c r] utf8_next_4 [of c r]
    by (simp add: length_utf8_encode1 utf8_len_def)
qed

interpretation utf8: unit_codec utf8_encode1 utf8_next is_scalar
  by unfold_locales (simp_all add: utf8_encode1_nonempty utf8_next_encode1)

lemma from_utf8_as_bytes: "valid_str s \<Longrightarrow> from_utf8 (as_bytes s) = Some s"
  unfolding from_utf8_def as_bytes_def valid_str_def
  by (rule utf8.scan_all) (auto simp: list_all_iff)

lemma from_utf8_lossy_as_bytes: "valid_str s \<Longrightarrow> from_utf8_lossy (as_bytes s) = s"
proof -
  assume "valid_str s"
  then have "scan_units utf8_next (as_bytes s) = map Some s"
    using utf8.scan_concat [of s "[]"] by (auto simp: as_bytes_def valid_str_def list_all_iff)
  then show ?thesis by (simp add: from_utf8_lossy_def comp_def)
qed

lemma as_bytes_inj: "valid_str s \<Longrightarrow> valid_str t \<Longrightarrow> as_bytes s = as_bytes t \<Longrightarrow> s = t"
  using from_utf8_as_bytes by (metis option.inject)

lemma as_bytes_ascii: "\<forall>c \<in> set s. c < 128 \<Longrightarrow> as_bytes s = s"
  by (induction s) (auto simp: as_bytes_def utf8_encode1_def)

lemma as_bytes_append: "as_bytes (s @ t) = as_bytes s @ as_bytes t"
  by (simp add: as_bytes_def)

lemma str_len_append: "str_len (s @ t) = str_len s + str_len t"
  by (simp add: str_len_def)

lemma length_le_str_len: "length s \<le> str_len s"
  by (induction s) (auto simp: str_len_def utf8_len_def)

text \<open>A byte below 128 inside an encoded string is that ASCII character itself.\<close>

lemma utf8_encode1_ascii_byte: "b \<in> set (utf8_encode1 c) \<Longrightarrow> b < 128 \<Longrightarrow> b = c"
  by (auto simp: utf8_encode1_def split: if_splits)

lemma as_bytes_ascii_byte: "b \<in> set (as_bytes s) \<Longrightarrow> b < 128 \<Longrightarrow> b \<in> set s"
  by (auto simp: as_bytes_def dest: utf8_encode1_ascii_byte)

lemma utf8_encode1_byte: "is_scalar c \<Longrightarrow> b \<in> set (utf8_encode1 c) \<Longrightarrow> b < 256"
  by (auto simp: utf8_encode1_def is_scalar_def split: if_splits)

lemma as_bytes_byte: "valid_str s \<Longrightarrow> b \<in> set (as_bytes s) \<Longrightarrow> b < 256"
  by (auto simp: as_bytes_def valid_str_def list_all_iff dest: utf8_encode1_byte)

end
