(* ===== verification/FileSys.thy ===== *)
theory FileSys
  imports Utf8 "HOL-Library.AList"
begin

text \<open>
  The part of \<^verbatim>\<open>std::fs\<close> the WAL code uses.  A file system is an association list from paths
  (lists of UTF-8 names) to nodes; its order is the order in which \<^verbatim>\<open>read_dir\<close> lists entries,
  which the operating system does not promise, so the theorems hold for every order.  The locale
  \<open>path_store\<close> states the lookup laws the components rely on and \<open>fs\<close> interprets it.  Also here:
  splitting a file into lines the way \<^verbatim>\<open>BufRead::lines\<close> and \<^verbatim>\<open>str::lines\<close> do.
\<close>

section \<open>The file system\<close>

type_synonym path = "rstr list"

datatype node = Dir | File bytes

type_synonym fsys = "(path \<times> node) list"

definition fs_get :: "fsys \<Rightarrow> path \<Rightarrow> node option" where
  "fs_get fs p = map_of fs p"

definition fs_put :: "path \<Rightarrow> node \<Rightarrow> fsys \<Rightarrow> fsys" where
  "fs_put p n fs = AList.update p n fs"

definition fs_del :: "path \<Rightarrow> fsys \<Rightarrow> fsys" where
  "fs_del p fs = AList.delete p fs"

definition fs_exists :: "fsys \<Rightarrow> path \<Rightarrow> bool" where
  "fs_exists fs p \<longleftrightarrow> fs_get fs p \<noteq> None"

definition is_dir :: "fsys \<Rightarrow> path \<Rightarrow> bool" where
  "is_dir fs p \<longleftrightarrow> fs_get fs p = Some Dir"

definition read_dir :: "fsys \<Rightarrow> path \<Rightarrow> rstr list result" where
  "read_dir fs p =
     (if is_dir fs p
      then Inr (map (last \<circ> fst) (filter (\<lambda>(q, _). q \<noteq> [] \<and> butlast q = p) fs))
      else Inl (WalIo NotFound))"

definition read_file :: "fsys \<Rightarrow> path \<Rightarrow> bytes result" where
  "read_file fs p =
     (case fs_get fs p of
        Some (File b) \<Rightarrow> Inr b
      | Some Dir \<Rightarrow> Inl (WalIo (OtherIo (lit ''is a directory'')))
      | None \<Rightarrow> Inl (WalIo NotFound))"

definition file_len :: "fsys \<Rightarrow> path \<Rightarrow> nat option" where
  "file_len fs p = (case fs_get fs p of Some (File b) \<Rightarrow> Some (length b)
     | Some Dir \<Rightarrow> Some 0 | None \<Rightarrow> None)"

text \<open>\<^verbatim>\<open>create_dir_all\<close>: every missing prefix of the path becomes a directory; a prefix that is a file is an error.\<close>

fun mkdirs :: "path list \<Rightarrow> fsys \<Rightarrow> fsys result" where
  "mkdirs [] fs = Inr fs"
| "mkdirs (p # ps) fs =
     (case fs_get fs p of
        None \<Rightarrow> mkdirs ps (fs_put p Dir fs)
      | Some Dir \<Rightarrow> mkdirs ps fs
      | Some (File _) \<Rightarrow> Inl (WalIo AlreadyExists))"

definition create_dir_all :: "path \<Rightarrow> fsys \<Rightarrow> fsys result" where
  "create_dir_all p fs = mkdirs (tl (prefixes p)) fs"

text \<open>\<^verbatim>\<open>OpenOptions::create_new\<close> followed by a complete write.\<close>

definition create_new :: "path \<Rightarrow> bytes \<Rightarrow> fsys \<Rightarrow> fsys result" where
  "create_new p b fs =
     (if fs_exists fs p then Inl (WalIo AlreadyExists)
      else if is_dir fs (butlast p) then Inr (fs_put p (File b) fs)
      else Inl (WalIo NotFound))"

definition hard_link :: "path \<Rightarrow> path \<Rightarrow> fsys \<Rightarrow> fsys result" where
  "hard_link src dst fs =
     (case fs_get fs src of
        Some (File b) \<Rightarrow>
          (if fs_exists fs dst then Inl (WalIo AlreadyExists)
           else if is_dir fs (butlast dst) then Inr (fs_put dst (File b) fs)
           else Inl (WalIo NotFound))
      | _ \<Rightarrow> Inl (WalIo NotFound))"

text \<open>\<^verbatim>\<open>rename\<close> moves an entry with everything below it; the sources only rename onto free names or files.\<close>

definition move_path :: "path \<Rightarrow> path \<Rightarrow> path \<Rightarrow> path" where
  "move_path src dst q = (if take (length src) q = src then dst @ drop (length src) q else q)"

definition rename :: "path \<Rightarrow> path \<Rightarrow> fsys \<Rightarrow> fsys result" where
  "rename src dst fs =
     (if \<not> fs_exists fs src then Inl (WalIo NotFound)
      else if \<not> is_dir fs (butlast dst) then Inl (WalIo NotFound)
      else if is_dir fs dst then Inl (WalIo AlreadyExists)
      else Inr (map (\<lambda>(q, n). (move_path src dst q, n)) (fs_del dst fs)))"

definition remove_file :: "path \<Rightarrow> fsys \<Rightarrow> fsys result" where
  "remove_file p fs =
     (case fs_get fs p of
        Some (File _) \<Rightarrow> Inr (fs_del p fs)
      | Some Dir \<Rightarrow> Inl (WalIo (OtherIo (lit ''is a directory'')))
      | None \<Rightarrow> Inl (WalIo NotFound))"

section \<open>The lookup laws\<close>

locale path_store =
  fixes get :: "'s \<Rightarrow> 'p \<Rightarrow> 'n option"
    and put :: "'p \<Rightarrow> 'n \<Rightarrow> 's \<Rightarrow> 's"
    and del :: "'p \<Rightarrow> 's \<Rightarrow> 's"
  assumes get_put: "get (put p n s) = (get s)(p \<mapsto> n)"
    and get_del: "get (del p s) = (get s)(p := None)"
begin

lemma get_put_same: "get (put p n s) p = Some n"
  by (simp add: get_put)

lemma get_put_other: "q \<noteq> p \<Longrightarrow> get (put p n s) q = get s q"
  by (simp add: get_put)

lemma get_del_put: "get (del p (put p n s)) = (get s)(p := None)"
  by (simp add: get_put get_del)

lemma put_shadow: "get (put p m (put p n s)) = get (put p m s)"
  by (simp add: get_put)

lemma put_commute: "p \<noteq> q \<Longrightarrow> get (put p m (put q n s)) = get (put q n (put p m s))"
  by (simp add: get_put fun_upd_twist)

lemma del_commute: "get (del p (del q s)) = get (del q (del p s))"
  by (auto simp: get_del fun_eq_iff)

end

lemma fs_get_put: "fs_get (fs_put p n fs) = (fs_get fs)(p \<mapsto> n)"
  by (auto simp: fs_get_def fs_put_def update_conv' fun_eq_iff)

lemma fs_get_del: "fs_get (fs_del p fs) = (fs_get fs)(p := None)"
  by (auto simp: fs_get_def fs_del_def delete_conv' fun_eq_iff)

interpretation fs: path_store fs_get fs_put fs_del
  by unfold_locales (rule fs_get_put fs_get_del)+

lemmas fs_simps [simp] = fs_get_put fs_get_del

definition fs_wf :: "fsys \<Rightarrow> bool" where
  "fs_wf fs \<longleftrightarrow> distinct (map fst fs)"

lemma fs_wf_put: "fs_wf fs \<Longrightarrow> fs_wf (fs_put p n fs)"
  by (simp add: fs_wf_def fs_put_def distinct_update)

lemma fs_wf_del: "fs_wf fs \<Longrightarrow> fs_wf (fs_del p fs)"
  by (simp add: fs_wf_def fs_del_def distinct_delete)

text \<open>\<open>read_dir\<close> lists exactly the names present.\<close>

lemma read_dir_mem:
  assumes "fs_wf fs" and "read_dir fs p = Inr ns"
  shows "n \<in> set ns \<longleftrightarrow> fs_exists fs (p @ [n])"
proof
  assume "n \<in> set ns"
  with assms obtain q v where "(q, v) \<in> set fs" "q \<noteq> []" "butlast q = p" "last q = n"
    by (auto simp: read_dir_def split: if_splits)
  then have "(p @ [n], v) \<in> set fs" by auto
  then show "fs_exists fs (p @ [n])"
    using assms(1) by (auto simp: fs_exists_def fs_get_def fs_wf_def)
next
  assume "fs_exists fs (p @ [n])"
  then obtain v where "(p @ [n], v) \<in> set fs"
    by (auto simp: fs_exists_def fs_get_def dest: map_of_SomeD)
  then show "n \<in> set ns"
    using assms(2) by (force simp: read_dir_def split: if_splits)
qed

lemma read_dir_distinct:
  assumes "fs_wf fs" and "read_dir fs p = Inr ns"
  shows "distinct ns"
proof -
  let ?fs = "filter (\<lambda>(q, _). q \<noteq> [] \<and> butlast q = p) fs"
  have "distinct (map fst ?fs)"
    using assms(1) by (simp add: fs_wf_def distinct_map_filter)
  moreover have "inj_on last (set (map fst ?fs))"
    by (auto intro!: inj_onI) (metis append_butlast_last_id)
  ultimately have "distinct (map last (map fst ?fs))"
    unfolding distinct_map by blast
  then show ?thesis using assms(2) by (auto simp: read_dir_def split: if_splits)
qed

section \<open>Lines\<close>

text \<open>
  A line ends at a line feed, with one carriage return before it removed; text after the last
  line feed is a line of its own when it is not empty.
\<close>

definition chomp_cr :: "nat list \<Rightarrow> nat list" where
  "chomp_cr l = (if l \<noteq> [] \<and> last l = 13 then butlast l else l)"

fun lines_acc :: "nat list \<Rightarrow> nat list \<Rightarrow> nat list list" where
  "lines_acc acc [] = (if acc = [] then [] else [rev acc])"
| "lines_acc acc (b # bs) =
     (if b = 10 then chomp_cr (rev acc) # lines_acc [] bs else lines_acc (b # acc) bs)"

definition lines :: "nat list \<Rightarrow> nat list list" where
  "lines bs = lines_acc [] bs"

lemma lines_acc_line:
  "10 \<notin> set l \<Longrightarrow> lines_acc acc (l @ 10 # r) = chomp_cr (rev acc @ l) # lines_acc [] r"
  by (induction l arbitrary: acc) auto

lemma lines_line: "10 \<notin> set l \<Longrightarrow> lines (l @ 10 # r) = chomp_cr l # lines r"
  using lines_acc_line [of l "[]" r] by (simp add: lines_def)

lemma lines_last: "10 \<notin> set l \<Longrightarrow> l \<noteq> [] \<Longrightarrow> lines l = [l]"
proof -
  have "10 \<notin> set l \<Longrightarrow> lines_acc acc l = (if rev acc @ l = [] then [] else [rev acc @ l])" for acc
    by (induction l arbitrary: acc) auto
  then show "10 \<notin> set l \<Longrightarrow> l \<noteq> [] \<Longrightarrow> lines l = [l]" by (simp add: lines_def)
qed

lemma lines_concat:
  "(\<And>l. l \<in> set ls \<Longrightarrow> 10 \<notin> set l) \<Longrightarrow>
     lines (concat (map (\<lambda>l. l @ [10]) ls) @ r) = map chomp_cr ls @ lines r"
  by (induction ls) (auto simp: lines_line)

lemma lines_Nil [simp]: "lines [] = []"
  by (simp add: lines_def)

text \<open>Splitting distributes over a file whose first part ends in a line feed.\<close>

lemma lines_acc_append:
  "lines_acc acc (xs @ 10 # ys) = lines_acc acc (xs @ [10]) @ lines_acc [] ys"
  by (induction xs arbitrary: acc) auto

lemma lines_append_nl: "lines (xs @ 10 # ys) = lines (xs @ [10]) @ lines ys"
  unfolding lines_def by (rule lines_acc_append)

lemma lines_append:
  "xs = [] \<or> last xs = 10 \<Longrightarrow> lines (xs @ ys) = lines xs @ lines ys"
proof -
  assume h: "xs = [] \<or> last xs = 10"
  show ?thesis
  proof (cases xs rule: rev_cases)
    case Nil
    then show ?thesis by simp
  next
    case (snoc zs z)
    with h show ?thesis using lines_append_nl [of zs ys] by simp
  qed
qed

text \<open>The extension of a path name, as \<^verbatim>\<open>Path::extension\<close> computes it: what follows the last dot, unless that dot is first.\<close>

definition extension :: "rstr \<Rightarrow> rstr option" where
  "extension n =
     (if n = lit ''..'' \<or> 46 \<notin> set n then None
      else (let ext = rev (takeWhile (\<lambda>c. c \<noteq> 46) (rev n));
                stem = rev (tl (dropWhile (\<lambda>c. c \<noteq> 46) (rev n)))
            in if stem = [] then None else Some ext))"

definition is_jsonl :: "rstr \<Rightarrow> bool" where
  "is_jsonl n \<longleftrightarrow> extension n = Some (lit ''jsonl'')"

end
