(* ===== verification/Json.thy ===== *)
theory Json
  imports FileSys
begin

text \<open>
  \<^verbatim>\<open>serde_json::Value\<close> with the feature \<^verbatim>\<open>preserve_order\<close> the workspace enables: an object keeps its
  insertion order, \<^verbatim>\<open>insert\<close> replaces in place or appends, and \<^verbatim>\<open>remove\<close> is a swap-remove that moves
  the last entry into the gap.  The locale \<open>inv_store\<close> is the interface the parameter-stripping
  code relies on; \<open>jobj\<close> interprets it on objects with distinct keys.  Numbers are the three
  kinds \<^verbatim>\<open>serde_json\<close> distinguishes; a floating-point number is a mantissa and a binary
  exponent, or not finite.
\<close>

datatype f64 = Finite int int | Infinite bool | NaN

datatype jnum = PosInt nat | NegInt int | Float f64

datatype json = JNull | JBool bool | JNum jnum | JStr rstr | JArr "json list"
  | JObj "(rstr \<times> json) list"

type_synonym jmap = "(rstr \<times> json) list"

definition jget :: "jmap \<Rightarrow> rstr \<Rightarrow> json option" where
  "jget m k = map_of m k"

definition jinsert :: "rstr \<Rightarrow> json \<Rightarrow> jmap \<Rightarrow> jmap" where
  "jinsert k v m = AList.update k v m"

definition jremove :: "rstr \<Rightarrow> jmap \<Rightarrow> jmap" where
  "jremove k m =
     (if k \<in> set (map fst m)
      then (let i = length (takeWhile (\<lambda>e. fst e \<noteq> k) m) in butlast (m[i := last m]))
      else m)"

definition jmap_wf :: "jmap \<Rightarrow> bool" where
  "jmap_wf m \<longleftrightarrow> distinct (map fst m)"

text \<open>\<^verbatim>\<open>Value::get\<close> on an object, \<^verbatim>\<open>as_str\<close> and \<^verbatim>\<open>as_u64\<close>.\<close>

definition value_get :: "json \<Rightarrow> rstr \<Rightarrow> json option" where
  "value_get v k = (case v of JObj m \<Rightarrow> jget m k | _ \<Rightarrow> None)"

definition as_str :: "json \<Rightarrow> rstr option" where
  "as_str v = (case v of JStr s \<Rightarrow> Some s | _ \<Rightarrow> None)"

definition as_u64 :: "json \<Rightarrow> nat option" where
  "as_u64 v = (case v of JNum (PosInt n) \<Rightarrow> Some n | _ \<Rightarrow> None)"

section \<open>Stores with an invariant\<close>

locale inv_store =
  fixes get :: "'s \<Rightarrow> 'k \<Rightarrow> 'v option"
    and put :: "'k \<Rightarrow> 'v \<Rightarrow> 's \<Rightarrow> 's"
    and del :: "'k \<Rightarrow> 's \<Rightarrow> 's"
    and inv :: "'s \<Rightarrow> bool"
  assumes get_put_inv: "inv s \<Longrightarrow> get (put k v s) = (get s)(k \<mapsto> v)"
    and get_del_inv: "inv s \<Longrightarrow> get (del k s) = (get s)(k := None)"
    and inv_put: "inv s \<Longrightarrow> inv (put k v s)"
    and inv_del: "inv s \<Longrightarrow> inv (del k s)"
begin

lemma del_many:
  "inv s \<Longrightarrow> inv (fold del ks s) \<and> get (fold del ks s) = (get s) |` (- set ks)"
proof (induction ks arbitrary: s)
  case Nil
  then show ?case by (simp add: restrict_map_def)
next
  case (Cons k ks)
  from Cons.IH [OF inv_del [OF Cons.prems, of k]] show ?case
    by (auto simp: get_del_inv [OF Cons.prems] restrict_map_def fun_eq_iff)
qed

lemma get_put_del: "inv s \<Longrightarrow> get (put k v (del k s)) = get (put k v s)"
  by (simp add: get_put_inv get_del_inv inv_del)

end

sublocale path_store \<subseteq> istore: inv_store get put del "\<lambda>_. True"
  by unfold_locales (simp_all only: get_put get_del)

section \<open>Swap-remove\<close>

lemma jremove_split:
  assumes "k \<in> set (map fst m)"
  obtains (last) xs v where "m = xs @ [(k, v)]" "k \<notin> fst ` set xs" "jremove k m = xs"
    | (inner) xs v zs l where "m = xs @ (k, v) # zs @ [l]" "k \<notin> fst ` set xs"
        "jremove k m = xs @ l # zs"
proof -
  let ?xs = "takeWhile (\<lambda>e. fst e \<noteq> k) m"
  have xs: "k \<notin> fst ` set ?xs" by (auto dest: set_takeWhileD)
  have ne: "dropWhile (\<lambda>e. fst e \<noteq> k) m \<noteq> []" using assms by auto
  then obtain e ys where e: "dropWhile (\<lambda>e. fst e \<noteq> k) m = e # ys"
    by (cases "dropWhile (\<lambda>e. fst e \<noteq> k) m") auto
  then have "fst e = k" using hd_dropWhile [OF ne] by simp
  then obtain v where ev: "e = (k, v)" by (cases e) auto
  have m: "m = ?xs @ (k, v) # ys" using takeWhile_dropWhile_id [of "\<lambda>e. fst e \<noteq> k" m] e ev by simp
  have r: "jremove k m = butlast (m[length ?xs := last m])"
    using assms by (simp add: jremove_def Let_def)
  have u: "m[length ?xs := last m] = ?xs @ last m # ys"
    using list_update_length [of ?xs "(k, v)" ys "last m"] m by simp
  show ?thesis
  proof (cases ys rule: rev_cases)
    case Nil
    with m xs r u show ?thesis by (intro last [of ?xs v]) (auto simp: butlast_append)
  next
    case (snoc zs l)
    with m have "last m = l" by (metis last_append last_snoc append_is_Nil_conv list.discI append_Cons last_ConsR)
    with snoc m xs r u show ?thesis by (intro inner [of ?xs v zs l]) (auto simp: butlast_append)
  qed
qed

lemma jremove_absent: "jget m k = None \<Longrightarrow> jremove k m = m"
  by (auto simp: jremove_def jget_def map_of_eq_None_iff)

lemma jmap_wf_remove: "jmap_wf m \<Longrightarrow> jmap_wf (jremove k m)"
proof (cases "k \<in> set (map fst m)")
  case True
  assume wf: "jmap_wf m"
  from True show ?thesis by (cases rule: jremove_split) (use wf in \<open>auto simp: jmap_wf_def\<close>)
qed (simp add: jremove_def)

lemma map_of_drop_key:
  "k \<notin> fst ` set xs \<Longrightarrow> k \<notin> fst ` set r \<Longrightarrow>
     (map_of (xs @ (k, v) # r))(k := None) = map_of (xs @ r)"
proof -
  assume "k \<notin> fst ` set xs" "k \<notin> fst ` set r"
  then have n: "map_of xs k = None" "map_of r k = None" by (simp_all add: map_of_eq_None_iff)
  show ?thesis by (rule ext) (simp add: n map_add_def split: option.split)
qed

lemma jget_remove: "jmap_wf m \<Longrightarrow> jget (jremove k m) = (jget m)(k := None)"
proof (cases "k \<in> set (map fst m)")
  case True
  assume wf: "jmap_wf m"
  from True have "map_of (jremove k m) = (map_of m)(k := None)"
  proof (cases rule: jremove_split)
    case (last xs v)
    then show ?thesis using map_of_drop_key [of k xs "[]" v] by simp
  next
    case (inner xs v zs l)
    then have k: "k \<notin> fst ` set (zs @ [l])" using wf by (auto simp: jmap_wf_def)
    have "map_of (xs @ l # zs) = map_of (xs @ zs @ [l])"
      using inner(1) wf by (subst map_of_inject_set) (auto simp: jmap_wf_def)
    with map_of_drop_key [OF inner(2) k, of v] inner(1,3) show ?thesis by simp
  qed
  then show ?thesis by (simp add: jget_def fun_eq_iff)
next
  case False
  then show ?thesis by (auto simp: jremove_def jget_def map_of_eq_None_iff fun_eq_iff)
qed

lemma jget_insert: "jget (jinsert k v m) = (jget m)(k \<mapsto> v)"
  by (auto simp: jget_def jinsert_def update_conv' fun_eq_iff)

lemma jmap_wf_insert: "jmap_wf m \<Longrightarrow> jmap_wf (jinsert k v m)"
  by (simp add: jmap_wf_def jinsert_def distinct_update)

interpretation jobj: inv_store jget jinsert jremove jmap_wf
  by unfold_locales (simp_all add: jget_insert jget_remove jmap_wf_insert jmap_wf_remove)

end
