(* ===== verification/Cypher.thy ===== *)
theory Cypher
  imports Json
begin

text \<open>
  How the WAL code classifies a Cypher statement and prepares its parameters (\<^verbatim>\<open>wal.rs\<close>, and the
  copy of the classification inside \<^verbatim>\<open>replay.rs\<close>): blanking out string literals, recognising index
  DDL and mutations, dropping vector and derived parameters.
\<close>

section \<open>Tokens of a string\<close>

lemma split_ws_ws: "is_whitespace c \<Longrightarrow> split_ws acc (x @ c # y) = split_ws acc x @ split_ws [] y"
  by (induction acc x rule: split_ws.induct) auto

lemma split_whitespace_ws:
  "is_whitespace c \<Longrightarrow> split_whitespace (x @ c # y) = split_whitespace x @ split_whitespace y"
  by (simp add: split_whitespace_def split_ws_ws)

lemma split_ws_word:
  "\<forall>c \<in> set t. \<not> is_whitespace c \<Longrightarrow> split_ws acc t = (if rev acc @ t = [] then [] else [rev acc @ t])"
  by (induction t arbitrary: acc) auto

lemma split_ws_mem:
  "t \<in> set (split_ws acc s) \<Longrightarrow>
     \<exists>a b. rev acc @ s = a @ t @ b \<and> (a = [] \<or> is_whitespace (last a)) \<and> (b = [] \<or> is_whitespace (hd b))"
proof (induction s arbitrary: acc)
  case Nil
  then show ?case by (auto intro!: exI [of _ "[]"] split: if_splits)
next
  case (Cons c s)
  show ?case
  proof (cases "is_whitespace c")
    case True
    with Cons.prems consider "t = rev acc" | "t \<in> set (split_ws [] s)" by (auto split: if_splits)
    then show ?thesis
    proof cases
      case 1
      with True show ?thesis by (intro exI [of _ "[]"] exI [of _ "c # s"]) simp
    next
      case 2
      from Cons.IH [OF this] obtain a b where "s = a @ t @ b" "a = [] \<or> is_whitespace (last a)"
        "b = [] \<or> is_whitespace (hd b)" by auto
      with True show ?thesis by (intro exI [of _ "rev acc @ c # a"] exI [of _ b]) auto
    qed
  next
    case False
    with Cons.prems have "t \<in> set (split_ws (c # acc) s)" by simp
    from Cons.IH [OF this] show ?thesis by simp
  qed
qed

text \<open>A token is a maximal non-empty run without white space.\<close>

lemma split_whitespace_iff:
  "t \<in> set (split_whitespace s) \<longleftrightarrow>
     t \<noteq> [] \<and> (\<forall>c \<in> set t. \<not> is_whitespace c)
     \<and> (\<exists>a b. s = a @ t @ b \<and> (a = [] \<or> is_whitespace (last a)) \<and> (b = [] \<or> is_whitespace (hd b)))"
    (is "_ \<longleftrightarrow> ?R")
proof
  assume "t \<in> set (split_whitespace s)"
  then show ?R using split_whitespace_tokens [of t s] split_ws_mem [of t "[]" s]
    by (simp add: split_whitespace_def)
next
  assume ?R
  then obtain a b where s: "s = a @ t @ b" and t: "t \<noteq> []" "\<forall>c \<in> set t. \<not> is_whitespace c"
    and ab: "a = [] \<or> is_whitespace (last a)" "b = [] \<or> is_whitespace (hd b)" by blast
  have "split_whitespace t = [t]" using t split_ws_word [of t "[]"] by (simp add: split_whitespace_def)
  then have tb: "t \<in> set (split_whitespace (t @ b))"
    using ab(2) by (cases b) (auto simp: split_whitespace_ws)
  show "t \<in> set (split_whitespace s)"
  proof (cases a rule: rev_cases)
    case Nil
    with s tb show ?thesis by simp
  next
    case (snoc a' c)
    with ab(1) s have "split_whitespace s = split_whitespace a' @ split_whitespace (t @ b)"
      using split_whitespace_ws [of c a' "t @ b"] by simp
    with tb show ?thesis by simp
  qed
qed

section \<open>Classification\<close>

text \<open>What remains after the inner loop has consumed a literal up to its closing quote.\<close>

function skip_literal :: "rstr \<Rightarrow> rstr" where
  "skip_literal [] = []"
| "skip_literal (c # cs) =
     (if c = 92 then skip_literal (drop 1 cs) else if c = 39 then cs else skip_literal cs)"
  by pat_completeness auto
termination
  by (relation "measure length") auto

lemma length_skip_literal: "length (skip_literal s) \<le> length s"
  by (induction s rule: skip_literal.induct) auto

function strip_quoted_literals :: "rstr \<Rightarrow> rstr" where
  "strip_quoted_literals [] = []"
| "strip_quoted_literals (c # cs) =
     (if c = 39 then 32 # strip_quoted_literals (skip_literal cs)
      else c # strip_quoted_literals cs)"
  by pat_completeness auto
termination
  by (relation "measure length") (auto simp: le_imp_less_Suc length_skip_literal)

definition is_index_ddl :: "ucd \<Rightarrow> rstr \<Rightarrow> bool" where
  "is_index_ddl U cypher \<longleftrightarrow>
     (let upper = to_uppercase U cypher in
      str_contains upper (lit ''CREATE_VECTOR_INDEX'') \<or> str_contains upper (lit ''CREATE INDEX'')
      \<or> str_contains upper (lit ''CREATE ART INDEX'') \<or> str_contains upper (lit ''DROP INDEX''))"

definition mutation_keywords :: "rstr list" where
  "mutation_keywords = map lit [''CREATE'', ''MERGE'', ''SET'', ''DELETE'', ''DETACH'', ''DROP'', ''REMOVE'']"

definition space_parens :: "rstr \<Rightarrow> rstr" where
  "space_parens s = concat (map (\<lambda>c. if c = 40 \<or> c = 41 then [32, c, 32] else [c]) s)"

definition looks_like_mutation :: "ucd \<Rightarrow> rstr \<Rightarrow> bool" where
  "looks_like_mutation U cypher \<longleftrightarrow>
     (let stripped = strip_quoted_literals (to_uppercase U cypher) in
      list_ex (\<lambda>t. t \<in> set mutation_keywords) (split_whitespace (space_parens stripped)))"

text \<open>The test of \<^verbatim>\<open>replay_opts\<close> for a mutation it knows.\<close>

definition is_known :: "ucd \<Rightarrow> rstr \<Rightarrow> bool" where
  "is_known U cypher \<longleftrightarrow>
     list_ex (\<lambda>t. t \<in> set mutation_keywords)
       (split_whitespace (strip_quoted_literals (to_uppercase U cypher)))"

section \<open>Parameters\<close>

definition VECTOR_PARAM_KEYS :: "rstr list" where
  "VECTOR_PARAM_KEYS = map lit [''name_embedding'', ''fact_embedding'', ''content_embedding'', ''summary_embedding'']"

definition DERIVED_PARAM_KEYS :: "rstr list" where
  "DERIVED_PARAM_KEYS = [lit ''lookup_key'']"

definition strip_vector_params :: "json \<Rightarrow> json" where
  "strip_vector_params params =
     (case params of JObj m \<Rightarrow> JObj (fold jremove VECTOR_PARAM_KEYS m) | other \<Rightarrow> other)"

definition strip_derived_params :: "json \<Rightarrow> json" where
  "strip_derived_params params =
     (case params of JObj m \<Rightarrow> JObj (fold jremove DERIVED_PARAM_KEYS m) | other \<Rightarrow> other)"

lemmas cypher_eval = text_eval is_known_def looks_like_mutation_def is_index_ddl_def
  mutation_keywords_def space_parens_def

section \<open>Properties\<close>

lemma space_parens_append: "space_parens (s @ t) = space_parens s @ space_parens t"
  by (simp add: space_parens_def)

lemma space_parens_id: "40 \<notin> set s \<Longrightarrow> 41 \<notin> set s \<Longrightarrow> space_parens s = s"
  by (induction s) (auto simp: space_parens_def)

lemma ws_not_paren: "is_whitespace c \<Longrightarrow> c \<noteq> 40 \<and> c \<noteq> 41"
  by (auto simp: is_whitespace_def)

lemma space_parens_token:
  assumes "t \<in> set (split_whitespace s)" and "40 \<notin> set t" "41 \<notin> set t"
  shows "t \<in> set (split_whitespace (space_parens s))"
proof -
  obtain a b where s: "s = a @ t @ b" and t: "t \<noteq> []" "\<forall>c \<in> set t. \<not> is_whitespace c"
    and ab: "a = [] \<or> is_whitespace (last a)" "b = [] \<or> is_whitespace (hd b)"
    using assms(1) unfolding split_whitespace_iff by blast
  have "space_parens s = space_parens a @ t @ space_parens b"
    using s assms(2,3) by (simp add: space_parens_append space_parens_id)
  moreover have "space_parens a = [] \<or> is_whitespace (last (space_parens a))"
  proof (cases a rule: rev_cases)
    case (snoc a' c)
    with ab(1) show ?thesis using ws_not_paren [of c] by (simp add: space_parens_append) (simp add: space_parens_def)
  qed (simp add: space_parens_def)
  moreover have "space_parens b = [] \<or> is_whitespace (hd (space_parens b))"
    using ab(2) by (cases b) (auto simp: space_parens_def is_whitespace_def)
  ultimately show ?thesis unfolding split_whitespace_iff using t by blast
qed

lemma mutation_keywords_plain:
  "t \<in> set mutation_keywords \<Longrightarrow> 40 \<notin> set t \<and> 41 \<notin> set t"
  by (auto simp: mutation_keywords_def)

text \<open>Every statement that replay recognises as a mutation also passes the writer's test: treating
  parentheses as token boundaries only adds matches to those of the plain white-space test, it
  takes none away.\<close>

lemma known_implies_logged: "is_known U cypher \<Longrightarrow> looks_like_mutation U cypher"
  unfolding is_known_def looks_like_mutation_def Let_def list_ex_iff
  using space_parens_token mutation_keywords_plain by blast

theorem known_implies_logged_witness:
  "is_known ascii_ucd (lit ''match (n) set n.x = 1'')
   \<and> looks_like_mutation ascii_ucd (lit ''match (n) set n.x = 1'')"
proof -
  have k: "is_known ascii_ucd (lit ''match (n) set n.x = 1'')"
    by (simp add: cypher_eval)
  with known_implies_logged [OF k] show ?thesis by simp
qed

text \<open>The two tests disagree on statements whose keyword touches a parenthesis: the writer logs them
  (they are no index DDL and look like mutations) and replay counts them as unrecognised and
  skips them, so a rebuild from the log loses them.\<close>

lemma logged_but_not_replayed:
  "looks_like_mutation ascii_ucd (lit ''CREATE(:Entity {uuid: $uuid})'')
   \<and> \<not> is_index_ddl ascii_ucd (lit ''CREATE(:Entity {uuid: $uuid})'')
   \<and> \<not> is_known ascii_ucd (lit ''CREATE(:Entity {uuid: $uuid})'')"
  by (simp add: cypher_eval)

text \<open>The index DDL test looks inside string literals, unlike the mutation test: a statement that
  creates a node and mentions the words in a literal is taken for index DDL.\<close>

lemma ddl_test_reads_literals:
  "looks_like_mutation ascii_ucd (lit ''CREATE (:Note {t: 'how to create index'})'')
   \<and> is_index_ddl ascii_ucd (lit ''CREATE (:Note {t: 'how to create index'})'')
   \<and> \<not> str_contains (strip_quoted_literals (lit ''CREATE (:Note {t: 'how to create index'})'')) (lit ''index'')"
  by (simp add: cypher_eval)

lemma strip_keys_get:
  "jmap_wf m \<Longrightarrow> jget (fold jremove ks m) = (jget m) |` (- set ks) \<and> jmap_wf (fold jremove ks m)"
  using jobj.del_many by blast

text \<open>What the writer stores of a parameter object is the object without its four vector keys and
  its derived key, every other binding unchanged and no key duplicated; values that are not
  objects are stored as they are.\<close>

lemma stored_params:
  assumes "jmap_wf m"
  shows "\<exists>m'. strip_derived_params (strip_vector_params (JObj m)) = JObj m' \<and> jmap_wf m'
    \<and> jget m' = (jget m) |` (- (set VECTOR_PARAM_KEYS \<union> set DERIVED_PARAM_KEYS))
    \<and> (\<forall>v. (\<forall>ob. v \<noteq> JObj ob) \<longrightarrow> strip_derived_params (strip_vector_params v) = v)"
proof -
  let ?m1 = "fold jremove VECTOR_PARAM_KEYS m"
  have 1: "jget ?m1 = (jget m) |` (- set VECTOR_PARAM_KEYS)" "jmap_wf ?m1"
    using strip_keys_get [OF assms] by blast+
  have 2: "jget (fold jremove DERIVED_PARAM_KEYS ?m1) = (jget ?m1) |` (- set DERIVED_PARAM_KEYS)"
    "jmap_wf (fold jremove DERIVED_PARAM_KEYS ?m1)"
    using strip_keys_get [OF 1(2)] by blast+
  have other: "strip_derived_params (strip_vector_params v) = v" if "\<forall>ob. v \<noteq> JObj ob" for v
    using that by (cases v) (auto simp: strip_derived_params_def strip_vector_params_def)
  show ?thesis
    using 1 2 other by (auto simp: strip_derived_params_def strip_vector_params_def restrict_map_def fun_eq_iff)
qed

theorem stored_params_witness:
  "\<exists>m'. strip_derived_params (strip_vector_params
      (JObj [(lit ''lookup_key'', JNull), (lit ''name'', JStr (lit ''x'')), (lit ''name_embedding'', JArr [])]))
     = JObj m' \<and> jget m' (lit ''name'') = Some (JStr (lit ''x'')) \<and> jget m' (lit ''lookup_key'') = None"
proof -
  let ?m = "[(lit ''lookup_key'', JNull), (lit ''name'', JStr (lit ''x'')), (lit ''name_embedding'', JArr [])]"
  have wf: "jmap_wf ?m" by code_simp
  have n: "lit ''name'' \<notin> set VECTOR_PARAM_KEYS \<union> set DERIVED_PARAM_KEYS"
    "lit ''lookup_key'' \<in> set DERIVED_PARAM_KEYS" by code_simp+
  from stored_params [OF wf] obtain m' where
    "strip_derived_params (strip_vector_params (JObj ?m)) = JObj m'"
    "jget m' = (jget ?m) |` (- (set VECTOR_PARAM_KEYS \<union> set DERIVED_PARAM_KEYS))" by blast
  moreover from this n have "jget m' (lit ''name'') = Some (JStr (lit ''x''))"
    "jget m' (lit ''lookup_key'') = None" by (simp_all add: jget_def restrict_map_def)
  ultimately show ?thesis by blast
qed

end
