(* ===== verification/LegacyWal.thy ===== *)
theory LegacyWal
  imports Cypher
begin

text \<open>
  The translation of legacy WAL lines (\<^verbatim>\<open>legacy_wal.rs\<close>): removing the \<^verbatim>\<open>vecf32(...)\<close> wrapper,
  promoting inline vector literals to parameters and expanding a bulk property set.  The regular
  expressions are run by the regex crate, so what they match is a parameter; positions are
  counted in characters.
\<close>

section \<open>The vector wrapper\<close>

definition VECF32 :: rstr where
  "VECF32 = lit ''vecf32(''"

definition eq_ci :: "rstr \<Rightarrow> rstr \<Rightarrow> bool" where
  "eq_ci a b \<longleftrightarrow> map ascii_lower a = map ascii_lower b"

text \<open>The first window that equals the needle up to ASCII case.\<close>

fun window_position :: "rstr \<Rightarrow> rstr \<Rightarrow> nat option" where
  "window_position needle [] = (if needle = [] then Some 0 else None)"
| "window_position needle (c # cs) =
     (if eq_ci (take (length needle) (c # cs)) needle then Some 0
      else map_option Suc (window_position needle cs))"

text \<open>The position of the parenthesis that closes the given number of open ones.\<close>

fun close_paren :: "nat \<Rightarrow> rstr \<Rightarrow> nat option" where
  "close_paren depth [] = None"
| "close_paren depth (c # cs) =
     (if c = 40 then map_option Suc (close_paren (depth + 1) cs)
      else if c = 41 then (if depth - 1 = 0 then Some 0 else map_option Suc (close_paren (depth - 1) cs))
      else map_option Suc (close_paren depth cs))"

lemma window_position_bound: "window_position n s = Some k \<Longrightarrow> k \<le> length s \<and> eq_ci (take (length n) (drop k s)) n"
  by (induction s arbitrary: k) (auto simp: eq_ci_def split: if_splits)

lemma VECF32_length [simp]: "length VECF32 = 7"
  by (simp add: VECF32_def)

lemma window_position_VECF32: "window_position VECF32 s = Some k \<Longrightarrow> k + 7 \<le> length s"
proof -
  assume "window_position VECF32 s = Some k"
  then have "eq_ci (take 7 (drop k s)) VECF32" using window_position_bound by force
  then have "length (take 7 (drop k s)) = 7" by (auto simp: eq_ci_def dest: arg_cong [where f = length])
  then show ?thesis by simp
qed

function strip_vecf32 :: "rstr \<Rightarrow> rstr" where
  "strip_vecf32 rest =
     (case window_position VECF32 rest of
        None \<Rightarrow> rest
      | Some rel_pos \<Rightarrow>
          (let after_open = drop (rel_pos + length VECF32) rest in
           take rel_pos rest @
           (case close_paren 1 after_open of
              Some end_pos \<Rightarrow> take end_pos after_open @ strip_vecf32 (drop (end_pos + 1) after_open)
            | None \<Rightarrow> take (length VECF32) (drop rel_pos rest) @ strip_vecf32 after_open)))"
  by pat_completeness auto
termination
  by (relation "measure length") (auto dest!: window_position_VECF32)

declare strip_vecf32.simps [simp del]

section \<open>Inline vector literals\<close>

text \<open>
  The regex crate: \<open>rx_vec key text\<close> is the first match of the pattern for that key, as its start,
  its end and the bracketed literal; \<open>rx_bulk text\<close> lists the matches of the bulk-set pattern as
  start, end, variable and parameter.
\<close>

record regexes =
  rx_vec :: "rstr \<Rightarrow> rstr \<Rightarrow> (nat \<times> nat \<times> rstr) option"
  rx_bulk :: "rstr \<Rightarrow> (nat \<times> nat \<times> rstr \<times> rstr) list"

definition replace_range :: "nat \<Rightarrow> nat \<Rightarrow> rstr \<Rightarrow> rstr \<Rightarrow> rstr" where
  "replace_range a b new s = take a s @ new @ drop b s"

definition promote_key ::
  "regexes \<Rightarrow> (rstr \<Rightarrow> json option) \<Rightarrow> rstr \<Rightarrow> rstr \<times> jmap \<Rightarrow> rstr \<times> jmap" where
  "promote_key R parse vec_key acc =
     (case acc of (result, params) \<Rightarrow>
        (case rx_vec R vec_key result of
           None \<Rightarrow> (result, params)
         | Some (start, stop, cap) \<Rightarrow>
             (case parse cap of
                None \<Rightarrow> (result, params)
              | Some parsed \<Rightarrow>
                  (replace_range start stop (vec_key @ lit '' = $'' @ vec_key) result,
                   jinsert vec_key parsed params))))"

definition promote_inline_vector_literals_to_params ::
  "regexes \<Rightarrow> (rstr \<Rightarrow> json option) \<Rightarrow> rstr \<Rightarrow> json \<Rightarrow> rstr \<times> json" where
  "promote_inline_vector_literals_to_params R parse cypher params =
     (case params of
        JObj m \<Rightarrow> map_prod id JObj (fold (promote_key R parse) VECTOR_PARAM_KEYS (cypher, m))
      | _ \<Rightarrow> (cypher, params))"

section \<open>Bulk property set\<close>

definition bulk_match :: "jmap \<Rightarrow> nat \<times> nat \<times> rstr \<times> rstr \<Rightarrow> (nat \<times> nat \<times> rstr \<times> rstr \<times> jmap) option" where
  "bulk_match param_map cap =
     (case cap of (start, stop, var_name, param_name) \<Rightarrow>
        (case jget param_map param_name of
           Some (JObj obj) \<Rightarrow> if obj \<noteq> [] then Some (start, stop, var_name, param_name, obj) else None
         | _ \<Rightarrow> None))"

definition flat_key :: "rstr \<Rightarrow> rstr \<Rightarrow> rstr" where
  "flat_key param_name key = param_name @ lit ''_'' @ key"

definition bulk_text :: "rstr \<Rightarrow> rstr \<Rightarrow> jmap \<Rightarrow> rstr" where
  "bulk_text var_name param_name obj =
     lit ''SET '' @ str_join (lit '', '')
       (map (\<lambda>(key, value). var_name @ lit ''.'' @ key @ lit '' = $'' @ flat_key param_name key) obj)"

definition bulk_params :: "rstr \<Rightarrow> jmap \<Rightarrow> jmap \<Rightarrow> jmap" where
  "bulk_params param_name obj params =
     fold (\<lambda>(key, value) p. jinsert (flat_key param_name key) value p) obj params"

definition expand_bulk_property_set :: "regexes \<Rightarrow> rstr \<Rightarrow> json \<Rightarrow> rstr \<times> json" where
  "expand_bulk_property_set R cypher params =
     (case params of
        JObj m \<Rightarrow>
          (let matches = List.map_filter (bulk_match m) (rx_bulk R cypher) in
           if matches = [] then (cypher, params)
           else
             (let m' = fold (\<lambda>(start, stop, v, p, obj). bulk_params p obj) matches m;
                  replacements = map (\<lambda>(start, stop, v, p, obj). (start, stop, bulk_text v p obj)) matches;
                  ordered = rev (sort_key fst replacements)
              in (fold (\<lambda>(start, stop, new). replace_range start stop new) ordered cypher, JObj m')))
      | _ \<Rightarrow> (cypher, params))"

section \<open>Removing the wrapper\<close>

lemma eq_ci_VECF32:
  "eq_ci w VECF32 \<longleftrightarrow> length w = 7 \<and> (\<forall>i < 7. ascii_lower (w ! i) = VECF32 ! i)"
proof -
  have l: "map ascii_lower VECF32 = VECF32" by (simp add: VECF32_def ascii_lower_def)
  show ?thesis unfolding eq_ci_def l by (auto simp: list_eq_iff_nth_eq)
qed

lemma window_position_None:
  "window_position n s = None \<longleftrightarrow> (\<forall>k \<le> length s. \<not> eq_ci (take (length n) (drop k s)) n)"
proof (induction s)
  case Nil
  then show ?case by (auto simp: eq_ci_def)
next
  case (Cons c s)
  have "(\<forall>k \<le> length (c # s). P k) \<longleftrightarrow> P 0 \<and> (\<forall>k \<le> length s. P (Suc k))" for P
    using less_Suc_eq_0_disj by (auto simp: le_Suc_eq simp flip: less_Suc_eq_le)
  with Cons show ?case by simp
qed

lemma window_position_least:
  assumes "eq_ci (take (length n) (drop k s)) n" "k \<le> length s"
    and "\<And>j. j < k \<Longrightarrow> \<not> eq_ci (take (length n) (drop j s)) n"
  shows "window_position n s = Some k"
  using assms
proof (induction s arbitrary: k)
  case Nil
  then show ?case by (auto simp: eq_ci_def)
next
  case (Cons c s)
  show ?case
  proof (cases k)
    case 0
    with Cons.prems show ?thesis by simp
  next
    case (Suc j)
    have "\<not> eq_ci (take (length n) (c # s)) n" using Cons.prems(3) [of 0] Suc by simp
    moreover have "window_position n s = Some j"
    proof (rule Cons.IH)
      show "\<not> eq_ci (take (length n) (drop i s)) n" if "i < j" for i
        using Cons.prems(3) [of "Suc i"] Suc that by simp
    qed (use Cons.prems Suc in simp_all)
    ultimately show ?thesis using Suc by simp
  qed
qed

text \<open>An occurrence cannot begin inside another one: only its first character is a v.\<close>

lemma VECF32_no_overlap:
  assumes "eq_ci (take 7 (drop i s)) VECF32" "eq_ci (take 7 (drop j s)) VECF32" "i < j"
  shows "i + 7 \<le> j"
proof (rule ccontr)
  assume "\<not> i + 7 \<le> j"
  then obtain d where d: "j = i + d" "0 < d" "d < 7" using assms(3) by (metis add_diff_inverse_nat less_imp_le nat_add_left_cancel_less not_le zero_less_diff)
  have li: "i + 7 \<le> length s" and lj: "j + 7 \<le> length s"
    using assms(1,2) by (auto simp: eq_ci_VECF32)
  have "ascii_lower (s ! j) = VECF32 ! d"
    using assms(1) d li by (auto simp: eq_ci_VECF32 dest: spec [of _ d])
  moreover have "ascii_lower (s ! j) = VECF32 ! 0"
    using assms(2) lj by (auto simp: eq_ci_VECF32 dest: spec [of _ 0])
  ultimately have "VECF32 ! d = VECF32 ! 0" by simp
  moreover have "d \<in> {1, 2, 3, 4, 5, 6}" using d by auto
  ultimately show False by (auto simp: VECF32_def)
qed

definition no_wrapper :: "rstr \<Rightarrow> bool" where
  "no_wrapper s \<longleftrightarrow> window_position VECF32 s = None"

lemma window_position_first:
  assumes "no_wrapper pre" "eq_ci w VECF32"
  shows "window_position VECF32 (pre @ w @ rest) = Some (length pre)"
proof (rule window_position_least)
  have lw: "length w = 7" using assms(2) by (simp add: eq_ci_VECF32)
  show at: "eq_ci (take (length VECF32) (drop (length pre) (pre @ w @ rest))) VECF32"
    using assms(2) lw by simp
  show "\<not> eq_ci (take (length VECF32) (drop j (pre @ w @ rest))) VECF32" if j: "j < length pre" for j
  proof
    assume h: "eq_ci (take (length VECF32) (drop j (pre @ w @ rest))) VECF32"
    then have "j + 7 \<le> length pre" using VECF32_no_overlap [of j "pre @ w @ rest" "length pre"] at j by simp
    then have "take 7 (drop j (pre @ w @ rest)) = take 7 (drop j pre)" by simp
    with h assms(1) j show False by (auto simp: no_wrapper_def window_position_None)
  qed
qed simp

text \<open>Balanced text: every parenthesis in it is closed in it.\<close>

fun paren_depth :: "nat \<Rightarrow> rstr \<Rightarrow> nat option" where
  "paren_depth d [] = Some d"
| "paren_depth d (c # cs) =
     (if c = 40 then paren_depth (d + 1) cs
      else if c = 41 then (if d = 0 then None else paren_depth (d - 1) cs)
      else paren_depth d cs)"

lemma close_paren_balanced:
  "paren_depth d inner = Some e \<Longrightarrow> close_paren (Suc d) (inner @ rest) = map_option ((+) (length inner)) (close_paren (Suc e) rest)"
proof (induction inner arbitrary: d)
  case Nil
  then show ?case by (cases "close_paren (Suc e) rest") simp_all
next
  case (Cons c cs)
  then show ?case
    by (cases d; cases "close_paren (Suc e) rest") (auto split: if_splits)
qed

text \<open>The vector wrapper is removed and nothing else.  Text without it is kept; where it first occurs,
  in any letter case, with a balanced argument, the argument stays in its place, the text before
  is kept and the rest is treated the same way.\<close>

lemma strip_vecf32_spec:
  "(no_wrapper s \<longrightarrow> strip_vecf32 s = s)
   \<and> (no_wrapper pre \<and> eq_ci w VECF32 \<and> paren_depth 0 inner = Some 0 \<longrightarrow>
        strip_vecf32 (pre @ w @ inner @ 41 # post) = pre @ inner @ strip_vecf32 post)"
proof (intro conjI impI)
  assume "no_wrapper s"
  then show "strip_vecf32 s = s" by (subst strip_vecf32.simps) (simp add: no_wrapper_def)
next
  assume h: "no_wrapper pre \<and> eq_ci w VECF32 \<and> paren_depth 0 inner = Some 0"
  have lw: "length w = 7" using h by (simp add: eq_ci_VECF32)
  have w: "window_position VECF32 (pre @ w @ inner @ 41 # post) = Some (length pre)"
    using h window_position_first by blast
  have "close_paren 1 (inner @ 41 # post) = Some (length inner)"
    using close_paren_balanced [of 0 inner 0 "41 # post"] h by simp
  with lw w show "strip_vecf32 (pre @ w @ inner @ 41 # post) = pre @ inner @ strip_vecf32 post"
    by (subst strip_vecf32.simps) simp
qed

theorem strip_vecf32_spec_witness:
  "strip_vecf32 (lit ''SET n.e = VECF32([0.1, f(2)])'') = lit ''SET n.e = [0.1, f(2)]''"
proof -
  have w: "eq_ci (lit ''VECF32('') VECF32" by (simp add: eq_ci_def VECF32_def ascii_lower_def)
  have p: "paren_depth 0 (lit ''[0.1, f(2)]'') = Some 0" by simp
  have n: "no_wrapper (lit ''SET n.e = '')" by (simp add: no_wrapper_def VECF32_def eq_ci_def ascii_lower_def)
  have n0: "no_wrapper []" by (simp add: no_wrapper_def VECF32_def)
  from strip_vecf32_spec [of "[]" "lit ''SET n.e = ''" "lit ''VECF32(''" "lit ''[0.1, f(2)]''" "[]"] w p n n0
  show ?thesis by simp
qed

section \<open>Expanding a bulk set\<close>

text \<open>The replacements carried out from left to right on disjoint, ascending spans.\<close>

fun splice_spans :: "nat \<Rightarrow> rstr \<Rightarrow> (nat \<times> nat \<times> rstr) list \<Rightarrow> rstr" where
  "splice_spans off s [] = s"
| "splice_spans off s ((a, b, new) # rs) = take (a - off) s @ new @ splice_spans b (drop (b - off) s) rs"

fun spans_ok :: "nat \<Rightarrow> nat \<Rightarrow> (nat \<times> nat \<times> 'a) list \<Rightarrow> bool" where
  "spans_ok off len [] \<longleftrightarrow> off \<le> len"
| "spans_ok off len ((a, b, _) # rs) \<longleftrightarrow> off \<le> a \<and> a \<le> b \<and> spans_ok b len rs"

lemma spans_ok_bounds: "spans_ok off len rs \<Longrightarrow> off \<le> len"
  by (induction off len rs rule: spans_ok.induct) auto

lemma spans_ok_sorted: "spans_ok off len rs \<Longrightarrow> sorted (map fst rs) \<and> (\<forall>r \<in> set rs. off \<le> fst r)"
  by (induction off len rs rule: spans_ok.induct) fastforce+

lemma spans_ok_map: "spans_ok off len (map (\<lambda>(a, b, x). (a, b, f x)) rs) = spans_ok off len rs"
  by (induction off len rs rule: spans_ok.induct) auto

lemma fold_replace_splice:
  "spans_ok off (length s) rs \<Longrightarrow>
     fold (\<lambda>(a, b, new). replace_range a b new) (rev rs) s = take off s @ splice_spans off (drop off s) rs"
proof (induction rs arbitrary: off)
  case (Cons r rs)
  obtain a b new where r: "r = (a, b, new)" by (cases r)
  have o: "off \<le> a" "a \<le> b" "spans_ok b (length s) rs" using Cons.prems r by auto
  then have "b \<le> length s" using spans_ok_bounds by blast
  with o have "replace_range a b new (take b s @ t) = take a s @ new @ t" for t
    by (simp add: replace_range_def min_def)
  moreover have "take a s = take off s @ take (a - off) (drop off s)"
    using o by (metis append_take_drop_id le_add_diff_inverse take_add)
  moreover have "drop (b - off) (drop off s) = drop b s" using o by simp
  ultimately show ?case using Cons.IH [OF o(3)] r by simp
qed simp

definition flat_entries :: "(nat \<times> nat \<times> rstr \<times> rstr \<times> jmap) list \<Rightarrow> jmap" where
  "flat_entries matches =
     concat (map (\<lambda>(_, _, _, p, obj). map (\<lambda>(key, value). (flat_key p key, value)) obj) matches)"

lemma fold_bulk_params:
  "fold (\<lambda>(a, b, v, p, obj). bulk_params p obj) matches m
   = fold (\<lambda>(k, x). jinsert k x) (flat_entries matches) m"
proof -
  have one: "bulk_params p obj m = fold (\<lambda>(k, x). jinsert k x) (map (\<lambda>(key, value). (flat_key p key, value)) obj) m"
    for p obj m by (induction obj arbitrary: m) (auto simp: bulk_params_def)
  show ?thesis
    by (induction matches arbitrary: m) (auto simp: flat_entries_def one)
qed

lemma jget_fold_insert:
  "jget (fold (\<lambda>(k, x). jinsert k x) es m) k = (case map_of (rev es) k of Some x \<Rightarrow> Some x | None \<Rightarrow> jget m k)"
proof (induction es arbitrary: m)
  case (Cons e es)
  obtain k0 x0 where e: "e = (k0, x0)" by (cases e)
  have "jget (jinsert k0 x0 m) k = (if k = k0 then Some x0 else jget m k)"
    by (simp add: jget_def jinsert_def update_conv')
  with Cons e show ?case by (auto split: option.splits)
qed simp

lemma map_filter_spans: "spans_ok off len rs \<Longrightarrow>
   (\<And>r y. f r = Some y \<Longrightarrow> fst y = fst r \<and> fst (snd y) = fst (snd r)) \<Longrightarrow> spans_ok off len (List.map_filter f rs)"
proof (induction off len rs rule: spans_ok.induct)
  case (2 off len a b x rs)
  have ih: "spans_ok b len (List.map_filter f rs)" using 2 by auto
  have mono: "off \<le> b \<Longrightarrow> spans_ok b len ys \<Longrightarrow> spans_ok off len ys" for ys :: "(nat \<times> nat \<times> 'b) list"
    by (cases ys) auto
  show ?case
  proof (cases "f (a, b, x)")
    case None
    with ih mono 2(2) show ?thesis by (simp add: List.map_filter_simps)
  next
    case (Some y)
    then obtain z where "y = (a, b, z)" using 2(3) [OF Some] by (cases y) auto
    with Some ih 2(2) show ?thesis by (simp add: List.map_filter_simps)
  qed
qed (simp add: List.map_filter_def)

text \<open>A bulk property set is expanded in place.  When the matches of the pattern are disjoint and ascend,
  the rewritten statement is the original with each matched span replaced by the list of single
  assignments, everything between the spans kept, although the code replaces from right to
  left; and each parameter is the flattened value of that name, the last one given, or else
  the parameter there was before.\<close>

lemma expand_bulk_spec:
  assumes "spans_ok 0 (length cypher) (rx_bulk R cypher)"
    and "ms = List.map_filter (bulk_match m) (rx_bulk R cypher)"
  shows "\<exists>m'. expand_bulk_property_set R cypher (JObj m)
       = (splice_spans 0 cypher (map (\<lambda>(a, b, v, p, obj). (a, b, bulk_text v p obj)) ms), JObj m')
     \<and> (\<forall>k. jget m' k = (case map_of (rev (flat_entries ms)) k of Some x \<Rightarrow> Some x | None \<Rightarrow> jget m k))"
proof (cases "ms = []")
  case True
  with assms(2) show ?thesis by (simp add: expand_bulk_property_set_def Let_def flat_entries_def)
next
  case False
  let ?rs = "map (\<lambda>(a, b, v, p, obj). (a, b, bulk_text v p obj)) ms"
  have ok: "spans_ok 0 (length cypher) ms"
    unfolding assms(2) by (rule map_filter_spans [OF assms(1)])
      (auto simp: bulk_match_def split: option.splits json.splits if_splits)
  have f: "(\<lambda>(a :: nat, b :: nat, v, p, obj). (a, b, bulk_text v p obj))
      = (\<lambda>(a, b, x). (a, b, (\<lambda>(v, p, obj). bulk_text v p obj) x))" by auto
  from ok have rs: "spans_ok 0 (length cypher) ?rs"
    using spans_ok_map [of 0 "length cypher" "\<lambda>(v, p, obj). bulk_text v p obj" ms] f by simp
  have "sort_key fst ?rs = ?rs"
    by (rule sort_key_id_if_sorted) (rule conjunct1 [OF spans_ok_sorted [OF rs]])
  with fold_replace_splice [OF rs] False
  have "expand_bulk_property_set R cypher (JObj m) = (splice_spans 0 cypher ?rs,
      JObj (fold (\<lambda>(k, x). jinsert k x) (flat_entries ms) m))"
    by (simp add: expand_bulk_property_set_def Let_def fold_bulk_params flip: assms(2))
  then show ?thesis using jget_fold_insert by auto
qed

text \<open>A matcher that finds the bulk set of the witness.\<close>

definition toy_regexes :: regexes where
  "toy_regexes = \<lparr>rx_vec = (\<lambda>_ _. None),
     rx_bulk = (\<lambda>s. if s = lit ''MERGE (n) SET n = $p RETURN n'' then [(10, 20, lit ''n'', lit ''p'')] else [])\<rparr>"

theorem expand_bulk_spec_witness:
  "fst (expand_bulk_property_set toy_regexes (lit ''MERGE (n) SET n = $p RETURN n'')
     (JObj [(lit ''p'', JObj [(lit ''a'', JNull), (lit ''b'', JBool True)])]))
   = lit ''MERGE (n) SET n.a = $p_a, n.b = $p_b RETURN n''"
proof -
  let ?c = "lit ''MERGE (n) SET n = $p RETURN n''"
  let ?m = "[(lit ''p'', JObj [(lit ''a'', JNull), (lit ''b'', JBool True)])]"
  have r: "rx_bulk toy_regexes ?c = [(10, 20, lit ''n'', lit ''p'')]" by (simp add: toy_regexes_def)
  have "List.map_filter (bulk_match ?m) (rx_bulk toy_regexes ?c)
      = [(10, 20, lit ''n'', lit ''p'', [(lit ''a'', JNull), (lit ''b'', JBool True)])]"
    unfolding r by (simp add: bulk_match_def jget_def List.map_filter_simps)
  from expand_bulk_spec [OF _ this [symmetric]] r show ?thesis
    by (fastforce simp: bulk_text_def flat_key_def)
qed

end
