(* ===== verification/ReplayEmbed.thy ===== *)
theory ReplayEmbed
  imports LegacyWal
begin

text \<open>
  Recomputing embeddings during replay (\<^verbatim>\<open>replay.rs\<close>): the statistics record, the window of pending
  rows, the single embedder call for a window with its fallbacks, and the derived lookup key.
  The embedder is a parameter; a component of a vector is given by the exact value it has as a
  double.
\<close>

section \<open>Statistics and rows\<close>

record failure_sample =
  fs_cypher :: rstr
  fs_error :: rstr
  fs_count :: nat
  fs_template :: rstr

record replay_stats =
  lines_replayed :: nat
  unrecognised_lines :: nat
  failed_lines :: nat
  unparseable_lines :: nat
  failed_samples :: "failure_sample list"
  files_read :: nat
  indexes_created :: nat
  match_prefixed_replayed :: nat
  legacy_skipped_lines :: nat
  fidelity_warning :: "rstr option"
  match_prefixed_no_op :: nat
  match_delete_no_op :: nat
  seq_regressions :: nat
  failed_sample_categories_dropped :: nat
  prepare_calls :: nat
  rolled_back_lines :: nat
  last_committed_seq :: "nat option"
  transactions_committed :: nat
  transactions_rolled_back :: nat
  embeddings_recomputed :: nat
  embed_calls :: nat
  embeddings_recompute_skipped_no_text :: nat
  embeddings_recompute_failed :: nat
  embeddings_skip_rows :: nat

definition zero_stats :: replay_stats where
  "zero_stats = \<lparr>lines_replayed = 0, unrecognised_lines = 0, failed_lines = 0, unparseable_lines = 0,
     failed_samples = [], files_read = 0, indexes_created = 0, match_prefixed_replayed = 0,
     legacy_skipped_lines = 0, fidelity_warning = None, match_prefixed_no_op = 0,
     match_delete_no_op = 0, seq_regressions = 0, failed_sample_categories_dropped = 0,
     prepare_calls = 0, rolled_back_lines = 0, last_committed_seq = None,
     transactions_committed = 0, transactions_rolled_back = 0, embeddings_recomputed = 0,
     embed_calls = 0, embeddings_recompute_skipped_no_text = 0, embeddings_recompute_failed = 0,
     embeddings_skip_rows = 0\<rparr>"

definition lines_skipped :: "replay_stats \<Rightarrow> nat" where
  "lines_skipped st = unrecognised_lines st + failed_lines st + unparseable_lines st"

definition embeddings_recompute_had_no_failures :: "replay_stats \<Rightarrow> bool" where
  "embeddings_recompute_had_no_failures st \<longleftrightarrow> embeddings_recompute_failed st = 0"

record replay_row =
  r_cypher :: rstr
  r_params :: jmap
  r_match_prefixed :: bool
  r_seq :: nat

datatype row_embedding_outcome = Proceed | Skip

section \<open>Vectors and the SET clause\<close>

definition EMBEDDING_TEXT_PAIRS :: "(rstr \<times> rstr) list" where
  "EMBEDDING_TEXT_PAIRS =
     [(lit ''name_embedding'', lit ''name''), (lit ''fact_embedding'', lit ''fact''),
      (lit ''content_embedding'', lit ''content''), (lit ''summary_embedding'', lit ''summary'')]"

definition number_from_f64 :: "f64 \<Rightarrow> json option" where
  "number_from_f64 x = (case x of Finite m e \<Rightarrow> Some (JNum (Float (Finite m e))) | _ \<Rightarrow> None)"

definition vector_to_json :: "f64 list \<Rightarrow> json option" where
  "vector_to_json v = map_option JArr (collect_opt number_from_f64 v)"

definition zero_vector_json :: "nat \<Rightarrow> json" where
  "zero_vector_json dim = JArr (replicate dim (JNum (Float (Finite 0 0))))"

definition validate_recomputed_vector :: "f64 list \<Rightarrow> nat \<Rightarrow> json result" where
  "validate_recomputed_vector v dim =
     (if length v \<noteq> dim
      then Inl (Ipc (lit ''recomputed embedding has '' @ show_nat (length v)
             @ lit '' components but the configured embedding dimension is '' @ show_nat dim))
      else case vector_to_json v of
        None \<Rightarrow> Inl (Ipc (lit ''recomputed embedding vector contains a non-finite value''))
      | Some j \<Rightarrow> Inr j)"

lemma str_find_bound: "str_find p s = Some k \<Longrightarrow> k + length p \<le> length s"
  by (drule str_find_SomeD) (auto simp: starts_with_iff dest: arg_cong [where f = length])

lemma find_word_progress:
  "str_find w (drop s h) = Some r \<Longrightarrow> w \<noteq> [] \<Longrightarrow> length h - (s + r + length w) < length h - s"
  using str_find_bound [of w "drop s h" r] by (cases w) auto

function find_word_from :: "rstr \<Rightarrow> rstr \<Rightarrow> nat \<Rightarrow> nat option" where
  "find_word_from haystack word start =
     (case str_find word (drop start haystack) of
        None \<Rightarrow> None
      | Some rel \<Rightarrow>
          (let idx = start + rel;
               before_ok = (idx = 0 \<or> \<not> is_ascii_alphanumeric (haystack ! (idx - 1)));
               after_ok = (idx + length word \<ge> length haystack
                           \<or> \<not> is_ascii_alphanumeric (haystack ! (idx + length word)))
           in if before_ok \<and> after_ok then Some idx
              else if word = [] then None
              else find_word_from haystack word (idx + length word)))"
  by pat_completeness auto
termination
  by (relation "measure (\<lambda>(h, w, s). length h - s)") (auto dest: find_word_progress)

declare find_word_from.simps [simp del]

definition find_word :: "rstr \<Rightarrow> rstr \<Rightarrow> nat option" where
  "find_word haystack word = find_word_from haystack word 0"

definition is_vector_only_set :: "ucd \<Rightarrow> rstr \<Rightarrow> rstr \<Rightarrow> bool" where
  "is_vector_only_set U cypher vec_key =
     (let upper = to_uppercase U cypher in
      case find_word upper (lit ''SET'') of
        None \<Rightarrow> False
      | Some set_idx \<Rightarrow>
          (let set_clause = drop (set_idx + 3) upper in
           if \<not> str_contains set_clause (lit ''$'' @ to_uppercase U vec_key) then False
           else list_all (\<lambda>assignment.
                  list_ex (\<lambda>k. str_contains assignment (lit ''$'' @ to_uppercase U k)) VECTOR_PARAM_KEYS)
                (split_on (\<lambda>c. c = 44) set_clause)))"

section \<open>Resolving a window\<close>

definition apply_key_resolution ::
  "ucd \<Rightarrow> rstr \<Rightarrow> json option \<Rightarrow> nat \<Rightarrow> replay_row \<times> row_embedding_outcome \<Rightarrow> replay_row \<times> row_embedding_outcome" where
  "apply_key_resolution U vec_key recomputed dim ro =
     (case ro of (row, outcome) \<Rightarrow>
        (case recomputed of
           Some json_vector \<Rightarrow> (row\<lparr>r_params := jinsert vec_key json_vector (r_params row)\<rparr>, outcome)
         | None \<Rightarrow>
             if is_vector_only_set U (r_cypher row) vec_key then (row, Skip)
             else (row\<lparr>r_params := jinsert vec_key (zero_vector_json dim) (r_params row)\<rparr>, outcome)))"

text \<open>The keys a row refers to, each with the text to embed when there is one.\<close>

definition source_text :: "replay_row \<Rightarrow> rstr \<Rightarrow> rstr option" where
  "source_text row text_key =
     (case Option.bind (jget (r_params row) text_key) as_str of
        Some text \<Rightarrow> if text \<noteq> [] then Some text else None
      | None \<Rightarrow> None)"

definition row_requests :: "replay_row \<Rightarrow> (rstr \<times> rstr option) list" where
  "row_requests row =
     List.map_filter (\<lambda>(vec_key, text_key).
       if str_contains (r_cypher row) (lit ''$'' @ vec_key) then Some (vec_key, source_text row text_key) else None)
       EMBEDDING_TEXT_PAIRS"

definition window_requests :: "replay_row list \<Rightarrow> (nat \<times> rstr \<times> rstr option) list" where
  "window_requests rows = concat (map (\<lambda>(i, row). map (Pair i) (row_requests row)) (enumerate 0 rows))"

definition immediate_of :: "(nat \<times> rstr \<times> rstr option) list \<Rightarrow> (nat \<times> rstr) list" where
  "immediate_of = List.map_filter (\<lambda>(i, k, t). case t of None \<Rightarrow> Some (i, k) | Some _ \<Rightarrow> None)"

definition queued_of :: "(nat \<times> rstr \<times> rstr option) list \<Rightarrow> ((nat \<times> rstr) \<times> rstr) list" where
  "queued_of = List.map_filter (\<lambda>(i, k, t). map_option (Pair (i, k)) t)"

definition resolve_at ::
  "ucd \<Rightarrow> nat \<Rightarrow> nat \<times> rstr \<Rightarrow> json option \<Rightarrow> (replay_row \<times> row_embedding_outcome) list \<Rightarrow>
     (replay_row \<times> row_embedding_outcome) list" where
  "resolve_at U dim target v ros =
     ros[fst target := apply_key_resolution U (snd target) v dim (ros ! fst target)]"

definition resolve_failed ::
  "ucd \<Rightarrow> nat \<Rightarrow> nat \<times> rstr \<Rightarrow> (replay_row \<times> row_embedding_outcome) list \<times> replay_stats \<Rightarrow>
     (replay_row \<times> row_embedding_outcome) list \<times> replay_stats" where
  "resolve_failed U dim target acc =
     (resolve_at U dim target None (fst acc),
      (snd acc)\<lparr>embeddings_recompute_failed := embeddings_recompute_failed (snd acc) + 1\<rparr>)"

definition resolve_vector ::
  "ucd \<Rightarrow> nat \<Rightarrow> (nat \<times> rstr) \<times> f64 list \<Rightarrow> (replay_row \<times> row_embedding_outcome) list \<times> replay_stats \<Rightarrow>
     (replay_row \<times> row_embedding_outcome) list \<times> replay_stats" where
  "resolve_vector U dim tv acc =
     (case validate_recomputed_vector (snd tv) dim of
        Inr json_vector \<Rightarrow>
          (resolve_at U dim (fst tv) (Some json_vector) (fst acc),
           (snd acc)\<lparr>embeddings_recomputed := embeddings_recomputed (snd acc) + 1\<rparr>)
      | Inl _ \<Rightarrow> resolve_failed U dim (fst tv) acc)"

definition resolve_embed_window ::
  "ucd \<Rightarrow> (rstr list \<Rightarrow> f64 list list result) \<Rightarrow> nat \<Rightarrow> replay_row list \<Rightarrow> replay_stats \<Rightarrow>
     replay_row list \<times> replay_stats" where
  "resolve_embed_window U embed_fn dim window st =
     (let reqs = window_requests window;
          immediate = immediate_of reqs;
          queued = queued_of reqs;
          st1 = st\<lparr>embed_calls := embed_calls st + length queued,
                   embeddings_recompute_skipped_no_text :=
                     embeddings_recompute_skipped_no_text st + length immediate\<rparr>;
          ros1 = fold (\<lambda>target. resolve_at U dim target None) immediate (map (\<lambda>r. (r, Proceed)) window);
          (ros2, st2) =
            (if queued = [] then (ros1, st1)
             else case embed_fn (map snd queued) of
               Inr vectors \<Rightarrow>
                 if length vectors = length queued
                 then fold (resolve_vector U dim) (zip (map fst queued) vectors) (ros1, st1)
                 else fold (resolve_failed U dim) (map fst queued) (ros1, st1)
             | Inl _ \<Rightarrow> fold (resolve_failed U dim) (map fst queued) (ros1, st1));
          skipped = length (filter (\<lambda>(r, out). out = Skip) ros2)
      in (map fst (filter (\<lambda>(r, out). out = Proceed) ros2),
          st2\<lparr>embeddings_skip_rows := embeddings_skip_rows st2 + skipped\<rparr>))"

section \<open>The derived lookup key\<close>

definition KEY_SEPARATOR :: nat where
  "KEY_SEPARATOR = 31"

definition DEFAULT_KIND :: rstr where
  "DEFAULT_KIND = lit ''Entity''"

definition RESERVED_KINDS :: "rstr list" where
  "RESERVED_KINDS = [lit ''Merged'']"

definition normalize_kind :: "rstr option \<Rightarrow> rstr result" where
  "normalize_kind kind =
     (case kind of
        None \<Rightarrow> Inr DEFAULT_KIND
      | Some k \<Rightarrow>
          (let t = trim k in
           if t = [] \<or> KEY_SEPARATOR \<in> set t \<or> t \<in> set RESERVED_KINDS then Inl (InvalidKind k)
           else Inr t))"

definition compute_lookup_key :: "ucd \<Rightarrow> rstr \<Rightarrow> rstr \<Rightarrow> rstr \<Rightarrow> rstr" where
  "compute_lookup_key U group_id kind name =
     group_id @ [KEY_SEPARATOR] @ kind @ [KEY_SEPARATOR] @ ucd_lower_str U (trim name)"

definition param_text :: "jmap \<Rightarrow> rstr \<Rightarrow> rstr option" where
  "param_text params k = Option.bind (jget params k) as_str"

definition inject_derived_lookup_key :: "ucd \<Rightarrow> rstr \<Rightarrow> jmap \<Rightarrow> jmap" where
  "inject_derived_lookup_key U cypher params =
     (if \<not> str_contains cypher (lit ''$lookup_key'') then params
      else
        (let key = (case (param_text params (lit ''group_id''), param_text params (lit ''name'')) of
                (Some group_id, Some name) \<Rightarrow>
                  (let kind = (case param_text params (lit ''kind'') of
                           Some k \<Rightarrow> if trim k \<noteq> [] then k else DEFAULT_KIND
                         | None \<Rightarrow> DEFAULT_KIND)
                   in JStr (compute_lookup_key U group_id kind name))
              | _ \<Rightarrow> JNull)
         in jinsert (lit ''lookup_key'') key params))"

section \<open>A window is its rows one by one\<close>

text \<open>Updates at the positions of a list, block by block.\<close>

definition upd_at :: "nat \<times> ('a \<Rightarrow> 'a) \<Rightarrow> 'a list \<Rightarrow> 'a list" where
  "upd_at u xs = xs[fst u := snd u (xs ! fst u)]"

lemma fold_upd_block:
  "fold upd_at (map (Pair (length pre)) gs) (pre @ x # xs) = pre @ fold (\<lambda>g. g) gs x # xs"
  by (induction gs arbitrary: x) (simp_all add: upd_at_def)

lemma fold_upd_blocks:
  "length xs = length rows \<Longrightarrow>
   fold upd_at (concat (map (\<lambda>(i, r). map (Pair i) (gs r)) (enumerate (length pre) rows))) (pre @ xs)
   = pre @ map2 (\<lambda>r x. fold (\<lambda>g. g) (gs r) x) rows xs"
proof (induction rows arbitrary: pre xs)
  case (Cons r rows)
  then obtain x ys where xs: "xs = x # ys" "length ys = length rows" by (cases xs) auto
  have "fold upd_at (concat (map (\<lambda>(i, r). map (Pair i) (gs r)) (enumerate (length pre) (r # rows)))) (pre @ xs)
      = fold upd_at (concat (map (\<lambda>(i, r). map (Pair i) (gs r)) (enumerate (length (pre @ [x])) rows)))
          ((pre @ [fold (\<lambda>g. g) (gs r) x]) @ ys)"
    using fold_upd_block [of pre "gs r" x ys] xs by simp
  also have "\<dots> = (pre @ [fold (\<lambda>g. g) (gs r) x]) @ map2 (\<lambda>r x. fold (\<lambda>g. g) (gs r) x) rows ys"
    using Cons.IH [of ys "pre @ [fold (\<lambda>g. g) (gs r) x]"] xs(2) by simp
  finally show ?case using xs by simp
qed simp

text \<open>The requests of one row, split as the window splits them.\<close>

definition row_immediate :: "replay_row \<Rightarrow> rstr list" where
  "row_immediate row = List.map_filter (\<lambda>(k, t). case t of None \<Rightarrow> Some k | Some _ \<Rightarrow> None) (row_requests row)"

definition row_queued :: "replay_row \<Rightarrow> (rstr \<times> rstr) list" where
  "row_queued row = List.map_filter (\<lambda>(k, t). map_option (Pair k) t) (row_requests row)"

lemma map_filter_concat: "List.map_filter f (concat xss) = concat (map (List.map_filter f) xss)"
  by (induction xss) (auto simp: List.map_filter_def)

lemma map_filter_map: "List.map_filter f (map g xs) = List.map_filter (f \<circ> g) xs"
  by (induction xs) (auto simp: List.map_filter_simps split: option.split)

lemma map_filter_app: "List.map_filter f (xs @ ys) = List.map_filter f xs @ List.map_filter f ys"
  by (simp add: List.map_filter_def)

lemma map_filter_enumerate:
  assumes "\<And>i rr. List.map_filter F (map (Pair i) rr) = H i rr"
  shows "List.map_filter F (concat (map (\<lambda>(i, r). map (Pair i) (q r)) (enumerate n rows)))
    = concat (map (\<lambda>(i, r). H i (q r)) (enumerate n rows))"
  by (induction rows arbitrary: n) (simp_all add: map_filter_app assms List.map_filter_simps(2))

lemma map_filter_post: "map g (List.map_filter f xs) = List.map_filter (\<lambda>x. map_option g (f x)) xs"
  by (induction xs) (auto simp: List.map_filter_simps split: option.splits)

lemma immediate_window:
  "immediate_of (window_requests rows)
   = concat (map (\<lambda>(i, r). map (Pair i) (row_immediate r)) (enumerate 0 rows))"
proof -
  have "List.map_filter (\<lambda>(i, k, t). case t of None \<Rightarrow> Some (i, k) | Some _ \<Rightarrow> None) (map (Pair i) rr)
      = map (Pair i) (List.map_filter (\<lambda>(k, t). case t of None \<Rightarrow> Some k | Some _ \<Rightarrow> None) rr)" for i :: nat and rr
    unfolding map_filter_map map_filter_post
    by (rule arg_cong2 [where f = List.map_filter]) (auto split: option.splits)
  from map_filter_enumerate [OF this] show ?thesis
    unfolding immediate_of_def window_requests_def row_immediate_def .
qed

lemma queued_window:
  "queued_of (window_requests rows)
   = concat (map (\<lambda>(i, r). map (\<lambda>(k, t). ((i, k), t)) (row_queued r)) (enumerate 0 rows))"
proof -
  have "List.map_filter (\<lambda>(i, k, t). map_option (Pair (i, k)) t) (map (Pair i) rr)
      = map (\<lambda>(k, t). ((i, k), t)) (List.map_filter (\<lambda>(k, t). map_option (Pair k) t) rr)" for i :: nat and rr
    unfolding map_filter_map map_filter_post
    by (rule arg_cong2 [where f = List.map_filter]) (auto simp: fun_eq_iff option.map_comp comp_def)
  from map_filter_enumerate [OF this] show ?thesis
    unfolding queued_of_def window_requests_def row_queued_def .
qed

lemma resolve_at_upd: "resolve_at U dim (i, k) v = upd_at (i, apply_key_resolution U k v dim)"
  by (simp add: resolve_at_def upd_at_def fun_eq_iff)

text \<open>
  An embedder that treats each text on its own: every text gets its vector, or every call fails.
  \<open>g\<close> is the value a text resolves to.
\<close>

definition pointwise :: "(rstr list \<Rightarrow> f64 list list result) \<Rightarrow> nat \<Rightarrow> (rstr \<Rightarrow> json option) \<Rightarrow> bool" where
  "pointwise E dim g \<longleftrightarrow>
     (\<exists>f. (\<forall>ts. E ts = Inr (map f ts))
        \<and> g = (\<lambda>t. case validate_recomputed_vector (f t) dim of Inr j \<Rightarrow> Some j | Inl _ \<Rightarrow> None))
     \<or> (\<forall>ts. \<exists>e. E ts = Inl e) \<and> g = (\<lambda>_. None)"

definition embed_counts :: "(rstr \<Rightarrow> json option) \<Rightarrow> rstr list \<Rightarrow> replay_stats \<Rightarrow> replay_stats" where
  "embed_counts g ts st = st\<lparr>
     embeddings_recomputed := embeddings_recomputed st + length (filter (\<lambda>t. g t \<noteq> None) ts),
     embeddings_recompute_failed := embeddings_recompute_failed st + length (filter (\<lambda>t. g t = None) ts)\<rparr>"

definition resolve_text where
  "resolve_text U dim g tt acc =
     (resolve_at U dim (fst tt) (g (snd tt)) (fst acc), embed_counts g [snd tt] (snd acc))"

lemma fold_resolve_text:
  "fold (resolve_text U dim g) q (ros, st)
   = (fold (\<lambda>(tg, t). resolve_at U dim tg (g t)) q ros, embed_counts g (map snd q) st)"
  by (induction q arbitrary: ros st) (auto simp: resolve_text_def embed_counts_def)

lemma pointwise_phase2:
  assumes "pointwise E dim g"
  shows "(if q = [] then acc
          else case E (map snd q) of
            Inr vs \<Rightarrow> if length vs = length q then fold (resolve_vector U dim) (zip (map fst q) vs) acc
                      else fold (resolve_failed U dim) (map fst q) acc
          | Inl _ \<Rightarrow> fold (resolve_failed U dim) (map fst q) acc) = fold (resolve_text U dim g) q acc"
  using assms unfolding pointwise_def
proof (elim disjE exE conjE)
  fix f assume E: "\<forall>ts. E ts = Inr (map f ts)"
    and g: "g = (\<lambda>t. case validate_recomputed_vector (f t) dim of Inr j \<Rightarrow> Some j | Inl _ \<Rightarrow> None)"
  have "resolve_vector U dim (tg, f t) acc = resolve_text U dim g (tg, t) acc" for tg t acc
    by (auto simp: resolve_vector_def resolve_failed_def resolve_text_def embed_counts_def g split: sum.split)
  then have "fold (resolve_vector U dim) (zip (map fst q) (map f (map snd q))) acc = fold (resolve_text U dim g) q acc"
    by (induction q arbitrary: acc) auto
  then show ?thesis using E by auto
next
  assume E: "\<forall>ts. \<exists>e. E ts = Inl e" and g: "g = (\<lambda>_. None)"
  have "fold (resolve_failed U dim) (map fst q) acc = fold (resolve_text U dim g) q acc"
    by (induction q arbitrary: acc) (simp_all add: resolve_failed_def resolve_text_def embed_counts_def g)
  moreover obtain e where "E (map snd q) = Inl e" using E by blast
  ultimately show ?thesis by simp
qed

text \<open>What becomes of one row.\<close>

definition row_final :: "ucd \<Rightarrow> nat \<Rightarrow> (rstr \<Rightarrow> json option) \<Rightarrow> replay_row \<Rightarrow> replay_row \<times> row_embedding_outcome" where
  "row_final U dim g row =
     fold (\<lambda>h. h) (map (\<lambda>(k, t). apply_key_resolution U k (g t) dim) (row_queued row))
       (fold (\<lambda>h. h) (map (\<lambda>k. apply_key_resolution U k None dim) (row_immediate row)) (row, Proceed))"

definition rows_counts :: "ucd \<Rightarrow> nat \<Rightarrow> (rstr \<Rightarrow> json option) \<Rightarrow> replay_row list \<Rightarrow> replay_stats \<Rightarrow> replay_stats" where
  "rows_counts U dim g rows st =
     (let ts = concat (map (\<lambda>r. map snd (row_queued r)) rows);
          st1 = embed_counts g ts (st\<lparr>embed_calls := embed_calls st + length ts,
             embeddings_recompute_skipped_no_text := embeddings_recompute_skipped_no_text st
               + length (concat (map row_immediate rows))\<rparr>)
      in st1\<lparr>embeddings_skip_rows := embeddings_skip_rows st1
               + length (filter (\<lambda>(r, out). out = Skip) (map (row_final U dim g) rows))\<rparr>)"

lemma map_enumerate_snd: "map (\<lambda>x. h (snd x)) (enumerate n rows) = map h rows"
  by (induction rows arbitrary: n) auto

lemma window_rows:
  assumes "pointwise E dim g"
  shows "resolve_embed_window U E dim rows st =
    (map fst (filter (\<lambda>(r, out). out = Proceed) (map (row_final U dim g) rows)), rows_counts U dim g rows st)"
proof -
  let ?imm = "immediate_of (window_requests rows)" and ?q = "queued_of (window_requests rows)"
  let ?h1 = "\<lambda>r. map (\<lambda>k. apply_key_resolution U k None dim) (row_immediate r)"
  let ?h2 = "\<lambda>r. map (\<lambda>(k, t). apply_key_resolution U k (g t) dim) (row_queued r)"
  let ?ros1 = "map2 (\<lambda>r x. fold (\<lambda>h. h) (?h1 r) x) rows (map (\<lambda>r. (r, Proceed)) rows)"
  have f1: "fold (\<lambda>tg. resolve_at U dim tg None) ?imm (map (\<lambda>r. (r, Proceed)) rows) = ?ros1"
  proof -
    have "fold (\<lambda>tg. resolve_at U dim tg None) ?imm xs
        = fold upd_at (concat (map (\<lambda>(i, r). map (Pair i) (?h1 r)) (enumerate 0 rows))) xs" for xs
    proof -
      have "map (\<lambda>(i, k). (i, apply_key_resolution U k None dim)) ?imm
          = concat (map (\<lambda>(i, r). map (Pair i) (?h1 r)) (enumerate 0 rows))"
        unfolding immediate_window map_concat map_map
        by (rule arg_cong [where f = concat], rule map_cong) auto
      moreover have "fold (\<lambda>tg. resolve_at U dim tg None) is xs
          = fold upd_at (map (\<lambda>(i, k). (i, apply_key_resolution U k None dim)) is) xs" for "is" xs
        by (induction "is" arbitrary: xs) (auto simp: resolve_at_upd)
      ultimately show ?thesis by simp
    qed
    then show ?thesis using fold_upd_blocks [of "map (\<lambda>r. (r, Proceed)) rows" rows ?h1 "[]"] by simp
  qed
  have f2: "fold (\<lambda>(tg, t). resolve_at U dim tg (g t)) ?q ?ros1 = map2 (\<lambda>r x. fold (\<lambda>h. h) (?h2 r) x) rows ?ros1"
  proof -
    have "map (\<lambda>((i, k), t). (i, apply_key_resolution U k (g t) dim)) ?q
        = concat (map (\<lambda>(i, r). map (Pair i) (?h2 r)) (enumerate 0 rows))"
      unfolding queued_window map_concat map_map
      by (rule arg_cong [where f = concat], rule map_cong) auto
    moreover have "fold (\<lambda>(tg, t). resolve_at U dim tg (g t)) qs xs
        = fold upd_at (map (\<lambda>((i, k), t). (i, apply_key_resolution U k (g t) dim)) qs) xs" for qs xs
      by (induction qs arbitrary: xs) (auto simp: resolve_at_upd)
    ultimately show ?thesis using fold_upd_blocks [of ?ros1 rows ?h2 "[]"] by simp
  qed
  have fin: "map2 (\<lambda>r x. fold (\<lambda>h. h) (?h2 r) x) rows ?ros1 = map (row_final U dim g) rows"
    by (induction rows) (simp_all add: row_final_def)
  have ts: "map snd ?q = concat (map (\<lambda>r. map snd (row_queued r)) rows)"
    using map_enumerate_snd [of "\<lambda>r. map snd (row_queued r)" 0 rows]
    by (simp add: queued_window map_concat comp_def split_beta)
  have im: "length ?imm = length (concat (map row_immediate rows))"
    using map_enumerate_snd [of "\<lambda>r. length (row_immediate r)" 0 rows]
    by (simp add: immediate_window length_concat comp_def split_beta)
  have ql: "length ?q = length (concat (map (\<lambda>r. map snd (row_queued r)) rows))"
    using ts by (metis length_map)
  show ?thesis
    unfolding resolve_embed_window_def Let_def pointwise_phase2 [OF assms] fold_resolve_text f1 f2 fin ts im ql
    by (simp add: rows_counts_def Let_def)
qed

text \<open>The rows one window after the other.\<close>

fun resolve_seq where
  "resolve_seq U E dim [] st = ([], st)"
| "resolve_seq U E dim (r # rs) st =
     (let (a, st1) = resolve_embed_window U E dim [r] st; (b, st2) = resolve_seq U E dim rs st1 in (a @ b, st2))"

text \<open>C8: batching the embedder calls changes nothing but their number.  For an embedder that treats each
  text on its own, resolving a window of rows in one call gives the rows, in order, and the
  statistics that resolving every row in a window of its own gives, whatever vectors come back
  and also when every call fails.\<close>

theorem embed_window_is_rowwise:
  assumes "pointwise E dim g"
  shows "resolve_embed_window U E dim rows st = resolve_seq U E dim rows st"
proof (induction rows arbitrary: st)
  case Nil
  show ?case unfolding window_rows [OF assms] by (simp add: rows_counts_def embed_counts_def)
next
  case (Cons r rs)
  have "rows_counts U dim g (r # rs) st = rows_counts U dim g rs (rows_counts U dim g [r] st)"
    by (simp add: rows_counts_def embed_counts_def Let_def)
  then show ?case
    unfolding resolve_seq.simps Cons.IH [symmetric] unfolding window_rows [OF assms] Let_def by simp
qed

definition toy_row :: "nat \<Rightarrow> replay_row" where
  "toy_row n = \<lparr>r_cypher = lit ''CREATE (n {e: $name_embedding})'', r_params = [(lit ''name'', JStr [97 + n])],
     r_match_prefixed = False, r_seq = n\<rparr>"

theorem embed_window_is_rowwise_witness:
  "resolve_embed_window ascii_ucd (\<lambda>ts. Inr (map (\<lambda>t. [Finite 1 0]) ts)) 1 [toy_row 0, toy_row 1] zero_stats
   = resolve_seq ascii_ucd (\<lambda>ts. Inr (map (\<lambda>t. [Finite 1 0]) ts)) 1 [toy_row 0, toy_row 1] zero_stats"
  by (rule embed_window_is_rowwise [where g = "\<lambda>t. case validate_recomputed_vector [Finite 1 0] 1 of Inr j \<Rightarrow> Some j | Inl _ \<Rightarrow> None"])
    (auto simp: pointwise_def)

section \<open>Which vectors are bound\<close>

lemma fold_resolution:
  assumes "fold (\<lambda>(k, v). apply_key_resolution U k v dim) ops (row, out) = (row', Proceed)"
    and "distinct (map fst ops)"
  shows "out = Proceed \<and> r_cypher row' = r_cypher row \<and> r_seq row' = r_seq row
    \<and> r_match_prefixed row' = r_match_prefixed row
    \<and> (\<forall>k. jget (r_params row') k =
         (case map_of ops k of Some v \<Rightarrow> Some (case v of Some j \<Rightarrow> j | None \<Rightarrow> zero_vector_json dim)
          | None \<Rightarrow> jget (r_params row) k))"
  using assms
proof (induction ops arbitrary: row out)
  case (Cons e ops)
  obtain k v where e: "e = (k, v)" by (cases e)
  obtain row1 out1 where s: "apply_key_resolution U k v dim (row, out) = (row1, out1)" by fastforce
  have ih: "out1 = Proceed \<and> r_cypher row' = r_cypher row1 \<and> r_seq row' = r_seq row1
    \<and> r_match_prefixed row' = r_match_prefixed row1
    \<and> (\<forall>k. jget (r_params row') k =
         (case map_of ops k of Some v \<Rightarrow> Some (case v of Some j \<Rightarrow> j | None \<Rightarrow> zero_vector_json dim)
          | None \<Rightarrow> jget (r_params row1) k))"
    by (rule Cons.IH) (use Cons.prems e s in simp_all)
  then have "out = Proceed" and r: "row1 = row\<lparr>r_params := jinsert k (case v of Some j \<Rightarrow> j | None \<Rightarrow> zero_vector_json dim) (r_params row)\<rparr>"
    using s by (auto simp: apply_key_resolution_def split: option.splits if_splits)
  moreover have "k \<notin> set (map fst ops)" using Cons.prems(2) e by simp
  then have "map_of ops k = None" by (simp add: map_of_eq_None_iff)
  ultimately show ?case using ih e by (auto simp: jget_insert split: option.splits)
qed simp

definition row_ops :: "(rstr \<Rightarrow> json option) \<Rightarrow> replay_row \<Rightarrow> (rstr \<times> json option) list" where
  "row_ops g row = map (\<lambda>k. (k, None)) (row_immediate row) @ map (\<lambda>(k, t). (k, g t)) (row_queued row)"

lemma fold_ids: "fold (\<lambda>h. h) (map f xs) = fold f xs"
  by (simp add: fold_map comp_def)

lemma row_final_ops: "row_final U dim g row = fold (\<lambda>(k, v). apply_key_resolution U k v dim) (row_ops g row) (row, Proceed)"
  by (simp add: row_final_def row_ops_def fold_ids fold_map comp_def case_prod_beta')

lemma split_requests:
  assumes "distinct (map fst rs)"
  defines "a \<equiv> List.map_filter (\<lambda>(k, t). case t of None \<Rightarrow> Some k | Some _ \<Rightarrow> None) rs"
    and "b \<equiv> List.map_filter (\<lambda>(k, t). map_option (Pair k) t) rs"
  shows "distinct a \<and> distinct (map fst b) \<and> set a = {k. (k, None) \<in> set rs} \<and> set b = {(k, t). (k, Some t) \<in> set rs}"
  using assms(1) unfolding a_def b_def
proof (induction rs)
  case (Cons r rs)
  obtain k t where r: "r = (k, t)" by (cases r)
  have "(k, x) \<notin> set rs" for x using Cons.prems r by (force simp: image_iff)
  with Cons r show ?case by (cases t) (auto simp: List.map_filter_simps image_iff)
qed (simp add: List.map_filter_def)

lemma row_ops_distinct:
  assumes "distinct (map fst (row_requests row))"
  shows "distinct (map fst (row_ops g row))"
proof -
  note sp = split_requests [OF assms, folded row_immediate_def row_queued_def]
  have "k \<notin> fst ` set (row_queued row)" if "k \<in> set (row_immediate row)" for k
    using sp that eq_key_imp_eq_value [OF assms] by auto blast
  with sp show ?thesis by (auto simp: row_ops_def comp_def case_prod_beta')
qed

lemma requests_distinct: "distinct (map fst (row_requests row))"
proof -
  have "map fst (List.map_filter (\<lambda>(v, t). if P v then Some (v, h t) else None) ps) = filter P (map fst ps)"
    for P :: "rstr \<Rightarrow> bool" and h :: "rstr \<Rightarrow> rstr option" and ps
    by (induction ps) (auto simp: List.map_filter_simps)
  moreover have "distinct (map fst EMBEDDING_TEXT_PAIRS)" by (simp add: EMBEDDING_TEXT_PAIRS_def)
  ultimately show ?thesis unfolding row_requests_def by (simp add: distinct_filter)
qed

lemma requests_mem:
  "(k, x) \<in> set (row_requests row) \<longleftrightarrow>
     (\<exists>t. (k, t) \<in> set EMBEDDING_TEXT_PAIRS \<and> str_contains (r_cypher row) (lit ''$'' @ k) \<and> x = source_text row t)"
proof -
  have "(k, x) \<in> set (List.map_filter (\<lambda>(v, t). if P v then Some (v, h t) else None) ps)
      \<longleftrightarrow> (\<exists>t. (k, t) \<in> set ps \<and> P k \<and> x = h t)"
    for P :: "rstr \<Rightarrow> bool" and h :: "rstr \<Rightarrow> rstr option" and ps
    by (induction ps) (auto simp: List.map_filter_simps split: if_splits)
  then show ?thesis unfolding row_requests_def .
qed

lemma row_ops_map_of:
  assumes "(k, x) \<in> set (row_requests row)"
  shows "map_of (row_ops g row) k = Some (case x of None \<Rightarrow> None | Some t \<Rightarrow> g t)"
    "distinct (map fst (row_ops g row))"
proof -
  note sp = split_requests [OF requests_distinct, of row, folded row_immediate_def row_queued_def]
  show d: "distinct (map fst (row_ops g row))" by (rule row_ops_distinct [OF requests_distinct])
  have "(k, case x of None \<Rightarrow> None | Some t \<Rightarrow> g t) \<in> set (row_ops g row)"
    using assms sp by (cases x) (auto simp: row_ops_def image_iff)
  with d show "map_of (row_ops g row) k = Some (case x of None \<Rightarrow> None | Some t \<Rightarrow> g t)"
    by (simp add: map_of_is_SomeI)
qed

text \<open>A replayed row never binds a stored vector.  Every row that comes out of a window is one of the
  rows that went in, with the same statement, sequence number and kind; each vector parameter
  its statement mentions is bound to the vector computed from the row's own text, or, when there
  is no text or no valid vector, to the zero vector; and no row is bound that way whose
  assignment consists of vectors only.\<close>

lemma embed_window_binds_fresh:
  assumes pw: "pointwise E dim g" and r': "r' \<in> set (fst (resolve_embed_window U E dim rows st))"
  shows "\<exists>row \<in> set rows. r_cypher r' = r_cypher row \<and> r_seq r' = r_seq row
    \<and> r_match_prefixed r' = r_match_prefixed row
    \<and> (\<forall>(vec_key, text_key) \<in> set EMBEDDING_TEXT_PAIRS.
         str_contains (r_cypher row) (lit ''$'' @ vec_key) \<longrightarrow>
           jget (r_params r') vec_key =
             Some (case Option.bind (source_text row text_key) g of
                     Some j \<Rightarrow> j | None \<Rightarrow> zero_vector_json dim))"
proof -
  from r' obtain row where row: "row \<in> set rows" "row_final U dim g row = (r', Proceed)"
    unfolding window_rows [OF pw] by (auto simp: image_iff)
  have d: "distinct (map fst (row_ops g row))"
    by (rule row_ops_distinct [OF requests_distinct])
  note f = fold_resolution [OF row(2) [unfolded row_final_ops] d]
  have "jget (r_params r') k = Some (case Option.bind (source_text row t) g of Some j \<Rightarrow> j | None \<Rightarrow> zero_vector_json dim)"
    if "(k, t) \<in> set EMBEDDING_TEXT_PAIRS" "str_contains (r_cypher row) (lit ''$'' @ k)" for k t
  proof -
    have "(k, source_text row t) \<in> set (row_requests row)" using that requests_mem by blast
    from row_ops_map_of(1) [OF this, of g] f show ?thesis
      by (auto split: option.splits)
  qed
  with f row(1) show ?thesis by (intro bexI [of _ row]) auto
qed

text \<open>The witness: the row has the text a, whose vector is [1].\<close>

theorem embed_window_binds_fresh_witness:
  "\<exists>r' \<in> set (fst (resolve_embed_window ascii_ucd (\<lambda>ts. Inr (map (\<lambda>t. [Finite 1 0]) ts)) 1 [toy_row 0] zero_stats)).
     jget (r_params r') (lit ''name_embedding'') = Some (JArr [JNum (Float (Finite 1 0))])"
proof -
  let ?E = "\<lambda>ts. Inr (map (\<lambda>t. [Finite 1 0]) ts)"
  define g where "g = (\<lambda>t :: rstr. case validate_recomputed_vector [Finite 1 0] 1 of Inr j \<Rightarrow> Some j | Inl _ \<Rightarrow> None)"
  have gv: "g t = Some (JArr [JNum (Float (Finite 1 0))])" for t
    by (simp add: g_def validate_recomputed_vector_def vector_to_json_def number_from_f64_def)
  have pw: "pointwise ?E 1 g" by (auto simp: pointwise_def g_def)
  have c: "str_contains (r_cypher (toy_row 0)) (lit ''$'' @ lit ''name_embedding'')"
    by (simp add: toy_row_def text_eval)
  have rq: "row_requests (toy_row 0) = [(lit ''name_embedding'', Some [97])]"
    by (simp add: row_requests_def EMBEDDING_TEXT_PAIRS_def toy_row_def text_eval List.map_filter_simps source_text_def
        jget_def as_str_def)
  have "row_final ascii_ucd 1 g (toy_row 0) = ((toy_row 0)\<lparr>r_params := jinsert (lit ''name_embedding'')
      (JArr [JNum (Float (Finite 1 0))]) (r_params (toy_row 0))\<rparr>, Proceed)"
    by (simp add: row_final_def row_immediate_def row_queued_def rq List.map_filter_simps apply_key_resolution_def gv)
  then obtain r' where r': "r' \<in> set (fst (resolve_embed_window ascii_ucd ?E 1 [toy_row 0] zero_stats))"
    unfolding window_rows [OF pw] by simp
  have s: "source_text (toy_row 0) (lit ''name'') = Some [97]" by (simp add: source_text_def toy_row_def jget_def as_str_def)
  from embed_window_binds_fresh [OF pw r'] c
  have "\<forall>(k, t) \<in> set EMBEDDING_TEXT_PAIRS. str_contains (r_cypher (toy_row 0)) (lit ''$'' @ k) \<longrightarrow>
     jget (r_params r') k = Some (case Option.bind (source_text (toy_row 0) t) g of Some j \<Rightarrow> j | None \<Rightarrow> zero_vector_json 1)"
    by simp
  then have "jget (r_params r') (lit ''name_embedding'') = Some (JArr [JNum (Float (Finite 1 0))])"
    using c s gv by (auto simp: EMBEDDING_TEXT_PAIRS_def)
  with r' show ?thesis by blast
qed

section \<open>The lookup key\<close>

lemma append_sep_eq:
  assumes "x \<notin> set a" "x \<notin> set b" "a @ x # r = b @ x # s"
  shows "a = b \<and> r = s"
  using assms
proof (induction a arbitrary: b)
  case Nil
  then show ?case by (cases b) auto
next
  case (Cons c a)
  then show ?case by (cases b) auto
qed

text \<open>The lookup key identifies an entity.  For groups and kinds without the separator, equal keys mean
  the same group, the same kind and names that agree up to surrounding white space and case;
  and a kind that \<^verbatim>\<open>normalize_kind\<close> accepts never contains the separator.\<close>

lemma lookup_key_identifies:
  assumes "KEY_SEPARATOR \<notin> set g" "KEY_SEPARATOR \<notin> set g'"
    and "normalize_kind k0 = Inr k" "normalize_kind k0' = Inr k'"
  shows "compute_lookup_key U g k n = compute_lookup_key U g' k' n' \<longleftrightarrow>
    g = g' \<and> k = k' \<and> ucd_lower_str U (trim n) = ucd_lower_str U (trim n')"
proof -
  have k: "KEY_SEPARATOR \<notin> set k" "KEY_SEPARATOR \<notin> set k'"
    using assms(3,4) by (auto simp: normalize_kind_def DEFAULT_KIND_def KEY_SEPARATOR_def Let_def
        split: option.splits if_splits)
  show ?thesis
  proof
    assume "compute_lookup_key U g k n = compute_lookup_key U g' k' n'"
    then have e: "g @ KEY_SEPARATOR # (k @ KEY_SEPARATOR # ucd_lower_str U (trim n))
        = g' @ KEY_SEPARATOR # (k' @ KEY_SEPARATOR # ucd_lower_str U (trim n'))"
      by (simp add: compute_lookup_key_def)
    note 1 = append_sep_eq [OF assms(1,2) e]
    from 1 append_sep_eq [OF k conjunct2 [OF 1]]
    show "g = g' \<and> k = k' \<and> ucd_lower_str U (trim n) = ucd_lower_str U (trim n')" by blast
  qed (simp add: compute_lookup_key_def)
qed

theorem lookup_key_identifies_witness:
  "compute_lookup_key ascii_ucd (lit ''g'') DEFAULT_KIND (lit '' Ada '')
     = compute_lookup_key ascii_ucd (lit ''g'') DEFAULT_KIND (lit ''ADA'')"
proof -
  have n: "normalize_kind None = Inr DEFAULT_KIND" by (simp add: normalize_kind_def)
  have s: "KEY_SEPARATOR \<notin> set (lit ''g'')" by (simp add: KEY_SEPARATOR_def)
  have "ucd_lower_str ascii_ucd (trim (lit '' Ada '')) = ucd_lower_str ascii_ucd (trim (lit ''ADA''))"
    by (simp add: ascii_ucd_def ascii_lower_def text_eval)
  with lookup_key_identifies [OF s s n n, of ascii_ucd] show ?thesis by blast
qed

text \<open>A separator in a group name or an entity name makes two different entities share a key, although
  both kinds are valid.\<close>

lemma lookup_key_collides:
  "normalize_kind (Some (lit ''c'')) = Inr (lit ''c'') \<and> normalize_kind (Some (lit ''b'')) = Inr (lit ''b'')
   \<and> compute_lookup_key ascii_ucd (lit ''a'' @ [31] @ lit ''b'') (lit ''c'') (lit ''n'')
     = compute_lookup_key ascii_ucd (lit ''a'') (lit ''b'') (lit ''c'' @ [31] @ lit ''n'')"
  by (simp add: normalize_kind_def compute_lookup_key_def KEY_SEPARATOR_def RESERVED_KINDS_def ascii_ucd_def ascii_lower_def text_eval)

text \<open>Replay restores the derived key that the writer left out.  For parameters that carry a group, a
  name, a non-blank kind and the key computed from them, storing them without the key and
  injecting it again gives back every binding except the vectors.\<close>

lemma lookup_key_restored:
  assumes wf: "jmap_wf m" and c: "str_contains cypher (lit ''$lookup_key'')"
    and b: "jget m (lit ''group_id'') = Some (JStr g)" "jget m (lit ''name'') = Some (JStr n)"
      "jget m (lit ''kind'') = Some (JStr k)" "trim k \<noteq> []"
      "jget m (lit ''lookup_key'') = Some (JStr (compute_lookup_key U g k n))"
    and s: "strip_derived_params (strip_vector_params (JObj m)) = JObj m'"
  shows "jget (inject_derived_lookup_key U cypher m') = (jget m) |` (- set VECTOR_PARAM_KEYS)"
proof -
  have "jget (fold jremove VECTOR_PARAM_KEYS m) = (jget m) |` (- set VECTOR_PARAM_KEYS)"
    "jmap_wf (fold jremove VECTOR_PARAM_KEYS m)" using strip_keys_get [OF wf] by blast+
  from this(1) strip_keys_get [OF this(2), of DERIVED_PARAM_KEYS] s
  have m': "jget m' = (jget m) |` (- set VECTOR_PARAM_KEYS) |` (- set DERIVED_PARAM_KEYS)"
    by (auto simp: strip_derived_params_def strip_vector_params_def)
  have ne: "lit ''group_id'' \<notin> set VECTOR_PARAM_KEYS \<union> set DERIVED_PARAM_KEYS"
    "lit ''name'' \<notin> set VECTOR_PARAM_KEYS \<union> set DERIVED_PARAM_KEYS"
    "lit ''kind'' \<notin> set VECTOR_PARAM_KEYS \<union> set DERIVED_PARAM_KEYS"
    "lit ''lookup_key'' \<notin> set VECTOR_PARAM_KEYS"
    by (simp_all add: VECTOR_PARAM_KEYS_def DERIVED_PARAM_KEYS_def)
  have "param_text m' (lit ''group_id'') = Some g" "param_text m' (lit ''name'') = Some n"
    "param_text m' (lit ''kind'') = Some k"
    using ne b by (simp_all add: param_text_def m' as_str_def restrict_map_def)
  then have "inject_derived_lookup_key U cypher m' = jinsert (lit ''lookup_key'') (JStr (compute_lookup_key U g k n)) m'"
    using c b(4) by (simp add: inject_derived_lookup_key_def)
  then show ?thesis
    using b(5) ne(4) by (auto simp: jget_insert m' fun_eq_iff restrict_map_def DERIVED_PARAM_KEYS_def)
qed

theorem lookup_key_restored_witness:
  "\<exists>m'. strip_derived_params (strip_vector_params (JObj [(lit ''group_id'', JStr (lit ''g'')),
        (lit ''name'', JStr (lit ''n'')), (lit ''kind'', JStr (lit ''k'')),
        (lit ''lookup_key'', JStr (compute_lookup_key ascii_ucd (lit ''g'') (lit ''k'') (lit ''n'')))])) = JObj m'
     \<and> jget (inject_derived_lookup_key ascii_ucd (lit ''$lookup_key'') m') (lit ''lookup_key'')
       = Some (JStr (compute_lookup_key ascii_ucd (lit ''g'') (lit ''k'') (lit ''n'')))"
proof -
  let ?m = "[(lit ''group_id'', JStr (lit ''g'')), (lit ''name'', JStr (lit ''n'')), (lit ''kind'', JStr (lit ''k'')),
        (lit ''lookup_key'', JStr (compute_lookup_key ascii_ucd (lit ''g'') (lit ''k'') (lit ''n'')))]"
  obtain m' where m': "strip_derived_params (strip_vector_params (JObj ?m)) = JObj m'"
    by (simp add: strip_derived_params_def strip_vector_params_def)
  have wf: "jmap_wf ?m" by (simp add: jmap_wf_def)
  have c: "str_contains (lit ''$lookup_key'') (lit ''$lookup_key'')" by (simp add: text_eval)
  have "jget (inject_derived_lookup_key ascii_ucd (lit ''$lookup_key'') m') = (jget ?m) |` (- set VECTOR_PARAM_KEYS)"
    by (rule lookup_key_restored [OF wf c, where g = "lit ''g''" and n = "lit ''n''" and k = "lit ''k''"])
      (use m' in \<open>simp_all add: jget_def text_eval\<close>)
  then have "jget (inject_derived_lookup_key ascii_ucd (lit ''$lookup_key'') m') (lit ''lookup_key'')
       = Some (JStr (compute_lookup_key ascii_ucd (lit ''g'') (lit ''k'') (lit ''n'')))"
    by (simp add: jget_def restrict_map_def VECTOR_PARAM_KEYS_def)
  with m' show ?thesis by blast
qed

end
