(* ===== verification/ReplayBatch.thy ===== *)
theory ReplayBatch
  imports ReplayEmbed
begin

text \<open>
  Executing replayed rows in batches (\<^verbatim>\<open>replay.rs\<close>, \<^verbatim>\<open>flush_batch\<close>, \<^verbatim>\<open>push_resolved_rows\<close> and
  \<^verbatim>\<open>classify_replay_failure\<close>).  The database connection is a parameter: its operations act on an
  abstract database value, an error of \<^verbatim>\<open>prepare\<close> or of an execution is given as the text the code
  records, and the transaction-control statements return the error they propagate.  A
  cancellation callback is an oracle asked for the n-th time.
\<close>

section \<open>Batches\<close>

record replay_batch =
  b_template :: rstr
  b_rows :: "jmap list"
  b_match_prefixed :: "bool list"
  b_seqs :: "nat list"

definition empty_batch :: replay_batch where
  "empty_batch = \<lparr>b_template = [], b_rows = [], b_match_prefixed = [], b_seqs = []\<rparr>"

record 'p prepared_cache =
  pc_template :: rstr
  pc_use_probe :: bool
  pc_statement :: 'p

record ('d, 'p) conn =
  cn_prepare :: "'d \<Rightarrow> rstr \<Rightarrow> rstr + 'p"
  cn_exec :: "'p \<Rightarrow> json \<Rightarrow> 'd \<Rightarrow> 'd \<times> (rstr + unit)"
  cn_count :: "'p \<Rightarrow> json \<Rightarrow> 'd \<Rightarrow> 'd \<times> (rstr + int)"
  cn_txn :: "rstr \<Rightarrow> 'd \<Rightarrow> 'd \<times> unit result"

record ('d, 'p) rstate =
  rs_db :: 'd
  rs_stats :: replay_stats
  rs_batch :: replay_batch
  rs_cache :: "'p prepared_cache option"
  rs_polls :: nat

type_synonym cancel_fn = "(nat \<Rightarrow> bool) option"

definition with_match_count_probe :: "rstr \<Rightarrow> rstr" where
  "with_match_count_probe template =
     trim_end (rev (dropWhile (\<lambda>c. c = 59) (rev (trim template)))) @ lit '' RETURN count(*)''"

definition is_delete_form :: "ucd \<Rightarrow> rstr \<Rightarrow> bool" where
  "is_delete_form U template \<longleftrightarrow>
     lit ''DELETE'' \<in> set (split_whitespace (strip_quoted_literals (to_uppercase U template)))"

section \<open>Failures\<close>

definition LEGACY_SCHEMA_ERROR_PATTERNS :: "rstr list" where
  "LEGACY_SCHEMA_ERROR_PATTERNS = []"

definition cypher_preview :: "rstr \<Rightarrow> rstr" where
  "cypher_preview template = take 200 (str_join (lit '' '') (split_whitespace (take 400 template)))"

text \<open>The first sample of the category has its count raised; the flag says whether there is one.\<close>

fun bump_sample :: "rstr \<Rightarrow> rstr \<Rightarrow> failure_sample list \<Rightarrow> failure_sample list \<times> bool" where
  "bump_sample template err [] = ([], False)"
| "bump_sample template err (s # ss) =
     (if fs_template s = template \<and> fs_error s = err then (s\<lparr>fs_count := fs_count s + 1\<rparr> # ss, True)
      else (let (ss', found) = bump_sample template err ss in (s # ss', found)))"

definition classify_replay_failure :: "ucd \<Rightarrow> nat \<Rightarrow> rstr \<Rightarrow> rstr \<Rightarrow> replay_stats \<Rightarrow> replay_stats" where
  "classify_replay_failure U sample_cap template err st =
     (let err_lower = ucd_lower_str U err;
          is_legacy = list_ex (\<lambda>pat. str_contains err_lower pat) LEGACY_SCHEMA_ERROR_PATTERNS
      in if is_legacy then st\<lparr>legacy_skipped_lines := legacy_skipped_lines st + 1\<rparr>
         else
           (let st1 = st\<lparr>failed_lines := failed_lines st + 1\<rparr> in
            case bump_sample template err (failed_samples st1) of
              (ss, True) \<Rightarrow> st1\<lparr>failed_samples := ss\<rparr>
            | (_, False) \<Rightarrow>
                if length (failed_samples st1) < sample_cap
                then st1\<lparr>failed_samples := failed_samples st1 @
                       [\<lparr>fs_cypher = cypher_preview template, fs_error = err, fs_count = 1, fs_template = template\<rparr>]\<rparr>
                else st1\<lparr>failed_sample_categories_dropped := failed_sample_categories_dropped st1 + 1\<rparr>))"

section \<open>Executing the rows of a batch\<close>

record local_counts =
  lc_replayed :: nat
  lc_mp_replayed :: nat
  lc_mp_no_op :: nat
  lc_md_no_op :: nat

datatype 'd row_end = RowsDone 'd nat local_counts | RowsCancelled 'd nat | RowsFailed 'd nat rstr

definition poll :: "cancel_fn \<Rightarrow> nat \<Rightarrow> bool \<times> nat" where
  "poll cancel n = (case cancel of None \<Rightarrow> (False, n) | Some f \<Rightarrow> (f n, n + 1))"

definition count_match :: "bool \<Rightarrow> int \<Rightarrow> local_counts \<Rightarrow> local_counts" where
  "count_match is_delete_form_batch n lc =
     (if n > 0 then lc\<lparr>lc_replayed := lc_replayed lc + 1, lc_mp_replayed := lc_mp_replayed lc + 1\<rparr>
      else if is_delete_form_batch then lc\<lparr>lc_md_no_op := lc_md_no_op lc + 1\<rparr>
      else lc\<lparr>lc_mp_no_op := lc_mp_no_op lc + 1\<rparr>)"

definition count_plain :: "bool \<Rightarrow> local_counts \<Rightarrow> local_counts" where
  "count_plain is_match_prefixed lc =
     (let lc1 = lc\<lparr>lc_replayed := lc_replayed lc + 1\<rparr>
      in if is_match_prefixed then lc1\<lparr>lc_mp_replayed := lc_mp_replayed lc1 + 1\<rparr> else lc1)"

fun exec_rows ::
  "('d, 'p) conn \<Rightarrow> cancel_fn \<Rightarrow> 'p \<Rightarrow> bool \<Rightarrow> bool \<Rightarrow> (jmap \<times> bool) list \<Rightarrow> 'd \<Rightarrow> nat \<Rightarrow> local_counts \<Rightarrow> 'd row_end" where
  "exec_rows C cancel p use_probe del [] d n lc = RowsDone d n lc"
| "exec_rows C cancel p use_probe del ((row, mp) # rest) d n lc =
     (case poll cancel n of
        (True, n1) \<Rightarrow> RowsCancelled d n1
      | (False, n1) \<Rightarrow>
          if mp \<and> use_probe
          then (case cn_count C p (JObj row) d of
                  (d1, Inr k) \<Rightarrow> exec_rows C cancel p use_probe del rest d1 n1 (count_match del k lc)
                | (d1, Inl e) \<Rightarrow> RowsFailed d1 n1 e)
          else (case cn_exec C p (JObj row) d of
                  (d1, Inr _) \<Rightarrow> exec_rows C cancel p use_probe del rest d1 n1 (count_plain mp lc)
                | (d1, Inl e) \<Rightarrow> RowsFailed d1 n1 e))"

text \<open>The statement to run: the cached one, the template with the count probe, or the template.\<close>

definition prepare_batch ::
  "ucd \<Rightarrow> ('d, 'p) conn \<Rightarrow> nat \<Rightarrow> 'd \<Rightarrow> 'p prepared_cache option \<Rightarrow> rstr \<Rightarrow> bool list \<Rightarrow> replay_stats \<Rightarrow>
     replay_stats \<times> ('p \<times> bool) option" where
  "prepare_batch U C cap d cache template match_prefixed st =
     (let give_up = (\<lambda>e st. (fold (\<lambda>_. classify_replay_failure U cap template e) match_prefixed st, None));
          plain = (\<lambda>st. let st1 = st\<lparr>prepare_calls := prepare_calls st + 1\<rparr> in
                   case cn_prepare C d template of
                     Inr p \<Rightarrow> (st1, Some (p, False))
                   | Inl e \<Rightarrow> give_up e st1)
      in case cache of
           Some c \<Rightarrow> (st, Some (pc_statement c, pc_use_probe c))
         | None \<Rightarrow>
             if (case match_prefixed of [] \<Rightarrow> False | m # _ \<Rightarrow> m)
             then (let st1 = st\<lparr>prepare_calls := prepare_calls st + 1\<rparr> in
                   case cn_prepare C d (with_match_count_probe template) of
                     Inr p \<Rightarrow> (st1, Some (p, True))
                   | Inl _ \<Rightarrow> plain st1)
             else plain st)"

definition flush_batch ::
  "ucd \<Rightarrow> ('d, 'p) conn \<Rightarrow> nat \<Rightarrow> cancel_fn \<Rightarrow> ('d, 'p) rstate \<Rightarrow> ('d, 'p) rstate \<times> bool result" where
  "flush_batch U C cap cancel s =
     (if b_rows (rs_batch s) = [] then (s, Inr False)
      else
        (let batch = rs_batch s; template = b_template batch; rows = b_rows batch;
             match_prefixed = b_match_prefixed batch; seqs = b_seqs batch; batch_len = length rows;
             is_mp = (case match_prefixed of [] \<Rightarrow> False | m # _ \<Rightarrow> m);
             is_del = (is_mp \<and> is_delete_form U template);
             cached = (case rs_cache s of Some c \<Rightarrow> if pc_template c = template then Some c else None | None \<Rightarrow> None);
             s0 = s\<lparr>rs_batch := empty_batch, rs_cache := None\<rparr>;
             taken = s0\<lparr>rs_batch := empty_batch\<lparr>b_template := template\<rparr>\<rparr>
         in case prepare_batch U C cap (rs_db s) cached template match_prefixed (rs_stats s) of
              (st1, None) \<Rightarrow> (s0\<lparr>rs_stats := st1\<rparr>, Inr False)
            | (st1, Some (p, use_probe)) \<Rightarrow>
                (case cn_txn C (lit ''BEGIN TRANSACTION'') (rs_db s) of
                   (d1, Inl e) \<Rightarrow> (taken\<lparr>rs_db := d1, rs_stats := st1\<rparr>, Inl e)
                 | (d1, Inr _) \<Rightarrow>
                     (case exec_rows C cancel p use_probe is_del (zip rows match_prefixed) d1 (rs_polls s)
                             \<lparr>lc_replayed = 0, lc_mp_replayed = 0, lc_mp_no_op = 0, lc_md_no_op = 0\<rparr> of
                        RowsCancelled d2 n \<Rightarrow>
                          (s0\<lparr>rs_db := fst (cn_txn C (lit ''ROLLBACK'') d2), rs_polls := n,
                              rs_stats := st1\<lparr>rolled_back_lines := rolled_back_lines st1 + batch_len,
                                transactions_rolled_back := transactions_rolled_back st1 + 1\<rparr>\<rparr>, Inr True)
                      | RowsFailed d2 n e \<Rightarrow>
                          (let st2 = classify_replay_failure U cap template e st1 in
                           (s0\<lparr>rs_db := d2, rs_polls := n,
                               rs_stats := st2\<lparr>rolled_back_lines := rolled_back_lines st2 + (batch_len - 1),
                                 transactions_rolled_back := transactions_rolled_back st2 + 1\<rparr>\<rparr>, Inr False))
                      | RowsDone d2 n lc \<Rightarrow>
                          (case cn_txn C (lit ''COMMIT'') d2 of
                             (d3, Inl e) \<Rightarrow> (taken\<lparr>rs_db := d3, rs_polls := n, rs_stats := st1\<rparr>, Inl e)
                           | (d3, Inr _) \<Rightarrow>
                               (s0\<lparr>rs_db := d3, rs_polls := n,
                                   rs_stats := st1\<lparr>
                                     lines_replayed := lines_replayed st1 + lc_replayed lc,
                                     match_prefixed_replayed := match_prefixed_replayed st1 + lc_mp_replayed lc,
                                     match_prefixed_no_op := match_prefixed_no_op st1 + lc_mp_no_op lc,
                                     match_delete_no_op := match_delete_no_op st1 + lc_md_no_op lc,
                                     transactions_committed := transactions_committed st1 + 1,
                                     last_committed_seq :=
                                       (case list_max seqs of None \<Rightarrow> last_committed_seq st1
                                        | Some m \<Rightarrow> opt_max (last_committed_seq st1) m)\<rparr>,
                                   rs_cache := Some \<lparr>pc_template = template, pc_use_probe = use_probe, pc_statement = p\<rparr>\<rparr>,
                                Inr False))))))"

section \<open>Filling batches\<close>

definition push_row :: "replay_row \<Rightarrow> replay_batch \<Rightarrow> replay_batch" where
  "push_row row b =
     b\<lparr>b_template := (if b_rows b = [] then r_cypher row else b_template b),
       b_rows := b_rows b @ [r_params row], b_match_prefixed := b_match_prefixed b @ [r_match_prefixed row],
       b_seqs := b_seqs b @ [r_seq row]\<rparr>"

text \<open>The result says whether a flush was cancelled; the rows that are left are then dropped.\<close>

fun push_resolved_rows ::
  "ucd \<Rightarrow> ('d, 'p) conn \<Rightarrow> nat \<Rightarrow> nat \<Rightarrow> cancel_fn \<Rightarrow> replay_row list \<Rightarrow> ('d, 'p) rstate \<Rightarrow> ('d, 'p) rstate \<times> bool result" where
  "push_resolved_rows U C cap batch_size cancel [] s = (s, Inr False)"
| "push_resolved_rows U C cap batch_size cancel (row # rest) s =
     (case (if b_rows (rs_batch s) \<noteq> [] \<and> b_template (rs_batch s) \<noteq> r_cypher row
            then flush_batch U C cap cancel s else (s, Inr False)) of
        (s1, Inl e) \<Rightarrow> (s1, Inl e)
      | (s1, Inr True) \<Rightarrow> (s1, Inr True)
      | (s1, Inr False) \<Rightarrow>
          (let s2 = s1\<lparr>rs_batch := push_row row (rs_batch s1)\<rparr> in
           case (if length (b_rows (rs_batch s2)) \<ge> batch_size then flush_batch U C cap cancel s2 else (s2, Inr False)) of
             (s3, Inl e) \<Rightarrow> (s3, Inl e)
           | (s3, Inr True) \<Rightarrow> (s3, Inr True)
           | (s3, Inr False) \<Rightarrow> push_resolved_rows U C cap batch_size cancel rest s3))"

section \<open>Every row is counted once\<close>

text \<open>The lines whose fate is recorded, by whatever counter.\<close>

definition accounted :: "replay_stats \<Rightarrow> nat" where
  "accounted st = lines_replayed st + match_prefixed_no_op st + match_delete_no_op st
     + failed_lines st + legacy_skipped_lines st + rolled_back_lines st"

definition sample_total :: "replay_stats \<Rightarrow> nat" where
  "sample_total st = sum_list (map fs_count (failed_samples st)) + failed_sample_categories_dropped st"

lemma bump_sample_total:
  "bump_sample t e ss = (ss', found) \<Longrightarrow>
     length ss' = length ss \<and> sum_list (map fs_count ss') = sum_list (map fs_count ss) + (if found then 1 else 0)"
proof (induction ss arbitrary: ss' found)
  case (Cons x ss)
  then show ?case by (auto split: if_splits prod.splits)
qed simp

lemma classify_fields:
  fixes st U cap t e defines "st' \<equiv> classify_replay_failure U cap t e st"
  shows "failed_lines st' = failed_lines st + 1" "lines_replayed st' = lines_replayed st"
    "match_prefixed_no_op st' = match_prefixed_no_op st" "match_delete_no_op st' = match_delete_no_op st"
    "legacy_skipped_lines st' = legacy_skipped_lines st" "rolled_back_lines st' = rolled_back_lines st"
    "last_committed_seq st' = last_committed_seq st" "transactions_committed st' = transactions_committed st"
    "embeddings_skip_rows st' = embeddings_skip_rows st" "unparseable_lines st' = unparseable_lines st"
    "unrecognised_lines st' = unrecognised_lines st" "seq_regressions st' = seq_regressions st"
    "files_read st' = files_read st"
    "sample_total st' = sample_total st + 1"
    "length (failed_samples st) \<le> cap \<Longrightarrow> length (failed_samples st') \<le> cap"
  unfolding st'_def classify_replay_failure_def sample_total_def
  by (auto simp: Let_def LEGACY_SCHEMA_ERROR_PATTERNS_def split: prod.splits bool.splits dest!: bump_sample_total)

lemma accounted_classify: "accounted (classify_replay_failure U cap t e st) = accounted st + 1"
  by (simp add: accounted_def classify_fields)

text \<open>The counters a failed preparation or a flush leaves alone.\<close>

definition kept :: "replay_stats \<Rightarrow> replay_stats \<Rightarrow> bool" where
  "kept st st' \<longleftrightarrow> embeddings_skip_rows st' = embeddings_skip_rows st \<and> unparseable_lines st' = unparseable_lines st
     \<and> unrecognised_lines st' = unrecognised_lines st \<and> seq_regressions st' = seq_regressions st
     \<and> files_read st' = files_read st"

lemma kept_refl [simp]: "kept st st"
  and kept_trans: "kept a b \<Longrightarrow> kept b c \<Longrightarrow> kept a c"
  by (simp_all add: kept_def)

lemma fold_classify:
  "accounted (fold (\<lambda>_. classify_replay_failure U cap t e) xs st) = accounted st + length xs
   \<and> kept st (fold (\<lambda>_. classify_replay_failure U cap t e) xs st)
   \<and> transactions_committed (fold (\<lambda>_. classify_replay_failure U cap t e) xs st) = transactions_committed st
   \<and> last_committed_seq (fold (\<lambda>_. classify_replay_failure U cap t e) xs st) = last_committed_seq st"
  by (induction xs arbitrary: st) (simp_all add: accounted_classify classify_fields kept_def)

lemma prepare_batch_counts:
  assumes "prepare_batch U C cap d cache t mp st = (st1, r)"
  shows "accounted st1 = accounted st + (if r = None then length mp else 0) \<and> kept st st1
    \<and> transactions_committed st1 = transactions_committed st \<and> last_committed_seq st1 = last_committed_seq st"
proof -
  have b: "accounted (st\<lparr>prepare_calls := n\<rparr>) = accounted st" "kept st (st\<lparr>prepare_calls := n\<rparr>)"
    "transactions_committed (st\<lparr>prepare_calls := n\<rparr>) = transactions_committed st"
    "last_committed_seq (st\<lparr>prepare_calls := n\<rparr>) = last_committed_seq st" for n and st :: replay_stats
    by (simp_all add: accounted_def kept_def)
  have g: "accounted (fold (\<lambda>_. classify_replay_failure U cap t e) mp (st\<lparr>prepare_calls := n\<rparr>)) = accounted st + length mp
      \<and> kept st (fold (\<lambda>_. classify_replay_failure U cap t e) mp (st\<lparr>prepare_calls := n\<rparr>))
      \<and> transactions_committed (fold (\<lambda>_. classify_replay_failure U cap t e) mp (st\<lparr>prepare_calls := n\<rparr>)) = transactions_committed st
      \<and> last_committed_seq (fold (\<lambda>_. classify_replay_failure U cap t e) mp (st\<lparr>prepare_calls := n\<rparr>)) = last_committed_seq st" for n e
    using fold_classify [of U cap t e mp "st\<lparr>prepare_calls := n\<rparr>"] b
      kept_trans [OF b(2) [of st n], of "fold (\<lambda>_. classify_replay_failure U cap t e) mp (st\<lparr>prepare_calls := n\<rparr>)"] by auto
  show ?thesis
    using assms
    by (auto simp: prepare_batch_def Let_def b g split: option.splits if_splits sum.splits)
qed

definition lc_total :: "local_counts \<Rightarrow> nat" where
  "lc_total lc = lc_replayed lc + lc_mp_no_op lc + lc_md_no_op lc"

lemma count_total: "lc_total (count_match del k lc) = lc_total lc + 1" "lc_total (count_plain mp lc) = lc_total lc + 1"
  by (simp_all add: lc_total_def count_match_def count_plain_def Let_def)

lemma exec_rows_total:
  "exec_rows C cancel p up del rows d n lc = RowsDone d' n' lc' \<Longrightarrow> lc_total lc' = lc_total lc + length rows"
proof (induction rows arbitrary: d n lc)
  case (Cons r rows)
  then show ?case
    by (cases r) (auto simp: count_total split: prod.splits bool.splits if_splits sum.splits)
qed simp

definition batch_ok :: "replay_batch \<Rightarrow> bool" where
  "batch_ok b \<longleftrightarrow> length (b_match_prefixed b) = length (b_rows b) \<and> length (b_seqs b) = length (b_rows b)"

lemma flush_batch_empty: "b_rows (rs_batch s) = [] \<Longrightarrow> flush_batch U C cap cancel s = (s, Inr False)"
  by (simp add: flush_batch_def)

text \<open>A flush that returns has counted every row of its batch exactly once and emptied the batch.\<close>

lemma flush_batch_counts:
  assumes ok: "batch_ok (rs_batch s)" and f: "flush_batch U C cap cancel s = (s', Inr b)"
  shows "accounted (rs_stats s') = accounted (rs_stats s) + length (b_rows (rs_batch s))
    \<and> b_rows (rs_batch s') = [] \<and> batch_ok (rs_batch s') \<and> kept (rs_stats s) (rs_stats s')"
proof (cases "b_rows (rs_batch s) = []")
  case True
  then show ?thesis using f ok by (simp add: flush_batch_empty)
next
  case ne: False
  let ?b = "rs_batch s"
  let ?cached = "case rs_cache s of Some c \<Rightarrow> if pc_template c = b_template ?b then Some c else None | None \<Rightarrow> None"
  obtain st1 r where p: "prepare_batch U C cap (rs_db s) ?cached (b_template ?b) (b_match_prefixed ?b) (rs_stats s) = (st1, r)"
    by fastforce
  note pc = prepare_batch_counts [OF p]
  have e: "b_rows empty_batch = []" "batch_ok empty_batch" by (simp_all add: empty_batch_def batch_ok_def)
  note unf = f [unfolded flush_batch_def Let_def p, simplified ne if_False]
  show ?thesis
  proof (cases r)
    case None
    with unf pc e ok show ?thesis by (auto simp: batch_ok_def)
  next
    case (Some pu)
    obtain st up where pu: "pu = (st, up)" by (cases pu)
    have l: "length (zip (b_rows ?b) (b_match_prefixed ?b)) = length (b_rows ?b)" using ok by (simp add: batch_ok_def)
    obtain k where k: "length (b_rows ?b) = Suc k" using ne by (cases "b_rows ?b") auto
    show ?thesis
      using unf pc Some pu e l k
      by (auto simp: accounted_def kept_def lc_total_def classify_fields dest!: exec_rows_total
          split: prod.splits sum.splits row_end.splits)
  qed
qed

text \<open>No failure goes unrecorded.  Classifying a failed line raises the number of failed lines by one and
  adds the line to the count of a sample, to a new sample or to the overflow counter, so the
  counts of the samples and the overflow together always make up the failed lines; and there are
  never more samples than the cap.\<close>

lemma failures_sampled:
  assumes "sample_total st = failed_lines st" and "length (failed_samples st) \<le> cap"
  shows "sample_total (classify_replay_failure U cap t e st) = failed_lines (classify_replay_failure U cap t e st)
    \<and> length (failed_samples (classify_replay_failure U cap t e st)) \<le> cap"
  using assms by (simp add: classify_fields)

theorem failures_sampled_witness:
  "sample_total (classify_replay_failure ascii_ucd 1 [] [] zero_stats)
     = failed_lines (classify_replay_failure ascii_ucd 1 [] [] zero_stats)"
  using failures_sampled [of zero_stats 1 ascii_ucd "[]" "[]"] by (simp add: zero_stats_def sample_total_def)

text \<open>The overflow counter counts lines, not categories: with room for one sample, a second category that
  fails twice is counted twice, although one category was dropped.\<close>

lemma dropped_counts_lines:
  "failed_sample_categories_dropped
     (classify_replay_failure ascii_ucd 1 (lit ''B'') (lit ''e'')
       (classify_replay_failure ascii_ucd 1 (lit ''B'') (lit ''e'')
         (classify_replay_failure ascii_ucd 1 (lit ''A'') (lit ''e'') zero_stats))) = 2"
  by (simp add: classify_replay_failure_def LEGACY_SCHEMA_ERROR_PATTERNS_def zero_stats_def Let_def)

section \<open>Transactions\<close>

text \<open>
  How the code understands the engine: a database value has a committed graph and, inside a
  transaction, a working graph; \<open>en_sem\<close> is what executing a template does to a graph and
  \<open>en_eff\<close> the same for a prepared statement.
\<close>

record ('d, 'p, 'g) engine =
  en_graph :: "'d \<Rightarrow> 'g"
  en_work :: "'d \<Rightarrow> 'g"
  en_open :: "'d \<Rightarrow> bool"
  en_eff :: "'p \<Rightarrow> json \<Rightarrow> 'g \<Rightarrow> 'g option"
  en_sem :: "rstr \<Rightarrow> json \<Rightarrow> 'g \<Rightarrow> 'g option"

text \<open>
  The documented behaviour: preparing a template yields its effect; appending the count probe
  changes no effect; BEGIN opens a transaction on the committed graph or changes nothing; inside
  a transaction a statement works on the working graph only, and an execution error ends the
  transaction without a trace; only COMMIT changes the committed graph; COMMIT ends the
  transaction when it succeeds and ROLLBACK leaves none open.
\<close>

definition txn_ok :: "('d, 'p) conn \<Rightarrow> ('d, 'p, 'g) engine \<Rightarrow> bool" where
  "txn_ok C N \<longleftrightarrow>
     (\<forall>d d' r. cn_txn C (lit ''BEGIN TRANSACTION'') d = (d', r) \<longrightarrow>
          en_graph N d' = en_graph N d
          \<and> (if r = Inr () then en_open N d' \<and> en_work N d' = en_graph N d else en_open N d' = en_open N d))
     \<and> (\<forall>d d' r. cn_txn C (lit ''COMMIT'') d = (d', r) \<longrightarrow>
          en_graph N d' = (if r = Inr () then en_work N d else en_graph N d) \<and> (r = Inr () \<longrightarrow> \<not> en_open N d'))
     \<and> (\<forall>d d' r. cn_txn C (lit ''ROLLBACK'') d = (d', r) \<longrightarrow> en_graph N d' = en_graph N d \<and> \<not> en_open N d')"

definition run_ok :: "('d, 'p) conn \<Rightarrow> ('d, 'p, 'g) engine \<Rightarrow> bool" where
  "run_ok C N \<longleftrightarrow>
     (\<forall>p v d d' r. cn_exec C p v d = (d', r) \<longrightarrow> en_open N d \<longrightarrow>
          en_graph N d' = en_graph N d \<and> en_open N d' = (r = Inr ())
          \<and> (r = Inr () \<longrightarrow> en_eff N p v (en_work N d) = Some (en_work N d')))
     \<and> (\<forall>p v d d' r. cn_count C p v d = (d', r) \<longrightarrow> en_open N d \<longrightarrow>
          en_graph N d' = en_graph N d \<and> en_open N d' = (\<exists>k. r = Inr k)
          \<and> (\<forall>k. r = Inr k \<longrightarrow> en_eff N p v (en_work N d) = Some (en_work N d')))"

definition engine_ok :: "('d, 'p) conn \<Rightarrow> ('d, 'p, 'g) engine \<Rightarrow> bool" where
  "engine_ok C N \<longleftrightarrow>
     (\<forall>d t p. cn_prepare C d t = Inr p \<longrightarrow> en_eff N p = en_sem N t)
     \<and> (\<forall>t. en_sem N (with_match_count_probe t) = en_sem N t)
     \<and> txn_ok C N \<and> run_ok C N"

lemma engine_prepare: "engine_ok C N \<Longrightarrow> cn_prepare C d t = Inr p \<Longrightarrow> en_eff N p = en_sem N t"
  unfolding engine_ok_def by blast

lemma engine_probe: "engine_ok C N \<Longrightarrow> en_sem N (with_match_count_probe t) = en_sem N t"
  unfolding engine_ok_def by blast

lemma engine_parts: "engine_ok C N \<Longrightarrow> txn_ok C N" "engine_ok C N \<Longrightarrow> run_ok C N"
  unfolding engine_ok_def by blast+

lemma engine_begin:
  assumes "engine_ok C N" and "cn_txn C (lit ''BEGIN TRANSACTION'') d = (d', r)"
  shows "en_graph N d' = en_graph N d"
    "if r = Inr () then en_open N d' \<and> en_work N d' = en_graph N d else en_open N d' = en_open N d"
  using engine_parts(1) [OF assms(1), unfolded txn_ok_def, THEN conjunct1] assms(2) by blast+

lemma engine_commit:
  assumes "engine_ok C N" and "cn_txn C (lit ''COMMIT'') d = (d', r)"
  shows "en_graph N d' = (if r = Inr () then en_work N d else en_graph N d)" "r = Inr () \<Longrightarrow> \<not> en_open N d'"
  using engine_parts(1) [OF assms(1), unfolded txn_ok_def, THEN conjunct2, THEN conjunct1] assms(2) by blast+

lemma engine_rollback:
  assumes "engine_ok C N" and "cn_txn C (lit ''ROLLBACK'') d = (d', r)"
  shows "en_graph N d' = en_graph N d" "\<not> en_open N d'"
  using engine_parts(1) [OF assms(1), unfolded txn_ok_def, THEN conjunct2, THEN conjunct2] assms(2) by blast+

lemma engine_exec:
  assumes "engine_ok C N" and "cn_exec C p v d = (d', r)" and "en_open N d"
  shows "en_graph N d' = en_graph N d \<and> en_open N d' = (r = Inr ())
    \<and> (r = Inr () \<longrightarrow> en_eff N p v (en_work N d) = Some (en_work N d'))"
  using engine_parts(2) [OF assms(1), unfolded run_ok_def, THEN conjunct1] assms(2,3) by blast

lemma engine_count:
  assumes "engine_ok C N" and "cn_count C p v d = (d', r)" and "en_open N d"
  shows "en_graph N d' = en_graph N d \<and> en_open N d' = (\<exists>k. r = Inr k)
    \<and> (\<forall>k. r = Inr k \<longrightarrow> en_eff N p v (en_work N d) = Some (en_work N d'))"
  using engine_parts(2) [OF assms(1), unfolded run_ok_def, THEN conjunct2] assms(2,3) by blast

text \<open>A statement that has an effect can be run inside a transaction; one transaction at a time can be
  opened, and an open one can be committed.\<close>

definition engine_live :: "('d, 'p) conn \<Rightarrow> ('d, 'p, 'g) engine \<Rightarrow> bool" where
  "engine_live C N \<longleftrightarrow>
     (\<forall>d t. \<exists>p. cn_prepare C d t = Inr p)
     \<and> (\<forall>d. \<not> en_open N d \<longrightarrow> (\<exists>d'. cn_txn C (lit ''BEGIN TRANSACTION'') d = (d', Inr ())))
     \<and> (\<forall>d. en_open N d \<longrightarrow> (\<exists>d'. cn_txn C (lit ''COMMIT'') d = (d', Inr ())))
     \<and> (\<forall>p v d. en_open N d \<longrightarrow> en_eff N p v (en_work N d) \<noteq> None \<longrightarrow>
          (\<exists>d'. cn_exec C p v d = (d', Inr ())) \<and> (\<exists>d' k. cn_count C p v d = (d', Inr k)))"

fun run_rows :: "(json \<Rightarrow> 'g \<Rightarrow> 'g option) \<Rightarrow> jmap list \<Rightarrow> 'g \<Rightarrow> 'g option" where
  "run_rows e [] g = Some g"
| "run_rows e (r # rs) g = Option.bind (e (JObj r) g) (run_rows e rs)"

lemma run_rows_append: "run_rows e (xs @ ys) g = Option.bind (run_rows e xs g) (run_rows e ys)"
  by (induction xs arbitrary: g) (auto split: bind_splits)

definition cache_ok :: "('d, 'p, 'g) engine \<Rightarrow> 'p prepared_cache option \<Rightarrow> bool" where
  "cache_ok N cache \<longleftrightarrow> (\<forall>c. cache = Some c \<longrightarrow> en_eff N (pc_statement c) = en_sem N (pc_template c))"

lemma exec_rows_run:
  assumes "engine_ok C N"
  shows "en_open N d \<Longrightarrow> (case exec_rows C cancel p up del rows d n lc of
      RowsDone d' _ _ \<Rightarrow> en_graph N d' = en_graph N d \<and> en_open N d'
        \<and> run_rows (en_eff N p) (map fst rows) (en_work N d) = Some (en_work N d')
    | RowsCancelled d' _ \<Rightarrow> en_graph N d' = en_graph N d \<and> en_open N d'
    | RowsFailed d' _ _ \<Rightarrow> en_graph N d' = en_graph N d \<and> \<not> en_open N d')"
proof (induction rows arbitrary: d n lc)
  case (Cons r rows)
  obtain row mp where r: "r = (row, mp)" by (cases r)
  obtain b n1 where pl: "poll cancel n = (b, n1)" by fastforce
  show ?case
  proof (cases b)
    case True
    then show ?thesis using Cons.prems by (simp add: r pl)
  next
    case nb: False
    show ?thesis
    proof (cases "mp \<and> up")
      case True
      obtain d1 x1 where e1: "cn_count C p (JObj row) d = (d1, x1)" by fastforce
      note c1 = engine_count [OF assms e1 Cons.prems]
      show ?thesis
      proof (cases x1)
        case (Inr k)
        with Cons.IH [of d1 n1 "count_match del k lc"] c1 nb True show ?thesis
          by (simp add: r pl e1 split: row_end.splits)
      qed (use c1 nb True in \<open>simp add: r pl e1\<close>)
    next
      case False
      obtain d2 x2 where e2: "cn_exec C p (JObj row) d = (d2, x2)" by fastforce
      note c2 = engine_exec [OF assms e2 Cons.prems]
      show ?thesis
      proof (cases x2)
        case (Inr k)
        with Cons.IH [of d2 n1 "count_plain mp lc"] c2 nb False show ?thesis
          by (auto simp add: r pl e2 split: row_end.splits)
      qed (use c2 nb False in \<open>auto simp add: r pl e2\<close>)
    qed
  qed
qed simp

lemma prepare_batch_sem:
  assumes "engine_ok C N" "cache_ok N cache" "\<And>c. cache = Some c \<Longrightarrow> pc_template c = t"
    and "prepare_batch U C cap d cache t mp st = (st1, Some (p, up))"
  shows "en_eff N p = en_sem N t"
proof -
  show ?thesis
    using assms(2-4) engine_prepare [OF assms(1)] engine_probe [OF assms(1)]
    by (cases cache) (auto simp: prepare_batch_def cache_ok_def Let_def split: if_splits sum.splits)
qed


section \<open>A concrete engine\<close>

text \<open>A graph is the list of the parameters executed; a statement fails on one particular value.\<close>

definition toy_step :: "json \<Rightarrow> json list \<Rightarrow> json list option" where
  "toy_step v g = (if v = JObj [(lit ''bad'', JNull)] then None else Some (g @ [v]))"

definition toy_exec :: "json \<Rightarrow> 'a \<Rightarrow> json list \<times> json list option \<Rightarrow> (json list \<times> json list option) \<times> (rstr + 'a)" where
  "toy_exec v a = (\<lambda>(g, w). case w of
     None \<Rightarrow> ((case toy_step v g of Some g' \<Rightarrow> g' | None \<Rightarrow> g, None), Inr a)
   | Some w0 \<Rightarrow> (case toy_step v w0 of Some w' \<Rightarrow> ((g, Some w'), Inr a) | None \<Rightarrow> ((g, None), Inl [])))"

definition toy_txn :: "rstr \<Rightarrow> json list \<times> json list option \<Rightarrow> (json list \<times> json list option) \<times> unit result" where
  "toy_txn t = (\<lambda>(g, w). case w of
     None \<Rightarrow> if t = lit ''BEGIN TRANSACTION'' then ((g, Some g), Inr ()) else ((g, None), Inl (Lbug []))
   | Some w0 \<Rightarrow> if t = lit ''COMMIT'' then ((w0, None), Inr ())
       else if t = lit ''ROLLBACK'' then ((g, None), Inr ()) else ((g, Some w0), Inl (Lbug [])))"

definition toy_conn :: "(json list \<times> json list option, unit) conn" where
  "toy_conn = \<lparr>cn_prepare = (\<lambda>d t. Inr ()), cn_exec = (\<lambda>p v. toy_exec v ()), cn_count = (\<lambda>p v. toy_exec v 1),
     cn_txn = toy_txn\<rparr>"

definition toy_engine :: "(json list \<times> json list option, unit, json list) engine" where
  "toy_engine = \<lparr>en_graph = fst, en_work = (\<lambda>(g, w). case w of Some w0 \<Rightarrow> w0 | None \<Rightarrow> g),
     en_open = (\<lambda>(g, w). w \<noteq> None), en_eff = (\<lambda>_. toy_step), en_sem = (\<lambda>_. toy_step)\<rparr>"

lemmas toy_conn_defs = toy_conn_def toy_engine_def toy_exec_def toy_txn_def

lemma toy_engine_ok: "engine_ok toy_conn toy_engine"
proof -
  have "txn_ok toy_conn toy_engine"
    by (auto simp: txn_ok_def toy_conn_defs lit_def split: option.splits if_splits)
  moreover have "run_ok toy_conn toy_engine"
    by (auto simp: run_ok_def toy_conn_defs split: option.splits)
  ultimately show ?thesis by (simp add: engine_ok_def toy_conn_defs)
qed

lemma toy_engine_live: "engine_live toy_conn toy_engine"
  by (auto simp: engine_live_def toy_conn_defs split: option.splits)

definition toy_rstate :: "(json list \<times> json list option, unit) rstate" where
  "toy_rstate = \<lparr>rs_db = ([], None), rs_stats = zero_stats,
     rs_batch = \<lparr>b_template = lit ''T'', b_rows = [[(lit ''a'', JNull)], [(lit ''b'', JNull)]],
       b_match_prefixed = [False, False], b_seqs = [4, 3]\<rparr>, rs_cache = None, rs_polls = 0\<rparr>"


section \<open>When nothing fails\<close>

lemma flush_atomic_cache:
  assumes en: "engine_ok C N" and ok: "batch_ok (rs_batch s)" and ca: "cache_ok N (rs_cache s)"
    and f: "flush_batch U C cap cancel s = (s', r)"
  shows "cache_ok N (rs_cache s')"
proof (cases "b_rows (rs_batch s) = []")
  case True
  then show ?thesis using f ca by (simp add: flush_batch_empty)
next
  case ne: False
  let ?b = "rs_batch s"
  let ?cached = "case rs_cache s of Some c \<Rightarrow> if pc_template c = b_template ?b then Some c else None | None \<Rightarrow> None"
  obtain st1 o1 where p: "prepare_batch U C cap (rs_db s) ?cached (b_template ?b) (b_match_prefixed ?b) (rs_stats s) = (st1, o1)"
    by fastforce
  have c0: "cache_ok N ?cached" "\<And>c. ?cached = Some c \<Longrightarrow> pc_template c = b_template ?b"
    using ca by (auto simp: cache_ok_def split: option.splits if_splits)
  have "rs_cache s' = None \<or> (\<exists>pp up. o1 = Some (pp, up)
      \<and> rs_cache s' = Some \<lparr>pc_template = b_template ?b, pc_use_probe = up, pc_statement = pp\<rparr>)"
    using f [unfolded flush_batch_def Let_def p, simplified ne if_False]
    by (auto split: option.splits prod.splits sum.splits row_end.splits)
  then show ?thesis
    using prepare_batch_sem [OF en c0] p by (auto simp: cache_ok_def)
qed

lemma exec_rows_live:
  assumes en: "engine_ok C N" and li: "engine_live C N"
  shows "run_rows (en_eff N p) (map fst rows) (en_work N d) = Some g \<Longrightarrow> en_open N d \<Longrightarrow>
    \<exists>d' n' lc'. exec_rows C None p up del rows d n lc = RowsDone d' n' lc' \<and> en_work N d' = g \<and> en_open N d'"
proof (induction rows arbitrary: d n lc)
  case (Cons r rows)
  obtain row mp where r: "r = (row, mp)" by (cases r)
  obtain g1 where g1: "en_eff N p (JObj row) (en_work N d) = Some g1" "run_rows (en_eff N p) (map fst rows) g1 = Some g"
    using Cons.prems r by (auto split: bind_splits)
  obtain d1 d2 k where e: "cn_exec C p (JObj row) d = (d1, Inr ())" "cn_count C p (JObj row) d = (d2, Inr k)"
    using li g1(1) Cons.prems(2) unfolding engine_live_def by (metis option.distinct(1))
  have w: "en_work N d1 = g1" "en_work N d2 = g1" "en_open N d1" "en_open N d2"
    using engine_exec [OF en e(1) Cons.prems(2)] engine_count [OF en e(2) Cons.prems(2)] g1(1) by simp_all
  show ?case
    using Cons.IH [of d1 n "count_plain mp lc"] Cons.IH [of d2 n "count_match del k lc"] w g1(2) e
    by (cases "mp \<and> up") (auto simp: r poll_def)
qed simp

lemma prepare_batch_live:
  "engine_live C N \<Longrightarrow> \<exists>p up st1. prepare_batch U C cap d cache t mp st = (st1, Some (p, up))
    \<and> failed_lines st1 = failed_lines st \<and> rolled_back_lines st1 = rolled_back_lines st"
proof -
  assume "engine_live C N"
  then have "\<exists>p. cn_prepare C d t' = Inr p" for t' unfolding engine_live_def by blast
  then obtain p1 p2 where "cn_prepare C d t = Inr p1" "cn_prepare C d (with_match_count_probe t) = Inr p2" by metis
  then show ?thesis by (auto simp: prepare_batch_def Let_def split: option.splits)
qed

definition calm :: "replay_stats \<Rightarrow> replay_stats \<Rightarrow> bool" where
  "calm st st' \<longleftrightarrow> failed_lines st' = failed_lines st \<and> rolled_back_lines st' = rolled_back_lines st"

lemma flush_live:
  assumes en: "engine_ok C N" and li: "engine_live C N" and ok: "batch_ok (rs_batch s)" and ca: "cache_ok N (rs_cache s)"
    and idle: "\<not> en_open N (rs_db s)"
    and run: "run_rows (en_sem N (b_template (rs_batch s))) (b_rows (rs_batch s)) (en_graph N (rs_db s)) = Some g"
  shows "\<exists>s'. flush_batch U C cap None s = (s', Inr False) \<and> en_graph N (rs_db s') = g \<and> \<not> en_open N (rs_db s')
    \<and> calm (rs_stats s) (rs_stats s')"
proof (cases "b_rows (rs_batch s) = []")
  case True
  then show ?thesis using run idle by (simp add: flush_batch_empty calm_def)
next
  case ne: False
  let ?b = "rs_batch s"
  let ?cached = "case rs_cache s of Some c \<Rightarrow> if pc_template c = b_template ?b then Some c else None | None \<Rightarrow> None"
  obtain p up st1 where p: "prepare_batch U C cap (rs_db s) ?cached (b_template ?b) (b_match_prefixed ?b) (rs_stats s) = (st1, Some (p, up))"
    "failed_lines st1 = failed_lines (rs_stats s)" "rolled_back_lines st1 = rolled_back_lines (rs_stats s)"
    using prepare_batch_live [OF li, of U cap "rs_db s" ?cached "b_template ?b" "b_match_prefixed ?b" "rs_stats s"] by blast
  have "cache_ok N ?cached" "\<And>c. ?cached = Some c \<Longrightarrow> pc_template c = b_template ?b"
    using ca by (auto simp: cache_ok_def split: option.splits if_splits)
  from prepare_batch_sem [OF en this p(1)] have sem: "en_eff N p = en_sem N (b_template ?b)" .
  obtain d1 where b: "cn_txn C (lit ''BEGIN TRANSACTION'') (rs_db s) = (d1, Inr ())"
    using li idle unfolding engine_live_def by metis
  have o1: "en_open N d1" and "en_work N d1 = en_graph N (rs_db s)" using engine_begin(2) [OF en b] by simp_all
  moreover have z: "map fst (zip (b_rows ?b) (b_match_prefixed ?b)) = b_rows ?b" using ok by (simp add: batch_ok_def)
  ultimately have "run_rows (en_eff N p) (map fst (zip (b_rows ?b) (b_match_prefixed ?b))) (en_work N d1) = Some g"
    using run sem by simp
  note ex = exec_rows_live [OF en li this o1]
  obtain d2 n lc where x: "exec_rows C None p up ((case b_match_prefixed ?b of [] \<Rightarrow> False | m # _ \<Rightarrow> m) \<and> is_delete_form U (b_template ?b))
      (zip (b_rows ?b) (b_match_prefixed ?b)) d1 (rs_polls s)
      \<lparr>lc_replayed = 0, lc_mp_replayed = 0, lc_mp_no_op = 0, lc_md_no_op = 0\<rparr> = RowsDone d2 n lc" "en_work N d2 = g" "en_open N d2"
    using ex by metis
  obtain d3 where c: "cn_txn C (lit ''COMMIT'') d2 = (d3, Inr ())" using li x(3) unfolding engine_live_def by metis
  have "en_graph N d3 = g" "\<not> en_open N d3" using engine_commit [OF en c] x(2) by simp_all
  then show ?thesis
    using p b x c ne by (simp add: flush_batch_def Let_def calm_def)
qed

text \<open>The graph once the pending batch is applied, and rows applied one at a time.\<close>

definition vgraph :: "('d, 'p, 'g) engine \<Rightarrow> ('d, 'p) rstate \<Rightarrow> 'g option" where
  "vgraph N s = run_rows (en_sem N (b_template (rs_batch s))) (b_rows (rs_batch s)) (en_graph N (rs_db s))"

fun run_seq :: "('d, 'p, 'g) engine \<Rightarrow> replay_row list \<Rightarrow> 'g \<Rightarrow> 'g option" where
  "run_seq N [] g = Some g"
| "run_seq N (r # rs) g = Option.bind (en_sem N (r_cypher r) (JObj (r_params r)) g) (run_seq N rs)"

lemma run_seq_append: "run_seq N (xs @ ys) g = Option.bind (run_seq N xs g) (run_seq N ys)"
  by (induction xs arbitrary: g) (auto split: bind_splits)

definition rinv :: "('d, 'p, 'g) engine \<Rightarrow> ('d, 'p) rstate \<Rightarrow> bool" where
  "rinv N s \<longleftrightarrow> batch_ok (rs_batch s) \<and> cache_ok N (rs_cache s) \<and> \<not> en_open N (rs_db s)"

lemma batch_ok_push: "batch_ok b \<Longrightarrow> batch_ok (push_row r b)"
  by (simp add: batch_ok_def push_row_def)

lemma calm_trans: "calm a b \<Longrightarrow> calm b c \<Longrightarrow> calm a c"
  by (simp add: calm_def)

lemma flush_step:
  assumes en: "engine_ok C N" and li: "engine_live C N" and inv: "rinv N s" and vg: "vgraph N s = Some g"
  shows "\<exists>s'. flush_batch U C cap None s = (s', Inr False) \<and> rinv N s' \<and> vgraph N s' = Some g
    \<and> b_rows (rs_batch s') = [] \<and> calm (rs_stats s) (rs_stats s')"
proof -
  obtain s' where f: "flush_batch U C cap None s = (s', Inr False)" "en_graph N (rs_db s') = g" "calm (rs_stats s) (rs_stats s')"
    "\<not> en_open N (rs_db s')"
    using flush_live [OF en li] inv vg unfolding rinv_def vgraph_def by blast
  have "b_rows (rs_batch s') = []" "batch_ok (rs_batch s')" using flush_batch_counts [OF _ f(1)] inv by (simp_all add: rinv_def)
  moreover have "cache_ok N (rs_cache s')"
    using flush_atomic_cache [OF en _ _ f(1)] inv by (simp add: rinv_def)
  ultimately show ?thesis using f by (auto simp: rinv_def vgraph_def)
qed

lemma push_live:
  assumes en: "engine_ok C N" and li: "engine_live C N"
  shows "rinv N s \<Longrightarrow> vgraph N s = Some g \<Longrightarrow> run_seq N rows g = Some g' \<Longrightarrow>
    \<exists>s'. push_resolved_rows U C cap bs None rows s = (s', Inr False) \<and> rinv N s' \<and> vgraph N s' = Some g'
      \<and> calm (rs_stats s) (rs_stats s')"
proof (induction rows arbitrary: s g)
  case Nil
  then show ?case by (simp add: calm_def)
next
  case (Cons r rows)
  obtain g1 where g1: "en_sem N (r_cypher r) (JObj (r_params r)) g = Some g1" "run_seq N rows g1 = Some g'"
    using Cons.prems by (auto split: bind_splits)
  obtain s1 where s1: "(if b_rows (rs_batch s) \<noteq> [] \<and> b_template (rs_batch s) \<noteq> r_cypher r
      then flush_batch U C cap None s else (s, Inr False)) = (s1, Inr False)"
    "rinv N s1" "vgraph N s1 = Some g" "b_rows (rs_batch s1) = [] \<or> b_template (rs_batch s1) = r_cypher r"
    "calm (rs_stats s) (rs_stats s1)"
  proof (cases "b_rows (rs_batch s) \<noteq> [] \<and> b_template (rs_batch s) \<noteq> r_cypher r")
    case True
    with flush_step [OF en li Cons.prems(1,2), of U cap] that show ?thesis by auto
  next
    case False
    with Cons.prems that [of s] show ?thesis by (auto simp: calm_def)
  qed
  define s2 where "s2 = s1\<lparr>rs_batch := push_row r (rs_batch s1)\<rparr>"
  have i2: "rinv N s2" using s1(2) by (simp add: s2_def rinv_def batch_ok_push)
  have v2: "vgraph N s2 = Some g1"
    using s1(3,4) g1(1) by (auto simp: vgraph_def s2_def push_row_def run_rows_append)
  obtain s3 where s3: "(if length (b_rows (rs_batch s2)) \<ge> bs then flush_batch U C cap None s2 else (s2, Inr False)) = (s3, Inr False)"
    "rinv N s3" "vgraph N s3 = Some g1" "calm (rs_stats s2) (rs_stats s3)"
  proof (cases "length (b_rows (rs_batch s2)) \<ge> bs")
    case True
    with flush_step [OF en li i2 v2, of U cap] that show ?thesis by auto
  next
    case False
    with i2 v2 that [of s2] show ?thesis by (auto simp: calm_def)
  qed
  have "calm (rs_stats s) (rs_stats s3)" using s1(5) s3(4) by (auto simp: calm_def s2_def)
  moreover obtain s' where s': "push_resolved_rows U C cap bs None rows s3 = (s', Inr False)"
    "rinv N s'" "vgraph N s' = Some g'" "calm (rs_stats s3) (rs_stats s')"
    using Cons.IH [OF s3(2,3) g1(2)] by blast
  moreover have "push_resolved_rows U C cap bs None (r # rows) s = push_resolved_rows U C cap bs None rows s3"
    unfolding push_resolved_rows.simps s1(1) prod.case sum.case bool.case Let_def s2_def [symmetric] s3(1) ..
  ultimately show ?case using calm_trans by auto
qed

end
