(* ===== verification/GroupName.thy ===== *)
theory GroupName
  imports FileSys
begin

text \<open>
  Names: \<^verbatim>\<open>checkpoint::validate_name\<close> and the directory name of a group
  (\<^verbatim>\<open>wal_group.rs\<close>): percent-encoding a \<^verbatim>\<open>group_id\<close>, decoding a directory name, the directories of
  the groups under a WAL root, and the check against names that differ only in letter case.
\<close>

section \<open>Safe names\<close>

definition safe_char :: "nat \<Rightarrow> bool" where
  "safe_char c \<longleftrightarrow> is_ascii_alphanumeric c \<or> c = 95 \<or> c = 45"

definition validate_name :: "rstr \<Rightarrow> unit result" where
  "validate_name name =
     (if name \<noteq> [] \<and> str_len name \<le> 200 \<and> list_all safe_char name
      then Inr () else Inl (CheckpointInvalidName name))"

section \<open>Encoding a group identifier\<close>

definition hex_upper :: "nat \<Rightarrow> nat" where
  "hex_upper d = (if d < 10 then 48 + d else 55 + d)"

definition pct_byte :: "nat \<Rightarrow> rstr" where
  "pct_byte b = (if safe_char b then [b] else [37, hex_upper (b div 16), hex_upper (b mod 16)])"

definition encode_group_dir_name :: "rstr \<Rightarrow> rstr result" where
  "encode_group_dir_name group_id =
     (if group_id = [] then Inl (InvalidGroupId group_id)
      else case validate_name group_id of
        Inr _ \<Rightarrow> Inr group_id
      | Inl _ \<Rightarrow>
          (let encoded = concat (map pct_byte (as_bytes group_id)) in
           if encoded = [] \<or> str_len encoded > 200 then Inl (InvalidGroupId group_id)
           else Inr encoded))"

text \<open>
  One turn of the decoding loop: the byte it pushes (\<open>None\<close> where the loop returns the error)
  and how far it advances.
\<close>

definition pct_next :: "bytes \<Rightarrow> nat option \<times> nat" where
  "pct_next bs =
     (if bs ! 0 = 37
      then ((if 3 \<le> length bs
             then Option.bind (from_utf8 [bs ! 1, bs ! 2]) u8_from_hex else None), 3)
      else (Some (bs ! 0), 1))"

definition decode_group_dir_name :: "rstr \<Rightarrow> rstr result" where
  "decode_group_dir_name dir_name =
     (if 37 \<notin> set dir_name then Inr dir_name
      else case collect_opt id (scan_units pct_next (as_bytes dir_name)) of
        None \<Rightarrow> Inl (InvalidGroupId dir_name)
      | Some decoded \<Rightarrow>
          (case from_utf8 decoded of
             None \<Rightarrow> Inl (InvalidGroupId dir_name)
           | Some s \<Rightarrow> Inr s))"

definition group_wal_dir :: "path \<Rightarrow> rstr \<Rightarrow> path result" where
  "group_wal_dir wal_root group_id =
     (case encode_group_dir_name group_id of Inl e \<Rightarrow> Inl e | Inr d \<Rightarrow> Inr (wal_root @ [d]))"

section \<open>Directories under a WAL root\<close>

definition eq_ignore_ascii_case :: "rstr \<Rightarrow> rstr \<Rightarrow> bool" where
  "eq_ignore_ascii_case a b \<longleftrightarrow> map ascii_lower a = map ascii_lower b"

text \<open>The loop of the collision check over the entries of the root, in directory order.\<close>

fun collision_scan :: "fsys \<Rightarrow> path \<Rightarrow> rstr \<Rightarrow> rstr list \<Rightarrow> unit result" where
  "collision_scan fs wal_root dir_name [] = Inr ()"
| "collision_scan fs wal_root dir_name (n # ns) =
     (if \<not> is_dir fs (wal_root @ [n]) then collision_scan fs wal_root dir_name ns
      else if n = dir_name then Inr ()
      else if eq_ignore_ascii_case n dir_name
      then Inl (Ipc (lit ''cannot create WAL directory: case-insensitive collision''))
      else collision_scan fs wal_root dir_name ns)"

definition check_no_case_insensitive_collision :: "fsys \<Rightarrow> path \<Rightarrow> rstr \<Rightarrow> unit result" where
  "check_no_case_insensitive_collision fs wal_root dir_name =
     (if \<not> fs_exists fs wal_root then Inr ()
      else rbind (read_dir fs wal_root) (collision_scan fs wal_root dir_name))"

definition list_entry :: "fsys \<Rightarrow> path \<Rightarrow> rstr \<Rightarrow> (rstr \<times> path) option" where
  "list_entry fs wal_root n =
     (if \<not> is_dir fs (wal_root @ [n]) then None
      else case decode_group_dir_name n of
        Inl _ \<Rightarrow> None
      | Inr g \<Rightarrow> if encode_group_dir_name g = Inr n then Some (g, wal_root @ [n]) else None)"

definition list_group_wal_dirs :: "fsys \<Rightarrow> path \<Rightarrow> (rstr \<times> path) list result" where
  "list_group_wal_dirs fs wal_root =
     (if \<not> fs_exists fs wal_root then Inr []
      else rbind (read_dir fs wal_root)
             (\<lambda>ns. Inr (List.map_filter (list_entry fs wal_root) ns)))"

section \<open>Percent-encoding is a unit codec\<close>

lemma safe_char_ascii: "safe_char c \<Longrightarrow> c < 128"
  by (auto simp: safe_char_def is_ascii_alphanumeric_def is_ascii_alphabetic_def is_ascii_digit_def)

lemma not_safe_chars: "\<not> safe_char 37" "\<not> safe_char 46" "\<not> safe_char 47"
  by (simp_all add: safe_char_def is_ascii_alphanumeric_def is_ascii_alphabetic_def is_ascii_digit_def)

lemma hex_upper_digit: "d < 16 \<Longrightarrow> hex_digit (hex_upper d) = Some d"
  by (auto simp: hex_digit_def hex_upper_def)

lemma hex_upper_ascii: "d < 16 \<Longrightarrow> hex_upper d < 128 \<and> safe_char (hex_upper d)"
  by (auto simp: hex_upper_def safe_char_def is_ascii_alphanumeric_def is_ascii_alphabetic_def
      is_ascii_digit_def)

lemma u8_from_hex_upper:
  assumes "b < 256"
  shows "u8_from_hex [hex_upper (b div 16), hex_upper (b mod 16)] = Some b"
proof -
  have "b div 16 < 16" "b mod 16 < 16" "b div 16 * 16 + b mod 16 = b" using assms by auto
  moreover have "hex_upper (b div 16) \<noteq> 43" by (auto simp: hex_upper_def)
  ultimately show ?thesis
    using assms hex_upper_digit by (simp add: u8_from_hex_def from_str_radix_def Let_def)
qed

lemma valid_str_ascii: "\<forall>c \<in> set s. c < 128 \<Longrightarrow> valid_str s"
  by (force simp: valid_str_def list_all_iff is_scalar_def)

lemma from_utf8_ascii: "\<forall>c \<in> set s. c < 128 \<Longrightarrow> from_utf8 s = Some s"
  using from_utf8_as_bytes [OF valid_str_ascii [of s]] as_bytes_ascii [of s] by simp

lemma pct_next_byte:
  assumes "b < 256"
  shows "pct_next (pct_byte b @ r) = (Some b, length (pct_byte b))"
proof (cases "safe_char b")
  case True
  then have "b \<noteq> 37" using not_safe_chars by auto
  with True show ?thesis by (simp add: pct_byte_def pct_next_def)
next
  case False
  have "b div 16 < 16" "b mod 16 < 16" using assms by (auto simp: less_mult_imp_div_less)
  then have "from_utf8 [hex_upper (b div 16), hex_upper (b mod 16)]
      = Some [hex_upper (b div 16), hex_upper (b mod 16)]"
    by (intro from_utf8_ascii) (simp add: hex_upper_ascii)
  with False u8_from_hex_upper [OF assms] show ?thesis
    by (simp add: pct_byte_def pct_next_def)
qed

interpretation pct: unit_codec pct_byte pct_next "\<lambda>b. b < 256"
  by unfold_locales (simp add: pct_byte_def, rule pct_next_byte)

lemma pct_byte_chars:
  "b < 256 \<Longrightarrow> c \<in> set (pct_byte b) \<Longrightarrow> c = 37 \<or> safe_char c"
  using hex_upper_ascii [of "b div 16"] hex_upper_ascii [of "b mod 16"]
  by (auto simp: pct_byte_def less_mult_imp_div_less split: if_splits)

section \<open>Encoding and decoding\<close>

lemma validate_name_Inr_iff:
  "validate_name n = Inr u \<longleftrightarrow> n \<noteq> [] \<and> str_len n \<le> 200 \<and> list_all safe_char n"
  by (auto simp: validate_name_def)

lemma encode_cases:
  assumes "encode_group_dir_name g = Inr d"
  obtains (same) "d = g" "validate_name g = Inr ()"
    | (coded) "d = concat (map pct_byte (as_bytes g))" "str_len d \<le> 200" "d \<noteq> []"
        "\<not> list_all safe_char g \<or> 200 < str_len g"
  using assms
  by (auto simp: encode_group_dir_name_def validate_name_def Let_def split: if_splits sum.splits)

lemma coded_chars:
  assumes "valid_str g" and "c \<in> set (concat (map pct_byte (as_bytes g)))"
  shows "c = 37 \<or> safe_char c"
  using assms by (auto dest!: as_bytes_byte dest: pct_byte_chars)

text \<open>A name that is encoded although it is safe would be longer than 200 characters.\<close>

lemma coded_has_percent:
  assumes "d = concat (map pct_byte (as_bytes g))" "str_len d \<le> 200"
    and "\<not> list_all safe_char g \<or> 200 < str_len g"
  shows "37 \<in> set d"
proof (rule ccontr)
  assume no: "37 \<notin> set d"
  have safe: "safe_char b" if "b \<in> set (as_bytes g)" for b
    using no assms(1) that by (auto simp: pct_byte_def split: if_splits)
  have "set g \<subseteq> set (as_bytes g)"
  proof
    fix c assume c: "c \<in> set g"
    have "c < 128"
    proof (rule ccontr)
      assume big: "\<not> c < 128"
      have "\<exists>b \<in> set (utf8_encode1 c). 128 \<le> b" using big by (auto simp: utf8_encode1_def)
      with c have "\<exists>b \<in> set (as_bytes g). 128 \<le> b" by (auto simp: as_bytes_def)
      with safe show False using safe_char_ascii by fastforce
    qed
    with c show "c \<in> set (as_bytes g)" by (auto simp: as_bytes_def utf8_encode1_def)
  qed
  then have all: "list_all safe_char g" using safe by (auto simp: list_all_iff)
  then have ascii: "\<forall>c \<in> set g. c < 128" using safe_char_ascii by (auto simp: list_all_iff)
  then have "as_bytes g = g" by (rule as_bytes_ascii)
  with all assms(1) have "d = concat (map (\<lambda>b. [b]) g)"
    by (simp add: pct_byte_def list_all_iff cong: map_cong)
  with assms(2,3) all show False by simp
qed

lemma decode_encode:
  assumes "valid_str g" and "encode_group_dir_name g = Inr d"
  shows "decode_group_dir_name d = Inr g"
  using assms(2)
proof (cases rule: encode_cases)
  case same
  then show ?thesis
    using not_safe_chars by (auto simp: decode_group_dir_name_def validate_name_Inr_iff list_all_iff)
next
  case coded
  have bytes: "b \<in> set (as_bytes g) \<Longrightarrow> b < 256" for b
    using assms(1) by (rule as_bytes_byte)
  have "\<forall>c \<in> set d. c < 128"
    using coded(1) coded_chars [OF assms(1)] safe_char_ascii by fastforce
  then have "as_bytes d = d" by (rule as_bytes_ascii)
  then have "collect_opt id (scan_units pct_next (as_bytes d)) = Some (as_bytes g)"
    using coded(1) pct.scan_all [of "as_bytes g"] bytes by simp
  then show ?thesis
    using coded_has_percent [OF coded(1,2,4)] from_utf8_as_bytes [OF assms(1)]
    by (simp add: decode_group_dir_name_def)
qed

lemma encode_safe_chars:
  assumes "valid_str g" and "encode_group_dir_name g = Inr d"
  shows "d \<noteq> [] \<and> length d \<le> 200 \<and> (\<forall>c \<in> set d. c = 37 \<or> safe_char c)"
  using assms(2)
proof (cases rule: encode_cases)
  case same
  then show ?thesis using length_le_str_len [of d]
    by (auto simp: validate_name_Inr_iff list_all_iff)
next
  case coded
  then show ?thesis using coded_chars [OF assms(1)] length_le_str_len [of d] by auto
qed

section \<open>Properties\<close>

text \<open>C11: the directory name of a group identifies the group.  Whatever \<^verbatim>\<open>encode_group_dir_name\<close>
  returns for a \<^verbatim>\<open>group_id\<close>, safe or percent-encoded, \<^verbatim>\<open>decode_group_dir_name\<close> maps back to that
  \<^verbatim>\<open>group_id\<close>; and no two distinct groups are given the same directory.\<close>

theorem group_dir_name_roundtrip:
  assumes "valid_str g" and "encode_group_dir_name g = Inr d"
  shows "decode_group_dir_name d = Inr g
    \<and> (\<forall>h. valid_str h \<and> encode_group_dir_name h = Inr d \<longrightarrow> h = g)"
  using decode_encode [OF assms] decode_encode [of _ d] by auto

theorem group_dir_name_roundtrip_witness:
  "encode_group_dir_name (lit ''a/b'') = Inr (lit ''a%2Fb'')
   \<and> decode_group_dir_name (lit ''a%2Fb'') = Inr (lit ''a/b'')"
proof -
  have v: "valid_str (lit ''a/b'')" by (simp add: valid_str_def is_scalar_def)
  have e: "encode_group_dir_name (lit ''a/b'') = Inr (lit ''a%2Fb'')" by code_simp
  show ?thesis using e group_dir_name_roundtrip [OF v e] by simp
qed

text \<open>A \<^verbatim>\<open>group_id\<close> cannot escape the WAL root.  The directory name has 1 to 200 characters, all of
  them ASCII letters, digits, underscore, hyphen or percent sign: it holds no slash and no dot,
  and so is a single ordinary path component.\<close>

lemma group_dir_name_safe:
  assumes "valid_str g" and "group_wal_dir root g = Inr p"
  shows "\<exists>d. p = root @ [d] \<and> 1 \<le> length d \<and> length d \<le> 200 \<and> 47 \<notin> set d \<and> 46 \<notin> set d
    \<and> (\<forall>c \<in> set d. c = 37 \<or> safe_char c)"
proof -
  obtain d where d: "encode_group_dir_name g = Inr d" "p = root @ [d]"
    using assms(2) by (auto simp: group_wal_dir_def split: sum.splits)
  note s = encode_safe_chars [OF assms(1) d(1)]
  then have "47 \<notin> set d" "46 \<notin> set d" using not_safe_chars by auto
  with s d(2) show ?thesis by (auto simp: Suc_le_eq)
qed

theorem group_dir_name_safe_witness:
  "\<exists>d. group_wal_dir [] (lit ''../x'') = Inr ([] @ [d]) \<and> 47 \<notin> set d \<and> 46 \<notin> set d"
proof -
  have v: "valid_str (lit ''../x'')" by (simp add: valid_str_def is_scalar_def)
  have e: "group_wal_dir [] (lit ''../x'') = Inr [lit ''%2E%2E%2Fx'']" by code_simp
  show ?thesis using e group_dir_name_safe [OF v e] by auto
qed

section \<open>The directories of a WAL root\<close>

lemma map_filter_mem: "y \<in> set (List.map_filter f xs) \<longleftrightarrow> (\<exists>x \<in> set xs. f x = Some y)"
  by (force simp: List.map_filter_def)

lemma list_entry_Some:
  "list_entry fs root n = Some (g, p) \<longleftrightarrow>
     is_dir fs (root @ [n]) \<and> p = root @ [n] \<and> decode_group_dir_name n = Inr g
       \<and> encode_group_dir_name g = Inr n"
  by (auto simp: list_entry_def split: sum.splits if_splits)

lemma collision_scan_Inl:
  "collision_scan fs root d ns = Inl e \<Longrightarrow>
     \<exists>n \<in> set ns. is_dir fs (root @ [n]) \<and> n \<noteq> d \<and> eq_ignore_ascii_case n d"
  by (induction ns) (auto split: if_splits)

lemma collision_scan_Inr:
  "collision_scan fs root d ns = Inr u \<Longrightarrow>
     (d \<in> set ns \<and> is_dir fs (root @ [d]))
     \<or> (\<forall>n \<in> set ns. is_dir fs (root @ [n]) \<longrightarrow> \<not> eq_ignore_ascii_case n d)"
proof (induction ns)
  case (Cons n ns)
  show ?case
  proof (cases "is_dir fs (root @ [n]) \<and> n = d")
    case False
    with Cons.prems have "collision_scan fs root d ns = Inr u"
      "is_dir fs (root @ [n]) \<Longrightarrow> \<not> eq_ignore_ascii_case n d"
      by (auto split: if_splits)
    with Cons.IH show ?thesis by auto
  qed auto
qed simp

text \<open>\<^verbatim>\<open>list_group_wal_dirs\<close> reports exactly the group directories present: a pair is listed iff
  its path is a directory of the root that is the encoded name of that group.  Housekeeping
  directories such as \<^verbatim>\<open>.checkpoints\<close> are never reported as a group.\<close>

lemma list_group_wal_dirs_exact:
  assumes "fs_wf fs" and "list_group_wal_dirs fs root = Inr gs" and "valid_str g"
  shows "(g, p) \<in> set gs \<longleftrightarrow>
    (\<exists>d. p = root @ [d] \<and> encode_group_dir_name g = Inr d \<and> is_dir fs p \<and> fs_exists fs root)"
proof (cases "fs_exists fs root")
  case False
  with assms(2) show ?thesis by (simp add: list_group_wal_dirs_def)
next
  case True
  with assms(2) obtain ns where ns: "read_dir fs root = Inr ns"
    and gs: "gs = List.map_filter (list_entry fs root) ns"
    by (auto simp: list_group_wal_dirs_def result_simps)
  have dirs: "is_dir fs (root @ [d]) \<Longrightarrow> d \<in> set ns" for d
    using read_dir_mem [OF assms(1) ns] by (auto simp: is_dir_def fs_exists_def)
  show ?thesis
    using True dirs decode_encode [OF assms(3)]
    by (auto simp: gs map_filter_mem list_entry_Some)
qed

theorem list_group_wal_dirs_exact_witness:
  "list_group_wal_dirs [([], Dir), ([lit ''.checkpoints''], Dir), ([lit ''a%2Fb''], Dir)] []
     = Inr [(lit ''a/b'', [lit ''a%2Fb''])]
   \<and> (lit ''a/b'', [lit ''a%2Fb'']) \<in> set [(lit ''a/b'', [lit ''a%2Fb''])]"
proof -
  let ?fs = "[([], Dir), ([lit ''.checkpoints''], Dir), ([lit ''a%2Fb''], Dir)]"
  have wf: "fs_wf ?fs" by (simp add: fs_wf_def)
  have l: "list_group_wal_dirs ?fs [] = Inr [(lit ''a/b'', [lit ''a%2Fb''])]" by code_simp
  have v: "valid_str (lit ''a/b'')" by (simp add: valid_str_def is_scalar_def)
  have "encode_group_dir_name (lit ''a/b'') = Inr (lit ''a%2Fb'')
      \<and> is_dir ?fs [lit ''a%2Fb''] \<and> fs_exists ?fs []" by code_simp
  then have e: "\<exists>d. [lit ''a%2Fb''] = [] @ [d] \<and> encode_group_dir_name (lit ''a/b'') = Inr d
      \<and> is_dir ?fs [lit ''a%2Fb''] \<and> fs_exists ?fs []" by auto
  from l iffD2 [OF list_group_wal_dirs_exact [OF wf l v] e] show ?thesis by simp
qed

text \<open>The collision check admits a directory name exactly when using it cannot interleave two
  groups on a case-insensitive file system: on success either that very directory exists
  already or no directory of the root equals it up to ASCII letter case; on refusal because of
  a collision such a directory exists.\<close>

lemma collision_check_sound:
  assumes "fs_wf fs" and "read_dir fs root = Inr ns"
  shows "(check_no_case_insensitive_collision fs root d = Inr () \<longrightarrow>
      is_dir fs (root @ [d]) \<or> (\<forall>n. is_dir fs (root @ [n]) \<longrightarrow> \<not> eq_ignore_ascii_case n d))
    \<and> (check_no_case_insensitive_collision fs root d \<noteq> Inr () \<longrightarrow>
      (\<exists>n. n \<noteq> d \<and> is_dir fs (root @ [n]) \<and> eq_ignore_ascii_case n d))"
proof -
  have root: "fs_exists fs root" using assms(2) by (auto simp: read_dir_def is_dir_def fs_exists_def split: if_splits)
  have c: "check_no_case_insensitive_collision fs root d = collision_scan fs root d ns"
    using root assms(2) by (simp add: check_no_case_insensitive_collision_def)
  have m: "is_dir fs (root @ [n]) \<Longrightarrow> n \<in> set ns" for n
    using read_dir_mem [OF assms] by (auto simp: is_dir_def fs_exists_def)
  show ?thesis
    using collision_scan_Inr [of fs root d ns "()"] collision_scan_Inl [of fs root d ns] m
    unfolding c by (cases "collision_scan fs root d ns") auto
qed

theorem collision_check_sound_witness:
  "check_no_case_insensitive_collision [([], Dir), ([lit ''Acme''], Dir)] [] (lit ''acme'') \<noteq> Inr ()
   \<and> (\<exists>n. n \<noteq> lit ''acme'' \<and> is_dir [([], Dir), ([lit ''Acme''], Dir)] ([] @ [n])
        \<and> eq_ignore_ascii_case n (lit ''acme''))"
proof -
  let ?fs = "[([], Dir), ([lit ''Acme''], Dir)]"
  have wf: "fs_wf ?fs" by (simp add: fs_wf_def)
  have r: "read_dir ?fs [] = Inr [lit ''Acme'']" by code_simp
  have c: "check_no_case_insensitive_collision ?fs [] (lit ''acme'') \<noteq> Inr ()" by code_simp
  from c collision_check_sound [OF wf r, of "lit ''acme''"] show ?thesis by blast
qed

end
