(* ===== verification/WalGeneration.thy ===== *)
theory WalGeneration
  imports GroupName
begin

text \<open>
  The generation identity of a WAL stream (\<^verbatim>\<open>wal_generation.rs\<close>): reading the sidecar, minting it
  once, and comparing generations.  \<^verbatim>\<open>serde_json\<close> is the parameter \<open>gen_codec\<close>, the random
  UUIDs are parameters too.  \<open>ensure_generation_impl\<close> is the code run by one process alone;
  \<open>gstep\<close> interleaves any number of processes that run it at the same time, one file-system call
  per step.
\<close>

definition WAL_GENERATION_FILE :: rstr where
  "WAL_GENERATION_FILE = lit ''.wal-generation.json''"

record gen_codec =
  gen_print :: "rstr \<Rightarrow> rstr"
  gen_parse :: "rstr \<Rightarrow> rstr option"

text \<open>
  What the code relies on: a record that was serialised is a valid string and parses back, and a
  UUID is not blank.
\<close>

definition gen_ok :: "gen_codec \<Rightarrow> rstr \<Rightarrow> bool" where
  "gen_ok c g \<longleftrightarrow> valid_str (gen_print c g) \<and> gen_parse c (gen_print c g) = Some g \<and> trim g \<noteq> []"

section \<open>Reading and minting\<close>

definition generation_file_path :: "path \<Rightarrow> path" where
  "generation_file_path wal_dir = wal_dir @ [WAL_GENERATION_FILE]"

definition parse_generation_record :: "gen_codec \<Rightarrow> bytes \<Rightarrow> rstr option" where
  "parse_generation_record c b =
     (case from_utf8 b of None \<Rightarrow> None
      | Some text \<Rightarrow>
          (case gen_parse c text of None \<Rightarrow> None
           | Some g \<Rightarrow> if trim g = [] then None else Some g))"

definition read_generation :: "gen_codec \<Rightarrow> fsys \<Rightarrow> path \<Rightarrow> rstr option" where
  "read_generation c fs wal_dir =
     (case read_file fs (generation_file_path wal_dir) of
        Inl _ \<Rightarrow> None
      | Inr b \<Rightarrow> parse_generation_record c b)"

definition tmp_file_name :: "rstr \<Rightarrow> rstr" where
  "tmp_file_name uuid = WAL_GENERATION_FILE @ lit ''.tmp-'' @ uuid"

definition write_tmp :: "path \<Rightarrow> bytes \<Rightarrow> fsys \<Rightarrow> fsys result" where
  "write_tmp p b fs =
     (if is_dir fs p then Inl (WalIo (OtherIo (lit ''is a directory'')))
      else if is_dir fs (butlast p) then Inr (fs_put p (File b) fs)
      else Inl (WalIo NotFound))"

definition ignore_err :: "(fsys \<Rightarrow> fsys result) \<Rightarrow> fsys \<Rightarrow> fsys" where
  "ignore_err f fs = (case f fs of Inl _ \<Rightarrow> fs | Inr fs' \<Rightarrow> fs')"

text \<open>
  \<open>uu k\<close> is the \<open>k\<close>-th UUID drawn; each attempt draws the generation and the name of the
  temporary file.
\<close>

function ensure_generation_impl ::
  "gen_codec \<Rightarrow> (nat \<Rightarrow> rstr) \<Rightarrow> nat \<Rightarrow> path \<Rightarrow> bool \<Rightarrow> fsys \<Rightarrow> fsys \<times> rstr result" where
  "ensure_generation_impl c uu k wal_dir self_heal fs =
     (case read_generation c fs wal_dir of
        Some existing \<Rightarrow> (fs, Inr existing)
      | None \<Rightarrow>
          (let generation = uu k;
               json = as_bytes (gen_print c generation);
               pth = generation_file_path wal_dir;
               tmp_path = wal_dir @ [tmp_file_name (uu (Suc k))]
           in case write_tmp tmp_path json fs of
                Inl e \<Rightarrow> (ignore_err (remove_file tmp_path) fs, Inl e)
              | Inr fs1 \<Rightarrow>
                  (case hard_link tmp_path pth fs1 of
                     Inr fs2 \<Rightarrow> (ignore_err (remove_file tmp_path) fs2, Inr generation)
                   | Inl (WalIo AlreadyExists) \<Rightarrow>
                       (let fs2 = ignore_err (remove_file tmp_path) fs1 in
                        case read_generation c fs2 wal_dir of
                          Some winner \<Rightarrow> (fs2, Inr winner)
                        | None \<Rightarrow>
                            if self_heal
                            then ensure_generation_impl c uu (k + 2) wal_dir False
                                   (ignore_err (remove_file pth) fs2)
                            else (fs2, Inl (WalIo (OtherIo (lit ''generation file exists but could not be read'')))))
                   | Inl e \<Rightarrow> (ignore_err (remove_file tmp_path) fs1, Inl e))))"
  by pat_completeness auto
termination
  by (relation "measure (\<lambda>(c, uu, k, d, h, fs). if h then 1 else 0)") auto

declare ensure_generation_impl.simps [simp del]

definition ensure_generation ::
  "gen_codec \<Rightarrow> (nat \<Rightarrow> rstr) \<Rightarrow> path \<Rightarrow> fsys \<Rightarrow> fsys \<times> rstr result" where
  "ensure_generation c uu wal_dir fs = ensure_generation_impl c uu 0 wal_dir True fs"

section \<open>Comparing generations\<close>

definition generation_mismatch :: "rstr option \<Rightarrow> rstr option \<Rightarrow> bool" where
  "generation_mismatch recorded current =
     (case (recorded, current) of (Some a, Some b) \<Rightarrow> a \<noteq> b | _ \<Rightarrow> False)"

definition position_reset_detected :: "nat option \<Rightarrow> rstr option \<Rightarrow> rstr option \<Rightarrow> bool" where
  "position_reset_detected applied_seq recorded current \<longleftrightarrow>
     applied_seq \<noteq> None \<and> current \<noteq> None \<and> recorded \<noteq> current"

section \<open>One process alone\<close>

lemma parse_generation_print:
  "gen_ok c g \<Longrightarrow> parse_generation_record c (as_bytes (gen_print c g)) = Some g"
  by (simp add: gen_ok_def parse_generation_record_def from_utf8_as_bytes)

lemma read_generation_get:
  "read_generation c fs d =
     (case fs_get fs (generation_file_path d) of
        Some (File b) \<Rightarrow> parse_generation_record c b | _ \<Rightarrow> None)"
  by (auto simp: read_generation_def read_file_def split: option.splits node.splits)

lemma tmp_name_neq [simp]: "tmp_file_name u \<noteq> WAL_GENERATION_FILE"
  "WAL_GENERATION_FILE \<noteq> tmp_file_name u"
  by (simp_all add: tmp_file_name_def)

lemma tmp_path_neq [simp]: "d @ [tmp_file_name u] \<noteq> generation_file_path d"
  "generation_file_path d \<noteq> d @ [tmp_file_name u]"
  by (auto simp: generation_file_path_def)

lemma fs_get_ignore_remove:
  "fs_get (ignore_err (remove_file p) fs) =
     (case fs_get fs p of Some (File _) \<Rightarrow> (fs_get fs)(p := None) | _ \<Rightarrow> fs_get fs)"
  by (auto simp: ignore_err_def remove_file_def split: option.splits node.splits)

lemma is_dir_path_neq: "is_dir fs d \<Longrightarrow> d @ [n] \<noteq> d"
  by simp

text \<open>
  With no file at the target, minting succeeds, whatever the retry flag; the target then holds
  the new generation and the temporary file is gone.
\<close>

lemma mint_fresh:
  assumes dir: "is_dir fs d" and none: "fs_get fs (generation_file_path d) = None"
    and tmp: "fs_get fs (d @ [tmp_file_name (uu (Suc k))]) = None"
  shows "\<exists>fs'. ensure_generation_impl c uu k d h fs = (fs', Inr (uu k))
    \<and> fs_get fs' = (fs_get fs)(generation_file_path d \<mapsto> File (as_bytes (gen_print c (uu k))))"
proof -
  let ?t = "d @ [tmp_file_name (uu (Suc k))]" and ?p = "generation_file_path d"
  let ?b = "as_bytes (gen_print c (uu k))"
  have rg: "read_generation c fs d = None" using none by (simp add: read_generation_get)
  have w: "write_tmp ?t ?b fs = Inr (fs_put ?t (File ?b) fs)"
    using dir tmp by (simp add: write_tmp_def is_dir_def)
  have l: "hard_link ?t ?p (fs_put ?t (File ?b) fs) = Inr (fs_put ?p (File ?b) (fs_put ?t (File ?b) fs))"
    using dir none by (simp add: hard_link_def fs_exists_def is_dir_def generation_file_path_def)
  show ?thesis
    using none tmp
    by (subst ensure_generation_impl.simps)
      (auto simp: rg w l Let_def fs_get_ignore_remove fun_eq_iff)
qed

lemma mint_existing:
  "read_generation c fs d = Some g \<Longrightarrow> ensure_generation_impl c uu k d h fs = (fs, Inr g)"
  by (subst ensure_generation_impl.simps) simp

text \<open>Wreckage at the target is replaced when the retry flag is set.\<close>

lemma mint_wreckage:
  assumes dir: "is_dir fs d" and wreck: "fs_get fs (generation_file_path d) = Some (File b)"
    and bad: "parse_generation_record c b = None"
    and tmp: "fs_get fs (d @ [tmp_file_name (uu (Suc k))]) = None"
      "fs_get fs (d @ [tmp_file_name (uu (k + 3))]) = None"
  shows "\<exists>fs'. ensure_generation_impl c uu k d True fs = (fs', Inr (uu (k + 2)))
    \<and> fs_get fs' = (fs_get fs)(generation_file_path d \<mapsto> File (as_bytes (gen_print c (uu (k + 2)))))"
proof -
  let ?t = "d @ [tmp_file_name (uu (Suc k))]" and ?p = "generation_file_path d"
  let ?b = "as_bytes (gen_print c (uu k))"
  let ?fs1 = "fs_put ?t (File ?b) fs"
  let ?fs2 = "ignore_err (remove_file ?t) ?fs1"
  let ?fs3 = "ignore_err (remove_file ?p) ?fs2"
  have rg: "read_generation c fs d = None" using wreck bad by (simp add: read_generation_get)
  have w: "write_tmp ?t ?b fs = Inr ?fs1"
    using dir tmp by (simp add: write_tmp_def is_dir_def)
  have l: "hard_link ?t ?p ?fs1 = Inl (WalIo AlreadyExists)"
    using wreck by (simp add: hard_link_def fs_exists_def)
  have g2: "fs_get ?fs2 = fs_get fs" using tmp by (auto simp: fs_get_ignore_remove)
  have rg2: "read_generation c ?fs2 d = None" using g2 wreck bad by (simp add: read_generation_get)
  have g3: "fs_get ?fs3 = (fs_get fs)(?p := None)"
    by (subst fs_get_ignore_remove) (simp add: g2 wreck)
  have step: "ensure_generation_impl c uu k d True fs = ensure_generation_impl c uu (k + 2) d False ?fs3"
    by (subst ensure_generation_impl.simps) (simp add: rg w l rg2 Let_def)
  have "is_dir ?fs3 d" using dir g3 by (auto simp: is_dir_def generation_file_path_def)
  then have "\<exists>fs'. ensure_generation_impl c uu (k + 2) d False ?fs3 = (fs', Inr (uu (k + 2)))
    \<and> fs_get fs' = (fs_get ?fs3)(?p \<mapsto> File (as_bytes (gen_print c (uu (k + 2)))))"
    by (rule mint_fresh) (use g3 tmp in \<open>auto simp: numeral_3_eq_3\<close>)
  with step g3 show ?thesis by auto
qed

text \<open>The three cases together: the sidecar is left alone when it is readable and replaced otherwise.\<close>

lemma ensure_generation_effect:
  assumes dir: "is_dir fs d" and node: "fs_get fs (generation_file_path d) \<noteq> Some Dir"
    and ok: "gen_ok c (uu 0)" "gen_ok c (uu 2)"
    and tmp: "\<And>k. fs_get fs (d @ [tmp_file_name (uu k)]) = None"
  shows "(\<exists>g. read_generation c fs d = Some g \<and> ensure_generation c uu d fs = (fs, Inr g))
    \<or> (\<exists>fs' g. read_generation c fs d = None \<and> ensure_generation c uu d fs = (fs', Inr g) \<and> gen_ok c g
        \<and> fs_get fs' = (fs_get fs)(generation_file_path d \<mapsto> File (as_bytes (gen_print c g))))"
proof (cases "read_generation c fs d")
  case (Some g)
  then show ?thesis by (auto simp: ensure_generation_def mint_existing)
next
  case none: None
  show ?thesis
  proof (cases "fs_get fs (generation_file_path d)")
    case None
    from mint_fresh [where k = 0 and uu = uu and c = c and h = True, OF dir None tmp] ok none show ?thesis
      unfolding ensure_generation_def by blast
  next
    case (Some n)
    with node obtain b where b: "fs_get fs (generation_file_path d) = Some (File b)" by (cases n) auto
    with none have "parse_generation_record c b = None" by (simp add: read_generation_get)
    from mint_wreckage [where k = 0 and uu = uu, OF dir b this tmp tmp] ok none show ?thesis
      unfolding ensure_generation_def by (auto simp: numeral_2_eq_2)
  qed
qed

text \<open>Minting a generation is write-once and always yields a readable identity.  For an existing
  stream directory, \<^verbatim>\<open>ensure_generation\<close> returns a generation that the sidecar then holds; a
  readable sidecar is returned as it is and the file system is left alone; an absent or
  corrupt one is replaced; no other path changes; and a second call returns the same generation.\<close>

lemma ensure_generation_write_once:
  assumes dir: "is_dir fs d" and node: "fs_get fs (generation_file_path d) \<noteq> Some Dir"
    and ok: "gen_ok c (uu 0)" "gen_ok c (uu 2)"
    and tmp: "\<And>k. fs_get fs (d @ [tmp_file_name (uu k)]) = None"
  shows "\<exists>fs' g. ensure_generation c uu d fs = (fs', Inr g)
    \<and> read_generation c fs' d = Some g
    \<and> (\<forall>g0. read_generation c fs d = Some g0 \<longrightarrow> g = g0 \<and> fs' = fs)
    \<and> (\<forall>q. q \<noteq> generation_file_path d \<longrightarrow> fs_get fs' q = fs_get fs q)
    \<and> (\<forall>uu'. ensure_generation c uu' d fs' = (fs', Inr g))"
  using ensure_generation_effect [OF assms]
proof (elim disjE exE conjE)
  fix g assume "read_generation c fs d = Some g" "ensure_generation c uu d fs = (fs, Inr g)"
  then show ?thesis by (auto simp: ensure_generation_def mint_existing)
next
  fix fs' g assume e: "ensure_generation c uu d fs = (fs', Inr g)" "gen_ok c g" "read_generation c fs d = None"
    and get: "fs_get fs' = (fs_get fs)(generation_file_path d \<mapsto> File (as_bytes (gen_print c g)))"
  have "read_generation c fs' d = Some g" using get e(2) by (simp add: read_generation_get parse_generation_print)
  with e get show ?thesis by (auto simp: ensure_generation_def mint_existing)
qed

text \<open>A concrete codec and UUID source for the witnesses: the record is the identifier itself.\<close>

definition toy_codec :: gen_codec where
  "toy_codec = \<lparr>gen_print = id, gen_parse = (\<lambda>s. if s = [] then None else Some s)\<rparr>"

lemma toy_codec_ok: "gen_ok toy_codec (98 # replicate n 97)"
proof -
  have w: "\<not> is_whitespace 97" "\<not> is_whitespace 98" by (simp_all add: is_whitespace_def)
  have l: "last (98 # replicate n 97) = (if n = 0 then 98 else 97)"
    by (cases n) (simp_all add: last_replicate)
  have "trim (98 # replicate n 97) = 98 # replicate n 97"
    by (rule trim_id) (use l w in auto)
  then show ?thesis
    by (auto simp: gen_ok_def toy_codec_def valid_str_def is_scalar_def list_all_iff)
qed

theorem ensure_generation_write_once_witness:
  "\<exists>fs' g. ensure_generation toy_codec (\<lambda>k. 98 # replicate k 97) [] [([], Dir)] = (fs', Inr g)
     \<and> read_generation toy_codec fs' [] = Some g"
proof -
  have d: "is_dir [([], Dir)] []" by (simp add: is_dir_def fs_get_def)
  have n: "fs_get [([], Dir)] (generation_file_path []) \<noteq> Some Dir"
    by (simp add: fs_get_def generation_file_path_def)
  have t: "fs_get [([], Dir)] ([] @ [tmp_file_name (98 # replicate k 97)]) = None" for k
    by (simp add: fs_get_def)
  show ?thesis
    using ensure_generation_write_once [where uu = "\<lambda>k. 98 # replicate k 97", OF d n toy_codec_ok toy_codec_ok t]
    by blast
qed

section \<open>Several processes\<close>

text \<open>
  The same code cut at its file-system calls.  \<open>GStart h\<close> is the entry of
  \<^verbatim>\<open>ensure_generation_impl\<close> with retry flag \<open>h\<close>; the second attempt draws its own UUIDs.
\<close>

datatype gpc = GStart bool | GWrite bool | GLink bool | GWon bool | GLost bool | GFail bool error
  | GReread bool | GHeal | GDone "rstr result"

fun gproc :: "gen_codec \<Rightarrow> path \<Rightarrow> (bool \<Rightarrow> rstr) \<Rightarrow> (bool \<Rightarrow> rstr) \<Rightarrow> gpc \<Rightarrow> fsys \<Rightarrow> gpc \<times> fsys"
where
  "gproc c d gen tmp (GStart h) fs =
     (case read_generation c fs d of
        Some g \<Rightarrow> (GDone (Inr g), fs) | None \<Rightarrow> (GWrite h, fs))"
| "gproc c d gen tmp (GWrite h) fs =
     (case write_tmp (d @ [tmp_file_name (tmp h)]) (as_bytes (gen_print c (gen h))) fs of
        Inl e \<Rightarrow> (GFail h e, fs) | Inr fs' \<Rightarrow> (GLink h, fs'))"
| "gproc c d gen tmp (GLink h) fs =
     (case hard_link (d @ [tmp_file_name (tmp h)]) (generation_file_path d) fs of
        Inr fs' \<Rightarrow> (GWon h, fs')
      | Inl (WalIo AlreadyExists) \<Rightarrow> (GLost h, fs)
      | Inl e \<Rightarrow> (GFail h e, fs))"
| "gproc c d gen tmp (GWon h) fs =
     (GDone (Inr (gen h)), ignore_err (remove_file (d @ [tmp_file_name (tmp h)])) fs)"
| "gproc c d gen tmp (GLost h) fs =
     (GReread h, ignore_err (remove_file (d @ [tmp_file_name (tmp h)])) fs)"
| "gproc c d gen tmp (GFail h e) fs =
     (GDone (Inl e), ignore_err (remove_file (d @ [tmp_file_name (tmp h)])) fs)"
| "gproc c d gen tmp (GReread h) fs =
     (case read_generation c fs d of
        Some g \<Rightarrow> (GDone (Inr g), fs)
      | None \<Rightarrow> (if h then GHeal
                 else GDone (Inl (WalIo (OtherIo (lit ''generation file exists but could not be read'')))), fs))"
| "gproc c d gen tmp GHeal fs =
     (GStart False, ignore_err (remove_file (generation_file_path d)) fs)"
| "gproc c d gen tmp (GDone r) fs = (GDone r, fs)"

text \<open>Run alone, the cut-up process is the function.\<close>

inductive alone :: "gen_codec \<Rightarrow> path \<Rightarrow> (bool \<Rightarrow> rstr) \<Rightarrow> (bool \<Rightarrow> rstr) \<Rightarrow>
    gpc \<Rightarrow> fsys \<Rightarrow> fsys \<Rightarrow> rstr result \<Rightarrow> bool" for c d gen tmp where
  alone_done: "alone c d gen tmp (GDone r) fs fs r"
| alone_step: "gproc c d gen tmp pc fs = (pc', fs') \<Longrightarrow> (\<And>r. pc \<noteq> GDone r) \<Longrightarrow>
    alone c d gen tmp pc' fs' fs'' r \<Longrightarrow> alone c d gen tmp pc fs fs'' r"

inductive_simps alone_done_iff [simp]: "alone c d gen tmp (GDone r) fs fs' r'"

lemma alone_iff:
  assumes "\<And>r. pc \<noteq> GDone r"
  shows "alone c d gen tmp pc fs fs' r \<longleftrightarrow>
    (case gproc c d gen tmp pc fs of (pc', fs1) \<Rightarrow> alone c d gen tmp pc' fs1 fs' r)"
proof
  assume "alone c d gen tmp pc fs fs' r"
  then show "case gproc c d gen tmp pc fs of (pc', fs1) \<Rightarrow> alone c d gen tmp pc' fs1 fs' r"
    using assms by cases auto
next
  assume "case gproc c d gen tmp pc fs of (pc', fs1) \<Rightarrow> alone c d gen tmp pc' fs1 fs' r"
  then show "alone c d gen tmp pc fs fs' r" using assms by (auto split: prod.splits intro: alone_step)
qed

lemmas alone_simps = alone_iff [of "GStart h" for h] alone_iff [of "GWrite h" for h]
  alone_iff [of "GLink h" for h] alone_iff [of "GWon h" for h] alone_iff [of "GLost h" for h]
  alone_iff [of "GFail h e" for h e] alone_iff [of "GReread h" for h] alone_iff [of GHeal]

text \<open>
  One attempt: \<open>alone\<close> from the entry follows the body of the function, with the retry as its
  continuation.
\<close>

lemma alone_attempt:
  assumes "gen h = uu k" "tmp h = uu (Suc k)"
    and "\<And>fs1. h \<Longrightarrow> ensure_generation_impl c uu (k + 2) d False fs1 = (fs', r) \<Longrightarrow>
      alone c d gen tmp (GStart False) fs1 fs' r"
    and "ensure_generation_impl c uu k d h fs = (fs', r)"
  shows "alone c d gen tmp (GStart h) fs fs' r"
proof (cases "read_generation c fs d")
  case (Some g)
  with assms(4) show ?thesis by (simp add: alone_simps mint_existing)
next
  case None
  let ?t = "d @ [tmp_file_name (uu (Suc k))]"
  show ?thesis
  proof (cases "write_tmp ?t (as_bytes (gen_print c (uu k))) fs")
    case (Inl e)
    with None assms show ?thesis
      by (simp add: alone_simps ensure_generation_impl.simps [of c uu k])
  next
    case (Inr fs1)
    let ?fs2 = "ignore_err (remove_file ?t) fs1"
    show ?thesis
    proof (cases "hard_link ?t (generation_file_path d) fs1")
      case (Inr fs2)
      with None assms \<open>write_tmp _ _ _ = _\<close> show ?thesis
        by (simp add: alone_simps ensure_generation_impl.simps [of c uu k])
    next
      case (Inl e)
      show ?thesis
      proof (cases "e = WalIo AlreadyExists")
        case True
        with Inl None assms \<open>write_tmp _ _ _ = _\<close> show ?thesis
          by (cases "read_generation c ?fs2 d"; cases h)
            (simp_all add: alone_simps ensure_generation_impl.simps [of c uu k] Let_def)
      next
        case False
        with Inl None assms(1,2,4) \<open>write_tmp _ _ _ = _\<close> show ?thesis
          by (simp add: alone_simps ensure_generation_impl.simps [of c uu k] Let_def
              split: error.splits io_error.splits)
      qed
    qed
  qed
qed

text \<open>The machine whose steps are interleaved below is the function: run by a single process, the
  step machine ends with the file system and the result that \<open>ensure_generation_impl\<close>
  computes.\<close>

lemma alone_refines_impl:
  assumes "gen True = uu k" "tmp True = uu (Suc k)" "gen False = uu (k + 2)" "tmp False = uu (k + 3)"
    and "ensure_generation_impl c uu k d True fs = (fs', r)"
  shows "alone c d gen tmp (GStart True) fs fs' r"
proof (rule alone_attempt [where h = True and k = k and uu = uu and gen = gen and tmp = tmp, OF assms(1,2) _ assms(5)])
  fix fs1 assume e: "ensure_generation_impl c uu (k + 2) d False fs1 = (fs', r)"
  show "alone c d gen tmp (GStart False) fs1 fs' r"
    by (rule alone_attempt [where h = False and k = "k + 2" and uu = uu and gen = gen and tmp = tmp, OF _ _ _ e]) (use assms(3,4) in \<open>auto simp: numeral_3_eq_3\<close>)
qed

theorem alone_refines_impl_witness:
  "alone toy_codec [] (\<lambda>h. if h then [98] else [98, 97, 97]) (\<lambda>h. if h then [98, 97] else [98, 97, 97, 97])
     (GStart True) [([], Dir)] [([], Dir), (generation_file_path [], File [98])] (Inr [98])"
proof -
  have e: "ensure_generation_impl toy_codec (\<lambda>k. 98 # replicate k 97) 0 [] True [([], Dir)]
      = ([([], Dir), (generation_file_path [], File [98])], Inr [98])"
    by code_simp
  show ?thesis
    by (rule alone_refines_impl [OF _ _ _ _ e]) (simp_all add: numeral_2_eq_2 numeral_3_eq_3)
qed

text \<open>Any number of processes, each with its own UUIDs; a step is one call of one process.\<close>

inductive gstep :: "gen_codec \<Rightarrow> path \<Rightarrow> (nat \<Rightarrow> bool \<Rightarrow> rstr) \<Rightarrow> (nat \<Rightarrow> bool \<Rightarrow> rstr) \<Rightarrow>
    fsys \<times> (nat \<Rightarrow> gpc) \<Rightarrow> fsys \<times> (nat \<Rightarrow> gpc) \<Rightarrow> bool" for c d gen tmp where
  "gproc c d (gen i) (tmp i) (pcs i) fs = (pc', fs') \<Longrightarrow> gstep c d gen tmp (fs, pcs) (fs', pcs(i := pc'))"

definition tmp_path :: "path \<Rightarrow> (nat \<Rightarrow> bool \<Rightarrow> rstr) \<Rightarrow> nat \<Rightarrow> bool \<Rightarrow> path" where
  "tmp_path d tmp i h = d @ [tmp_file_name (tmp i h)]"

definition target_ok :: "gen_codec \<Rightarrow> path \<Rightarrow> fsys \<Rightarrow> bool" where
  "target_ok c d fs \<longleftrightarrow>
     fs_get fs (generation_file_path d) = None \<or> read_generation c fs d \<noteq> None"

fun gpc_ok :: "gen_codec \<Rightarrow> path \<Rightarrow> (nat \<Rightarrow> bool \<Rightarrow> rstr) \<Rightarrow> (nat \<Rightarrow> bool \<Rightarrow> rstr) \<Rightarrow> fsys \<Rightarrow> nat \<Rightarrow> gpc \<Rightarrow> bool"
where
  "gpc_ok c d gen tmp fs i (GStart h) = True"
| "gpc_ok c d gen tmp fs i (GWrite h) = True"
| "gpc_ok c d gen tmp fs i (GLink h) =
     (fs_get fs (tmp_path d tmp i h) = Some (File (as_bytes (gen_print c (gen i h)))))"
| "gpc_ok c d gen tmp fs i (GWon h) = (read_generation c fs d = Some (gen i h))"
| "gpc_ok c d gen tmp fs i (GLost h) = (read_generation c fs d \<noteq> None)"
| "gpc_ok c d gen tmp fs i (GFail h e) = False"
| "gpc_ok c d gen tmp fs i (GReread h) = (read_generation c fs d \<noteq> None)"
| "gpc_ok c d gen tmp fs i GHeal = False"
| "gpc_ok c d gen tmp fs i (GDone r) = (\<exists>g. r = Inr g \<and> read_generation c fs d = Some g)"

definition ginv :: "gen_codec \<Rightarrow> path \<Rightarrow> (nat \<Rightarrow> bool \<Rightarrow> rstr) \<Rightarrow> (nat \<Rightarrow> bool \<Rightarrow> rstr) \<Rightarrow>
    fsys \<times> (nat \<Rightarrow> gpc) \<Rightarrow> bool" where
  "ginv c d gen tmp s \<longleftrightarrow> (case s of (fs, pcs) \<Rightarrow>
     is_dir fs d \<and> target_ok c d fs \<and> (\<forall>i h. fs_get fs (tmp_path d tmp i h) \<noteq> Some Dir)
     \<and> (\<forall>i. gpc_ok c d gen tmp fs i (pcs i)))"

text \<open>
  What a step may do to the file system without disturbing the other processes: it leaves a
  readable target as it is and touches no temporary file of another process.
\<close>

definition gframe :: "gen_codec \<Rightarrow> path \<Rightarrow> (nat \<Rightarrow> bool \<Rightarrow> rstr) \<Rightarrow> nat \<Rightarrow> fsys \<Rightarrow> fsys \<Rightarrow> bool" where
  "gframe c d tmp i fs fs' \<longleftrightarrow>
     is_dir fs' d \<and> target_ok c d fs'
     \<and> (\<forall>g. read_generation c fs d = Some g \<longrightarrow> read_generation c fs' d = Some g)
     \<and> (\<forall>j h. j \<noteq> i \<longrightarrow> fs_get fs' (tmp_path d tmp j h) = fs_get fs (tmp_path d tmp j h))
     \<and> (\<forall>h. fs_get fs' (tmp_path d tmp i h) \<noteq> Some Dir)"

lemma gpc_ok_frame:
  "gpc_ok c d gen tmp fs j pc \<Longrightarrow> gframe c d tmp i fs fs' \<Longrightarrow> j \<noteq> i \<Longrightarrow> gpc_ok c d gen tmp fs' j pc"
  by (cases pc) (auto simp: gframe_def)

text \<open>The two writes of a process: to its own temporary file, and the link.\<close>

lemma gframe_tmp:
  assumes "is_dir fs d" "target_ok c d fs"
    and inj: "\<And>j h'. tmp i h = tmp j h' \<Longrightarrow> j = i"
    and nodir: "\<And>i h. fs_get fs (tmp_path d tmp i h) \<noteq> Some Dir"
    and upd: "fs_get fs' = (fs_get fs)(tmp_path d tmp i h := n)" "n \<noteq> Some Dir"
  shows "gframe c d tmp i fs fs'"
proof -
  have "fs_get fs' (generation_file_path d) = fs_get fs (generation_file_path d)"
    by (simp add: upd(1) tmp_path_def)
  then have rg: "read_generation c fs' d = read_generation c fs d" by (simp add: read_generation_get)
  have other: "fs_get fs' (tmp_path d tmp j h') = fs_get fs (tmp_path d tmp j h')" if "j \<noteq> i" for j h'
    using that inj [of j h'] by (auto simp: upd(1) tmp_path_def tmp_file_name_def)
  show ?thesis
    using assms(1,2) rg other nodir upd
    by (auto simp: gframe_def target_ok_def is_dir_def tmp_path_def)
qed

lemma gframe_refl: "is_dir fs d \<Longrightarrow> target_ok c d fs \<Longrightarrow> (\<And>i h. fs_get fs (tmp_path d tmp i h) \<noteq> Some Dir) \<Longrightarrow>
    gframe c d tmp i fs fs"
  by (auto simp: gframe_def)

lemma gproc_inv:
  assumes inj: "\<And>h j h'. tmp i h = tmp j h' \<Longrightarrow> j = i"
    and ok: "gen_ok c (gen i True)" "gen_ok c (gen i False)"
    and dir: "is_dir fs d" and tgt: "target_ok c d fs"
    and nodir: "\<And>i h. fs_get fs (tmp_path d tmp i h) \<noteq> Some Dir"
    and pc: "gpc_ok c d gen tmp fs i pc"
    and st: "gproc c d (gen i) (tmp i) pc fs = (pc', fs')"
  shows "gframe c d tmp i fs fs' \<and> gpc_ok c d gen tmp fs' i pc'"
proof -
  have rm: "fs_get (ignore_err (remove_file (tmp_path d tmp i h)) fs) =
      (fs_get fs)(tmp_path d tmp i h := None)" for h
    using nodir [of i h] by (auto simp: fs_get_ignore_remove split: option.splits node.splits)
  have frm: "gframe c d tmp i fs (ignore_err (remove_file (tmp_path d tmp i h)) fs)" for h
    by (rule gframe_tmp [OF dir tgt inj nodir rm]) auto
  note keep = frm [unfolded gframe_def]
  have same: "gframe c d tmp i fs fs" using dir tgt nodir by (rule gframe_refl)
  show ?thesis
  proof (cases pc)
    case (GStart h)
    with st same show ?thesis by (auto split: option.splits)
  next
    case (GWrite h)
    let ?n = "File (as_bytes (gen_print c (gen i h)))"
    have w: "fs' = fs_put (tmp_path d tmp i h) ?n fs" "pc' = GLink h"
      using st GWrite dir nodir [of i h] by (auto simp: write_tmp_def is_dir_def tmp_path_def)
    have "gframe c d tmp i fs fs'"
      by (rule gframe_tmp [OF dir tgt inj nodir, where n = "Some ?n"]) (simp_all add: w)
    with w show ?thesis by simp
  next
    case (GLink h)
    let ?b = "as_bytes (gen_print c (gen i h))" and ?p = "generation_file_path d"
    have t: "fs_get fs (d @ [tmp_file_name (tmp i h)]) = Some (File ?b)"
      using pc GLink by (simp add: tmp_path_def)
    show ?thesis
    proof (cases "fs_get fs ?p")
      case None
      then have w: "fs' = fs_put ?p (File ?b) fs" "pc' = GWon h"
        using st GLink t dir
        by (auto simp: hard_link_def fs_exists_def is_dir_def generation_file_path_def)
      have g: "read_generation c fs' d = Some (gen i h)"
        using ok w by (cases h) (auto simp: read_generation_get parse_generation_print)
      have "gframe c d tmp i fs fs'"
        using dir None nodir g w
        by (auto simp: gframe_def target_ok_def is_dir_def read_generation_get tmp_path_def generation_file_path_def)
      with w g show ?thesis by simp
    next
      case (Some n)
      then have "pc' = GLost h" "fs' = fs"
        using st GLink t by (auto simp: hard_link_def fs_exists_def)
      moreover have "read_generation c fs d \<noteq> None" using tgt Some by (simp add: target_ok_def)
      ultimately show ?thesis using same by simp
    qed
  next
    case (GWon h)
    with st pc keep show ?thesis by (auto simp: tmp_path_def [symmetric] frm)
  next
    case (GLost h)
    with st pc keep show ?thesis by (auto simp: tmp_path_def [symmetric] frm)
  next
    case (GReread h)
    with st pc same show ?thesis by auto
  next
    case (GDone r)
    with st pc same show ?thesis by auto
  qed (use pc in auto)
qed

lemma ginv_step:
  assumes inj: "\<And>i h j h'. tmp i h = tmp j h' \<Longrightarrow> j = i"
    and ok: "\<And>i h. gen_ok c (gen i h)"
    and "ginv c d gen tmp s" and "gstep c d gen tmp s t"
  shows "ginv c d gen tmp t"
  using assms(4)
proof (cases rule: gstep.cases)
  case (1 i pcs fs pc' fs')
  from assms(3) 1(1) have I: "is_dir fs d" "target_ok c d fs"
    "\<And>i h. fs_get fs (tmp_path d tmp i h) \<noteq> Some Dir" "\<And>j. gpc_ok c d gen tmp fs j (pcs j)"
    by (auto simp: ginv_def)
  have P: "gframe c d tmp i fs fs' \<and> gpc_ok c d gen tmp fs' i pc'"
    by (rule gproc_inv [OF _ ok ok I(1-3) I(4) 1(3)]) (use inj in blast)
  then have "gpc_ok c d gen tmp fs' j ((pcs(i := pc')) j)" for j
    using gpc_ok_frame [OF I(4)] by auto
  moreover have "fs_get fs' (tmp_path d tmp j h) \<noteq> Some Dir" for j h
    using P I(3) by (cases "j = i") (auto simp: gframe_def)
  ultimately show ?thesis using P 1(2) by (auto simp: ginv_def gframe_def)
qed

text \<open>C5: processes that race to create one stream agree.  Starting from a directory with no sidecar or a
  readable one, however the file-system calls of any number of processes running
  \<^verbatim>\<open>ensure_generation\<close> interleave, every process that finishes succeeds, all of them return the
  same generation, and the sidecar holds it; the self-healing branch is never reached.\<close>

theorem ensure_generation_race_agreement:
  assumes inj: "\<And>i h j h'. tmp i h = tmp j h' \<Longrightarrow> j = i"
    and ok: "\<And>i h. gen_ok c (gen i h)"
    and init: "is_dir fs0 d" "target_ok c d fs0" "\<And>i h. fs_get fs0 (tmp_path d tmp i h) \<noteq> Some Dir"
    and run: "(gstep c d gen tmp)\<^sup>*\<^sup>* (fs0, \<lambda>_. GStart True) (fs, pcs)"
  shows "(\<forall>i j r r'. pcs i = GDone r \<and> pcs j = GDone r' \<longrightarrow>
      r = r' \<and> (\<exists>g. r = Inr g \<and> read_generation c fs d = Some g)) \<and> (\<forall>i. pcs i \<noteq> GHeal)"
proof -
  have "ginv c d gen tmp (fs0, \<lambda>_. GStart True)" using init by (simp add: ginv_def)
  with run have I: "ginv c d gen tmp (fs, pcs)"
    by (induction rule: rtranclp_induct) (auto intro: ginv_step [OF inj ok])
  then have "gpc_ok c d gen tmp fs i (pcs i)" for i by (simp add: ginv_def)
  then show ?thesis by (metis gpc_ok.simps(8,9) option.inject)
qed

theorem ensure_generation_race_agreement_witness:
  "\<exists>fs pcs r. (gstep toy_codec [] (\<lambda>i h. 98 # replicate i 97) (\<lambda>i h. replicate i 97))\<^sup>*\<^sup>*
      ([([], Dir)], \<lambda>_. GStart True) (fs, pcs)
    \<and> pcs 0 = GDone r \<and> (\<exists>g. r = Inr g \<and> read_generation toy_codec fs [] = Some g)"
proof -
  let ?gen = "\<lambda>(i::nat) (h::bool). 98 # replicate i 97" and ?tmp = "\<lambda>(i::nat) (h::bool). replicate i (97::nat)"
  let ?S = "gstep toy_codec [] ?gen ?tmp"
  define st where "st = (\<lambda>(fs, pcs). case gproc toy_codec [] (?gen 0) (?tmp 0) (pcs (0::nat)) fs of
      (pc', fs') \<Rightarrow> (fs', pcs(0 := pc')))"
  have one: "?S s (st s)" for s
    unfolding st_def by (cases s) (auto split: prod.splits intro: gstep.intros)
  define e where "e = st (st (st (st ([([], Dir)], \<lambda>_. GStart True))))"
  have run: "?S\<^sup>*\<^sup>* ([([], Dir)], \<lambda>_. GStart True) (fst e, snd e)"
    unfolding e_def prod.collapse
    by (rule rtranclp.rtrancl_into_rtrancl [rotated], rule one)+ (rule rtranclp.rtrancl_refl)
  have d: "snd e 0 = GDone (Inr [98])" unfolding e_def st_def by code_simp
  have inj: "\<And>i h j h'. ?tmp i h = ?tmp j h' \<Longrightarrow> j = i" by (metis length_replicate)
  have i: "is_dir [([], Dir)] []" "target_ok toy_codec [] [([], Dir)]"
    "\<And>i h. fs_get [([], Dir)] (tmp_path [] ?tmp i h) \<noteq> Some Dir"
    by (simp_all add: is_dir_def target_ok_def fs_get_def generation_file_path_def tmp_path_def)
  from ensure_generation_race_agreement [of ?tmp toy_codec ?gen, OF inj toy_codec_ok i run] d run
  show ?thesis by blast
qed

text \<open>A detected reset is a real change of identity.  Both comparisons report nothing when the
  current generation is unknown, the checkpoint rule also when none was recorded, and the
  position rule also when no position was recorded; where both values are known the two rules
  agree, and a position recorded without a generation reports the first generation that appears.\<close>

lemma generation_rules:
  "generation_mismatch recorded None = False \<and> generation_mismatch None current = False
   \<and> position_reset_detected applied recorded None = False
   \<and> position_reset_detected None recorded current = False
   \<and> position_reset_detected (Some n) (Some a) (Some b) = generation_mismatch (Some a) (Some b)
   \<and> generation_mismatch (Some a) (Some b) = (a \<noteq> b)
   \<and> position_reset_detected (Some n) None (Some b)"
  by (auto simp: generation_mismatch_def position_reset_detected_def split: option.splits)

end
