(* ===== verification/WalScan.thy ===== *)
theory WalScan
  imports Cypher WalGeneration
begin

text \<open>
  Lines of a WAL file and the sequence numbers on disk (\<^verbatim>\<open>wal.rs\<close>): the line record, reading the last
  sequence number of a file through a bounded tail window, reading the first one, and the scan
  of a directory that tells a new writer where to continue.  \<^verbatim>\<open>serde_json\<close> is the parameter
  \<open>wal_codec\<close>.
\<close>

section \<open>Lines\<close>

record wal_line =
  ln_seq :: nat
  ln_ts :: rstr
  ln_db :: rstr
  ln_cypher :: rstr
  ln_params :: json

record wal_codec =
  line_print :: "wal_line \<Rightarrow> rstr option"
  line_parse :: "rstr \<Rightarrow> wal_line option"
  value_parse :: "rstr \<Rightarrow> json option"

definition value_seq :: "json \<Rightarrow> nat option" where
  "value_seq v = Option.bind (value_get v (lit ''seq'')) as_u64"

text \<open>
  What the code relies on of \<^verbatim>\<open>serde_json\<close> for a line it wrote: the text is one line without
  surrounding white space, it parses back to that line, and as a generic value it has the
  line's sequence number.
\<close>

definition printed_as :: "wal_codec \<Rightarrow> wal_line \<Rightarrow> rstr \<Rightarrow> bool" where
  "printed_as c l s \<longleftrightarrow> line_print c l = Some s \<and> valid_str s \<and> 10 \<notin> set s \<and> 13 \<notin> set s
     \<and> s \<noteq> [] \<and> \<not> is_whitespace (hd s) \<and> \<not> is_whitespace (last s)
     \<and> line_parse c s = Some l \<and> Option.bind (value_parse c s) value_seq = Some (ln_seq l)"

definition codec_ok :: "wal_codec \<Rightarrow> wal_line \<Rightarrow> bool" where
  "codec_ok c l \<longleftrightarrow> (\<exists>s. printed_as c l s)"

text \<open>The records of a file: every line that decodes, is not blank and parses.\<close>

definition parse_line :: "wal_codec \<Rightarrow> bytes \<Rightarrow> wal_line option" where
  "parse_line c l =
     (case from_utf8 l of None \<Rightarrow> None
      | Some raw \<Rightarrow> (let t = trim raw in if t = [] then None else line_parse c t))"

definition file_records :: "wal_codec \<Rightarrow> bytes \<Rightarrow> wal_line list" where
  "file_records c b = List.map_filter (parse_line c) (lines b)"

section \<open>First and last sequence number of a file\<close>

fun first_seq_lines :: "wal_codec \<Rightarrow> bytes list \<Rightarrow> nat option" where
  "first_seq_lines c [] = None"
| "first_seq_lines c (l # ls) =
     (case from_utf8 l of
        None \<Rightarrow> first_seq_lines c ls
      | Some raw \<Rightarrow>
          (let trimmed = trim raw in
           if trimmed = [] then first_seq_lines c ls
           else case line_parse c trimmed of
             Some wal_line \<Rightarrow> Some (ln_seq wal_line)
           | None \<Rightarrow> first_seq_lines c ls))"

definition first_seq_in_file :: "wal_codec \<Rightarrow> fsys \<Rightarrow> path \<Rightarrow> nat option" where
  "first_seq_in_file c fs p =
     (case read_file fs p of Inl _ \<Rightarrow> None | Inr b \<Rightarrow> first_seq_lines c (lines b))"

definition TAIL_READ_WINDOW :: nat where
  "TAIL_READ_WINDOW = 256 * 1024"

text \<open>The loop over the lines in reverse order.\<close>

fun last_seq_lines :: "wal_codec \<Rightarrow> rstr list \<Rightarrow> nat option" where
  "last_seq_lines c [] = None"
| "last_seq_lines c (raw # ls) =
     (let t = trim raw in
      if t = [] then last_seq_lines c ls
      else case Option.bind (value_parse c t) value_seq of
        Some seq \<Rightarrow> Some seq
      | None \<Rightarrow> last_seq_lines c ls)"

definition read_last_seq_in_range :: "wal_codec \<Rightarrow> fsys \<Rightarrow> path \<Rightarrow> nat \<Rightarrow> nat option result" where
  "read_last_seq_in_range c fs p start =
     rbind (read_file fs p) (\<lambda>b.
       let text = from_utf8_lossy (drop start b);
           ls = (if start > 0 then tl (lines text) else lines text)
       in Inr (last_seq_lines c (rev ls)))"

definition read_last_seq :: "wal_codec \<Rightarrow> fsys \<Rightarrow> path \<Rightarrow> nat option result" where
  "read_last_seq c fs p =
     (case file_len fs p of
        None \<Rightarrow> Inl (WalIo NotFound)
      | Some len \<Rightarrow>
          if len > TAIL_READ_WINDOW
          then rbind (read_last_seq_in_range c fs p (len - TAIL_READ_WINDOW))
                 (\<lambda>r. case r of Some seq \<Rightarrow> Inr (Some seq)
                      | None \<Rightarrow> read_last_seq_in_range c fs p 0)
          else read_last_seq_in_range c fs p 0)"

section \<open>The directory\<close>

definition wal_files :: "fsys \<Rightarrow> path \<Rightarrow> rstr list result" where
  "wal_files fs wal_dir = rbind (read_dir fs wal_dir) (\<lambda>ns. Inr (filter is_jsonl ns))"

fun scan_fold :: "wal_codec \<Rightarrow> fsys \<Rightarrow> path \<Rightarrow> nat option \<Rightarrow> rstr list \<Rightarrow> nat option result" where
  "scan_fold c fs d acc [] = Inr acc"
| "scan_fold c fs d acc (n # ns) =
     rbind (read_last_seq c fs (d @ [n])) (\<lambda>r.
       scan_fold c fs d (case r of None \<Rightarrow> acc
         | Some seq \<Rightarrow> (case acc of None \<Rightarrow> Some seq | Some m \<Rightarrow> if seq > m then Some seq else acc)) ns)"

definition scan_max_seq_detailed :: "wal_codec \<Rightarrow> fsys \<Rightarrow> path \<Rightarrow> nat option result" where
  "scan_max_seq_detailed c fs wal_dir = rbind (wal_files fs wal_dir) (scan_fold c fs wal_dir None)"

definition scan_max_seq :: "wal_codec \<Rightarrow> fsys \<Rightarrow> path \<Rightarrow> nat result" where
  "scan_max_seq c fs wal_dir =
     rbind (scan_max_seq_detailed c fs wal_dir)
       (\<lambda>m. Inr (case m of None \<Rightarrow> 0 | Some s \<Rightarrow> wrap_add u64_max s 1))"

definition count_jsonl_files :: "fsys \<Rightarrow> path \<Rightarrow> nat" where
  "count_jsonl_files fs d =
     (case read_dir fs d of Inl _ \<Rightarrow> 0 | Inr ns \<Rightarrow> length (filter is_jsonl ns))"

section \<open>An ASCII byte resynchronises UTF-8\<close>

lemma in_range_sync:
  "i \<le> length xs \<Longrightarrow> a < 128 \<Longrightarrow> 128 \<le> lo \<Longrightarrow> in_range lo hi (xs @ a # ys) i = in_range lo hi xs i"
  by (auto simp: in_range_def nth_append)

lemma utf8_next_sync:
  assumes "xs \<noteq> []" and a: "a < 128"
  shows "utf8_next (xs @ a # ys) = utf8_next xs \<and> snd (utf8_next xs) \<le> length xs"
proof -
  have 0: "(xs @ a # ys) ! 0 = xs ! 0" and l: "1 \<le> length xs"
    using assms by (auto simp: nth_append Suc_le_eq)
  have nth: "in_range lo hi xs i \<Longrightarrow> (xs @ a # ys) ! i = xs ! i" for lo hi i
    by (simp add: in_range_def nth_append)
  have len: "in_range lo hi xs i \<Longrightarrow> Suc i \<le> length xs" for lo hi i by (simp add: in_range_def)
  have len': "in_range lo hi xs 1 \<Longrightarrow> 2 \<le> length xs" "in_range lo hi xs 2 \<Longrightarrow> 3 \<le> length xs"
    "in_range lo hi xs 3 \<Longrightarrow> 4 \<le> length xs" for lo hi using len by fastforce+
  have i1: "in_range (if b0 = 224 then 160 else 128) hi (xs @ a # ys) 1
      = in_range (if b0 = 224 then 160 else 128) hi xs 1"
    "in_range (if b0 = 240 then 144 else 128) hi (xs @ a # ys) 1
      = in_range (if b0 = 240 then 144 else 128) hi xs 1" for b0 hi :: nat
    by (rule in_range_sync [OF l a]; simp)+
  have i1': "in_range 128 191 (xs @ a # ys) 1 = in_range 128 191 xs 1"
    by (rule in_range_sync [OF l a]) simp
  have i2: "in_range lo hi xs 1 \<Longrightarrow> in_range 128 191 (xs @ a # ys) 2 = in_range 128 191 xs 2" for lo hi
    by (rule in_range_sync [OF _ a]) (auto dest: len)
  have i3: "in_range lo hi xs 2 \<Longrightarrow> in_range 128 191 (xs @ a # ys) 3 = in_range 128 191 xs 3" for lo hi
    by (rule in_range_sync [OF _ a]) (auto dest: len)
  consider "xs ! 0 < 128" | "194 \<le> xs ! 0" "xs ! 0 \<le> 223" | "224 \<le> xs ! 0" "xs ! 0 \<le> 239"
    | "240 \<le> xs ! 0" "xs ! 0 \<le> 244" | "128 \<le> xs ! 0" "xs ! 0 < 194 \<or> 244 < xs ! 0"
    by linarith
  then show ?thesis
  proof cases
    case 1
    with l show ?thesis by (simp add: utf8_next_def 0)
  next
    case 2
    with l i1' show ?thesis
      by (cases "in_range 128 191 xs 1") (auto simp: utf8_next_def 0 nth dest: len)
  next
    case 3
    let ?P = "in_range (if xs ! 0 = 224 then 160 else 128) (if xs ! 0 = 237 then 159 else 191) xs 1"
    from 3 l show ?thesis
      unfolding utf8_next_def Let_def 0 i1
      by (cases ?P; cases "in_range 128 191 xs 2")
        (simp_all add: i2 nth len' del: One_nat_def)
  next
    case 4
    let ?P = "in_range (if xs ! 0 = 240 then 144 else 128) (if xs ! 0 = 244 then 143 else 191) xs 1"
    from 4 l show ?thesis
      unfolding utf8_next_def Let_def 0 i1
      by (cases ?P; cases "in_range 128 191 xs 2"; cases "in_range 128 191 xs 3")
        (simp_all add: i2 i3 nth len' del: One_nat_def)
  next
    case 5
    with l show ?thesis by (auto simp: utf8_next_def 0)
  qed
qed

lemma scan_utf8_ascii:
  "a < 128 \<Longrightarrow> scan_units utf8_next (xs @ a # ys) = scan_units utf8_next xs @ Some a # scan_units utf8_next ys"
proof (induction xs rule: length_induct)
  case (1 xs)
  show ?case
  proof (cases xs)
    case Nil
    then show ?thesis using 1(2) by (simp add: utf8_next_def)
  next
    case (Cons b bs)
    obtain u n where un: "utf8_next (b # bs) = (u, n)" by (cases "utf8_next (b # bs)")
    with utf8_next_sync [of "b # bs" a ys] 1(2) have
      s: "utf8_next (b # bs @ a # ys) = (u, n)" "n \<le> length (b # bs)" by auto
    have d: "drop (n - 1) (bs @ a # ys) = drop (n - 1) bs @ a # ys" using s(2) by simp
    have IH: "scan_units utf8_next (drop (n - 1) bs @ a # ys)
        = scan_units utf8_next (drop (n - 1) bs) @ Some a # scan_units utf8_next ys"
      by (rule 1(1) [rule_format]) (simp_all add: Cons 1(2))
    have "scan_units utf8_next (b # (bs @ a # ys)) = u # scan_units utf8_next (drop (n - 1) (bs @ a # ys))"
      using s(1) by simp
    also have "\<dots> = u # scan_units utf8_next (drop (n - 1) bs) @ Some a # scan_units utf8_next ys"
      unfolding d IH by simp
    finally show ?thesis using un by (simp add: Cons)
  qed
qed

lemma lossy_ascii:
  "a < 128 \<Longrightarrow> from_utf8_lossy (xs @ a # ys) = from_utf8_lossy xs @ a # from_utf8_lossy ys"
  by (simp add: from_utf8_lossy_def scan_utf8_ascii)

lemma lossy_newline: "from_utf8_lossy (xs @ 10 # ys) = from_utf8_lossy xs @ 10 # from_utf8_lossy ys"
  by (simp add: lossy_ascii)

lemma lossy_Nil [simp]: "from_utf8_lossy [] = []"
  by (simp add: from_utf8_lossy_def)

lemma lossy_Cons:
  "from_utf8_lossy (b # bs) =
     (case utf8_next (b # bs) of (u, n) \<Rightarrow> case_option 65533 id u # from_utf8_lossy (drop (n - 1) bs))"
  by (simp add: from_utf8_lossy_def split: prod.splits)

lemma utf8_next_ascii: "utf8_next (b # bs) = (Some a, n) \<Longrightarrow> a < 128 \<Longrightarrow> b = a \<and> n = 1"
  by (auto simp: utf8_next_def Let_def in_range_def split: if_splits)

lemma lossy_last_ascii:
  "a < 128 \<Longrightarrow> from_utf8_lossy bs \<noteq> [] \<Longrightarrow> last (from_utf8_lossy bs) = a \<Longrightarrow> last bs = a"
proof (induction bs rule: length_induct)
  case (1 bs)
  then obtain b bs' where bs: "bs = b # bs'" by (cases bs) auto
  obtain u n where un: "utf8_next (b # bs') = (u, n)" by (cases "utf8_next (b # bs')")
  let ?r = "from_utf8_lossy (drop (n - 1) bs')"
  show ?case
  proof (cases "?r = []")
    case True
    with 1(2,4) un bs have "u = Some a" by (auto simp: lossy_Cons split: option.splits)
    with un 1(2) have "b = a" "n = 1" using utf8_next_ascii by blast+
    moreover from this True have "bs' = []" by (cases bs') (auto simp: lossy_Cons split: prod.splits)
    ultimately show ?thesis using bs by simp
  next
    case False
    with 1(4) un bs have "last ?r = a" by (simp add: lossy_Cons)
    with 1(1,2) False bs have "last (drop (n - 1) bs') = a" by (simp add: less_Suc_eq_le)
    moreover have "drop (n - 1) bs' \<noteq> []" using False by auto
    ultimately show ?thesis using bs by (cases bs') (auto simp: last_drop)
  qed
qed

section \<open>The tail window\<close>

lemma last_seq_lines_append:
  "last_seq_lines c (xs @ ys) =
     (case last_seq_lines c xs of Some s \<Rightarrow> Some s | None \<Rightarrow> last_seq_lines c ys)"
  by (induction xs) (auto simp: Let_def split: option.splits)

text \<open>A character in a decoded text comes from a byte: a line feed only from a line feed.\<close>

lemma lossy_no_newline: "10 \<notin> set bs \<Longrightarrow> 10 \<notin> set (from_utf8_lossy bs)"
proof (induction bs rule: length_induct)
  case (1 bs)
  show ?case
  proof (cases bs)
    case (Cons b bs')
    obtain u n where un: "utf8_next (b # bs') = (u, n)" by (cases "utf8_next (b # bs')")
    have "10 \<notin> set (drop (n - 1) bs')" using 1(2) Cons by (auto dest: in_set_dropD)
    then have "10 \<notin> set (from_utf8_lossy (drop (n - 1) bs'))" using 1(1) Cons by simp
    moreover have "u \<noteq> Some 10" using un utf8_next_ascii [of b bs' 10 n] 1(2) Cons by auto
    ultimately show ?thesis using un Cons
      by (auto simp: from_utf8_lossy_def split: option.splits)
  qed (simp add: from_utf8_lossy_def)
qed

lemma lines_no_newline_tl: "10 \<notin> set s \<Longrightarrow> tl (lines s) = []"
  using lines_last [of s] by (cases "s = []") auto

lemma tail_lines_suffix:
  "\<exists>ls. lines (from_utf8_lossy b) = ls @ tl (lines (from_utf8_lossy (drop start b)))"
proof (cases "10 \<in> set (drop start b)")
  case False
  then have "tl (lines (from_utf8_lossy (drop start b))) = []"
    by (intro lines_no_newline_tl lossy_no_newline)
  then show ?thesis by simp
next
  case True
  then obtain x y where xy: "drop start b = x @ 10 # y" "10 \<notin> set x" by (meson split_list_first)
  have b: "b = (take start b @ x) @ 10 # y" using xy(1) by (metis append.assoc append_take_drop_id)
  have "lines (from_utf8_lossy (drop start b)) = chomp_cr (from_utf8_lossy x) # lines (from_utf8_lossy y)"
    using xy lossy_no_newline [of x] by (simp add: lossy_newline lines_line)
  moreover have "lines (from_utf8_lossy b) =
      lines (from_utf8_lossy (take start b @ x) @ [10]) @ lines (from_utf8_lossy y)"
    unfolding trans [OF arg_cong [where f = from_utf8_lossy, OF b] lossy_newline]
    by (rule lines_append_nl)
  ultimately show ?thesis by auto
qed

text \<open>Decoding a file and splitting it into lines commute.\<close>

lemma chomp_lossy: "chomp_cr (from_utf8_lossy x) = from_utf8_lossy (chomp_cr x)"
proof (cases "x \<noteq> [] \<and> last x = 13")
  case True
  then obtain y where x: "x = y @ [13]" by (metis append_butlast_last_id)
  then show ?thesis using lossy_ascii [of 13 y "[]"] by (simp add: chomp_cr_def)
next
  case False
  then show ?thesis using lossy_last_ascii [of 13 x] by (cases "x = []") (auto simp: chomp_cr_def)
qed

lemma lossy_eq_Nil: "from_utf8_lossy x = [] \<longleftrightarrow> x = []"
  by (cases x) (auto simp: lossy_Cons split: prod.splits)

lemma lines_lossy: "lines (from_utf8_lossy b) = map from_utf8_lossy (lines b)"
proof (induction b rule: length_induct)
  case (1 b)
  show ?case
  proof (cases "10 \<in> set b")
    case False
    then show ?thesis
      using lines_last [of b] lines_last [of "from_utf8_lossy b"] lossy_no_newline [of b]
      by (cases "b = []") (auto simp: lossy_eq_Nil)
  next
    case True
    then obtain x y where xy: "b = x @ 10 # y" "10 \<notin> set x" by (meson split_list_first)
    then have IH: "lines (from_utf8_lossy y) = map from_utf8_lossy (lines y)" using 1 by simp
    have "lines (from_utf8_lossy b) = chomp_cr (from_utf8_lossy x) # lines (from_utf8_lossy y)"
      unfolding xy(1) lossy_newline by (rule lines_line [OF lossy_no_newline [OF xy(2)]])
    then show ?thesis using xy IH by (simp add: lines_line chomp_lossy)
  qed
qed

section \<open>Sequence numbers on disk\<close>

definition line_seq :: "wal_codec \<Rightarrow> bytes \<Rightarrow> nat option" where
  "line_seq c l = (let t = trim (from_utf8_lossy l) in
     if t = [] then None else Option.bind (value_parse c t) value_seq)"

definition file_seqs :: "wal_codec \<Rightarrow> bytes \<Rightarrow> nat list" where
  "file_seqs c b = List.map_filter (line_seq c) (lines b)"

definition last_opt :: "'a list \<Rightarrow> 'a option" where
  "last_opt xs = (if xs = [] then None else Some (last xs))"

lemma map_filter_append: "List.map_filter f (xs @ ys) = List.map_filter f xs @ List.map_filter f ys"
  by (simp add: List.map_filter_def)

lemma last_seq_lines_eq:
  "last_seq_lines c (rev (map from_utf8_lossy ls)) = last_opt (List.map_filter (line_seq c) ls)"
proof (induction ls rule: rev_induct)
  case Nil
  then show ?case by (simp add: last_opt_def List.map_filter_def)
next
  case (snoc l ls)
  have one: "last_seq_lines c (from_utf8_lossy l # xs) =
      (case line_seq c l of Some s \<Rightarrow> Some s | None \<Rightarrow> last_seq_lines c xs)" for xs
    by (simp add: line_seq_def Let_def)
  have "List.map_filter (line_seq c) [l] = (case line_seq c l of None \<Rightarrow> [] | Some s \<Rightarrow> [s])"
    by (simp add: List.map_filter_def split: option.splits)
  then show ?case using snoc one [of "rev (map from_utf8_lossy ls)"]
    by (auto simp: map_filter_append last_opt_def split: option.splits)
qed

lemma window_correct:
  "last_seq_lines c (rev (tl (lines (from_utf8_lossy (drop k b))))) = Some s \<Longrightarrow>
     last_opt (file_seqs c b) = Some s"
  using tail_lines_suffix [of b k]
  by (auto simp: last_seq_lines_append lines_lossy file_seqs_def simp flip: last_seq_lines_eq)

lemma read_last_seq_file:
  assumes "read_file fs p = Inr b"
  shows "read_last_seq c fs p = Inr (last_opt (file_seqs c b))"
proof -
  let ?full = "last_opt (file_seqs c b)" and ?k = "length b - TAIL_READ_WINDOW"
  have len: "file_len fs p = Some (length b)"
    using assms by (auto simp: read_file_def file_len_def split: option.splits node.splits)
  have range0: "read_last_seq_in_range c fs p 0 = Inr ?full"
    by (simp add: read_last_seq_in_range_def assms lines_lossy last_seq_lines_eq file_seqs_def)
  obtain x where x: "read_last_seq_in_range c fs p ?k = Inr x"
    by (simp add: read_last_seq_in_range_def assms Let_def)
  have "x = Some s \<Longrightarrow> ?full = Some s" for s
    using x range0 window_correct [of c ?k b s]
    by (cases "?k = 0") (auto simp: read_last_seq_in_range_def assms)
  then show ?thesis using x
    by (cases x) (simp_all add: read_last_seq_def len range0)
qed

text \<open>C10: reading only the last 256 KiB of a file finds the sequence number that reading all of it finds,
  the last one in the file, for every file: whatever bytes it holds, wherever the window cuts
  a line or a multi-byte character.\<close>

theorem read_last_seq_window:
  "read_last_seq c fs p = read_last_seq_in_range c fs p 0
   \<and> (\<forall>b. fs_get fs p = Some (File b) \<longrightarrow> read_last_seq c fs p = Inr (last_opt (file_seqs c b)))"
proof (cases "read_file fs p")
  case (Inl e)
  then show ?thesis
    by (auto simp: read_last_seq_def read_last_seq_in_range_def file_len_def read_file_def
        split: option.splits node.splits)
next
  case (Inr b)
  then have "read_last_seq_in_range c fs p 0 = Inr (last_opt (file_seqs c b))"
    by (simp add: read_last_seq_in_range_def lines_lossy last_seq_lines_eq file_seqs_def)
  with read_last_seq_file [OF Inr] Inr show ?thesis
    by (auto simp: read_file_def)
qed

theorem read_last_seq_window_witness:
  "read_last_seq \<lparr>line_print = \<lambda>_. None, line_parse = \<lambda>_. None, value_parse = \<lambda>_. None\<rparr>
     [([], File [65, 10])] [] = Inr None"
proof -
  let ?c = "\<lparr>line_print = \<lambda>_. None, line_parse = \<lambda>_. None, value_parse = \<lambda>_. None\<rparr>"
  have f: "fs_get [([], File [65, 10])] [] = Some (File [65, 10])" by (simp add: fs_get_def)
  have s: "file_seqs ?c [65, 10] = []"
    by (simp add: file_seqs_def lines_def chomp_cr_def List.map_filter_def line_seq_def Let_def)
  from read_last_seq_window [of ?c "[([], File [65, 10])]" "[]"] f s show ?thesis
    by (auto simp: last_opt_def)
qed

section \<open>The scan\<close>

lemma scan_fold_ge:
  assumes "scan_fold c fs d acc ns = Inr m"
  shows "(\<forall>a. acc = Some a \<longrightarrow> (\<exists>x. m = Some x \<and> a \<le> x))
    \<and> (\<forall>n \<in> set ns. \<forall>s. read_last_seq c fs (d @ [n]) = Inr (Some s) \<longrightarrow> (\<exists>x. m = Some x \<and> s \<le> x))"
  using assms
proof (induction ns arbitrary: acc)
  case Nil
  then show ?case by auto
next
  case (Cons n ns)
  then obtain r where r: "read_last_seq c fs (d @ [n]) = Inr r"
    by (auto simp: result_simps)
  let ?acc = "case r of None \<Rightarrow> acc | Some seq \<Rightarrow>
      (case acc of None \<Rightarrow> Some seq | Some m \<Rightarrow> if seq > m then Some seq else acc)"
  have IH: "(\<forall>a. ?acc = Some a \<longrightarrow> (\<exists>x. m = Some x \<and> a \<le> x))
      \<and> (\<forall>n \<in> set ns. \<forall>s. read_last_seq c fs (d @ [n]) = Inr (Some s) \<longrightarrow> (\<exists>x. m = Some x \<and> s \<le> x))"
    using Cons.IH [of ?acc] Cons.prems r by simp
  have acc: "\<exists>x. ?acc = Some x \<and> a \<le> x" if "acc = Some a" for a
    using that by (cases r) auto
  have here: "\<exists>x. ?acc = Some x \<and> s \<le> x" if "r = Some s" for s
    using that by (cases acc) auto
  show ?case using IH acc here r by auto
qed

lemma scan_fold_readable:
  "scan_fold c fs d acc ns = Inr m \<Longrightarrow> n \<in> set ns \<Longrightarrow> \<exists>r. read_last_seq c fs (d @ [n]) = Inr r"
  by (induction ns arbitrary: acc) (auto simp: result_simps)

text \<open>The result of a scan is the last number of some file.\<close>

lemma scan_fold_source:
  "scan_fold c fs d acc ns = Inr (Some y) \<Longrightarrow> acc \<noteq> Some y \<Longrightarrow>
     \<exists>n \<in> set ns. read_last_seq c fs (d @ [n]) = Inr (Some y)"
proof (induction ns arbitrary: acc)
  case (Cons k ks)
  then obtain r where r: "read_last_seq c fs (d @ [k]) = Inr r" by (auto simp: result_simps)
  let ?acc = "case r of None \<Rightarrow> acc | Some seq \<Rightarrow>
      (case acc of None \<Rightarrow> Some seq | Some m \<Rightarrow> if seq > m then Some seq else acc)"
  have f: "scan_fold c fs d ?acc ks = Inr (Some y)" using Cons.prems r by simp
  show ?case
  proof (cases "?acc = Some y")
    case True
    then have "r = Some y" using Cons.prems(2) by (auto split: option.splits if_splits)
    with r show ?thesis by auto
  next
    case False
    from Cons.IH [OF f False] show ?thesis by auto
  qed
qed simp

lemma read_last_seq_SomeD:
  assumes "read_last_seq c fs p = Inr (Some s)"
  shows "\<exists>b. fs_get fs p = Some (File b) \<and> s \<in> set (file_seqs c b)"
proof -
  obtain b where b: "read_file fs p = Inr b"
    using assms by (cases "read_file fs p")
      (auto simp: read_last_seq_def file_len_def read_file_def read_last_seq_in_range_def
        split: option.splits node.splits)
  with read_last_seq_file [OF b, of c] assms show ?thesis
    by (auto simp: read_file_def last_opt_def split: option.splits node.splits if_splits)
qed

lemma sorted_le_last: "sorted xs \<Longrightarrow> x \<in> set xs \<Longrightarrow> x \<le> last xs"
  by (cases xs rule: rev_cases) (auto simp: sorted_append)

text \<open>
  After a scan, the next sequence number lies above every number in every file whose numbers
  ascend.
\<close>

lemma scan_max_seq_above:
  assumes wf: "fs_wf fs" and scan: "scan_max_seq c fs d = Inr g"
    and n: "is_jsonl n" "fs_get fs (d @ [n]) = Some (File b)"
    and asc: "sorted (file_seqs c b)" and s: "s \<in> set (file_seqs c b)"
    and bound: "\<And>m n b. is_jsonl n \<Longrightarrow> fs_get fs (d @ [n]) = Some (File b) \<Longrightarrow> m \<in> set (file_seqs c b) \<Longrightarrow> m < u64_max"
  shows "s < g"
proof -
  from scan obtain ns m where ns: "read_dir fs d = Inr ns"
    and f: "scan_fold c fs d None (filter is_jsonl ns) = Inr m"
    and g: "g = (case m of None \<Rightarrow> 0 | Some s \<Rightarrow> wrap_add u64_max s 1)"
    by (auto simp: scan_max_seq_def scan_max_seq_detailed_def wal_files_def result_simps)
  have mem: "n \<in> set (filter is_jsonl ns)"
    using read_dir_mem [OF wf ns] n by (simp add: fs_exists_def)
  have "read_last_seq c fs (d @ [n]) = Inr (Some (last (file_seqs c b)))"
    using read_last_seq_file [of fs "d @ [n]" b c] n(2) s by (auto simp: read_file_def last_opt_def)
  with scan_fold_ge [OF f] mem obtain x where x: "m = Some x" "last (file_seqs c b) \<le> x" by blast
  obtain k where "is_jsonl k" "read_last_seq c fs (d @ [k]) = Inr (Some x)"
    using scan_fold_source [OF f [unfolded x(1)]] by auto
  then have "x < u64_max" using read_last_seq_SomeD bound by blast
  with x g sorted_le_last [OF asc s] show ?thesis by (simp add: wrap_add_small)
qed

end
