(* ===== verification/Wal.thy ===== *)
theory Wal
  imports WalScan
begin

text \<open>
  The WAL writer (\<^verbatim>\<open>wal.rs\<close>, \<^verbatim>\<open>WalWriter\<close>): buffering mutations, the chunk-atomic flush with its
  rotation by number of events and by bytes, forced rotation, and re-reading the sequence
  number after a rebuild.  The clock, the session identifier and the UUIDs are parameters; the
  outcome of the system calls of one flush is the parameter \<open>io_outcome\<close>.
\<close>

section \<open>State\<close>

record rotation_info =
  from_file_seq :: nat
  to_file_seq :: nat
  closed_bytes :: nat
  closed_events :: nat

record wal_writer =
  w_wal_dir :: path
  w_global_seq :: nat
  w_file_seq :: nat
  w_events_in_current_file :: nat
  w_max_events_per_file :: nat
  w_max_bytes_per_file :: nat
  w_bytes_in_current_file :: nat
  w_session_id :: rstr
  w_pending_lines :: "wal_line list"
  w_current_file :: "path option"
  w_last_rotation :: "rotation_info option"
  w_generation :: "rstr option"

text \<open>How the system calls of a flush end; a failed write leaves a prefix of the data in the file.\<close>

datatype io_outcome = IoOk | OpenFails io_error | WriteFails nat io_error | SyncFails io_error

section \<open>Operations\<close>

definition wal_new ::
  "wal_codec \<Rightarrow> gen_codec \<Rightarrow> (nat \<Rightarrow> rstr) \<Rightarrow> rstr \<Rightarrow> path \<Rightarrow> nat \<Rightarrow> nat \<Rightarrow> fsys \<Rightarrow> fsys \<times> wal_writer result"
where
  "wal_new c gc uu session wal_dir max_events max_bytes fs =
     (case create_dir_all wal_dir fs of
        Inl e \<Rightarrow> (fs, Inl e)
      | Inr fs1 \<Rightarrow>
          (case scan_max_seq c fs1 wal_dir of
             Inl e \<Rightarrow> (fs1, Inl e)
           | Inr global_seq \<Rightarrow>
               (let mk = (\<lambda>generation. \<lparr>w_wal_dir = wal_dir, w_global_seq = global_seq, w_file_seq = 0,
                      w_events_in_current_file = 0, w_max_events_per_file = max_events,
                      w_max_bytes_per_file = max_bytes, w_bytes_in_current_file = 0,
                      w_session_id = session, w_pending_lines = [], w_current_file = None,
                      w_last_rotation = None, w_generation = generation\<rparr>)
                in case read_generation gc fs1 wal_dir of
                     Some g \<Rightarrow> (fs1, Inr (mk (Some g)))
                   | None \<Rightarrow>
                       if global_seq = 0
                       then (case ensure_generation gc uu wal_dir fs1 of
                               (fs2, Inl e) \<Rightarrow> (fs2, Inl e)
                             | (fs2, Inr g) \<Rightarrow> (fs2, Inr (mk (Some g))))
                       else (fs1, Inr (mk None)))))"

definition log_mutation :: "ucd \<Rightarrow> rstr \<Rightarrow> rstr \<Rightarrow> json \<Rightarrow> rstr \<Rightarrow> wal_writer \<Rightarrow> wal_writer \<times> unit result" where
  "log_mutation U now cypher params database w =
     (if is_index_ddl U cypher then (w, Inr ())
      else if \<not> looks_like_mutation U cypher then (w, Inr ())
      else
        (let line = \<lparr>ln_seq = w_global_seq w, ln_ts = now, ln_db = database, ln_cypher = cypher,
               ln_params = strip_derived_params (strip_vector_params params)\<rparr>
         in (w\<lparr>w_global_seq := wrap_add u64_max (w_global_seq w) 1,
               w_pending_lines := w_pending_lines w @ [line]\<rparr>, Inr ())))"

definition pad4 :: "nat \<Rightarrow> rstr" where
  "pad4 n = replicate (4 - length (show_nat n)) 48 @ show_nat n"

definition make_new_file_path :: "rstr \<Rightarrow> wal_writer \<Rightarrow> wal_writer \<times> path" where
  "make_new_file_path stamp w =
     (w\<lparr>w_file_seq := w_file_seq w + 1\<rparr>,
      w_wal_dir w @ [stamp @ lit ''_'' @ w_session_id w @ lit ''_'' @ pad4 (w_file_seq w) @ lit ''.jsonl''])"

definition needs_new_file :: "wal_writer \<Rightarrow> nat \<Rightarrow> nat \<Rightarrow> bool" where
  "needs_new_file w chunk_len chunk_bytes \<longleftrightarrow>
     w_current_file w = None
     \<or> (w_events_in_current_file w > 0
        \<and> w_events_in_current_file w + chunk_len > w_max_events_per_file w)
     \<or> (w_max_bytes_per_file w > 0 \<and> w_bytes_in_current_file w > 0
        \<and> w_bytes_in_current_file w + chunk_bytes > w_max_bytes_per_file w)"

definition closing_info :: "wal_writer \<Rightarrow> rotation_info" where
  "closing_info w = \<lparr>from_file_seq = w_file_seq w - 1, to_file_seq = w_file_seq w,
     closed_bytes = w_bytes_in_current_file w, closed_events = w_events_in_current_file w\<rparr>"

definition open_next_file :: "rstr \<Rightarrow> wal_writer \<Rightarrow> wal_writer" where
  "open_next_file stamp w =
     (let w1 = (if w_current_file w \<noteq> None then w\<lparr>w_last_rotation := Some (closing_info w)\<rparr> else w);
          (w2, p) = make_new_file_path stamp w1
      in w2\<lparr>w_current_file := Some p, w_events_in_current_file := 0, w_bytes_in_current_file := 0\<rparr>)"

definition open_append :: "path \<Rightarrow> fsys \<Rightarrow> fsys result" where
  "open_append p fs =
     (case fs_get fs p of
        Some (File b) \<Rightarrow> Inr fs
      | Some Dir \<Rightarrow> Inl (WalIo (OtherIo (lit ''is a directory'')))
      | None \<Rightarrow> if is_dir fs (butlast p) then Inr (fs_put p (File []) fs) else Inl (WalIo NotFound))"

definition append_bytes :: "path \<Rightarrow> bytes \<Rightarrow> fsys \<Rightarrow> fsys" where
  "append_bytes p data fs =
     (case fs_get fs p of Some (File b) \<Rightarrow> fs_put p (File (b @ data)) fs | _ \<Rightarrow> fs)"

definition chunk_data :: "rstr list \<Rightarrow> bytes" where
  "chunk_data jsons = concat (map (\<lambda>s. as_bytes s @ [10]) jsons)"

definition flush_pending ::
  "wal_codec \<Rightarrow> io_outcome \<Rightarrow> rstr \<Rightarrow> wal_writer \<Rightarrow> fsys \<Rightarrow> wal_writer \<times> fsys \<times> unit result" where
  "flush_pending c io stamp w fs =
     (let chunk_len = length (w_pending_lines w) in
      if chunk_len = 0 then (w, fs, Inr ())
      else case create_dir_all (w_wal_dir w) fs of
        Inl e \<Rightarrow> (w, fs, Inl e)
      | Inr fs1 \<Rightarrow>
          (case collect_opt (line_print c) (w_pending_lines w) of
             None \<Rightarrow> (w, fs1, Inl (WalJson (lit ''serialize'')))
           | Some jsons \<Rightarrow>
               (let chunk_bytes = sum_list (map (\<lambda>s. str_len s + 1) jsons);
                    w1 = (if needs_new_file w chunk_len chunk_bytes then open_next_file stamp w else w);
                    p = the (w_current_file w1);
                    data = chunk_data jsons
                in case io of
                     OpenFails e \<Rightarrow> (w1, fs1, Inl (WalIo e))
                   | _ \<Rightarrow>
                     (case open_append p fs1 of
                        Inl e \<Rightarrow> (w1, fs1, Inl e)
                      | Inr fs2 \<Rightarrow>
                          (case io of
                             WriteFails n e \<Rightarrow> (w1, append_bytes p (take n data) fs2, Inl (WalIo e))
                           | SyncFails e \<Rightarrow> (w1, append_bytes p data fs2, Inl (WalIo e))
                           | _ \<Rightarrow>
                               (w1\<lparr>w_events_in_current_file := w_events_in_current_file w1 + chunk_len,
                                   w_bytes_in_current_file := w_bytes_in_current_file w1 + chunk_bytes,
                                   w_pending_lines := []\<rparr>,
                                append_bytes p data fs2, Inr ()))))))"

definition with_chunk ::
  "wal_codec \<Rightarrow> io_outcome \<Rightarrow> rstr \<Rightarrow> (wal_writer \<Rightarrow> wal_writer \<times> 'a result) \<Rightarrow>
     wal_writer \<Rightarrow> fsys \<Rightarrow> wal_writer \<times> fsys \<times> 'a result" where
  "with_chunk c io stamp f w fs =
     (case f (w\<lparr>w_pending_lines := []\<rparr>) of
        (w1, Inr val) \<Rightarrow>
          (case flush_pending c io stamp w1 fs of
             (w2, fs2, Inr _) \<Rightarrow> (w2, fs2, Inr val)
           | (w2, fs2, Inl e) \<Rightarrow> (w2, fs2, Inl e))
      | (w1, Inl e) \<Rightarrow> (w1\<lparr>w_pending_lines := []\<rparr>, fs, Inl e))"

definition rotate :: "wal_writer \<Rightarrow> fsys \<Rightarrow> wal_writer \<times> nat \<times> nat" where
  "rotate w fs =
     (if w_current_file w \<noteq> None
      then (w\<lparr>w_current_file := None, w_last_rotation := Some (closing_info w),
              w_bytes_in_current_file := 0, w_events_in_current_file := 0\<rparr>,
            1, count_jsonl_files fs (w_wal_dir w))
      else (w, 0, count_jsonl_files fs (w_wal_dir w)))"

definition take_rotation :: "wal_writer \<Rightarrow> wal_writer \<times> rotation_info option" where
  "take_rotation w = (w\<lparr>w_last_rotation := None\<rparr>, w_last_rotation w)"

definition resync_current_file_bytes :: "fsys \<Rightarrow> wal_writer \<Rightarrow> wal_writer" where
  "resync_current_file_bytes fs w =
     (case w_current_file w of None \<Rightarrow> w
      | Some p \<Rightarrow> (case file_len fs p of None \<Rightarrow> w
                   | Some n \<Rightarrow> w\<lparr>w_bytes_in_current_file := n\<rparr>))"

definition resync_global_seq :: "wal_codec \<Rightarrow> fsys \<Rightarrow> nat option \<Rightarrow> wal_writer \<Rightarrow> wal_writer \<times> unit result" where
  "resync_global_seq c fs last_committed w =
     (let from_commit = (case last_committed of None \<Rightarrow> 0 | Some s \<Rightarrow> sat_add u64_max s 1);
          w1 = w\<lparr>w_global_seq := max (w_global_seq w) from_commit\<rparr>
      in case scan_max_seq c fs (w_wal_dir w1) of
           Inl e \<Rightarrow> (w1, Inl e)
         | Inr scanned \<Rightarrow> (w1\<lparr>w_global_seq := max (w_global_seq w1) scanned\<rparr>, Inr ()))"

text \<open>The closure \<^verbatim>\<open>wal_flush_chunk\<close> passes to \<^verbatim>\<open>with_chunk\<close>: log each mutation in turn.\<close>

fun log_all :: "ucd \<Rightarrow> (nat \<Rightarrow> rstr) \<Rightarrow> rstr \<Rightarrow> (rstr \<times> json) list \<Rightarrow> wal_writer \<Rightarrow> wal_writer \<times> unit result" where
  "log_all U clock database [] w = (w, Inr ())"
| "log_all U clock database ((cypher, params) # ms) w =
     (case log_mutation U (clock (w_global_seq w)) cypher params database w of
        (w1, Inl e) \<Rightarrow> (w1, Inl e)
      | (w1, Inr _) \<Rightarrow> log_all U clock database ms w1)"

section \<open>What logging appends\<close>

definition is_logged :: "ucd \<Rightarrow> rstr \<Rightarrow> bool" where
  "is_logged U cypher \<longleftrightarrow> \<not> is_index_ddl U cypher \<and> looks_like_mutation U cypher"

text \<open>The lines a list of mutations becomes when the next sequence number is \<open>g\<close>.\<close>

fun logged_lines :: "ucd \<Rightarrow> (nat \<Rightarrow> rstr) \<Rightarrow> rstr \<Rightarrow> nat \<Rightarrow> (rstr \<times> json) list \<Rightarrow> wal_line list" where
  "logged_lines U clock db g [] = []"
| "logged_lines U clock db g ((cypher, params) # ms) =
     (if is_logged U cypher
      then \<lparr>ln_seq = g, ln_ts = clock g, ln_db = db, ln_cypher = cypher,
             ln_params = strip_derived_params (strip_vector_params params)\<rparr>
           # logged_lines U clock db (g + 1) ms
      else logged_lines U clock db g ms)"

lemma logged_lines_seqs:
  "map ln_seq (logged_lines U clock db g ms) = [g ..< g + length (logged_lines U clock db g ms)]"
proof (induction ms arbitrary: g)
  case (Cons m ms)
  obtain cy ps where "m = (cy, ps)" by (cases m)
  with Cons show ?case by (auto simp: upt_rec)
qed simp

lemma length_logged_lines: "length (logged_lines U clock db g ms) \<le> length ms"
proof (induction ms arbitrary: g)
  case (Cons m ms)
  obtain cy ps where "m = (cy, ps)" by (cases m)
  with Cons [of g] Cons [of "g + 1"] show ?case by auto
qed simp

lemma log_all_lines:
  assumes "w_global_seq w + length ms \<le> u64_max"
  shows "log_all U clock db ms w =
    (w\<lparr>w_global_seq := w_global_seq w + length (logged_lines U clock db (w_global_seq w) ms),
       w_pending_lines := w_pending_lines w @ logged_lines U clock db (w_global_seq w) ms\<rparr>, Inr ())"
  using assms
proof (induction ms arbitrary: w)
  case Nil
  then show ?case by simp
next
  case (Cons m ms)
  obtain cy ps where m: "m = (cy, ps)" by (cases m)
  show ?case
  proof (cases "is_logged U cy")
    case True
    then have "wrap_add u64_max (w_global_seq w) 1 = w_global_seq w + 1"
      using Cons.prems by (intro wrap_add_small) simp
    with True m Cons.prems show ?thesis
      by (subst m) (simp add: log_mutation_def is_logged_def Let_def Cons.IH)
  next
    case False
    then have "log_mutation U (clock (w_global_seq w)) cy ps db w = (w, Inr ())"
      by (auto simp: log_mutation_def is_logged_def)
    with False m Cons show ?thesis by simp
  qed
qed

section \<open>A successful flush\<close>

lemma mkdirs_keeps: "mkdirs ps fs = Inr fs' \<Longrightarrow> fs_get fs q = Some n \<Longrightarrow> fs_get fs' q = Some n"
proof (induction ps arbitrary: fs)
  case (Cons p ps)
  show ?case
  proof (cases "fs_get fs p")
    case None
    with Cons.prems have "fs_get (fs_put p Dir fs) q = Some n" by auto
    with None Cons show ?thesis by auto
  next
    case (Some m)
    with Cons show ?thesis by (cases m) auto
  qed
qed simp

lemma mkdirs_only_dirs:
  "mkdirs ps fs = Inr fs' \<Longrightarrow> fs_get fs' q = Some (File b) \<Longrightarrow> fs_get fs q = Some (File b)"
proof (induction ps arbitrary: fs)
  case (Cons p ps)
  show ?case
  proof (cases "fs_get fs p")
    case None
    have "fs_get (fs_put p Dir fs) q = Some (File b)"
      by (rule Cons.IH) (use None Cons.prems in simp_all)
    then show ?thesis by (auto split: if_splits)
  next
    case (Some m)
    with Cons show ?thesis by (cases m) auto
  qed
qed simp

lemma mkdirs_wf: "mkdirs ps fs = Inr fs' \<Longrightarrow> fs_wf fs \<Longrightarrow> fs_wf fs'"
  by (induction ps arbitrary: fs) (auto simp: fs_wf_put split: option.splits node.splits)

lemma mkdirs_present: "\<forall>p \<in> set ps. fs_get fs p = Some Dir \<Longrightarrow> mkdirs ps fs = Inr fs"
  by (induction ps) auto

definition dir_ready :: "fsys \<Rightarrow> path \<Rightarrow> bool" where
  "dir_ready fs d \<longleftrightarrow> (\<forall>p \<in> set (tl (prefixes d)). fs_get fs p = Some Dir) \<and> is_dir fs d"

lemma create_dir_all_ready: "dir_ready fs d \<Longrightarrow> create_dir_all d fs = Inr fs"
  by (simp add: create_dir_all_def dir_ready_def mkdirs_present)

lemma append_open:
  assumes "open_append p fs = Inr fs2"
  shows "fs_get (append_bytes p data fs2) =
    (fs_get fs)(p \<mapsto> File ((case fs_get fs p of Some (File b) \<Rightarrow> b | _ \<Rightarrow> []) @ data))"
  using assms by (auto simp: open_append_def append_bytes_def split: option.splits node.splits if_splits)

lemma open_next_file_simps [simp]:
  "w_current_file (open_next_file st w) = Some (snd (make_new_file_path st w))"
  "w_pending_lines (open_next_file st w) = w_pending_lines w"
  "w_wal_dir (open_next_file st w) = w_wal_dir w"
  "w_global_seq (open_next_file st w) = w_global_seq w"
  "w_file_seq (open_next_file st w) = Suc (w_file_seq w)"
  "w_events_in_current_file (open_next_file st w) = 0"
  "w_bytes_in_current_file (open_next_file st w) = 0"
  "w_max_events_per_file (open_next_file st w) = w_max_events_per_file w"
  "w_max_bytes_per_file (open_next_file st w) = w_max_bytes_per_file w"
  "w_generation (open_next_file st w) = w_generation w"
  by (simp_all add: open_next_file_def make_new_file_path_def)

text \<open>The file a flush writes to.\<close>

definition flush_target :: "rstr \<Rightarrow> wal_writer \<Rightarrow> nat \<Rightarrow> nat \<Rightarrow> wal_writer \<times> path" where
  "flush_target stamp w n k =
     (let w1 = (if needs_new_file w n k then open_next_file stamp w else w)
      in (w1, the (w_current_file w1)))"

lemma flush_target_current:
  "flush_target st w n k = (w1, p) \<Longrightarrow> w_current_file w1 = Some p"
  by (cases "needs_new_file w n k") (auto simp: flush_target_def Let_def needs_new_file_def)


lemma flush_pending_ok:
  assumes "dir_ready fs (w_wal_dir w)" and "w_pending_lines w \<noteq> []"
    and "collect_opt (line_print c) (w_pending_lines w) = Some jsons"
    and "flush_target st w (length (w_pending_lines w)) (sum_list (map (\<lambda>s. str_len s + 1) jsons)) = (w1, p)"
    and "open_append p fs = Inr fs2"
  shows "flush_pending c IoOk st w fs =
    (w1\<lparr>w_events_in_current_file := w_events_in_current_file w1 + length (w_pending_lines w),
        w_bytes_in_current_file := w_bytes_in_current_file w1 + sum_list (map (\<lambda>s. str_len s + 1) jsons),
        w_pending_lines := []\<rparr>, append_bytes p (chunk_data jsons) fs2, Inr ())"
  using assms
  by (auto simp: flush_pending_def create_dir_all_ready flush_target_def Let_def)

section \<open>Well-formed streams\<close>

definition content :: "fsys \<Rightarrow> path \<Rightarrow> bytes" where
  "content fs p = (case fs_get fs p of Some (File b) \<Rightarrow> b | _ \<Rightarrow> [])"

definition nl_terminated :: "bytes \<Rightarrow> bool" where
  "nl_terminated b \<longleftrightarrow> b = [] \<or> last b = 10"

text \<open>
  The invariant of a stream with its writer: the directory exists, every WAL file is a file whose
  last line is complete, its sequence numbers ascend strictly and lie below the writer's next
  one, and the current file is a WAL file of the directory, opened as number \<open>file_seq - 1\<close>.
\<close>

definition stream_ok :: "wal_codec \<Rightarrow> wal_writer \<Rightarrow> fsys \<Rightarrow> bool" where
  "stream_ok c w fs \<longleftrightarrow>
     dir_ready fs (w_wal_dir w)
     \<and> (\<forall>n. is_jsonl n \<longrightarrow> fs_get fs (w_wal_dir w @ [n]) \<noteq> Some Dir
          \<and> (let b = content fs (w_wal_dir w @ [n]) in
             nl_terminated b \<and> sorted_wrt (<) (file_seqs c b)
             \<and> (\<forall>s \<in> set (file_seqs c b). s < w_global_seq w)))
     \<and> (\<forall>p. w_current_file w = Some p \<longrightarrow>
          w_file_seq w > 0 \<and> (\<exists>n. p = w_wal_dir w @ [n] \<and> is_jsonl n))"

lemma is_jsonl_suffix: "x \<noteq> [] \<Longrightarrow> is_jsonl (x @ lit ''.jsonl'')"
proof -
  assume x: "x \<noteq> []"
  let ?n = "x @ lit ''.jsonl''"
  have r: "rev ?n = rev (lit ''jsonl'') @ 46 # rev x" by simp
  have "?n \<noteq> lit ''..''" by (auto dest!: arg_cong [where f = length])
  moreover have "rev (takeWhile (\<lambda>c. c \<noteq> 46) (rev ?n)) = lit ''jsonl''"
    unfolding r by simp
  moreover have "rev (tl (dropWhile (\<lambda>c. c \<noteq> 46) (rev ?n))) = x"
    unfolding r by simp
  ultimately show ?thesis using x by (simp add: is_jsonl_def extension_def Let_def)
qed

lemma new_file_jsonl:
  "\<exists>n. snd (make_new_file_path st w) = w_wal_dir w @ [n] \<and> is_jsonl n"
  using is_jsonl_suffix [of "st @ lit ''_'' @ w_session_id w @ lit ''_'' @ pad4 (w_file_seq w)"]
  by (simp add: make_new_file_path_def)

lemma flush_target_ok:
  assumes "stream_ok c w fs" and "flush_target st w n k = (w1, p)"
  shows "\<exists>m fs2. p = w_wal_dir w @ [m] \<and> is_jsonl m \<and> open_append p fs = Inr fs2
    \<and> w_wal_dir w1 = w_wal_dir w \<and> w_file_seq w1 > 0 \<and> w_global_seq w1 = w_global_seq w"
proof -
  have "\<exists>m. p = w_wal_dir w @ [m] \<and> is_jsonl m \<and> w_wal_dir w1 = w_wal_dir w \<and> w_file_seq w1 > 0
      \<and> w_global_seq w1 = w_global_seq w"
  proof (cases "needs_new_file w n k")
    case True
    with assms(2) new_file_jsonl [of st w] show ?thesis by (auto simp: flush_target_def)
  next
    case False
    then obtain q where "w_current_file w = Some q" by (auto simp: needs_new_file_def)
    with False assms show ?thesis by (auto simp: flush_target_def stream_ok_def)
  qed
  then obtain m where m: "p = w_wal_dir w @ [m]" "is_jsonl m" "w_wal_dir w1 = w_wal_dir w"
    "w_file_seq w1 > 0" "w_global_seq w1 = w_global_seq w" by blast
  have "fs_get fs p \<noteq> Some Dir" "is_dir fs (butlast p)"
    using assms(1) m by (auto simp: stream_ok_def dir_ready_def)
  then have "\<exists>fs2. open_append p fs = Inr fs2"
    by (auto simp: open_append_def split: option.splits node.splits)
  with m show ?thesis by blast
qed

section \<open>Reading back what was written\<close>

lemma printed_line:
  assumes "printed_as c l s"
  shows "10 \<notin> set (as_bytes s)" "chomp_cr (as_bytes s) = as_bytes s"
    "parse_line c (as_bytes s) = Some l" "line_seq c (as_bytes s) = Some (ln_seq l)"
proof -
  have v: "valid_str s" "s \<noteq> []" and t: "trim s = s"
    using assms trim_id [of s] by (auto simp: printed_as_def)
  show nl: "10 \<notin> set (as_bytes s)"
    using assms as_bytes_ascii_byte [of 10 s] by (auto simp: printed_as_def)
  have "13 \<notin> set (as_bytes s)"
    using assms as_bytes_ascii_byte [of 13 s] by (auto simp: printed_as_def)
  then show "chomp_cr (as_bytes s) = as_bytes s"
    by (metis chomp_cr_def last_in_set)
  show "parse_line c (as_bytes s) = Some l"
    using assms v t by (simp add: parse_line_def from_utf8_as_bytes printed_as_def)
  show "line_seq c (as_bytes s) = Some (ln_seq l)"
    using assms v t by (simp add: line_seq_def from_utf8_lossy_as_bytes printed_as_def)
qed

lemma map_filter_all:
  "list_all2 (\<lambda>x y. f x = Some y) xs ys \<Longrightarrow> List.map_filter f xs = ys"
  by (induction rule: list_all2_induct) (auto simp: List.map_filter_def)

lemma chunk_lines:
  assumes "list_all2 (printed_as c) ls jsons"
  shows "lines (chunk_data jsons) = map as_bytes jsons"
    "List.map_filter (parse_line c) (map as_bytes jsons) = ls"
    "List.map_filter (line_seq c) (map as_bytes jsons) = map ln_seq ls"
proof -
  have in1: "\<exists>l. printed_as c l s" if "s \<in> set jsons" for s
    using assms that by (induction rule: list_all2_induct) auto
  have "lines (concat (map (\<lambda>l. l @ [10]) (map as_bytes jsons)) @ []) = map chomp_cr (map as_bytes jsons) @ lines []"
    by (rule lines_concat) (use in1 printed_line(1) in fastforce)
  moreover have "map chomp_cr (map as_bytes jsons) = map as_bytes jsons"
    using in1 printed_line(2) by fastforce
  ultimately show "lines (chunk_data jsons) = map as_bytes jsons"
    by (simp add: chunk_data_def comp_def)
  show "List.map_filter (parse_line c) (map as_bytes jsons) = ls"
    by (rule map_filter_all) (use assms in \<open>auto simp: list_all2_conv_all_nth printed_line(3)\<close>)
  show "List.map_filter (line_seq c) (map as_bytes jsons) = map ln_seq ls"
    by (rule map_filter_all) (use assms in \<open>auto simp: list_all2_conv_all_nth printed_line(4)\<close>)
qed

lemma append_chunk:
  assumes "nl_terminated b" and "list_all2 (printed_as c) ls jsons"
  shows "file_records c (b @ chunk_data jsons) = file_records c b @ ls"
    "file_seqs c (b @ chunk_data jsons) = file_seqs c b @ map ln_seq ls"
    "nl_terminated (b @ chunk_data jsons)"
proof -
  have "lines (b @ chunk_data jsons) = lines b @ map as_bytes jsons"
    using assms chunk_lines(1) by (simp add: lines_append nl_terminated_def)
  then show "file_records c (b @ chunk_data jsons) = file_records c b @ ls"
    "file_seqs c (b @ chunk_data jsons) = file_seqs c b @ map ln_seq ls"
    using chunk_lines(2,3) [OF assms(2)]
    by (simp_all add: file_records_def file_seqs_def map_filter_append)
  have "chunk_data jsons = [] \<or> last (chunk_data jsons) = 10"
    by (cases jsons rule: rev_cases) (auto simp: chunk_data_def)
  with assms(1) show "nl_terminated (b @ chunk_data jsons)" by (auto simp: nl_terminated_def last_append)
qed

lemma printed_all:
  assumes "\<forall>l \<in> set ls. codec_ok c l"
  obtains jsons where "collect_opt (line_print c) ls = Some jsons" "list_all2 (printed_as c) ls jsons"
proof -
  from assms have "\<exists>jsons. collect_opt (line_print c) ls = Some jsons \<and> list_all2 (printed_as c) ls jsons"
    by (induction ls) (auto simp: codec_ok_def printed_as_def)
  with that show ?thesis by blast
qed

text \<open>What a flush of the lines \<open>ls\<close> does to a well-formed stream.\<close>

lemma flush_commit:
  assumes ok: "stream_ok c w fs" and ne: "w_pending_lines w \<noteq> []"
    and cod: "\<forall>l \<in> set (w_pending_lines w). codec_ok c l"
  shows "\<exists>w' fs' p. flush_pending c IoOk st w fs = (w', fs', Inr ()) \<and> w_current_file w' = Some p
    \<and> file_records c (content fs' p) = file_records c (content fs p) @ w_pending_lines w
    \<and> file_seqs c (content fs' p) = file_seqs c (content fs p) @ map ln_seq (w_pending_lines w)
    \<and> nl_terminated (content fs' p)
    \<and> (\<exists>m. p = w_wal_dir w @ [m] \<and> is_jsonl m) \<and> (\<exists>b. fs_get fs' = (fs_get fs)(p \<mapsto> File b))
    \<and> w_wal_dir w' = w_wal_dir w \<and> w_file_seq w' > 0 \<and> w_pending_lines w' = []
    \<and> w_global_seq w' = w_global_seq w"
proof -
  obtain jsons where j: "collect_opt (line_print c) (w_pending_lines w) = Some jsons"
    "list_all2 (printed_as c) (w_pending_lines w) jsons"
    using cod by (rule printed_all)
  let ?k = "sum_list (map (\<lambda>s. str_len s + 1) jsons)"
  obtain w1 p where t: "flush_target st w (length (w_pending_lines w)) ?k = (w1, p)" by fastforce
  from flush_target_ok [OF ok t] obtain m fs2 where m: "p = w_wal_dir w @ [m]" "is_jsonl m"
    "open_append p fs = Inr fs2" "w_wal_dir w1 = w_wal_dir w" "w_file_seq w1 > 0"
    "w_global_seq w1 = w_global_seq w" by blast
  have dir: "dir_ready fs (w_wal_dir w)" using ok by (simp add: stream_ok_def)
  note f = flush_pending_ok [OF dir ne j(1) t m(3)]
  let ?fs' = "append_bytes p (chunk_data jsons) fs2"
  have get: "fs_get ?fs' = (fs_get fs)(p \<mapsto> File (content fs p @ chunk_data jsons))"
    using append_open [OF m(3)] by (simp add: content_def)
  then have c': "content ?fs' p = content fs p @ chunk_data jsons" by (simp add: content_def)
  have nl: "nl_terminated (content fs p)" using ok m(1,2) by (auto simp: stream_ok_def Let_def)
  note a = append_chunk [OF nl j(2)]
  let ?w' = "w1\<lparr>w_events_in_current_file := w_events_in_current_file w1 + length (w_pending_lines w),
        w_bytes_in_current_file := w_bytes_in_current_file w1 + ?k, w_pending_lines := []\<rparr>"
  show ?thesis
    by (rule exI [of _ ?w'], rule exI [of _ ?fs'], rule exI [of _ p])
      (use f a c' get m flush_target_current [OF t] in auto)
qed

lemma stream_ok_flush:
  assumes ok: "stream_ok c w fs" and above: "\<forall>l \<in> set (w_pending_lines w). ln_seq l < g"
    "w_global_seq w \<le> g"
    and p: "p = w_wal_dir w @ [m]" "is_jsonl m"
    and get: "fs_get fs' = (fs_get fs)(p \<mapsto> File b)"
    and seqs: "file_seqs c b = file_seqs c (content fs p) @ map ln_seq (w_pending_lines w)"
      "sorted_wrt (<) (map ln_seq (w_pending_lines w))"
      "\<forall>l \<in> set (w_pending_lines w). w_global_seq w \<le> ln_seq l"
    and nl: "nl_terminated b"
    and w': "w_wal_dir w' = w_wal_dir w" "w_global_seq w' = g" "w_current_file w' = Some p" "w_file_seq w' > 0"
  shows "stream_ok c w' fs'"
proof -
  have old: "sorted_wrt (<) (file_seqs c (content fs (w_wal_dir w @ [n])))"
    "\<forall>s \<in> set (file_seqs c (content fs (w_wal_dir w @ [n]))). s < w_global_seq w"
    "nl_terminated (content fs (w_wal_dir w @ [n]))" "fs_get fs (w_wal_dir w @ [n]) \<noteq> Some Dir"
    if "is_jsonl n" for n
    using ok that by (auto simp: stream_ok_def Let_def)
  have same: "content fs' (w_wal_dir w @ [n]) = (if n = m then b else content fs (w_wal_dir w @ [n]))" for n
    using get p by (auto simp: content_def)
  have new: "sorted_wrt (<) (file_seqs c b)" "\<forall>s \<in> set (file_seqs c b). s < g"
    using old(1,2) [OF p(2)] seqs above p(1)
    by (fastforce simp: sorted_wrt_append)+
  have dir: "dir_ready fs' (w_wal_dir w)"
  proof -
    have "fs_get fs p \<noteq> Some Dir" using old(4) [OF p(2)] p(1) by simp
    then have "fs_get fs q = Some Dir \<Longrightarrow> fs_get fs' q = Some Dir" for q using get by auto
    then show ?thesis using ok by (auto simp: stream_ok_def dir_ready_def is_dir_def)
  qed
  have "is_jsonl n \<Longrightarrow> fs_get fs' (w_wal_dir w @ [n]) \<noteq> Some Dir" for n
    using get old(4) p by auto
  then show ?thesis
    using dir old same new nl w' p above(2)
    by (auto simp: stream_ok_def Let_def) (meson less_le_trans)
qed

lemma stream_ok_mono:
  "stream_ok c w fs \<Longrightarrow> w_global_seq w \<le> w_global_seq w' \<Longrightarrow> w_wal_dir w' = w_wal_dir w \<Longrightarrow>
     w_current_file w' = w_current_file w \<Longrightarrow> w_file_seq w' = w_file_seq w \<Longrightarrow> stream_ok c w' fs"
  by (auto simp: stream_ok_def Let_def) (meson less_le_trans)

lemma logged_lines_sorted:
  "sorted_wrt (<) (map ln_seq (logged_lines U clock db g ms))
   \<and> (\<forall>l \<in> set (logged_lines U clock db g ms). g \<le> ln_seq l \<and> ln_seq l < g + length (logged_lines U clock db g ms))"
proof -
  let ?ls = "logged_lines U clock db g ms"
  have e: "map ln_seq ?ls = [g ..< g + length ?ls]" by (rule logged_lines_seqs)
  then have "l \<in> set ?ls \<Longrightarrow> ln_seq l \<in> set [g ..< g + length ?ls]" for l
    by (metis image_eqI list.set_map)
  then show ?thesis using e by (simp add: sorted_wrt_upt)
qed

section \<open>Properties of the writer\<close>

lemma chunk_committed:
  assumes ok: "stream_ok c w fs" and bound: "w_global_seq w + length ms \<le> u64_max"
    and cod: "\<forall>l \<in> set (logged_lines U clock db (w_global_seq w) ms). codec_ok c l"
  shows "\<exists>w' fs'. with_chunk c IoOk st (log_all U clock db ms) w fs = (w', fs', Inr ())
    \<and> stream_ok c w' fs' \<and> w_pending_lines w' = []
    \<and> w_global_seq w' = w_global_seq w + length (logged_lines U clock db (w_global_seq w) ms)
    \<and> (if logged_lines U clock db (w_global_seq w) ms = [] then fs' = fs
       else \<exists>p. w_current_file w' = Some p \<and> (\<forall>q. q \<noteq> p \<longrightarrow> fs_get fs' q = fs_get fs q)
         \<and> file_records c (content fs' p)
           = file_records c (content fs p) @ logged_lines U clock db (w_global_seq w) ms)"
proof -
  let ?ls = "logged_lines U clock db (w_global_seq w) ms"
  define w1 where "w1 = w\<lparr>w_global_seq := w_global_seq w + length ?ls, w_pending_lines := ?ls\<rparr>"
  have l: "log_all U clock db ms (w\<lparr>w_pending_lines := []\<rparr>) = (w1, Inr ())"
    using log_all_lines [of "w\<lparr>w_pending_lines := []\<rparr>" ms U clock db] bound by (simp add: w1_def)
  have ok1: "stream_ok c w1 fs" by (rule stream_ok_mono [OF ok]) (simp_all add: w1_def)
  show ?thesis
  proof (cases "?ls = []")
    case True
    then show ?thesis using l ok1 by (simp add: with_chunk_def flush_pending_def w1_def)
  next
    case False
    from flush_commit [OF ok1, of st] False cod obtain w' fs' p b m where
      f: "flush_pending c IoOk st w1 fs = (w', fs', Inr ())" "w_current_file w' = Some p"
      "file_records c (content fs' p) = file_records c (content fs p) @ ?ls"
      "file_seqs c (content fs' p) = file_seqs c (content fs p) @ map ln_seq ?ls"
      "nl_terminated (content fs' p)" "p = w_wal_dir w @ [m]" "is_jsonl m"
      "fs_get fs' = (fs_get fs)(p \<mapsto> File b)" "w_wal_dir w' = w_wal_dir w" "w_file_seq w' > 0"
      "w_pending_lines w' = []" "w_global_seq w' = w_global_seq w + length ?ls"
      by (auto simp: w1_def)
    have b: "content fs' p = b" using f(8) by (simp add: content_def)
    have "stream_ok c w' fs'"
      by (rule stream_ok_flush [where w = "w\<lparr>w_pending_lines := ?ls\<rparr>" and p = p and m = m and b = b
            and g = "w_global_seq w + length ?ls" and fs = fs])
        (use f b logged_lines_sorted [of U clock db "w_global_seq w" ms] stream_ok_mono [OF ok] in auto)
    with f l False show ?thesis by (auto simp: with_chunk_def)
  qed
qed

text \<open>C2: a chunk is committed whole and can be read back.  On a well-formed stream, logging a list of
  mutations in one chunk assigns consecutive sequence numbers to those that are logged, appends
  exactly their lines, in order, to one file, from which they parse back; no other file changes
  and the stream stays well-formed, its next number above all numbers on disk.\<close>

theorem chunk_commit:
  assumes ok: "stream_ok c w fs" and bound: "w_global_seq w + length ms \<le> u64_max"
    and cod: "\<forall>l \<in> set (logged_lines U clock db (w_global_seq w) ms). codec_ok c l"
  shows "\<exists>w' fs'. with_chunk c IoOk st (log_all U clock db ms) w fs = (w', fs', Inr ())
    \<and> stream_ok c w' fs' \<and> w_pending_lines w' = []
    \<and> w_global_seq w' = w_global_seq w + length (logged_lines U clock db (w_global_seq w) ms)
    \<and> (if logged_lines U clock db (w_global_seq w) ms = [] then fs' = fs
       else \<exists>p. w_current_file w' = Some p \<and> (\<forall>q. q \<noteq> p \<longrightarrow> fs_get fs' q = fs_get fs q)
         \<and> file_records c (content fs' p)
           = file_records c (content fs p) @ logged_lines U clock db (w_global_seq w) ms)"
  using assms by (rule chunk_committed)

text \<open>A concrete codec for the witnesses: a line is printed as its number between two marks.\<close>

definition toy_line :: "nat \<Rightarrow> wal_line" where
  "toy_line n = \<lparr>ln_seq = n, ln_ts = [], ln_db = [], ln_cypher = lit ''CREATE (n)'', ln_params = JObj []\<rparr>"

definition toy_text :: "rstr \<Rightarrow> nat option" where
  "toy_text s = (case s of [] \<Rightarrow> None
     | c # r \<Rightarrow> if c = 123 \<and> r \<noteq> [] \<and> last r = 125 then parse_uint u64_max (butlast r) else None)"

definition toy_wal_codec :: wal_codec where
  "toy_wal_codec = \<lparr>line_print = (\<lambda>l. Some (123 # show_nat (ln_seq l) @ [125])),
     line_parse = (\<lambda>s. map_option toy_line (toy_text s)),
     value_parse = (\<lambda>s. map_option (\<lambda>n. JObj [(lit ''seq'', JNum (PosInt n))]) (toy_text s))\<rparr>"

lemma toy_codec_line_ok: "n \<le> u64_max \<Longrightarrow> codec_ok toy_wal_codec (toy_line n)"
proof -
  assume n: "n \<le> u64_max"
  let ?s = "123 # show_nat n @ [125]"
  have d: "\<forall>c \<in> set ?s. 48 \<le> c \<and> c \<le> 125" using show_nat_digits [of n] by auto
  have t: "toy_text ?s = Some n" using parse_show_nat [OF n] by (simp add: toy_text_def)
  have v: "valid_str ?s" using d by (force simp: valid_str_def list_all_iff is_scalar_def)
  have "printed_as toy_wal_codec (toy_line n) ?s"
    using t v d by (fastforce simp: printed_as_def toy_wal_codec_def toy_line_def is_whitespace_def
        value_seq_def value_get_def jget_def as_u64_def)
  then show ?thesis by (auto simp: codec_ok_def)
qed

lemma toy_printed: "n \<le> u64_max \<Longrightarrow> printed_as toy_wal_codec (toy_line n) (123 # show_nat n @ [125])"
proof -
  assume "n \<le> u64_max"
  then obtain s where s: "printed_as toy_wal_codec (toy_line n) s"
    using toy_codec_line_ok [of n] by (auto simp: codec_ok_def)
  then have "s = 123 # show_nat n @ [125]"
    by (simp add: printed_as_def toy_wal_codec_def toy_line_def)
  with s show ?thesis by simp
qed

text \<open>A WAL file with the lines of the given numbers.\<close>

definition toy_bytes :: "nat list \<Rightarrow> bytes" where
  "toy_bytes ns = chunk_data (map (\<lambda>n. 123 # show_nat n @ [125]) ns)"

lemma toy_bytes_lines:
  assumes "\<forall>n \<in> set ns. n \<le> u64_max"
  shows "file_records toy_wal_codec (toy_bytes ns) = map toy_line ns"
    "file_seqs toy_wal_codec (toy_bytes ns) = ns" "nl_terminated (toy_bytes ns)"
proof -
  have "list_all2 (printed_as toy_wal_codec) (map toy_line ns) (map (\<lambda>n. 123 # show_nat n @ [125]) ns)"
    using assms toy_printed by (induction ns) auto
  from append_chunk [OF _ this, of "[]"]
  show "file_records toy_wal_codec (toy_bytes ns) = map toy_line ns"
    "file_seqs toy_wal_codec (toy_bytes ns) = ns" "nl_terminated (toy_bytes ns)"
    by (simp_all add: toy_bytes_def nl_terminated_def file_seqs_def file_records_def List.map_filter_def
        toy_line_def comp_def)
qed

definition toy_writer :: wal_writer where
  "toy_writer = \<lparr>w_wal_dir = [], w_global_seq = 0, w_file_seq = 0, w_events_in_current_file = 0,
     w_max_events_per_file = 2, w_max_bytes_per_file = 0, w_bytes_in_current_file = 0,
     w_session_id = lit ''s'', w_pending_lines = [], w_current_file = None, w_last_rotation = None,
     w_generation = None\<rparr>"

lemma toy_stream_ok: "stream_ok toy_wal_codec toy_writer [([], Dir)]"
  by (auto simp: stream_ok_def toy_writer_def dir_ready_def is_dir_def fs_get_def content_def
      nl_terminated_def file_seqs_def List.map_filter_def Let_def)

definition toy_mutation :: "rstr \<times> json" where
  "toy_mutation = (lit ''CREATE (n)'', JObj [])"

lemma toy_mutation_logged: "is_logged ascii_ucd (lit ''CREATE (n)'')"
  by (simp add: is_logged_def cypher_eval)

lemma toy_logged: "logged_lines ascii_ucd (\<lambda>_. []) [] g [toy_mutation] = [toy_line g]"
  using toy_mutation_logged
  by (simp add: toy_mutation_def toy_line_def strip_derived_params_def strip_vector_params_def
      VECTOR_PARAM_KEYS_def DERIVED_PARAM_KEYS_def jremove_def)

theorem chunk_commit_witness:
  "\<exists>w' fs' p. with_chunk toy_wal_codec IoOk (lit ''t'') (log_all ascii_ucd (\<lambda>_. []) [] [toy_mutation])
       toy_writer [([], Dir)] = (w', fs', Inr ())
     \<and> stream_ok toy_wal_codec w' fs' \<and> file_records toy_wal_codec (content fs' p) = [toy_line 0]"
proof -
  have b: "w_global_seq toy_writer + length [toy_mutation] \<le> u64_max" by (simp add: toy_writer_def u64_max_def)
  have g: "w_global_seq toy_writer = 0" by (simp add: toy_writer_def)
  have c: "\<forall>l \<in> set (logged_lines ascii_ucd (\<lambda>_. []) [] (w_global_seq toy_writer) [toy_mutation]). codec_ok toy_wal_codec l"
    using toy_codec_line_ok [of 0] by (simp add: toy_logged g)
  have e: "file_records toy_wal_codec (content [([], Dir)] p) = []" for p
    by (simp add: content_def fs_get_def file_records_def List.map_filter_def)
  from chunk_commit [OF toy_stream_ok b c, of "lit ''t''"] show ?thesis
    unfolding toy_logged g e by auto
qed

end
