(* ===== verification/WalSafety.thy ===== *)
theory WalSafety
  imports Wal
begin

text \<open>
  What the WAL writer guarantees when things go wrong and when it starts: every outcome of the
  system calls leaves earlier data in place and never gives a sequence number twice, a file
  outgrows its limits only by a single chunk, a fresh writer starts above everything on disk, and
  a torn write costs the first line of the next chunk.
\<close>

section \<open>Failures only append\<close>

definition extends_node :: "node \<Rightarrow> node option \<Rightarrow> bool" where
  "extends_node n m \<longleftrightarrow> (case n of Dir \<Rightarrow> m = Some Dir | File b \<Rightarrow> \<exists>e. m = Some (File (b @ e)))"

lemma extends_node_refl [simp]: "extends_node n (Some n)"
  by (cases n) (auto simp: extends_node_def)

lemma open_append_extends:
  assumes "open_append p fs = Inr fs2" and "fs_get fs q = Some n"
  shows "extends_node n (fs_get (append_bytes p data fs2) q)"
  using append_open [OF assms(1), of data] assms(2) open_append_def [of p fs] assms(1)
  by (cases n) (auto simp: extends_node_def)

lemma create_dir_all_keeps:
  "create_dir_all d fs = Inr fs1 \<Longrightarrow> fs_get fs q = Some n \<Longrightarrow> fs_get fs1 q = Some n"
  using mkdirs_keeps by (simp add: create_dir_all_def)

lemma flush_pending_extends:
  assumes "flush_pending c io st w fs = (w', fs', r)" and q: "fs_get fs q = Some n"
  shows "extends_node n (fs_get fs' q)"
proof (cases "w_pending_lines w = []")
  case True
  with assms show ?thesis by (simp add: flush_pending_def)
next
  case ne: False
  show ?thesis
  proof (cases "create_dir_all (w_wal_dir w) fs")
    case (Inl e)
    with assms ne show ?thesis by (simp add: flush_pending_def)
  next
    case (Inr fs1)
    have q1: "fs_get fs1 q = Some n" by (rule create_dir_all_keeps [OF Inr q])
    show ?thesis
      using assms(1) ne Inr q1 open_append_extends [OF _ q1]
      by (auto simp: flush_pending_def Let_def split: option.splits io_outcome.splits sum.splits)
  qed
qed

lemma flush_pending_global_seq:
  "flush_pending c io st w fs = (w', fs', r) \<Longrightarrow> w_global_seq w' = w_global_seq w \<and> w_wal_dir w' = w_wal_dir w"
  by (auto simp: flush_pending_def Let_def split: option.splits io_outcome.splits sum.splits if_splits)

lemma chunk_appends:
  assumes run: "with_chunk c io st (log_all U clock db ms) w fs = (w', fs', r)"
    and bound: "w_global_seq w + length ms \<le> u64_max"
  shows "(fs_get fs q = Some Dir \<longrightarrow> fs_get fs' q = Some Dir)
    \<and> (\<forall>b. fs_get fs q = Some (File b) \<longrightarrow> (\<exists>e. fs_get fs' q = Some (File (b @ e))))
    \<and> w_global_seq w' = w_global_seq w + length (logged_lines U clock db (w_global_seq w) ms)"
proof -
  let ?w = "w\<lparr>w_pending_lines := []\<rparr>"
  obtain w1 where l: "log_all U clock db ms ?w = (w1, Inr ())"
    and g: "w_global_seq w1 = w_global_seq w + length (logged_lines U clock db (w_global_seq w) ms)"
    using log_all_lines [of ?w ms U clock db] bound by simp
  obtain w2 fs2 r2 where f: "flush_pending c io st w1 fs = (w2, fs2, r2)" by (cases "flush_pending c io st w1 fs")
  have e: "w' = w2" "fs' = fs2"
    using run l f by (auto simp: with_chunk_def split: sum.splits)
  have "fs_get fs q = Some Dir \<Longrightarrow> fs_get fs' q = Some Dir"
    using flush_pending_extends [OF f, of q Dir] e by (simp add: extends_node_def)
  moreover have "\<exists>e. fs_get fs' q = Some (File (b @ e))" if "fs_get fs q = Some (File b)" for b
    using flush_pending_extends [OF f that] e by (simp add: extends_node_def)
  ultimately show ?thesis using flush_pending_global_seq [OF f] g e by simp
qed

text \<open>C6: the log is append-only whatever fails.  For every outcome of the system calls, a chunk leaves
  each directory in place and each file with its old contents as a prefix; the sequence numbers
  the chunk took are consumed even when the flush fails, so a later chunk never reuses one that a
  torn write may have left on disk.\<close>

theorem chunk_append_only:
  assumes run: "with_chunk c io st (log_all U clock db ms) w fs = (w', fs', r)"
    and bound: "w_global_seq w + length ms \<le> u64_max"
  shows "(fs_get fs q = Some Dir \<longrightarrow> fs_get fs' q = Some Dir)
    \<and> (\<forall>b. fs_get fs q = Some (File b) \<longrightarrow> (\<exists>e. fs_get fs' q = Some (File (b @ e))))
    \<and> w_global_seq w' = w_global_seq w + length (logged_lines U clock db (w_global_seq w) ms)"
  using assms by (rule chunk_appends)

theorem chunk_append_only_witness:
  "\<exists>w' fs' r. with_chunk toy_wal_codec (WriteFails 1 NotFound) (lit ''t'')
      (log_all ascii_ucd (\<lambda>_. []) [] [toy_mutation]) toy_writer [([], Dir)] = (w', fs', r)
     \<and> fs_get fs' [] = Some Dir \<and> w_global_seq w' = 1"
proof -
  obtain w' fs' r where e: "with_chunk toy_wal_codec (WriteFails 1 NotFound) (lit ''t'')
      (log_all ascii_ucd (\<lambda>_. []) [] [toy_mutation]) toy_writer [([], Dir)] = (w', fs', r)"
    by (metis prod_cases3)
  have b: "w_global_seq toy_writer + length [toy_mutation] \<le> u64_max" by (simp add: toy_writer_def u64_max_def)
  have g: "w_global_seq toy_writer = 0" by (simp add: toy_writer_def)
  from chunk_append_only [OF e b, of "[]"] e show ?thesis
    by (auto simp: g toy_logged fs_get_def)
qed

section \<open>Rotation limits\<close>

text \<open>The counters of the writer describe the current file.\<close>

definition counters_ok :: "wal_writer \<Rightarrow> fsys \<Rightarrow> bool" where
  "counters_ok w fs \<longleftrightarrow>
     (case w_current_file w of None \<Rightarrow> True | Some p \<Rightarrow> length (content fs p) = w_bytes_in_current_file w)"

lemma length_chunk_data: "length (chunk_data jsons) = sum_list (map (\<lambda>s. str_len s + 1) jsons)"
  by (induction jsons) (auto simp: chunk_data_def length_as_bytes)

lemma flush_target_limits:
  assumes "flush_target st w n k = (w1, p)"
  shows "(w_events_in_current_file w1 = 0 \<or> w_events_in_current_file w1 + n \<le> w_max_events_per_file w1)
    \<and> (w_max_bytes_per_file w1 = 0 \<or> w_bytes_in_current_file w1 = 0
       \<or> w_bytes_in_current_file w1 + k \<le> w_max_bytes_per_file w1)"
  using assms by (auto simp: flush_target_def needs_new_file_def Let_def split: if_splits)

text \<open>Rotation keeps files within their limits.  When the counters describe the current file and the
  name of a next file is not taken, a successful flush of a chunk leaves counters that describe
  the file it wrote, and that file holds more bytes (events) than the limit only when it holds
  this one chunk and nothing else.\<close>

lemma rotation_limits:
  assumes ok: "stream_ok c w fs" and cnt: "counters_ok w fs"
    and ne: "w_pending_lines w \<noteq> []" and cod: "\<forall>l \<in> set (w_pending_lines w). codec_ok c l"
    and fresh: "content fs (snd (make_new_file_path st w)) = []"
  shows "\<exists>w' fs' p. flush_pending c IoOk st w fs = (w', fs', Inr ()) \<and> w_current_file w' = Some p
    \<and> counters_ok w' fs'
    \<and> (w_max_bytes_per_file w' = 0 \<or> length (content fs' p) \<le> w_max_bytes_per_file w'
       \<or> content fs p = [])
    \<and> (w_events_in_current_file w' \<le> w_max_events_per_file w'
       \<or> w_events_in_current_file w' = length (w_pending_lines w))"
proof -
  obtain jsons where j: "collect_opt (line_print c) (w_pending_lines w) = Some jsons"
    "list_all2 (printed_as c) (w_pending_lines w) jsons"
    using cod by (rule printed_all)
  let ?k = "sum_list (map (\<lambda>s. str_len s + 1) jsons)"
  obtain w1 p where t: "flush_target st w (length (w_pending_lines w)) ?k = (w1, p)" by fastforce
  from flush_target_ok [OF ok t] obtain fs2 where o2: "open_append p fs = Inr fs2" by blast
  have dir: "dir_ready fs (w_wal_dir w)" using ok by (simp add: stream_ok_def)
  note f = flush_pending_ok [OF dir ne j(1) t o2]
  let ?fs' = "append_bytes p (chunk_data jsons) fs2"
  have c': "content ?fs' p = content fs p @ chunk_data jsons"
    using append_open [OF o2] by (simp add: content_def)
  have b1: "length (content fs p) = w_bytes_in_current_file w1"
    using t cnt fresh by (auto simp: flush_target_def counters_ok_def Let_def needs_new_file_def split: if_splits)
  let ?w' = "w1\<lparr>w_events_in_current_file := w_events_in_current_file w1 + length (w_pending_lines w),
        w_bytes_in_current_file := w_bytes_in_current_file w1 + ?k, w_pending_lines := []\<rparr>"
  have "counters_ok ?w' ?fs'"
    using c' b1 flush_target_current [OF t] by (simp add: counters_ok_def length_chunk_data)
  then show ?thesis
    using f c' b1 flush_target_current [OF t] flush_target_limits [OF t]
    by (intro exI [of _ ?w'] exI [of _ ?fs'] exI [of _ p]) (auto simp: length_chunk_data)
qed

theorem rotation_limits_witness:
  "\<exists>w' fs' p. flush_pending toy_wal_codec IoOk (lit ''t'') (toy_writer\<lparr>w_pending_lines := [toy_line 0]\<rparr>) [([], Dir)]
      = (w', fs', Inr ()) \<and> w_current_file w' = Some p \<and> w_events_in_current_file w' \<le> 2"
proof -
  let ?w = "toy_writer\<lparr>w_pending_lines := [toy_line 0]\<rparr>"
  have ok: "stream_ok toy_wal_codec ?w [([], Dir)]"
    by (rule stream_ok_mono [OF toy_stream_ok]) simp_all
  have cnt: "counters_ok ?w [([], Dir)]" by (simp add: counters_ok_def toy_writer_def)
  have fresh: "content [([], Dir)] (snd (make_new_file_path (lit ''t'') ?w)) = []"
    by (simp add: content_def fs_get_def)
  have cod: "\<forall>l \<in> set (w_pending_lines ?w). codec_ok toy_wal_codec l"
    using toy_codec_line_ok [of 0] by simp
  from rotation_limits [OF ok cnt _ cod fresh] obtain w' fs' p where
    r: "flush_pending toy_wal_codec IoOk (lit ''t'') ?w [([], Dir)] = (w', fs', Inr ())"
    "w_current_file w' = Some p"
    "w_events_in_current_file w' \<le> w_max_events_per_file w' \<or> w_events_in_current_file w' = 1" by auto
  have "w_max_events_per_file w' = 2"
    using r(1) by (auto simp: flush_pending_def Let_def toy_writer_def create_dir_all_def
        split: option.splits sum.splits if_splits)
  with r show ?thesis by auto
qed

section \<open>Starting a writer\<close>

lemma ensure_frame:
  "ensure_generation_impl c uu k d h fs = (fs', r) \<Longrightarrow> q \<noteq> generation_file_path d \<Longrightarrow>
     (\<And>j. q \<noteq> d @ [tmp_file_name (uu j)]) \<Longrightarrow> fs_get fs' q = fs_get fs q"
proof (induction c uu k d h fs arbitrary: fs' r rule: ensure_generation_impl.induct)
  case (1 c uu k d h fs)
  let ?t = "d @ [tmp_file_name (uu (Suc k))]" and ?p = "generation_file_path d"
  have keep: "fs_get (ignore_err (remove_file ?t) fs0) q = fs_get fs0 q"
    "fs_get (ignore_err (remove_file ?p) fs0) q = fs_get fs0 q" for fs0
    using 1(3,4) by (auto simp: fs_get_ignore_remove split: option.splits node.splits)
  show ?case
  proof (cases "read_generation c fs d")
    case (Some g)
    with 1(2) show ?thesis by (simp add: mint_existing)
  next
    case None
    note step = 1(2) [unfolded ensure_generation_impl.simps [of c uu k d h fs], simplified None Let_def, simplified]
    show ?thesis
    proof (cases "write_tmp ?t (as_bytes (gen_print c (uu k))) fs")
      case (Inl e)
      with step keep show ?thesis by auto
    next
      case (Inr fs1)
      then have k1: "fs_get fs1 q = fs_get fs q"
        using 1(4) by (auto simp: write_tmp_def split: if_splits)
      show ?thesis
      proof (cases "hard_link ?t ?p fs1")
        case (Inr fs2)
        then have "fs_get fs2 q = fs_get fs1 q"
          using 1(3) by (auto simp: hard_link_def split: if_splits option.splits node.splits)
        with step k1 keep Inr \<open>write_tmp _ _ fs = Inr fs1\<close> show ?thesis by auto
      next
        case (Inl e)
        show ?thesis
        proof (cases "e = WalIo AlreadyExists \<and> h \<and> read_generation c (ignore_err (remove_file ?t) fs1) d = None")
          case True
          have ih: "fs_get fs' q = fs_get (ignore_err (remove_file ?p) (ignore_err (remove_file ?t) fs1)) q"
            by (rule 1(1) [OF None refl refl refl refl \<open>write_tmp _ _ fs = Inr fs1\<close> Inl [unfolded conjunct1 [OF True]] refl refl])
              (use True step Inl \<open>write_tmp _ _ fs = Inr fs1\<close> 1(3,4) in auto)
          then show ?thesis using keep k1 by simp
        next
          case False
          with step Inl \<open>write_tmp _ _ fs = Inr fs1\<close> keep k1 show ?thesis
            by (auto split: option.splits if_splits error.splits io_error.splits)
        qed
      qed
    qed
  qed
qed

lemma mkdirs_dirs: "mkdirs ps fs = Inr fs' \<Longrightarrow> p \<in> set ps \<Longrightarrow> fs_get fs' p = Some Dir"
proof (induction ps arbitrary: fs)
  case (Cons x xs)
  show ?case
  proof (cases "p = x")
    case True
    with Cons.prems(1) show ?thesis
      by (auto split: option.splits node.splits intro: mkdirs_keeps)
  next
    case False
    with Cons show ?thesis by (auto split: option.splits node.splits)
  qed
qed simp

lemma tl_prefixes_length: "q \<in> set (tl (prefixes d)) \<Longrightarrow> length q \<le> length d"
proof -
  assume "q \<in> set (tl (prefixes d))"
  then have "q \<in> set (prefixes d)" by (cases "prefixes d") simp_all
  then show ?thesis by (simp add: in_set_prefixes prefix_length_le)
qed

lemma mkdirs_frame: "mkdirs ps fs = Inr fs' \<Longrightarrow> q \<notin> set ps \<Longrightarrow> fs_get fs' q = fs_get fs q"
  by (induction ps arbitrary: fs) (auto split: option.splits node.splits)

lemma create_dir_all_dir_ready:
  assumes "create_dir_all d fs = Inr fs'" and "is_dir fs []"
  shows "dir_ready fs' d"
proof -
  have "fs_get fs' d = Some Dir"
  proof (cases "d = []")
    case True
    then show ?thesis using assms mkdirs_keeps by (auto simp: create_dir_all_def is_dir_def)
  next
    case False
    then have "d \<in> set (tl (prefixes d))" by (cases d) auto
    then show ?thesis using assms(1) mkdirs_dirs by (auto simp: create_dir_all_def)
  qed
  then show ?thesis using assms(1) mkdirs_dirs by (auto simp: create_dir_all_def dir_ready_def is_dir_def)
qed

text \<open>The files of a stream before a writer opens it.\<close>

definition files_ok :: "wal_codec \<Rightarrow> path \<Rightarrow> fsys \<Rightarrow> bool" where
  "files_ok c d fs \<longleftrightarrow>
     (\<forall>n. is_jsonl n \<longrightarrow> fs_get fs (d @ [n]) \<noteq> Some Dir
        \<and> nl_terminated (content fs (d @ [n])) \<and> sorted_wrt (<) (file_seqs c (content fs (d @ [n])))
        \<and> (\<forall>s \<in> set (file_seqs c (content fs (d @ [n]))). s < u64_max))"

lemma generation_names_not_jsonl:
  "\<not> is_jsonl WAL_GENERATION_FILE" "46 \<notin> set u \<Longrightarrow> \<not> is_jsonl (tmp_file_name u)"
proof -
  show "\<not> is_jsonl WAL_GENERATION_FILE"
    by (simp add: is_jsonl_def extension_def WAL_GENERATION_FILE_def lit_def)
  assume u: "46 \<notin> set u"
  then have "takeWhile (\<lambda>c. c \<noteq> 46) (rev u @ rev (lit ''.tmp-'')) = rev u @ rev (lit ''tmp-'')"
    by (subst takeWhile_append2) (auto simp: lit_def)
  then have "rev (takeWhile (\<lambda>c. c \<noteq> 46) (rev (tmp_file_name u))) = lit ''tmp-'' @ u"
    using u by (simp add: tmp_file_name_def takeWhile_append)
  moreover have "lit ''tmp-'' @ u \<noteq> lit ''jsonl''" by (simp add: lit_def)
  ultimately show "\<not> is_jsonl (tmp_file_name u)" by (simp add: is_jsonl_def extension_def Let_def)
qed

lemma content_cong: "fs_get fs p = fs_get fs' p \<Longrightarrow> content fs p = content fs' p"
  by (simp add: content_def)

lemma wal_new_frame:
  assumes new: "wal_new c gc uu sid d me mb fs = (fs', Inr w)" and dot: "\<And>k. 46 \<notin> set (uu k)"
  obtains fs1 where "create_dir_all d fs = Inr fs1" "scan_max_seq c fs1 d = Inr (w_global_seq w)"
    "\<And>n. is_jsonl n \<Longrightarrow> fs_get fs' (d @ [n]) = fs_get fs1 (d @ [n])"
    "\<And>q. length q \<le> length d \<Longrightarrow> fs_get fs' q = fs_get fs1 q"
    "w_wal_dir w = d" "w_current_file w = None"
proof -
  obtain fs1 where fs1: "create_dir_all d fs = Inr fs1"
    using new by (cases "create_dir_all d fs") (auto simp: wal_new_def)
  obtain g where g: "scan_max_seq c fs1 d = Inr g"
    using new fs1 by (cases "scan_max_seq c fs1 d") (auto simp: wal_new_def)
  have w: "w_global_seq w = g \<and> w_wal_dir w = d \<and> w_current_file w = None
      \<and> (fs' = fs1 \<or> (\<exists>r. ensure_generation gc uu d fs1 = (fs', r)))"
    using new fs1 g by (auto simp: wal_new_def Let_def split: option.splits if_splits prod.splits sum.splits)
  have keep: "fs_get fs' q = fs_get fs1 q"
    if "q \<noteq> generation_file_path d" "\<And>j. q \<noteq> d @ [tmp_file_name (uu j)]" for q
    using w that ensure_frame [where q = q] by (auto simp: ensure_generation_def)
  show thesis
  proof (rule that [OF fs1])
    show "scan_max_seq c fs1 d = Inr (w_global_seq w)" "w_wal_dir w = d" "w_current_file w = None"
      using g w by auto
    show "fs_get fs' (d @ [n]) = fs_get fs1 (d @ [n])" if "is_jsonl n" for n
      using that dot generation_names_not_jsonl by (intro keep) (auto simp: generation_file_path_def)
    show "fs_get fs' q = fs_get fs1 q" if "length q \<le> length d" for q
      using that by (intro keep) (auto simp: generation_file_path_def)
  qed
qed

lemma create_dir_all_content:
  assumes "create_dir_all d fs = Inr fs1"
  shows "content fs1 q = content fs q"
proof (cases "\<exists>b. fs_get fs q = Some (File b)")
  case True
  then obtain b where b: "fs_get fs q = Some (File b)" by blast
  have "fs_get fs1 q = Some (File b)" by (rule create_dir_all_keeps [OF assms b])
  with b show ?thesis by (simp add: content_def)
next
  case False
  then have "fs_get fs1 q \<noteq> Some (File b)" for b
    using assms mkdirs_only_dirs unfolding create_dir_all_def by blast
  with False show ?thesis by (simp add: content_def split: option.split node.split)
qed

lemma wal_new_ok:
  assumes wf: "fs_wf fs" and root: "is_dir fs []" and ok: "files_ok c d fs"
    and dot: "\<And>k. 46 \<notin> set (uu k)"
    and new: "wal_new c gc uu sid d me mb fs = (fs', Inr w)"
  shows "stream_ok c w fs' \<and> w_pending_lines w = []
    \<and> (\<forall>n. is_jsonl n \<longrightarrow> content fs' (d @ [n]) = content fs (d @ [n]))"
proof -
  obtain fs1 where fs1: "create_dir_all d fs = Inr fs1" and scan: "scan_max_seq c fs1 d = Inr (w_global_seq w)"
    and js: "\<And>n. is_jsonl n \<Longrightarrow> fs_get fs' (d @ [n]) = fs_get fs1 (d @ [n])"
    and up: "\<And>q. length q \<le> length d \<Longrightarrow> fs_get fs' q = fs_get fs1 q"
    and w: "w_wal_dir w = d" "w_current_file w = None"
    using wal_new_frame [OF new dot] by blast
  have wf1: "fs_wf fs1" using fs1 wf mkdirs_wf by (auto simp: create_dir_all_def)
  have c1: "content fs1 q = content fs q" for q
    by (rule create_dir_all_content [OF fs1])
  have c': "content fs' (d @ [n]) = content fs (d @ [n])" if "is_jsonl n" for n
    using js [OF that] c1 content_cong by metis
  have nodir: "fs_get fs' (d @ [n]) \<noteq> Some Dir" if "is_jsonl n" for n
  proof
    assume "fs_get fs' (d @ [n]) = Some Dir"
    then have "fs_get fs1 (d @ [n]) = Some Dir" using js [OF that] by simp
    moreover have "fs_get fs1 (d @ [n]) = fs_get fs (d @ [n])"
    proof -
      have "d @ [n] \<notin> set (tl (prefixes d))" using tl_prefixes_length [of "d @ [n]" d] by auto
      then show ?thesis using fs1 mkdirs_frame by (metis create_dir_all_def)
    qed
    ultimately show False using ok that by (auto simp: files_ok_def)
  qed
  have lt: "s < w_global_seq w" if n: "is_jsonl n" "s \<in> set (file_seqs c (content fs' (d @ [n])))" for n s
  proof -
    have s: "s \<in> set (file_seqs c (content fs1 (d @ [n])))" using n c' c1 by metis
    then obtain b where b: "fs_get fs1 (d @ [n]) = Some (File b)" "content fs1 (d @ [n]) = b"
      by (auto simp: content_def file_seqs_def List.map_filter_def split: option.splits node.splits)
    show ?thesis
    proof (rule scan_max_seq_above [OF wf1 scan n(1) b(1)])
      show "sorted (file_seqs c b)" using ok n(1) b c1 strict_sorted_imp_sorted by (auto simp: files_ok_def)
      show "s \<in> set (file_seqs c b)" using s b by simp
      show "m < u64_max" if "is_jsonl k" "fs_get fs1 (d @ [k]) = Some (File b')" "m \<in> set (file_seqs c b')" for m k b'
        using ok that c1 [of "d @ [k]"] by (auto simp: files_ok_def content_def)
    qed
  qed
  have "dir_ready fs' d"
  proof -
    have "fs_get fs' q = fs_get fs1 q" if "q \<in> set (tl (prefixes d))" for q
      using up tl_prefixes_length that by blast
    then show ?thesis
      using create_dir_all_dir_ready [OF fs1 root] up [of d] by (simp add: dir_ready_def is_dir_def)
  qed
  then have "stream_ok c w fs'"
    using w nodir lt c' ok by (auto simp: stream_ok_def files_ok_def Let_def)
  moreover have "w_pending_lines w = []"
    using new by (auto simp: wal_new_def Let_def split: sum.splits option.splits if_splits prod.splits)
  ultimately show ?thesis using c' by blast
qed

text \<open>C7: a writer that opens an existing stream starts above everything on disk.  When every WAL file
  holds complete lines with ascending sequence numbers, a successful \<^verbatim>\<open>WalWriter::new\<close> leaves all
  WAL files as they are and yields a well-formed stream: the next number it assigns is larger
  than every number in every file.\<close>

theorem wal_new_stream_ok:
  assumes wf: "fs_wf fs" and root: "is_dir fs []" and ok: "files_ok c d fs"
    and dot: "\<And>k. 46 \<notin> set (uu k)"
    and new: "wal_new c gc uu sid d me mb fs = (fs', Inr w)"
  shows "stream_ok c w fs' \<and> w_pending_lines w = []
    \<and> (\<forall>n. is_jsonl n \<longrightarrow> content fs' (d @ [n]) = content fs (d @ [n]))"
  using assms by (rule wal_new_ok)

text \<open>A stream whose one file holds the line with number 5.\<close>

definition toy_stream :: fsys where
  "toy_stream = [([], Dir), ([lit ''a.jsonl''], File (toy_bytes [5]))]"

lemma toy_scan: "scan_max_seq toy_wal_codec toy_stream [] = Inr 6"
proof -
  have j: "is_jsonl (lit ''a.jsonl'')" using is_jsonl_suffix [of "lit ''a''"] by (simp add: lit_def)
  have "read_file toy_stream [lit ''a.jsonl''] = Inr (toy_bytes [5])"
    by (simp add: read_file_def fs_get_def toy_stream_def)
  from read_last_seq_file [OF this, of toy_wal_codec]
  have "read_last_seq toy_wal_codec toy_stream [lit ''a.jsonl''] = Inr (Some 5)"
    by (simp add: toy_bytes_lines [of "[5]"] u64_max_def last_opt_def)
  moreover have "wal_files toy_stream [] = Inr [lit ''a.jsonl'']"
    using j by (simp add: wal_files_def read_dir_def toy_stream_def is_dir_def fs_get_def)
  ultimately show ?thesis
    by (simp add: scan_max_seq_def scan_max_seq_detailed_def wrap_add_small u64_max_def)
qed

theorem wal_new_stream_ok_witness:
  "\<exists>fs' w. wal_new toy_wal_codec toy_codec (\<lambda>k. 98 # replicate k 97) (lit ''s'') [] 2 0 toy_stream = (fs', Inr w)
     \<and> w_global_seq w = 6 \<and> stream_ok toy_wal_codec w fs'"
proof -
  let ?uu = "\<lambda>k. (98::nat) # replicate k 97"
  have c: "create_dir_all [] toy_stream = Inr toy_stream" by (simp add: create_dir_all_def)
  have "\<exists>fs' w. wal_new toy_wal_codec toy_codec ?uu (lit ''s'') [] 2 0 toy_stream = (fs', Inr w) \<and> w_global_seq w = 6"
    by (simp add: wal_new_def c toy_scan Let_def split: option.splits)
  then obtain fs' w where n: "wal_new toy_wal_codec toy_codec ?uu (lit ''s'') [] 2 0 toy_stream = (fs', Inr w)"
    "w_global_seq w = 6" by blast
  have j: "content toy_stream [n] = (if n = lit ''a.jsonl'' then toy_bytes [5] else [])" for n
    by (simp add: content_def toy_stream_def fs_get_def)
  have e: "file_seqs toy_wal_codec [] = []" "nl_terminated []"
    by (simp_all add: file_seqs_def List.map_filter_def nl_terminated_def)
  have "fs_get toy_stream [n] \<noteq> Some Dir" for n by (simp add: toy_stream_def fs_get_def)
  then have "files_ok toy_wal_codec [] toy_stream"
    using toy_bytes_lines [of "[5]"] e by (simp add: files_ok_def j u64_max_def)
  then have "stream_ok toy_wal_codec w fs'"
    using wal_new_stream_ok [of toy_stream toy_wal_codec "[]" ?uu toy_codec "lit ''s''" 2 0 fs' w] n(1)
    by (simp add: fs_wf_def toy_stream_def is_dir_def fs_get_def)
  with n show ?thesis by blast
qed

section \<open>A torn write\<close>

lemma lines_torn:
  assumes "nl_terminated b" "10 \<notin> set x" "x \<noteq> []" "list_all2 (printed_as c) (l # ls) (j # js)"
  shows "lines (b @ x @ chunk_data (j # js)) = lines b @ (x @ as_bytes j) # map as_bytes js"
proof -
  have "lines (b @ x @ chunk_data (j # js)) = lines b @ lines (x @ chunk_data (j # js))"
    using assms(1) lines_append by (simp add: nl_terminated_def)
  moreover have "x @ chunk_data (j # js) = (x @ as_bytes j) @ 10 # chunk_data js" by (simp add: chunk_data_def)
  moreover have "10 \<notin> set (x @ as_bytes j)" using assms(2,4) printed_line(1) by auto
  moreover have "chomp_cr (x @ as_bytes j) = x @ as_bytes j"
  proof -
    have "as_bytes j \<noteq> []" "13 \<notin> set (as_bytes j)"
      using assms(4) as_bytes_ascii_byte [of 13 j] length_as_bytes [of j] length_le_str_len [of j]
      by (auto simp: printed_as_def)
    then have "last (x @ as_bytes j) \<noteq> 13" by (metis last_appendR last_in_set)
    then show ?thesis by (simp add: chomp_cr_def)
  qed
  moreover have "lines (chunk_data js) = map as_bytes js"
    using assms(4) chunk_lines(1) by auto
  ultimately show ?thesis
    using lines_line [of "x @ as_bytes j" "chunk_data js"] by simp
qed

text \<open>A torn write costs the next chunk its first line.  When an earlier flush failed after writing
  part of a line, the writer keeps the same current file; the next chunk is appended right behind
  the fragment and acknowledged, but its first line is glued to the fragment.  If the glued text
  does not parse, reading the file back yields the chunk without its first mutation.\<close>

lemma torn_write_loses_next_line:
  assumes dir: "dir_ready fs (w_wal_dir w)" and cur: "w_current_file w = Some p"
    and node: "fs_get fs p = Some (File (b @ x))"
    and b: "nl_terminated b" and x: "10 \<notin> set x" "x \<noteq> []"
    and pend: "w_pending_lines w = l # ls"
    and cod: "\<forall>k \<in> set (l # ls). codec_ok c k"
    and stay: "\<And>k. \<not> needs_new_file w (length (l # ls)) k"
    and glued: "\<And>j. line_print c l = Some j \<Longrightarrow> parse_line c (x @ as_bytes j) = None"
  shows "\<exists>w' fs'. flush_pending c IoOk st w fs = (w', fs', Inr ())
    \<and> file_records c (content fs' p) = file_records c b @ ls"
proof -
  obtain jsons where j: "collect_opt (line_print c) (l # ls) = Some jsons"
    "list_all2 (printed_as c) (l # ls) jsons"
    using cod by (rule printed_all)
  from j(2) obtain j0 js where js: "jsons = j0 # js" "printed_as c l j0" by (cases jsons) auto
  have t: "flush_target st w (length (w_pending_lines w)) (sum_list (map (\<lambda>s. str_len s + 1) jsons)) = (w, p)"
    using stay cur pend by (simp add: flush_target_def)
  have o2: "open_append p fs = Inr fs" using node by (simp add: open_append_def)
  note f = flush_pending_ok [OF dir _ j(1) [folded pend] t o2, simplified pend, simplified]
  let ?fs' = "append_bytes p (chunk_data jsons) fs"
  have "content ?fs' p = b @ x @ chunk_data (j0 # js)"
    using node js by (simp add: append_bytes_def content_def)
  then have "lines (content ?fs' p) = lines b @ (x @ as_bytes j0) # map as_bytes js"
    using lines_torn [OF b x j(2) [unfolded js(1)]] by simp
  moreover have "parse_line c (x @ as_bytes j0) = None" using glued js(2) by (simp add: printed_as_def)
  moreover have "List.map_filter (parse_line c) (map as_bytes js) = ls"
    using j(2) js(1) chunk_lines(2) by auto
  ultimately have "file_records c (content ?fs' p) = file_records c b @ ls"
    by (simp add: file_records_def map_filter_append map_filter_simps)
  with f show ?thesis by (simp add: pend)
qed

theorem torn_write_loses_next_line_witness:
  "\<exists>w' fs'. flush_pending toy_wal_codec IoOk (lit ''t'')
      (toy_writer\<lparr>w_current_file := Some [lit ''a.jsonl''], w_file_seq := 1, w_pending_lines := [toy_line 7]\<rparr>)
      [([], Dir), ([lit ''a.jsonl''], File [123])] = (w', fs', Inr ())
    \<and> file_records toy_wal_codec (content fs' [lit ''a.jsonl'']) = []"
proof -
  let ?w = "toy_writer\<lparr>w_current_file := Some [lit ''a.jsonl''], w_file_seq := 1, w_pending_lines := [toy_line 7]\<rparr>"
  let ?fs = "[([], Dir), ([lit ''a.jsonl''], File [123])]"
  have "\<exists>w' fs'. flush_pending toy_wal_codec IoOk (lit ''t'') ?w ?fs = (w', fs', Inr ())
    \<and> file_records toy_wal_codec (content fs' [lit ''a.jsonl'']) = file_records toy_wal_codec [] @ []"
  proof (rule torn_write_loses_next_line [where x = "[123]"])
    show "dir_ready ?fs (w_wal_dir ?w)" by (simp add: dir_ready_def is_dir_def fs_get_def toy_writer_def)
    show "fs_get ?fs [lit ''a.jsonl''] = Some (File ([] @ [123]))" by (simp add: fs_get_def)
    show "nl_terminated []" by (simp add: nl_terminated_def)
    show "\<forall>k \<in> set [toy_line 7]. codec_ok toy_wal_codec k" using toy_codec_line_ok [of 7] by (simp add: u64_max_def)
    show "\<not> needs_new_file ?w (length [toy_line 7]) k" for k by (simp add: needs_new_file_def toy_writer_def)
    show "parse_line toy_wal_codec ([123] @ as_bytes j) = None" if "line_print toy_wal_codec (toy_line 7) = Some j" for j
    proof -
      have "show_nat 7 = [55]" by (subst show_nat.simps) simp
      then have "j = [123, 55, 125]" using that by (simp add: toy_wal_codec_def toy_line_def)
      then have "[123] @ as_bytes j = as_bytes [123, 123, 55, 125]" by (simp add: as_bytes_def utf8_encode1_def)
      moreover have "valid_str [123, 123, 55, 125]" by (simp add: valid_str_def is_scalar_def)
      ultimately show ?thesis
        by (simp add: parse_line_def from_utf8_as_bytes trim_id is_whitespace_def toy_wal_codec_def toy_text_def
            parse_uint_def from_str_radix_def dec_digit_def)
    qed
  qed simp_all
  then show ?thesis by (simp add: file_records_def List.map_filter_def)
qed

end
