(* ===== verification/WalBounds.thy ===== *)
theory WalBounds
  imports WalSafety
begin

text \<open>
  The bounds of a WAL directory (\<^verbatim>\<open>wal.rs\<close>, \<^verbatim>\<open>wal_max_seq\<close> and \<^verbatim>\<open>wal_min_seq\<close>): the full scan that
  finds the highest and the lowest sequence number, the manifest file that caches both, and the
  fast paths that answer from the manifest.  The hash of the name set, the (de)serialiser of the
  manifest, the UUID of its temporary file and the age of a leftover temporary file are
  parameters.
\<close>

section \<open>The full scan\<close>

record scan_wal_bounds_detail =
  sd_max_seq :: "nat option"
  sd_max_seq_file :: "rstr option"
  sd_max_seq_file_size :: nat
  sd_min_seq :: "nat option"
  sd_min_seq_file :: "rstr option"
  sd_min_seq_file_size :: nat
  sd_file_set_fingerprint :: nat

record wal_bounds_manifest =
  mf_file_set_fingerprint :: nat
  mf_max_seq_file :: "rstr option"
  mf_max_seq_file_size :: nat
  mf_max_seq :: "nat option"
  mf_min_seq_file :: "rstr option"
  mf_min_seq_file_size :: nat
  mf_min_seq :: "nat option"

record bounds_env =
  be_hash :: "rstr list \<Rightarrow> nat"
  be_print :: "wal_bounds_manifest \<Rightarrow> rstr option"
  be_parse :: "rstr \<Rightarrow> wal_bounds_manifest option"

definition jsonl_file_set_fingerprint :: "bounds_env \<Rightarrow> rstr list \<Rightarrow> nat" where
  "jsonl_file_set_fingerprint E names = be_hash E (sort names)"

definition current_jsonl_file_set_fingerprint :: "bounds_env \<Rightarrow> fsys \<Rightarrow> path \<Rightarrow> nat option" where
  "current_jsonl_file_set_fingerprint E fs wal_dir =
     (case read_dir fs wal_dir of Inl _ \<Rightarrow> None
      | Inr ns \<Rightarrow> Some (jsonl_file_set_fingerprint E (filter is_jsonl ns)))"

definition len_or_0 :: "fsys \<Rightarrow> path \<Rightarrow> nat" where
  "len_or_0 fs p = (case file_len fs p of None \<Rightarrow> 0 | Some n \<Rightarrow> n)"

text \<open>One round of the loop, for the file \<open>n\<close>.\<close>

definition note_max :: "fsys \<Rightarrow> path \<Rightarrow> rstr \<Rightarrow> nat option \<Rightarrow> scan_wal_bounds_detail \<Rightarrow> scan_wal_bounds_detail" where
  "note_max fs d n r a =
     (case r of None \<Rightarrow> a
      | Some seq \<Rightarrow>
          if (case sd_max_seq a of None \<Rightarrow> True | Some m \<Rightarrow> seq > m)
          then a\<lparr>sd_max_seq := Some seq, sd_max_seq_file_size := len_or_0 fs (d @ [n]), sd_max_seq_file := Some n\<rparr>
          else a)"

definition note_min :: "fsys \<Rightarrow> path \<Rightarrow> rstr \<Rightarrow> nat option \<Rightarrow> scan_wal_bounds_detail \<Rightarrow> scan_wal_bounds_detail" where
  "note_min fs d n r a =
     (case r of None \<Rightarrow> a
      | Some seq \<Rightarrow>
          if (case sd_min_seq a of None \<Rightarrow> True | Some m \<Rightarrow> seq < m)
          then a\<lparr>sd_min_seq := Some seq, sd_min_seq_file_size := len_or_0 fs (d @ [n]), sd_min_seq_file := Some n\<rparr>
          else a)"

fun bounds_fold :: "wal_codec \<Rightarrow> fsys \<Rightarrow> path \<Rightarrow> scan_wal_bounds_detail \<Rightarrow> rstr list \<Rightarrow> scan_wal_bounds_detail result" where
  "bounds_fold c fs d a [] = Inr a"
| "bounds_fold c fs d a (n # ns) =
     rbind (read_last_seq c fs (d @ [n])) (\<lambda>r.
       bounds_fold c fs d (note_min fs d n (first_seq_in_file c fs (d @ [n])) (note_max fs d n r a)) ns)"

definition scan_wal_bounds_detailed :: "wal_codec \<Rightarrow> bounds_env \<Rightarrow> fsys \<Rightarrow> path \<Rightarrow> scan_wal_bounds_detail result" where
  "scan_wal_bounds_detailed c E fs wal_dir =
     rbind (wal_files fs wal_dir) (\<lambda>files.
       bounds_fold c fs wal_dir
         \<lparr>sd_max_seq = None, sd_max_seq_file = None, sd_max_seq_file_size = 0, sd_min_seq = None,
          sd_min_seq_file = None, sd_min_seq_file_size = 0,
          sd_file_set_fingerprint = jsonl_file_set_fingerprint E files\<rparr> files)"

section \<open>The manifest file\<close>

definition WAL_BOUNDS_MANIFEST_FILE :: rstr where
  "WAL_BOUNDS_MANIFEST_FILE = lit ''.wal-bounds.json''"

definition wal_bounds_manifest_path :: "path \<Rightarrow> path" where
  "wal_bounds_manifest_path wal_dir = wal_dir @ [WAL_BOUNDS_MANIFEST_FILE]"

definition read_wal_bounds_manifest :: "bounds_env \<Rightarrow> fsys \<Rightarrow> path \<Rightarrow> wal_bounds_manifest option" where
  "read_wal_bounds_manifest E fs wal_dir =
     (case read_file fs (wal_bounds_manifest_path wal_dir) of
        Inl _ \<Rightarrow> None
      | Inr b \<Rightarrow> (case from_utf8 b of None \<Rightarrow> None | Some text \<Rightarrow> be_parse E text))"

definition is_manifest_tmp :: "rstr \<Rightarrow> bool" where
  "is_manifest_tmp n \<longleftrightarrow> starts_with (lit ''.wal-bounds.'') n \<and> ends_with (lit ''.tmp'') n"

definition sweep_stale_manifest_tmp_files :: "(path \<Rightarrow> bool) \<Rightarrow> path \<Rightarrow> fsys \<Rightarrow> fsys" where
  "sweep_stale_manifest_tmp_files stale wal_dir fs =
     (case read_dir fs wal_dir of
        Inl _ \<Rightarrow> fs
      | Inr ns \<Rightarrow>
          fold (\<lambda>n fs1. if is_manifest_tmp n \<and> stale (wal_dir @ [n])
                        then ignore_err (remove_file (wal_dir @ [n])) fs1 else fs1) ns fs)"

definition write_wal_bounds_manifest ::
  "bounds_env \<Rightarrow> rstr \<Rightarrow> (path \<Rightarrow> bool) \<Rightarrow> path \<Rightarrow> wal_bounds_manifest \<Rightarrow> bool \<Rightarrow> fsys \<Rightarrow> fsys" where
  "write_wal_bounds_manifest E uuid stale wal_dir manifest sweep fs =
     (let fs0 = (if sweep then sweep_stale_manifest_tmp_files stale wal_dir fs else fs) in
      case be_print E manifest of
        None \<Rightarrow> fs0
      | Some json \<Rightarrow>
          (let tmp_path = wal_dir @ [lit ''.wal-bounds.'' @ uuid @ lit ''.tmp''] in
           case write_tmp tmp_path (as_bytes json) fs0 of
             Inl _ \<Rightarrow> ignore_err (remove_file tmp_path) fs0
           | Inr fs1 \<Rightarrow>
               (case rename tmp_path (wal_bounds_manifest_path wal_dir) fs1 of
                  Inl _ \<Rightarrow> ignore_err (remove_file tmp_path) fs1
                | Inr fs2 \<Rightarrow> fs2)))"

definition manifest_of :: "scan_wal_bounds_detail \<Rightarrow> wal_bounds_manifest" where
  "manifest_of a = \<lparr>mf_file_set_fingerprint = sd_file_set_fingerprint a,
     mf_max_seq_file = sd_max_seq_file a, mf_max_seq_file_size = sd_max_seq_file_size a,
     mf_max_seq = sd_max_seq a, mf_min_seq_file = sd_min_seq_file a,
     mf_min_seq_file_size = sd_min_seq_file_size a, mf_min_seq = sd_min_seq a\<rparr>"

section \<open>File names in a manifest\<close>

datatype component = RootDir | CurDir | ParentDir | Normal rstr

text \<open>\<^verbatim>\<open>Path::components\<close>: empty parts vanish, and so does a dot unless it comes first.\<close>

fun components_rel :: "bool \<Rightarrow> rstr list \<Rightarrow> component list" where
  "components_rel first [] = []"
| "components_rel first (p # ps) =
     (if p = [] then components_rel first ps
      else if p = lit ''.'' then (if first then CurDir # components_rel False ps else components_rel False ps)
      else if p = lit ''..'' then ParentDir # components_rel False ps
      else Normal p # components_rel False ps)"

definition components :: "rstr \<Rightarrow> component list" where
  "components s =
     (if s \<noteq> [] \<and> hd s = 47 then RootDir # components_rel False (split_on (\<lambda>c. c = 47) s)
      else components_rel True (split_on (\<lambda>c. c = 47) s))"

definition is_safe_wal_file_name :: "rstr \<Rightarrow> bool" where
  "is_safe_wal_file_name name \<longleftrightarrow>
     name \<noteq> []
     \<and> (case components name of [Normal only] \<Rightarrow> only = name | _ \<Rightarrow> False)
     \<and> is_jsonl name"

section \<open>The highest and the lowest number\<close>

text \<open>A fast path gives nothing (the caller scans) or an answer, and may refresh the manifest.\<close>

definition wal_max_seq_fast_path ::
  "wal_codec \<Rightarrow> bounds_env \<Rightarrow> rstr \<Rightarrow> (path \<Rightarrow> bool) \<Rightarrow> path \<Rightarrow> fsys \<Rightarrow> fsys \<times> nat option option" where
  "wal_max_seq_fast_path c E uuid stale wal_dir fs =
     (case read_wal_bounds_manifest E fs wal_dir of
        None \<Rightarrow> (fs, None)
      | Some manifest \<Rightarrow>
          (case current_jsonl_file_set_fingerprint E fs wal_dir of
             None \<Rightarrow> (fs, None)
           | Some current_fingerprint \<Rightarrow>
               if current_fingerprint \<noteq> mf_file_set_fingerprint manifest then (fs, None)
               else (case (mf_max_seq_file manifest, mf_max_seq manifest) of
                  (None, None) \<Rightarrow> (fs, Some None)
                | (Some file_name, Some cached_seq) \<Rightarrow>
                    if \<not> is_safe_wal_file_name file_name then (fs, None)
                    else (case file_len fs (wal_dir @ [file_name]) of
                        None \<Rightarrow> (fs, None)
                      | Some current_size \<Rightarrow>
                          if current_size = mf_max_seq_file_size manifest then (fs, Some (Some cached_seq))
                          else (case read_last_seq c fs (wal_dir @ [file_name]) of
                              Inr (Some seq) \<Rightarrow>
                                if seq \<ge> cached_seq
                                then (write_wal_bounds_manifest E uuid stale wal_dir
                                        (manifest\<lparr>mf_file_set_fingerprint := current_fingerprint,
                                           mf_max_seq_file := Some file_name,
                                           mf_max_seq_file_size := current_size, mf_max_seq := Some seq\<rparr>)
                                        False fs, Some (Some seq))
                                else (fs, None)
                            | _ \<Rightarrow> (fs, None)))
                | _ \<Rightarrow> (fs, None))))"

definition wal_max_seq ::
  "wal_codec \<Rightarrow> bounds_env \<Rightarrow> rstr \<Rightarrow> (path \<Rightarrow> bool) \<Rightarrow> path \<Rightarrow> fsys \<Rightarrow> fsys \<times> nat option result" where
  "wal_max_seq c E uuid stale wal_dir fs =
     (case wal_max_seq_fast_path c E uuid stale wal_dir fs of
        (fs1, Some fast) \<Rightarrow> (fs1, Inr fast)
      | (fs1, None) \<Rightarrow>
          (case scan_wal_bounds_detailed c E fs1 wal_dir of
             Inl e \<Rightarrow> (fs1, Inl e)
           | Inr detailed \<Rightarrow>
               (write_wal_bounds_manifest E uuid stale wal_dir (manifest_of detailed) True fs1,
                Inr (sd_max_seq detailed))))"

definition wal_min_seq_fast_path :: "bounds_env \<Rightarrow> path \<Rightarrow> fsys \<Rightarrow> nat option option" where
  "wal_min_seq_fast_path E wal_dir fs =
     (case read_wal_bounds_manifest E fs wal_dir of
        None \<Rightarrow> None
      | Some manifest \<Rightarrow>
          (case current_jsonl_file_set_fingerprint E fs wal_dir of
             None \<Rightarrow> None
           | Some current_fingerprint \<Rightarrow>
               if current_fingerprint \<noteq> mf_file_set_fingerprint manifest then None
               else (case (mf_min_seq_file manifest, mf_min_seq manifest) of
                  (None, None) \<Rightarrow> Some None
                | (Some file_name, Some cached_seq) \<Rightarrow>
                    if \<not> is_safe_wal_file_name file_name then None
                    else (case file_len fs (wal_dir @ [file_name]) of
                        None \<Rightarrow> None
                      | Some current_size \<Rightarrow>
                          if current_size < mf_min_seq_file_size manifest then None
                          else Some (Some cached_seq))
                | _ \<Rightarrow> None)))"

definition wal_min_seq ::
  "wal_codec \<Rightarrow> bounds_env \<Rightarrow> rstr \<Rightarrow> (path \<Rightarrow> bool) \<Rightarrow> path \<Rightarrow> fsys \<Rightarrow> fsys \<times> nat option result" where
  "wal_min_seq c E uuid stale wal_dir fs =
     (case wal_min_seq_fast_path E wal_dir fs of
        Some fast \<Rightarrow> (fs, Inr fast)
      | None \<Rightarrow>
          (case scan_wal_bounds_detailed c E fs wal_dir of
             Inl _ \<Rightarrow> (fs, Inr None)
           | Inr detailed \<Rightarrow>
               (write_wal_bounds_manifest E uuid stale wal_dir (manifest_of detailed) True fs,
                Inr (sd_min_seq detailed))))"

section \<open>What the scan computes\<close>

text \<open>\<open>r\<close> is the best value, in the order \<open>R\<close>, of the partial function \<open>f\<close> on the set \<open>S\<close>.\<close>

definition best :: "(nat \<Rightarrow> nat \<Rightarrow> bool) \<Rightarrow> ('a \<Rightarrow> nat option) \<Rightarrow> 'a set \<Rightarrow> nat option \<Rightarrow> bool" where
  "best R f S r \<longleftrightarrow>
     (case r of None \<Rightarrow> \<forall>n \<in> S. f n = None
      | Some s \<Rightarrow> (\<exists>n \<in> S. f n = Some s) \<and> (\<forall>n \<in> S. \<forall>t. f n = Some t \<longrightarrow> R s t))"

lemma best_unique:
  assumes "best R f S r" "best R f S r'" and "\<And>x y. R x y \<Longrightarrow> R y x \<Longrightarrow> x = y"
  shows "r = r'"
proof (cases "r = None \<or> r' = None")
  case True
  then show ?thesis using assms(1,2) by (auto simp: best_def split: option.splits)
next
  case False
  then obtain s s' where e: "r = Some s" "r' = Some s'" by auto
  then have "R s s'" "R s' s" using assms(1,2) by (auto simp: best_def)
  with assms(3) e show ?thesis by auto
qed

lemma best_cong: "(\<And>n. n \<in> S \<Longrightarrow> f n = g n) \<Longrightarrow> best R f S r = best R g S r"
  by (simp add: best_def split: option.split)

lemma best_insert_same:
  "best R f S r \<Longrightarrow> f n = None \<Longrightarrow> best R f (insert n S) r"
  by (auto simp: best_def split: option.splits)

lemma best_insert_keep:
  "best R f S (Some m) \<Longrightarrow> f n = Some t \<Longrightarrow> R m t \<Longrightarrow> best R f (insert n S) (Some m)"
  by (auto simp: best_def)

lemma best_insert_new:
  assumes "best R f S r" "f n = Some t" "\<And>m. r = Some m \<Longrightarrow> R t m"
    and "\<And>x y z. R x y \<Longrightarrow> R y z \<Longrightarrow> R x z" "R t t"
  shows "best R f (insert n S) (Some t)"
proof (cases r)
  case None
  with assms(1,2,5) show ?thesis by (auto simp: best_def)
next
  case (Some m)
  then have m: "R t m" "\<And>k u. k \<in> S \<Longrightarrow> f k = Some u \<Longrightarrow> R m u"
    using assms(1,3) by (auto simp: best_def)
  have "R t u" if "k \<in> S" "f k = Some u" for k u
    by (rule assms(4) [OF m(1) m(2) [OF that]])
  with assms(2,5) show ?thesis by (auto simp: best_def)
qed

definition last_of :: "wal_codec \<Rightarrow> fsys \<Rightarrow> path \<Rightarrow> rstr \<Rightarrow> nat option" where
  "last_of c fs d n = (case read_last_seq c fs (d @ [n]) of Inl _ \<Rightarrow> None | Inr r \<Rightarrow> r)"

definition first_of :: "wal_codec \<Rightarrow> fsys \<Rightarrow> path \<Rightarrow> rstr \<Rightarrow> nat option" where
  "first_of c fs d n = first_seq_in_file c fs (d @ [n])"

lemma scan_fold_best:
  "scan_fold c fs d acc ns = Inr r \<Longrightarrow> best (\<ge>) (last_of c fs d) S acc \<Longrightarrow>
     best (\<ge>) (last_of c fs d) (S \<union> set ns) r"
proof (induction ns arbitrary: acc S)
  case (Cons n ns)
  obtain x where x: "read_last_seq c fs (d @ [n]) = Inr x" using Cons.prems by (auto simp: result_simps)
  let ?acc = "case x of None \<Rightarrow> acc
         | Some seq \<Rightarrow> (case acc of None \<Rightarrow> Some seq | Some m \<Rightarrow> if seq > m then Some seq else acc)"
  have "best (\<ge>) (last_of c fs d) (insert n S) ?acc"
  proof (cases x)
    case None
    then have "last_of c fs d n = None" using x by (simp add: last_of_def)
    with None show ?thesis using Cons.prems(2) by (simp add: best_insert_same)
  next
    case (Some t)
    then have t: "last_of c fs d n = Some t" using x by (simp add: last_of_def)
    show ?thesis
    proof (cases "\<exists>m. acc = Some m \<and> \<not> t > m")
      case True
      then obtain m where "acc = Some m" "t \<le> m" by auto
      then show ?thesis using Cons.prems(2) Some t by (simp add: best_insert_keep)
    next
      case False
      have "best (\<ge>) (last_of c fs d) (insert n S) (Some t)"
        by (rule best_insert_new [OF Cons.prems(2) t]) (use False in auto)
      with False Some show ?thesis by (auto split: option.splits)
    qed
  qed
  with Cons.IH [of ?acc "insert n S"] Cons.prems x show ?case by simp
qed simp

lemma scan_max_seq_detailed_best:
  assumes "scan_max_seq_detailed c fs d = Inr r" and "read_dir fs d = Inr ns"
  shows "best (\<ge>) (last_of c fs d) (set (filter is_jsonl ns)) r"
  using assms scan_fold_best [of c fs d None "filter is_jsonl ns" r "{}"]
  by (simp add: scan_max_seq_detailed_def wal_files_def best_def)

text \<open>The two bounds of the full scan, and the file each was found in.\<close>

definition at_file :: "fsys \<Rightarrow> path \<Rightarrow> (rstr \<Rightarrow> nat option) \<Rightarrow> rstr set \<Rightarrow> rstr option \<Rightarrow> nat \<Rightarrow> nat option \<Rightarrow> bool" where
  "at_file fs d f S nm sz r \<longleftrightarrow>
     (case nm of None \<Rightarrow> r = None
      | Some n \<Rightarrow> n \<in> S \<and> r \<noteq> None \<and> f n = r \<and> sz = len_or_0 fs (d @ [n]))"

definition detail_ok :: "wal_codec \<Rightarrow> fsys \<Rightarrow> path \<Rightarrow> rstr set \<Rightarrow> scan_wal_bounds_detail \<Rightarrow> bool" where
  "detail_ok c fs d S a \<longleftrightarrow>
     best (\<ge>) (last_of c fs d) S (sd_max_seq a)
     \<and> at_file fs d (last_of c fs d) S (sd_max_seq_file a) (sd_max_seq_file_size a) (sd_max_seq a)
     \<and> best (\<le>) (first_of c fs d) S (sd_min_seq a)
     \<and> at_file fs d (first_of c fs d) S (sd_min_seq_file a) (sd_min_seq_file_size a) (sd_min_seq a)"

lemma note_max_ok:
  assumes "detail_ok c fs d S a" and "read_last_seq c fs (d @ [n]) = Inr r"
  shows "best (\<ge>) (last_of c fs d) (insert n S) (sd_max_seq (note_max fs d n r a))
    \<and> at_file fs d (last_of c fs d) (insert n S) (sd_max_seq_file (note_max fs d n r a))
        (sd_max_seq_file_size (note_max fs d n r a)) (sd_max_seq (note_max fs d n r a))"
proof -
  have b: "best (\<ge>) (last_of c fs d) S (sd_max_seq a)"
    and f: "at_file fs d (last_of c fs d) S (sd_max_seq_file a) (sd_max_seq_file_size a) (sd_max_seq a)"
    using assms(1) by (simp_all add: detail_ok_def)
  have x: "last_of c fs d n = r" using assms(2) by (simp add: last_of_def)
  have grow: "at_file fs d (last_of c fs d) (insert n S) (sd_max_seq_file a) (sd_max_seq_file_size a) (sd_max_seq a)"
    using f by (auto simp: at_file_def split: option.splits)
  show ?thesis
  proof (cases "\<exists>t. r = Some t \<and> (\<forall>m. sd_max_seq a = Some m \<longrightarrow> t > m)")
    case True
    then obtain t where t: "r = Some t" "\<And>m. sd_max_seq a = Some m \<Longrightarrow> t > m" by blast
    have "best (\<ge>) (last_of c fs d) (insert n S) (Some t)"
      by (rule best_insert_new [OF b]) (use x t in \<open>auto dest: less_imp_le\<close>)
    with t x show ?thesis by (auto simp: note_max_def at_file_def split: option.splits)
  next
    case False
    then have e: "note_max fs d n r a = a" by (auto simp: note_max_def split: option.splits)
    have "best (\<ge>) (last_of c fs d) (insert n S) (sd_max_seq a)"
    proof (cases r)
      case None
      then show ?thesis using b x by (simp add: best_insert_same)
    next
      case (Some t)
      with False obtain m where "sd_max_seq a = Some m" "\<not> t > m" by blast
      with Some b x show ?thesis by (auto intro: best_insert_keep)
    qed
    with e grow show ?thesis by simp
  qed
qed

lemma note_min_ok:
  assumes "detail_ok c fs d S a" and "first_seq_in_file c fs (d @ [n]) = r"
  shows "best (\<le>) (first_of c fs d) (insert n S) (sd_min_seq (note_min fs d n r a))
    \<and> at_file fs d (first_of c fs d) (insert n S) (sd_min_seq_file (note_min fs d n r a))
        (sd_min_seq_file_size (note_min fs d n r a)) (sd_min_seq (note_min fs d n r a))"
proof -
  have b: "best (\<le>) (first_of c fs d) S (sd_min_seq a)"
    and f: "at_file fs d (first_of c fs d) S (sd_min_seq_file a) (sd_min_seq_file_size a) (sd_min_seq a)"
    using assms(1) by (simp_all add: detail_ok_def)
  have x: "first_of c fs d n = r" using assms(2) by (simp add: first_of_def)
  have grow: "at_file fs d (first_of c fs d) (insert n S) (sd_min_seq_file a) (sd_min_seq_file_size a) (sd_min_seq a)"
    using f by (auto simp: at_file_def split: option.splits)
  show ?thesis
  proof (cases "\<exists>t. r = Some t \<and> (\<forall>m. sd_min_seq a = Some m \<longrightarrow> t < m)")
    case True
    then obtain t where t: "r = Some t" "\<And>m. sd_min_seq a = Some m \<Longrightarrow> t < m" by blast
    have "best (\<le>) (first_of c fs d) (insert n S) (Some t)"
      by (rule best_insert_new [OF b]) (use x t in \<open>auto dest: less_imp_le\<close>)
    with t x show ?thesis by (auto simp: note_min_def at_file_def split: option.splits)
  next
    case False
    then have e: "note_min fs d n r a = a" by (auto simp: note_min_def split: option.splits)
    have "best (\<le>) (first_of c fs d) (insert n S) (sd_min_seq a)"
    proof (cases r)
      case None
      then show ?thesis using b x by (simp add: best_insert_same)
    next
      case (Some t)
      with False obtain m where "sd_min_seq a = Some m" "\<not> t < m" by blast
      with Some b x show ?thesis by (auto intro: best_insert_keep)
    qed
    with e grow show ?thesis by simp
  qed
qed

lemma note_frame:
  "sd_max_seq (note_min fs d n r a) = sd_max_seq a" "sd_max_seq_file (note_min fs d n r a) = sd_max_seq_file a"
  "sd_max_seq_file_size (note_min fs d n r a) = sd_max_seq_file_size a"
  "sd_min_seq (note_max fs d n r a) = sd_min_seq a" "sd_min_seq_file (note_max fs d n r a) = sd_min_seq_file a"
  "sd_min_seq_file_size (note_max fs d n r a) = sd_min_seq_file_size a"
  "sd_file_set_fingerprint (note_min fs d n r a) = sd_file_set_fingerprint a"
  "sd_file_set_fingerprint (note_max fs d n r a) = sd_file_set_fingerprint a"
  by (auto simp: note_min_def note_max_def split: option.splits)

lemma note_min_cong:
  assumes "sd_min_seq a = sd_min_seq a'" "sd_min_seq_file a = sd_min_seq_file a'" "sd_min_seq_file_size a = sd_min_seq_file_size a'"
  shows "sd_min_seq (note_min fs d n r a) = sd_min_seq (note_min fs d n r a')"
    "sd_min_seq_file (note_min fs d n r a) = sd_min_seq_file (note_min fs d n r a')"
    "sd_min_seq_file_size (note_min fs d n r a) = sd_min_seq_file_size (note_min fs d n r a')"
  using assms by (auto simp: note_min_def split: option.splits)

lemma bounds_fold_ok:
  "bounds_fold c fs d a ns = Inr a' \<Longrightarrow> detail_ok c fs d S a \<Longrightarrow>
     detail_ok c fs d (S \<union> set ns) a' \<and> sd_file_set_fingerprint a' = sd_file_set_fingerprint a"
proof (induction ns arbitrary: a S)
  case (Cons n ns)
  obtain r where r: "read_last_seq c fs (d @ [n]) = Inr r" using Cons.prems by (auto simp: result_simps)
  let ?a1 = "note_max fs d n r a"
  let ?a2 = "note_min fs d n (first_seq_in_file c fs (d @ [n])) ?a1"
  have "detail_ok c fs d (insert n S) ?a2"
    using note_max_ok [OF Cons.prems(2) r] note_min_ok [OF Cons.prems(2) refl, of n]
      note_min_cong [of ?a1 a fs d n "first_seq_in_file c fs (d @ [n])"]
    by (simp add: detail_ok_def note_frame)
  with Cons.IH [of ?a2 "insert n S"] Cons.prems r show ?case by (simp add: note_frame)
qed simp

lemma scan_wal_bounds_ok:
  assumes "scan_wal_bounds_detailed c E fs d = Inr a" and "read_dir fs d = Inr ns"
  shows "detail_ok c fs d (set (filter is_jsonl ns)) a
    \<and> sd_file_set_fingerprint a = jsonl_file_set_fingerprint E (filter is_jsonl ns)"
proof -
  let ?a0 = "\<lparr>sd_max_seq = None, sd_max_seq_file = None, sd_max_seq_file_size = 0, sd_min_seq = None,
          sd_min_seq_file = None, sd_min_seq_file_size = 0,
          sd_file_set_fingerprint = jsonl_file_set_fingerprint E (filter is_jsonl ns)\<rparr>"
  have "detail_ok c fs d {} ?a0" by (simp add: detail_ok_def best_def at_file_def)
  from bounds_fold_ok [OF _ this, of "filter is_jsonl ns" a] assms show ?thesis
    by (simp add: scan_wal_bounds_detailed_def wal_files_def)
qed

lemma bounds_fold_readable:
  "(\<exists>a'. bounds_fold c fs d a ns = Inr a') \<longleftrightarrow> (\<forall>n \<in> set ns. \<exists>r. read_last_seq c fs (d @ [n]) = Inr r)"
proof (induction ns arbitrary: a)
  case (Cons n ns)
  then show ?case by (cases "read_last_seq c fs (d @ [n])") simp_all
qed simp

lemma bounds_fold_scan_fold:
  "scan_fold c fs d (sd_max_seq a) ns = map_sum id sd_max_seq (bounds_fold c fs d a ns)"
proof (induction ns arbitrary: a)
  case (Cons n ns)
  show ?case
  proof (cases "read_last_seq c fs (d @ [n])")
    case (Inr r)
    have "sd_max_seq (note_min fs d n x (note_max fs d n r a)) =
      (case r of None \<Rightarrow> sd_max_seq a
       | Some seq \<Rightarrow> (case sd_max_seq a of None \<Rightarrow> Some seq | Some m \<Rightarrow> if seq > m then Some seq else sd_max_seq a))" for x
      by (auto simp: note_frame) (auto simp: note_max_def split: option.splits)
    with Inr Cons.IH [of "note_min fs d n (first_seq_in_file c fs (d @ [n])) (note_max fs d n r a)"]
    show ?thesis by simp
  qed simp
qed simp

lemma scan_wal_bounds_max:
  "map_sum id sd_max_seq (scan_wal_bounds_detailed c E fs d) = scan_max_seq_detailed c fs d"
  by (cases "wal_files fs d")
    (simp_all add: scan_wal_bounds_detailed_def scan_max_seq_detailed_def flip: bounds_fold_scan_fold)

section \<open>Writing the manifest leaves the log alone\<close>

lemma rename_other:
  assumes "rename src dst fs = Inr fs'" and "\<not> prefix src k" "\<not> prefix dst k"
  shows "fs_get fs' k = fs_get fs k"
proof -
  have mv: "move_path src dst q = k \<longleftrightarrow> q = k" for q
    using assms(2,3) by (auto simp: move_path_def prefix_def) (metis append_take_drop_id)
  then have mv': "k = move_path src dst q \<longleftrightarrow> k = q" for q by metis
  have "map_of (map (\<lambda>(q, n). (move_path src dst q, n)) xs) k = map_of xs k" for xs :: fsys
    by (induction xs) (simp_all add: mv' split_beta)
  moreover have "fs' = map (\<lambda>(q, n). (move_path src dst q, n)) (fs_del dst fs)"
    using assms(1) by (auto simp: rename_def split: if_splits)
  moreover have "k \<noteq> dst" using assms(3) by auto
  ultimately show ?thesis by (simp add: fs_get_def [symmetric])
qed

lemma tmp_not_jsonl: "\<not> is_jsonl (x @ lit ''.tmp'')"
proof -
  have "rev (takeWhile (\<lambda>c. c \<noteq> 46) (rev (x @ lit ''.tmp''))) = lit ''tmp''" by (simp add: lit_def)
  then show ?thesis by (auto simp: is_jsonl_def extension_def Let_def lit_def)
qed

lemma manifest_tmp_not_jsonl: "is_manifest_tmp n \<Longrightarrow> \<not> is_jsonl n"
proof
  assume "is_manifest_tmp n" "is_jsonl n"
  then obtain t where "rev n = rev (lit ''.tmp'') @ t"
    by (auto simp: is_manifest_tmp_def ends_with_def starts_with_iff)
  then have "n = rev t @ lit ''.tmp''" by (metis rev_append rev_rev_ident)
  with tmp_not_jsonl \<open>is_jsonl n\<close> show False by simp
qed

lemma manifest_not_jsonl: "\<not> is_jsonl WAL_BOUNDS_MANIFEST_FILE"
  by (simp add: is_jsonl_def extension_def WAL_BOUNDS_MANIFEST_FILE_def lit_def)

lemma sweep_other:
  assumes "is_jsonl n"
  shows "fs_get (sweep_stale_manifest_tmp_files stale d fs) (d @ [n]) = fs_get fs (d @ [n])"
proof -
  let ?f = "\<lambda>m fs1. if is_manifest_tmp m \<and> stale (d @ [m]) then ignore_err (remove_file (d @ [m])) fs1 else fs1"
  have "fs_get (fold ?f ns fs) (d @ [n]) = fs_get fs (d @ [n])" for ns
    using assms manifest_tmp_not_jsonl
    by (induction ns arbitrary: fs) (auto simp: fs_get_ignore_remove split: option.splits node.splits)
  then show ?thesis by (simp add: sweep_stale_manifest_tmp_files_def split: sum.split)
qed

lemma write_manifest_other:
  assumes n: "is_jsonl n"
  shows "fs_get (write_wal_bounds_manifest E u stale d mf sweep fs) (d @ [n]) = fs_get fs (d @ [n])"
proof -
  let ?t = "d @ [lit ''.wal-bounds.'' @ u @ lit ''.tmp'']"
  let ?fs0 = "if sweep then sweep_stale_manifest_tmp_files stale d fs else fs"
  have t: "d @ [n] \<noteq> ?t" "\<not> prefix ?t (d @ [n])" using n tmp_not_jsonl [of "lit ''.wal-bounds.'' @ u"] by (auto simp: lit_def)
  have m: "\<not> prefix (wal_bounds_manifest_path d) (d @ [n])"
    using n manifest_not_jsonl by (auto simp: wal_bounds_manifest_path_def)
  have 0: "fs_get ?fs0 (d @ [n]) = fs_get fs (d @ [n])" using n by (simp add: sweep_other)
  have r: "fs_get (ignore_err (remove_file ?t) x) (d @ [n]) = fs_get x (d @ [n])" for x
    using t(1) by (auto simp: fs_get_ignore_remove split: option.splits node.splits)
  have w: "fs_get fs1 (d @ [n]) = fs_get fs (d @ [n])" if "write_tmp ?t b ?fs0 = Inr fs1" for b fs1
    using that 0 t(1) by (auto simp: write_tmp_def simp del: fs_simps split: if_splits) (simp_all add: fs_simps)
  show ?thesis
    using 0 r w rename_other [OF _ t(2) m]
    by (auto simp: write_wal_bounds_manifest_def Let_def split: option.splits sum.splits)
qed

section \<open>The answer is the true bound\<close>

text \<open>A manifest that describes the highest number of the directory as it was in \<open>fs\<close>.\<close>

definition max_sound :: "wal_codec \<Rightarrow> bounds_env \<Rightarrow> fsys \<Rightarrow> path \<Rightarrow> wal_bounds_manifest \<Rightarrow> bool" where
  "max_sound c E fs d mf \<longleftrightarrow>
     (\<exists>ns. read_dir fs d = Inr ns
        \<and> mf_file_set_fingerprint mf = jsonl_file_set_fingerprint E (filter is_jsonl ns)
        \<and> (\<forall>n \<in> set (filter is_jsonl ns). \<exists>r. read_last_seq c fs (d @ [n]) = Inr r)
        \<and> best (\<ge>) (last_of c fs d) (set (filter is_jsonl ns)) (mf_max_seq mf)
        \<and> at_file fs d (last_of c fs d) (set (filter is_jsonl ns))
            (mf_max_seq_file mf) (mf_max_seq_file_size mf) (mf_max_seq mf))"

definition no_collision :: "bounds_env \<Rightarrow> fsys \<Rightarrow> fsys \<Rightarrow> path \<Rightarrow> bool" where
  "no_collision E fs0 fs d \<longleftrightarrow>
     (\<forall>ns0 ns. read_dir fs0 d = Inr ns0 \<longrightarrow> read_dir fs d = Inr ns \<longrightarrow>
        jsonl_file_set_fingerprint E (filter is_jsonl ns) = jsonl_file_set_fingerprint E (filter is_jsonl ns0) \<longrightarrow>
        set (filter is_jsonl ns) = set (filter is_jsonl ns0))"

text \<open>Since \<open>fs0\<close>, the file named in the manifest changed only together with its length, and the other WAL files did not change.\<close>

definition only_max_grew :: "path \<Rightarrow> wal_bounds_manifest \<Rightarrow> fsys \<Rightarrow> fsys \<Rightarrow> bool" where
  "only_max_grew d mf fs0 fs \<longleftrightarrow>
     (\<forall>n. is_jsonl n \<longrightarrow> fs_get fs (d @ [n]) = fs_get fs0 (d @ [n])
        \<or> mf_max_seq_file mf = Some n \<and> file_len fs (d @ [n]) \<noteq> file_len fs0 (d @ [n]))"

lemma scanned_manifest_sound:
  assumes "scan_wal_bounds_detailed c E fs d = Inr a"
  shows "max_sound c E fs d (manifest_of a)"
proof -
  obtain ns where ns: "read_dir fs d = Inr ns"
    using assms by (cases "read_dir fs d") (simp_all add: scan_wal_bounds_detailed_def wal_files_def)
  have "\<exists>a0. bounds_fold c fs d a0 (filter is_jsonl ns) = Inr a"
    using assms ns by (auto simp: scan_wal_bounds_detailed_def wal_files_def)
  then have "\<forall>n \<in> set (filter is_jsonl ns). \<exists>r. read_last_seq c fs (d @ [n]) = Inr r"
    using bounds_fold_readable by blast
  with scan_wal_bounds_ok [OF assms ns] ns show ?thesis
    by (auto simp: max_sound_def manifest_of_def detail_ok_def)
qed

lemma read_last_seq_cong:
  "fs_get fs p = fs_get fs' p \<Longrightarrow> read_last_seq c fs p = read_last_seq c fs' p"
proof -
  assume "fs_get fs p = fs_get fs' p"
  then have "file_len fs p = file_len fs' p" "\<And>k. read_last_seq_in_range c fs p k = read_last_seq_in_range c fs' p k"
    by (simp_all add: file_len_def read_last_seq_in_range_def read_file_def)
  then show ?thesis by (cases "file_len fs' p") (simp_all add: read_last_seq_def)
qed

lemma scan_max_seq_detailed_iff:
  assumes "read_dir fs d = Inr ns" and "\<forall>n \<in> set (filter is_jsonl ns). \<exists>r. read_last_seq c fs (d @ [n]) = Inr r"
    and "best (\<ge>) (last_of c fs d) (set (filter is_jsonl ns)) r"
  shows "scan_max_seq_detailed c fs d = Inr r"
proof -
  obtain a where "scan_wal_bounds_detailed c undefined fs d = Inr a"
    using assms(1,2) bounds_fold_readable [of c fs d _ "filter is_jsonl ns"]
    by (auto simp: scan_wal_bounds_detailed_def wal_files_def)
  then obtain r' where r': "scan_max_seq_detailed c fs d = Inr r'"
    using scan_wal_bounds_max [of c undefined fs d, symmetric] by simp
  have "r' = r"
    by (rule best_unique [OF scan_max_seq_detailed_best [OF r' assms(1)] assms(3)]) simp
  with r' show ?thesis by simp
qed

text \<open>The fast path, when the file names agree with a sound manifest.\<close>

lemma fast_path_true:
  assumes sound: "max_sound c E fs0 d mf" and rd: "read_wal_bounds_manifest E fs d = Some mf"
    and nc: "no_collision E fs0 fs d" and grew: "only_max_grew d mf fs0 fs"
    and fast: "wal_max_seq_fast_path c E u stale d fs = (fs', Some r)"
  shows "scan_max_seq_detailed c fs d = Inr r"
proof -
  from sound obtain ns0 where ns0: "read_dir fs0 d = Inr ns0"
    and fp: "mf_file_set_fingerprint mf = jsonl_file_set_fingerprint E (filter is_jsonl ns0)"
    and r0: "\<forall>n \<in> set (filter is_jsonl ns0). \<exists>r. read_last_seq c fs0 (d @ [n]) = Inr r"
    "best (\<ge>) (last_of c fs0 d) (set (filter is_jsonl ns0)) (mf_max_seq mf)"
    "at_file fs0 d (last_of c fs0 d) (set (filter is_jsonl ns0))
            (mf_max_seq_file mf) (mf_max_seq_file_size mf) (mf_max_seq mf)"
    unfolding max_sound_def by blast
  obtain ns where ns: "read_dir fs d = Inr ns"
    and eq: "jsonl_file_set_fingerprint E (filter is_jsonl ns) = mf_file_set_fingerprint mf"
    using fast rd by (cases "read_dir fs d") (auto simp: wal_max_seq_fast_path_def
        current_jsonl_file_set_fingerprint_def split: if_splits)
  define S where "S = set (filter is_jsonl ns)"
  have S0: "S = set (filter is_jsonl ns0)" using nc ns ns0 fp eq unfolding no_collision_def S_def by metis
  note readable = r0(1) [folded S0] and b0 = r0(2) [folded S0] and at0 = r0(3) [folded S0]
  have js: "is_jsonl n" if "n \<in> S" for n using that by (simp add: S_def)
  have same: "fs_get fs (d @ [n]) = fs_get fs0 (d @ [n])"
    if "n \<in> S" "mf_max_seq_file mf \<noteq> Some n \<or> file_len fs (d @ [n]) = file_len fs0 (d @ [n])" for n
    using grew that js unfolding only_max_grew_def by blast
  have rl: "read_last_seq c fs (d @ [n]) = read_last_seq c fs0 (d @ [n])"
    "last_of c fs d n = last_of c fs0 d n"
    if "n \<in> S" "mf_max_seq_file mf \<noteq> Some n \<or> file_len fs (d @ [n]) = file_len fs0 (d @ [n])" for n
    using read_last_seq_cong [OF same [OF that], of c] by (simp_all add: last_of_def)
  show ?thesis
  proof (cases "mf_max_seq_file mf")
    case None
    then have m: "mf_max_seq mf = None" "r = None"
      using at0 fast rd ns eq
      by (auto simp: at_file_def wal_max_seq_fast_path_def current_jsonl_file_set_fingerprint_def)
    show ?thesis
    proof (rule scan_max_seq_detailed_iff [OF ns, folded S_def])
      show "\<forall>n \<in> S. \<exists>r. read_last_seq c fs (d @ [n]) = Inr r" using readable rl(1) None by simp
      show "best (\<ge>) (last_of c fs d) S r"
        using b0 m best_cong [of S "last_of c fs d" "last_of c fs0 d" "(\<ge>)" r] rl(2) None by simp
    qed
  next
    case (Some f)
    then obtain s0 where f: "f \<in> S" "mf_max_seq mf = Some s0" "last_of c fs0 d f = Some s0"
      "mf_max_seq_file_size mf = len_or_0 fs0 (d @ [f])"
      using at0 by (auto simp: at_file_def)
    obtain n where n: "file_len fs (d @ [f]) = Some n"
      using fast rd ns eq Some f(2)
      by (cases "file_len fs (d @ [f])") (auto simp: wal_max_seq_fast_path_def
          current_jsonl_file_set_fingerprint_def split: if_splits)
    have ex0: "\<exists>k. file_len fs0 (d @ [f]) = Some k"
    proof -
      from f(1) readable obtain x where "read_last_seq c fs0 (d @ [f]) = Inr x" by auto
      then show ?thesis by (auto simp: read_last_seq_def split: option.splits)
    qed
    have others: "\<And>m t. m \<in> S \<Longrightarrow> m \<noteq> f \<Longrightarrow> last_of c fs d m = Some t \<Longrightarrow> t \<le> s0"
    proof -
      fix m t assume "m \<in> S" "m \<noteq> f" "last_of c fs d m = Some t"
      with rl(2) [of m] Some have "last_of c fs0 d m = Some t" by auto
      with b0 f(2) \<open>m \<in> S\<close> show "t \<le> s0" by (auto simp: best_def)
    qed
    have key: "\<exists>s. r = Some s \<and> s0 \<le> s \<and> read_last_seq c fs (d @ [f]) = Inr (Some s)"
    proof (cases "n = mf_max_seq_file_size mf")
      case True
      then have "file_len fs (d @ [f]) = file_len fs0 (d @ [f])" using n f(4) ex0 by (auto simp: len_or_0_def)
      then have "read_last_seq c fs (d @ [f]) = read_last_seq c fs0 (d @ [f])" using rl(1) f(1) by blast
      moreover have "read_last_seq c fs0 (d @ [f]) = Inr (Some s0)"
        using f(3) by (auto simp: last_of_def split: sum.splits)
      moreover have "r = Some s0"
        using fast rd ns eq Some f(2) n True
        by (auto simp: wal_max_seq_fast_path_def current_jsonl_file_set_fingerprint_def split: if_splits)
      ultimately show ?thesis by simp
    next
      case False
      then show ?thesis
        using fast rd ns eq Some f(2) n
        by (auto simp: wal_max_seq_fast_path_def current_jsonl_file_set_fingerprint_def
            split: if_splits sum.splits option.splits)
    qed
    then obtain s where s: "r = Some s" "s0 \<le> s" "read_last_seq c fs (d @ [f]) = Inr (Some s)" by blast
    show ?thesis
    proof (rule scan_max_seq_detailed_iff [OF ns, folded S_def])
      have "\<exists>x. read_last_seq c fs (d @ [m]) = Inr x" if "m \<in> S" for m
        using that rl(1) [of m] readable s(3) Some by (cases "m = f") auto
      then show "\<forall>n \<in> S. \<exists>r. read_last_seq c fs (d @ [n]) = Inr r" by blast
      have "last_of c fs d f = Some s" using s(3) by (simp add: last_of_def)
      moreover have "t \<le> s" if "m \<in> S" "last_of c fs d m = Some t" for m t
        using others [of m t] that s(2) \<open>last_of c fs d f = Some s\<close> by (cases "m = f") auto
      ultimately show "best (\<ge>) (last_of c fs d) S r" using f(1) s(1) by (auto simp: best_def)
    qed
  qed
qed

lemma fast_path_frame:
  "is_jsonl n \<Longrightarrow> fs_get (fst (wal_max_seq_fast_path c E u stale d fs)) (d @ [n]) = fs_get fs (d @ [n])"
  "snd (wal_max_seq_fast_path c E u stale d fs) = None \<Longrightarrow> fst (wal_max_seq_fast_path c E u stale d fs) = fs"
  by (auto simp: wal_max_seq_fast_path_def write_manifest_other split: option.splits sum.splits)

text \<open>C9: \<^verbatim>\<open>wal_max_seq\<close> answers with the highest number really present.  If the manifest on disk is missing,
  or describes an earlier state of the directory since which only the file it names has grown,
  the answer is that of scanning every file, errors included; and the WAL files are left alone.\<close>

theorem wal_max_seq_true_value:
  assumes trust: "\<And>mf. read_wal_bounds_manifest E fs d = Some mf \<Longrightarrow>
      \<exists>fs0. max_sound c E fs0 d mf \<and> no_collision E fs0 fs d \<and> only_max_grew d mf fs0 fs"
  shows "snd (wal_max_seq c E u stale d fs) = scan_max_seq_detailed c fs d
    \<and> (\<forall>n. is_jsonl n \<longrightarrow> fs_get (fst (wal_max_seq c E u stale d fs)) (d @ [n]) = fs_get fs (d @ [n]))"
proof -
  obtain fs1 fast where f: "wal_max_seq_fast_path c E u stale d fs = (fs1, fast)" by fastforce
  show ?thesis
  proof (cases fast)
    case None
    then have "fs1 = fs" using fast_path_frame(2) [of c E u stale d fs] f by simp
    with None f scan_wal_bounds_max [of c E fs d, symmetric] show ?thesis
      by (auto simp: wal_max_seq_def write_manifest_other split: sum.split)
  next
    case (Some r)
    then obtain mf where "read_wal_bounds_manifest E fs d = Some mf"
      using f by (auto simp: wal_max_seq_fast_path_def split: option.splits)
    with trust obtain fs0 where "max_sound c E fs0 d mf" "no_collision E fs0 fs d" "only_max_grew d mf fs0 fs"
      by blast
    with fast_path_true [OF _ \<open>read_wal_bounds_manifest E fs d = Some mf\<close>] f Some
    have "scan_max_seq_detailed c fs d = Inr r" by blast
    with f Some fast_path_frame(1) [of _ c E u stale d fs] show ?thesis by (simp add: wal_max_seq_def)
  qed
qed

section \<open>The lowest number\<close>

text \<open>Appending to a file that has a readable first line does not change its first number.\<close>

lemma first_seq_lines_append:
  "first_seq_lines c xs \<noteq> None \<Longrightarrow> first_seq_lines c (xs @ ys) = first_seq_lines c xs"
  by (induction xs) (auto simp: Let_def split: option.splits)

lemma first_seq_grow:
  assumes "fs_get fs0 p = Some (File b)" "fs_get fs p = Some (File (b @ e))" "nl_terminated b"
    and "first_seq_in_file c fs0 p \<noteq> None"
  shows "first_seq_in_file c fs p = first_seq_in_file c fs0 p"
proof -
  have "lines (b @ e) = lines b @ lines e" using assms(3) lines_append by (simp add: nl_terminated_def)
  then show ?thesis
    using assms first_seq_lines_append by (simp add: first_seq_in_file_def read_file_def)
qed

definition min_sound :: "wal_codec \<Rightarrow> bounds_env \<Rightarrow> fsys \<Rightarrow> path \<Rightarrow> wal_bounds_manifest \<Rightarrow> bool" where
  "min_sound c E fs d mf \<longleftrightarrow>
     (\<exists>ns. read_dir fs d = Inr ns
        \<and> mf_file_set_fingerprint mf = jsonl_file_set_fingerprint E (filter is_jsonl ns)
        \<and> best (\<le>) (first_of c fs d) (set (filter is_jsonl ns)) (mf_min_seq mf)
        \<and> at_file fs d (first_of c fs d) (set (filter is_jsonl ns))
            (mf_min_seq_file mf) (mf_min_seq_file_size mf) (mf_min_seq mf))"

text \<open>Since \<open>fs0\<close>, files with a readable first line were only appended to, and the others did not change.\<close>

definition only_appended :: "wal_codec \<Rightarrow> path \<Rightarrow> fsys \<Rightarrow> fsys \<Rightarrow> bool" where
  "only_appended c d fs0 fs \<longleftrightarrow>
     (\<forall>n. is_jsonl n \<longrightarrow> fs_get fs (d @ [n]) = fs_get fs0 (d @ [n])
        \<or> (first_of c fs0 d n \<noteq> None \<and> nl_terminated (content fs0 (d @ [n]))
           \<and> (\<exists>e. fs_get fs (d @ [n]) = Some (File (content fs0 (d @ [n]) @ e)))))"

lemma first_of_grow:
  assumes "only_appended c d fs0 fs" and "is_jsonl n"
  shows "first_of c fs d n = first_of c fs0 d n"
proof (cases "fs_get fs (d @ [n]) = fs_get fs0 (d @ [n])")
  case True
  then show ?thesis by (simp add: first_of_def first_seq_in_file_def read_file_def)
next
  case False
  then obtain e where e: "first_of c fs0 d n \<noteq> None" "nl_terminated (content fs0 (d @ [n]))"
    "fs_get fs (d @ [n]) = Some (File (content fs0 (d @ [n]) @ e))"
    using assms by (auto simp: only_appended_def)
  then obtain b where "fs_get fs0 (d @ [n]) = Some (File b)"
    by (auto simp: first_of_def first_seq_in_file_def read_file_def split: option.splits node.splits)
  with e first_seq_grow [of fs0 "d @ [n]" b fs e c] show ?thesis by (simp add: first_of_def content_def)
qed

text \<open>\<^verbatim>\<open>wal_min_seq\<close> answers with the lowest first number.  With a missing manifest, or one that
  describes an earlier state since which files were only appended to, the answer over a
  directory whose files can be read is the least of the first numbers of its files.\<close>

lemma wal_min_seq_true_value:
  assumes trust: "\<And>mf. read_wal_bounds_manifest E fs d = Some mf \<Longrightarrow>
      \<exists>fs0. min_sound c E fs0 d mf \<and> no_collision E fs0 fs d \<and> only_appended c d fs0 fs"
    and dir: "read_dir fs d = Inr ns"
    and readable: "\<And>n. n \<in> set (filter is_jsonl ns) \<Longrightarrow> \<exists>r. read_last_seq c fs (d @ [n]) = Inr r"
  shows "\<exists>r. snd (wal_min_seq c E u stale d fs) = Inr r
    \<and> best (\<le>) (\<lambda>n. first_seq_in_file c fs (d @ [n])) (set (filter is_jsonl ns)) r"
proof (cases "wal_min_seq_fast_path E d fs")
  case None
  obtain a where a: "scan_wal_bounds_detailed c E fs d = Inr a"
    using dir readable bounds_fold_readable [of c fs d _ "filter is_jsonl ns"]
    by (auto simp: scan_wal_bounds_detailed_def wal_files_def)
  from scan_wal_bounds_ok [OF a dir] have "best (\<le>) (first_of c fs d) (set (filter is_jsonl ns)) (sd_min_seq a)"
    by (simp add: detail_ok_def)
  with None a show ?thesis unfolding first_of_def by (simp add: wal_min_seq_def)
next
  case (Some r)
  then obtain mf where mf: "read_wal_bounds_manifest E fs d = Some mf"
    by (auto simp: wal_min_seq_fast_path_def split: option.splits)
  with trust obtain fs0 where s: "min_sound c E fs0 d mf" and nc: "no_collision E fs0 fs d"
    and ap: "only_appended c d fs0 fs" by blast
  from s obtain ns0 where ns0: "read_dir fs0 d = Inr ns0"
    "mf_file_set_fingerprint mf = jsonl_file_set_fingerprint E (filter is_jsonl ns0)"
    "best (\<le>) (first_of c fs0 d) (set (filter is_jsonl ns0)) (mf_min_seq mf)"
    "at_file fs0 d (first_of c fs0 d) (set (filter is_jsonl ns0))
       (mf_min_seq_file mf) (mf_min_seq_file_size mf) (mf_min_seq mf)"
    unfolding min_sound_def by blast
  have fast: "jsonl_file_set_fingerprint E (filter is_jsonl ns) = mf_file_set_fingerprint mf" "r = mf_min_seq mf"
    using Some mf dir ns0(4)
    by (auto simp: wal_min_seq_fast_path_def current_jsonl_file_set_fingerprint_def at_file_def
        split: if_splits option.splits)
  then have S: "set (filter is_jsonl ns) = set (filter is_jsonl ns0)"
    using nc dir ns0(1,2) unfolding no_collision_def by metis
  have "best (\<le>) (first_of c fs d) (set (filter is_jsonl ns)) r"
    unfolding S fast(2)
    by (rule best_cong [THEN iffD2, OF _ ns0(3)]) (simp add: first_of_grow [OF ap])
  with Some show ?thesis unfolding first_of_def by (auto simp: wal_min_seq_def)
qed

section \<open>Concrete directories\<close>

lemma first_seq_lines_records:
  "first_seq_lines c ls = (case List.map_filter (parse_line c) ls of [] \<Rightarrow> None | l # _ \<Rightarrow> Some (ln_seq l))"
  by (induction ls) (auto simp: parse_line_def Let_def List.map_filter_simps split: option.split)

text \<open>A manifest that names the file \<open>a.jsonl\<close>, stored as the text \<open>m\<close>.\<close>

definition toy_manifest :: wal_bounds_manifest where
  "toy_manifest = \<lparr>mf_file_set_fingerprint = 0, mf_max_seq_file = Some (lit ''a.jsonl''),
     mf_max_seq_file_size = length (toy_bytes [5]), mf_max_seq = Some 5,
     mf_min_seq_file = Some (lit ''a.jsonl''), mf_min_seq_file_size = length (toy_bytes [5]), mf_min_seq = Some 5\<rparr>"

definition toy_env :: bounds_env where
  "toy_env = \<lparr>be_hash = (\<lambda>_. 0), be_print = (\<lambda>_. None),
     be_parse = (\<lambda>t. if t = lit ''m'' then Some toy_manifest else None)\<rparr>"

definition toy_dir :: "(rstr \<times> nat list) list \<Rightarrow> fsys" where
  "toy_dir fls = ([], Dir) # ([WAL_BOUNDS_MANIFEST_FILE], File (as_bytes (lit ''m'')))
     # map (\<lambda>(n, seqs). ([n], File (toy_bytes seqs))) fls"

lemma a_jsonl: "is_jsonl (lit ''a.jsonl'')" "is_jsonl (lit ''b.jsonl'')"
  using is_jsonl_suffix [of "lit ''a''"] is_jsonl_suffix [of "lit ''b''"] by (simp_all add: lit_def)

lemma toy_dir_manifest: "read_wal_bounds_manifest toy_env (toy_dir fls) [] = Some toy_manifest"
proof -
  have "valid_str (lit ''m'')" by (simp add: valid_str_def is_scalar_def lit_def)
  from from_utf8_as_bytes [OF this] show ?thesis
    by (simp add: read_wal_bounds_manifest_def read_file_def toy_dir_def fs_get_def wal_bounds_manifest_path_def toy_env_def)
qed

lemma toy_dir_get:
  assumes "is_jsonl n"
  shows "fs_get (toy_dir fls) [n] = map_option (\<lambda>s. File (toy_bytes s)) (map_of fls n)"
proof -
  have "n \<noteq> WAL_BOUNDS_MANIFEST_FILE" using assms manifest_not_jsonl by auto
  moreover have "map_of (map (\<lambda>(n, seqs). ([n], File (toy_bytes seqs))) fls) [n]
      = map_option (\<lambda>s. File (toy_bytes s)) (map_of fls n)"
    by (induction fls) auto
  ultimately show ?thesis by (simp add: toy_dir_def fs_get_def)
qed

lemma toy_dir_last:
  assumes "is_jsonl n" "map_of fls n = Some seqs" "\<forall>s \<in> set seqs. s \<le> u64_max"
  shows "read_last_seq toy_wal_codec (toy_dir fls) [n] = Inr (last_opt seqs)"
    "first_seq_in_file toy_wal_codec (toy_dir fls) [n] = (case seqs of [] \<Rightarrow> None | s # _ \<Rightarrow> Some s)"
proof -
  have f: "read_file (toy_dir fls) [n] = Inr (toy_bytes seqs)"
    using assms toy_dir_get by (simp add: read_file_def)
  show "read_last_seq toy_wal_codec (toy_dir fls) [n] = Inr (last_opt seqs)"
    using read_last_seq_file [OF f, of toy_wal_codec] toy_bytes_lines(2) [OF assms(3)] by simp
  show "first_seq_in_file toy_wal_codec (toy_dir fls) [n] = (case seqs of [] \<Rightarrow> None | s # _ \<Rightarrow> Some s)"
    using f toy_bytes_lines(1) [OF assms(3)]
    by (simp add: first_seq_in_file_def first_seq_lines_records flip: file_records_def) (simp add: toy_line_def split: list.split)
qed

lemma toy_dir_names:
  "list_all (\<lambda>(n, _). is_jsonl n) fls \<Longrightarrow> \<exists>ns. read_dir (toy_dir fls) [] = Inr ns \<and> filter is_jsonl ns = map fst fls"
  using manifest_not_jsonl
  by (auto simp: read_dir_def toy_dir_def is_dir_def fs_get_def filter_map comp_def split_beta list_all_iff
      intro!: filter_True)

lemma toy_sound:
  assumes "\<forall>s \<in> set bs. s < 5" "fls = (lit ''a.jsonl'', [5]) # (if bs = [] then [] else [(lit ''b.jsonl'', bs)])"
  shows "max_sound toy_wal_codec toy_env (toy_dir fls) [] toy_manifest"
proof -
  have js: "list_all (\<lambda>(n, _). is_jsonl n) fls" using a_jsonl assms(2) by simp
  obtain ns where ns: "read_dir (toy_dir fls) [] = Inr ns" "filter is_jsonl ns = map fst fls"
    using toy_dir_names [OF js] by blast
  have ba: "lit ''b.jsonl'' \<noteq> lit ''a.jsonl''" by (simp add: lit_def)
  have small: "\<forall>s \<in> set bs. s \<le> u64_max" using assms(1) by (auto simp: u64_max_def)
  have a: "read_last_seq toy_wal_codec (toy_dir fls) [lit ''a.jsonl''] = Inr (Some 5)"
    using toy_dir_last(1) [OF a_jsonl(1), of fls "[5]"] assms(2) by (simp add: u64_max_def last_opt_def)
  have b: "bs \<noteq> [] \<Longrightarrow> read_last_seq toy_wal_codec (toy_dir fls) [lit ''b.jsonl''] = Inr (Some (last bs))"
    using toy_dir_last(1) [OF a_jsonl(2), of fls bs] assms(2) small ba by (auto simp: last_opt_def)
  have l: "bs \<noteq> [] \<Longrightarrow> last bs < 5" using assms(1) by simp
  have "file_len (toy_dir fls) [lit ''a.jsonl''] = Some (length (toy_bytes [5]))"
    using toy_dir_get [OF a_jsonl(1), of fls] assms(2) by (simp add: file_len_def)
  then show ?thesis
    unfolding max_sound_def
    by (intro exI [of _ ns]) (use ns a b l assms(2) in \<open>auto simp: toy_manifest_def toy_env_def
        jsonl_file_set_fingerprint_def best_def at_file_def last_of_def len_or_0_def
        split: if_splits dest: less_imp_le\<close>)
qed

lemma toy_scan_dir:
  assumes "read_last_seq toy_wal_codec (toy_dir [(lit ''a.jsonl'', [5, 6])]) [lit ''a.jsonl''] = Inr (Some 6)"
  shows "scan_max_seq_detailed toy_wal_codec (toy_dir [(lit ''a.jsonl'', [5, 6])]) [] = Inr (Some 6)"
proof -
  let ?fls = "[(lit ''a.jsonl'', [5::nat, 6])]"
  obtain ns where ns: "read_dir (toy_dir ?fls) [] = Inr ns" "filter is_jsonl ns = map fst ?fls"
    using toy_dir_names [of ?fls] a_jsonl by auto
  show ?thesis
    by (rule scan_max_seq_detailed_iff [OF ns(1)])
      (use assms in \<open>auto simp: ns(2) best_def last_of_def\<close>)
qed

theorem wal_max_seq_true_value_witness:
  "snd (wal_max_seq toy_wal_codec toy_env [] (\<lambda>_. False) [] (toy_dir [(lit ''a.jsonl'', [5, 6])])) = Inr (Some 6)"
proof -
  let ?fs = "toy_dir [(lit ''a.jsonl'', [5, 6])]" and ?old = "toy_dir [(lit ''a.jsonl'', [5])]"
  have r: "read_last_seq toy_wal_codec ?fs [lit ''a.jsonl''] = Inr (Some 6)"
    using toy_dir_last(1) [OF a_jsonl(1), of "[(lit ''a.jsonl'', [5, 6])]" "[5, 6]"] by (simp add: u64_max_def last_opt_def)
  have s: "max_sound toy_wal_codec toy_env ?old [] toy_manifest" by (rule toy_sound [of "[]"]) simp_all
  have n: "no_collision toy_env ?old ?fs []"
    using toy_dir_names [of "[(lit ''a.jsonl'', [5, 6])]"] toy_dir_names [of "[(lit ''a.jsonl'', [5])]"] a_jsonl
    by (auto simp: no_collision_def simp flip: set_filter)
  have len: "length (toy_bytes [5, 6]) \<noteq> length (toy_bytes [5])"
    by (simp add: toy_bytes_def chunk_data_def)
  have g: "only_max_grew [] toy_manifest ?old ?fs"
    unfolding only_max_grew_def
    using toy_dir_get [of _ "[(lit ''a.jsonl'', [5, 6])]"] toy_dir_get [of _ "[(lit ''a.jsonl'', [5])]"] len
    by (auto simp: toy_manifest_def file_len_def)
  have "\<exists>fs0. max_sound toy_wal_codec toy_env fs0 [] mf \<and> no_collision toy_env fs0 ?fs [] \<and> only_max_grew [] mf fs0 ?fs"
    if "read_wal_bounds_manifest toy_env ?fs [] = Some mf" for mf
    using that s n g toy_dir_manifest by auto
  from wal_max_seq_true_value [where c = toy_wal_codec and fs = ?fs, OF this] toy_scan_dir [OF r] show ?thesis by simp
qed

theorem wal_min_seq_true_value_witness:
  "\<exists>r. snd (wal_min_seq toy_wal_codec toy_env [] (\<lambda>_. False) [] [([], Dir)]) = Inr r
     \<and> best (\<le>) (\<lambda>n. first_seq_in_file toy_wal_codec [([], Dir)] ([] @ [n])) (set (filter is_jsonl [])) r"
  by (rule wal_min_seq_true_value)
    (auto simp: read_wal_bounds_manifest_def read_file_def fs_get_def wal_bounds_manifest_path_def read_dir_def is_dir_def)

text \<open>The manifest can serve a stale maximum.  After a manifest that described the directory correctly,
  a WAL file other than the one it names is appended to, as a second writer sharing the
  directory does: the names and the size of the named file are unchanged, so \<^verbatim>\<open>wal_max_seq\<close> answers
  5 although 9 is on disk.\<close>

lemma wal_max_seq_stale:
  "max_sound toy_wal_codec toy_env (toy_dir [(lit ''a.jsonl'', [5]), (lit ''b.jsonl'', [3])]) [] toy_manifest
   \<and> snd (wal_max_seq toy_wal_codec toy_env [] (\<lambda>_. False) []
        (toy_dir [(lit ''a.jsonl'', [5]), (lit ''b.jsonl'', [3, 9])])) = Inr (Some 5)
   \<and> read_last_seq toy_wal_codec (toy_dir [(lit ''a.jsonl'', [5]), (lit ''b.jsonl'', [3, 9])]) [lit ''b.jsonl'']
       = Inr (Some 9)"
proof (intro conjI)
  let ?fls = "[(lit ''a.jsonl'', [5::nat]), (lit ''b.jsonl'', [3, 9])]"
  have ba: "lit ''b.jsonl'' \<noteq> lit ''a.jsonl''" by (simp add: lit_def)
  show "max_sound toy_wal_codec toy_env (toy_dir [(lit ''a.jsonl'', [5]), (lit ''b.jsonl'', [3])]) [] toy_manifest"
    by (rule toy_sound [of "[3]"]) simp_all
  show "read_last_seq toy_wal_codec (toy_dir ?fls) [lit ''b.jsonl''] = Inr (Some 9)"
    using toy_dir_last(1) [OF a_jsonl(2), of ?fls "[3, 9]"] ba by (simp add: u64_max_def last_opt_def)
  obtain ns where ns: "read_dir (toy_dir ?fls) [] = Inr ns"
    using toy_dir_names [of ?fls] a_jsonl by auto
  have h: "be_hash toy_env = (\<lambda>_. 0)" by (simp add: toy_env_def)
  have safe: "is_safe_wal_file_name (lit ''a.jsonl'')"
    using a_jsonl(1) by (simp add: is_safe_wal_file_name_def components_def lit_def)
  have "file_len (toy_dir ?fls) [lit ''a.jsonl''] = Some (length (toy_bytes [5]))"
    using toy_dir_get [OF a_jsonl(1), of ?fls] by (simp add: file_len_def)
  then show "snd (wal_max_seq toy_wal_codec toy_env [] (\<lambda>_. False) [] (toy_dir ?fls)) = Inr (Some 5)"
    using ns safe h
    by (simp add: wal_max_seq_def wal_max_seq_fast_path_def toy_dir_manifest current_jsonl_file_set_fingerprint_def
        toy_manifest_def jsonl_file_set_fingerprint_def)
qed

section \<open>A manifest cannot point outside the directory\<close>

lemma split_on_parts: "w \<in> set (split_on P s) \<Longrightarrow> \<forall>c \<in> set w. \<not> P c"
proof (induction s arbitrary: w)
  case (Cons c s)
  show ?case
  proof (cases "P c")
    case True
    with Cons show ?thesis by auto
  next
    case False
    with Cons.prems Cons.IH show ?thesis by (cases "split_on P s") (auto, blast)
  qed
qed simp

lemma split_on_none: "\<forall>c \<in> set s. \<not> P c \<Longrightarrow> split_on P s = [s]"
  by (induction s) auto

lemma components_parts: "Normal w \<in> set (components_rel b ps) \<Longrightarrow> w \<in> set ps"
  by (induction b ps rule: components_rel.induct) (auto split: if_splits)

text \<open>A file name taken from a manifest is used only when it is a plain WAL file name: it has no
  separator, so joining it to the directory stays directly inside it, and it has the extension
  of a WAL file; and every such name is accepted.\<close>

lemma safe_wal_file_name:
  "is_safe_wal_file_name name \<longleftrightarrow> 47 \<notin> set name \<and> is_jsonl name"
proof
  assume s: "is_safe_wal_file_name name"
  then have c: "components name = [Normal name]"
    by (cases "components name"; cases "tl (components name)")
      (auto simp: is_safe_wal_file_name_def split: component.splits)
  then have "Normal name \<in> set (components_rel (\<not> (name \<noteq> [] \<and> hd name = 47)) (split_on (\<lambda>c. c = 47) name))"
    by (auto simp: components_def split: if_splits)
  with components_parts split_on_parts s show "47 \<notin> set name \<and> is_jsonl name"
    by (fastforce simp: is_safe_wal_file_name_def)
next
  assume s: "47 \<notin> set name \<and> is_jsonl name"
  then have "split_on (\<lambda>c. c = 47) name = [name]" by (intro split_on_none) auto
  moreover have "name \<noteq> []" "name \<noteq> lit ''.''" "name \<noteq> lit ''..''"
    using s by (auto simp: is_jsonl_def extension_def lit_def)
  moreover have "hd name \<noteq> 47" using s \<open>name \<noteq> []\<close> by (metis hd_in_set)
  ultimately show "is_safe_wal_file_name name"
    using s by (simp add: is_safe_wal_file_name_def components_def)
qed

end
