(* ===== verification/Replay.thy ===== *)
theory Replay
  imports ReplayBatch WalBounds
begin

text \<open>
  Replaying a WAL directory into a database (\<^verbatim>\<open>replay.rs\<close>, \<^verbatim>\<open>replay_opts\<close>): the order of the files, the
  treatment of every line, the windows and batches, cancellation and progress callbacks, and
  the final statistics.  Progress output is left out.  The answer of the n-th call of a callback
  is a parameter; the floating-point comparison and formatting of the fidelity warning is the
  parameter \<open>fid\<close>; environment variables are the parameter \<open>env\<close>.
\<close>

section \<open>Options\<close>

record replay_options =
  o_from_seq :: nat
  o_to_seq :: "nat option"
  o_dry_run :: bool
  o_progress_fn :: "(nat \<Rightarrow> bool) option"
  o_cancel_fn :: cancel_fn
  o_failure_sample_cap :: "nat option"
  o_batch_size :: "nat option"
  o_embed_window_size :: "nat option"

type_synonym env = "rstr \<Rightarrow> rstr option"

text \<open>A value in quotes, without the escapes of \<^verbatim>\<open>Debug\<close>.\<close>

definition quoted :: "rstr \<Rightarrow> rstr" where
  "quoted v = [34] @ v @ [34]"

definition resolve_size :: "env \<Rightarrow> rstr \<Rightarrow> rstr \<Rightarrow> nat option \<Rightarrow> nat result" where
  "resolve_size env var what given =
     rbind (case given of
              Some s \<Rightarrow> Inr s
            | None \<Rightarrow>
                (case env var of
                   None \<Rightarrow> Inr 64
                 | Some v \<Rightarrow>
                     (case parse_uint u64_max v of
                        None \<Rightarrow> Inl (Config (var @ lit ''='' @ quoted v @ lit '' is not a valid integer; expected 1'' @ [8211] @ lit ''256''))
                      | Some s \<Rightarrow> Inr s)))
       (\<lambda>s. if s = 0 \<or> s > 256
            then Inl (Config (what @ lit '' size '' @ show_nat s @ lit '' is out of range; expected 1'' @ [8211] @ lit ''256''))
            else Inr s)"

definition resolve_batch_size :: "env \<Rightarrow> replay_options \<Rightarrow> nat result" where
  "resolve_batch_size env opts =
     resolve_size env (lit ''LCG_REPLAY_BATCH_SIZE'') (lit ''batch'') (o_batch_size opts)"

definition resolve_embed_window_size :: "env \<Rightarrow> replay_options \<Rightarrow> nat result" where
  "resolve_embed_window_size env opts =
     resolve_size env (lit ''LCG_REPLAY_EMBED_WINDOW_SIZE'') (lit ''embedding window'') (o_embed_window_size opts)"

definition resolve_sample_cap :: "env \<Rightarrow> replay_options \<Rightarrow> nat" where
  "resolve_sample_cap env opts =
     (case o_failure_sample_cap opts of
        Some n \<Rightarrow> n
      | None \<Rightarrow>
          (case Option.bind (env (lit ''LCG_REPLAY_FAILURE_SAMPLES'')) (parse_uint u64_max) of
             Some n \<Rightarrow> n | None \<Rightarrow> 10))"

section \<open>The fidelity warning\<close>

definition compute_fidelity_warning :: "(nat \<Rightarrow> nat \<Rightarrow> (rstr \<times> rstr) option) \<Rightarrow> replay_stats \<Rightarrow> rstr option" where
  "compute_fidelity_warning fid st =
     (let ineffective = failed_lines st + match_prefixed_no_op st + unrecognised_lines st + unparseable_lines st;
          total = lines_replayed st + failed_lines st + match_prefixed_no_op st + unrecognised_lines st
                  + unparseable_lines st
      in if total = 0 then None
         else case fid ineffective total of
           None \<Rightarrow> None
         | Some (pct, thr) \<Rightarrow>
             Some (pct @ lit ''% of mutations failed or had no effect (threshold: '' @ thr
               @ lit ''%); rebuilt graph may be incomplete (failed='' @ show_nat (failed_lines st)
               @ lit '', no-op='' @ show_nat (match_prefixed_no_op st)
               @ lit '', unrecognised='' @ show_nat (unrecognised_lines st)
               @ lit '', unparseable='' @ show_nat (unparseable_lines st) @ lit '')''))"

section \<open>The order of the files\<close>

text \<open>Files with a first number come first, by that number and then by name; the others follow by name.\<close>

definition file_key :: "nat option \<times> rstr \<Rightarrow> nat list" where
  "file_key kf = (case kf of (Some s, n) \<Rightarrow> 0 # s # n | (None, n) \<Rightarrow> 1 # n)"

definition order_files :: "wal_codec \<Rightarrow> fsys \<Rightarrow> path \<Rightarrow> rstr list \<Rightarrow> rstr list" where
  "order_files c fs wal_dir names =
     map snd (sort_key file_key (map (\<lambda>n. (first_seq_in_file c fs (wal_dir @ [n]), n)) names))"

section \<open>One line\<close>

record ('d, 'p) replay_ctx =
  x_ucd :: ucd
  x_conn :: "('d, 'p) conn"
  x_regexes :: regexes
  x_codec :: wal_codec
  x_opts :: replay_options
  x_cap :: nat
  x_batch_size :: nat
  x_window_size :: nat
  x_embed :: "rstr list \<Rightarrow> f64 list list result"
  x_dim :: nat

text \<open>The context a replay runs with.\<close>

definition ctx_of ::
  "ucd \<Rightarrow> ('d, 'p) conn \<Rightarrow> regexes \<Rightarrow> wal_codec \<Rightarrow> replay_options \<Rightarrow> nat \<Rightarrow> nat \<Rightarrow> nat \<Rightarrow>
     (rstr list \<Rightarrow> f64 list list result) \<Rightarrow> nat \<Rightarrow> ('d, 'p) replay_ctx" where
  "ctx_of U C R c opts cap bs ws E dim =
     \<lparr>x_ucd = U, x_conn = C, x_regexes = R, x_codec = c, x_opts = opts, x_cap = cap, x_batch_size = bs,
      x_window_size = ws, x_embed = E, x_dim = dim\<rparr>"

record ('d, 'p) lstate =
  ls_rs :: "('d, 'p) rstate"
  ls_window :: "replay_row list"
  ls_aborted :: bool
  ls_max_seen :: "nat option"
  ls_progress :: nat

definition on_stats :: "(replay_stats \<Rightarrow> replay_stats) \<Rightarrow> ('d, 'p) lstate \<Rightarrow> ('d, 'p) lstate" where
  "on_stats f st = st\<lparr>ls_rs := (ls_rs st)\<lparr>rs_stats := f (rs_stats (ls_rs st))\<rparr>\<rparr>"

definition is_match_prefixed :: "ucd \<Rightarrow> rstr \<Rightarrow> bool" where
  "is_match_prefixed U cypher \<longleftrightarrow>
     (let trimmed = trim_start (to_uppercase U cypher) in
      starts_with (lit ''MATCH'') trimmed
      \<and> (case drop 5 trimmed of [] \<Rightarrow> True | ch # _ \<Rightarrow> \<not> is_alphanumeric U ch \<and> ch \<noteq> 95))"

definition pending_row :: "('d, 'p) replay_ctx \<Rightarrow> wal_line \<Rightarrow> replay_row" where
  "pending_row x l =
     (let norm = strip_vecf32 (ln_cypher l);
          (norm1, params1) = promote_inline_vector_literals_to_params (x_regexes x) (value_parse (x_codec x)) norm (ln_params l);
          (norm2, params2) = expand_bulk_property_set (x_regexes x) norm1 params1;
          m = (case params2 of JObj m \<Rightarrow> m | _ \<Rightarrow> [])
      in \<lparr>r_cypher = norm2, r_params = inject_derived_lookup_key (x_ucd x) norm2 m,
          r_match_prefixed = is_match_prefixed (x_ucd x) (ln_cypher l), r_seq = ln_seq l\<rparr>)"

definition note_seq :: "nat \<Rightarrow> ('d, 'p) lstate \<Rightarrow> ('d, 'p) lstate" where
  "note_seq seq st =
     (let st1 = (case ls_max_seen st of
                   Some m \<Rightarrow> if seq \<le> m then on_stats (\<lambda>s. s\<lparr>seq_regressions := seq_regressions s + 1\<rparr>) st else st
                 | None \<Rightarrow> st)
      in st1\<lparr>ls_max_seen := opt_max (ls_max_seen st) seq\<rparr>)"

text \<open>Resolving the pending window and pushing its rows; the flag says whether a flush was cancelled.\<close>

definition drain_window :: "('d, 'p) replay_ctx \<Rightarrow> ('d, 'p) lstate \<Rightarrow> ('d, 'p) lstate \<times> bool result" where
  "drain_window x st =
     (let rs = ls_rs st;
          (resolved, stats) = resolve_embed_window (x_ucd x) (x_embed x) (x_dim x) (ls_window st) (rs_stats rs);
          (rs1, r) = push_resolved_rows (x_ucd x) (x_conn x) (x_cap x) (x_batch_size x) (o_cancel_fn (x_opts x))
                       resolved (rs\<lparr>rs_stats := stats\<rparr>)
      in (st\<lparr>ls_rs := rs1, ls_window := []\<rparr>, r))"

definition take_row :: "('d, 'p) replay_ctx \<Rightarrow> wal_line \<Rightarrow> ('d, 'p) lstate \<Rightarrow> ('d, 'p) lstate \<times> bool result" where
  "take_row x l st =
     (if o_dry_run (x_opts x)
      then (on_stats (\<lambda>s. s\<lparr>lines_replayed := lines_replayed s + 1,
               match_prefixed_replayed := match_prefixed_replayed s
                 + (if is_match_prefixed (x_ucd x) (ln_cypher l) then 1 else 0)\<rparr>) st, Inr False)
      else
        (let st1 = st\<lparr>ls_window := ls_window st @ [pending_row x l]\<rparr> in
         if length (ls_window st1) \<ge> x_window_size x then drain_window x st1 else (st1, Inr False)))"

definition ask_progress :: "('d, 'p) replay_ctx \<Rightarrow> ('d, 'p) lstate \<Rightarrow> ('d, 'p) lstate \<times> bool" where
  "ask_progress x st =
     (case o_progress_fn (x_opts x) of
        None \<Rightarrow> (st, True)
      | Some f \<Rightarrow> (st\<lparr>ls_progress := ls_progress st + 1\<rparr>, f (ls_progress st)))"

text \<open>The polls after a line has been taken; the flag says whether the loop over the files ends.\<close>

definition after_row :: "('d, 'p) replay_ctx \<Rightarrow> nat \<Rightarrow> ('d, 'p) lstate \<Rightarrow> ('d, 'p) lstate \<times> bool" where
  "after_row x mutations_in_file st =
     (case poll (o_cancel_fn (x_opts x)) (rs_polls (ls_rs st)) of
        (cancelled, n) \<Rightarrow>
          (let st1 = st\<lparr>ls_rs := (ls_rs st)\<lparr>rs_polls := n\<rparr>\<rparr> in
           if cancelled then (st1\<lparr>ls_window := [], ls_aborted := True\<rparr>, True)
           else if mutations_in_file mod 1000 = 0
           then (case ask_progress x st1 of
                   (st2, True) \<Rightarrow> (st2, False)
                 | (st2, False) \<Rightarrow> (st2\<lparr>ls_aborted := True\<rparr>, True))
           else (st1, False)))"

text \<open>The result is the new count of mutations in the file and whether the loop over the files ends.\<close>

definition process_line ::
  "('d, 'p) replay_ctx \<Rightarrow> bytes \<Rightarrow> nat \<Rightarrow> ('d, 'p) lstate \<Rightarrow> ('d, 'p) lstate \<times> (nat \<times> bool) result" where
  "process_line x raw_bytes mutations st =
     (case from_utf8 raw_bytes of
        None \<Rightarrow> (on_stats (\<lambda>s. s\<lparr>unparseable_lines := unparseable_lines s + 1\<rparr>) st, Inr (mutations, False))
      | Some text \<Rightarrow>
          (let raw = trim text in
           if raw = [] then (st, Inr (mutations, False))
           else case line_parse (x_codec x) raw of
             None \<Rightarrow> (on_stats (\<lambda>s. s\<lparr>unparseable_lines := unparseable_lines s + 1\<rparr>) st, Inr (mutations, False))
           | Some l \<Rightarrow>
               if ln_seq l < o_from_seq (x_opts x) then (st, Inr (mutations, False))
               else if (case o_to_seq (x_opts x) of Some to_seq \<Rightarrow> ln_seq l > to_seq | None \<Rightarrow> False)
               then (st, Inr (mutations, False))
               else
                 (let st1 = note_seq (ln_seq l) st in
                  if \<not> is_known (x_ucd x) (ln_cypher l)
                  then (on_stats (\<lambda>s. s\<lparr>unrecognised_lines := unrecognised_lines s + 1\<rparr>) st1, Inr (mutations, False))
                  else case take_row x l st1 of
                    (st2, Inl e) \<Rightarrow> (st2, Inl e)
                  | (st2, Inr True) \<Rightarrow> (st2\<lparr>ls_aborted := True\<rparr>, Inr (mutations, True))
                  | (st2, Inr False) \<Rightarrow>
                      (case after_row x (mutations + 1) st2 of (st3, stop) \<Rightarrow> (st3, Inr (mutations + 1, stop))))))"

fun process_lines ::
  "('d, 'p) replay_ctx \<Rightarrow> bytes list \<Rightarrow> nat \<Rightarrow> ('d, 'p) lstate \<Rightarrow> ('d, 'p) lstate \<times> bool result" where
  "process_lines x [] mutations st = (st, Inr False)"
| "process_lines x (l # ls) mutations st =
     (case process_line x l mutations st of
        (st1, Inl e) \<Rightarrow> (st1, Inl e)
      | (st1, Inr (mutations1, True)) \<Rightarrow> (st1, Inr True)
      | (st1, Inr (mutations1, False)) \<Rightarrow> process_lines x ls mutations1 st1)"

section \<open>All files\<close>

definition flush_if_live :: "('d, 'p) replay_ctx \<Rightarrow> ('d, 'p) lstate \<Rightarrow> ('d, 'p) lstate \<times> bool result" where
  "flush_if_live x st =
     (if o_dry_run (x_opts x) then (st, Inr False)
      else (case flush_batch (x_ucd x) (x_conn x) (x_cap x) (o_cancel_fn (x_opts x)) (ls_rs st) of
              (rs1, r) \<Rightarrow> (st\<lparr>ls_rs := rs1\<rparr>, r)))"

fun process_files ::
  "('d, 'p) replay_ctx \<Rightarrow> fsys \<Rightarrow> path \<Rightarrow> rstr list \<Rightarrow> ('d, 'p) lstate \<Rightarrow> ('d, 'p) lstate \<times> unit result" where
  "process_files x fs wal_dir [] st = (st, Inr ())"
| "process_files x fs wal_dir (n # ns) st =
     (case ask_progress x (on_stats (\<lambda>s. s\<lparr>files_read := files_read s + 1\<rparr>) st) of
        (st1, False) \<Rightarrow> (st1\<lparr>ls_aborted := True\<rparr>, Inr ())
      | (st1, True) \<Rightarrow>
          (case read_file fs (wal_dir @ [n]) of
             Inl _ \<Rightarrow> process_files x fs wal_dir ns st1
           | Inr b \<Rightarrow>
               (case process_lines x (lines b) 0 st1 of
                  (st2, Inl e) \<Rightarrow> (st2, Inl e)
                | (st2, Inr True) \<Rightarrow> (st2, Inr ())
                | (st2, Inr False) \<Rightarrow>
                    (case flush_if_live x st2 of
                       (st3, Inl e) \<Rightarrow> (st3, Inl e)
                     | (st3, Inr True) \<Rightarrow> (st3\<lparr>ls_aborted := True\<rparr>, Inr ())
                     | (st3, Inr False) \<Rightarrow> process_files x fs wal_dir ns st3))))"

text \<open>The last window and the last batch.\<close>

definition finish :: "('d, 'p) replay_ctx \<Rightarrow> ('d, 'p) lstate \<Rightarrow> ('d, 'p) lstate \<times> unit result" where
  "finish x st =
     (case (if \<not> o_dry_run (x_opts x) \<and> \<not> ls_aborted st \<and> ls_window st \<noteq> [] then drain_window x st
            else (st, Inr False)) of
        (st1, Inl e) \<Rightarrow> (st1, Inl e)
      | (st1, Inr _) \<Rightarrow>
          (case flush_if_live x st1 of
             (st2, Inl e) \<Rightarrow> (st2, Inl e)
           | (st2, Inr _) \<Rightarrow> (st2, Inr ())))"

definition start_state :: "'d \<Rightarrow> ('d, 'p) lstate" where
  "start_state db = \<lparr>ls_rs = \<lparr>rs_db = db, rs_stats = zero_stats, rs_batch = empty_batch, rs_cache = None, rs_polls = 0\<rparr>,
     ls_window = [], ls_aborted = False, ls_max_seen = None, ls_progress = 0\<rparr>"

text \<open>
  A directory with the name of a WAL file opens like a file, but every attempt to read a line
  from it fails, and the loop that skips failed lines never ends: the result is then \<open>None\<close>.
\<close>

definition replay_opts ::
  "ucd \<Rightarrow> ('d, 'p) conn \<Rightarrow> regexes \<Rightarrow> wal_codec \<Rightarrow> env \<Rightarrow> (nat \<Rightarrow> nat \<Rightarrow> (rstr \<times> rstr) option) \<Rightarrow>
     (rstr list \<Rightarrow> f64 list list result) \<Rightarrow> nat \<Rightarrow> replay_options \<Rightarrow> fsys \<Rightarrow> path \<Rightarrow> 'd \<Rightarrow>
     ('d \<times> replay_stats result) option" where
  "replay_opts U C R c env fid embed_fn dim opts fs wal_dir db =
     (if (case o_to_seq opts of Some to_seq \<Rightarrow> to_seq < o_from_seq opts | None \<Rightarrow> False)
      then Some (db, Inl (Config (lit ''invalid ReplayOptions: to_seq ('' @ show_nat (the (o_to_seq opts))
             @ lit '') must not be less than from_seq ('' @ show_nat (o_from_seq opts) @ lit '')'')))
      else case resolve_batch_size env opts of
        Inl e \<Rightarrow> Some (db, Inl e)
      | Inr batch_size \<Rightarrow>
          (case resolve_embed_window_size env opts of
             Inl e \<Rightarrow> Some (db, Inl e)
           | Inr window_size \<Rightarrow>
               if \<not> fs_exists fs wal_dir then Some (db, Inr zero_stats)
               else (case wal_files fs wal_dir of
                  Inl e \<Rightarrow> Some (db, Inl e)
                | Inr names \<Rightarrow>
                    if list_ex (\<lambda>n. is_dir fs (wal_dir @ [n])) names then None
                    else
                      (let x = ctx_of U C R c opts (resolve_sample_cap env opts) batch_size window_size embed_fn dim
                       in case process_files x fs wal_dir (order_files c fs wal_dir names) (start_state db) of
                            (st, Inl e) \<Rightarrow> Some (rs_db (ls_rs st), Inl e)
                          | (st, Inr _) \<Rightarrow>
                              (case finish x st of
                                 (st1, Inl e) \<Rightarrow> Some (rs_db (ls_rs st1), Inl e)
                               | (st1, Inr _) \<Rightarrow>
                                   (let stats = rs_stats (ls_rs st1) in
                                    Some (rs_db (ls_rs st1),
                                          Inr (stats\<lparr>fidelity_warning := compute_fidelity_warning fid stats\<rparr>))))))))"

section \<open>What becomes of a line\<close>

datatype line_class = Blank | Unparseable | OutOfRange | Unrecognised wal_line | Row wal_line

definition line_class :: "('d, 'p) replay_ctx \<Rightarrow> bytes \<Rightarrow> line_class" where
  "line_class x b =
     (case from_utf8 b of
        None \<Rightarrow> Unparseable
      | Some text \<Rightarrow>
          if trim text = [] then Blank
          else case line_parse (x_codec x) (trim text) of
            None \<Rightarrow> Unparseable
          | Some l \<Rightarrow>
              if ln_seq l < o_from_seq (x_opts x)
                 \<or> (case o_to_seq (x_opts x) of Some t \<Rightarrow> ln_seq l > t | None \<Rightarrow> False) then OutOfRange
              else if is_known (x_ucd x) (ln_cypher l) then Row l else Unrecognised l)"

fun is_row :: "line_class \<Rightarrow> bool" where
  "is_row (Row _) = True" | "is_row _ = False"

fun is_unrec :: "line_class \<Rightarrow> bool" where
  "is_unrec (Unrecognised _) = True" | "is_unrec _ = False"

definition row_of :: "('d, 'p) replay_ctx \<Rightarrow> bytes \<Rightarrow> replay_row list" where
  "row_of x b = (case line_class x b of Row l \<Rightarrow> [pending_row x l] | _ \<Rightarrow> [])"

text \<open>A run that nobody interrupts.\<close>

definition quiet :: "('d, 'p) replay_ctx \<Rightarrow> bool" where
  "quiet x \<longleftrightarrow> o_cancel_fn (x_opts x) = None \<and> o_progress_fn (x_opts x) = None"

lemma process_line_cases:
  "process_line x b m st =
     (case line_class x b of
        Blank \<Rightarrow> (st, Inr (m, False))
      | Unparseable \<Rightarrow> (on_stats (\<lambda>s. s\<lparr>unparseable_lines := unparseable_lines s + 1\<rparr>) st, Inr (m, False))
      | OutOfRange \<Rightarrow> (st, Inr (m, False))
      | Unrecognised l \<Rightarrow>
          (on_stats (\<lambda>s. s\<lparr>unrecognised_lines := unrecognised_lines s + 1\<rparr>) (note_seq (ln_seq l) st), Inr (m, False))
      | Row l \<Rightarrow>
          (case take_row x l (note_seq (ln_seq l) st) of
             (st2, Inl e) \<Rightarrow> (st2, Inl e)
           | (st2, Inr True) \<Rightarrow> (st2\<lparr>ls_aborted := True\<rparr>, Inr (m, True))
           | (st2, Inr False) \<Rightarrow> (case after_row x (m + 1) st2 of (st3, stop) \<Rightarrow> (st3, Inr (m + 1, stop)))))"
  by (auto simp: process_line_def line_class_def Let_def split: option.split)

lemma after_row_quiet: "quiet x \<Longrightarrow> after_row x m st = (st, False)"
  by (simp add: after_row_def quiet_def poll_def ask_progress_def)

section \<open>Conservation\<close>

lemma resolve_at_length: "length (resolve_at U dim tg v ros) = length ros"
  by (simp add: resolve_at_def)

lemma fold_length:
  assumes "\<And>y acc. length (fst (f y acc)) = length (fst acc) \<and> P (snd acc) (snd (f y acc))"
    and "\<And>a. P a a" "\<And>a b c. P a b \<Longrightarrow> P b c \<Longrightarrow> P a c"
  shows "length (fst (fold f ys acc)) = length (fst acc) \<and> P (snd acc) (snd (fold f ys acc))"
proof (induction ys arbitrary: acc)
  case (Cons y ys)
  show ?case using Cons [of "f y acc"] assms(1) [of y acc] assms(3) by auto
qed (use assms(2) in simp)

text \<open>The counters of lines are not touched while embeddings are resolved.\<close>

definition same_lines :: "replay_stats \<Rightarrow> replay_stats \<Rightarrow> bool" where
  "same_lines st st' \<longleftrightarrow> accounted st' = accounted st \<and> kept st st' \<and> calm st st'"

lemma same_lines_refl: "same_lines a a"
  by (simp add: same_lines_def calm_def)

lemma same_lines_trans: "same_lines a b \<Longrightarrow> same_lines b c \<Longrightarrow> same_lines a c"
  unfolding same_lines_def using kept_trans calm_trans by metis

lemma resolve_failed_same:
  "length (fst (resolve_failed U dim tg acc)) = length (fst acc) \<and> same_lines (snd acc) (snd (resolve_failed U dim tg acc))"
  by (simp add: resolve_failed_def resolve_at_length same_lines_def accounted_def kept_def calm_def)

lemma resolve_vector_same:
  "length (fst (resolve_vector U dim tv acc)) = length (fst acc) \<and> same_lines (snd acc) (snd (resolve_vector U dim tv acc))"
proof (cases "validate_recomputed_vector (snd tv) dim")
  case (Inl e)
  with resolve_failed_same [of U dim "fst tv" acc] show ?thesis by (simp add: resolve_vector_def)
next
  case (Inr j)
  then show ?thesis
    by (simp add: resolve_vector_def resolve_at_length same_lines_def accounted_def kept_def calm_def)
qed

lemma fold_resolve_same:
  "length (fst (fold (resolve_failed U dim) ys acc)) = length (fst acc) \<and> same_lines (snd acc) (snd (fold (resolve_failed U dim) ys acc))"
  "length (fst (fold (resolve_vector U dim) zs acc)) = length (fst acc) \<and> same_lines (snd acc) (snd (fold (resolve_vector U dim) zs acc))"
  by (rule fold_length [where P = same_lines]; (rule resolve_failed_same resolve_vector_same same_lines_refl | erule (1) same_lines_trans))+

lemma window_conserves:
  assumes "resolve_embed_window U E dim rows st = (res, st')"
  shows "length res + embeddings_skip_rows st' = length rows + embeddings_skip_rows st \<and> accounted st' = accounted st
    \<and> unparseable_lines st' = unparseable_lines st \<and> unrecognised_lines st' = unrecognised_lines st \<and> calm st st'"
proof -
  let ?q = "queued_of (window_requests rows)"
  define ros1 where "ros1 = fold (\<lambda>tg. resolve_at U dim tg None) (immediate_of (window_requests rows)) (map (\<lambda>r. (r, Proceed)) rows)"
  define st1 where "st1 = st\<lparr>embed_calls := embed_calls st + length ?q,
      embeddings_recompute_skipped_no_text := embeddings_recompute_skipped_no_text st + length (immediate_of (window_requests rows))\<rparr>"
  define acc where "acc = (if ?q = [] then (ros1, st1)
             else case E (map snd ?q) of
               Inr vectors \<Rightarrow>
                 if length vectors = length ?q
                 then fold (resolve_vector U dim) (zip (map fst ?q) vectors) (ros1, st1)
                 else fold (resolve_failed U dim) (map fst ?q) (ros1, st1)
             | Inl _ \<Rightarrow> fold (resolve_failed U dim) (map fst ?q) (ros1, st1))"
  have l1: "length ros1 = length rows"
  proof -
    have "length (fold (\<lambda>tg. resolve_at U dim tg None) ts xs) = length xs" for ts xs
      by (induction ts arbitrary: xs) (simp_all add: resolve_at_length)
    then show ?thesis by (simp add: ros1_def)
  qed
  have "length (fst acc) = length (fst (ros1, st1)) \<and> same_lines (snd (ros1, st1)) (snd acc)"
    unfolding acc_def
    using fold_resolve_same [of U dim _ "(ros1, st1)"]
    by (auto simp: same_lines_refl split: sum.split)
  then have acc: "length (fst acc) = length rows" "same_lines st1 (snd acc)" using l1 by simp_all
  have r: "res = map fst (filter (\<lambda>(r, out). out = Proceed) (fst acc))"
    "st' = (snd acc)\<lparr>embeddings_skip_rows := embeddings_skip_rows (snd acc) + length (filter (\<lambda>(r, out). out = Skip) (fst acc))\<rparr>"
    using assms unfolding resolve_embed_window_def Let_def ros1_def [symmetric] st1_def [symmetric] acc_def [symmetric]
    by (auto simp: split_beta)
  have f: "filter (\<lambda>(r, out). out = Skip) xs = filter (\<lambda>y. \<not> (\<lambda>(r, out). out = Proceed) y) xs" for xs :: "(replay_row \<times> row_embedding_outcome) list"
    by (rule filter_cong) (auto intro: row_embedding_outcome.exhaust)
  have "length (filter (\<lambda>(r, out). out = Proceed) (fst acc)) + length (filter (\<lambda>(r, out). out = Skip) (fst acc)) = length (fst acc)"
    unfolding f by (rule sum_length_filter_compl)
  with r acc show ?thesis
    by (auto simp: same_lines_def kept_def calm_def accounted_def st1_def)
qed

lemma flush_not_cancelled:
  assumes "flush_batch U C cap None s = (s', Inr b)"
  shows "\<not> b"
proof -
  have "exec_rows C None p up del rows d n lc \<noteq> RowsCancelled d' n'" for p up del rows d n lc d' n'
    by (induction rows arbitrary: d n lc) (auto simp: poll_def split: prod.splits sum.splits if_splits)
  with assms show ?thesis
    by (auto simp: flush_batch_def Let_def split: if_splits prod.splits option.splits sum.splits row_end.splits)
qed

lemma push_counts:
  "batch_ok (rs_batch s) \<Longrightarrow> push_resolved_rows U C cap bs None rows s = (s', Inr b) \<Longrightarrow>
     \<not> b \<and> accounted (rs_stats s') + length (b_rows (rs_batch s'))
           = accounted (rs_stats s) + length (b_rows (rs_batch s)) + length rows
     \<and> batch_ok (rs_batch s') \<and> kept (rs_stats s) (rs_stats s')"
proof (induction rows arbitrary: s)
  case (Cons r rows)
  let ?c1 = "b_rows (rs_batch s) \<noteq> [] \<and> b_template (rs_batch s) \<noteq> r_cypher r"
  obtain s1 b1 where s1: "(if ?c1 then flush_batch U C cap None s else (s, Inr False)) = (s1, Inr b1)"
    using Cons.prems(2) by (auto split: prod.splits sum.splits if_splits)
  have i1: "\<not> b1 \<and> accounted (rs_stats s1) + length (b_rows (rs_batch s1)) = accounted (rs_stats s) + length (b_rows (rs_batch s))
      \<and> batch_ok (rs_batch s1) \<and> kept (rs_stats s) (rs_stats s1)"
    using s1 flush_batch_counts [OF Cons.prems(1), of U C cap None s1 b1] flush_not_cancelled [of U C cap s s1 b1] Cons.prems(1)
    by (cases ?c1) simp_all
  define s2 where "s2 = s1\<lparr>rs_batch := push_row r (rs_batch s1)\<rparr>"
  have ok2: "batch_ok (rs_batch s2)" using i1 by (simp add: s2_def batch_ok_push)
  obtain s3 b3 where s3: "(if length (b_rows (rs_batch s2)) \<ge> bs then flush_batch U C cap None s2 else (s2, Inr False)) = (s3, Inr b3)"
    using Cons.prems(2) s1 i1 by (auto simp: s2_def Let_def split: prod.splits sum.splits if_splits)
  have i3: "\<not> b3 \<and> accounted (rs_stats s3) + length (b_rows (rs_batch s3)) = accounted (rs_stats s2) + length (b_rows (rs_batch s2))
      \<and> batch_ok (rs_batch s3) \<and> kept (rs_stats s2) (rs_stats s3)"
    using s3 flush_batch_counts [OF ok2, of U C cap None s3 b3] flush_not_cancelled [of U C cap s2 s3 b3] ok2
    by (cases "length (b_rows (rs_batch s2)) \<ge> bs") simp_all
  have "push_resolved_rows U C cap bs None rows s3 = (s', Inr b)"
    using Cons.prems(2) i1 i3 unfolding push_resolved_rows.simps s1 prod.case sum.case bool.case Let_def s2_def [symmetric] s3
    by (simp split: bool.splits)
  from Cons.IH [OF _ this] i1 i3 show ?case
    by (auto simp: s2_def push_row_def kept_def)
qed simp

text \<open>What the lines taken so far add up to.\<close>

definition line_counts :: "('d, 'p) lstate \<Rightarrow> nat \<times> nat \<times> nat" where
  "line_counts st =
     (let s = rs_stats (ls_rs st) in
      (unparseable_lines s, unrecognised_lines s,
       accounted s + embeddings_skip_rows s + length (b_rows (rs_batch (ls_rs st))) + length (ls_window st)))"

definition class_counts :: "line_class list \<Rightarrow> nat \<times> nat \<times> nat" where
  "class_counts cs = (length (filter (\<lambda>c. c = Unparseable) cs), length (filter is_unrec cs), length (filter is_row cs))"

definition plus3 :: "nat \<times> nat \<times> nat \<Rightarrow> nat \<times> nat \<times> nat \<Rightarrow> nat \<times> nat \<times> nat" where
  "plus3 a b = (fst a + fst b, fst (snd a) + fst (snd b), snd (snd a) + snd (snd b))"

lemma plus3_assoc: "plus3 (plus3 a b) c = plus3 a (plus3 b c)"
  by (simp add: plus3_def)

lemma class_counts_append: "class_counts (xs @ ys) = plus3 (class_counts xs) (class_counts ys)"
  by (simp add: class_counts_def plus3_def)

lemma class_counts_Nil: "plus3 a (class_counts []) = a"
  by (simp add: class_counts_def plus3_def)

lemma drain_counts:
  assumes q: "quiet x" and ok: "batch_ok (rs_batch (ls_rs st))" and d: "drain_window x st = (st', Inr b)"
  shows "\<not> b \<and> line_counts st' = line_counts st \<and> batch_ok (rs_batch (ls_rs st')) \<and> ls_window st' = []
    \<and> ls_aborted st' = ls_aborted st"
proof -
  obtain res stats where w: "resolve_embed_window (x_ucd x) (x_embed x) (x_dim x) (ls_window st) (rs_stats (ls_rs st)) = (res, stats)"
    by fastforce
  obtain rs1 where p: "push_resolved_rows (x_ucd x) (x_conn x) (x_cap x) (x_batch_size x) None res ((ls_rs st)\<lparr>rs_stats := stats\<rparr>)
      = (rs1, Inr b)" and st': "st' = st\<lparr>ls_rs := rs1, ls_window := []\<rparr>"
    using d w q by (auto simp: drain_window_def quiet_def split: prod.splits)
  have "batch_ok (rs_batch ((ls_rs st)\<lparr>rs_stats := stats\<rparr>))" using ok by simp
  note pc = push_counts [OF this p]
  from pc window_conserves [OF w] st' show ?thesis
    by (auto simp: line_counts_def Let_def kept_def)
qed

lemma note_seq_counts:
  "line_counts (note_seq q st) = line_counts st" "rs_batch (ls_rs (note_seq q st)) = rs_batch (ls_rs st)"
  "ls_window (note_seq q st) = ls_window st" "ls_aborted (note_seq q st) = ls_aborted st"
  "rs_db (ls_rs (note_seq q st)) = rs_db (ls_rs st)" "rs_cache (ls_rs (note_seq q st)) = rs_cache (ls_rs st)"
  "calm (rs_stats (ls_rs st)) (rs_stats (ls_rs (note_seq q st)))"
  by (auto simp: note_seq_def on_stats_def line_counts_def accounted_def calm_def Let_def split: option.splits)

lemma take_row_counts:
  assumes q: "quiet x" and nd: "\<not> o_dry_run (x_opts x)" and ok: "batch_ok (rs_batch (ls_rs st))"
    and t: "take_row x l st = (st', Inr b)"
  shows "\<not> b \<and> line_counts st' = plus3 (line_counts st) (0, 0, 1) \<and> batch_ok (rs_batch (ls_rs st')) \<and> ls_aborted st' = ls_aborted st"
proof -
  let ?st1 = "st\<lparr>ls_window := ls_window st @ [pending_row x l]\<rparr>"
  have lc: "line_counts ?st1 = plus3 (line_counts st) (0, 0, 1)" by (simp add: line_counts_def plus3_def Let_def)
  have ok1: "batch_ok (rs_batch (ls_rs ?st1))" using ok by simp
  show ?thesis
    using t nd lc drain_counts [OF q ok1] ok by (auto simp: take_row_def Let_def split: if_splits)
qed

lemma process_line_counts:
  assumes q: "quiet x" and nd: "\<not> o_dry_run (x_opts x)" and ok: "batch_ok (rs_batch (ls_rs st))"
    and p: "process_line x l m st = (st', Inr (m', stop))"
  shows "\<not> stop \<and> line_counts st' = plus3 (line_counts st) (class_counts [line_class x l]) \<and> batch_ok (rs_batch (ls_rs st'))
    \<and> ls_aborted st' = ls_aborted st"
proof (cases "line_class x l")
  case (Row w)
  have ok1: "batch_ok (rs_batch (ls_rs (note_seq (ln_seq w) st)))" using ok by (simp add: note_seq_counts)
  obtain st2 b where t: "take_row x w (note_seq (ln_seq w) st) = (st2, Inr b)"
    using p Row by (auto simp: process_line_cases split: prod.splits sum.splits)
  note tc = take_row_counts [OF q nd ok1 t]
  then have "st' = st2" "\<not> stop" using p Row t after_row_quiet [OF q] by (auto simp: process_line_cases)
  with tc Row show ?thesis by (simp add: class_counts_def note_seq_counts)
qed (use p ok in \<open>auto simp: process_line_cases class_counts_def line_counts_def on_stats_def plus3_def Let_def
    note_seq_def accounted_def split: option.splits if_splits\<close>)

lemma process_lines_counts:
  assumes q: "quiet x" and nd: "\<not> o_dry_run (x_opts x)"
  shows "batch_ok (rs_batch (ls_rs st)) \<Longrightarrow> process_lines x ls m st = (st', Inr stop) \<Longrightarrow>
    \<not> stop \<and> line_counts st' = plus3 (line_counts st) (class_counts (map (line_class x) ls)) \<and> batch_ok (rs_batch (ls_rs st'))
    \<and> ls_aborted st' = ls_aborted st"
proof (induction ls arbitrary: m st)
  case (Cons l ls)
  obtain st1 m1 b where p: "process_line x l m st = (st1, Inr (m1, b))"
    using Cons.prems(2) by (auto split: prod.splits sum.splits)
  note pc = process_line_counts [OF q nd Cons.prems(1) p]
  then have "process_lines x ls m1 st1 = (st', Inr stop)" using Cons.prems(2) p by simp
  from Cons.IH [OF _ this] pc show ?case
    using class_counts_append [of "[line_class x l]" "map (line_class x) ls"] by (simp add: plus3_assoc)
qed (simp add: class_counts_Nil)

definition file_lines :: "fsys \<Rightarrow> path \<Rightarrow> rstr \<Rightarrow> bytes list" where
  "file_lines fs wal_dir n = (case read_file fs (wal_dir @ [n]) of Inl _ \<Rightarrow> [] | Inr b \<Rightarrow> lines b)"

lemma flush_if_live_counts:
  assumes q: "quiet x" and nd: "\<not> o_dry_run (x_opts x)" and ok: "batch_ok (rs_batch (ls_rs st))"
    and f: "flush_if_live x st = (st', Inr b)"
  shows "\<not> b \<and> line_counts st' = line_counts st \<and> batch_ok (rs_batch (ls_rs st')) \<and> b_rows (rs_batch (ls_rs st')) = []
    \<and> ls_window st' = ls_window st \<and> ls_aborted st' = ls_aborted st"
proof -
  obtain rs1 where r: "flush_batch (x_ucd x) (x_conn x) (x_cap x) None (ls_rs st) = (rs1, Inr b)" "st' = st\<lparr>ls_rs := rs1\<rparr>"
    using f q nd by (auto simp: flush_if_live_def quiet_def split: prod.splits)
  from flush_batch_counts [OF ok r(1)] flush_not_cancelled [OF r(1)] r(2) show ?thesis
    by (auto simp: line_counts_def kept_def Let_def)
qed

lemma ask_progress_quiet: "quiet x \<Longrightarrow> ask_progress x st = (st, True)"
  by (simp add: ask_progress_def quiet_def)

lemma on_files_read:
  "line_counts (on_stats (\<lambda>s. s\<lparr>files_read := Suc (files_read s)\<rparr>) st) = line_counts st"
  "rs_batch (ls_rs (on_stats f st)) = rs_batch (ls_rs st)" "ls_window (on_stats f st) = ls_window st"
  "ls_aborted (on_stats f st) = ls_aborted st" "rs_db (ls_rs (on_stats f st)) = rs_db (ls_rs st)"
  "rs_cache (ls_rs (on_stats f st)) = rs_cache (ls_rs st)"
  by (simp_all add: on_stats_def line_counts_def accounted_def Let_def)

lemma process_files_counts:
  assumes q: "quiet x" and nd: "\<not> o_dry_run (x_opts x)"
  shows "batch_ok (rs_batch (ls_rs st)) \<Longrightarrow> process_files x fs d ns st = (st', Inr ()) \<Longrightarrow>
    line_counts st' = plus3 (line_counts st) (class_counts (map (line_class x) (concat (map (file_lines fs d) ns))))
    \<and> batch_ok (rs_batch (ls_rs st')) \<and> ls_aborted st' = ls_aborted st"
proof (induction ns arbitrary: st)
  case (Cons n ns)
  let ?st1 = "on_stats (\<lambda>s. s\<lparr>files_read := files_read s + 1\<rparr>) st"
  have ok1: "batch_ok (rs_batch (ls_rs ?st1))" using Cons.prems(1) by (simp add: on_files_read)
  show ?case
  proof (cases "read_file fs (d @ [n])")
    case (Inl e)
    then have "process_files x fs d ns ?st1 = (st', Inr ())"
      using Cons.prems(2) by (simp add: ask_progress_quiet [OF q])
    from Cons.IH [OF ok1 this] Inl show ?thesis by (simp add: file_lines_def on_files_read)
  next
    case (Inr b)
    obtain st2 stop where p: "process_lines x (lines b) 0 ?st1 = (st2, Inr stop)"
      using Cons.prems(2) Inr by (auto simp: ask_progress_quiet [OF q] split: prod.splits sum.splits)
    note pc = process_lines_counts [OF q nd ok1 p]
    obtain st3 c where f: "flush_if_live x st2 = (st3, Inr c)"
      using Cons.prems(2) Inr p pc by (auto simp: ask_progress_quiet [OF q] split: prod.splits sum.splits)
    have ok2: "batch_ok (rs_batch (ls_rs st2))" using pc by blast
    note fc = flush_if_live_counts [OF q nd ok2 f]
    have "process_files x fs d ns st3 = (st', Inr ())"
      using Cons.prems(2) Inr p pc f fc by (simp add: ask_progress_quiet [OF q])
    from Cons.IH [OF _ this] fc pc Inr show ?thesis
      by (simp add: file_lines_def on_files_read class_counts_append plus3_assoc)
  qed
qed (simp add: class_counts_Nil)

lemma finish_counts:
  assumes q: "quiet x" and nd: "\<not> o_dry_run (x_opts x)" and ok: "batch_ok (rs_batch (ls_rs st))"
    and ab: "\<not> ls_aborted st" and f: "finish x st = (st', Inr ())"
  shows "line_counts st' = line_counts st \<and> b_rows (rs_batch (ls_rs st')) = [] \<and> ls_window st' = []"
proof -
  obtain st1 b where d: "(if \<not> o_dry_run (x_opts x) \<and> \<not> ls_aborted st \<and> ls_window st \<noteq> [] then drain_window x st
            else (st, Inr False)) = (st1, Inr b)"
    using f by (auto simp: finish_def split: prod.splits sum.splits)
  have dc: "line_counts st1 = line_counts st \<and> batch_ok (rs_batch (ls_rs st1)) \<and> ls_window st1 = []"
    using d nd ab ok drain_counts [OF q ok] by (auto split: if_splits)
  then have ok1: "batch_ok (rs_batch (ls_rs st1))" by blast
  obtain c where fl: "flush_if_live x st1 = (st', Inr c)"
    using f d by (auto simp: finish_def split: prod.splits sum.splits)
  from flush_if_live_counts [OF q nd ok1 fl] dc show ?thesis by auto
qed

lemma start_state_simps:
  "line_counts (start_state db) = (0, 0, 0)" "batch_ok (rs_batch (ls_rs (start_state db)))" "\<not> ls_aborted (start_state db)"
  by (simp_all add: start_state_def line_counts_def zero_stats_def accounted_def empty_batch_def batch_ok_def Let_def)

lemma replay_returns:
  assumes "replay_opts U C R c env fid E dim opts fs d db = Some (db', Inr st)" and "wal_files fs d = Inr names" "fs_exists fs d"
  shows "\<exists>bs ws st1 st2. bs > 0 \<and> ws > 0
     \<and> process_files (ctx_of U C R c opts (resolve_sample_cap env opts) bs ws E dim) fs d (order_files c fs d names) (start_state db) = (st1, Inr ())
     \<and> finish (ctx_of U C R c opts (resolve_sample_cap env opts) bs ws E dim) st1 = (st2, Inr ())
     \<and> st = (rs_stats (ls_rs st2))\<lparr>fidelity_warning := compute_fidelity_warning fid (rs_stats (ls_rs st2))\<rparr>
     \<and> db' = rs_db (ls_rs st2)"
proof -
  let ?x = "\<lambda>bs ws. ctx_of U C R c opts (resolve_sample_cap env opts) bs ws E dim"
  have sz: "resolve_size env v w o' = Inr n \<Longrightarrow> n > 0" for v w o' n
    by (auto simp: resolve_size_def result_simps split: if_splits)
  have t: "\<not> (case o_to_seq opts of Some to_seq \<Rightarrow> to_seq < o_from_seq opts | None \<Rightarrow> False)"
    using assms(1) by (auto simp: replay_opts_def)
  note r1 = assms(1) [unfolded replay_opts_def, simplified t if_False]
  obtain bs where bs: "resolve_batch_size env opts = Inr bs"
    using r1 by (cases "resolve_batch_size env opts") auto
  obtain ws where ws: "resolve_embed_window_size env opts = Inr ws"
    using r1 bs by (cases "resolve_embed_window_size env opts") auto
  have nd: "\<not> list_ex (\<lambda>n. is_dir fs (d @ [n])) names"
    using r1 bs ws assms(2,3) by auto
  have r2: "(case process_files (?x bs ws) fs d (order_files c fs d names) (start_state db) of
      (st, Inl e) \<Rightarrow> Some (rs_db (ls_rs st), Inl e)
    | (st, Inr _) \<Rightarrow>
        (case finish (?x bs ws) st of
           (st1, Inl e) \<Rightarrow> Some (rs_db (ls_rs st1), Inl e)
         | (st1, Inr _) \<Rightarrow> Some (rs_db (ls_rs st1),
             Inr ((rs_stats (ls_rs st1))\<lparr>fidelity_warning := compute_fidelity_warning fid (rs_stats (ls_rs st1))\<rparr>))))
    = Some (db', Inr st)"
    using r1 bs ws assms(2,3) nd by (simp add: Let_def)
  obtain st1 where p: "process_files (?x bs ws) fs d (order_files c fs d names) (start_state db) = (st1, Inr ())"
    using r2 by (auto split: prod.splits sum.splits)
  obtain st2 where f: "finish (?x bs ws) st1 = (st2, Inr ())"
    using r2 p by (auto split: prod.splits sum.splits)
  have "bs > 0" "ws > 0" using bs ws sz by (auto simp: resolve_batch_size_def resolve_embed_window_size_def)
  with r2 p f show ?thesis by auto
qed

lemma ctx_of_simps [simp]:
  "x_ucd (ctx_of U C R c opts cap bs ws E dim) = U" "x_conn (ctx_of U C R c opts cap bs ws E dim) = C"
  "x_regexes (ctx_of U C R c opts cap bs ws E dim) = R" "x_codec (ctx_of U C R c opts cap bs ws E dim) = c"
  "x_opts (ctx_of U C R c opts cap bs ws E dim) = opts" "x_embed (ctx_of U C R c opts cap bs ws E dim) = E"
  "x_dim (ctx_of U C R c opts cap bs ws E dim) = dim"
  by (simp_all add: ctx_of_def)

lemma line_class_ctx:
  "line_class (ctx_of U C R c opts cap bs ws E dim) = line_class (ctx_of U C R c opts cap' bs' ws' E dim)"
  unfolding line_class_def ctx_of_simps ..


section \<open>Batching does not change the result\<close>

definition resolved_rows :: "ucd \<Rightarrow> nat \<Rightarrow> (rstr \<Rightarrow> json option) \<Rightarrow> replay_row list \<Rightarrow> replay_row list" where
  "resolved_rows U dim g rows = map fst (filter (\<lambda>(r, out). out = Proceed) (map (row_final U dim g) rows))"

lemma resolved_rows_append: "resolved_rows U dim g (xs @ ys) = resolved_rows U dim g xs @ resolved_rows U dim g ys"
  by (simp add: resolved_rows_def)

text \<open>What is left to do, from the state and the rows still to come.\<close>

definition todo :: "('d, 'p) replay_ctx \<Rightarrow> ('d, 'p, 'g) engine \<Rightarrow> (rstr \<Rightarrow> json option) \<Rightarrow> ('d, 'p) lstate \<Rightarrow> replay_row list \<Rightarrow> 'g \<Rightarrow> bool" where
  "todo x N g st rest goal \<longleftrightarrow>
     rinv N (ls_rs st) \<and> calm zero_stats (rs_stats (ls_rs st)) \<and> \<not> ls_aborted st
     \<and> (\<exists>h. vgraph N (ls_rs st) = Some h
          \<and> run_seq N (resolved_rows (x_ucd x) (x_dim x) g (ls_window st @ rest)) h = Some goal)"

definition live_ctx :: "('d, 'p) replay_ctx \<Rightarrow> ('d, 'p, 'g) engine \<Rightarrow> (rstr \<Rightarrow> json option) \<Rightarrow> bool" where
  "live_ctx x N g \<longleftrightarrow> quiet x \<and> \<not> o_dry_run (x_opts x) \<and> engine_ok (x_conn x) N \<and> engine_live (x_conn x) N
     \<and> pointwise (x_embed x) (x_dim x) g"

lemma drain_todo:
  assumes lx: "live_ctx x N g" and td: "todo x N g st rest goal"
  shows "\<exists>st'. drain_window x st = (st', Inr False) \<and> todo x N g st' rest goal \<and> ls_window st' = []"
proof -
  have en: "engine_ok (x_conn x) N" "engine_live (x_conn x) N" and pw: "pointwise (x_embed x) (x_dim x) g"
    and cn: "o_cancel_fn (x_opts x) = None"
    using lx by (simp_all add: live_ctx_def quiet_def)
  let ?res = "resolved_rows (x_ucd x) (x_dim x) g (ls_window st)"
  let ?st1 = "rows_counts (x_ucd x) (x_dim x) g (ls_window st) (rs_stats (ls_rs st))"
  have w: "resolve_embed_window (x_ucd x) (x_embed x) (x_dim x) (ls_window st) (rs_stats (ls_rs st)) = (?res, ?st1)"
    unfolding resolved_rows_def by (rule window_rows [OF pw])
  obtain h h1 where h: "vgraph N (ls_rs st) = Some h" "run_seq N ?res h = Some h1"
    "run_seq N (resolved_rows (x_ucd x) (x_dim x) g rest) h1 = Some goal"
    using td by (auto simp: todo_def resolved_rows_append run_seq_append split: bind_splits)
  let ?rs = "(ls_rs st)\<lparr>rs_stats := ?st1\<rparr>"
  have c1: "calm (rs_stats (ls_rs st)) ?st1" using window_conserves [OF w] by blast
  have i1: "rinv N ?rs" "vgraph N ?rs = Some h" using td h(1) by (simp_all add: todo_def rinv_def vgraph_def)
  obtain rs1 where p: "push_resolved_rows (x_ucd x) (x_conn x) (x_cap x) (x_batch_size x) None ?res ?rs = (rs1, Inr False)"
    "rinv N rs1" "vgraph N rs1 = Some h1" "calm ?st1 (rs_stats rs1)"
    using push_live [OF en i1 h(2)] by fastforce
  have "calm zero_stats (rs_stats rs1)"
    using td c1 p(4) calm_trans unfolding todo_def by blast
  with w p h(3) td show ?thesis
    by (simp add: drain_window_def cn todo_def)
qed

lemma todo_note: "todo x N g (note_seq q st) rest goal = todo x N g st rest goal"
  using note_seq_counts [where q = q and st = st] by (auto simp: todo_def rinv_def vgraph_def calm_def)

lemma todo_on_stats:
  "(\<And>s. calm s (f s)) \<Longrightarrow> todo x N g st rest goal \<Longrightarrow> todo x N g (on_stats f st) rest goal"
  by (auto simp: todo_def rinv_def vgraph_def on_files_read on_stats_def intro: calm_trans)

lemma process_line_todo:
  assumes lx: "live_ctx x N g" and td: "todo x N g st (row_of x l @ rest) goal"
  shows "\<exists>st' m'. process_line x l m st = (st', Inr (m', False)) \<and> todo x N g st' rest goal"
proof (cases "line_class x l")
  case (Row w)
  let ?st1 = "note_seq (ln_seq w) st"
  let ?st2 = "?st1\<lparr>ls_window := ls_window ?st1 @ [pending_row x w]\<rparr>"
  have q: "quiet x" "\<not> o_dry_run (x_opts x)" using lx by (simp_all add: live_ctx_def)
  have "todo x N g ?st1 (pending_row x w # rest) goal" using td Row by (simp add: todo_note row_of_def)
  then have t2: "todo x N g ?st2 rest goal" by (simp add: todo_def rinv_def vgraph_def)
  have "\<exists>st'. take_row x w ?st1 = (st', Inr False) \<and> todo x N g st' rest goal"
    using drain_todo [OF lx t2] t2 q by (auto simp: take_row_def Let_def)
  with Row after_row_quiet [OF q(1)] show ?thesis by (fastforce simp: process_line_cases)
qed (use td in \<open>auto simp: process_line_cases row_of_def todo_note calm_def intro!: todo_on_stats\<close>)

lemma process_lines_todo:
  assumes lx: "live_ctx x N g"
  shows "todo x N g st (concat (map (row_of x) ls) @ rest) goal \<Longrightarrow>
    \<exists>st'. process_lines x ls m st = (st', Inr False) \<and> todo x N g st' rest goal"
proof (induction ls arbitrary: m st)
  case (Cons l ls)
  then have "todo x N g st (row_of x l @ (concat (map (row_of x) ls) @ rest)) goal" by simp
  from process_line_todo [OF lx this, of m] Cons.IH show ?case by fastforce
qed simp

lemma flush_if_live_todo:
  assumes lx: "live_ctx x N g" and td: "todo x N g st rest goal"
  shows "\<exists>st'. flush_if_live x st = (st', Inr False) \<and> todo x N g st' rest goal \<and> ls_window st' = ls_window st
    \<and> b_rows (rs_batch (ls_rs st')) = []"
proof -
  have en: "engine_ok (x_conn x) N" "engine_live (x_conn x) N" and q: "o_cancel_fn (x_opts x) = None" "\<not> o_dry_run (x_opts x)"
    using lx by (simp_all add: live_ctx_def quiet_def)
  obtain h where h: "vgraph N (ls_rs st) = Some h" "rinv N (ls_rs st)" using td by (auto simp: todo_def)
  from flush_step [OF en h(2,1), of "x_ucd x" "x_cap x"] obtain rs1 where
    f: "flush_batch (x_ucd x) (x_conn x) (x_cap x) None (ls_rs st) = (rs1, Inr False)" "rinv N rs1" "vgraph N rs1 = Some h"
    "b_rows (rs_batch rs1) = []" "calm (rs_stats (ls_rs st)) (rs_stats rs1)" by blast
  then show ?thesis using td q h(1) by (auto simp: flush_if_live_def todo_def intro: calm_trans)
qed

lemma process_files_todo:
  assumes lx: "live_ctx x N g"
  shows "todo x N g st (concat (map (row_of x) (concat (map (file_lines fs d) ns))) @ rest) goal \<Longrightarrow>
    \<exists>st'. process_files x fs d ns st = (st', Inr ()) \<and> todo x N g st' rest goal"
proof (induction ns arbitrary: st)
  case (Cons n ns)
  have q: "quiet x" using lx by (simp add: live_ctx_def)
  let ?st1 = "on_stats (\<lambda>s. s\<lparr>files_read := files_read s + 1\<rparr>) st"
  let ?tail = "concat (map (row_of x) (concat (map (file_lines fs d) ns))) @ rest"
  have t1: "todo x N g ?st1 (concat (map (row_of x) (file_lines fs d n)) @ ?tail) goal"
    using Cons.prems by (intro todo_on_stats) (simp_all add: calm_def)
  show ?case
  proof (cases "read_file fs (d @ [n])")
    case (Inl e)
    then have "file_lines fs d n = []" by (simp add: file_lines_def)
    with t1 have "todo x N g ?st1 ?tail goal" by simp
    from Cons.IH [OF this] Inl show ?thesis by (simp add: ask_progress_quiet [OF q])
  next
    case (Inr b)
    then obtain st2 where p: "process_lines x (lines b) 0 ?st1 = (st2, Inr False)" "todo x N g st2 ?tail goal"
      using process_lines_todo [OF lx] t1 by (fastforce simp: file_lines_def)
    from flush_if_live_todo [OF lx p(2)] Cons.IH Inr p(1) show ?thesis
      by (fastforce simp: ask_progress_quiet [OF q])
  qed
qed simp

lemma finish_todo:
  assumes lx: "live_ctx x N g" and td: "todo x N g st [] goal"
  shows "\<exists>st'. finish x st = (st', Inr ()) \<and> en_graph N (rs_db (ls_rs st')) = goal \<and> calm zero_stats (rs_stats (ls_rs st'))"
proof -
  have q: "\<not> o_dry_run (x_opts x)" using lx by (simp add: live_ctx_def)
  have ab: "\<not> ls_aborted st" using td by (simp add: todo_def)
  obtain st1 where d: "(if \<not> o_dry_run (x_opts x) \<and> \<not> ls_aborted st \<and> ls_window st \<noteq> [] then drain_window x st
            else (st, Inr False)) = (st1, Inr False)" "todo x N g st1 [] goal" "ls_window st1 = []"
    using drain_todo [OF lx td] q ab td by (cases "ls_window st = []") auto
  obtain st2 where f: "flush_if_live x st1 = (st2, Inr False)" "todo x N g st2 [] goal" "ls_window st2 = ls_window st1"
    "b_rows (rs_batch (ls_rs st2)) = []"
    using flush_if_live_todo [OF lx d(2)] by blast
  have "en_graph N (rs_db (ls_rs st2)) = goal" "calm zero_stats (rs_stats (ls_rs st2))"
    using f d(3) by (auto simp: todo_def vgraph_def resolved_rows_def)
  moreover have "finish x st = (st2, Inr ())"
    unfolding finish_def d(1) prod.case sum.case f(1) ..
  ultimately show ?thesis by blast
qed

lemma row_of_ctx:
  "row_of (ctx_of U C R c opts cap bs ws E dim) = row_of (ctx_of U C R c opts cap' bs' ws' E dim)"
  unfolding row_of_def pending_row_def line_class_ctx [of U C R c opts cap bs ws E dim cap' bs' ws'] ctx_of_simps ..

lemma replay_seq_core:
  assumes en: "engine_ok C N" "engine_live C N" and pw: "pointwise E dim g"
    and q: "o_cancel_fn opts = None" "o_progress_fn opts = None" "\<not> o_dry_run opts"
    and range: "\<And>t. o_to_seq opts = Some t \<Longrightarrow> o_from_seq opts \<le> t"
    and sizes: "resolve_batch_size env opts = Inr bs" "resolve_embed_window_size env opts = Inr ws"
    and dir: "fs_exists fs d" "wal_files fs d = Inr names" "\<And>n. n \<in> set names \<Longrightarrow> \<not> is_dir fs (d @ [n])"
    and rows: "rows = concat (map (row_of (ctx_of U C R c opts 0 0 0 E dim)) (concat (map (file_lines fs d) (order_files c fs d names))))"
    and run: "run_seq N (fst (resolve_embed_window U E dim rows zero_stats)) (en_graph N db) = Some goal"
    and idle: "\<not> en_open N db"
  shows "\<exists>db' st. replay_opts U C R c env fid E dim opts fs d db = Some (db', Inr st)
    \<and> en_graph N db' = goal \<and> failed_lines st = 0 \<and> rolled_back_lines st = 0"
proof -
  let ?x = "ctx_of U C R c opts (resolve_sample_cap env opts) bs ws E dim"
  have lx: "live_ctx ?x N g" using en pw q by (simp add: live_ctx_def quiet_def)
  have res: "fst (resolve_embed_window U E dim rows zero_stats) = resolved_rows U dim g rows"
    unfolding window_rows [OF pw] resolved_rows_def by simp
  have t0: "todo ?x N g (start_state db) (concat (map (row_of ?x) (concat (map (file_lines fs d) (order_files c fs d names)))) @ []) goal"
    using idle run [unfolded res] unfolding rows row_of_ctx [of U C R c opts "resolve_sample_cap env opts" bs ws E dim 0 0 0]
    by (simp add: todo_def start_state_def rinv_def vgraph_def batch_ok_def empty_batch_def cache_ok_def calm_def)
  obtain st1 where p: "process_files ?x fs d (order_files c fs d names) (start_state db) = (st1, Inr ())" "todo ?x N g st1 [] goal"
    using process_files_todo [OF lx t0] by blast
  obtain st2 where f: "finish ?x st1 = (st2, Inr ())" "en_graph N (rs_db (ls_rs st2)) = goal" "calm zero_stats (rs_stats (ls_rs st2))"
    using finish_todo [OF lx p(2)] by blast
  have "\<not> (case o_to_seq opts of Some to_seq \<Rightarrow> to_seq < o_from_seq opts | None \<Rightarrow> False)"
    using range by (auto split: option.splits)
  moreover have "\<not> list_ex (\<lambda>n. is_dir fs (d @ [n])) names" using dir(3) by (simp add: list_ex_iff)
  ultimately show ?thesis
    using sizes dir(1,2) p(1) f by (simp add: replay_opts_def Let_def calm_def zero_stats_def)
qed



section \<open>A concrete replay\<close>

definition toy_opts :: replay_options where
  "toy_opts = \<lparr>o_from_seq = 0, o_to_seq = None, o_dry_run = False, o_progress_fn = None, o_cancel_fn = None,
     o_failure_sample_cap = Some 1, o_batch_size = Some 2, o_embed_window_size = Some 3\<rparr>"

lemma line_class_parse:
  assumes "parse_line (x_codec x) b = Some l"
  shows "line_class x b = (if ln_seq l < o_from_seq (x_opts x)
      \<or> (case o_to_seq (x_opts x) of Some t \<Rightarrow> ln_seq l > t | None \<Rightarrow> False) then OutOfRange
    else if is_known (x_ucd x) (ln_cypher l) then Row l else Unrecognised l)"
  using assms by (auto simp: parse_line_def line_class_def Let_def split: option.splits if_splits)

abbreviation toy_ctx where
  "toy_ctx \<equiv> ctx_of ascii_ucd toy_conn toy_regexes toy_wal_codec toy_opts 0 0 0 (\<lambda>ts. Inr (map (\<lambda>_. []) ts)) 0"

lemma toy_pending: "pending_row toy_ctx (toy_line 0)
    = \<lparr>r_cypher = lit ''CREATE (n)'', r_params = [], r_match_prefixed = False, r_seq = 0\<rparr>"
proof -
  have "no_wrapper (lit ''CREATE (n)'')" by (simp add: no_wrapper_def VECF32_def eq_ci_def ascii_lower_def)
  then have "strip_vecf32 (lit ''CREATE (n)'') = lit ''CREATE (n)''"
    by (subst strip_vecf32.simps) (simp add: no_wrapper_def)
  then show ?thesis
    by (simp add: pending_row_def toy_line_def promote_inline_vector_literals_to_params_def VECTOR_PARAM_KEYS_def
        promote_key_def toy_regexes_def expand_bulk_property_set_def List.map_filter_def inject_derived_lookup_key_def
        is_match_prefixed_def text_eval trim_start_def to_uppercase_def ascii_ucd_def ascii_upper_def)
qed

lemma toy_file_lines: "file_lines (toy_dir [(lit ''a.jsonl'', [0])]) [] (lit ''a.jsonl'') = [as_bytes (123 # show_nat 0 @ [125])]"
proof -
  have "list_all2 (printed_as toy_wal_codec) [toy_line 0] [123 # show_nat 0 @ [125]]"
    using toy_printed [of 0] by simp
  from chunk_lines(1) [OF this] have "lines (toy_bytes [0]) = [as_bytes (123 # show_nat 0 @ [125])]"
    by (simp add: toy_bytes_def)
  then show ?thesis
    using toy_dir_get [OF a_jsonl(1), of "[(lit ''a.jsonl'', [0])]"] by (simp add: file_lines_def read_file_def)
qed

lemma toy_line_class: "line_class toy_ctx (as_bytes (123 # show_nat 0 @ [125])) = Row (toy_line 0)"
proof -
  have "parse_line toy_wal_codec (as_bytes (123 # show_nat 0 @ [125])) = Some (toy_line 0)"
    by (rule printed_line(3) [OF toy_printed]) simp
  then show ?thesis
    using line_class_parse [of toy_ctx] by (simp add: toy_opts_def toy_line_def is_known_def cypher_eval)
qed

lemma toy_rows: "row_of toy_ctx (as_bytes (123 # show_nat 0 @ [125]))
    = [\<lparr>r_cypher = lit ''CREATE (n)'', r_params = [], r_match_prefixed = False, r_seq = 0\<rparr>]"
  using toy_line_class toy_pending by (simp add: row_of_def)

abbreviation toy_wal where
  "toy_wal \<equiv> toy_dir [(lit ''a.jsonl'', [0])]"

abbreviation toy_replay where
  "toy_replay \<equiv> replay_opts ascii_ucd toy_conn toy_regexes toy_wal_codec (\<lambda>_. None) (\<lambda>_ _. None)
     (\<lambda>ts. Inr (map (\<lambda>_. []) ts)) 0 toy_opts toy_wal [] ([], None)"

lemma toy_wal_files: "wal_files toy_wal [] = Inr [lit ''a.jsonl'']" "fs_exists toy_wal []"
  "order_files toy_wal_codec toy_wal [] [lit ''a.jsonl''] = [lit ''a.jsonl'']"
  using toy_dir_names [of "[(lit ''a.jsonl'', [0])]"] a_jsonl
  by (auto simp: wal_files_def fs_exists_def toy_dir_def fs_get_def order_files_def)

lemma toy_no_dir: "\<not> is_dir toy_wal [lit ''a.jsonl'']"
  using toy_dir_get [OF a_jsonl(1), of "[(lit ''a.jsonl'', [0])]"] by (simp add: is_dir_def)

lemma toy_sizes: "resolve_batch_size (\<lambda>_. None) toy_opts = Inr 2" "resolve_embed_window_size (\<lambda>_. None) toy_opts = Inr 3"
  by (simp_all add: resolve_batch_size_def resolve_embed_window_size_def resolve_size_def toy_opts_def)

lemma toy_pointwise: "pointwise (\<lambda>ts. Inr (map (\<lambda>_. []) ts)) 0 (\<lambda>t. Some (JArr []))"
  by (auto simp: pointwise_def validate_recomputed_vector_def vector_to_json_def fun_eq_iff)

lemma toy_run:
  "run_seq toy_engine (fst (resolve_embed_window ascii_ucd (\<lambda>ts. Inr (map (\<lambda>_. []) ts)) 0
      [\<lparr>r_cypher = lit ''CREATE (n)'', r_params = [], r_match_prefixed = False, r_seq = 0\<rparr>] zero_stats)) [] = Some [JObj []]"
  by (simp add: resolve_embed_window_def window_requests_def row_requests_def EMBEDDING_TEXT_PAIRS_def text_eval
      List.map_filter_simps immediate_of_def queued_of_def toy_engine_def toy_step_def Let_def)

lemma toy_replay_returns: "\<exists>db' st. toy_replay = Some (db', Inr st)"
proof -
  have r: "[\<lparr>r_cypher = lit ''CREATE (n)'', r_params = [], r_match_prefixed = False, r_seq = 0\<rparr>]
     = concat (map (row_of toy_ctx) (concat (map (file_lines toy_wal []) (order_files toy_wal_codec toy_wal [] [lit ''a.jsonl'']))))"
    by (simp only: toy_wal_files(3) list.map concat.simps toy_file_lines toy_rows append_Nil2 append.simps)
  have g0: "run_seq toy_engine (fst (resolve_embed_window ascii_ucd (\<lambda>ts. Inr (map (\<lambda>_. []) ts)) 0
      [\<lparr>r_cypher = lit ''CREATE (n)'', r_params = [], r_match_prefixed = False, r_seq = 0\<rparr>] zero_stats)) (en_graph toy_engine ([], None))
      = Some [JObj []]" using toy_run by (simp add: toy_engine_def)
  have "\<exists>db' st. toy_replay = Some (db', Inr st) \<and> en_graph toy_engine db' = [JObj []] \<and> failed_lines st = 0 \<and> rolled_back_lines st = 0"
    by (rule replay_seq_core [OF toy_engine_ok toy_engine_live toy_pointwise _ _ _ _ toy_sizes toy_wal_files(2,1) _ r g0])
      (use toy_no_dir in \<open>simp_all add: toy_opts_def toy_engine_def\<close>)
  then show ?thesis by blast
qed




end
