(* ===== verification/EmbeddingCache.thy ===== *)
theory EmbeddingCache
  imports Json
begin

text \<open>
  \<^verbatim>\<open>embedding_cache.rs\<close>: the in-memory cache of embeddings, keyed by a digest of model, dimension
  and text.  The digest (SHA-256) is a parameter \<open>H\<close>.  The table is an association list with the
  laws of \<open>path_store\<close>; a single lookup and the batched lookup with its deduplicated request are
  translated, \<open>None\<close> standing for a panic (an index out of range or a failed \<^verbatim>\<open>expect\<close>).  The
  theorems: a cache that holds genuine vectors answers as the embedder would, and keeps doing so.
\<close>

section \<open>The table\<close>

type_synonym 'v ecache = "(bytes \<times> 'v) list"

definition cget :: "'v ecache \<Rightarrow> bytes \<Rightarrow> 'v option" where
  "cget c k = map_of c k"

definition cput :: "bytes \<Rightarrow> 'v \<Rightarrow> 'v ecache \<Rightarrow> 'v ecache" where
  "cput k v c = AList.update k v c"

definition cdel :: "bytes \<Rightarrow> 'v ecache \<Rightarrow> 'v ecache" where
  "cdel k c = AList.delete k c"

interpretation ec: path_store cget cput cdel
  by unfold_locales (auto simp: cget_def cput_def cdel_def update_conv' delete_conv' fun_eq_iff)

definition cache_len :: "'v ecache \<Rightarrow> nat" where
  "cache_len c = length c"

definition cache_is_empty :: "'v ecache \<Rightarrow> bool" where
  "cache_is_empty c \<longleftrightarrow> cache_len c = 0"

text \<open>\<^verbatim>\<open>i64::to_le_bytes\<close>: the two's complement in eight bytes, least significant first.\<close>

definition i64_le_bytes :: "int \<Rightarrow> bytes" where
  "i64_le_bytes d = map (\<lambda>i. nat ((d mod 2 ^ 64) div 256 ^ i mod 256)) [0..<8]"

definition key_bytes :: "rstr \<Rightarrow> int \<Rightarrow> rstr \<Rightarrow> bytes" where
  "key_bytes model dim text = as_bytes model @ [0] @ i64_le_bytes dim @ [0] @ as_bytes text"

definition cache_key :: "(bytes \<Rightarrow> bytes) \<Rightarrow> rstr \<Rightarrow> int \<Rightarrow> rstr \<Rightarrow> bytes" where
  "cache_key H model dim text = H (key_bytes model dim text)"

section \<open>Lookups\<close>

definition get_or_compute ::
  "(bytes \<Rightarrow> bytes) \<Rightarrow> rstr \<Rightarrow> int \<Rightarrow> rstr \<Rightarrow> 'v result \<Rightarrow> 'v ecache \<Rightarrow> 'v ecache \<times> 'v result" where
  "get_or_compute H model dim text computed c =
     (let key = cache_key H model dim text in
      case cget c key of
        Some cached \<Rightarrow> (c, Inr cached)
      | None \<Rightarrow> (case computed of Inl e \<Rightarrow> (c, Inl e) | Inr vector \<Rightarrow> (cput key vector c, Inr vector)))"

text \<open>
  The scan that collects the distinct missing texts in order of their first occurrence, each
  with its position in the request.
\<close>

fun note_misses ::
  "(bytes \<times> rstr \<times> 'v option) list \<Rightarrow> rstr list \<Rightarrow> (bytes \<times> nat) list \<Rightarrow> rstr list \<times> (bytes \<times> nat) list" where
  "note_misses [] miss_texts miss_key_pos = (miss_texts, miss_key_pos)"
| "note_misses ((key, text, r) # rest) miss_texts miss_key_pos =
     (if r \<noteq> None \<or> map_of miss_key_pos key \<noteq> None then note_misses rest miss_texts miss_key_pos
      else note_misses rest (miss_texts @ [text]) (miss_key_pos @ [(key, length miss_texts)]))"

definition nth_opt :: "'a list \<Rightarrow> nat \<Rightarrow> 'a option" where
  "nth_opt xs i = (if i < length xs then Some (xs ! i) else None)"

definition insert_computed :: "'v list \<Rightarrow> (bytes \<times> nat) list \<Rightarrow> 'v ecache \<Rightarrow> 'v ecache option" where
  "insert_computed computed pos c =
     map_option (\<lambda>kvs. fold (\<lambda>(k, v). cput k v) kvs c)
       (collect_opt (\<lambda>(k, p). map_option (Pair k) (nth_opt computed p)) pos)"

definition fill_result :: "'v list \<Rightarrow> (bytes \<times> nat) list \<Rightarrow> bytes \<times> 'v option \<Rightarrow> 'v option" where
  "fill_result computed pos kr =
     (case snd kr of Some v \<Rightarrow> Some v | None \<Rightarrow> Option.bind (map_of pos (fst kr)) (nth_opt computed))"

definition get_or_compute_batch ::
  "(bytes \<Rightarrow> bytes) \<Rightarrow> rstr \<Rightarrow> int \<Rightarrow> rstr list \<Rightarrow> (rstr list \<Rightarrow> 'v list result) \<Rightarrow> 'v ecache \<Rightarrow>
     ('v ecache \<times> 'v list result) option" where
  "get_or_compute_batch H model dim texts compute_batch c =
     (if texts = [] then Some (c, Inr [])
      else
        (let keys = map (cache_key H model dim) texts;
             results = map (cget c) keys;
             (miss_texts, pos) = note_misses (zip keys (zip texts results)) [] []
         in if miss_texts = [] then map_option (\<lambda>vs. (c, Inr vs)) (collect_opt id results)
            else (case compute_batch miss_texts of
                    Inl e \<Rightarrow> Some (c, Inl e)
                  | Inr computed \<Rightarrow>
                      if length computed \<noteq> length miss_texts
                      then Some (c, Inl (Ipc (lit ''embed batch computed '' @ show_nat (length computed)
                             @ lit '' vectors for '' @ show_nat (length miss_texts)
                             @ lit '' requested distinct texts'')))
                      else Option.bind (insert_computed computed pos c)
                             (\<lambda>c1. map_option (\<lambda>vs. (c1, Inr vs))
                                (collect_opt (fill_result computed pos) (zip keys results))))))"

section \<open>The key\<close>

lemma i64_le_bytes_len [simp]: "length (i64_le_bytes d) = 8"
  by (simp add: i64_le_bytes_def)

lemma base256_digits:
  fixes a b :: int
  assumes "0 \<le> a" "a < 256 ^ n" "0 \<le> b" "b < 256 ^ n"
    and "\<And>i. i < n \<Longrightarrow> a div 256 ^ i mod 256 = b div 256 ^ i mod 256"
  shows "a = b"
  using assms
proof (induction n arbitrary: a b)
  case (Suc n)
  have d: "x div 256 div 256 ^ i = x div 256 ^ Suc i" for x :: int and i :: nat
    by (simp add: zdiv_zmult2_eq)
  have lt: "x div 256 < 256 ^ n" if "x < 256 ^ Suc n" for x :: int
    using that by (simp add: int_div_less_self zdiv_mono1 less_le_trans div_less_iff_less_mult mult.commute)
  have "a div 256 = b div 256"
    by (rule Suc.IH) (use Suc.prems lt in \<open>simp_all add: d del: power_Suc\<close>)
  moreover have "a mod 256 = b mod 256" using Suc.prems(5) [of 0] by simp
  ultimately show ?case by (metis div_mult_mod_eq)
qed simp

lemma i64_le_bytes_inj:
  assumes "- (2 ^ 63) \<le> d" "d < 2 ^ 63" "- (2 ^ 63) \<le> d'" "d' < 2 ^ 63" and e: "i64_le_bytes d = i64_le_bytes d'"
  shows "d = d'"
proof -
  have dig: "(d mod 2 ^ 64) div 256 ^ i mod 256 = (d' mod 2 ^ 64) div 256 ^ i mod 256" if "i < 8" for i
  proof -
    have "i64_le_bytes d ! i = i64_le_bytes d' ! i" using e by simp
    moreover have "0 \<le> x mod 256" for x :: int by simp
    ultimately show ?thesis using that by (simp add: i64_le_bytes_def eq_nat_nat_iff)
  qed
  have "(256::int) ^ 8 = 2 ^ 64" by simp
  then have "d mod 2 ^ 64 = d' mod 2 ^ 64"
    by (intro base256_digits [where n = 8, OF _ _ _ _ dig]) (simp_all only: pos_mod_sign pos_mod_bound zero_less_power zero_less_numeral)
  then have "(d - d') mod 2 ^ 64 = 0" by (simp add: mod_eq_dvd_iff)
  then obtain k where "d - d' = 2 ^ 64 * k" by (metis dvd_def dvd_eq_mod_eq_0)
  moreover have "- (2 ^ 64) < d - d'" "d - d' < 2 ^ 64" using assms(1-4) by simp_all
  ultimately have "k = 0" by simp
  with \<open>d - d' = 2 ^ 64 * k\<close> show ?thesis by simp
qed

lemma first_nul_split:
  assumes "0 \<notin> set a" "0 \<notin> set a'" "a @ 0 # r = a' @ 0 # (r' :: bytes)"
  shows "a = a' \<and> r = r'"
  using assms
proof (induction a arbitrary: a')
  case Nil
  then show ?case by (cases a') auto
next
  case (Cons x a)
  then show ?case by (cases a') auto
qed

lemma as_bytes_nul: "0 \<in> set (as_bytes s) \<longleftrightarrow> 0 \<in> set s"
  by (auto simp: as_bytes_def utf8_encode1_def split: if_splits)

definition ident_ok :: "rstr \<times> int \<times> rstr \<Rightarrow> bool" where
  "ident_ok x = (case x of (model, dim, text) \<Rightarrow>
     valid_str model \<and> 0 \<notin> set model \<and> - (2 ^ 63) \<le> dim \<and> dim < 2 ^ 63 \<and> valid_str text)"

lemma key_bytes_inj:
  assumes "ident_ok (m, d, t)" "ident_ok (m', d', t')" and e: "key_bytes m d t = key_bytes m' d' t'"
  shows "(m, d, t) = (m', d', t')"
proof -
  have "as_bytes m @ 0 # i64_le_bytes d @ 0 # as_bytes t = as_bytes m' @ 0 # i64_le_bytes d' @ 0 # as_bytes t'"
    using e by (simp add: key_bytes_def)
  from first_nul_split [OF _ _ this] have a: "as_bytes m = as_bytes m'"
    "i64_le_bytes d @ 0 # as_bytes t = i64_le_bytes d' @ 0 # as_bytes t'"
    using assms(1,2) by (simp_all add: ident_ok_def as_bytes_nul)
  from a(2) have b: "i64_le_bytes d = i64_le_bytes d'" "as_bytes t = as_bytes t'" by simp_all
  have "m = m'" "t = t'" using a(1) b(2) as_bytes_inj assms(1,2) by (auto simp: ident_ok_def)
  moreover have "d = d'" by (rule i64_le_bytes_inj) (use assms(1,2) b(1) in \<open>simp_all add: ident_ok_def\<close>)
  ultimately show ?thesis by simp
qed

section \<open>The scan for misses\<close>

text \<open>The request and the positions always match, and every missing key is among them.\<close>

definition request_ok :: "(rstr \<Rightarrow> bytes) \<Rightarrow> rstr list \<Rightarrow> (bytes \<times> nat) list \<Rightarrow> bool" where
  "request_ok key ms pos \<longleftrightarrow> pos = zip (map key ms) [0..<length ms] \<and> distinct (map key ms)"

lemma request_ok_lookup:
  assumes "request_ok key ms pos"
  shows "map_of pos k = Some p \<longleftrightarrow> p < length ms \<and> key (ms ! p) = k"
proof -
  have pos: "pos = zip (map key ms) [0..<length ms]" and d: "distinct (map key ms)"
    using assms by (simp_all add: request_ok_def)
  have "map_of pos k = Some p \<longleftrightarrow> (k, p) \<in> set pos"
    unfolding pos by (rule map_of_eq_Some_iff) (simp add: d)
  also have "\<dots> \<longleftrightarrow> p < length ms \<and> key (ms ! p) = k"
    unfolding pos set_zip by (auto intro!: exI [of _ p])
  finally show ?thesis .
qed

lemma request_ok_absent: "request_ok key ms pos \<Longrightarrow> map_of pos k = None \<longleftrightarrow> k \<notin> key ` set ms"
  unfolding request_ok_def map_of_eq_None_iff by (metis length_map length_upt minus_nat.diff_0 map_fst_zip set_map)

lemma note_misses_ok:
  assumes "list_all (\<lambda>(k, t, r). k = key t) xs" and "request_ok key ms pos"
    and "note_misses xs ms pos = (ms', pos')"
  shows "request_ok key ms' pos'
    \<and> set ms \<subseteq> set ms' \<and> set ms' \<subseteq> set ms \<union> {t. \<exists>k. (k, t, None) \<in> set xs}
    \<and> (\<forall>k t. (k, t, None) \<in> set xs \<longrightarrow> key t \<in> key ` set ms')"
  using assms
proof (induction xs arbitrary: ms pos)
  case (Cons x xs)
  obtain k t r where x: "x = (k, t, r)" by (cases x)
  have k: "k = key t" and xs: "list_all (\<lambda>(k, t, r). k = key t) xs" using Cons.prems(1) x by simp_all
  show ?case
  proof (cases "r \<noteq> None \<or> map_of pos k \<noteq> None")
    case True
    with Cons.prems(3) x have n: "note_misses xs ms pos = (ms', pos')" by auto
    have "r = None \<Longrightarrow> key t \<in> key ` set ms"
      using True request_ok_absent [OF Cons.prems(2), of k] k by auto
    with Cons.IH [OF xs Cons.prems(2) n] x show ?thesis by (auto 4 4)
  next
    case False
    then have r: "r = None" and nk: "key t \<notin> key ` set ms"
      using request_ok_absent [OF Cons.prems(2), of k] k by auto
    have n: "note_misses xs (ms @ [t]) (pos @ [(key t, length ms)]) = (ms', pos')"
      using Cons.prems(3) False x k by auto
    have "request_ok key (ms @ [t]) (pos @ [(key t, length ms)])"
      using Cons.prems(2) nk by (simp add: request_ok_def)
    from Cons.IH [OF xs this n] x r show ?thesis by auto
  qed
qed auto

section \<open>Genuine entries\<close>

text \<open>
  \<open>S\<close> is the set of identities in use, \<open>g\<close> the vector of each.  Digests of identities in use are
  assumed not to collide.
\<close>

definition ident_key :: "(bytes \<Rightarrow> bytes) \<Rightarrow> rstr \<times> int \<times> rstr \<Rightarrow> bytes" where
  "ident_key H x = (case x of (model, dim, text) \<Rightarrow> cache_key H model dim text)"

definition digest_ok :: "(bytes \<Rightarrow> bytes) \<Rightarrow> (rstr \<times> int \<times> rstr) set \<Rightarrow> bool" where
  "digest_ok H S \<longleftrightarrow> (\<forall>x \<in> S. ident_ok x) \<and> inj_on H ((\<lambda>(m, d, t). key_bytes m d t) ` S)"

definition genuine :: "(bytes \<Rightarrow> bytes) \<Rightarrow> (rstr \<times> int \<times> rstr \<Rightarrow> 'v) \<Rightarrow> (rstr \<times> int \<times> rstr) set \<Rightarrow> 'v ecache \<Rightarrow> bool" where
  "genuine H g S c \<longleftrightarrow> (\<forall>k v. cget c k = Some v \<longrightarrow> (\<exists>x \<in> S. ident_key H x = k \<and> g x = v))"

lemma ident_key_inj:
  assumes "digest_ok H S" "x \<in> S" "y \<in> S" "ident_key H x = ident_key H y"
  shows "x = y"
proof -
  obtain m d t m' d' t' where xy: "x = (m, d, t)" "y = (m', d', t')" by (metis prod_cases3)
  have "key_bytes m d t = key_bytes m' d' t'"
    using assms unfolding digest_ok_def xy by (force simp: ident_key_def cache_key_def dest: inj_onD)
  with assms(1-3) show ?thesis unfolding xy digest_ok_def by (intro key_bytes_inj) auto
qed

lemma genuine_get:
  assumes "digest_ok H S" "genuine H g S c" "x \<in> S" "cget c (ident_key H x) = Some v"
  shows "v = g x"
proof -
  obtain y where y: "y \<in> S" "ident_key H y = ident_key H x" "g y = v"
    using assms(2,4) unfolding genuine_def by blast
  from ident_key_inj [OF assms(1) y(1) assms(3) y(2)] y(3) show ?thesis by simp
qed

lemma genuine_put: "genuine H g S c \<Longrightarrow> x \<in> S \<Longrightarrow> genuine H g S (cput (ident_key H x) (g x) c)"
  by (auto simp: genuine_def ec.get_put)

lemma genuine_put_all:
  "genuine H g S c \<Longrightarrow> set xs \<subseteq> S \<Longrightarrow> genuine H g S (fold (\<lambda>(k, v). cput k v) (map (\<lambda>x. (ident_key H x, g x)) xs) c)"
  by (induction xs arbitrary: c) (auto simp: genuine_put)

lemma put_all_keys:
  "cget c k \<noteq> None \<or> k \<in> fst ` set kvs \<Longrightarrow> cget (fold (\<lambda>(k, v). cput k v) kvs c) k \<noteq> None"
  by (induction kvs arbitrary: c) (auto simp: ec.get_put)

lemma insert_computed_all:
  assumes "request_ok key ms pos" "computed = map f ms"
  shows "insert_computed computed pos c = Some (fold (\<lambda>(k, v). cput k v) (map (\<lambda>t. (key t, f t)) ms) c)"
proof -
  have "map (\<lambda>(k, p). map_option (Pair k) (nth_opt computed p)) pos = map Some (map (\<lambda>t. (key t, f t)) ms)"
    using assms by (auto simp: request_ok_def nth_opt_def intro!: nth_equalityI)
  then show ?thesis unfolding insert_computed_def collect_opt_Some_iff [symmetric] by simp
qed

text \<open>What the batched lookup asks the embedder for.\<close>

definition batch_request :: "(bytes \<Rightarrow> bytes) \<Rightarrow> rstr \<Rightarrow> int \<Rightarrow> rstr list \<Rightarrow> 'v ecache \<Rightarrow> rstr list" where
  "batch_request H model dim texts c =
     (let keys = map (cache_key H model dim) texts
      in fst (note_misses (zip keys (zip texts (map (cget c) keys))) [] []))"

lemma batch_scan:
  fixes texts :: "rstr list"
  assumes n: "note_misses (zip (map key texts) (zip texts (map (cget c) (map key texts)))) [] [] = (ms, pos)"
  shows "request_ok key ms pos" "set ms \<subseteq> {t \<in> set texts. cget c (key t) = None}"
    "\<And>t. t \<in> set texts \<Longrightarrow> cget c (key t) = None \<Longrightarrow> key t \<in> key ` set ms"
proof -
  let ?xs = "zip (map key texts) (zip texts (map (cget c) (map key texts)))"
  have m: "?xs = map (\<lambda>t. (key t, t, cget c (key t))) texts" by (induction texts) auto
  have l: "list_all (\<lambda>(k, t, r). k = key t) ?xs" unfolding m by (simp add: list_all_iff)
  have z: "(k, t, r) \<in> set ?xs \<longleftrightarrow> t \<in> set texts \<and> k = key t \<and> r = cget c (key t)" for k t r
    unfolding m by auto
  have "request_ok key [] []" by (simp add: request_ok_def)
  note note_misses_ok [OF l this n]
  then show "request_ok key ms pos" "set ms \<subseteq> {t \<in> set texts. cget c (key t) = None}"
    "\<And>t. t \<in> set texts \<Longrightarrow> cget c (key t) = None \<Longrightarrow> key t \<in> key ` set ms"
    unfolding z by auto
qed

lemma batch_filled:
  assumes r: "request_ok key ms pos"
    and miss: "\<And>t. t \<in> set texts \<Longrightarrow> cget c (key t) = None \<Longrightarrow> key t \<in> key ` set ms"
    and hit: "\<And>t v. t \<in> set texts \<Longrightarrow> cget c (key t) = Some v \<Longrightarrow> v = f t"
    and same: "\<And>t u. t \<in> set texts \<Longrightarrow> u \<in> set ms \<Longrightarrow> key t = key u \<Longrightarrow> f t = f u"
  shows "collect_opt (fill_result (map f ms) pos) (zip (map key texts) (map (cget c) (map key texts))) = Some (map f texts)"
proof -
  have "fill_result (map f ms) pos (key t, cget c (key t)) = Some (f t)" if t: "t \<in> set texts" for t
  proof (cases "cget c (key t)")
    case None
    then obtain p where p: "p < length ms" "key (ms ! p) = key t"
      using miss [OF t] by (metis image_iff in_set_conv_nth)
    then have "map_of pos (key t) = Some p" using request_ok_lookup [OF r] by blast
    with None p show ?thesis using same [OF t nth_mem [OF p(1)]] by (simp add: fill_result_def nth_opt_def)
  qed (use hit [OF t] in \<open>simp add: fill_result_def\<close>)
  then show ?thesis by (auto simp: collect_opt_Some_iff intro!: nth_equalityI)
qed

text \<open>C13: a cache of genuine vectors is transparent.  For a batch of texts the lookup never panics; a
  successful answer is the vector of every text, in order, and all of them are cached afterwards;
  after an error the cache is unchanged; in either case its entries stay genuine.  The embedder is
  asked for exactly the texts that were not cached, each once.\<close>

theorem cached_batch_agrees:
  assumes dig: "digest_ok H S" and gen: "genuine H g S c" and use: "\<And>t. t \<in> set texts \<Longrightarrow> (model, dim, t) \<in> S"
    and embed: "\<And>ts vs. compute ts = Inr vs \<Longrightarrow> length vs = length ts \<Longrightarrow> vs = map (\<lambda>t. g (model, dim, t)) ts"
  shows "\<exists>c' r. get_or_compute_batch H model dim texts compute c = Some (c', r) \<and> genuine H g S c'
    \<and> (case r of Inr vs \<Rightarrow> vs = map (\<lambda>t. g (model, dim, t)) texts
                   \<and> (\<forall>t \<in> set texts. cget c' (cache_key H model dim t) = Some (g (model, dim, t)))
       | Inl e \<Rightarrow> c' = c)
    \<and> distinct (batch_request H model dim texts c)
    \<and> set (batch_request H model dim texts c) = {t \<in> set texts. cget c (cache_key H model dim t) = None}"
proof -
  let ?key = "cache_key H model dim" and ?f = "\<lambda>t. g (model, dim, t)"
  let ?keys = "map ?key texts"
  obtain ms pos where n: "note_misses (zip ?keys (zip texts (map (cget c) ?keys))) [] [] = (ms, pos)" by fastforce
  note sc = batch_scan [OF n]
  have key: "?key t = ident_key H (model, dim, t)" for t by (simp add: ident_key_def)
  have hit: "v = ?f t" if "t \<in> set texts" "genuine H g S d" "cget d (?key t) = Some v" for t v d
    using genuine_get [OF dig that(2) use [OF that(1)]] that(3) by (simp add: key)
  have msS: "(model, dim, u) \<in> S" if "u \<in> set ms" for u using sc(2) use that by auto
  have same: "t = u" if "t \<in> set texts" "u \<in> set ms" "?key t = ?key u" for t u
    using ident_key_inj [OF dig use [OF that(1)] msS [OF that(2)]] that(3) by (simp add: key)
  have br: "batch_request H model dim texts c = ms" using n by (simp add: batch_request_def Let_def)
  have set_ms: "set ms = {t \<in> set texts. cget c (?key t) = None}"
    using sc(2,3) same by (auto simp: image_iff)
  have dist: "distinct ms" using sc(1) by (simp add: request_ok_def distinct_map)
  have fill: "collect_opt (fill_result (map ?f ms) pos) (zip ?keys (map (cget c) ?keys)) = Some (map ?f texts)"
    by (rule batch_filled [OF sc(1,3)]) (use hit [OF _ gen] same in auto)
  define c1 where "c1 = fold (\<lambda>(k, v). cput k v) (map (\<lambda>t. (?key t, ?f t)) ms) c"
  have g1: "genuine H g S c1"
    using genuine_put_all [OF gen, of "map (\<lambda>t. (model, dim, t)) ms"] msS by (auto simp: c1_def key comp_def)
  have all: "cget c1 (?key t) = Some (?f t)" if t: "t \<in> set texts" for t
  proof -
    have "cget c1 (?key t) \<noteq> None" unfolding c1_def
      by (rule put_all_keys) (use sc(3) [OF t] in \<open>auto simp: image_image\<close>)
    then show ?thesis using hit [OF t g1] by auto
  qed
  note un = get_or_compute_batch_def [of H model dim texts compute c, unfolded Let_def n prod.case]
  consider (none) "texts = []" | (hits) "texts \<noteq> []" "ms = []" | (fail) e where "texts \<noteq> []" "ms \<noteq> []" "compute ms = Inl e"
    | (short) vs where "texts \<noteq> []" "ms \<noteq> []" "compute ms = Inr vs" "length vs \<noteq> length ms"
    | (ok) "texts \<noteq> []" "ms \<noteq> []" "compute ms = Inr (map ?f ms)"
    using embed by (cases "compute ms") blast+
  then have "\<exists>c' r. get_or_compute_batch H model dim texts compute c = Some (c', r) \<and> genuine H g S c'
    \<and> (case r of Inr vs \<Rightarrow> vs = map ?f texts \<and> (\<forall>t \<in> set texts. cget c' (?key t) = Some (?f t)) | Inl e \<Rightarrow> c' = c)"
  proof cases
    case hits
    then have "cget c (?key t) = Some (?f t)" if "t \<in> set texts" for t using all [OF that] by (simp add: c1_def)
    then have "collect_opt id (map (cget c) ?keys) = Some (map ?f texts)" by (simp add: collect_opt_Some_iff)
    with hits un gen all show ?thesis by (simp add: c1_def)
  next
    case ok
    with un insert_computed_all [OF sc(1) refl, where f = ?f and c = c] fill g1 all show ?thesis
      by (simp add: c1_def)
  qed (use un gen in auto)
  then show ?thesis using br dist set_ms by simp
qed

theorem cached_batch_agrees_witness:
  "\<exists>c' r. get_or_compute_batch id (lit ''m'') 2 [lit ''a'', lit ''b'', lit ''a''] (\<lambda>ts. Inr ts) [] = Some (c', r)
     \<and> r = Inr [lit ''a'', lit ''b'', lit ''a'']
     \<and> set (batch_request id (lit ''m'') 2 [lit ''a'', lit ''b'', lit ''a''] ([] :: rstr ecache)) = {lit ''a'', lit ''b''}"
proof -
  let ?S = "{(lit ''m'', 2, lit ''a''), (lit ''m'', 2, lit ''b'')} :: (rstr \<times> int \<times> rstr) set"
  have "digest_ok id ?S" by (simp add: digest_ok_def ident_ok_def valid_str_def is_scalar_def)
  moreover have "genuine id (\<lambda>(m, d, t). t) ?S []" by (simp add: genuine_def cget_def)
  ultimately have "\<exists>c' r. get_or_compute_batch id (lit ''m'') 2 [lit ''a'', lit ''b'', lit ''a''] (\<lambda>ts. Inr ts) [] = Some (c', r)
    \<and> genuine id (\<lambda>(m, d, t). t) ?S c'
    \<and> (case r of Inr vs \<Rightarrow> vs = map (\<lambda>t. (\<lambda>(m, d, t). t) (lit ''m'', 2 :: int, t)) [lit ''a'', lit ''b'', lit ''a'']
                   \<and> (\<forall>t \<in> set [lit ''a'', lit ''b'', lit ''a'']. cget c' (cache_key id (lit ''m'') 2 t) = Some ((\<lambda>(m, d, t). t) (lit ''m'', 2 :: int, t)))
       | Inl e \<Rightarrow> c' = [])
    \<and> distinct (batch_request id (lit ''m'') 2 [lit ''a'', lit ''b'', lit ''a''] ([] :: rstr ecache))
    \<and> set (batch_request id (lit ''m'') 2 [lit ''a'', lit ''b'', lit ''a''] ([] :: rstr ecache))
        = {t \<in> set [lit ''a'', lit ''b'', lit ''a'']. cget ([] :: rstr ecache) (cache_key id (lit ''m'') 2 t) = None}"
    by (rule cached_batch_agrees) auto
  moreover have "\<exists>c' vs. get_or_compute_batch id (lit ''m'') 2 [lit ''a'', lit ''b'', lit ''a''] (\<lambda>ts. Inr ts) ([] :: rstr ecache) = Some (c', Inr vs)"
    by (simp add: get_or_compute_batch_def cache_key_def key_bytes_def cget_def as_bytes_def utf8_encode1_def
        insert_computed_def fill_result_def nth_opt_def)
  ultimately show ?thesis by (auto simp: cget_def)
qed

text \<open>A single lookup is the batch of one.\<close>

lemma get_or_compute_single:
  "get_or_compute_batch H model dim [text] (\<lambda>_. map_sum id (\<lambda>v. [v]) r) c
     = Some (case get_or_compute H model dim text r c of (c', res) \<Rightarrow> (c', map_sum id (\<lambda>v. [v]) res))"
  by (cases "cget c (cache_key H model dim text)"; cases r)
    (simp_all add: get_or_compute_batch_def get_or_compute_def insert_computed_def fill_result_def nth_opt_def Let_def)

text \<open>The table never holds a key twice, so its length counts the distinct texts.\<close>

lemma cput_distinct: "distinct (map fst c) \<Longrightarrow> distinct (map fst (cput k v c))"
  by (simp add: cput_def distinct_update)

end
