(* ===== verification/DedupJudge.thy ===== *)
theory DedupJudge
  imports Json
begin

text \<open>
  \<^verbatim>\<open>dedup_judge.rs\<close> and \<^verbatim>\<open>extract_json_block\<close> of \<^verbatim>\<open>extractor.rs\<close>: the pairs sent to the judge model,
  cutting the JSON block out of a model's reply, and reading the verdicts.  The JSON parser is a
  parameter.  The block extraction can panic on a slice whose start lies behind its end; \<open>None\<close>
  is that panic.  The theorems say which answer counts for a pair, what the extraction finds, and
  exactly when it panics.
\<close>

section \<open>Pairs and verdicts\<close>

record dedup_side =
  sd_name :: rstr
  sd_entity_type :: rstr
  sd_summary :: rstr

record duplicate_pair =
  dp_existing :: dedup_side
  dp_incoming :: dedup_side

datatype dedup_verdict = Duplicate | Distinct | Unknown

definition as_array :: "json \<Rightarrow> json list option" where
  "as_array v = (case v of JArr xs \<Rightarrow> Some xs | _ \<Rightarrow> None)"

definition as_bool :: "json \<Rightarrow> bool option" where
  "as_bool v = (case v of JBool b \<Rightarrow> Some b | _ \<Rightarrow> None)"

definition side_value :: "dedup_side \<Rightarrow> json" where
  "side_value s = JObj [(lit ''name'', JStr (sd_name s)), (lit ''type'', JStr (sd_entity_type s)),
     (lit ''summary'', JStr (sd_summary s))]"

definition pairs_value :: "duplicate_pair list \<Rightarrow> json" where
  "pairs_value pairs =
     JArr (map (\<lambda>(i, p). JObj [(lit ''id'', JNum (PosInt i)), (lit ''a'', side_value (dp_existing p)),
       (lit ''b'', side_value (dp_incoming p))]) (enumerate 0 pairs))"

section \<open>The JSON block of a reply\<close>

definition FENCE :: rstr where
  "FENCE = lit ''```''"

definition fenced :: "rstr \<Rightarrow> rstr \<Rightarrow> rstr option" where
  "fenced opening s =
     Option.bind (str_find opening s)
       (\<lambda>start. let after = drop (start + length opening) s
                in map_option (\<lambda>stop. trim (take stop after)) (str_find FENCE after))"

definition str_rfind_char :: "nat \<Rightarrow> rstr \<Rightarrow> nat option" where
  "str_rfind_char c s =
     (if c \<in> set s then Some (length s - 1 - length (takeWhile (\<lambda>x. x \<noteq> c) (rev s))) else None)"

definition extract_json_block :: "rstr \<Rightarrow> rstr option" where
  "extract_json_block s =
     (case fenced (lit ''```json'') s of
        Some block \<Rightarrow> Some block
      | None \<Rightarrow>
          (case fenced FENCE s of
             Some block \<Rightarrow> Some block
           | None \<Rightarrow>
               (case (str_find [123] s, str_rfind_char 125 s) of
                  (Some start, Some stop) \<Rightarrow>
                    if start \<le> stop + 1 then Some (take (stop + 1 - start) (drop start s)) else None
                | _ \<Rightarrow> Some (trim s))))"

section \<open>Reading the verdicts\<close>

definition item_id :: "json \<Rightarrow> nat option" where
  "item_id it = Option.bind (value_get it (lit ''id'')) as_u64"

definition item_answer :: "json \<Rightarrow> bool option" where
  "item_answer it = Option.bind (value_get it (lit ''duplicate'')) as_bool"

definition note_verdict :: "nat \<Rightarrow> json \<Rightarrow> nat list \<times> bool option list \<Rightarrow> nat list \<times> bool option list" where
  "note_verdict n it sv =
     (case item_id it of
        None \<Rightarrow> sv
      | Some i \<Rightarrow>
          if i \<ge> n then sv
          else ((fst sv)[i := wrap_add u32_max (fst sv ! i) 1], (snd sv)[i := item_answer it]))"

definition verdict_of :: "bool option \<Rightarrow> dedup_verdict" where
  "verdict_of a = (case a of Some True \<Rightarrow> Duplicate | Some False \<Rightarrow> Distinct | None \<Rightarrow> Unknown)"

definition tally_verdicts :: "nat \<Rightarrow> json list \<Rightarrow> dedup_verdict list" where
  "tally_verdicts n items =
     (let (seen, verdicts) = fold (note_verdict n) items (replicate n 0, replicate n None)
      in map (\<lambda>i. if seen ! i = 1 then verdict_of (verdicts ! i) else Unknown) [0..<n])"

definition parse_verdicts :: "(rstr \<Rightarrow> json option) \<Rightarrow> rstr \<Rightarrow> nat \<Rightarrow> dedup_verdict list option" where
  "parse_verdicts parse text n =
     (case extract_json_block text of
        None \<Rightarrow> None
      | Some block \<Rightarrow> Some
          (case parse block of
             None \<Rightarrow> replicate n Unknown
           | Some v \<Rightarrow>
               (case Option.bind (value_get v (lit ''verdicts'')) as_array of
                  None \<Rightarrow> replicate n Unknown
                | Some items \<Rightarrow> tally_verdicts n items)))"

section \<open>One answer per pair\<close>

definition answers :: "nat \<Rightarrow> json list \<Rightarrow> json list" where
  "answers i items = filter (\<lambda>it. item_id it = Some i) items"

lemma fold_note_verdict:
  assumes "i < n" "length items \<le> u32_max"
  shows "fst (fold (note_verdict n) items (replicate n 0, replicate n None)) ! i = length (answers i items)
    \<and> snd (fold (note_verdict n) items (replicate n 0, replicate n None)) ! i
        = (if answers i items = [] then None else item_answer (last (answers i items)))
    \<and> length (fst (fold (note_verdict n) items (replicate n 0, replicate n None))) = n
    \<and> length (snd (fold (note_verdict n) items (replicate n 0, replicate n None))) = n"
  using assms(2)
proof (induction items rule: rev_induct)
  case Nil
  then show ?case using assms(1) by (simp add: answers_def)
next
  case (snoc it items)
  have "length (answers i items) \<le> length items" by (simp add: answers_def)
  then have "wrap_add u32_max (length (answers i items)) 1 = length (answers i items) + 1"
    using snoc.prems by (intro wrap_add_small) simp
  with snoc assms(1) show ?case
    by (auto simp: note_verdict_def answers_def nth_list_update split: option.splits)
qed

text \<open>A verdict counts only when the judge answered the pair exactly once.  For every pair the
  verdict is the one of the single item carrying its index; no item, or several, or an item
  without a boolean answer, leaves it unknown.  Items with other indices do not matter.\<close>

lemma verdict_needs_one_answer:
  assumes "extract_json_block text = Some block" "parse block = Some v"
    and "value_get v (lit ''verdicts'') = Some (JArr items)" "length items \<le> u32_max"
  shows "parse_verdicts parse text n =
    Some (map (\<lambda>i. case answers i items of [it] \<Rightarrow> verdict_of (item_answer it) | _ \<Rightarrow> Unknown) [0..<n])"
proof -
  have "tally_verdicts n items = map (\<lambda>i. case answers i items of [it] \<Rightarrow> verdict_of (item_answer it) | _ \<Rightarrow> Unknown) [0..<n]"
    unfolding tally_verdicts_def
    by (auto simp: case_prod_beta Let_def fold_note_verdict [OF _ assms(4)] split: list.splits)
  then show ?thesis using assms(1-3) by (simp add: parse_verdicts_def as_array_def)
qed

theorem verdict_needs_one_answer_witness:
  "parse_verdicts (\<lambda>_. Some (JObj [(lit ''verdicts'', JArr
       [JObj [(lit ''id'', JNum (PosInt 0)), (lit ''duplicate'', JBool True)],
        JObj [(lit ''id'', JNum (PosInt 1)), (lit ''duplicate'', JBool True)],
        JObj [(lit ''id'', JNum (PosInt 1)), (lit ''duplicate'', JBool True)]])])) (lit ''{}'') 3
     = Some [Duplicate, Unknown, Unknown]"
proof -
  have e: "extract_json_block (lit ''{}'') = Some (lit ''{}'')"
    by (simp add: extract_json_block_def fenced_def FENCE_def str_rfind_char_def text_eval)
  show ?thesis
    by (subst verdict_needs_one_answer [OF e refl])
      (auto simp: value_get_def jget_def answers_def item_id_def item_answer_def as_u64_def as_bool_def
        verdict_of_def u32_max_def upt_rec)
qed

section \<open>What the extraction finds\<close>

lemma str_find_first:
  "str_find p s = Some n \<longleftrightarrow> n \<le> length s \<and> starts_with p (drop n s) \<and> (\<forall>m < n. \<not> starts_with p (drop m s))"
proof (induction s arbitrary: n)
  case Nil
  then show ?case by (auto simp: starts_with_def)
next
  case (Cons c s)
  show ?case
  proof (cases "starts_with p (c # s)")
    case True
    then show ?thesis by (auto intro: Nat.gr0I)
  next
    case False
    then have "str_find p (c # s) = Some n \<longleftrightarrow> (\<exists>k. n = Suc k \<and> str_find p s = Some k)" by auto
    also have "\<dots> \<longleftrightarrow> n \<le> length (c # s) \<and> starts_with p (drop n (c # s)) \<and> (\<forall>m < n. \<not> starts_with p (drop m (c # s)))"
      using False unfolding Cons.IH by (cases n) (auto simp: less_Suc_eq_0_disj)
    finally show ?thesis .
  qed
qed

lemma str_find_char: "str_find [c] s = (if c \<in> set s then Some (length (takeWhile (\<lambda>x. x \<noteq> c) s)) else None)"
  by (induction s) (auto simp: starts_with_def)

lemma fenced_none: "\<not> str_contains s FENCE \<Longrightarrow> fenced (FENCE @ x) s = None"
  by (auto simp: fenced_def str_contains_iff str_find_first starts_with_iff split: bind_splits)
    (metis append_take_drop_id append_assoc)

lemma str_rfind_split: "c \<notin> set b \<Longrightarrow> str_rfind_char c (a @ c # b) = Some (length a)"
proof -
  assume "c \<notin> set b"
  then have "takeWhile (\<lambda>x. x \<noteq> c) (rev (a @ c # b)) = rev b"
    by (simp add: takeWhile_tail) (auto intro: takeWhile_eq_all_conv [THEN iffD2])
  then show ?thesis unfolding str_rfind_char_def by simp
qed

lemma str_find_split: "c \<notin> set a \<Longrightarrow> str_find [c] (a @ c # b) = Some (length a)"
proof -
  assume "c \<notin> set a"
  then have "takeWhile (\<lambda>x. x \<noteq> c) (a @ c # b) = a"
    by (simp add: takeWhile_tail) (auto intro: takeWhile_eq_all_conv [THEN iffD2])
  then show ?thesis unfolding str_find_char by simp
qed

lemma no_fence: "\<not> str_contains s FENCE \<Longrightarrow> fenced (lit ''```json'') s = None \<and> fenced FENCE s = None"
  using fenced_none [of s "lit ''json''"] fenced_none [of s "[]"] by (simp add: FENCE_def)

text \<open>An object embedded in prose is found.  If a reply without code fences contains a text that
  begins with an opening and ends with a closing brace, with no opening brace before it and no
  closing brace after it, the block is exactly that text.\<close>

lemma json_block_embedded:
  assumes "123 \<notin> set pre" "125 \<notin> set post" and j: "j = 123 # mid @ [125]"
    and f: "\<not> str_contains (pre @ j @ post) FENCE"
  shows "extract_json_block (pre @ j @ post) = Some j"
proof -
  have a: "str_find [123] (pre @ j @ post) = Some (length pre)"
    using str_find_split [OF assms(1), of "mid @ [125] @ post"] j by simp
  have b: "str_rfind_char 125 (pre @ j @ post) = Some (length pre + 1 + length mid)"
    using str_rfind_split [OF assms(2), of "pre @ 123 # mid"] j by simp
  show ?thesis
    using no_fence [OF f] a b j by (simp add: extract_json_block_def)
qed

theorem json_block_embedded_witness:
  "extract_json_block (lit ''so: '' @ lit ''{a{}b}'' @ lit ''.'') = Some (lit ''{a{}b}'')"
  by (rule json_block_embedded [where mid = "lit ''a{}b''"]) (simp_all add: FENCE_def text_eval)

text \<open>C14: when the extraction panics.  It does so exactly when no fenced block is found, both braces
  occur, and the last closing brace lies before the first opening brace with text in between; a
  reply of that shape aborts the caller.\<close>

theorem json_block_panics_iff:
  "extract_json_block s = None \<longleftrightarrow>
     fenced (lit ''```json'') s = None \<and> fenced FENCE s = None
     \<and> (\<exists>a m b. s = a @ 125 # m @ 123 # b \<and> m \<noteq> [] \<and> 123 \<notin> set a \<and> 123 \<notin> set m \<and> 125 \<notin> set m \<and> 125 \<notin> set b)"
    (is "?L \<longleftrightarrow> ?R")
proof
  assume L: ?L
  then have f: "fenced (lit ''```json'') s = None" "fenced FENCE s = None"
    by (auto simp: extract_json_block_def split: option.splits)
  from L f obtain i k where ik: "str_find [123] s = Some i" "str_rfind_char 125 s = Some k" "k + 1 < i"
    by (auto simp: extract_json_block_def split: option.splits if_splits)
  then have "123 \<in> set s" "125 \<in> set s" by (auto simp: str_find_char str_rfind_char_def split: if_splits)
  then obtain a1 b1 a2 b2 where s1: "s = a1 @ 123 # b1" "123 \<notin> set a1" and s2: "s = a2 @ 125 # b2" "125 \<notin> set b2"
    by (meson split_list_first split_list_last)
  have i: "i = length a1" using ik(1) str_find_split [OF s1(2), of b1] by (simp add: s1(1))
  have k: "k = length a2" using ik(2) str_rfind_split [OF s2(2), of a2] by (simp add: s2(1))
  have "a1 @ 123 # b1 = (a2 @ [125]) @ b2" using s1(1) s2(1) by simp
  then obtain u where "a1 = (a2 @ [125]) @ u \<and> u @ 123 # b1 = b2 \<or> a1 @ u = a2 @ [125] \<and> 123 # b1 = u @ b2"
    unfolding append_eq_append_conv2 by blast
  moreover have "length (a1 @ u) \<noteq> length (a2 @ [125])" using ik(3) i k by simp
  ultimately obtain m where m: "a1 = (a2 @ [125]) @ m" "b2 = m @ 123 # b1" by metis
  have "m \<noteq> []" using m(1) ik(3) i k by auto
  with f s1 s2 m show ?R
    by (intro conjI exI [of _ a2] exI [of _ m] exI [of _ b1]) auto
next
  assume ?R
  then obtain a m b where s: "s = a @ 125 # m @ 123 # b" "m \<noteq> []" "123 \<notin> set a" "123 \<notin> set m" "125 \<notin> set m" "125 \<notin> set b"
    and f: "fenced (lit ''```json'') s = None" "fenced FENCE s = None" by blast
  have "str_find [123] s = Some (length a + 1 + length m)"
    using str_find_split [of 123 "a @ 125 # m" b] s by simp
  moreover have "str_rfind_char 125 s = Some (length a)"
    using str_rfind_split [of 125 "m @ 123 # b" a] s by simp
  ultimately show ?L using f s(2) by (simp add: extract_json_block_def)
qed

end
