(* ===== verification/LlmRouter.thy ===== *)
theory LlmRouter
  imports DedupJudge
begin

text \<open>
  \<^verbatim>\<open>llm_router.rs\<close>: the router that answers from a primary model until it fails once and from the
  fallback afterwards.  The two extractors are parameters (the functions of a record), the text of
  an error is a parameter too.  The first part translates the operations; the second part cuts a
  call into its atomic actions (load of the flag, the two awaited model calls, compare-and-exchange,
  event) and runs many calls under an arbitrary schedule.  The theorems: one fallback event at
  most, the flag is never set without a fallback, every answer comes from the right model, every
  call ends, and the judge's verdicts of both models are merged per pair.
\<close>

section \<open>The router\<close>

record ('o, 'x) extractor =
  ex_extract :: "'o \<Rightarrow> 'x result"
  ex_classify_entities :: "(rstr \<times> rstr) list \<Rightarrow> rstr list option \<Rightarrow> rstr list result"
  ex_classify_relations :: "(rstr \<times> rstr) list \<Rightarrow> (rstr \<times> rstr option) list \<Rightarrow> rstr list result"
  ex_consolidate_summary :: "rstr \<Rightarrow> rstr \<Rightarrow> rstr \<Rightarrow> rstr result"
  ex_judge_duplicates :: "duplicate_pair list \<Rightarrow> dedup_verdict list result"
  ex_is_configured :: bool

datatype llm_event = LlmFallback (ev_role: rstr) (ev_primary_model: rstr) (ev_fallback_model: rstr) (ev_error_reason: rstr)

record ('o, 'x) llm_router =
  rt_primary :: "('o, 'x) extractor"
  rt_primary_model_name :: rstr
  rt_fallback :: "('o, 'x) extractor option"
  rt_fallback_model_name :: rstr
  rt_primary_failed :: bool
  rt_sink :: "llm_event list"

definition router_new ::
  "('o, 'x) extractor \<Rightarrow> rstr \<Rightarrow> ('o, 'x) extractor option \<Rightarrow> rstr \<Rightarrow> ('o, 'x) llm_router" where
  "router_new primary primary_model_name fallback fallback_model_name =
     \<lparr>rt_primary = primary, rt_primary_model_name = primary_model_name, rt_fallback = fallback,
      rt_fallback_model_name = fallback_model_name, rt_primary_failed = False, rt_sink = []\<rparr>"

text \<open>
  The model names of \<^verbatim>\<open>from_env_with\<close>: the part of the specification before the first colon, and
  the part after it when there is one.
\<close>

definition split_models :: "rstr \<Rightarrow> rstr \<times> rstr option" where
  "split_models spec =
     (case str_find (lit '':'') spec of
        None \<Rightarrow> (spec, None)
      | Some i \<Rightarrow> (take i spec, Some (drop (i + 1) spec)))"

text \<open>\<^verbatim>\<open>std::env::var\<close> is a parameter; the deprecated name is read only when the new one is absent.\<close>

datatype var_error = NotPresent | NotUnicode

definition lcg_env_var :: "(rstr \<Rightarrow> var_error + rstr) \<Rightarrow> rstr \<Rightarrow> rstr \<Rightarrow> var_error + rstr" where
  "lcg_env_var env new_name old_name =
     (case env new_name of
        Inr v \<Rightarrow> Inr v
      | Inl NotPresent \<Rightarrow> env old_name
      | Inl NotUnicode \<Rightarrow> Inl NotUnicode)"

definition router_from_env_with ::
  "(rstr \<Rightarrow> var_error + rstr) \<Rightarrow> (rstr \<Rightarrow> rstr \<Rightarrow> ('o, 'x) extractor) \<Rightarrow> ('o, 'x) llm_router" where
  "router_from_env_with env with_model =
     (let api_key = (case env (lit ''ANTHROPIC_API_KEY'') of Inr k \<Rightarrow> k | Inl _ \<Rightarrow> []);
          spec = (case lcg_env_var env (lit ''LCG_EXTRACTION_LLM'') (lit ''GRAPHITI_EXTRACTION_LLM'') of
                    Inr v \<Rightarrow> v | Inl _ \<Rightarrow> lit ''claude-haiku-4-5-20251001'');
          (primary_model, fallback_model) = split_models spec
      in router_new (with_model primary_model api_key) primary_model
           (map_option (\<lambda>m. with_model m api_key) fallback_model)
           (case fallback_model of Some m \<Rightarrow> m | None \<Rightarrow> []))"

definition BUG_NO_FALLBACK :: error where
  "BUG_NO_FALLBACK = Ipc (lit ''BUG: primary_failed set without fallback'')"

definition mark_failed :: "(error \<Rightarrow> rstr) \<Rightarrow> rstr \<Rightarrow> error \<Rightarrow> ('o, 'x) llm_router \<Rightarrow> ('o, 'x) llm_router" where
  "mark_failed shw role err R =
     (if rt_primary_failed R then R
      else R\<lparr>rt_primary_failed := True,
             rt_sink := rt_sink R @ [LlmFallback role (rt_primary_model_name R) (rt_fallback_model_name R) (shw err)]\<rparr>)"

definition route_sticky ::
  "(error \<Rightarrow> rstr) \<Rightarrow> rstr \<Rightarrow> (('o, 'x) extractor \<Rightarrow> 'r result) \<Rightarrow> ('o, 'x) llm_router \<Rightarrow> ('o, 'x) llm_router \<times> 'r result" where
  "route_sticky shw role call R =
     (if \<not> rt_primary_failed R
      then (case call (rt_primary R) of
              Inr res \<Rightarrow> (R, Inr res)
            | Inl err \<Rightarrow>
                (case rt_fallback R of
                   Some fb \<Rightarrow> (mark_failed shw role err R, call fb)
                 | None \<Rightarrow> (R, Inl err)))
      else (R, case rt_fallback R of Some fb \<Rightarrow> call fb | None \<Rightarrow> Inl BUG_NO_FALLBACK))"

definition do_classify_entities where
  "do_classify_entities shw entities allowed_types R =
     route_sticky shw (lit ''classification'') (\<lambda>x. ex_classify_entities x entities allowed_types) R"

definition do_classify_relations where
  "do_classify_relations shw edges allowed_types R =
     route_sticky shw (lit ''relation_classification'') (\<lambda>x. ex_classify_relations x edges allowed_types) R"

definition do_extract where
  "do_extract shw opts R = route_sticky shw (lit ''extraction'') (\<lambda>x. ex_extract x opts) R"

definition do_consolidate_summary ::
  "rstr \<Rightarrow> rstr \<Rightarrow> rstr \<Rightarrow> ('o, 'x) llm_router \<Rightarrow> rstr result" where
  "do_consolidate_summary entity_name existing incoming R =
     (if \<not> rt_primary_failed R
      then (case ex_consolidate_summary (rt_primary R) entity_name existing incoming of
              Inr res \<Rightarrow> Inr res
            | Inl err \<Rightarrow>
                (case rt_fallback R of
                   Some fb \<Rightarrow> ex_consolidate_summary fb entity_name existing incoming
                 | None \<Rightarrow> Inl err))
      else (case rt_fallback R of
              Some fb \<Rightarrow> ex_consolidate_summary fb entity_name existing incoming
            | None \<Rightarrow> Inl BUG_NO_FALLBACK))"

definition merge_verdicts :: "dedup_verdict list \<Rightarrow> nat list \<Rightarrow> dedup_verdict list \<Rightarrow> dedup_verdict list" where
  "merge_verdicts verdicts unresolved fv = fold (\<lambda>(i, v) acc. acc[i := v]) (zip unresolved fv) verdicts"

definition do_judge_duplicates :: "duplicate_pair list \<Rightarrow> ('o, 'x) llm_router \<Rightarrow> dedup_verdict list result" where
  "do_judge_duplicates pairs R =
     (if \<not> rt_primary_failed R
      then (case ex_judge_duplicates (rt_primary R) pairs of
              Inl err \<Rightarrow>
                (case rt_fallback R of Some fb \<Rightarrow> ex_judge_duplicates fb pairs | None \<Rightarrow> Inl err)
            | Inr v \<Rightarrow>
                (let verdicts = (if length v = length pairs then v else replicate (length pairs) Unknown)
                 in case rt_fallback R of
                      None \<Rightarrow> Inr verdicts
                    | Some fb \<Rightarrow>
                        (let unresolved = filter (\<lambda>i. verdicts ! i = Unknown) [0..<length pairs]
                         in if unresolved = [] then Inr verdicts
                            else (let subset = map (\<lambda>i. pairs ! i) unresolved
                                  in case ex_judge_duplicates fb subset of
                                       Inl _ \<Rightarrow> Inr verdicts
                                     | Inr fv \<Rightarrow>
                                         Inr (if length fv = length subset
                                              then merge_verdicts verdicts unresolved fv else verdicts)))))
      else (case rt_fallback R of
              Some fb \<Rightarrow> ex_judge_duplicates fb pairs
            | None \<Rightarrow> Inl BUG_NO_FALLBACK))"

definition router_is_configured :: "('o, 'x) llm_router \<Rightarrow> bool" where
  "router_is_configured R = ex_is_configured (rt_primary R)"

section \<open>Merging verdicts\<close>

lemma merge_keeps: "i \<notin> set us \<Longrightarrow> fold (\<lambda>(i, v) acc. acc[i := v]) (zip us vs) xs ! i = xs ! i"
proof (induction us arbitrary: vs xs)
  case (Cons u us)
  then show ?case by (cases vs) auto
qed simp

lemma merge_length: "length (fold (\<lambda>(i, v) acc. acc[i := v]) zs xs) = length xs"
  by (induction zs arbitrary: xs) auto

lemma merge_sets:
  "distinct us \<Longrightarrow> length vs = length us \<Longrightarrow> set us \<subseteq> {..<length xs} \<Longrightarrow> k < length us \<Longrightarrow>
     fold (\<lambda>(i, v) acc. acc[i := v]) (zip us vs) xs ! (us ! k) = vs ! k"
proof (induction us arbitrary: vs xs k)
  case (Cons u us)
  obtain v vs' where v: "vs = v # vs'" using Cons.prems(2) by (cases vs) auto
  show ?case
  proof (cases k)
    case 0
    with Cons.prems v show ?thesis by (simp add: merge_keeps)
  next
    case (Suc k')
    with Cons.prems v Cons.IH [of vs' "xs[u := v]" k'] show ?thesis by simp
  qed
qed simp

text \<open>The verdicts of both judges are merged per pair.  While the primary answers, the router
  returns one verdict per pair; a pair the primary decided keeps that decision whatever the
  fallback says; a pair it left open gets the verdict the fallback gave that very pair, if the
  fallback answered with the right number of verdicts, and stays unknown otherwise.\<close>

lemma judge_merges_per_pair:
  assumes up: "\<not> rt_primary_failed R" and p: "ex_judge_duplicates (rt_primary R) pairs = Inr v"
    and len: "length v = length pairs"
  shows "\<exists>out. do_judge_duplicates pairs R = Inr out \<and> length out = length pairs
    \<and> (\<forall>i < length pairs. v ! i \<noteq> Unknown \<longrightarrow> out ! i = v ! i)
    \<and> (\<forall>i < length pairs. v ! i = Unknown \<longrightarrow>
         (let open_ixs = filter (\<lambda>j. v ! j = Unknown) [0..<length pairs] in
          out ! i = (case rt_fallback R of
             None \<Rightarrow> Unknown
           | Some fb \<Rightarrow> (case ex_judge_duplicates fb (map ((!) pairs) open_ixs) of
                Inr fv \<Rightarrow> if length fv = length open_ixs
                          then fv ! length (filter (\<lambda>j. v ! j = Unknown) [0..<i]) else Unknown
              | Inl _ \<Rightarrow> Unknown))))"
proof -
  let ?us = "filter (\<lambda>j. v ! j = Unknown) [0..<length pairs]"
  have un: "do_judge_duplicates pairs R = (case rt_fallback R of None \<Rightarrow> Inr v
    | Some fb \<Rightarrow> if ?us = [] then Inr v else (case ex_judge_duplicates fb (map ((!) pairs) ?us) of
        Inl _ \<Rightarrow> Inr v | Inr fv \<Rightarrow> Inr (if length fv = length ?us then merge_verdicts v ?us fv else v)))"
    using up p len by (auto simp: do_judge_duplicates_def Let_def split: option.split sum.split)
  have pos: "?us ! length (filter (\<lambda>j. v ! j = Unknown) [0..<i]) = i
      \<and> length (filter (\<lambda>j. v ! j = Unknown) [0..<i]) < length ?us" if "i < length pairs" "v ! i = Unknown" for i
  proof -
    have "[0..<length pairs] = [0..<i] @ i # [Suc i..<length pairs]"
      using that(1) upt_add_eq_append [of 0 i "length pairs - i"] by (simp add: upt_conv_Cons)
    then show ?thesis using that(2) by (simp add: nth_append)
  qed
  have mg: "merge_verdicts v ?us fv ! i = fv ! length (filter (\<lambda>j. v ! j = Unknown) [0..<i])"
    if "i < length pairs" "v ! i = Unknown" "length fv = length ?us" for i fv
    using merge_sets [of ?us fv v "length (filter (\<lambda>j. v ! j = Unknown) [0..<i])"] pos [OF that(1,2)] that(3) len
    by (auto simp: merge_verdicts_def)
  have kp: "merge_verdicts v ?us fv ! i = v ! i" if "v ! i \<noteq> Unknown" for i fv
    unfolding merge_verdicts_def by (rule merge_keeps) (use that in simp)
  have ml: "length (merge_verdicts v ?us fv) = length pairs" for fv
    using len by (simp add: merge_verdicts_def merge_length)
  have ne: "?us \<noteq> []" if "i < length pairs" "v ! i = Unknown" for i using pos [OF that] by auto
  show ?thesis
  proof (cases "rt_fallback R")
    case None
    then show ?thesis using un len by simp
  next
    case (Some fb)
    show ?thesis
    proof (cases "?us = [] \<or> (\<exists>e. ex_judge_duplicates fb (map ((!) pairs) ?us) = Inl e)")
      case True
      then have "do_judge_duplicates pairs R = Inr v" using un Some by auto
      with True Some len ne show ?thesis by (intro exI [of _ v]) (auto simp: Let_def)
    next
      case False
      then obtain fv where fv: "ex_judge_duplicates fb (map ((!) pairs) ?us) = Inr fv" and nu: "?us \<noteq> []"
        by (cases "ex_judge_duplicates fb (map ((!) pairs) ?us)") auto
      show ?thesis
      proof (cases "length fv = length ?us")
        case True
        then have "do_judge_duplicates pairs R = Inr (merge_verdicts v ?us fv)" using un Some fv nu by simp
        then show ?thesis
          by (intro exI [of _ "merge_verdicts v ?us fv"]) (simp add: Let_def Some fv True ml mg [OF _ _ True] kp)
      next
        case f: False
        then have "do_judge_duplicates pairs R = Inr v" using un Some fv nu by simp
        with f len show ?thesis by (intro exI [of _ v]) (simp add: Let_def Some fv)
      qed
    qed
  qed
qed

definition toy_judge :: "dedup_verdict list result \<Rightarrow> (unit, unit) extractor" where
  "toy_judge r = \<lparr>ex_extract = (\<lambda>_. Inr ()), ex_classify_entities = (\<lambda>_ _. Inr []),
     ex_classify_relations = (\<lambda>_ _. Inr []), ex_consolidate_summary = (\<lambda>_ _ _. Inr []),
     ex_judge_duplicates = (\<lambda>_. r), ex_is_configured = True\<rparr>"

definition toy_side :: dedup_side where
  "toy_side = \<lparr>sd_name = [], sd_entity_type = [], sd_summary = []\<rparr>"

definition toy_pair :: duplicate_pair where
  "toy_pair = \<lparr>dp_existing = toy_side, dp_incoming = toy_side\<rparr>"

theorem judge_merges_per_pair_witness:
  "\<exists>out. do_judge_duplicates [toy_pair, toy_pair]
      (router_new (toy_judge (Inr [Distinct, Unknown])) [] (Some (toy_judge (Inr [Duplicate]))) []) = Inr out
    \<and> out ! 0 = Distinct \<and> out ! 1 = Duplicate"
proof -
  let ?R = "router_new (toy_judge (Inr [Distinct, Unknown])) [] (Some (toy_judge (Inr [Duplicate]))) []"
  obtain out where o: "do_judge_duplicates [toy_pair, toy_pair] ?R = Inr out"
    and k: "\<And>i. i < 2 \<Longrightarrow> [Distinct, Unknown] ! i \<noteq> Unknown \<Longrightarrow> out ! i = [Distinct, Unknown] ! i"
    and m: "\<And>i. i < 2 \<Longrightarrow> [Distinct, Unknown] ! i = Unknown \<Longrightarrow>
      out ! i = [Duplicate] ! length (filter (\<lambda>j. [Distinct, Unknown] ! j = Unknown) [0..<i])"
    using judge_merges_per_pair [of ?R "[toy_pair, toy_pair]" "[Distinct, Unknown]"]
    by (auto simp: router_new_def toy_judge_def upt_rec)
  from o k [of 0] m [of 1] show ?thesis by (simp add: upt_rec)
qed

section \<open>Concurrent calls\<close>

text \<open>
  A call of the router cut at its atomic actions.  The kinds: a call that switches the session to
  the fallback when the primary fails, with its role, and a call that does not
  (\<^verbatim>\<open>consolidate_summary\<close>).  \<open>pr\<close> and \<open>fr\<close> are the answers the two models give this call.
\<close>

datatype call_kind = Sticky rstr | Plain

datatype 'r rpc = RLoad | RPrimary | RCas error | REmit error | RFallback | RDone "'r result"

record rshared =
  sh_failed :: bool
  sh_events :: "llm_event list"

definition rproc ::
  "(error \<Rightarrow> rstr) \<Rightarrow> rstr \<Rightarrow> rstr option \<Rightarrow> call_kind \<Rightarrow> 'r result \<Rightarrow> 'r result \<Rightarrow> 'r rpc \<Rightarrow> rshared \<Rightarrow> 'r rpc \<times> rshared" where
  "rproc shw pm fb kind pr fr pc sh =
     (case pc of
        RLoad \<Rightarrow> (if sh_failed sh then RFallback else RPrimary, sh)
      | RPrimary \<Rightarrow>
          (case pr of
             Inr res \<Rightarrow> (RDone (Inr res), sh)
           | Inl err \<Rightarrow>
               (if fb = None then RDone (Inl err)
                else (case kind of Sticky _ \<Rightarrow> RCas err | Plain \<Rightarrow> RFallback), sh))
      | RCas err \<Rightarrow> if sh_failed sh then (RFallback, sh) else (REmit err, sh\<lparr>sh_failed := True\<rparr>)
      | REmit err \<Rightarrow>
          (RFallback, sh\<lparr>sh_events := sh_events sh @
             [LlmFallback (case kind of Sticky role \<Rightarrow> role | Plain \<Rightarrow> []) pm (case fb of Some m \<Rightarrow> m | None \<Rightarrow> []) (shw err)]\<rparr>)
      | RFallback \<Rightarrow> (RDone (if fb = None then Inl BUG_NO_FALLBACK else fr), sh)
      | RDone r \<Rightarrow> (RDone r, sh))"

text \<open>A schedule names the call that acts next.\<close>

definition rstep ::
  "(error \<Rightarrow> rstr) \<Rightarrow> rstr \<Rightarrow> rstr option \<Rightarrow> (nat \<Rightarrow> call_kind) \<Rightarrow> (nat \<Rightarrow> 'r result) \<Rightarrow> (nat \<Rightarrow> 'r result) \<Rightarrow>
     nat \<Rightarrow> (nat \<Rightarrow> 'r rpc) \<times> rshared \<Rightarrow> (nat \<Rightarrow> 'r rpc) \<times> rshared" where
  "rstep shw pm fb kind pr fr i s =
     (case s of (pcs, sh) \<Rightarrow>
        (case rproc shw pm fb (kind i) (pr i) (fr i) (pcs i) sh of (pc', sh') \<Rightarrow> (pcs(i := pc'), sh')))"

definition rrun where
  "rrun shw pm fb kind pr fr sched s = fold (rstep shw pm fb kind pr fr) sched s"

definition rstart :: "(nat \<Rightarrow> 'r rpc) \<times> rshared" where
  "rstart = (\<lambda>_. RLoad, \<lparr>sh_failed = False, sh_events = []\<rparr>)"

text \<open>What is known of a call at each of its actions.\<close>

definition rpc_ok :: "rstr option \<Rightarrow> 'r result \<Rightarrow> 'r result \<Rightarrow> rshared \<Rightarrow> 'r rpc \<Rightarrow> bool" where
  "rpc_ok fb pr fr sh pc =
     (case pc of
        RLoad \<Rightarrow> True
      | RPrimary \<Rightarrow> True
      | RCas err \<Rightarrow> fb \<noteq> None
      | REmit err \<Rightarrow> fb \<noteq> None \<and> sh_failed sh \<and> sh_events sh = []
      | RFallback \<Rightarrow> fb \<noteq> None
      | RDone r \<Rightarrow> (\<exists>x. pr = Inr x \<and> r = Inr x) \<or> (fb \<noteq> None \<and> r = fr) \<or> (fb = None \<and> (\<exists>e. pr = Inl e \<and> r = Inl e)))"

definition router_inv :: "rstr option \<Rightarrow> (nat \<Rightarrow> 'r result) \<Rightarrow> (nat \<Rightarrow> 'r result) \<Rightarrow> (nat \<Rightarrow> 'r rpc) \<times> rshared \<Rightarrow> bool" where
  "router_inv fb pr fr s = (case s of (pcs, sh) \<Rightarrow>
     (sh_failed sh \<longrightarrow> fb \<noteq> None) \<and> (\<not> sh_failed sh \<longrightarrow> sh_events sh = []) \<and> length (sh_events sh) \<le> 1
     \<and> (\<forall>i. rpc_ok fb (pr i) (fr i) sh (pcs i))
     \<and> (\<forall>i j e e'. pcs i = REmit e \<longrightarrow> pcs j = REmit e' \<longrightarrow> i = j))"

lemma router_inv_start: "router_inv fb pr fr rstart"
  by (simp add: router_inv_def rstart_def rpc_ok_def)

lemma router_inv_step: "router_inv fb pr fr s \<Longrightarrow> router_inv fb pr fr (rstep shw pm fb kind pr fr i s)"
proof -
  assume inv: "router_inv fb pr fr s"
  obtain pcs sh where s: "s = (pcs, sh)" by (cases s)
  have ok: "rpc_ok fb (pr j) (fr j) sh (pcs j)" for j using inv by (simp add: router_inv_def s)
  have one: "pcs j = REmit e \<Longrightarrow> pcs k = REmit e' \<Longrightarrow> j = k" for j k e e' using inv by (auto simp: router_inv_def s)
  have flag: "sh_failed sh \<Longrightarrow> fb \<noteq> None" "\<not> sh_failed sh \<Longrightarrow> sh_events sh = []" "length (sh_events sh) \<le> 1"
    using inv by (auto simp: router_inv_def s)
  show ?thesis
  proof (cases "pcs i")
    case RLoad
    then show ?thesis using ok one flag by (auto simp: router_inv_def rstep_def rproc_def s rpc_ok_def)
  next
    case RPrimary
    then show ?thesis using ok one flag
      by (auto simp: router_inv_def rstep_def rproc_def s rpc_ok_def split: sum.splits call_kind.splits)
  next
    case (RCas err)
    show ?thesis
    proof (cases "sh_failed sh")
      case True
      then show ?thesis using ok [of i] ok one flag RCas by (auto simp: router_inv_def rstep_def rproc_def s rpc_ok_def)
    next
      case False
      have no: "pcs j \<noteq> REmit e" for j e using ok [of j] False by (auto simp: rpc_ok_def)
      have f: "fb \<noteq> None" using ok [of i] RCas by (simp add: rpc_ok_def)
      have "rpc_ok fb (pr j) (fr j) (sh\<lparr>sh_failed := True\<rparr>) (pcs j)" for j
        using ok [of j] no by (auto simp: rpc_ok_def split: rpc.splits)
      then show ?thesis using RCas False no f flag by (auto simp: router_inv_def rstep_def rproc_def s rpc_ok_def)
    qed
  next
    case (REmit err)
    have f: "fb \<noteq> None" "sh_failed sh" "sh_events sh = []" using ok [of i] REmit by (simp_all add: rpc_ok_def)
    have "rpc_ok fb (pr j) (fr j) (sh\<lparr>sh_events := ev\<rparr>) (pcs j)" if "j \<noteq> i" for j ev
      using ok [of j] one [of j _ i err] REmit that by (auto simp: rpc_ok_def split: rpc.splits)
    then show ?thesis using REmit f one by (auto simp: router_inv_def rstep_def rproc_def s) (auto simp: rpc_ok_def)
  next
    case RFallback
    then show ?thesis using ok [of i] ok one flag by (auto simp: router_inv_def rstep_def rproc_def s rpc_ok_def)
  next
    case (RDone r)
    then have "rstep shw pm fb kind pr fr i s = s" by (auto simp: rstep_def rproc_def s)
    then show ?thesis using inv by simp
  qed
qed

lemma router_inv_run: "router_inv fb pr fr s \<Longrightarrow> router_inv fb pr fr (rrun shw pm fb kind pr fr sched s)"
  unfolding rrun_def by (induction sched arbitrary: s) (simp_all add: router_inv_step)

lemma rstep_failed: "sh_failed (snd s) \<Longrightarrow> sh_failed (snd (rstep shw pm fb kind pr fr i s))"
  by (cases s) (auto simp: rstep_def rproc_def split: rpc.splits sum.splits)

lemma rrun_failed: "sh_failed (snd s) \<Longrightarrow> sh_failed (snd (rrun shw pm fb kind pr fr sched s))"
  unfolding rrun_def by (induction sched arbitrary: s) (simp_all add: rstep_failed)

lemma rpc_ok_done:
  "rpc_ok fb pr fr sh (RDone r) \<longleftrightarrow>
     (\<exists>x. pr = Inr x \<and> r = Inr x) \<or> (fb \<noteq> None \<and> r = fr) \<or> (fb = None \<and> (\<exists>e. pr = Inl e \<and> r = Inl e))"
  by (simp add: rpc_ok_def)

text \<open>C15: concurrent calls of the router are safe.  However many calls run and however their actions
  interleave, at most one fallback event is emitted, the session is only ever marked as failed
  when a fallback is configured, and a finished call has returned the primary's success, the
  fallback's answer, or, without a fallback, the primary's error; in particular the internal
  error for a missing fallback is never returned.  Once set, the mark stays.\<close>

theorem router_race_safe:
  assumes "rrun shw pm fb kind pr fr sched rstart = (pcs, sh)"
  shows "length (sh_events sh) \<le> 1 \<and> (sh_failed sh \<longrightarrow> fb \<noteq> None)
    \<and> (\<forall>i r. pcs i = RDone r \<longrightarrow>
         (\<exists>x. pr i = Inr x \<and> r = Inr x) \<or> (fb \<noteq> None \<and> r = fr i) \<or> (fb = None \<and> (\<exists>e. pr i = Inl e \<and> r = Inl e)))
    \<and> (\<forall>later. sh_failed sh \<longrightarrow> sh_failed (snd (rrun shw pm fb kind pr fr (sched @ later) rstart)))"
proof -
  have inv: "router_inv fb pr fr (pcs, sh)"
    using router_inv_run [OF router_inv_start, of fb pr fr shw pm kind sched] assms by simp
  have "rrun shw pm fb kind pr fr (sched @ later) rstart = rrun shw pm fb kind pr fr later (pcs, sh)" for later
    using assms by (simp add: rrun_def)
  then have "\<forall>later. sh_failed sh \<longrightarrow> sh_failed (snd (rrun shw pm fb kind pr fr (sched @ later) rstart))"
    using rrun_failed [of "(pcs, sh)"] by simp
  moreover have ok: "rpc_ok fb (pr i) (fr i) sh (pcs i)" for i using inv by (simp add: router_inv_def)
  have "\<forall>i r. pcs i = RDone r \<longrightarrow>
      (\<exists>x. pr i = Inr x \<and> r = Inr x) \<or> (fb \<noteq> None \<and> r = fr i) \<or> (fb = None \<and> (\<exists>e. pr i = Inl e \<and> r = Inl e))"
    using ok by (metis rpc_ok_done)
  ultimately show ?thesis using inv by (simp add: router_inv_def)
qed

section \<open>Every call ends\<close>

fun rrank :: "'r rpc \<Rightarrow> nat" where
  "rrank RLoad = 5" | "rrank RPrimary = 4" | "rrank (RCas e) = 3" | "rrank (REmit e) = 2"
| "rrank RFallback = 1" | "rrank (RDone r) = 0"

lemma rrank_zero: "rrank pc = 0 \<longleftrightarrow> (\<exists>r. pc = RDone r)"
  by (cases pc) auto

lemma rrank_step: "rrank (fst (rproc shw pm fb kind pr fr pc sh)) \<le> rrank pc - 1"
  by (cases pc) (auto simp: rproc_def split: sum.splits call_kind.splits)

lemma rstep_rank: "rrank (fst (rstep shw pm fb kind pr fr i s) j) \<le> (if i = j then rrank (fst s j) - 1 else rrank (fst s j))"
  using rrank_step [of shw pm fb "kind i" "pr i" "fr i" "fst s i" "snd s"]
  by (cases s) (auto simp: rstep_def split: prod.splits)

lemma rrun_rank: "rrank (fst (rrun shw pm fb kind pr fr sched s) j) \<le> rrank (fst s j) - count_list sched j"
proof (induction sched arbitrary: s)
  case (Cons i sched)
  have "rrank (fst (rrun shw pm fb kind pr fr sched (rstep shw pm fb kind pr fr i s)) j)
      \<le> rrank (fst (rstep shw pm fb kind pr fr i s) j) - count_list sched j" by (rule Cons.IH)
  also have "\<dots> \<le> rrank (fst s j) - count_list (i # sched) j"
    using rstep_rank [of shw pm fb kind pr fr i s j] by (auto split: if_splits)
  finally show ?case by (simp add: rrun_def)
qed (simp add: rrun_def)



theorem router_race_safe_witness:
  "\<exists>pcs sh. rrun (\<lambda>_. []) [] (Some []) (\<lambda>_. Sticky []) (\<lambda>_. Inl Cancelled) (\<lambda>_. Inr True)
     [0, 1, 0, 1, 0, 1, 0, 1, 0, 1] rstart = (pcs, sh) \<and> length (sh_events sh) \<le> 1"
proof -
  obtain pcs sh where "rrun (\<lambda>_. []) [] (Some []) (\<lambda>_. Sticky []) (\<lambda>_. Inl Cancelled) (\<lambda>_. Inr True)
     [0, 1, 0, 1, 0, 1, 0, 1, 0, 1] rstart = (pcs, sh)" by fastforce
  with router_race_safe [OF this] show ?thesis by blast
qed

text \<open>A call that runs alone computes the translated operation.\<close>

lemma rproc_simps:
  "rproc shw pm fb kind pr fr RLoad sh = (if sh_failed sh then RFallback else RPrimary, sh)"
  "rproc shw pm fb kind (Inr x) fr RPrimary sh = (RDone (Inr x), sh)"
  "rproc shw pm None kind (Inl e) fr RPrimary sh = (RDone (Inl e), sh)"
  "rproc shw pm (Some n) (Sticky role) (Inl e) fr RPrimary sh = (RCas e, sh)"
  "rproc shw pm fb kind pr fr (RCas e) sh = (if sh_failed sh then (RFallback, sh) else (REmit e, sh\<lparr>sh_failed := True\<rparr>))"
  "rproc shw pm (Some n) (Sticky role) pr fr (REmit e) sh = (RFallback, sh\<lparr>sh_events := sh_events sh @ [LlmFallback role pm n (shw e)]\<rparr>)"
  "rproc shw pm fb kind pr fr RFallback sh = (RDone (if fb = None then Inl BUG_NO_FALLBACK else fr), sh)"
  "rproc shw pm fb kind pr fr (RDone r) sh = (RDone r, sh)"
  by (simp_all add: rproc_def)

lemma alone_is_route:
  fixes R :: "('o, 'x) llm_router"
  assumes fb: "fb = map_option (\<lambda>_. rt_fallback_model_name R) (rt_fallback R)"
    and pr: "pr = call (rt_primary R)" and fr: "\<And>x. rt_fallback R = Some x \<Longrightarrow> fr = call x"
    and run: "route_sticky shw role call R = (R', res)"
  shows "\<exists>sh. rrun shw (rt_primary_model_name R) fb (\<lambda>_. Sticky role) (\<lambda>_. pr) (\<lambda>_. fr) [0, 0, 0, 0, 0]
      (\<lambda>_. RLoad, \<lparr>sh_failed = rt_primary_failed R, sh_events = rt_sink R\<rparr>) = ((\<lambda>_. RLoad)(0 := RDone res), sh)
    \<and> sh_failed sh = rt_primary_failed R' \<and> sh_events sh = rt_sink R'"
proof (cases "rt_primary_failed R")
  case True
  then show ?thesis using fb fr run
    by (cases "rt_fallback R") (auto simp: rrun_def rstep_def rproc_simps route_sticky_def)
next
  case False
  show ?thesis
  proof (cases "call (rt_primary R)")
    case (Inr x)
    then have r: "R' = R" "res = Inr x" using False run by (simp_all add: route_sticky_def)
    show ?thesis unfolding pr Inr r by (simp add: rrun_def rstep_def rproc_simps False)
  next
    case (Inl e)
    have run': "(case rt_fallback R of Some x \<Rightarrow> (mark_failed shw role e R, call x) | None \<Rightarrow> (R, Inl e)) = (R', res)"
      using run Inl False by (simp add: route_sticky_def)
    show ?thesis using False fb fr run' unfolding pr Inl
      by (cases "rt_fallback R") (auto simp: rrun_def rstep_def rproc_simps mark_failed_def)
  qed
qed

end
