(* ===== verification/WalExec.thy ===== *)
theory WalExec
  imports WalSafety GroupName
begin

text \<open>
  How the service reaches its WAL streams: \<^verbatim>\<open>AppState::with_wal_writer\<close> (\<^verbatim>\<open>app_state.rs\<close>), which opens
  the writer of a group on first use, and the flush helpers of \<^verbatim>\<open>wal_exec.rs\<close> that every write
  handler calls after its database writes.  The writers of a process form a map from group to
  writer over one shared file system.  The theorems: a call for one group leaves the files and the
  writer of every other group alone, and the position a flush reports is on disk.
\<close>

section \<open>State\<close>

record app_wal =
  aw_root :: "path option"
  aw_poisoned :: bool
  aw_writers :: "rstr \<rightharpoonup> wal_writer"
  aw_max_events :: nat
  aw_max_bytes :: nat
  aw_rotated :: "rotation_info list"

text \<open>
  The surroundings of a process: the serialisers, the Unicode tables, the identifiers minted when
  the stream of a group is opened, and the clock read when a line gets its number.
\<close>

record wal_env =
  we_codec :: wal_codec
  we_gen :: gen_codec
  we_ucd :: ucd
  we_uuid :: "rstr \<Rightarrow> nat \<Rightarrow> rstr"
  we_session :: "rstr \<Rightarrow> rstr"
  we_clock :: "nat \<Rightarrow> rstr"

section \<open>Reaching the writer of a group\<close>

definition open_writer :: "wal_env \<Rightarrow> path \<Rightarrow> rstr \<Rightarrow> app_wal \<Rightarrow> fsys \<Rightarrow> app_wal \<times> fsys \<times> wal_writer option" where
  "open_writer E root group_id st fs =
     (case aw_writers st group_id of
        Some w \<Rightarrow> (st, fs, Some w)
      | None \<Rightarrow>
          (case encode_group_dir_name group_id of
             Inl e \<Rightarrow> (st, fs, None)
           | Inr dir_name \<Rightarrow>
               (case check_no_case_insensitive_collision fs root dir_name of
                  Inl e \<Rightarrow> (st, fs, None)
                | Inr _ \<Rightarrow>
                    (case wal_new (we_codec E) (we_gen E) (we_uuid E group_id) (we_session E group_id)
                            (root @ [dir_name]) (aw_max_events st) (aw_max_bytes st) fs of
                       (fs1, Inl e) \<Rightarrow> (st, fs1, None)
                     | (fs1, Inr w) \<Rightarrow>
                         (st\<lparr>aw_writers := (aw_writers st)(group_id \<mapsto> w)\<rparr>, fs1, Some w)))))"

definition with_wal_writer ::
  "wal_env \<Rightarrow> rstr \<Rightarrow> (wal_writer \<Rightarrow> fsys \<Rightarrow> wal_writer \<times> fsys \<times> 'a) \<Rightarrow> app_wal \<Rightarrow> fsys
     \<Rightarrow> app_wal \<times> fsys \<times> 'a option" where
  "with_wal_writer E group_id f st fs =
     (case aw_root st of
        None \<Rightarrow> (st, fs, None)
      | Some root \<Rightarrow>
          if aw_poisoned st then (st, fs, None)
          else (case open_writer E root group_id st fs of
                  (st1, fs1, None) \<Rightarrow> (st1, fs1, None)
                | (st1, fs1, Some w) \<Rightarrow>
                    (case f w fs1 of
                       (w', fs2, val) \<Rightarrow>
                         (st1\<lparr>aw_writers := (aw_writers st1)(group_id \<mapsto> w')\<rparr>, fs2, Some val))))"

section \<open>Flushing\<close>

type_synonym position = "nat \<times> rstr option"

definition wal_params :: "json \<Rightarrow> json" where
  "wal_params params = (if params = JNull then JObj [] else params)"

text \<open>\<^verbatim>\<open>emit_rotation_if_any\<close>: the writer forgets a rotation once it is reported.\<close>

definition emit_rotation_if_any :: "wal_writer \<Rightarrow> wal_writer \<times> rotation_info list" where
  "emit_rotation_if_any w = (case take_rotation w of (w', None) \<Rightarrow> (w', []) | (w', Some i) \<Rightarrow> (w', [i]))"

definition prepared :: "(rstr \<times> json) list \<Rightarrow> (rstr \<times> json) list" where
  "prepared ms = map (\<lambda>(cypher, params). (cypher, wal_params params)) ms"

definition chunk_body ::
  "wal_env \<Rightarrow> io_outcome \<Rightarrow> rstr \<Rightarrow> (rstr \<times> json) list \<Rightarrow> wal_writer \<Rightarrow> fsys
     \<Rightarrow> wal_writer \<times> fsys \<times> rotation_info list \<times> position option" where
  "chunk_body E io stamp mutations w fs =
     (let before = w_global_seq w in
      case with_chunk (we_codec E) io stamp (log_all (we_ucd E) (we_clock E) [] (prepared mutations)) w fs of
        (w1, fs1, Inr _) \<Rightarrow>
          (let (w2, evs) = emit_rotation_if_any w1; after = w_global_seq w2
           in (w2, fs1, evs, if after > before then Some (after - 1, w_generation w2) else None))
      | (w1, fs1, Inl _) \<Rightarrow> (w1, fs1, [], None))"

definition wal_flush_chunk ::
  "wal_env \<Rightarrow> io_outcome \<Rightarrow> rstr \<Rightarrow> rstr \<Rightarrow> (rstr \<times> json) list \<Rightarrow> app_wal \<Rightarrow> fsys
     \<Rightarrow> app_wal \<times> fsys \<times> position option" where
  "wal_flush_chunk E io stamp group_id mutations st fs =
     (if mutations = [] then (st, fs, None)
      else case with_wal_writer E group_id (chunk_body E io stamp mutations) st fs of
             (st1, fs1, None) \<Rightarrow> (st1, fs1, None)
           | (st1, fs1, Some (evs, res)) \<Rightarrow> (st1\<lparr>aw_rotated := aw_rotated st1 @ evs\<rparr>, fs1, res))"

text \<open>The loop of \<^verbatim>\<open>wal_flush_ungrouped\<close>; each mutation comes with the outcome and the time stamp of its flush.\<close>

fun ungrouped_loop ::
  "wal_env \<Rightarrow> ((rstr \<times> json) \<times> io_outcome \<times> rstr) list \<Rightarrow> nat option \<Rightarrow> rotation_info list \<Rightarrow> wal_writer \<Rightarrow> fsys
     \<Rightarrow> wal_writer \<times> fsys \<times> rotation_info list \<times> nat option" where
  "ungrouped_loop E [] max_seq evs w fs = (w, fs, evs, max_seq)"
| "ungrouped_loop E ((mu, io, stamp) # ms) max_seq evs w fs =
     (let before = w_global_seq w in
      case with_chunk (we_codec E) io stamp (log_all (we_ucd E) (we_clock E) [] (prepared [mu])) w fs of
        (w1, fs1, Inr _) \<Rightarrow>
          (let (w2, es) = emit_rotation_if_any w1; after = w_global_seq w2;
               max_seq' = (if after > before then opt_max max_seq (after - 1) else max_seq)
           in ungrouped_loop E ms max_seq' (evs @ es) w2 fs1)
      | (w1, fs1, Inl _) \<Rightarrow> ungrouped_loop E ms max_seq evs w1 fs1)"

definition ungrouped_body ::
  "wal_env \<Rightarrow> ((rstr \<times> json) \<times> io_outcome \<times> rstr) list \<Rightarrow> wal_writer \<Rightarrow> fsys
     \<Rightarrow> wal_writer \<times> fsys \<times> rotation_info list \<times> position option" where
  "ungrouped_body E ms w fs =
     (case ungrouped_loop E ms None [] w fs of
        (w', fs', evs, max_seq) \<Rightarrow>
          (w', fs', evs, map_option (\<lambda>seq. (seq, w_generation w')) max_seq))"

definition wal_flush_ungrouped ::
  "wal_env \<Rightarrow> rstr \<Rightarrow> ((rstr \<times> json) \<times> io_outcome \<times> rstr) list \<Rightarrow> app_wal \<Rightarrow> fsys
     \<Rightarrow> app_wal \<times> fsys \<times> position option" where
  "wal_flush_ungrouped E group_id ms st fs =
     (if ms = [] then (st, fs, None)
      else case with_wal_writer E group_id (ungrouped_body E ms) st fs of
             (st1, fs1, None) \<Rightarrow> (st1, fs1, None)
           | (st1, fs1, Some (evs, res)) \<Rightarrow> (st1\<lparr>aw_rotated := aw_rotated st1 @ evs\<rparr>, fs1, res))"

section \<open>Resynchronising after a rebuild\<close>

definition resync_body :: "wal_env \<Rightarrow> nat option \<Rightarrow> wal_writer \<Rightarrow> fsys \<Rightarrow> wal_writer \<times> fsys \<times> bool" where
  "resync_body E last_committed w fs =
     (case resync_global_seq (we_codec E) fs last_committed w of
        (w', Inl e) \<Rightarrow> (w', fs, False)
      | (w', Inr _) \<Rightarrow> (w', fs, True))"

definition resync_global_seq_after_rebuild ::
  "wal_env \<Rightarrow> rstr \<Rightarrow> nat option \<Rightarrow> app_wal \<Rightarrow> fsys \<Rightarrow> app_wal \<times> fsys \<times> bool" where
  "resync_global_seq_after_rebuild E group_id last_committed st fs =
     (case with_wal_writer E group_id (resync_body E last_committed) st fs of
        (st1, fs1, None) \<Rightarrow> (st1, fs1, True)
      | (st1, fs1, Some done_ok) \<Rightarrow> (st1, fs1, done_ok))"

record resync_guard =
  gu_group_id :: rstr
  gu_done :: bool

definition guard_new :: "rstr \<Rightarrow> resync_guard" where
  "guard_new group_id = \<lparr>gu_group_id = group_id, gu_done = False\<rparr>"

definition mark_done :: "resync_guard \<Rightarrow> resync_guard" where
  "mark_done g = g\<lparr>gu_done := True\<rparr>"

definition guard_drop :: "wal_env \<Rightarrow> resync_guard \<Rightarrow> app_wal \<Rightarrow> fsys \<Rightarrow> app_wal \<times> fsys" where
  "guard_drop E g st fs =
     (if gu_done g then (st, fs)
      else case resync_global_seq_after_rebuild E (gu_group_id g) None st fs of (st1, fs1, _) \<Rightarrow> (st1, fs1))"

section \<open>Effects confined to one directory\<close>

text \<open>What a call that works in a directory may touch: the directory, those above it and its entries.\<close>

definition own_paths :: "path \<Rightarrow> path set" where
  "own_paths d = {q. prefix q d} \<union> {d @ [m] |m. True}"

definition within :: "path set \<Rightarrow> fsys \<Rightarrow> fsys \<Rightarrow> bool" where
  "within D fs fs' \<longleftrightarrow> (\<forall>q. q \<notin> D \<longrightarrow> fs_get fs' q = fs_get fs q)
     \<and> (\<forall>q. fs_get fs q = Some Dir \<longrightarrow> fs_get fs' q = Some Dir) \<and> (fs_wf fs \<longrightarrow> fs_wf fs')"

lemma within_refl [simp]: "within D fs fs"
  by (simp add: within_def)

lemma within_trans: "within D fs fs1 \<Longrightarrow> within D fs1 fs2 \<Longrightarrow> within D fs fs2"
  by (simp add: within_def)

lemma within_remove: "p \<in> D \<Longrightarrow> within D fs (ignore_err (remove_file p) fs)"
  by (auto simp: within_def ignore_err_def remove_file_def fs_wf_del split: option.splits node.splits)

lemma within_write_tmp: "write_tmp p b fs = Inr fs1 \<Longrightarrow> p \<in> D \<Longrightarrow> within D fs fs1"
  by (auto simp: within_def write_tmp_def is_dir_def fs_wf_put split: if_splits)

lemma within_hard_link: "hard_link src dst fs = Inr fs1 \<Longrightarrow> dst \<in> D \<Longrightarrow> within D fs fs1"
  by (auto simp: within_def hard_link_def fs_exists_def fs_wf_put split: if_splits option.splits node.splits)

lemma within_mkdirs: "mkdirs ps fs = Inr fs1 \<Longrightarrow> set ps \<subseteq> D \<Longrightarrow> within D fs fs1"
  using mkdirs_frame mkdirs_keeps mkdirs_wf unfolding within_def by blast

lemma within_create_dir_all:
  assumes "create_dir_all d fs = Inr fs1" shows "within (own_paths d) fs fs1"
proof (rule within_mkdirs)
  show "set (tl (prefixes d)) \<subseteq> own_paths d"
    by (cases "prefixes d") (auto simp: own_paths_def simp flip: in_set_prefixes)
qed (use assms in \<open>simp add: create_dir_all_def\<close>)

lemma within_append: "open_append p fs = Inr fs1 \<Longrightarrow> p \<in> D \<Longrightarrow> within D fs (append_bytes p data fs1)"
  by (auto simp: within_def open_append_def append_bytes_def fs_wf_put split: option.splits node.splits if_splits)

lemma own_entry: "d @ [m] \<in> own_paths d" "generation_file_path d \<in> own_paths d"
  by (simp_all add: own_paths_def generation_file_path_def)

text \<open>One attempt at minting, given that what follows a removal of an unreadable marker stays inside.\<close>

lemma within_attempt:
  assumes again: "\<And>fs0. h \<Longrightarrow> within (own_paths d) fs0 (fst (ensure_generation_impl c uu (k + 2) d False fs0))"
  shows "within (own_paths d) fs (fst (ensure_generation_impl c uu k d h fs))"
proof (cases "read_generation c fs d")
  case (Some g)
  then show ?thesis by (simp add: mint_existing)
next
  case None
  let ?D = "own_paths d" and ?t = "d @ [tmp_file_name (uu (Suc k))]" and ?p = "generation_file_path d"
  note step = ensure_generation_impl.simps [of c uu k d h fs, unfolded None option.case Let_def]
  have rm: "within ?D x (ignore_err (remove_file ?t) x)" "within ?D x (ignore_err (remove_file ?p) x)" for x
    by (rule within_remove, rule own_entry)+
  show ?thesis
  proof (cases "write_tmp ?t (as_bytes (gen_print c (uu k))) fs")
    case (Inl e)
    then show ?thesis by (simp add: step rm)
  next
    case (Inr fs1)
    note w = within_write_tmp [OF Inr own_entry(1)]
    show ?thesis
    proof (cases "hard_link ?t ?p fs1")
      case l: (Inr fs2)
      then show ?thesis
        using within_trans [OF w within_trans [OF within_hard_link [OF l own_entry(2)] rm(1)]] Inr by (simp add: step)
    next
      case l: (Inl e)
      have r1: "within ?D fs (ignore_err (remove_file ?t) fs1)" by (rule within_trans [OF w rm(1)])
      then have "within ?D fs (fst (ensure_generation_impl c uu (k + 2) d False
          (ignore_err (remove_file ?p) (ignore_err (remove_file ?t) fs1))))" if h
        by (rule within_trans [OF within_trans [OF _ rm(2)] again]) (rule that)
      then show ?thesis using r1 Inr l
        by (auto simp: step split: error.splits io_error.splits option.splits)
    qed
  qed
qed

lemma within_ensure: "within (own_paths d) fs (fst (ensure_generation_impl c uu k d h fs))"
  by (rule within_attempt) (rule within_attempt, simp)

lemma within_wal_new: "within (own_paths d) fs (fst (wal_new c gc uu sid d me mb fs))"
proof (cases "create_dir_all d fs")
  case (Inr fs1)
  have "within (own_paths d) fs1 (fst (ensure_generation gc uu d fs1))"
    by (simp add: ensure_generation_def within_ensure)
  then have "within (own_paths d) fs1 (fst (wal_new c gc uu sid d me mb fs))"
    using Inr by (auto simp: wal_new_def Let_def split: option.splits sum.splits prod.splits)
  then show ?thesis by (rule within_trans [OF within_create_dir_all [OF Inr]])
qed (simp add: wal_new_def)

text \<open>A writer stays in its directory.\<close>

definition own_file :: "wal_writer \<Rightarrow> bool" where
  "own_file w \<longleftrightarrow> (\<forall>p. w_current_file w = Some p \<longrightarrow> (\<exists>m. p = w_wal_dir w @ [m]))"

lemma own_file_next: "own_file (open_next_file stamp w)"
  by (auto simp: own_file_def make_new_file_path_def)

lemma flush_target_own:
  assumes "flush_target stamp w n k = (w1, p)" "own_file w"
  shows "w_wal_dir w1 = w_wal_dir w \<and> own_file w1 \<and> p \<in> own_paths (w_wal_dir w) \<and> w_generation w1 = w_generation w"
proof -
  have d: "w_wal_dir w1 = w_wal_dir w \<and> own_file w1 \<and> w_generation w1 = w_generation w"
    using assms own_file_next by (auto simp: flush_target_def split: if_splits)
  then show ?thesis using flush_target_current [OF assms(1)] own_entry by (fastforce simp: own_file_def)
qed

lemma own_file_update [simp]:
  "own_file (w\<lparr>w_pending_lines := ls\<rparr>) = own_file w" "own_file (w\<lparr>w_global_seq := g\<rparr>) = own_file w"
  "own_file (w\<lparr>w_events_in_current_file := n\<rparr>) = own_file w" "own_file (w\<lparr>w_bytes_in_current_file := n\<rparr>) = own_file w"
  "own_file (w\<lparr>w_last_rotation := r\<rparr>) = own_file w"
  by (simp_all add: own_file_def)

lemma flush_pending_own:
  assumes run: "flush_pending c io stamp w fs = (w', fs', r)" and own: "own_file w"
  shows "w_wal_dir w' = w_wal_dir w \<and> own_file w' \<and> w_generation w' = w_generation w \<and> within (own_paths (w_wal_dir w)) fs fs'"
proof (cases "w_pending_lines w = []")
  case True
  with assms show ?thesis by (simp add: flush_pending_def)
next
  case ne: False
  show ?thesis
  proof (cases "create_dir_all (w_wal_dir w) fs")
    case (Inl e)
    with assms ne show ?thesis by (simp add: flush_pending_def)
  next
    case (Inr fs1)
    note w1 = within_create_dir_all [OF Inr]
    show ?thesis
    proof (cases "collect_opt (line_print c) (w_pending_lines w)")
      case None
      with run own ne Inr w1 show ?thesis by (auto simp: flush_pending_def)
    next
      case (Some jsons)
      obtain w2 p where t: "flush_target stamp w (length (w_pending_lines w)) (sum_list (map (\<lambda>s. str_len s + 1) jsons)) = (w2, p)"
        by fastforce
      note o2 = flush_target_own [OF t own]
      have "within (own_paths (w_wal_dir w)) fs (append_bytes p data fs2)" if "open_append p fs1 = Inr fs2" for data fs2
        using within_trans [OF w1 within_append [OF that]] o2 by blast
      with run ne Inr Some o2 w1 t show ?thesis
        by (auto simp: flush_pending_def flush_target_def Let_def split: io_outcome.splits sum.splits)
    qed
  qed
qed

lemma log_all_own:
  "log_all U clock db ms w = (w', r) \<Longrightarrow> w_wal_dir w' = w_wal_dir w \<and> w_current_file w' = w_current_file w
     \<and> w_generation w' = w_generation w"
  by (induction ms arbitrary: w) (auto simp: log_mutation_def Let_def split: if_splits sum.splits)

lemma with_chunk_own:
  assumes run: "with_chunk c io stamp (log_all U clock db ms) w fs = (w', fs', r)" and own: "own_file w"
  shows "w_wal_dir w' = w_wal_dir w \<and> own_file w' \<and> w_generation w' = w_generation w \<and> within (own_paths (w_wal_dir w)) fs fs'"
proof -
  obtain w1 r1 where l: "log_all U clock db ms (w\<lparr>w_pending_lines := []\<rparr>) = (w1, r1)" by fastforce
  have o1: "own_file w1" "w_wal_dir w1 = w_wal_dir w" "w_generation w1 = w_generation w"
    using log_all_own [OF l] own by (auto simp: own_file_def)
  obtain w2 fs2 r2 where f: "flush_pending c io stamp w1 fs = (w2, fs2, r2)" by (cases "flush_pending c io stamp w1 fs")
  show ?thesis
    using run l f o1 flush_pending_own [OF f o1(1)] by (auto simp: with_chunk_def split: sum.splits)
qed

section \<open>Calls for one group do not disturb another\<close>

text \<open>
  What \<^verbatim>\<open>with_wal_writer\<close> asks of the closure it runs: the writer stays in its directory and no path
  outside that directory changes.
\<close>

locale wal_action =
  fixes f :: "wal_writer \<Rightarrow> fsys \<Rightarrow> wal_writer \<times> fsys \<times> 'a"
  assumes stays: "f w fs = (w', fs', v) \<Longrightarrow> own_file w \<Longrightarrow>
    w_wal_dir w' = w_wal_dir w \<and> own_file w' \<and> within (own_paths (w_wal_dir w)) fs fs'"

text \<open>The writers of a process, each in the directory of its group.\<close>

definition layout_ok :: "app_wal \<Rightarrow> bool" where
  "layout_ok st \<longleftrightarrow> (\<forall>g w. aw_writers st g = Some w \<longrightarrow> valid_str g \<and> own_file w
     \<and> (\<exists>root n. aw_root st = Some root \<and> encode_group_dir_name g = Inr n \<and> w_wal_dir w = root @ [n]))"

lemma layout_ok_writer:
  assumes "layout_ok st" "aw_writers st g = Some w" "aw_root st = Some root"
  obtains n where "encode_group_dir_name g = Inr n" "w_wal_dir w = root @ [n]" "own_file w" "valid_str g"
  using assms by (auto simp: layout_ok_def)

lemma wal_new_own: "wal_new c gc uu sid d me mb fs = (fs', Inr w) \<Longrightarrow> own_file w \<and> w_wal_dir w = d"
  by (auto simp: wal_new_def own_file_def Let_def split: sum.splits option.splits if_splits prod.splits)

lemma open_writer_cases:
  assumes run: "open_writer E root g st fs = (st', fs', r)" and lay: "layout_ok st" "aw_root st = Some root"
    and g: "valid_str g"
  shows "layout_ok st' \<and> aw_root st' = Some root \<and> (\<forall>h. h \<noteq> g \<longrightarrow> aw_writers st' h = aw_writers st h)
    \<and> aw_writers st' g = r
    \<and> (\<forall>n. encode_group_dir_name g = Inr n \<longrightarrow> within (own_paths (root @ [n])) fs fs')
    \<and> ((\<exists>e. encode_group_dir_name g = Inl e) \<longrightarrow> fs' = fs)"
proof (cases "aw_writers st g")
  case (Some w)
  then show ?thesis using run lay by (auto simp: open_writer_def)
next
  case none: None
  show ?thesis
  proof (cases "encode_group_dir_name g")
    case (Inl e)
    then show ?thesis using run lay none by (auto simp: open_writer_def)
  next
    case (Inr n)
    obtain fs1 x where new: "wal_new (we_codec E) (we_gen E) (we_uuid E g) (we_session E g) (root @ [n])
        (aw_max_events st) (aw_max_bytes st) fs = (fs1, x)" by fastforce
    have w: "within (own_paths (root @ [n])) fs fs1" using within_wal_new new by (metis fst_conv)
    have own: "own_file y \<and> w_wal_dir y = root @ [n]" if "x = Inr y" for y
      using wal_new_own [OF new [unfolded that]] .
    have lay': "layout_ok (st\<lparr>aw_writers := (aw_writers st)(g \<mapsto> y)\<rparr>)" if "x = Inr y" for y
      using lay own [OF that] g Inr by (simp add: layout_ok_def)
    show ?thesis
      using run none Inr new w lay lay' by (auto simp: open_writer_def split: sum.splits)
  qed
qed

context wal_action begin

lemma with_writer_isolated:
  assumes run: "with_wal_writer E g f st fs = (st', fs', v)" and lay: "layout_ok st" and g: "valid_str g"
  shows "layout_ok st' \<and> aw_root st' = aw_root st \<and> (\<forall>h. h \<noteq> g \<longrightarrow> aw_writers st' h = aw_writers st h)
    \<and> (\<forall>root n. aw_root st = Some root \<longrightarrow> encode_group_dir_name g = Inr n \<longrightarrow> within (own_paths (root @ [n])) fs fs')
    \<and> ((\<exists>e. encode_group_dir_name g = Inl e) \<or> aw_root st = None \<longrightarrow> fs' = fs)"
proof (cases "aw_root st = None \<or> aw_poisoned st")
  case True
  then show ?thesis using run lay by (auto simp: with_wal_writer_def split: option.splits)
next
  case False
  then obtain root where root: "aw_root st = Some root" "\<not> aw_poisoned st" by auto
  obtain st1 fs1 r where o: "open_writer E root g st fs = (st1, fs1, r)" by (cases "open_writer E root g st fs")
  note oc = open_writer_cases [OF o lay root(1) g]
  show ?thesis
  proof (cases r)
    case None
    then show ?thesis using run root o oc by (auto simp: with_wal_writer_def)
  next
    case (Some w)
    obtain w' fs2 x where fw: "f w fs1 = (w', fs2, x)" by (cases "f w fs1")
    have e: "st' = st1\<lparr>aw_writers := (aw_writers st1)(g \<mapsto> w')\<rparr>" "fs' = fs2"
      using run root o Some fw by (auto simp: with_wal_writer_def)
    obtain n where n: "encode_group_dir_name g = Inr n" "w_wal_dir w = root @ [n]" "own_file w"
      using layout_ok_writer [of st1 g w root] oc Some by metis
    note s = stays [OF fw n(3)]
    have "layout_ok st'" using oc s n e g by (auto simp: layout_ok_def)
    moreover have "within (own_paths (root @ [n])) fs fs'"
      using oc s n e within_trans by metis
    ultimately show ?thesis using oc e n root by auto
  qed
qed

end

lemma emit_rotation_own:
  "emit_rotation_if_any w = (w', evs) \<Longrightarrow> w' = w\<lparr>w_last_rotation := None\<rparr>"
  by (auto simp: emit_rotation_if_any_def take_rotation_def split: option.splits)

interpretation chunk: wal_action "chunk_body E io stamp ms" for E io stamp ms
proof
  fix w fs w' fs' v
  assume run: "chunk_body E io stamp ms w fs = (w', fs', v)" and own: "own_file w"
  obtain w1 fs1 r where c: "with_chunk (we_codec E) io stamp (log_all (we_ucd E) (we_clock E) [] (prepared ms)) w fs = (w1, fs1, r)"
    by (metis prod_cases3)
  show "w_wal_dir w' = w_wal_dir w \<and> own_file w' \<and> within (own_paths (w_wal_dir w)) fs fs'"
    using run with_chunk_own [OF c own] c
    by (auto simp: chunk_body_def Let_def dest!: emit_rotation_own split: sum.splits prod.splits)
qed

lemma ungrouped_loop_own:
  assumes "ungrouped_loop E ms mx evs w fs = (w', fs', evs', mx')" "own_file w"
  shows "w_wal_dir w' = w_wal_dir w \<and> own_file w' \<and> w_generation w' = w_generation w \<and> within (own_paths (w_wal_dir w)) fs fs'"
  using assms
proof (induction ms arbitrary: mx evs w fs)
  case (Cons m ms)
  obtain mu io stamp where m: "m = (mu, io, stamp)" by (cases m)
  obtain w1 fs1 r where c: "with_chunk (we_codec E) io stamp (log_all (we_ucd E) (we_clock E) [] (prepared [mu])) w fs = (w1, fs1, r)"
    by (metis prod_cases3)
  note o1 = with_chunk_own [OF c Cons.prems(2)]
  obtain w2 es where e: "emit_rotation_if_any w1 = (w2, es)" by fastforce
  have w2: "own_file w2" "w_wal_dir w2 = w_wal_dir w1" "w_generation w2 = w_generation w1"
    using emit_rotation_own [OF e] o1 by simp_all
  show ?case
  proof (cases r)
    case (Inl x)
    then have "ungrouped_loop E ms mx evs w1 fs1 = (w', fs', evs', mx')" using Cons.prems(1) c m by simp
    from Cons.IH [OF this] o1 show ?thesis by (metis within_trans)
  next
    case (Inr x)
    then obtain mx1 where "ungrouped_loop E ms mx1 (evs @ es) w2 fs1 = (w', fs', evs', mx')"
      using Cons.prems(1) c m e by (auto simp: Let_def)
    from Cons.IH [OF this w2(1)] o1 w2 show ?thesis by (metis within_trans)
  qed
qed simp

interpretation ungrouped: wal_action "ungrouped_body E ms" for E ms
  by unfold_locales (auto simp: ungrouped_body_def dest!: ungrouped_loop_own split: prod.splits)

interpretation resync: wal_action "resync_body E lc" for E lc
  by unfold_locales (auto simp: resync_body_def resync_global_seq_def Let_def split: prod.splits sum.splits)

text \<open>The calls the write handlers make, and any sequence of them.\<close>

datatype wal_call =
    FlushChunk rstr io_outcome rstr "(rstr \<times> json) list"
  | FlushUngrouped rstr "((rstr \<times> json) \<times> io_outcome \<times> rstr) list"
  | Resync rstr "nat option"
  | DropGuard resync_guard

fun call_group :: "wal_call \<Rightarrow> rstr" where
  "call_group (FlushChunk g io stamp ms) = g"
| "call_group (FlushUngrouped g ms) = g"
| "call_group (Resync g lc) = g"
| "call_group (DropGuard gu) = gu_group_id gu"

fun run_call :: "wal_env \<Rightarrow> wal_call \<Rightarrow> app_wal \<times> fsys \<Rightarrow> app_wal \<times> fsys" where
  "run_call E (FlushChunk g io stamp ms) (st, fs) = (case wal_flush_chunk E io stamp g ms st fs of (st', fs', _) \<Rightarrow> (st', fs'))"
| "run_call E (FlushUngrouped g ms) (st, fs) = (case wal_flush_ungrouped E g ms st fs of (st', fs', _) \<Rightarrow> (st', fs'))"
| "run_call E (Resync g lc) (st, fs) = (case resync_global_seq_after_rebuild E g lc st fs of (st', fs', _) \<Rightarrow> (st', fs'))"
| "run_call E (DropGuard gu) (st, fs) = guard_drop E gu st fs"

text \<open>What holds of the state and the file system after a call for the group \<open>g\<close>.\<close>

definition isolated :: "rstr \<Rightarrow> app_wal \<times> fsys \<Rightarrow> app_wal \<times> fsys \<Rightarrow> bool" where
  "isolated g s s' \<longleftrightarrow> layout_ok (fst s') \<and> aw_root (fst s') = aw_root (fst s)
     \<and> (\<forall>h. h \<noteq> g \<longrightarrow> aw_writers (fst s') h = aw_writers (fst s) h)
     \<and> (\<forall>root n. aw_root (fst s) = Some root \<longrightarrow> encode_group_dir_name g = Inr n
          \<longrightarrow> within (own_paths (root @ [n])) (snd s) (snd s'))
     \<and> ((\<exists>e. encode_group_dir_name g = Inl e) \<or> aw_root (fst s) = None \<longrightarrow> snd s' = snd s)"

lemma isolated_refl: "layout_ok st \<Longrightarrow> isolated g (st, fs) (st, fs)"
  by (simp add: isolated_def)

lemma isolated_rotated: "isolated g s (st\<lparr>aw_rotated := evs\<rparr>, fs') = isolated g s (st, fs')"
  by (simp add: isolated_def layout_ok_def)

lemma resync_isolated:
  assumes "layout_ok st" "valid_str g" "resync_global_seq_after_rebuild E g lc st fs = (st', fs', b)"
  shows "isolated g (st, fs) (st', fs')"
proof -
  obtain st1 fs1 v where r: "with_wal_writer E g (resync_body E lc) st fs = (st1, fs1, v)" by (metis prod_cases3)
  then have "st' = st1 \<and> fs' = fs1"
    using assms(3) by (auto simp: resync_global_seq_after_rebuild_def split: option.splits)
  then show ?thesis using resync.with_writer_isolated [OF r assms(1,2)] by (simp add: isolated_def)
qed

lemma run_call_isolated:
  assumes lay: "layout_ok st" and g: "valid_str (call_group call)"
  shows "isolated (call_group call) (st, fs) (run_call E call (st, fs))"
proof (cases call)
  case (FlushChunk g io stamp ms)
  obtain st1 fs1 v where r: "with_wal_writer E g (chunk_body E io stamp ms) st fs = (st1, fs1, v)" by (metis prod_cases3)
  have "isolated g (st, fs) (st1, fs1)"
    using chunk.with_writer_isolated [OF r lay] g FlushChunk by (simp add: isolated_def)
  then show ?thesis using FlushChunk r isolated_refl [OF lay]
    by (auto simp: wal_flush_chunk_def isolated_rotated split: option.splits)
next
  case (FlushUngrouped g ms)
  obtain st1 fs1 v where r: "with_wal_writer E g (ungrouped_body E ms) st fs = (st1, fs1, v)" by (metis prod_cases3)
  have "isolated g (st, fs) (st1, fs1)"
    using ungrouped.with_writer_isolated [OF r lay] g FlushUngrouped by (simp add: isolated_def)
  then show ?thesis using FlushUngrouped r isolated_refl [OF lay]
    by (auto simp: wal_flush_ungrouped_def isolated_rotated split: option.splits)
next
  case (Resync g lc)
  then show ?thesis using resync_isolated [OF lay] g by (auto split: prod.splits)
next
  case (DropGuard gu)
  then show ?thesis
    using resync_isolated [OF lay] g isolated_refl [OF lay] by (auto simp: guard_drop_def split: prod.splits)
qed

lemma own_paths_apart: "n \<noteq> n' \<Longrightarrow> root @ n # rest \<notin> own_paths (root @ [n'])"
  by (auto simp: own_paths_def)

lemma encode_distinct:
  "valid_str g \<Longrightarrow> valid_str h \<Longrightarrow> encode_group_dir_name g = Inr n \<Longrightarrow> encode_group_dir_name h = Inr n' \<Longrightarrow> g \<noteq> h \<Longrightarrow> n \<noteq> n'"
  using decode_encode [of g n] decode_encode [of h n'] by auto

lemma isolated_elsewhere:
  assumes i: "isolated g (st, fs) (st', fs')" and gh: "g \<noteq> h" "valid_str g" "valid_str h"
    and h: "aw_root st = Some root" "encode_group_dir_name h = Inr n"
  shows "aw_writers st' h = aw_writers st h \<and> fs_get fs' (root @ n # rest) = fs_get fs (root @ n # rest)"
proof (cases "encode_group_dir_name g")
  case (Inl e)
  then show ?thesis using i gh by (auto simp: isolated_def)
next
  case (Inr n')
  then have "n \<noteq> n'" using encode_distinct [OF gh(2,3) Inr h(2)] gh(1) by auto
  then show ?thesis using i gh h Inr own_paths_apart by (auto simp: isolated_def within_def)
qed

text \<open>C18: groups are isolated.  Whatever sequence of flushes and resynchronisations runs for other
  groups, and whichever of its system calls fail, the writer of a group and every path in its
  directory stay exactly as they were, and every writer of the process keeps to the directory of
  its own group.\<close>

theorem groups_isolated:
  assumes "layout_ok st" "aw_root st = Some root" "valid_str h" "encode_group_dir_name h = Inr n"
    and "\<forall>call \<in> set calls. valid_str (call_group call) \<and> call_group call \<noteq> h"
    and "fold (run_call E) calls (st, fs) = (st', fs')"
  shows "layout_ok st' \<and> aw_writers st' h = aw_writers st h
    \<and> fs_get fs' (root @ n # rest) = fs_get fs (root @ n # rest)"
  using assms(1,2,5,6)
proof (induction calls arbitrary: st fs)
  case (Cons call calls)
  obtain st1 fs1 where r: "run_call E call (st, fs) = (st1, fs1)" by fastforce
  have i: "isolated (call_group call) (st, fs) (st1, fs1)"
    using run_call_isolated [of st call fs E] Cons.prems r by simp
  have "aw_writers st1 h = aw_writers st h \<and> fs_get fs1 (root @ n # rest) = fs_get fs (root @ n # rest)"
    by (rule isolated_elsewhere [OF i _ _ assms(3) Cons.prems(2) assms(4)]) (use Cons.prems in auto)
  moreover have "layout_ok st1" "aw_root st1 = Some root" using i Cons.prems(2) by (simp_all add: isolated_def)
  ultimately show ?case using Cons.IH [of st1 fs1] Cons.prems r by simp
qed simp

section \<open>Positions that flushes report\<close>

text \<open>
  A torn write leaves half a line; every other outcome keeps the stream well-formed.  After it
  either nothing changed on disk or one WAL file has grown by exactly the lines of the chunk, which
  is the case whenever the chunk is acknowledged.
\<close>

definition not_torn :: "io_outcome \<Rightarrow> bool" where
  "not_torn io \<longleftrightarrow> (case io of WriteFails _ _ \<Rightarrow> False | _ \<Rightarrow> True)"

definition grown :: "wal_codec \<Rightarrow> path \<Rightarrow> wal_line list \<Rightarrow> fsys \<Rightarrow> fsys \<Rightarrow> bool" where
  "grown c d ls fs fs' \<longleftrightarrow> (\<exists>m. is_jsonl m \<and> (\<exists>b. fs_get fs' = (fs_get fs)(d @ [m] \<mapsto> File b) \<and> nl_terminated b
      \<and> file_seqs c b = file_seqs c (content fs (d @ [m])) @ map ln_seq ls
      \<and> file_records c b = file_records c (content fs (d @ [m])) @ ls))"

lemma flush_not_torn:
  assumes ok: "stream_ok c w fs" and ne: "w_pending_lines w \<noteq> []"
    and cod: "\<forall>l \<in> set (w_pending_lines w). codec_ok c l"
    and run: "flush_pending c io st w fs = (w', fs', r)" and nt: "not_torn io"
  shows "(grown c (w_wal_dir w) (w_pending_lines w) fs fs' \<or> (r \<noteq> Inr () \<and> fs' = fs))
    \<and> w_wal_dir w' = w_wal_dir w \<and> w_global_seq w' = w_global_seq w \<and> w_file_seq w' > 0
    \<and> (\<exists>m. w_current_file w' = Some (w_wal_dir w @ [m]) \<and> is_jsonl m)"
proof -
  obtain jsons where j: "collect_opt (line_print c) (w_pending_lines w) = Some jsons"
    "list_all2 (printed_as c) (w_pending_lines w) jsons" using cod by (rule printed_all)
  let ?k = "sum_list (map (\<lambda>s. str_len s + 1) jsons)" and ?d = "w_wal_dir w"
  obtain w1 p where t: "flush_target st w (length (w_pending_lines w)) ?k = (w1, p)" by fastforce
  from flush_target_ok [OF ok t] obtain m fs2 where m: "p = ?d @ [m]" "is_jsonl m"
    "open_append p fs = Inr fs2" "w_wal_dir w1 = ?d" "w_file_seq w1 > 0" "w_global_seq w1 = w_global_seq w" by blast
  have dir: "create_dir_all ?d fs = Inr fs" using ok create_dir_all_ready by (simp add: stream_ok_def)
  let ?fs' = "append_bytes p (chunk_data jsons) fs2"
  have get: "fs_get ?fs' = (fs_get fs)(p \<mapsto> File (content fs p @ chunk_data jsons))"
    using append_open [OF m(3)] by (simp add: content_def)
  have nl: "nl_terminated (content fs p)" using ok m(1,2) by (auto simp: stream_ok_def Let_def)
  note a = append_chunk [OF nl j(2)]
  have g: "grown c ?d (w_pending_lines w) fs ?fs'"
    unfolding grown_def using get m(1,2) a by blast
  note run' = run [unfolded flush_pending_def, simplified ne dir j(1) Let_def, simplified]
  have e: "(if needs_new_file w (length (w_pending_lines w)) ?k then open_next_file st w else w) = w1" "the (w_current_file w1) = p"
    using t by (auto simp: flush_target_def Let_def)
  show ?thesis
    using run' nt g get m flush_target_current [OF t]
    by (cases io) (auto simp: not_torn_def e [simplified] ne)
qed

text \<open>The numbers of a stream, and that no two of its files share one.\<close>

definition disk_seqs :: "wal_codec \<Rightarrow> path \<Rightarrow> fsys \<Rightarrow> rstr \<Rightarrow> nat set" where
  "disk_seqs c d fs m = (if is_jsonl m then set (file_seqs c (content fs (d @ [m]))) else {})"

definition seq_on_disk :: "wal_codec \<Rightarrow> path \<Rightarrow> fsys \<Rightarrow> nat \<Rightarrow> bool" where
  "seq_on_disk c d fs s \<longleftrightarrow> (\<exists>m. s \<in> disk_seqs c d fs m)"

definition uniq_seqs :: "wal_codec \<Rightarrow> path \<Rightarrow> fsys \<Rightarrow> bool" where
  "uniq_seqs c d fs \<longleftrightarrow> (\<forall>m m'. m \<noteq> m' \<longrightarrow> disk_seqs c d fs m \<inter> disk_seqs c d fs m' = {})"

lemma stream_seqs_below: "stream_ok c w fs \<Longrightarrow> s \<in> disk_seqs c (w_wal_dir w) fs m \<Longrightarrow> s < w_global_seq w"
  by (auto simp: stream_ok_def disk_seqs_def Let_def split: if_splits)

lemma grown_disk_seqs:
  assumes "grown c d ls fs fs'"
  obtains k where "is_jsonl k" "disk_seqs c d fs' = (disk_seqs c d fs)(k := disk_seqs c d fs k \<union> ln_seq ` set ls)"
proof -
  from assms obtain k b where k: "is_jsonl k" "fs_get fs' = (fs_get fs)(d @ [k] \<mapsto> File b)"
    "file_seqs c b = file_seqs c (content fs (d @ [k])) @ map ln_seq ls" by (auto simp: grown_def)
  have "content fs' (d @ [m]) = (if m = k then b else content fs (d @ [m]))" for m
    using k(2) by (simp add: content_def)
  then show thesis using k by (intro that [of k]) (auto simp: disk_seqs_def fun_eq_iff)
qed

lemma grown_on_disk: "grown c d ls fs fs' \<Longrightarrow> seq_on_disk c d fs' s \<longleftrightarrow> seq_on_disk c d fs s \<or> s \<in> ln_seq ` set ls"
  by (erule grown_disk_seqs) (unfold seq_on_disk_def fun_upd_def, simp, metis Un_iff)

lemma upd_apart:
  assumes "\<And>m. A m \<inter> L = {}" "A m \<inter> A m' = {}" "m \<noteq> m'"
  shows "(A(k := A k \<union> L)) m \<inter> (A(k := A k \<union> L)) m' = {}"
  using assms(1) [of m] assms(1) [of m'] assms(2,3) by (cases "m = k"; cases "m' = k") auto

lemma uniq_grown:
  assumes g: "grown c (w_wal_dir w) ls fs fs'" and ok: "stream_ok c w fs" and u: "uniq_seqs c (w_wal_dir w) fs"
    and new: "\<forall>l \<in> set ls. w_global_seq w \<le> ln_seq l"
  shows "uniq_seqs c (w_wal_dir w) fs'"
proof -
  obtain k where k: "disk_seqs c (w_wal_dir w) fs' =
      (disk_seqs c (w_wal_dir w) fs)(k := disk_seqs c (w_wal_dir w) fs k \<union> ln_seq ` set ls)"
    using grown_disk_seqs [OF g] .
  have apart: "disk_seqs c (w_wal_dir w) fs m \<inter> ln_seq ` set ls = {}" for m
    using stream_seqs_below [OF ok] new by fastforce
  show ?thesis
    unfolding uniq_seqs_def k
    by (intro allI impI, rule upd_apart [OF apart]) (use u in \<open>simp_all add: uniq_seqs_def\<close>)
qed

lemma stream_ok_grown:
  assumes ok: "stream_ok c w fs" and g: "grown c (w_wal_dir w) ls fs fs'"
    and s: "sorted_wrt (<) (map ln_seq ls)" "\<forall>l \<in> set ls. w_global_seq w \<le> ln_seq l \<and> ln_seq l < w_global_seq w'"
    and w': "w_wal_dir w' = w_wal_dir w" "w_global_seq w \<le> w_global_seq w'"
      "\<forall>p. w_current_file w' = Some p \<longrightarrow> w_file_seq w' > 0 \<and> (\<exists>n. p = w_wal_dir w @ [n] \<and> is_jsonl n)"
  shows "stream_ok c w' fs'"
proof -
  from g obtain k b where k: "is_jsonl k" "fs_get fs' = (fs_get fs)(w_wal_dir w @ [k] \<mapsto> File b)" "nl_terminated b"
    "file_seqs c b = file_seqs c (content fs (w_wal_dir w @ [k])) @ map ln_seq ls" by (auto simp: grown_def)
  have "stream_ok c (w'\<lparr>w_current_file := Some (w_wal_dir w @ [k]), w_file_seq := 1\<rparr>) fs'"
    by (rule stream_ok_flush [where w = "w\<lparr>w_pending_lines := ls\<rparr>" and m = k and b = b and fs = fs and g = "w_global_seq w'"])
      (use k s w' stream_ok_mono [OF ok] in auto)
  then show ?thesis using w' by (auto simp: stream_ok_def Let_def)
qed

lemma chunk_not_torn:
  assumes ok: "stream_ok c w fs" and bound: "w_global_seq w + length ms \<le> u64_max"
    and cod: "\<forall>l \<in> set (logged_lines U clock db (w_global_seq w) ms). codec_ok c l"
    and run: "with_chunk c io st (log_all U clock db ms) w fs = (w', fs', r)" and nt: "not_torn io"
  shows "stream_ok c w' fs' \<and> (uniq_seqs c (w_wal_dir w) fs \<longrightarrow> uniq_seqs c (w_wal_dir w) fs')
    \<and> w_wal_dir w' = w_wal_dir w
    \<and> w_global_seq w' = w_global_seq w + length (logged_lines U clock db (w_global_seq w) ms)
    \<and> (let ls = logged_lines U clock db (w_global_seq w) ms in
       grown c (w_wal_dir w) ls fs fs' \<or> (fs' = fs \<and> (ls = [] \<or> r \<noteq> Inr ())))"
proof -
  let ?ls = "logged_lines U clock db (w_global_seq w) ms"
  define w1 where "w1 = w\<lparr>w_global_seq := w_global_seq w + length ?ls, w_pending_lines := ?ls\<rparr>"
  have l: "log_all U clock db ms (w\<lparr>w_pending_lines := []\<rparr>) = (w1, Inr ())"
    using log_all_lines [of "w\<lparr>w_pending_lines := []\<rparr>" ms U clock db] bound by (simp add: w1_def)
  have ok1: "stream_ok c w1 fs" by (rule stream_ok_mono [OF ok]) (simp_all add: w1_def)
  show ?thesis
  proof (cases "?ls = []")
    case True
    then show ?thesis using l ok1 run by (auto simp: with_chunk_def flush_pending_def w1_def)
  next
    case False
    obtain r' where f: "flush_pending c io st w1 fs = (w', fs', r')" "r = Inr () \<longleftrightarrow> r' = Inr ()"
      using run l by (auto simp: with_chunk_def split: prod.splits sum.splits)
    note n = flush_not_torn [OF ok1 _ _ f(1) nt]
    have n': "grown c (w_wal_dir w) ?ls fs fs' \<or> (r \<noteq> Inr () \<and> fs' = fs)" "w_wal_dir w' = w_wal_dir w"
      "w_global_seq w' = w_global_seq w + length ?ls" "w_file_seq w' > 0"
      "\<exists>m. w_current_file w' = Some (w_wal_dir w @ [m]) \<and> is_jsonl m"
      using n False cod f(2) by (auto simp: w1_def)
    note sl = logged_lines_sorted [of U clock db "w_global_seq w" ms]
    have "stream_ok c w' fs'"
    proof (cases "grown c (w_wal_dir w) ?ls fs fs'")
      case True
      then show ?thesis by (rule stream_ok_grown [OF ok]) (use sl n' in auto)
    next
      case False
      then show ?thesis using n' ok1 by (auto simp: stream_ok_def w1_def Let_def)
    qed
    moreover have "uniq_seqs c (w_wal_dir w) fs \<longrightarrow> uniq_seqs c (w_wal_dir w) fs'"
      using n'(1) uniq_grown [OF _ ok] sl by blast
    ultimately show ?thesis using n' by (auto simp: Let_def)
  qed
qed

text \<open>The bodies of the two flushes.  \<open>room\<close>: the sequence numbers and the serialiser suffice.\<close>

definition room :: "wal_env \<Rightarrow> wal_writer \<Rightarrow> (rstr \<times> json) list \<Rightarrow> bool" where
  "room E w ms \<longleftrightarrow> w_global_seq w + length ms \<le> u64_max
     \<and> (\<forall>l \<in> set (logged_lines (we_ucd E) (we_clock E) [] (w_global_seq w) (prepared ms)). codec_ok (we_codec E) l)"

lemma prepared_simps [simp]: "prepared [] = []" "length (prepared ms) = length ms"
  by (simp_all add: prepared_def)

lemma prepared_Cons: "prepared (m # ms) = prepared [m] @ prepared ms"
  by (simp add: prepared_def)

lemma logged_lines_append:
  "logged_lines U clock db g (xs @ ys)
     = logged_lines U clock db g xs @ logged_lines U clock db (g + length (logged_lines U clock db g xs)) ys"
  by (induction xs arbitrary: g) auto

text \<open>What a body guarantees of the position it reports.\<close>

definition reports :: "wal_codec \<Rightarrow> wal_writer \<Rightarrow> fsys \<Rightarrow> wal_writer \<Rightarrow> fsys \<Rightarrow> nat \<Rightarrow> bool" where
  "reports c w fs w' fs' s \<longleftrightarrow> seq_on_disk c (w_wal_dir w) fs' s \<and> w_global_seq w \<le> s \<and> s < w_global_seq w'"

definition keeps_stream :: "wal_codec \<Rightarrow> wal_writer \<Rightarrow> fsys \<Rightarrow> wal_writer \<Rightarrow> fsys \<Rightarrow> bool" where
  "keeps_stream c w fs w' fs' \<longleftrightarrow> stream_ok c w' fs' \<and> w_wal_dir w' = w_wal_dir w \<and> w_global_seq w \<le> w_global_seq w'
     \<and> (uniq_seqs c (w_wal_dir w) fs \<longrightarrow> uniq_seqs c (w_wal_dir w) fs')
     \<and> (\<forall>s. seq_on_disk c (w_wal_dir w) fs s \<longrightarrow> seq_on_disk c (w_wal_dir w) fs' s)"

lemma keeps_stream_refl: "stream_ok c w fs \<Longrightarrow> keeps_stream c w fs w fs"
  by (simp add: keeps_stream_def)

lemma keeps_stream_trans: "keeps_stream c w fs w1 fs1 \<Longrightarrow> keeps_stream c w1 fs1 w2 fs2 \<Longrightarrow> keeps_stream c w fs w2 fs2"
  by (auto simp: keeps_stream_def)

lemma keeps_stream_rotated: "keeps_stream c w fs (w'\<lparr>w_last_rotation := r\<rparr>) fs' = keeps_stream c w fs w' fs'"
  by (simp add: keeps_stream_def stream_ok_def)

lemma chunk_reports:
  assumes ok: "stream_ok (we_codec E) w fs" and rm: "room E w ms" and nt: "not_torn io"
    and run: "with_chunk (we_codec E) io stamp (log_all (we_ucd E) (we_clock E) [] (prepared ms)) w fs = (w', fs', r)"
  shows "keeps_stream (we_codec E) w fs w' fs'"
    and "r = Inr () \<Longrightarrow> w_global_seq w < w_global_seq w' \<Longrightarrow> reports (we_codec E) w fs w' fs' (w_global_seq w' - 1)"
    and "w_global_seq w' = w_global_seq w + length (logged_lines (we_ucd E) (we_clock E) [] (w_global_seq w) (prepared ms))"
proof -
  let ?ls = "logged_lines (we_ucd E) (we_clock E) [] (w_global_seq w) (prepared ms)" and ?c = "we_codec E" and ?d = "w_wal_dir w"
  have n: "stream_ok ?c w' fs'" "uniq_seqs ?c ?d fs \<longrightarrow> uniq_seqs ?c ?d fs'" "w_wal_dir w' = ?d"
    "w_global_seq w' = w_global_seq w + length ?ls" "grown ?c ?d ?ls fs fs' \<or> (fs' = fs \<and> (?ls = [] \<or> r \<noteq> Inr ()))"
    using chunk_not_torn [OF ok _ _ run nt] rm by (simp_all add: room_def Let_def)
  then show "keeps_stream ?c w fs w' fs'" using grown_on_disk by (auto simp: keeps_stream_def)
  show "w_global_seq w' = w_global_seq w + length ?ls" by (rule n(4))
  assume r: "r = Inr ()" "w_global_seq w < w_global_seq w'"
  then have ne: "?ls \<noteq> []" using n(4) by simp
  have "w_global_seq w' - 1 \<in> set (map ln_seq ?ls)"
    unfolding logged_lines_seqs using n(4) ne by (cases ?ls) auto
  then have "seq_on_disk ?c ?d fs' (w_global_seq w' - 1)"
    using n(5) r ne grown_on_disk by auto
  with r show "reports ?c w fs w' fs' (w_global_seq w' - 1)" by (simp add: reports_def)
qed

lemma chunk_body_reports:
  assumes ok: "stream_ok (we_codec E) w fs" and rm: "room E w ms" and nt: "not_torn io"
    and run: "chunk_body E io stamp ms w fs = (w', fs', evs, res)"
  shows "keeps_stream (we_codec E) w fs w' fs'"
    and "res = Some (s, gen) \<Longrightarrow> reports (we_codec E) w fs w' fs' s \<and> gen = w_generation w'"
proof -
  obtain w1 fs1 r where c: "with_chunk (we_codec E) io stamp (log_all (we_ucd E) (we_clock E) [] (prepared ms)) w fs = (w1, fs1, r)"
    by (metis prod_cases3)
  note k = chunk_reports [OF ok rm nt c]
  show "keeps_stream (we_codec E) w fs w' fs'"
    using run c k(1) by (auto simp: chunk_body_def Let_def keeps_stream_rotated dest!: emit_rotation_own split: sum.splits prod.splits)
  assume "res = Some (s, gen)"
  then show "reports (we_codec E) w fs w' fs' s \<and> gen = w_generation w'"
    using run c k(2)
    by (auto simp: chunk_body_def reports_def Let_def dest!: emit_rotation_own split: sum.splits prod.splits if_splits)
qed

lemma room_first: "room E w (m # ms) \<Longrightarrow> room E w [m]"
  by (auto simp: room_def prepared_Cons [of m ms] logged_lines_append)

lemma room_next:
  assumes "room E w (m # ms)" "w_global_seq w' = w_global_seq w + length (logged_lines (we_ucd E) (we_clock E) [] (w_global_seq w) (prepared [m]))"
  shows "room E w' ms"
  using assms length_logged_lines [of "we_ucd E" "we_clock E" "[]" "w_global_seq w" "prepared [m]"]
  by (auto simp: room_def prepared_Cons [of m ms] logged_lines_append)

lemma ungrouped_loop_reports:
  assumes "stream_ok (we_codec E) w fs" "room E w (map fst ms)" "\<forall>(m, io, stamp) \<in> set ms. not_torn io"
    and "ungrouped_loop E ms mx evs w fs = (w', fs', evs', mx')"
  shows "keeps_stream (we_codec E) w fs w' fs' \<and> (\<forall>s. mx' = Some s \<longrightarrow> mx' = mx \<or> reports (we_codec E) w fs w' fs' s)"
  using assms
proof (induction ms arbitrary: mx evs w fs)
  case Nil
  then show ?case by (simp add: keeps_stream_refl)
next
  case (Cons x ms)
  obtain m io stamp where x: "x = (m, io, stamp)" by (cases x)
  obtain w1 fs1 r where c: "with_chunk (we_codec E) io stamp (log_all (we_ucd E) (we_clock E) [] (prepared [m])) w fs = (w1, fs1, r)"
    by (metis prod_cases3)
  have rm: "room E w [m]" using room_first Cons.prems(2) x by fastforce
  have nt: "not_torn io" using Cons.prems(3) x by auto
  note k = chunk_reports [OF Cons.prems(1) rm nt c]
  obtain w2 es where e: "emit_rotation_if_any w1 = (w2, es)" by fastforce
  then have w2: "w2 = w1\<lparr>w_last_rotation := None\<rparr>" by (rule emit_rotation_own)
  define w3 mx1 where "w3 = (if r = Inr () then w2 else w1)"
    and "mx1 = (if r = Inr () \<and> w_global_seq w1 > w_global_seq w then opt_max mx (w_global_seq w1 - 1) else mx)"
  obtain evs1 where run: "ungrouped_loop E ms mx1 evs1 w3 fs1 = (w', fs', evs', mx')"
    using Cons.prems(4) c e x w2 by (cases r) (auto simp: w3_def mx1_def Let_def cong: if_cong)
  have k3: "keeps_stream (we_codec E) w fs w3 fs1" using k(1) by (simp add: w3_def w2 keeps_stream_rotated)
  have g3: "w_global_seq w3 = w_global_seq w1" "w_wal_dir w3 = w_wal_dir w"
    using k3 by (simp_all add: w3_def w2 keeps_stream_def)
  have "room E w3 (map fst ms)"
    using room_next [of E w m "map fst ms" w3] Cons.prems(2) x k(3) g3(1) by simp
  from Cons.IH [OF _ this _ run] k3 Cons.prems(3)
  have ih: "keeps_stream (we_codec E) w3 fs1 w' fs'"
    "\<forall>s. mx' = Some s \<longrightarrow> mx' = mx1 \<or> reports (we_codec E) w3 fs1 w' fs' s"
    by (auto simp: keeps_stream_def)
  have up: "reports (we_codec E) w fs w' fs' s" if "reports (we_codec E) w3 fs1 w' fs' s" for s
    using that k3 g3 by (auto simp: reports_def keeps_stream_def)
  have "reports (we_codec E) w fs w' fs' s" if "mx1 = Some s" "mx1 \<noteq> mx" for s
  proof -
    have "r = Inr ()" "w_global_seq w1 > w_global_seq w" "s = w_global_seq w1 - 1"
      using that by (auto simp: mx1_def opt_max_def max_def split: if_splits option.splits)
    then show ?thesis using k(2) ih(1) g3 by (auto simp: reports_def keeps_stream_def)
  qed
  then show ?case using keeps_stream_trans [OF k3 ih(1)] ih(2) up by metis
qed

section \<open>All streams of a process\<close>

definition group_ok :: "wal_codec \<Rightarrow> path \<Rightarrow> rstr \<Rightarrow> app_wal \<Rightarrow> fsys \<Rightarrow> bool" where
  "group_ok c root g st fs \<longleftrightarrow>
     (case aw_writers st g of
        Some w \<Rightarrow> stream_ok c w fs \<and> uniq_seqs c (w_wal_dir w) fs
      | None \<Rightarrow> \<forall>n. encode_group_dir_name g = Inr n \<longrightarrow> files_ok c (root @ [n]) fs \<and> uniq_seqs c (root @ [n]) fs)"

definition streams_ok :: "wal_env \<Rightarrow> path \<Rightarrow> app_wal \<Rightarrow> fsys \<Rightarrow> bool" where
  "streams_ok E root st fs \<longleftrightarrow> layout_ok st \<and> aw_root st = Some root \<and> fs_wf fs \<and> is_dir fs []
     \<and> (\<forall>g. valid_str g \<longrightarrow> group_ok (we_codec E) root g st fs)"

lemma disk_seqs_cong: "(\<And>m. is_jsonl m \<Longrightarrow> fs_get fs' (d @ [m]) = fs_get fs (d @ [m])) \<Longrightarrow> disk_seqs c d fs' = disk_seqs c d fs"
  by (auto simp: disk_seqs_def content_def fun_eq_iff)

lemma files_ok_cong: "(\<And>m. is_jsonl m \<Longrightarrow> fs_get fs' (d @ [m]) = fs_get fs (d @ [m])) \<Longrightarrow> files_ok c d fs' = files_ok c d fs"
  by (auto simp: files_ok_def content_def)

lemma stream_ok_cong:
  assumes "stream_ok c w fs" "\<And>m. is_jsonl m \<Longrightarrow> fs_get fs' (w_wal_dir w @ [m]) = fs_get fs (w_wal_dir w @ [m])"
    and "\<And>q. fs_get fs q = Some Dir \<Longrightarrow> fs_get fs' q = Some Dir"
  shows "stream_ok c w fs'"
  using assms unfolding stream_ok_def dir_ready_def is_dir_def by (simp add: content_def)

lemma isolated_dirs: "isolated g (st, fs) (st', fs') \<Longrightarrow> fs_get fs q = Some Dir \<Longrightarrow> fs_get fs' q = Some Dir"
  by (cases "encode_group_dir_name g"; cases "aw_root st") (auto simp: isolated_def within_def)

lemma isolated_wf: "isolated g (st, fs) (st', fs') \<Longrightarrow> fs_wf fs \<Longrightarrow> fs_wf fs'"
  by (cases "encode_group_dir_name g"; cases "aw_root st") (auto simp: isolated_def within_def)

lemma group_ok_elsewhere:
  assumes i: "isolated g (st, fs) (st', fs')" and h: "h \<noteq> g" "valid_str h" "valid_str g"
    and lay: "layout_ok st" "aw_root st = Some root" and ok: "group_ok c root h st fs"
  shows "group_ok c root h st' fs'"
proof (cases "encode_group_dir_name h")
  case (Inl e)
  have "aw_writers st h \<noteq> Some w" for w
    using layout_ok_writer [OF lay(1) _ lay(2), where g = h and w = w] Inl by (metis sum.distinct(1))
  then have "aw_writers st h = None" by (cases "aw_writers st h") auto
  moreover have "aw_writers st' h = aw_writers st h" using i h by (simp add: isolated_def)
  ultimately show ?thesis using Inl by (simp add: group_ok_def)
next
  case (Inr n)
  have same: "aw_writers st' h = aw_writers st h" "fs_get fs' ((root @ [n]) @ [m]) = fs_get fs ((root @ [n]) @ [m])" for m
    using isolated_elsewhere [OF i h(1) [symmetric] h(3,2) lay(2) Inr, of "[m]"] by simp_all
  have u: "uniq_seqs c (root @ [n]) fs' = uniq_seqs c (root @ [n]) fs"
    using disk_seqs_cong [of fs' "root @ [n]" fs] same(2) by (simp add: uniq_seqs_def)
  show ?thesis
  proof (cases "aw_writers st h")
    case None
    then show ?thesis using ok same u Inr files_ok_cong [of fs' "root @ [n]" fs] by (simp add: group_ok_def)
  next
    case (Some w)
    have d: "w_wal_dir w = root @ [n]" using layout_ok_writer [OF lay(1) Some lay(2)] Inr by auto
    have "stream_ok c w fs'"
      by (rule stream_ok_cong [where fs = fs]) (use ok Some same(2) d isolated_dirs [OF i] in \<open>simp_all add: group_ok_def\<close>)
    then show ?thesis using ok Some same(1) u d by (simp add: group_ok_def)
  qed
qed

text \<open>A call for the group \<open>g\<close> keeps all streams well-formed when it keeps that of \<open>g\<close>.\<close>

lemma streams_ok_after:
  assumes i: "isolated g (st, fs) (st', fs')" and ok: "streams_ok E root st fs" and g: "valid_str g"
    and own: "group_ok (we_codec E) root g st' fs'"
  shows "streams_ok E root st' fs'"
proof -
  have "group_ok (we_codec E) root h st' fs'" if "valid_str h" for h
    using own group_ok_elsewhere [OF i _ that g] ok that by (cases "h = g") (auto simp: streams_ok_def)
  then show ?thesis
    using i ok isolated_wf [OF i] isolated_dirs [OF i, of "[]"] by (auto simp: streams_ok_def isolated_def is_dir_def)
qed

lemma wal_new_jsonl:
  assumes new: "wal_new c gc uu sid d me mb fs = (fs', r)" and dot: "\<forall>k. 46 \<notin> set (uu k)" and m: "is_jsonl m"
  shows "fs_get fs' (d @ [m]) = fs_get fs (d @ [m])"
proof (cases "create_dir_all d fs")
  case (Inl e)
  then show ?thesis using new by (simp add: wal_new_def)
next
  case (Inr fs1)
  have "d @ [m] \<notin> set (tl (prefixes d))" using tl_prefixes_length [of "d @ [m]" d] by auto
  then have 1: "fs_get fs1 (d @ [m]) = fs_get fs (d @ [m])" using Inr mkdirs_frame by (metis create_dir_all_def)
  have "fs' = fs1 \<or> (\<exists>x. ensure_generation gc uu d fs1 = (fs', x))"
    using new Inr by (auto simp: wal_new_def Let_def split: option.splits if_splits prod.splits sum.splits)
  moreover have "d @ [m] \<noteq> generation_file_path d" "d @ [m] \<noteq> d @ [tmp_file_name (uu j)]" for j
    using m dot generation_names_not_jsonl by (auto simp: generation_file_path_def)
  ultimately have "fs_get fs' (d @ [m]) = fs_get fs1 (d @ [m])"
    using ensure_frame [of gc uu 0 d True fs1 fs' _ "d @ [m]"] by (auto simp: ensure_generation_def)
  with 1 show ?thesis by simp
qed

lemma open_writer_isolated:
  "open_writer E root g st fs = (st', fs', r) \<Longrightarrow> layout_ok st \<Longrightarrow> aw_root st = Some root \<Longrightarrow> valid_str g \<Longrightarrow>
     isolated g (st, fs) (st', fs')"
  using open_writer_cases by (simp add: isolated_def)

lemma open_writer_keeps:
  assumes ok: "streams_ok E root st fs" and g: "valid_str g" and dot: "\<forall>k. 46 \<notin> set (we_uuid E g k)"
    and run: "open_writer E root g st fs = (st', fs', r)"
  shows "streams_ok E root st' fs'"
    and "encode_group_dir_name g = Inr n \<Longrightarrow> disk_seqs c (root @ [n]) fs' = disk_seqs c (root @ [n]) fs"
proof -
  let ?c = "we_codec E"
  have lay: "layout_ok st" "aw_root st = Some root" "fs_wf fs" "is_dir fs []" "group_ok ?c root g st fs"
    using ok g by (simp_all add: streams_ok_def)
  have i: "isolated g (st, fs) (st', fs')" by (rule open_writer_isolated [OF run lay(1,2) g])
  have js: "fs_get fs' ((root @ [k]) @ [m]) = fs_get fs ((root @ [k]) @ [m])"
    if "encode_group_dir_name g = Inr k" "is_jsonl m" for k m
  proof -
    have "fs' = fs \<or> (\<exists>x. wal_new ?c (we_gen E) (we_uuid E g) (we_session E g) (root @ [k]) (aw_max_events st) (aw_max_bytes st) fs = (fs', x))"
      using run that(1) by (auto simp: open_writer_def split: option.splits sum.splits prod.splits)
    then show ?thesis using wal_new_jsonl [OF _ dot that(2)] by blast
  qed
  then show ds: "disk_seqs c (root @ [n]) fs' = disk_seqs c (root @ [n]) fs" if "encode_group_dir_name g = Inr n" for n c
    using that by (intro disk_seqs_cong)
  have "group_ok ?c root g st' fs'"
  proof (cases "aw_writers st g")
    case (Some w)
    then show ?thesis using run lay by (simp add: open_writer_def)
  next
    case none: None
    show ?thesis
    proof (cases r)
      case None
      then have "aw_writers st' g = None" using open_writer_cases [OF run lay(1,2) g] by simp
      then show ?thesis
        using none lay(5) ds js files_ok_cong [of fs' "root @ [_]" fs] by (simp add: group_ok_def uniq_seqs_def)
    next
      case (Some w)
      then obtain k where k: "encode_group_dir_name g = Inr k" and new: "wal_new ?c (we_gen E) (we_uuid E g) (we_session E g)
          (root @ [k]) (aw_max_events st) (aw_max_bytes st) fs = (fs', Inr w)"
        using run none by (auto simp: open_writer_def split: sum.splits prod.splits)
      have "files_ok ?c (root @ [k]) fs" "uniq_seqs ?c (root @ [k]) fs"
        using lay(5) none k by (simp_all add: group_ok_def)
      then have "stream_ok ?c w fs'" "uniq_seqs ?c (root @ [k]) fs'"
        using wal_new_ok [OF lay(3,4) _ _ new] dot ds [OF k] by (simp_all add: uniq_seqs_def)
      then show ?thesis
        using open_writer_cases [OF run lay(1,2) g] wal_new_own [OF new] Some by (simp add: group_ok_def)
    qed
  qed
  then show "streams_ok E root st' fs'" by (rule streams_ok_after [OF i ok g])
qed

text \<open>A closure that moreover keeps the stream of its writer well-formed, provided \<open>P\<close> holds of the writer.\<close>

locale stream_action = wal_action f for f :: "wal_writer \<Rightarrow> fsys \<Rightarrow> wal_writer \<times> fsys \<times> 'a" +
  fixes c :: wal_codec and P :: "wal_writer \<Rightarrow> bool"
  assumes keeps: "f w fs = (w', fs', v) \<Longrightarrow> stream_ok c w fs \<Longrightarrow> P w \<Longrightarrow> keeps_stream c w fs w' fs'"
begin

lemma with_writer_keeps:
  assumes ok: "streams_ok E root st fs" and E: "we_codec E = c"
    and g: "valid_str g" "\<forall>k. 46 \<notin> set (we_uuid E g k)"
    and opn: "open_writer E root g st fs = (st1, fs1, r)" and P: "\<forall>w. r = Some w \<longrightarrow> P w"
    and run: "with_wal_writer E g f st fs = (st', fs', v)"
  shows "streams_ok E root st' fs'"
    and "v = Some x \<Longrightarrow> \<exists>w w'. r = Some w \<and> stream_ok c w fs1 \<and> f w fs1 = (w', fs', x) \<and> aw_writers st' g = Some w'"
proof -
  have lay: "layout_ok st" "aw_root st = Some root" using ok by (simp_all add: streams_ok_def)
  have i: "isolated g (st, fs) (st', fs')"
    using with_writer_isolated [OF run lay(1) g(1)] by (simp add: isolated_def)
  have ok1: "streams_ok E root st1 fs1" by (rule open_writer_keeps(1) [OF ok g opn])
  have w1: "aw_writers st1 g = r" using open_writer_cases [OF opn lay g(1)] by simp
  have *: "streams_ok E root st' fs' \<and> (\<forall>x. v = Some x \<longrightarrow>
      (\<exists>w w'. r = Some w \<and> stream_ok c w fs1 \<and> f w fs1 = (w', fs', x) \<and> aw_writers st' g = Some w'))"
  proof (cases "aw_poisoned st \<or> r = None")
    case True
    then show ?thesis using run lay opn ok ok1 by (auto simp: with_wal_writer_def split: if_splits)
  next
    case False
    then obtain w where w: "r = Some w" "\<not> aw_poisoned st" by auto
    obtain w' fs2 y where fw: "f w fs1 = (w', fs2, y)" by (cases "f w fs1")
    have e: "aw_writers st' g = Some w'" "fs' = fs2" "v = Some y"
      using run lay opn w fw by (auto simp: with_wal_writer_def)
    have s: "stream_ok c w fs1" "uniq_seqs c (w_wal_dir w) fs1"
      using ok1 g(1) w w1 E by (auto simp: streams_ok_def group_ok_def)
    have "keeps_stream c w fs1 w' fs2" by (rule keeps [OF fw s(1)]) (use P w in simp)
    then have "group_ok (we_codec E) root g st' fs'"
      using e s E by (simp add: group_ok_def keeps_stream_def)
    then show ?thesis using streams_ok_after [OF i ok g(1)] e s w fw by blast
  qed
  then show "streams_ok E root st' fs'" by simp
  show "\<exists>w w'. r = Some w \<and> stream_ok c w fs1 \<and> f w fs1 = (w', fs', x) \<and> aw_writers st' g = Some w'" if "v = Some x"
    using * that by blast
qed

end

interpretation chunk_stream: stream_action "chunk_body E io stamp ms" "we_codec E" "\<lambda>w. room E w ms \<and> not_torn io"
  for E io stamp ms
proof
  fix w fs w' fs' v
  assume "chunk_body E io stamp ms w fs = (w', fs', v)" "stream_ok (we_codec E) w fs" "room E w ms \<and> not_torn io"
  then show "keeps_stream (we_codec E) w fs w' fs'" using chunk_body_reports(1) by (cases v) blast
qed

lemma ungrouped_body_reports:
  assumes "stream_ok (we_codec E) w fs" "room E w (map fst ms)" "\<forall>(m, io, stamp) \<in> set ms. not_torn io"
    and "ungrouped_body E ms w fs = (w', fs', evs, res)"
  shows "keeps_stream (we_codec E) w fs w' fs'"
    and "res = Some (s, gen) \<Longrightarrow> reports (we_codec E) w fs w' fs' s \<and> gen = w_generation w'"
proof -
  obtain mx where l: "ungrouped_loop E ms None [] w fs = (w', fs', evs, mx)"
    and res: "res = map_option (\<lambda>seq. (seq, w_generation w')) mx"
    using assms(4) by (auto simp: ungrouped_body_def split: prod.splits)
  note k = ungrouped_loop_reports [OF assms(1-3) l]
  show "keeps_stream (we_codec E) w fs w' fs'" using k by simp
  show "reports (we_codec E) w fs w' fs' s \<and> gen = w_generation w'" if "res = Some (s, gen)"
    using k res that by (cases mx) auto
qed

interpretation ungrouped_stream: stream_action "ungrouped_body E ms" "we_codec E"
    "\<lambda>w. room E w (map fst ms) \<and> (\<forall>(m, io, stamp) \<in> set ms. not_torn io)"
  for E ms
proof
  fix w fs w' fs' v
  assume "ungrouped_body E ms w fs = (w', fs', v)" "stream_ok (we_codec E) w fs"
    "room E w (map fst ms) \<and> (\<forall>(m, io, stamp) \<in> set ms. not_torn io)"
  then show "keeps_stream (we_codec E) w fs w' fs'" using ungrouped_body_reports(1) by (cases v) blast
qed

lemma resync_global_seq_keeps:
  assumes "resync_global_seq c fs lc w = (w', r)" "stream_ok c w fs"
  shows "keeps_stream c w fs w' fs"
proof -
  have "w_global_seq w \<le> w_global_seq w'" "w_wal_dir w' = w_wal_dir w" "w_current_file w' = w_current_file w"
    "w_file_seq w' = w_file_seq w"
    using assms(1) by (auto simp: resync_global_seq_def Let_def split: sum.splits)
  then show ?thesis using stream_ok_mono [OF assms(2)] by (simp add: keeps_stream_def)
qed

interpretation resync_stream: stream_action "resync_body E lc" "we_codec E" "\<lambda>_. True" for E lc
proof
  fix w fs w' fs' v
  assume run: "resync_body E lc w fs = (w', fs', v)" and ok: "stream_ok (we_codec E) w fs"
  obtain w1 r where r: "resync_global_seq (we_codec E) fs lc w = (w1, r)" by fastforce
  then show "keeps_stream (we_codec E) w fs w' fs'"
    using run resync_global_seq_keeps [OF r ok] by (auto simp: resync_body_def split: sum.splits)
qed

text \<open>When a call can rely on the system: no torn write, and numbers and serialiser suffice for the opened writer.\<close>

definition opened :: "wal_env \<Rightarrow> path \<Rightarrow> rstr \<Rightarrow> app_wal \<Rightarrow> fsys \<Rightarrow> wal_writer option" where
  "opened E root g st fs = snd (snd (open_writer E root g st fs))"

definition room_opened :: "wal_env \<Rightarrow> path \<Rightarrow> rstr \<Rightarrow> (rstr \<times> json) list \<Rightarrow> app_wal \<Rightarrow> fsys \<Rightarrow> bool" where
  "room_opened E root g ms st fs \<longleftrightarrow> (case opened E root g st fs of None \<Rightarrow> True | Some w \<Rightarrow> room E w ms)"

fun call_fine :: "wal_env \<Rightarrow> path \<Rightarrow> app_wal \<Rightarrow> fsys \<Rightarrow> wal_call \<Rightarrow> bool" where
  "call_fine E root st fs (FlushChunk g io stamp ms) \<longleftrightarrow> not_torn io \<and> room_opened E root g ms st fs"
| "call_fine E root st fs (FlushUngrouped g ms) \<longleftrightarrow>
     (\<forall>(m, io, stamp) \<in> set ms. not_torn io) \<and> room_opened E root g (map fst ms) st fs"
| "call_fine E root st fs (Resync g lc) \<longleftrightarrow> True"
| "call_fine E root st fs (DropGuard gu) \<longleftrightarrow> True"

lemma streams_ok_rotated: "streams_ok E root (st\<lparr>aw_rotated := evs\<rparr>) fs = streams_ok E root st fs"
  by (simp add: streams_ok_def layout_ok_def group_ok_def)

lemma resync_keeps:
  assumes ok: "streams_ok E root st fs" and g: "valid_str g" "\<forall>k. 46 \<notin> set (we_uuid E g k)"
    and run: "resync_global_seq_after_rebuild E g lc st fs = (st', fs', b)"
  shows "streams_ok E root st' fs'"
proof -
  obtain st0 fs0 r0 where o: "open_writer E root g st fs = (st0, fs0, r0)" by (metis prod_cases3)
  obtain st1 fs1 v where r: "with_wal_writer E g (resync_body E lc) st fs = (st1, fs1, v)" by (metis prod_cases3)
  have "st' = st1 \<and> fs' = fs1"
    using run r by (auto simp: resync_global_seq_after_rebuild_def split: option.splits)
  then show ?thesis using resync_stream.with_writer_keeps(1) [OF ok refl g o _ r] by simp
qed

text \<open>C19: the streams of a process stay well-formed.  A flush or a resynchronisation for any group,
  with some of its opens and syncs failing but no write torn, keeps every stream of the process as
  it should be: each WAL file holds complete lines with ascending numbers below the next number of
  its writer, and no number occurs in two files of a stream.\<close>

theorem streams_stay_ok:
  assumes ok: "streams_ok E root st fs" and fine: "call_fine E root st fs call"
    and g: "valid_str (call_group call)" and dot: "\<forall>k. 46 \<notin> set (we_uuid E (call_group call) k)"
    and run: "run_call E call (st, fs) = (st', fs')"
  shows "streams_ok E root st' fs'"
proof (cases call)
  case (FlushChunk g io stamp ms)
  obtain st0 fs0 r0 where o: "open_writer E root g st fs = (st0, fs0, r0)" by (metis prod_cases3)
  obtain st1 fs1 v where r: "with_wal_writer E g (chunk_body E io stamp ms) st fs = (st1, fs1, v)" by (metis prod_cases3)
  have "streams_ok E root st1 fs1"
    by (rule chunk_stream.with_writer_keeps(1) [OF ok refl _ _ o _ r])
      (use FlushChunk g dot fine o in \<open>auto simp: room_opened_def opened_def\<close>)
  then show ?thesis using FlushChunk run r ok
    by (auto simp: wal_flush_chunk_def streams_ok_rotated split: option.splits if_splits)
next
  case (FlushUngrouped g ms)
  obtain st0 fs0 r0 where o: "open_writer E root g st fs = (st0, fs0, r0)" by (metis prod_cases3)
  obtain st1 fs1 v where r: "with_wal_writer E g (ungrouped_body E ms) st fs = (st1, fs1, v)" by (metis prod_cases3)
  have "streams_ok E root st1 fs1"
    by (rule ungrouped_stream.with_writer_keeps(1) [OF ok refl _ _ o _ r])
      (use FlushUngrouped g dot fine o in \<open>auto simp: room_opened_def opened_def\<close>)
  then show ?thesis using FlushUngrouped run r ok
    by (auto simp: wal_flush_ungrouped_def streams_ok_rotated split: option.splits if_splits)
next
  case (Resync g lc)
  then show ?thesis using run resync_keeps [OF ok, of g lc st' fs'] g dot by (auto split: prod.splits)
next
  case (DropGuard gu)
  then show ?thesis
    using run ok resync_keeps [OF ok, of "gu_group_id gu" None st' fs'] g dot
    by (auto simp: guard_drop_def split: prod.splits if_splits)
qed

lemma reports_sound:
  assumes ok: "streams_ok E root st fs" and g: "valid_str g" "\<forall>k. 46 \<notin> set (we_uuid E g k)"
    and n: "encode_group_dir_name g = Inr n" and o: "open_writer E root g st fs = (st1, fs1, Some w)"
    and k: "stream_ok (we_codec E) w fs1" and r: "reports (we_codec E) w fs1 w' fs' s"
  shows "seq_on_disk (we_codec E) (root @ [n]) fs' s \<and> (\<forall>s0. seq_on_disk (we_codec E) (root @ [n]) fs s0 \<longrightarrow> s0 < s)"
proof -
  have ok1: "streams_ok E root st1 fs1" by (rule open_writer_keeps(1) [OF ok g o])
  have w: "aw_writers st1 g = Some w" using open_writer_cases [OF o _ _ g(1)] ok by (simp add: streams_ok_def)
  have d: "w_wal_dir w = root @ [n]"
    using layout_ok_writer [OF _ w] ok1 n by (metis streams_ok_def sum.inject(2))
  have "s0 < s" if "seq_on_disk (we_codec E) (root @ [n]) fs s0" for s0
  proof -
    have "\<exists>m. s0 \<in> disk_seqs (we_codec E) (root @ [n]) fs1 m"
      using that open_writer_keeps(2) [OF ok g o n] by (simp add: seq_on_disk_def)
    then have "s0 < w_global_seq w" using stream_seqs_below [OF k] d by auto
    then show ?thesis using r by (simp add: reports_def)
  qed
  then show ?thesis using r d by (simp add: reports_def)
qed


section \<open>A process with one open stream\<close>

definition toy_gid :: rstr where
  "toy_gid = lit ''g''"

definition toy_env :: wal_env where
  "toy_env = \<lparr>we_codec = toy_wal_codec, we_gen = toy_codec, we_ucd = ascii_ucd, we_uuid = (\<lambda>g k. 98 # replicate k 97),
     we_session = (\<lambda>g. lit ''s''), we_clock = (\<lambda>k. [])\<rparr>"

definition toy_app :: app_wal where
  "toy_app = \<lparr>aw_root = Some [], aw_poisoned = False, aw_writers = [toy_gid \<mapsto> toy_writer\<lparr>w_wal_dir := [toy_gid]\<rparr>],
     aw_max_events = 2, aw_max_bytes = 0, aw_rotated = []\<rparr>"

definition toy_disk :: fsys where
  "toy_disk = [([], Dir), ([toy_gid], Dir)]"

lemma toy_group: "valid_str toy_gid" "encode_group_dir_name toy_gid = Inr toy_gid"
proof -
  show "valid_str toy_gid" by (simp add: valid_str_def is_scalar_def toy_gid_def)
  show "encode_group_dir_name toy_gid = Inr toy_gid" by code_simp
qed

lemma toy_disk_empty: "content toy_disk p = []" "file_seqs toy_wal_codec [] = []"
  by (simp_all add: content_def toy_disk_def fs_get_def file_seqs_def List.map_filter_def)

lemma toy_layout: "layout_ok toy_app"
  by (simp add: layout_ok_def toy_app_def toy_group own_file_def toy_writer_def)

lemma toy_no_dirs: "is_jsonl m \<Longrightarrow> fs_get toy_disk (d @ [m]) \<noteq> Some Dir"
proof -
  assume j: "is_jsonl m"
  have "\<not> is_jsonl toy_gid" by (simp add: toy_gid_def is_jsonl_def extension_def lit_def)
  with j have "m \<noteq> toy_gid" by auto
  then show ?thesis by (auto simp: toy_disk_def fs_get_def)
qed

lemma toy_streams_ok: "streams_ok toy_env [] toy_app toy_disk"
proof -
  have s: "stream_ok toy_wal_codec (toy_writer\<lparr>w_wal_dir := [toy_gid]\<rparr>) toy_disk"
    using toy_no_dirs toy_disk_empty
    by (simp add: stream_ok_def dir_ready_def toy_writer_def nl_terminated_def) (simp add: toy_disk_def fs_get_def is_dir_def)
  have u: "uniq_seqs toy_wal_codec d toy_disk" for d
    using toy_disk_empty by (simp add: uniq_seqs_def disk_seqs_def)
  have f: "files_ok toy_wal_codec d toy_disk" for d
    using toy_no_dirs toy_disk_empty by (simp add: files_ok_def nl_terminated_def)
  have "group_ok toy_wal_codec [] g toy_app toy_disk" for g
    using s u f by (simp add: group_ok_def toy_app_def)
  moreover have "fs_wf toy_disk" "is_dir toy_disk []" "aw_root toy_app = Some []" "we_codec toy_env = toy_wal_codec"
    by (simp_all add: fs_wf_def toy_disk_def is_dir_def fs_get_def toy_app_def toy_env_def)
  ultimately show ?thesis using toy_layout by (simp add: streams_ok_def)
qed

lemma toy_opened: "opened toy_env [] toy_gid toy_app toy_disk = Some (toy_writer\<lparr>w_wal_dir := [toy_gid]\<rparr>)"
  by (simp add: opened_def open_writer_def toy_app_def)

lemma toy_prepared: "prepared [toy_mutation] = [toy_mutation]"
  by (simp add: prepared_def toy_mutation_def wal_params_def)

lemma toy_room: "room_opened toy_env [] toy_gid [toy_mutation] toy_app toy_disk"
  using toy_codec_line_ok [of 0]
  by (simp add: room_opened_def toy_opened room_def toy_prepared) (simp add: toy_env_def toy_logged toy_writer_def u64_max_def)

lemma toy_flush:
  "\<exists>st' fs' gen. wal_flush_chunk toy_env IoOk (lit ''t'') toy_gid [toy_mutation] toy_app toy_disk = (st', fs', Some (0, gen))"
proof -
  let ?w = "toy_writer\<lparr>w_wal_dir := [toy_gid]\<rparr>"
  have ok: "stream_ok toy_wal_codec ?w toy_disk"
    using toy_streams_ok toy_group(1) by (auto simp: streams_ok_def group_ok_def toy_app_def toy_env_def)
  obtain w' fs' where r: "with_chunk toy_wal_codec IoOk (lit ''t'') (log_all ascii_ucd (\<lambda>k. []) [] [toy_mutation]) ?w toy_disk
      = (w', fs', Inr ())" "w_global_seq w' = 1"
    using chunk_committed [OF ok, of "[toy_mutation]" ascii_ucd "\<lambda>k. []" "[]" "lit ''t''"] toy_codec_line_ok [of 0]
    by (auto simp: toy_logged toy_writer_def u64_max_def)
  have "\<exists>w2 evs. chunk_body toy_env IoOk (lit ''t'') [toy_mutation] ?w toy_disk = (w2, fs', evs, Some (0, w_generation w2))"
    using r by (auto simp: chunk_body_def toy_env_def toy_prepared toy_writer_def Let_def
        dest: emit_rotation_own split: prod.splits)
  then show ?thesis
    by (auto simp: wal_flush_chunk_def with_wal_writer_def toy_app_def open_writer_def)
qed

lemma toy_uuid: "\<forall>k. 46 \<notin> set (we_uuid toy_env g k)"
  by (simp add: toy_env_def)


theorem streams_stay_ok_witness:
  "\<exists>st' fs'. run_call toy_env (FlushChunk toy_gid (OpenFails NotFound) (lit ''t'') [toy_mutation]) (toy_app, toy_disk) = (st', fs')
     \<and> streams_ok toy_env [] st' fs'"
proof -
  obtain st' fs' where r: "run_call toy_env (FlushChunk toy_gid (OpenFails NotFound) (lit ''t'') [toy_mutation]) (toy_app, toy_disk) = (st', fs')"
    by fastforce
  have "streams_ok toy_env [] st' fs'"
    by (rule streams_stay_ok [OF toy_streams_ok _ _ _ r])
      (use toy_room toy_group toy_uuid in \<open>simp_all add: not_torn_def\<close>)
  with r show ?thesis by blast
qed

theorem groups_isolated_witness:
  "\<exists>st' fs'. fold (run_call toy_env) [FlushChunk (lit ''h'') IoOk (lit ''t'') [toy_mutation], Resync (lit ''h'') (Some 7)] (toy_app, toy_disk)
      = (st', fs')
     \<and> aw_writers st' toy_gid = aw_writers toy_app toy_gid \<and> fs_get fs' [toy_gid] = Some Dir"
proof -
  let ?calls = "[FlushChunk (lit ''h'') IoOk (lit ''t'') [toy_mutation], Resync (lit ''h'') (Some 7)]"
  obtain st' fs' where r: "fold (run_call toy_env) ?calls (toy_app, toy_disk) = (st', fs')" by (metis surj_pair)
  have "aw_writers st' toy_gid = aw_writers toy_app toy_gid \<and> fs_get fs' ([] @ toy_gid # []) = fs_get toy_disk ([] @ toy_gid # [])"
    using groups_isolated [OF toy_layout _ toy_group _ r, of "[]" "[]"]
    by (simp add: toy_app_def valid_str_def is_scalar_def toy_gid_def)
  with r show ?thesis by (simp add: toy_disk_def fs_get_def)
qed

end
