(* ===== verification/Position.thy ===== *)
theory Position
  imports WalExec "HOL-Library.Word"
begin

text \<open>
  The \<^verbatim>\<open>WalPosition\<close> table of the database (\<^verbatim>\<open>db.rs\<close>: \<^verbatim>\<open>get_wal_position\<close>, \<^verbatim>\<open>set_wal_position\<close>,
  \<^verbatim>\<open>migrate_legacy_singleton_wal_position\<close>), its advance after a flush (\<^verbatim>\<open>wal_exec.rs\<close>) and the three
  classifications the status handler derives from it (\<^verbatim>\<open>handlers.rs\<close>).  A row is what the one
  statement of \<^verbatim>\<open>set_wal_position\<close> merges; sequence numbers pass through a signed 64-bit column.
  Whether the database refuses a statement is the parameter \<open>fault\<close>.
\<close>

section \<open>Rows\<close>

record position_row =
  pr_applied_seq :: int
  pr_generation :: "rstr option"
  pr_embedding_model :: "rstr option"
  pr_embedding_dim :: "int option"

type_synonym position_table = "rstr \<rightharpoonup> position_row"

record wal_position_record =
  wp_applied_seq :: "nat option"
  wp_generation :: "rstr option"
  wp_embedding_model :: "rstr option"
  wp_embedding_dim :: "int option"

definition no_position :: wal_position_record where
  "no_position = \<lparr>wp_applied_seq = None, wp_generation = None, wp_embedding_model = None, wp_embedding_dim = None\<rparr>"

text \<open>\<^verbatim>\<open>seq as i64\<close> and the reading of a signed column as an unsigned number.\<close>

definition u64_as_i64 :: "nat \<Rightarrow> int" where
  "u64_as_i64 n = sint (word_of_nat n :: 64 word)"

definition value_as_optional_u64 :: "int \<Rightarrow> nat option" where
  "value_as_optional_u64 i = (if i \<ge> 0 then Some (nat i) else None)"

definition get_wal_position :: "error option \<Rightarrow> position_table \<Rightarrow> rstr \<Rightarrow> wal_position_record result" where
  "get_wal_position fault T group_id =
     (case fault of Some e \<Rightarrow> Inl e
      | None \<Rightarrow>
          Inr (case T group_id of
                 None \<Rightarrow> no_position
               | Some r \<Rightarrow> \<lparr>wp_applied_seq = value_as_optional_u64 (pr_applied_seq r), wp_generation = pr_generation r,
                   wp_embedding_model = pr_embedding_model r,
                   wp_embedding_dim = map_option int (Option.bind (pr_embedding_dim r) value_as_optional_u64)\<rparr>))"

definition set_wal_position ::
  "error option \<Rightarrow> rstr \<Rightarrow> nat \<Rightarrow> rstr option \<Rightarrow> (rstr \<times> int) option \<Rightarrow> position_table \<Rightarrow> position_table \<times> unit result" where
  "set_wal_position fault group_id seq generation embedding_identity T =
     (case fault of Some e \<Rightarrow> (T, Inl e)
      | None \<Rightarrow>
          (T(group_id \<mapsto> \<lparr>pr_applied_seq = u64_as_i64 seq, pr_generation = generation,
               pr_embedding_model = map_option fst embedding_identity,
               pr_embedding_dim = map_option snd embedding_identity\<rparr>), Inr ()))"

definition advance_wal_position ::
  "error option \<Rightarrow> rstr \<times> int \<Rightarrow> rstr \<Rightarrow> position option \<Rightarrow> position_table \<Rightarrow> position_table" where
  "advance_wal_position fault running group_id res T =
     (case res of None \<Rightarrow> T
      | Some (seq, generation) \<Rightarrow> fst (set_wal_position fault group_id seq generation (Some running) T))"

definition SINGLETON :: rstr where
  "SINGLETON = lit ''singleton''"

definition migrate_legacy_singleton_wal_position :: "rstr \<Rightarrow> position_table \<Rightarrow> position_table" where
  "migrate_legacy_singleton_wal_position group_id T =
     (case Option.bind (T SINGLETON) (\<lambda>r. value_as_optional_u64 (pr_applied_seq r)) of
        None \<Rightarrow> T
      | Some seq \<Rightarrow>
          (let T1 = (case get_wal_position None T group_id of
                       Inr p \<Rightarrow> if wp_applied_seq p = None then fst (set_wal_position None group_id seq None None T) else T
                     | Inl e \<Rightarrow> T)
           in T1(SINGLETON := None)))"

section \<open>Status\<close>

definition wal_generation_status :: "nat option \<Rightarrow> rstr option \<Rightarrow> rstr" where
  "wal_generation_status max_seq generation =
     (case (max_seq, generation) of
        (_, Some _) \<Rightarrow> lit ''known''
      | (None, None) \<Rightarrow> lit ''not_applicable''
      | (Some _, None) \<Rightarrow> lit ''unknown'')"

definition wal_hydration_status :: "nat option \<Rightarrow> nat option \<Rightarrow> rstr" where
  "wal_hydration_status applied_seq max_seq =
     (case max_seq of
        None \<Rightarrow> lit ''not_applicable''
      | Some mx \<Rightarrow> if mx = 0 then lit ''not_applicable''
          else if (case applied_seq of None \<Rightarrow> 0 | Some a \<Rightarrow> a) \<ge> mx then lit ''hydrated'' else lit ''wal_ahead'')"

definition embedding_model_status :: "nat option \<Rightarrow> (rstr \<times> int) option \<Rightarrow> rstr \<times> int \<Rightarrow> rstr" where
  "embedding_model_status applied_seq recorded running =
     (case (applied_seq, recorded) of
        (None, _) \<Rightarrow> lit ''not_applicable''
      | (Some _, None) \<Rightarrow> lit ''unknown''
      | (Some _, Some (model, dim)) \<Rightarrow> if model = fst running \<and> dim = snd running then lit ''match'' else lit ''mismatch'')"

section \<open>Properties of the table\<close>

lemma u64_as_i64_mod: "u64_as_i64 n = (int n + 2 ^ 63) mod 2 ^ 64 - 2 ^ 63"
proof -
  have "sint (word_of_int (int n) :: 64 word) = signed_take_bit 63 (int n)"
    by (simp only: signed_of_int) simp
  also have "\<dots> = take_bit 64 (int n + 2 ^ 63) - 2 ^ 63" by (simp add: signed_take_bit_eq_take_bit_shift)
  finally show ?thesis by (simp add: u64_as_i64_def take_bit_eq_mod)
qed

lemma u64_as_i64_cases: "n \<le> u64_max \<Longrightarrow> u64_as_i64 n = (if n < 2 ^ 63 then int n else int n - 2 ^ 64)"
proof -
  assume n: "n \<le> u64_max"
  have "(int n + 2 ^ 63) mod 2 ^ 64 = (if n < 2 ^ 63 then int n + 2 ^ 63 else int n - 2 ^ 63)"
  proof (cases "n < 2 ^ 63")
    case False
    have "(int n + 2 ^ 63) mod 2 ^ 64 = (int n + 2 ^ 63 - 2 ^ 64) mod 2 ^ 64" by (simp only: minus_mod_self2)
    also have "\<dots> = int n + 2 ^ 63 - 2 ^ 64" using n False by (intro mod_pos_pos_trivial) (auto simp: u64_max_def)
    finally show ?thesis using False by simp
  qed (auto intro: mod_pos_pos_trivial)
  then show ?thesis by (auto simp: u64_as_i64_mod)
qed

lemma read_back: "n \<le> u64_max \<Longrightarrow> value_as_optional_u64 (u64_as_i64 n) = (if n < 2 ^ 63 then Some n else None)"
  by (auto simp: u64_as_i64_cases value_as_optional_u64_def u64_max_def)

lemma get_after_set:
  assumes "seq \<le> u64_max"
  shows "get_wal_position None (fst (set_wal_position None g seq gen ident T)) h =
    (if h = g then Inr \<lparr>wp_applied_seq = (if seq < 2 ^ 63 then Some seq else None), wp_generation = gen,
        wp_embedding_model = map_option fst ident,
        wp_embedding_dim = Option.bind (map_option snd ident) (\<lambda>d. if d \<ge> 0 then Some d else None)\<rparr>
     else get_wal_position None T h)"
  using read_back [OF assms]
  by (cases ident) (auto simp: get_wal_position_def set_wal_position_def value_as_optional_u64_def)

text \<open>C21: a recorded position is read back for its group and for no other.  After a flush that reported
  the number \<open>seq\<close>, the position of the group is that number with the generation of the stream and
  the identity of the running embedder, as long as the number fits the signed column of the
  database; from 2^63 on it reads as unknown.  Positions of other groups are untouched, and a flush
  that reported nothing leaves the table as it was.\<close>

theorem position_advances:
  assumes "seq \<le> u64_max" and "dim \<ge> 0"
  shows "get_wal_position None (advance_wal_position None (model, dim) g (Some (seq, gen)) T) g =
      Inr \<lparr>wp_applied_seq = (if seq < 2 ^ 63 then Some seq else None), wp_generation = gen,
        wp_embedding_model = Some model, wp_embedding_dim = Some dim\<rparr>
    \<and> (\<forall>h. h \<noteq> g \<longrightarrow> get_wal_position None (advance_wal_position None (model, dim) g (Some (seq, gen)) T) h
          = get_wal_position None T h)
    \<and> advance_wal_position fault (model, dim) g None T = T
    \<and> advance_wal_position (Some e) (model, dim) g (Some (seq, gen)) T = T"
  using get_after_set [OF assms(1), of g gen "Some (model, dim)" T] assms(2)
  by (simp add: advance_wal_position_def) (simp add: set_wal_position_def)

theorem position_advances_witness:
  "get_wal_position None (advance_wal_position None (lit ''m'', 384) (lit ''g'') (Some (7, None)) Map.empty) (lit ''g'')
    = Inr \<lparr>wp_applied_seq = Some 7, wp_generation = None, wp_embedding_model = Some (lit ''m''), wp_embedding_dim = Some 384\<rparr>"
  using position_advances [of 7 384 "lit ''m''" "lit ''g''" None Map.empty] by (simp add: u64_max_def)

text \<open>
  The migration of the row of older databases.  For a group other than the one named like the old
  row, an unknown position takes over the old number, a known one stays, the old row disappears
  and a second run changes nothing.
\<close>

lemma migration_carries_forward:
  assumes "g \<noteq> SINGLETON" "T SINGLETON = Some r" "pr_applied_seq r = int seq" "seq < 2 ^ 63"
  shows "migrate_legacy_singleton_wal_position g T SINGLETON = None"
    and "get_wal_position None (migrate_legacy_singleton_wal_position g T) g =
      (case get_wal_position None T g of Inr p \<Rightarrow>
         if wp_applied_seq p = None then Inr (no_position\<lparr>wp_applied_seq := Some seq\<rparr>) else Inr p | Inl e \<Rightarrow> Inl e)"
    and "h \<noteq> g \<Longrightarrow> h \<noteq> SINGLETON \<Longrightarrow>
      migrate_legacy_singleton_wal_position g T h = T h"
    and "migrate_legacy_singleton_wal_position g (migrate_legacy_singleton_wal_position g T)
      = migrate_legacy_singleton_wal_position g T"
proof -
  have rb: "value_as_optional_u64 (u64_as_i64 seq) = Some seq" using assms(4) by (simp add: read_back u64_max_def)
  have b: "Option.bind (T SINGLETON) (\<lambda>r. value_as_optional_u64 (pr_applied_seq r)) = Some seq"
    using assms by (simp add: value_as_optional_u64_def)
  obtain p where p: "get_wal_position None T g = Inr p" by (simp add: get_wal_position_def)
  define T1 where "T1 = (if wp_applied_seq p = None then fst (set_wal_position None g seq None None T) else T)"
  have m: "migrate_legacy_singleton_wal_position g T = T1(SINGLETON := None)"
    unfolding migrate_legacy_singleton_wal_position_def b by (simp add: p T1_def)
  then show "migrate_legacy_singleton_wal_position g T SINGLETON = None" by simp
  then show "migrate_legacy_singleton_wal_position g (migrate_legacy_singleton_wal_position g T)
      = migrate_legacy_singleton_wal_position g T"
    by (simp add: migrate_legacy_singleton_wal_position_def [of g "migrate_legacy_singleton_wal_position g T"])
  show "h \<noteq> g \<Longrightarrow> h \<noteq> SINGLETON \<Longrightarrow> migrate_legacy_singleton_wal_position g T h = T h"
    using m by (simp add: T1_def set_wal_position_def)
  show "get_wal_position None (migrate_legacy_singleton_wal_position g T) g =
      (case get_wal_position None T g of Inr p \<Rightarrow>
         if wp_applied_seq p = None then Inr (no_position\<lparr>wp_applied_seq := Some seq\<rparr>) else Inr p | Inl e \<Rightarrow> Inl e)"
    using m p assms(1) rb by (simp add: T1_def) (auto simp: get_wal_position_def set_wal_position_def no_position_def)
qed

text \<open>The migration of old position rows mistakes a group named \<^verbatim>\<open>singleton\<close> for the old row.  When
  that group has recorded a position, the next start deletes it, and hands its number to the
  default group if that has none: the position of one stream becomes that of another.\<close>

lemma singleton_group_loses_position:
  "let T = fst (set_wal_position None (lit ''singleton'') 41 (Some (lit ''gen'')) None Map.empty);
       T' = migrate_legacy_singleton_wal_position (lit ''liminis'') T
   in get_wal_position None T (lit ''singleton'') = Inr (no_position\<lparr>wp_applied_seq := Some 41, wp_generation := Some (lit ''gen'')\<rparr>)
    \<and> get_wal_position None T' (lit ''singleton'') = Inr no_position
    \<and> get_wal_position None T' (lit ''liminis'') = Inr (no_position\<lparr>wp_applied_seq := Some 41\<rparr>)"
proof -
  have i: "u64_as_i64 41 = 41" by (simp add: u64_as_i64_cases u64_max_def)
  show ?thesis
    by (simp add: Let_def set_wal_position_def get_wal_position_def migrate_legacy_singleton_wal_position_def i
        value_as_optional_u64_def SINGLETON_def no_position_def)
qed

section \<open>Properties of the status\<close>

text \<open>A stream with more than one number on disk is reported behind exactly when the database has not
  applied its highest number.\<close>

lemma hydration_behind:
  "wal_hydration_status applied (Some mx) = lit ''wal_ahead'' \<longleftrightarrow> (case applied of None \<Rightarrow> 0 | Some a \<Rightarrow> a) < mx"
  by (auto simp: wal_hydration_status_def split: option.splits)

text \<open>Right after an advance the recorded embedder is the running one.\<close>

lemma embedding_matches_after_advance:
  assumes "seq < 2 ^ 63" "dim \<ge> 0"
    and "get_wal_position None (advance_wal_position None (model, dim) g (Some (seq, gen)) T) g = Inr p"
  shows "embedding_model_status (wp_applied_seq p)
     (case (wp_embedding_model p, wp_embedding_dim p) of (Some m, Some d) \<Rightarrow> Some (m, d) | _ \<Rightarrow> None) (model, dim) = lit ''match''"
proof -
  have "seq \<le> u64_max" using assms(1) by (simp add: u64_max_def)
  from get_after_set [OF this, of g gen "Some (model, dim)" T g] assms show ?thesis
    by (auto simp: advance_wal_position_def embedding_model_status_def)
qed

end
