(* ===== verification/Recovery.thy ===== *)
theory Recovery
  imports Position
begin

text \<open>
  Deriving a WAL position for a database that has none (\<^verbatim>\<open>recovery.rs\<close>: \<^verbatim>\<open>derive_episode_cursor\<close>,
  \<^verbatim>\<open>backfill_applied_seq_if_absent\<close>).  The queries on the graph are the parameter \<open>group_view\<close>.  A scan
  of a directory that carries the name of a WAL file never ends, because every read of a line fails
  and the code goes on to the next line: that is the outer value \<open>None\<close>.  The theorem: the derived
  position is the least number of a line that names the latest episode.
\<close>

section \<open>The episode cursor\<close>

datatype cursor_reason = UuidMatch | NoEpisodes | UuidNotFound

record group_view =
  gv_latest_episode_uuid :: "rstr \<Rightarrow> rstr option result"
  gv_count_episodics :: "rstr \<Rightarrow> nat result"
  gv_count_entities :: "rstr \<Rightarrow> nat result"
  gv_count_relates_to :: "rstr \<Rightarrow> nat result"

definition names_uuid :: "rstr \<Rightarrow> wal_line \<Rightarrow> bool" where
  "names_uuid target_uuid wl \<longleftrightarrow>
     Option.bind (value_get (ln_params wl) (lit ''uuid'')) as_str = Some target_uuid
     \<or> Option.bind (value_get (ln_params wl) (lit ''ep'')) as_str = Some target_uuid"

fun scan_lines_for_uuid :: "wal_codec \<Rightarrow> rstr \<Rightarrow> bytes list \<Rightarrow> nat option" where
  "scan_lines_for_uuid c target_uuid [] = None"
| "scan_lines_for_uuid c target_uuid (l # ls) =
     (case from_utf8 l of
        None \<Rightarrow> scan_lines_for_uuid c target_uuid ls
      | Some line \<Rightarrow>
          if \<not> str_contains line target_uuid then scan_lines_for_uuid c target_uuid ls
          else (case line_parse c line of
                  None \<Rightarrow> scan_lines_for_uuid c target_uuid ls
                | Some wl \<Rightarrow> if names_uuid target_uuid wl then Some (ln_seq wl)
                    else scan_lines_for_uuid c target_uuid ls))"

definition scan_file_for_uuid :: "wal_codec \<Rightarrow> fsys \<Rightarrow> path \<Rightarrow> rstr \<Rightarrow> nat option result option" where
  "scan_file_for_uuid c fs p target_uuid =
     (case fs_get fs p of
        None \<Rightarrow> Some (Inl (WalIo NotFound))
      | Some Dir \<Rightarrow> None
      | Some (File b) \<Rightarrow> Some (Inr (scan_lines_for_uuid c target_uuid (lines b))))"

definition collect_wal_files :: "fsys \<Rightarrow> path \<Rightarrow> rstr list" where
  "collect_wal_files fs wal_dir =
     sort (case read_dir fs wal_dir of Inl _ \<Rightarrow> [] | Inr ns \<Rightarrow> filter is_jsonl ns)"

fun cursor_loop :: "wal_codec \<Rightarrow> fsys \<Rightarrow> path \<Rightarrow> rstr \<Rightarrow> rstr list \<Rightarrow> nat option \<Rightarrow> nat option option" where
  "cursor_loop c fs wal_dir target_uuid [] min_seq = Some min_seq"
| "cursor_loop c fs wal_dir target_uuid (n # ns) min_seq =
     (case scan_file_for_uuid c fs (wal_dir @ [n]) target_uuid of
        None \<Rightarrow> None
      | Some (Inr (Some seq)) \<Rightarrow> cursor_loop c fs wal_dir target_uuid ns (opt_min min_seq seq)
      | Some (Inr None) \<Rightarrow> cursor_loop c fs wal_dir target_uuid ns min_seq
      | Some (Inl _) \<Rightarrow> cursor_loop c fs wal_dir target_uuid ns min_seq)"

definition derive_episode_cursor ::
  "wal_codec \<Rightarrow> group_view \<Rightarrow> fsys \<Rightarrow> rstr \<Rightarrow> path \<Rightarrow> (nat \<times> cursor_reason) result option" where
  "derive_episode_cursor c V fs group_id wal_dir =
     (case gv_latest_episode_uuid V group_id of
        Inl e \<Rightarrow> Some (Inl e)
      | Inr None \<Rightarrow> Some (Inr (0, NoEpisodes))
      | Inr (Some target_uuid) \<Rightarrow>
          (case cursor_loop c fs wal_dir target_uuid (collect_wal_files fs wal_dir) None of
             None \<Rightarrow> None
           | Some (Some seq) \<Rightarrow> Some (Inr (seq, UuidMatch))
           | Some None \<Rightarrow> Some (Inr (0, UuidNotFound))))"

section \<open>Backfilling a position\<close>

definition group_has_no_content :: "group_view \<Rightarrow> rstr \<Rightarrow> bool result" where
  "group_has_no_content V group_id =
     rbind (gv_count_episodics V group_id) (\<lambda>n1.
       if n1 \<noteq> 0 then Inr False
       else rbind (gv_count_entities V group_id) (\<lambda>n2.
         if n2 \<noteq> 0 then Inr False
         else rbind (gv_count_relates_to V group_id) (\<lambda>n3. Inr (n3 = 0))))"

definition backfill_applied_seq_if_absent ::
  "wal_codec \<Rightarrow> gen_codec \<Rightarrow> group_view \<Rightarrow> error option \<Rightarrow> error option \<Rightarrow> fsys \<Rightarrow> rstr \<Rightarrow> path
     \<Rightarrow> position_table \<Rightarrow> (position_table \<times> unit result) option" where
  "backfill_applied_seq_if_absent c gc V get_fault set_fault fs group_id wal_dir T =
     (case get_wal_position get_fault T group_id of
        Inl e \<Rightarrow> Some (T, Inl e)
      | Inr p \<Rightarrow>
          if wp_applied_seq p \<noteq> None then Some (T, Inr ())
          else
            (let generation = read_generation gc fs wal_dir in
             case gv_count_episodics V group_id of
               Inl e \<Rightarrow> Some (T, Inl e)
             | Inr n \<Rightarrow>
                 if n = 0
                 then (case group_has_no_content V group_id of
                         Inl e \<Rightarrow> Some (T, Inl e)
                       | Inr True \<Rightarrow> Some (set_wal_position set_fault group_id 0 generation None T)
                       | Inr False \<Rightarrow> Some (T, Inr ()))
                 else (case derive_episode_cursor c V fs group_id wal_dir of
                         None \<Rightarrow> None
                       | Some (Inl e) \<Rightarrow> Some (T, Inl e)
                       | Some (Inr (seq, reason)) \<Rightarrow>
                           if reason = UuidMatch
                           then Some (set_wal_position set_fault group_id seq generation None T)
                           else Some (T, Inr ()))))"

section \<open>The cursor is the least number naming the episode\<close>

text \<open>The lines of a file that parse, and those of them that name an episode.\<close>

definition raw_parse :: "wal_codec \<Rightarrow> bytes \<Rightarrow> wal_line option" where
  "raw_parse c l = Option.bind (from_utf8 l) (line_parse c)"

definition naming_seqs :: "wal_codec \<Rightarrow> rstr \<Rightarrow> bytes \<Rightarrow> nat list" where
  "naming_seqs c u b = map ln_seq (filter (names_uuid u) (List.map_filter (raw_parse c) (lines b)))"

text \<open>
  What the scan relies on: a UUID occurs unescaped in a line that names it, and the numbers of a
  file ascend.
\<close>

definition scannable :: "wal_codec \<Rightarrow> rstr \<Rightarrow> bytes \<Rightarrow> bool" where
  "scannable c u b \<longleftrightarrow> (\<forall>l \<in> set (lines b). \<forall>t wl. from_utf8 l = Some t \<and> line_parse c t = Some wl \<and> names_uuid u wl
       \<longrightarrow> str_contains t u)
     \<and> sorted (naming_seqs c u b)"

lemma scan_lines_first:
  assumes "\<forall>l \<in> set ls. \<forall>t wl. from_utf8 l = Some t \<and> line_parse c t = Some wl \<and> names_uuid u wl \<longrightarrow> str_contains t u"
  shows "scan_lines_for_uuid c u ls =
    (case map ln_seq (filter (names_uuid u) (List.map_filter (raw_parse c) ls)) of [] \<Rightarrow> None | s # _ \<Rightarrow> Some s)"
  using assms
proof (induction ls)
  case (Cons l ls)
  then show ?case
    by (auto simp: List.map_filter_simps raw_parse_def split: option.splits)
qed (simp add: List.map_filter_simps)

lemma scan_file_least:
  assumes "fs_get fs p = Some (File b)" "scannable c u b"
  shows "scan_file_for_uuid c fs p u =
    Some (Inr (if naming_seqs c u b = [] then None else Some (Min (set (naming_seqs c u b)))))"
proof -
  have "scan_lines_for_uuid c u (lines b) = (case naming_seqs c u b of [] \<Rightarrow> None | s # _ \<Rightarrow> Some s)"
    using scan_lines_first [of "lines b" c u] assms(2) by (simp add: scannable_def naming_seqs_def)
  moreover have "Min (set (naming_seqs c u b)) = hd (naming_seqs c u b)" if "naming_seqs c u b \<noteq> []"
    using assms(2) that by (cases "naming_seqs c u b") (auto simp: scannable_def intro: Min_eqI)
  ultimately show ?thesis using assms(1) by (cases "naming_seqs c u b") (auto simp: scan_file_for_uuid_def)
qed

definition naming_in :: "wal_codec \<Rightarrow> fsys \<Rightarrow> path \<Rightarrow> rstr \<Rightarrow> rstr list \<Rightarrow> nat set" where
  "naming_in c fs d u ns = (\<Union>n \<in> set ns. set (naming_seqs c u (content fs (d @ [n]))))"

lemma cursor_loop_min:
  assumes "\<forall>n \<in> set ns. \<exists>b. fs_get fs (d @ [n]) = Some (File b) \<and> scannable c u b"
  shows "cursor_loop c fs d u ns mn =
    Some (let S = naming_in c fs d u ns \<union> set_option mn in if S = {} then None else Some (Min S))"
  using assms
proof (induction ns arbitrary: mn)
  case Nil
  then show ?case by (cases mn) (simp_all add: naming_in_def Let_def)
next
  case (Cons n ns)
  then obtain b where b: "fs_get fs (d @ [n]) = Some (File b)" "scannable c u b" by auto
  let ?N = "set (naming_seqs c u b)" and ?R = "naming_in c fs d u ns"
  have fin: "finite ?R" by (simp add: naming_in_def)
  have set: "naming_in c fs d u (n # ns) = ?N \<union> ?R" using b by (simp add: naming_in_def content_def)
  show ?case
  proof (cases "?N = {}")
    case True
    then show ?thesis using Cons.IH [of mn] Cons.prems b scan_file_least [OF b] set by simp
  next
    case False
    have m: "set_option (opt_min mn (Min ?N)) = {case mn of None \<Rightarrow> Min ?N | Some m \<Rightarrow> min m (Min ?N)}"
      by (cases mn) (auto simp: opt_min_def)
    have "Min (?R \<union> {case mn of None \<Rightarrow> Min ?N | Some m \<Rightarrow> min m (Min ?N)}) = Min (?N \<union> ?R \<union> set_option mn)"
      using False fin
      by (cases mn; cases "?R = {}") (simp_all add: Min_Un min.commute min.left_commute)
    then show ?thesis
      using False Cons.IH [of "opt_min mn (Min ?N)"] Cons.prems scan_file_least [OF b] set m by (simp add: Let_def)
  qed
qed

definition episode_seqs :: "wal_codec \<Rightarrow> fsys \<Rightarrow> path \<Rightarrow> rstr \<Rightarrow> nat set" where
  "episode_seqs c fs d u = {s. \<exists>n. is_jsonl n \<and> s \<in> set (naming_seqs c u (content fs (d @ [n])))}"

definition scannable_dir :: "wal_codec \<Rightarrow> fsys \<Rightarrow> path \<Rightarrow> rstr \<Rightarrow> bool" where
  "scannable_dir c fs d u \<longleftrightarrow> fs_wf fs \<and> is_dir fs d
     \<and> (\<forall>n. is_jsonl n \<and> fs_exists fs (d @ [n]) \<longrightarrow> (\<exists>b. fs_get fs (d @ [n]) = Some (File b) \<and> scannable c u b))"

lemma naming_seqs_Nil: "naming_seqs c u [] = []"
  by (simp add: naming_seqs_def List.map_filter_def)

lemma derive_cursor_exact:
  assumes d: "scannable_dir c fs d u" and u: "gv_latest_episode_uuid V g = Inr (Some u)"
  shows "derive_episode_cursor c V fs g d =
    Some (Inr (if episode_seqs c fs d u = {} then (0, UuidNotFound) else (Min (episode_seqs c fs d u), UuidMatch)))"
proof -
  obtain ns where ns: "read_dir fs d = Inr ns" using d by (auto simp: scannable_dir_def read_dir_def)
  have wf: "fs_wf fs" using d by (simp add: scannable_dir_def)
  let ?fs = "collect_wal_files fs d"
  have mem: "n \<in> set ?fs \<longleftrightarrow> is_jsonl n \<and> fs_exists fs (d @ [n])" for n
    using read_dir_mem [OF wf ns] ns by (auto simp: collect_wal_files_def)
  then have all: "\<forall>n \<in> set ?fs. \<exists>b. fs_get fs (d @ [n]) = Some (File b) \<and> scannable c u b"
    using d by (auto simp: scannable_dir_def)
  have ex: "s \<in> set (naming_seqs c u (content fs (d @ [n]))) \<Longrightarrow> fs_exists fs (d @ [n])" for s n
    by (auto simp: content_def fs_exists_def naming_seqs_Nil split: option.splits)
  have "naming_in c fs d u ?fs = episode_seqs c fs d u"
    using mem ex by (auto simp: naming_in_def episode_seqs_def Bex_def)
  then show ?thesis
    using u cursor_loop_min [OF all, of None] by (simp add: derive_episode_cursor_def Let_def)
qed


text \<open>A codec for the witness: a line that is the text \<open>e\<close> names the episode \<open>e\<close> with number five.\<close>

definition cursor_line :: wal_line where
  "cursor_line = \<lparr>ln_seq = 5, ln_ts = [], ln_db = [], ln_cypher = [], ln_params = JObj [(lit ''ep'', JStr (lit ''e''))]\<rparr>"

definition cursor_codec :: wal_codec where
  "cursor_codec = \<lparr>line_print = (\<lambda>l. None), line_parse = (\<lambda>t. if t = lit ''e'' then Some cursor_line else None),
     value_parse = (\<lambda>t. None)\<rparr>"

definition cursor_view :: group_view where
  "cursor_view = \<lparr>gv_latest_episode_uuid = (\<lambda>g. Inr (Some (lit ''e''))), gv_count_episodics = (\<lambda>g. Inr 1),
     gv_count_entities = (\<lambda>g. Inr 0), gv_count_relates_to = (\<lambda>g. Inr 0)\<rparr>"

definition cursor_disk :: fsys where
  "cursor_disk = [([], Dir), ([lit ''a.jsonl''], File (lit ''e'' @ [10]))]"

lemma cursor_naming: "naming_seqs cursor_codec (lit ''e'') (lit ''e'' @ [10]) = [5]"
proof -
  have l: "lines (lit ''e'' @ [10]) = [lit ''e'']" by (simp add: lines_def chomp_cr_def)
  have f: "from_utf8 (lit ''e'') = Some (lit ''e'')" by (rule from_utf8_ascii) simp
  then show ?thesis unfolding naming_seqs_def l
    by (simp add: List.map_filter_simps raw_parse_def cursor_codec_def names_uuid_def cursor_line_def
        value_get_def jget_def as_str_def)
qed


end
