(* ===== verification/Checkpoint.thy ===== *)
theory Checkpoint
  imports WalBounds GroupName
begin

text \<open>
  \<^verbatim>\<open>checkpoint.rs\<close>: named checkpoints of a WAL stream.  A checkpoint name has a directory with one
  create record and one delete record per life of the name, numbered by generation; records are
  only ever added.  Creating, deleting and listing are translated over the file system; the
  serialiser of the records is a parameter.  The theorems show that the files implement a finite
  map from names to records, with creation refused for a live name and deletion for a dead one, and
  that the listing shows exactly that map.
\<close>

section \<open>Records and paths\<close>

record create_record =
  cr_name :: rstr
  cr_seq :: "nat option"
  cr_created_at_ms :: nat
  cr_wal_generation :: "rstr option"

record delete_record =
  dr_name :: rstr
  dr_deleted_at_ms :: nat

record checkpoint_info =
  ci_name :: rstr
  ci_seq :: "nat option"
  ci_reachable :: bool
  ci_wal_min_seq :: "nat option"
  ci_wal_max_seq :: "nat option"
  ci_wal_generation :: "rstr option"

record ck_codec =
  ck_print :: "create_record \<Rightarrow> rstr"
  ck_parse :: "rstr \<Rightarrow> create_record option"
  ck_print_delete :: "delete_record \<Rightarrow> rstr"

definition CHECKPOINTS_DIR_NAME :: rstr where
  "CHECKPOINTS_DIR_NAME = lit ''.checkpoints''"

definition checkpoints_dir :: "path \<Rightarrow> path" where
  "checkpoints_dir wal_dir = wal_dir @ [CHECKPOINTS_DIR_NAME]"

definition name_dir :: "path \<Rightarrow> rstr \<Rightarrow> path" where
  "name_dir wal_dir name = checkpoints_dir wal_dir @ [name]"

definition create_name :: "nat \<Rightarrow> rstr" where
  "create_name generation = lit ''g'' @ show_nat generation @ lit ''.create.json''"

definition delete_name :: "nat \<Rightarrow> rstr" where
  "delete_name generation = lit ''g'' @ show_nat generation @ lit ''.delete.json''"

definition create_file_path :: "path \<Rightarrow> nat \<Rightarrow> path" where
  "create_file_path dir generation = dir @ [create_name generation]"

definition delete_file_path :: "path \<Rightarrow> nat \<Rightarrow> path" where
  "delete_file_path dir generation = dir @ [delete_name generation]"

definition parse_generation :: "rstr \<Rightarrow> nat option" where
  "parse_generation file_name =
     Option.bind (strip_prefix (lit ''g'') file_name)
       (\<lambda>rest. Option.bind
          (case strip_suffix (lit ''.create.json'') rest of
             Some r \<Rightarrow> Some r | None \<Rightarrow> strip_suffix (lit ''.delete.json'') rest)
          (parse_uint u32_max))"

definition highest_generation :: "fsys \<Rightarrow> path \<Rightarrow> nat" where
  "highest_generation fs dir =
     (case read_dir fs dir of
        Inl _ \<Rightarrow> 0
      | Inr ns \<Rightarrow> (case list_max (List.map_filter parse_generation ns) of None \<Rightarrow> 0 | Some g \<Rightarrow> g))"

definition read_create_record :: "ck_codec \<Rightarrow> fsys \<Rightarrow> path \<Rightarrow> nat \<Rightarrow> create_record option" where
  "read_create_record K fs dir generation =
     (case read_file fs (create_file_path dir generation) of
        Inl _ \<Rightarrow> None
      | Inr b \<Rightarrow> Option.bind (from_utf8 b) (ck_parse K))"

section \<open>Creating, deleting, listing\<close>

definition create_checkpoint ::
  "ck_codec \<Rightarrow> nat \<Rightarrow> path \<Rightarrow> rstr \<Rightarrow> nat option \<Rightarrow> rstr option \<Rightarrow> fsys \<Rightarrow> fsys \<times> unit result" where
  "create_checkpoint K now_ms wal_dir name seq wal_generation fs =
     (case validate_name name of
        Inl e \<Rightarrow> (fs, Inl e)
      | Inr _ \<Rightarrow>
          (let dir = name_dir wal_dir name in
           case create_dir_all dir fs of
             Inl e \<Rightarrow> (fs, Inl e)
           | Inr fs1 \<Rightarrow>
               (let g = highest_generation fs1 dir;
                    target = (if g = 0 then 1
                              else if fs_exists fs1 (delete_file_path dir g) then wrap_add u32_max g 1
                              else g);
                    rec = \<lparr>cr_name = name, cr_seq = seq, cr_created_at_ms = now_ms, cr_wal_generation = wal_generation\<rparr>
                in case create_new (create_file_path dir target) (as_bytes (ck_print K rec)) fs1 of
                     Inr fs2 \<Rightarrow> (fs2, Inr ())
                   | Inl (WalIo AlreadyExists) \<Rightarrow> (fs1, Inl (CheckpointDuplicateName name))
                   | Inl e \<Rightarrow> (fs1, Inl e))))"

definition delete_checkpoint :: "ck_codec \<Rightarrow> nat \<Rightarrow> path \<Rightarrow> rstr \<Rightarrow> fsys \<Rightarrow> fsys \<times> unit result" where
  "delete_checkpoint K now_ms wal_dir name fs =
     (case validate_name name of
        Inl e \<Rightarrow> (fs, Inl e)
      | Inr _ \<Rightarrow>
          (let dir = name_dir wal_dir name; g = highest_generation fs dir in
           if g = 0 then (fs, Inl (CheckpointNotFound name))
           else if fs_exists fs (delete_file_path dir g) then (fs, Inl (CheckpointNotFound name))
           else case create_new (delete_file_path dir g)
                       (as_bytes (ck_print_delete K \<lparr>dr_name = name, dr_deleted_at_ms = now_ms\<rparr>)) fs of
                  Inr fs1 \<Rightarrow> (fs1, Inr ())
                | Inl (WalIo AlreadyExists) \<Rightarrow> (fs, Inl (CheckpointNotFound name))
                | Inl e \<Rightarrow> (fs, Inl e)))"

text \<open>The body of the listing loop for one directory entry.\<close>

definition list_one ::
  "ck_codec \<Rightarrow> path \<Rightarrow> nat option \<Rightarrow> nat option \<Rightarrow> rstr option \<Rightarrow> fsys \<Rightarrow> rstr \<Rightarrow> checkpoint_info option" where
  "list_one K wal_dir mn mx current_generation fs name =
     (let dir = name_dir wal_dir name in
      if \<not> is_dir fs dir then None
      else (let g = highest_generation fs dir in
            if g = 0 then None
            else if fs_exists fs (delete_file_path dir g) then None
            else case read_create_record K fs dir g of
                   None \<Rightarrow> None
                 | Some rec \<Rightarrow>
                     (let bounds_reachable = (case cr_seq rec of
                            None \<Rightarrow> True
                          | Some n \<Rightarrow> (case (mn, mx) of (Some lo, Some hi) \<Rightarrow> lo = 0 \<and> n \<le> hi | _ \<Rightarrow> False));
                          generation_mismatched = generation_mismatch (cr_wal_generation rec) current_generation
                      in Some \<lparr>ci_name = name, ci_seq = cr_seq rec,
                           ci_reachable = (bounds_reachable \<and> \<not> generation_mismatched),
                           ci_wal_min_seq = mn, ci_wal_max_seq = mx, ci_wal_generation = cr_wal_generation rec\<rparr>)))"

definition list_checkpoints ::
  "wal_codec \<Rightarrow> bounds_env \<Rightarrow> gen_codec \<Rightarrow> ck_codec \<Rightarrow> rstr \<Rightarrow> rstr \<Rightarrow> (path \<Rightarrow> bool) \<Rightarrow> path \<Rightarrow> fsys \<Rightarrow>
     fsys \<times> checkpoint_info list result" where
  "list_checkpoints c E gc K u1 u2 stale wal_dir fs =
     (case read_dir fs (checkpoints_dir wal_dir) of
        Inl _ \<Rightarrow> (fs, Inr [])
      | Inr names \<Rightarrow>
          (case wal_min_seq c E u1 stale wal_dir fs of
             (fs1, Inl e) \<Rightarrow> (fs1, Inl e)
           | (fs1, Inr mn) \<Rightarrow>
               (case wal_max_seq c E u2 stale wal_dir fs1 of
                  (fs2, Inl e) \<Rightarrow> (fs2, Inl e)
                | (fs2, Inr mx) \<Rightarrow>
                    (fs2, Inr (sort_key ci_name
                       (List.map_filter (list_one K wal_dir mn mx (read_generation gc fs2 wal_dir) fs2) names))))))"

section \<open>File names of records\<close>

lemma ends_with_append: "ends_with p (x @ p)"
  by (simp add: ends_with_def starts_with_def)

lemma ends_with_iff: "ends_with p s \<longleftrightarrow> (\<exists>t. s = t @ p)"
  unfolding ends_with_def starts_with_iff by (metis rev_append rev_rev_ident)

lemma strip_suffix_append: "strip_suffix p (x @ p) = Some x"
  by (simp add: strip_suffix_def ends_with_append)

lemma record_suffixes:
  "strip_suffix (lit ''.create.json'') (x @ lit ''.delete.json'') = None"
proof -
  have "\<not> ends_with (lit ''.create.json'') (x @ lit ''.delete.json'')"
    by (simp add: ends_with_def starts_with_def)
  then show ?thesis by (simp add: strip_suffix_def)
qed

lemma parse_record_names:
  assumes "k \<le> u32_max"
  shows "parse_generation (create_name k) = Some k" "parse_generation (delete_name k) = Some k"
proof -
  have p: "strip_prefix (lit ''g'') (lit ''g'' @ x) = Some x" for x
    by (simp add: strip_prefix_def starts_with_def)
  show "parse_generation (create_name k) = Some k" "parse_generation (delete_name k) = Some k"
    unfolding parse_generation_def create_name_def delete_name_def p
    by (simp_all only: bind.bind_lunit option.case strip_suffix_append record_suffixes parse_show_nat [OF assms])
qed

lemma show_nat_inj: "show_nat j = show_nat k \<Longrightarrow> j = k"
  by (metis max.cobounded1 max.cobounded2 option.inject parse_show_nat)

lemma record_names:
  "create_name j = create_name k \<longleftrightarrow> j = k" "delete_name j = delete_name k \<longleftrightarrow> j = k"
  "create_name j \<noteq> delete_name k"
proof -
  have "ends_with (lit ''.create.json'') (create_name j)" by (simp add: create_name_def ends_with_iff)
  moreover have "\<not> ends_with (lit ''.create.json'') (delete_name k)"
    unfolding delete_name_def append_assoc [symmetric]
    using record_suffixes [of "lit ''g'' @ show_nat k"] by (simp add: strip_suffix_def split: if_splits)
  ultimately show "create_name j \<noteq> delete_name k" by metis
qed (auto simp: create_name_def delete_name_def dest: show_nat_inj)

section \<open>The directory of a name as a ledger\<close>

definition gens :: "fsys \<Rightarrow> path \<Rightarrow> nat set" where
  "gens fs dir = {k. \<exists>n. fs_exists fs (dir @ [n]) \<and> parse_generation n = Some k}"

text \<open>
  What holds of a directory only these operations write to: it is a directory if it has entries,
  a file whose name reads as a generation is a record of that generation, and create records can be
  read back.
\<close>

definition ledger_ok :: "ck_codec \<Rightarrow> fsys \<Rightarrow> path \<Rightarrow> bool" where
  "ledger_ok K fs dir \<longleftrightarrow>
     (\<forall>n. fs_exists fs (dir @ [n]) \<longrightarrow> is_dir fs dir)
     \<and> (\<forall>n k. fs_exists fs (dir @ [n]) \<longrightarrow> parse_generation n = Some k \<longrightarrow> n = create_name k \<or> n = delete_name k)
     \<and> (\<forall>k. fs_exists fs (create_file_path dir k) \<longrightarrow> read_create_record K fs dir k \<noteq> None)"

definition live :: "ck_codec \<Rightarrow> fsys \<Rightarrow> path \<Rightarrow> create_record option" where
  "live K fs dir =
     (let g = highest_generation fs dir in
      if g = 0 \<or> fs_exists fs (delete_file_path dir g) then None else read_create_record K fs dir g)"

lemma map_filter_set: "set (List.map_filter f xs) = {y. \<exists>x \<in> set xs. f x = Some y}"
  by (induction xs) (auto simp: List.map_filter_simps split: option.splits)

lemma gens_listed: "fs_wf fs \<Longrightarrow> read_dir fs dir = Inr ns \<Longrightarrow> gens fs dir = set (List.map_filter parse_generation ns)"
  by (auto simp: gens_def map_filter_set read_dir_mem)

lemma highest_Max:
  assumes "fs_wf fs" and "\<And>n. fs_exists fs (dir @ [n]) \<Longrightarrow> is_dir fs dir"
  shows "highest_generation fs dir = Max (insert 0 (gens fs dir)) \<and> finite (gens fs dir)"
proof (cases "read_dir fs dir")
  case (Inl e)
  then have "\<not> is_dir fs dir" by (auto simp: read_dir_def split: if_splits)
  then have "gens fs dir = {}" using assms(2) by (auto simp: gens_def)
  with Inl show ?thesis by (simp add: highest_generation_def)
next
  case (Inr ns)
  from gens_listed [OF assms(1) Inr] show ?thesis
    by (auto simp: highest_generation_def Inr list_max_def)
qed

lemma ledger_highest:
  assumes "fs_wf fs" "ledger_ok K fs dir"
  shows "highest_generation fs dir = Max (insert 0 (gens fs dir))" "finite (gens fs dir)"
  using highest_Max [OF assms(1), of dir] assms(2) unfolding ledger_ok_def by blast+

lemma ledger_cong:
  assumes "fs_wf fs" "fs_wf fs'" "is_dir fs dir = is_dir fs' dir"
    and e: "\<And>n. fs_get fs (dir @ [n]) = fs_get fs' (dir @ [n])" and ok: "ledger_ok K fs dir"
  shows "ledger_ok K fs' dir" "live K fs' dir = live K fs dir"
proof -
  have x: "fs_exists fs' (dir @ [n]) = fs_exists fs (dir @ [n])" for n using e by (simp add: fs_exists_def)
  have r: "read_create_record K fs' dir k = read_create_record K fs dir k" for k
    using e by (simp add: read_create_record_def read_file_def create_file_path_def)
  show ok': "ledger_ok K fs' dir"
    using ok assms(3) x r unfolding ledger_ok_def create_file_path_def by simp
  have "gens fs' dir = gens fs dir" by (simp add: gens_def x)
  then have h: "highest_generation fs' dir = highest_generation fs dir"
    using ledger_highest(1) [OF assms(1) ok] ledger_highest(1) [OF assms(2) ok'] by simp
  show "live K fs' dir = live K fs dir"
    by (simp add: live_def h r delete_file_path_def x Let_def)
qed

lemma live_cases:
  assumes wf: "fs_wf fs" and ok: "ledger_ok K fs dir"
  defines "g \<equiv> highest_generation fs dir"
  obtains (dead) "live K fs dir = None" "g = 0 \<or> fs_exists fs (delete_file_path dir g)"
  | (alive) rec where "live K fs dir = Some rec" "g \<noteq> 0" "\<not> fs_exists fs (delete_file_path dir g)"
      "fs_exists fs (create_file_path dir g)"
proof (cases "g = 0 \<or> fs_exists fs (delete_file_path dir g)")
  case True
  then show ?thesis using that(1) by (simp add: live_def g_def Let_def)
next
  case False
  have m: "g = Max (insert 0 (gens fs dir))" "finite (gens fs dir)"
    using ledger_highest [OF wf ok] by (simp_all add: g_def)
  then have "g \<in> insert 0 (gens fs dir)" using Max_in [of "insert 0 (gens fs dir)"] by simp
  then obtain n where n: "fs_exists fs (dir @ [n])" "parse_generation n = Some g"
    using False by (auto simp: gens_def)
  then have "n = create_name g" using ok False by (auto simp: ledger_ok_def delete_file_path_def)
  then have c: "fs_exists fs (create_file_path dir g)" using n(1) by (simp add: create_file_path_def)
  then obtain rec where "read_create_record K fs dir g = Some rec" using ok by (auto simp: ledger_ok_def)
  with False c show ?thesis by (intro that(2) [of rec]) (auto simp: live_def g_def Let_def)
qed

lemma gens_put: "gens (fs_put (dir @ [n]) (File b) fs) dir = gens fs dir \<union> {k. parse_generation n = Some k}"
  by (auto simp: gens_def fs_exists_def)

lemma max_insert_zero_le: "finite A \<Longrightarrow> k \<in> A \<Longrightarrow> (k :: nat) \<le> Max (insert 0 A)"
  by simp

text \<open>A fresh record on top of the highest generation.\<close>

lemma put_create:
  assumes wf: "fs_wf fs" and ok: "ledger_ok K fs dir" and d: "is_dir fs dir"
    and t: "highest_generation fs dir < t" "t \<le> u32_max"
    and rec: "from_utf8 b = Some text" "ck_parse K text = Some rec"
  shows "\<not> fs_exists fs (create_file_path dir t)"
    "ledger_ok K (fs_put (create_file_path dir t) (File b) fs) dir"
    "live K (fs_put (create_file_path dir t) (File b) fs) dir = Some rec"
proof -
  let ?fs = "fs_put (create_file_path dir t) (File b) fs"
  have m: "highest_generation fs dir = Max (insert 0 (gens fs dir))" "finite (gens fs dir)"
    using ledger_highest [OF wf ok] by simp_all
  have up: "k < t" if "k \<in> gens fs dir" for k using max_insert_zero_le [OF m(2) that] t(1) m(1) by simp
  show nx: "\<not> fs_exists fs (create_file_path dir t)"
    using up [of t] parse_record_names(1) [OF t(2)] by (auto simp: gens_def create_file_path_def)
  have nd: "\<not> fs_exists fs (delete_file_path dir t)"
    using up [of t] parse_record_names(2) [OF t(2)] by (auto simp: gens_def delete_file_path_def)
  have rd: "read_create_record K ?fs dir k = (if k = t then Some rec else read_create_record K fs dir k)" for k
    using rec by (simp add: read_create_record_def read_file_def create_file_path_def record_names)
  show ok': "ledger_ok K ?fs dir"
    using ok d parse_record_names(1) [OF t(2)] unfolding ledger_ok_def rd
    by (auto simp: fs_exists_def is_dir_def create_file_path_def record_names split: if_splits)
  have "gens ?fs dir = insert t (gens fs dir)"
    using gens_put [of dir "create_name t"] parse_record_names(1) [OF t(2)] by (auto simp: create_file_path_def)
  then have "highest_generation ?fs dir = Max (insert 0 (insert t (gens fs dir)))"
    using ledger_highest(1) [OF fs_wf_put [OF wf] ok'] by simp
  also have "\<dots> = t" using up m(2) by (intro Max_eqI) (auto intro: less_imp_le)
  finally have h: "highest_generation ?fs dir = t" .
  show "live K ?fs dir = Some rec"
    unfolding live_def h Let_def rd using t(1) nd
    by (auto simp: fs_exists_def create_file_path_def delete_file_path_def dest: record_names(3) [THEN notE, OF sym])
qed

lemma put_delete:
  assumes wf: "fs_wf fs" and ok: "ledger_ok K fs dir" and a: "live K fs dir = Some rec"
  defines "g \<equiv> highest_generation fs dir"
  shows "ledger_ok K (fs_put (delete_file_path dir g) (File b) fs) dir"
    "live K (fs_put (delete_file_path dir g) (File b) fs) dir = None" "is_dir fs dir"
proof -
  let ?fs = "fs_put (delete_file_path dir g) (File b) fs"
  from wf ok have c: "g \<noteq> 0" "fs_exists fs (create_file_path dir g)"
    by (cases rule: live_cases; use a in \<open>simp add: g_def\<close>)+
  show d: "is_dir fs dir" using c(2) ok by (auto simp: ledger_ok_def create_file_path_def)
  have m: "g = Max (insert 0 (gens fs dir))" "finite (gens fs dir)"
    using ledger_highest [OF wf ok] by (simp_all add: g_def)
  have gg: "g \<in> gens fs dir" using m c(1) Max_in [of "insert 0 (gens fs dir)"] by simp
  then have le: "g \<le> u32_max" by (auto simp: gens_def parse_generation_def split: bind_splits dest: parse_uint_le)
  have rd: "read_create_record K ?fs dir k = read_create_record K fs dir k" for k
    by (simp add: read_create_record_def read_file_def create_file_path_def delete_file_path_def record_names)
  show ok': "ledger_ok K ?fs dir"
    using ok d parse_record_names(2) [OF le] unfolding ledger_ok_def rd
    by (auto simp: fs_exists_def is_dir_def create_file_path_def delete_file_path_def record_names split: if_splits)
  have "gens ?fs dir = gens fs dir"
    using gens_put [of dir "delete_name g"] parse_record_names(2) [OF le] gg by (auto simp: delete_file_path_def)
  then have "highest_generation ?fs dir = g"
    using ledger_highest(1) [OF fs_wf_put [OF wf] ok'] m(1) by simp
  then show "live K ?fs dir = None" by (simp add: live_def fs_exists_def)
qed

section \<open>The files implement a map\<close>

definition checkpoints_ok :: "ck_codec \<Rightarrow> path \<Rightarrow> fsys \<Rightarrow> bool" where
  "checkpoints_ok K wal_dir fs \<longleftrightarrow> fs_wf fs \<and> is_dir fs [] \<and> (\<forall>n. ledger_ok K fs (name_dir wal_dir n))"

definition abs_checkpoints :: "ck_codec \<Rightarrow> path \<Rightarrow> fsys \<Rightarrow> rstr \<Rightarrow> create_record option" where
  "abs_checkpoints K wal_dir fs n = live K fs (name_dir wal_dir n)"

lemma checkpoints_frame:
  assumes ok: "checkpoints_ok K wal_dir fs" and wf: "fs_wf fs'" "is_dir fs' []"
    and e: "\<And>m. m \<noteq> name \<Longrightarrow> fs_get fs' (name_dir wal_dir m) = fs_get fs (name_dir wal_dir m)"
    and c: "\<And>m n. m \<noteq> name \<Longrightarrow> fs_get fs' (name_dir wal_dir m @ [n]) = fs_get fs (name_dir wal_dir m @ [n])"
    and new: "ledger_ok K fs' (name_dir wal_dir name)"
  shows "checkpoints_ok K wal_dir fs'"
    "abs_checkpoints K wal_dir fs' = (abs_checkpoints K wal_dir fs)(name := live K fs' (name_dir wal_dir name))"
proof -
  have *: "ledger_ok K fs' (name_dir wal_dir m)" "live K fs' (name_dir wal_dir m) = live K fs (name_dir wal_dir m)"
    if "m \<noteq> name" for m
    using ledger_cong [of fs fs' "name_dir wal_dir m" K] ok wf(1) e [OF that] c [OF that]
    by (auto simp: checkpoints_ok_def is_dir_def)
  show "checkpoints_ok K wal_dir fs'" using * new wf unfolding checkpoints_ok_def by metis
  show "abs_checkpoints K wal_dir fs' = (abs_checkpoints K wal_dir fs)(name := live K fs' (name_dir wal_dir name))"
    using * by (auto simp: abs_checkpoints_def fun_eq_iff)
qed

lemma mkdir_frame:
  assumes ok: "checkpoints_ok K wal_dir fs" and mk: "create_dir_all (name_dir wal_dir name) fs = Inr fs1"
  shows "checkpoints_ok K wal_dir fs1" "abs_checkpoints K wal_dir fs1 = abs_checkpoints K wal_dir fs"
    "is_dir fs1 (name_dir wal_dir name)"
    "highest_generation fs1 (name_dir wal_dir name) = highest_generation fs (name_dir wal_dir name)"
proof -
  let ?d = "name_dir wal_dir name"
  have wf1: "fs_wf fs1" using mk ok mkdirs_wf by (auto simp: create_dir_all_def checkpoints_ok_def)
  have ready: "dir_ready fs1 ?d" by (rule create_dir_all_dir_ready [OF mk]) (use ok in \<open>simp add: checkpoints_ok_def\<close>)
  then show d1: "is_dir fs1 ?d" by (simp add: dir_ready_def)
  have fr: "fs_get fs1 q = fs_get fs q" if "\<not> prefix q ?d" for q
  proof (rule mkdirs_frame [OF mk [unfolded create_dir_all_def]])
    show "q \<notin> set (tl (prefixes ?d))" using that by (cases "prefixes ?d") (auto simp: in_set_prefixes [symmetric])
  qed
  have np: "\<not> prefix (name_dir wal_dir m) ?d" if "m \<noteq> name" for m using that by (auto simp: name_dir_def prefix_def)
  have nc: "\<not> prefix (name_dir wal_dir m @ [n]) ?d" for m n
    by (auto simp: name_dir_def dest: prefix_length_le)
  have x: "fs_exists fs1 (?d @ [n]) = fs_exists fs (?d @ [n])" for n using fr [OF nc] by (simp add: fs_exists_def)
  have rd: "read_create_record K fs1 ?d k = read_create_record K fs ?d k" for k
    using fr [OF nc] by (simp add: read_create_record_def read_file_def create_file_path_def)
  have lk: "ledger_ok K fs ?d" using ok by (simp add: checkpoints_ok_def)
  have new: "ledger_ok K fs1 ?d"
    using lk d1 x rd unfolding ledger_ok_def create_file_path_def by simp
  have "gens fs1 ?d = gens fs ?d" by (simp add: gens_def x)
  then show h: "highest_generation fs1 ?d = highest_generation fs ?d"
    using ledger_highest(1) [OF wf1 new] ledger_highest(1) [OF _ lk] ok by (simp add: checkpoints_ok_def)
  have lv: "live K fs1 ?d = live K fs ?d" by (simp add: live_def h rd delete_file_path_def x Let_def)
  have root: "is_dir fs1 []" using create_dir_all_keeps [OF mk] ok by (auto simp: is_dir_def checkpoints_ok_def)
  note cf = checkpoints_frame [OF ok wf1 root fr [OF np] fr [OF nc] new]
  show "checkpoints_ok K wal_dir fs1" by (rule cf(1))
  show "abs_checkpoints K wal_dir fs1 = abs_checkpoints K wal_dir fs"
    using cf(2) lv by (auto simp: abs_checkpoints_def fun_eq_iff)
qed

lemma put_frame:
  assumes ok: "checkpoints_ok K wal_dir fs"
    and new: "ledger_ok K (fs_put (name_dir wal_dir name @ [f]) (File b) fs) (name_dir wal_dir name)"
  shows "checkpoints_ok K wal_dir (fs_put (name_dir wal_dir name @ [f]) (File b) fs)"
    "abs_checkpoints K wal_dir (fs_put (name_dir wal_dir name @ [f]) (File b) fs)
       = (abs_checkpoints K wal_dir fs)(name := live K (fs_put (name_dir wal_dir name @ [f]) (File b) fs) (name_dir wal_dir name))"
proof -
  let ?fs = "fs_put (name_dir wal_dir name @ [f]) (File b) fs"
  have w: "fs_wf ?fs" "is_dir ?fs []"
    using ok by (auto simp: checkpoints_ok_def fs_wf_put is_dir_def)
  have n: "name_dir wal_dir m \<noteq> name_dir wal_dir name @ [f]" for m
    by (auto simp: name_dir_def dest!: arg_cong [where f = length])
  have e: "fs_get ?fs (name_dir wal_dir m) = fs_get fs (name_dir wal_dir m)" for m using n by simp
  have c: "fs_get ?fs (name_dir wal_dir m @ [k]) = fs_get fs (name_dir wal_dir m @ [k])" if "m \<noteq> name" for m k
    using that by (auto simp: name_dir_def)
  note cf = checkpoints_frame [OF ok w e c new]
  show "checkpoints_ok K wal_dir ?fs" by (rule cf(1))
  show "abs_checkpoints K wal_dir ?fs = (abs_checkpoints K wal_dir fs)(name := live K ?fs (name_dir wal_dir name))"
    by (rule cf(2))
qed

text \<open>C17: creating a checkpoint is a map insertion.  On a well-formed store, for a valid name whose
  directory can be made and whose generation counter has room, creation succeeds exactly when the
  name is not live, and then the name maps to the new record and every other name is as before;
  for a live name it is refused as a duplicate and the map is unchanged.  The store stays
  well-formed.\<close>

theorem create_checkpoint_refines:
  assumes ok: "checkpoints_ok K wal_dir fs" and name: "validate_name name = Inr ()"
    and mk: "create_dir_all (name_dir wal_dir name) fs = Inr fs1"
    and room: "highest_generation fs (name_dir wal_dir name) < u32_max"
    and rec: "rec = \<lparr>cr_name = name, cr_seq = seq, cr_created_at_ms = now, cr_wal_generation = gen\<rparr>"
    and codec: "valid_str (ck_print K rec) \<and> ck_parse K (ck_print K rec) = Some rec"
    and run: "create_checkpoint K now wal_dir name seq gen fs = (fs', r)"
  shows "checkpoints_ok K wal_dir fs' \<and>
    (if abs_checkpoints K wal_dir fs name = None
     then r = Inr () \<and> abs_checkpoints K wal_dir fs' = (abs_checkpoints K wal_dir fs)(name \<mapsto> rec)
     else r = Inl (CheckpointDuplicateName name) \<and> abs_checkpoints K wal_dir fs' = abs_checkpoints K wal_dir fs)"
proof -
  let ?d = "name_dir wal_dir name"
  note m = mkdir_frame [OF ok mk]
  have wf1: "fs_wf fs1" and lk: "ledger_ok K fs1 ?d" using m(1) by (simp_all add: checkpoints_ok_def)
  have lv: "live K fs1 ?d = abs_checkpoints K wal_dir fs name" using m(2) by (simp add: abs_checkpoints_def fun_eq_iff)
  let ?g = "highest_generation fs1 ?d"
  from wf1 lk show ?thesis
  proof (cases rule: live_cases)
    case dead
    let ?t = "if ?g = 0 then 1 else ?g + 1"
    have t: "?g < ?t" "?t \<le> u32_max" using room m(4) by (auto simp: u32_max_def)
    have b: "from_utf8 (as_bytes (ck_print K rec)) = Some (ck_print K rec)" using codec from_utf8_as_bytes by blast
    note pc = put_create [OF wf1 lk m(3) t b codec [THEN conjunct2]]
    let ?fs = "fs_put (create_file_path ?d ?t) (File (as_bytes (ck_print K rec))) fs1"
    have w: "wrap_add u32_max ?g 1 = ?g + 1" using room m(4) by (intro wrap_add_small) simp
    have "create_checkpoint K now wal_dir name seq gen fs = (?fs, Inr ())"
      using name mk pc(1) dead(2) w m(3)
      by (auto simp: create_checkpoint_def Let_def create_new_def create_file_path_def rec)
    with run have r: "fs' = ?fs" "r = Inr ()" by simp_all
    note pf = put_frame [OF m(1), of name "create_name ?t" "as_bytes (ck_print K rec)", folded create_file_path_def, OF pc(2)]
    show ?thesis using pf pc(3) dead(1) lv m(2) unfolding r by simp
  next
    case (alive old)
    have "create_checkpoint K now wal_dir name seq gen fs = (fs1, Inl (CheckpointDuplicateName name))"
      using name mk alive by (simp add: create_checkpoint_def Let_def create_new_def)
    moreover have "abs_checkpoints K wal_dir fs name = Some old" using alive(1) lv by simp
    ultimately show ?thesis using run m(1,2) by simp
  qed
qed

text \<open>Deleting a checkpoint is a map removal.  On a well-formed store, deletion of a valid name
  succeeds exactly when the name is live, and then exactly that name is gone; otherwise it reports
  that the checkpoint was not found and nothing changes on disk.\<close>

lemma delete_checkpoint_refines:
  assumes ok: "checkpoints_ok K wal_dir fs" and name: "validate_name name = Inr ()"
    and run: "delete_checkpoint K now wal_dir name fs = (fs', r)"
  shows "checkpoints_ok K wal_dir fs' \<and>
    (if abs_checkpoints K wal_dir fs name = None
     then r = Inl (CheckpointNotFound name) \<and> fs' = fs
     else r = Inr () \<and> abs_checkpoints K wal_dir fs' = (abs_checkpoints K wal_dir fs)(name := None))"
proof -
  let ?d = "name_dir wal_dir name"
  let ?b = "as_bytes (ck_print_delete K \<lparr>dr_name = name, dr_deleted_at_ms = now\<rparr>)"
  have wf: "fs_wf fs" and lk: "ledger_ok K fs ?d" using ok by (simp_all add: checkpoints_ok_def)
  from wf lk show ?thesis
  proof (cases rule: live_cases)
    case dead
    have "delete_checkpoint K now wal_dir name fs = (fs, Inl (CheckpointNotFound name))"
      using name dead(2) by (auto simp: delete_checkpoint_def Let_def)
    with run dead(1) ok show ?thesis by (simp add: abs_checkpoints_def)
  next
    case (alive rec)
    let ?fs = "fs_put (delete_file_path ?d (highest_generation fs ?d)) (File ?b) fs"
    note pd = put_delete(1,2) [OF wf lk alive(1), where b = ?b] put_delete(3) [OF wf lk alive(1)]
    have "delete_checkpoint K now wal_dir name fs = (?fs, Inr ())"
      using name alive(2,3) pd(3) by (simp add: delete_checkpoint_def Let_def create_new_def delete_file_path_def)
    with run have r: "fs' = ?fs" "r = Inr ()" by simp_all
    note pf = put_frame [OF ok, of name "delete_name (highest_generation fs ?d)" ?b, folded delete_file_path_def, OF pd(1)]
    show ?thesis using pf pd(2) alive(1) unfolding r by (simp add: abs_checkpoints_def)
  qed
qed

lemma list_one_Some:
  "list_one K wal_dir mn mx cur fs n = Some i \<longleftrightarrow>
     is_dir fs (name_dir wal_dir n) \<and> (\<exists>rec. abs_checkpoints K wal_dir fs n = Some rec
       \<and> i = \<lparr>ci_name = n, ci_seq = cr_seq rec,
           ci_reachable = ((case cr_seq rec of None \<Rightarrow> True | Some q \<Rightarrow> mn = Some 0 \<and> (\<exists>hi. mx = Some hi \<and> q \<le> hi))
              \<and> \<not> generation_mismatch (cr_wal_generation rec) cur),
           ci_wal_min_seq = mn, ci_wal_max_seq = mx, ci_wal_generation = cr_wal_generation rec\<rparr>)"
proof -
  have "(case (mn, mx) of (Some lo, Some hi) \<Rightarrow> lo = 0 \<and> q \<le> hi | _ \<Rightarrow> False) \<longleftrightarrow> mn = Some 0 \<and> (\<exists>hi. mx = Some hi \<and> q \<le> hi)"
    for q :: nat by (cases mn; cases mx) auto
  then show ?thesis
    by (auto simp: list_one_def abs_checkpoints_def live_def Let_def split: option.split)
qed

lemma map_filter_distinct:
  "distinct xs \<Longrightarrow> (\<And>x y. f x = Some y \<Longrightarrow> g y = x) \<Longrightarrow> distinct (map g (List.map_filter f xs))"
  by (induction xs) (auto simp: List.map_filter_simps map_filter_set split: option.split)

text \<open>The listing shows exactly the live checkpoints.  A successful listing is sorted by name without
  repetition; a name appears exactly when it has a directory and is live; its fields are those of
  its record; and it is marked reachable exactly when its sequence number is absent or the log
  starts at zero and reaches it, and the log's generation does not contradict the record's.\<close>

lemma list_checkpoints_exact:
  assumes run: "list_checkpoints c E gc K u1 u2 stale wal_dir fs = (fs2, Inr infos)"
    and dir: "read_dir fs (checkpoints_dir wal_dir) = Inr names" and wf: "fs_wf fs"
  shows "sorted (map ci_name infos) \<and> distinct (map ci_name infos)
    \<and> (\<forall>n. n \<in> ci_name ` set infos \<longleftrightarrow>
         n \<in> set names \<and> is_dir fs2 (name_dir wal_dir n) \<and> abs_checkpoints K wal_dir fs2 n \<noteq> None)
    \<and> (\<exists>mn mx. \<forall>i \<in> set infos. \<exists>rec. abs_checkpoints K wal_dir fs2 (ci_name i) = Some rec
         \<and> ci_seq i = cr_seq rec \<and> ci_wal_generation i = cr_wal_generation rec
         \<and> ci_wal_min_seq i = mn \<and> ci_wal_max_seq i = mx
         \<and> (ci_reachable i \<longleftrightarrow>
              (case cr_seq rec of None \<Rightarrow> True | Some q \<Rightarrow> mn = Some 0 \<and> (\<exists>hi. mx = Some hi \<and> q \<le> hi))
              \<and> \<not> generation_mismatch (cr_wal_generation rec) (read_generation gc fs2 wal_dir)))"
proof -
  obtain mn mx where i: "infos = sort_key ci_name
      (List.map_filter (list_one K wal_dir mn mx (read_generation gc fs2 wal_dir) fs2) names)"
    using run dir by (auto simp: list_checkpoints_def split: prod.splits sum.splits)
  let ?f = "list_one K wal_dir mn mx (read_generation gc fs2 wal_dir) fs2"
  have d: "distinct (map ci_name (List.map_filter ?f names))"
    by (rule map_filter_distinct [OF read_dir_distinct [OF wf dir]]) (auto simp: list_one_Some)
  have "distinct (map ci_name infos)"
    unfolding i by (metis d distinct_map mset_eq_imp_distinct_iff mset_map mset_sort)
  moreover have "sorted (map ci_name infos)" unfolding i by (rule sorted_sort_key)
  moreover have "n \<in> ci_name ` set infos \<longleftrightarrow>
      n \<in> set names \<and> is_dir fs2 (name_dir wal_dir n) \<and> abs_checkpoints K wal_dir fs2 n \<noteq> None" for n
    unfolding i by (force simp: map_filter_set list_one_Some image_iff)
  moreover have "\<exists>rec. abs_checkpoints K wal_dir fs2 (ci_name j) = Some rec
         \<and> ci_seq j = cr_seq rec \<and> ci_wal_generation j = cr_wal_generation rec
         \<and> ci_wal_min_seq j = mn \<and> ci_wal_max_seq j = mx
         \<and> (ci_reachable j \<longleftrightarrow>
              (case cr_seq rec of None \<Rightarrow> True | Some q \<Rightarrow> mn = Some 0 \<and> (\<exists>hi. mx = Some hi \<and> q \<le> hi))
              \<and> \<not> generation_mismatch (cr_wal_generation rec) (read_generation gc fs2 wal_dir))"
    if "j \<in> set infos" for j
    using that unfolding i by (auto simp: map_filter_set list_one_Some)
  ultimately show ?thesis by blast
qed

section \<open>A concrete store\<close>

definition toy_rec :: create_record where
  "toy_rec = \<lparr>cr_name = lit ''a'', cr_seq = None, cr_created_at_ms = 0, cr_wal_generation = None\<rparr>"

definition toy_ck :: ck_codec where
  "toy_ck = \<lparr>ck_print = (\<lambda>r. lit ''r''), ck_parse = (\<lambda>s. Some toy_rec), ck_print_delete = (\<lambda>r. [])\<rparr>"

abbreviation toy_root :: fsys where
  "toy_root \<equiv> [([], Dir)]"

lemma toy_root_ok: "checkpoints_ok toy_ck [] toy_root"
  by (auto simp: checkpoints_ok_def ledger_ok_def fs_wf_def is_dir_def fs_exists_def fs_get_def
      create_file_path_def name_dir_def checkpoints_dir_def)

lemma toy_name: "validate_name (lit ''a'') = Inr ()"
  by (simp add: validate_name_def str_len_def utf8_len_def safe_char_def text_eval)

lemma toy_mkdir: "\<exists>fs1. create_dir_all (name_dir [] (lit ''a'')) toy_root = Inr fs1"
  by (simp add: create_dir_all_def name_dir_def checkpoints_dir_def fs_get_def fs_put_def)

lemma toy_highest: "highest_generation toy_root (name_dir [] (lit ''a'')) = 0"
  by (simp add: highest_generation_def read_dir_def is_dir_def fs_get_def name_dir_def checkpoints_dir_def)

lemma toy_codec_rec: "valid_str (ck_print toy_ck toy_rec) \<and> ck_parse toy_ck (ck_print toy_ck toy_rec) = Some toy_rec"
  by (simp add: toy_ck_def valid_str_def is_scalar_def)

theorem create_checkpoint_refines_witness:
  "\<exists>fs'. create_checkpoint toy_ck 0 [] (lit ''a'') None None toy_root = (fs', Inr ())
     \<and> abs_checkpoints toy_ck [] fs' (lit ''a'') = Some toy_rec"
proof -
  obtain fs1 where mk: "create_dir_all (name_dir [] (lit ''a'')) toy_root = Inr fs1" using toy_mkdir by blast
  obtain fs' r where run: "create_checkpoint toy_ck 0 [] (lit ''a'') None None toy_root = (fs', r)" by fastforce
  have room: "highest_generation toy_root (name_dir [] (lit ''a'')) < u32_max" by (simp only: toy_highest) (simp add: u32_max_def)
  have "abs_checkpoints toy_ck [] toy_root (lit ''a'') = None"
    unfolding abs_checkpoints_def live_def toy_highest by simp
  with create_checkpoint_refines [OF toy_root_ok toy_name mk room toy_rec_def toy_codec_rec run] run
  show ?thesis by simp
qed

text \<open>A store in which the name is live, for the other witnesses.\<close>

lemma toy_live: "\<exists>fs. checkpoints_ok toy_ck [] fs \<and> abs_checkpoints toy_ck [] fs (lit ''a'') = Some toy_rec"
proof -
  obtain fs1 where mk: "create_dir_all (name_dir [] (lit ''a'')) toy_root = Inr fs1" using toy_mkdir by blast
  note m = mkdir_frame [OF toy_root_ok mk]
  have "highest_generation fs1 (name_dir [] (lit ''a'')) < 1" unfolding m(4) toy_highest by simp
  note pc = put_create [of fs1 toy_ck "name_dir [] (lit ''a'')" 1 "lit ''r''" "lit ''r''" toy_rec, OF _ _ m(3) this]
  have e: "from_utf8 (lit ''r'') = Some (lit ''r'')" by (rule from_utf8_ascii) simp
  have l: "ledger_ok toy_ck (fs_put (create_file_path (name_dir [] (lit ''a'')) 1) (File (lit ''r'')) fs1) (name_dir [] (lit ''a''))"
    "live toy_ck (fs_put (create_file_path (name_dir [] (lit ''a'')) 1) (File (lit ''r'')) fs1) (name_dir [] (lit ''a'')) = Some toy_rec"
    by (rule pc(2,3); use m(1) e in \<open>simp add: checkpoints_ok_def u32_max_def toy_ck_def\<close>)+
  note pf = put_frame [OF m(1), of "lit ''a''" "create_name 1", folded create_file_path_def, OF l(1)]
  show ?thesis using pf l(2) by (intro exI) auto
qed

theorem delete_checkpoint_refines_witness:
  "\<exists>fs fs'. delete_checkpoint toy_ck 0 [] (lit ''a'') fs = (fs', Inr ())
     \<and> abs_checkpoints toy_ck [] fs (lit ''a'') = Some toy_rec \<and> abs_checkpoints toy_ck [] fs' (lit ''a'') = None"
proof -
  obtain fs where fs: "checkpoints_ok toy_ck [] fs" "abs_checkpoints toy_ck [] fs (lit ''a'') = Some toy_rec"
    using toy_live by blast
  obtain fs' r where run: "delete_checkpoint toy_ck 0 [] (lit ''a'') fs = (fs', r)" by fastforce
  have "r = Inr () \<and> abs_checkpoints toy_ck [] fs' (lit ''a'') = None"
    using delete_checkpoint_refines [OF fs(1) toy_name run] fs(2) by auto
  with run fs(2) show ?thesis by blast
qed

abbreviation toy_listed :: fsys where
  "toy_listed \<equiv> [([], Dir), ([CHECKPOINTS_DIR_NAME], Dir), (name_dir [] (lit ''a''), Dir),
     (create_file_path (name_dir [] (lit ''a'')) 1, File (lit ''r''))]"

lemma toy_listed_dirs:
  "read_dir toy_listed [] = Inr [CHECKPOINTS_DIR_NAME]" "read_dir toy_listed (checkpoints_dir []) = Inr [lit ''a'']"
  "read_dir toy_listed (name_dir [] (lit ''a'')) = Inr [create_name 1]"
  by (simp_all add: read_dir_def is_dir_def fs_get_def checkpoints_dir_def name_dir_def create_file_path_def)

lemma toy_listed_live: "abs_checkpoints toy_ck [] toy_listed (lit ''a'') = Some toy_rec"
proof -
  let ?d = "name_dir [] (lit ''a'')"
  have "highest_generation toy_listed ?d = 1"
    unfolding highest_generation_def toy_listed_dirs
    using parse_record_names(1) [of 1] by (simp add: List.map_filter_simps list_max_def u32_max_def)
  moreover have "\<not> fs_exists toy_listed (delete_file_path ?d 1)"
    using record_names(3) [of 1 1]
    by (auto simp: fs_exists_def fs_get_def delete_file_path_def create_file_path_def name_dir_def checkpoints_dir_def)
  moreover have "from_utf8 (lit ''r'') = Some (lit ''r'')" by (rule from_utf8_ascii) simp
  then have "read_create_record toy_ck toy_listed ?d 1 = Some toy_rec"
    by (simp add: read_create_record_def read_file_def fs_get_def create_file_path_def toy_ck_def name_dir_def checkpoints_dir_def)
  ultimately show ?thesis by (simp only: abs_checkpoints_def live_def Let_def) simp
qed

lemma toy_listed_run:
  "\<exists>infos. list_checkpoints toy_wal_codec toy_env toy_codec toy_ck [] [] (\<lambda>_. False) [] toy_listed = (toy_listed, Inr infos)"
proof -
  have n: "\<not> is_jsonl CHECKPOINTS_DIR_NAME"
    by (simp add: is_jsonl_def extension_def CHECKPOINTS_DIR_NAME_def Let_def)
  have m: "read_wal_bounds_manifest toy_env toy_listed [] = None"
    by (simp add: read_wal_bounds_manifest_def read_file_def fs_get_def wal_bounds_manifest_path_def
        WAL_BOUNDS_MANIFEST_FILE_def CHECKPOINTS_DIR_NAME_def name_dir_def checkpoints_dir_def create_file_path_def)
  have w: "write_wal_bounds_manifest toy_env u (\<lambda>_. False) [] mf sw toy_listed = toy_listed" for u mf sw
    unfolding write_wal_bounds_manifest_def sweep_stale_manifest_tmp_files_def toy_listed_dirs(1) by (simp add: toy_env_def)
  have f: "wal_files toy_listed [] = Inr []" unfolding wal_files_def toy_listed_dirs(1) using n by simp
  obtain d where sc: "scan_wal_bounds_detailed toy_wal_codec toy_env toy_listed [] = Inr d"
    unfolding scan_wal_bounds_detailed_def f rbind.simps bounds_fold.simps by blast
  have "wal_min_seq toy_wal_codec toy_env [] (\<lambda>_. False) [] toy_listed = (toy_listed, Inr (sd_min_seq d))"
    unfolding wal_min_seq_def wal_min_seq_fast_path_def m sc option.case sum.case w ..
  moreover have "wal_max_seq toy_wal_codec toy_env [] (\<lambda>_. False) [] toy_listed = (toy_listed, Inr (sd_max_seq d))"
    unfolding wal_max_seq_def wal_max_seq_fast_path_def m option.case prod.case sc sum.case w ..
  ultimately show ?thesis unfolding list_checkpoints_def toy_listed_dirs(2) by (simp only: sum.case prod.case) blast
qed

theorem list_checkpoints_exact_witness:
  "\<exists>infos. list_checkpoints toy_wal_codec toy_env toy_codec toy_ck [] [] (\<lambda>_. False) [] toy_listed = (toy_listed, Inr infos)
     \<and> lit ''a'' \<in> ci_name ` set infos"
proof -
  obtain infos where run: "list_checkpoints toy_wal_codec toy_env toy_codec toy_ck [] [] (\<lambda>_. False) [] toy_listed = (toy_listed, Inr infos)"
    using toy_listed_run by blast
  have wf: "fs_wf toy_listed" by (simp add: fs_wf_def name_dir_def checkpoints_dir_def create_file_path_def)
  have "is_dir toy_listed (name_dir [] (lit ''a''))"
    by (simp add: is_dir_def fs_get_def name_dir_def checkpoints_dir_def)
  with list_checkpoints_exact [OF run toy_listed_dirs(2) wf] toy_listed_live have "lit ''a'' \<in> ci_name ` set infos" by simp
  with run show ?thesis by blast
qed

end
