(* ===== verification/Rebuild.thy ===== *)
theory Rebuild
  imports Recovery Checkpoint
begin

text \<open>
  The request handlers for WAL positions in \<^verbatim>\<open>handlers.rs\<close>: everything \<^verbatim>\<open>knowledge_rebuild_from_wal\<close>
  decides before it replays, the position it records afterwards, and the three checkpoint
  commands.  A handler is a function of the request parameters and of the state it reads.  The
  theorem: a rebuild starts a replay only where that cannot mix two histories.
\<close>

section \<open>Parameters\<close>

definition DEFAULT_GROUP_ID :: rstr where
  "DEFAULT_GROUP_ID = lit ''liminis''"

text \<open>\<^verbatim>\<open>value[key]\<close>: null where there is no such entry.\<close>

definition value_index :: "json \<Rightarrow> rstr \<Rightarrow> json" where
  "value_index v k = (case value_get v k of None \<Rightarrow> JNull | Some x \<Rightarrow> x)"

definition as_bool :: "json \<Rightarrow> bool option" where
  "as_bool v = (case v of JBool b \<Rightarrow> Some b | _ \<Rightarrow> None)"

definition bool_param :: "json \<Rightarrow> rstr \<Rightarrow> bool" where
  "bool_param p k = (case as_bool (value_index p k) of Some b \<Rightarrow> b | None \<Rightarrow> False)"

definition group_id_param :: "json \<Rightarrow> rstr" where
  "group_id_param p =
     (case as_str (value_index p (lit ''group_id'')) of
        Some s \<Rightarrow> if s \<noteq> [] then s else DEFAULT_GROUP_ID
      | None \<Rightarrow> DEFAULT_GROUP_ID)"

definition validate_from_seq :: "json \<Rightarrow> nat result" where
  "validate_from_seq v =
     (case v of
        JNull \<Rightarrow> Inr 0
      | JBool _ \<Rightarrow> Inl (Ipc (lit ''from_seq must be a non-negative integer, not a boolean''))
      | JNum (PosInt n) \<Rightarrow> Inr n
      | JNum (NegInt i) \<Rightarrow> Inl (Ipc (lit ''from_seq must be non-negative, got -'' @ show_nat (nat (- i))))
      | _ \<Rightarrow> Inl (Ipc (lit ''from_seq must be a non-negative integer'')))"

definition validate_to_seq :: "json \<Rightarrow> nat option result" where
  "validate_to_seq v =
     (case v of
        JNull \<Rightarrow> Inr None
      | JBool _ \<Rightarrow> Inl (Ipc (lit ''to_seq must be a non-negative integer, not a boolean''))
      | JNum (PosInt n) \<Rightarrow> Inr (Some n)
      | JNum (NegInt i) \<Rightarrow> Inl (Ipc (lit ''to_seq must be non-negative, got -'' @ show_nat (nat (- i))))
      | _ \<Rightarrow> Inl (Ipc (lit ''to_seq must be a non-negative integer'')))"

definition name_param :: "json \<Rightarrow> rstr result" where
  "name_param p =
     (case as_str (value_index p (lit ''name'')) of
        Some s \<Rightarrow> if s \<noteq> [] then Inr s else Inl (Ipc (lit ''name is required and must be a non-empty string''))
      | None \<Rightarrow> Inl (Ipc (lit ''name is required and must be a non-empty string'')))"

definition resolve_group_wal_dir :: "path option \<Rightarrow> fsys \<Rightarrow> rstr \<Rightarrow> path result" where
  "resolve_group_wal_dir wal_root fs group_id =
     (case wal_root of
        None \<Rightarrow> Inl (Ipc (lit ''No WAL directory configured (set LCG_WAL_DIR)''))
      | Some root \<Rightarrow>
          rbind (encode_group_dir_name group_id) (\<lambda>dir_name.
          rbind (check_no_case_insensitive_collision fs root dir_name) (\<lambda>_.
          Inr (root @ [dir_name]))))"

definition has_jsonl_files :: "fsys \<Rightarrow> path \<Rightarrow> bool" where
  "has_jsonl_files fs dir = (case read_dir fs dir of Inl _ \<Rightarrow> False | Inr ns \<Rightarrow> list_ex is_jsonl ns)"

section \<open>The gate of a rebuild\<close>

text \<open>What the handler reads: the WAL root, the disk, the database (or why it is not available) and the
  number of writes in progress.\<close>

record rebuild_env =
  rb_wal_root :: "path option"
  rb_fs :: fsys
  rb_db :: "error option"
  rb_positions :: position_table
  rb_view :: group_view
  rb_active_writes :: nat

text \<open>What it decides: only to report a reset, or to replay a range, after clearing the group or not.\<close>

record replay_plan =
  rp_group_id :: rstr
  rp_wal_dir :: path
  rp_from_seq :: nat
  rp_to_seq :: "nat option"
  rp_dry_run :: bool
  rp_reset :: bool
  rp_clear :: bool
  rp_generation :: "rstr option"

datatype rebuild_outcome = ReportReset "rstr option" "rstr option" | ReplayNow replay_plan

definition count_or_zero :: "nat result \<Rightarrow> nat" where
  "count_or_zero r = (case r of Inl _ \<Rightarrow> 0 | Inr n \<Rightarrow> n)"

definition group_non_empty :: "group_view \<Rightarrow> rstr \<Rightarrow> bool" where
  "group_non_empty V g \<longleftrightarrow> count_or_zero (gv_count_entities V g) > 0 \<or> count_or_zero (gv_count_episodics V g) > 0
     \<or> count_or_zero (gv_count_relates_to V g) > 0"

definition busy :: "nat \<Rightarrow> error" where
  "busy active = Ipc (lit ''Service is busy: '' @ show_nat active
     @ lit '' write operation(s) in progress - wait until they complete before rebuilding'')"

definition range_error :: "nat \<Rightarrow> nat \<Rightarrow> error" where
  "range_error to_seq from_seq = Ipc (lit ''knowledge_rebuild_from_wal: to_seq ('' @ show_nat to_seq
     @ lit '') must not be less than from_seq ('' @ show_nat from_seq @ lit '')'')"

definition rebuild_range :: "json \<Rightarrow> (nat \<times> nat option) result" where
  "rebuild_range p =
     rbind (validate_from_seq (value_index p (lit ''from_seq''))) (\<lambda>from_seq.
     rbind (validate_to_seq (value_index p (lit ''to_seq''))) (\<lambda>to_seq.
       case to_seq of
         Some t \<Rightarrow> if t < from_seq then Inl (range_error t from_seq) else Inr (from_seq, to_seq)
       | None \<Rightarrow> Inr (from_seq, to_seq)))"

text \<open>Whether a full rebuild of a group with data may go ahead, and then that the group is cleared.\<close>

definition clear_decision :: "rebuild_env \<Rightarrow> rstr \<Rightarrow> nat \<Rightarrow> bool \<Rightarrow> bool \<Rightarrow> bool result" where
  "clear_decision R g from_seq dry_run force_clear =
     (if from_seq = 0 \<and> group_non_empty (rb_view R) g
      then if dry_run then Inl (Ipc (lit ''knowledge_rebuild_from_wal: a dry run cannot preview a full rebuild of a group with data''))
           else if \<not> force_clear then Inl (Ipc (lit ''knowledge_rebuild_from_wal: group already contains data; pass force_clear''))
           else if rb_active_writes R > 0 then Inl (busy (rb_active_writes R))
           else Inr True
      else Inr False)"

definition rebuild_plan ::
  "gen_codec \<Rightarrow> rebuild_env \<Rightarrow> json \<Rightarrow> rstr \<Rightarrow> path \<Rightarrow> nat \<Rightarrow> nat option \<Rightarrow> wal_position_record \<Rightarrow> rebuild_outcome result" where
  "rebuild_plan gc R p group_id wal_dir from_seq to_seq recorded =
     (let dry_run = bool_param p (lit ''dry_run'');
          current = read_generation gc (rb_fs R) wal_dir;
          reset = position_reset_detected (wp_applied_seq recorded) (wp_generation recorded) current
      in if wp_applied_seq recorded \<noteq> None \<and> current = None then Inl (WalGenerationUnknown group_id)
         else if reset \<and> dry_run then Inr (ReportReset (wp_generation recorded) current)
         else
           (let from_seq = (if reset then 0 else from_seq); to_seq = (if reset then None else to_seq);
                force_clear = (bool_param p (lit ''force_clear'') \<or> reset) in
            rbind (clear_decision R group_id from_seq dry_run force_clear) (\<lambda>clr.
              if \<not> dry_run \<and> rb_active_writes R > 0 then Inl (busy (rb_active_writes R))
              else Inr (ReplayNow \<lparr>rp_group_id = group_id, rp_wal_dir = wal_dir, rp_from_seq = from_seq,
                     rp_to_seq = to_seq, rp_dry_run = dry_run, rp_reset = reset, rp_clear = clr,
                     rp_generation = current\<rparr>))))"

definition rebuild_gate :: "gen_codec \<Rightarrow> rebuild_env \<Rightarrow> json \<Rightarrow> rebuild_outcome result" where
  "rebuild_gate gc R p =
     rbind (rebuild_range p) (\<lambda>(from_seq, to_seq).
       rbind (resolve_group_wal_dir (rb_wal_root R) (rb_fs R) (group_id_param p)) (\<lambda>wal_dir.
         if \<not> fs_exists (rb_fs R) wal_dir \<or> \<not> has_jsonl_files (rb_fs R) wal_dir
         then Inl (Ipc (lit ''No WAL files found''))
         else rbind (get_wal_position (rb_db R) (rb_positions R) (group_id_param p))
                (rebuild_plan gc R p (group_id_param p) wal_dir from_seq to_seq)))"

text \<open>The positions while the plan runs: cleared groups restart at zero in the current generation, and a
  replay that committed something records how far it came.\<close>

definition clear_position :: "replay_plan \<Rightarrow> position_table \<Rightarrow> position_table" where
  "clear_position P T = (if rp_clear P then fst (set_wal_position None (rp_group_id P) 0 (rp_generation P) None T) else T)"

definition rebuild_complete :: "replay_plan \<Rightarrow> nat option \<Rightarrow> bool \<Rightarrow> rstr \<times> int \<Rightarrow> position_table \<Rightarrow> position_table" where
  "rebuild_complete P last_committed_seq recomputed embedding_identity T =
     (if rp_dry_run P then T
      else case last_committed_seq of
             None \<Rightarrow> T
           | Some seq \<Rightarrow> fst (set_wal_position None (rp_group_id P) seq (rp_generation P)
               (if recomputed then Some embedding_identity else None) T))"

section \<open>Checkpoint commands\<close>

definition opt_num :: "nat option \<Rightarrow> json" where
  "opt_num s = (case s of None \<Rightarrow> JNull | Some n \<Rightarrow> JNum (PosInt n))"

definition opt_str :: "rstr option \<Rightarrow> json" where
  "opt_str s = (case s of None \<Rightarrow> JNull | Some t \<Rightarrow> JStr t)"

text \<open>The number a new checkpoint records: none for an empty group whose position is zero.\<close>

definition mark_seq :: "rebuild_env \<Rightarrow> rstr \<Rightarrow> nat option result" where
  "mark_seq R group_id =
     rbind (get_wal_position (rb_db R) (rb_positions R) group_id) (\<lambda>p.
       case wp_applied_seq p of
         None \<Rightarrow> Inl (Ipc (lit ''knowledge_wal_mark_create: applied_seq is unknown (null)''))
       | Some applied_seq \<Rightarrow>
           if applied_seq = 0
           then rbind (group_has_no_content (rb_view R) group_id) (\<lambda>e. Inr (if e then None else Some 0))
           else Inr (Some applied_seq))"

definition handle_wal_mark_create :: "ck_codec \<Rightarrow> gen_codec \<Rightarrow> nat \<Rightarrow> rebuild_env \<Rightarrow> json \<Rightarrow> fsys \<times> json result" where
  "handle_wal_mark_create K gc now_ms R p =
     (let fs = rb_fs R; group_id = group_id_param p in
      case rbind (name_param p) (\<lambda>name. rbind (validate_name name) (\<lambda>_.
             rbind (resolve_group_wal_dir (rb_wal_root R) fs group_id) (\<lambda>wal_dir.
             rbind (mark_seq R group_id) (\<lambda>seq. Inr (name, wal_dir, seq))))) of
        Inl e \<Rightarrow> (fs, Inl e)
      | Inr (name, wal_dir, seq) \<Rightarrow>
          (let generation = read_generation gc fs wal_dir in
           case create_checkpoint K now_ms wal_dir name seq generation fs of
             (fs', Inl e) \<Rightarrow> (fs', Inl e)
           | (fs', Inr _) \<Rightarrow>
               (fs', Inr (JObj [(lit ''success'', JBool True), (lit ''name'', JStr name), (lit ''group_id'', JStr group_id),
                       (lit ''seq'', opt_num seq), (lit ''generation'', opt_str generation)]))))"

definition handle_wal_mark_delete :: "ck_codec \<Rightarrow> nat \<Rightarrow> rebuild_env \<Rightarrow> json \<Rightarrow> fsys \<times> json result" where
  "handle_wal_mark_delete K now_ms R p =
     (let fs = rb_fs R; group_id = group_id_param p in
      case rbind (name_param p) (\<lambda>name.
             rbind (resolve_group_wal_dir (rb_wal_root R) fs group_id) (\<lambda>wal_dir. Inr (name, wal_dir))) of
        Inl e \<Rightarrow> (fs, Inl e)
      | Inr (name, wal_dir) \<Rightarrow>
          (case delete_checkpoint K now_ms wal_dir name fs of
             (fs', Inl e) \<Rightarrow> (fs', Inl e)
           | (fs', Inr _) \<Rightarrow>
               (fs', Inr (JObj [(lit ''success'', JBool True), (lit ''name'', JStr name), (lit ''group_id'', JStr group_id)]))))"

definition handle_wal_mark_list ::
  "wal_codec \<Rightarrow> bounds_env \<Rightarrow> gen_codec \<Rightarrow> ck_codec \<Rightarrow> rstr \<Rightarrow> rstr \<Rightarrow> (path \<Rightarrow> bool) \<Rightarrow> rebuild_env \<Rightarrow> json
     \<Rightarrow> fsys \<times> (rstr \<times> checkpoint_info list) result" where
  "handle_wal_mark_list c E gc K u1 u2 stale R p =
     (let fs = rb_fs R; group_id = group_id_param p in
      case resolve_group_wal_dir (rb_wal_root R) fs group_id of
        Inl e \<Rightarrow> (fs, Inl e)
      | Inr wal_dir \<Rightarrow>
          (case list_checkpoints c E gc K u1 u2 stale wal_dir fs of
             (fs', Inl e) \<Rightarrow> (fs', Inl e)
           | (fs', Inr infos) \<Rightarrow> (fs', Inr (group_id, infos))))"

section \<open>What the gate lets through\<close>

lemma rebuild_range_le:
  assumes "rebuild_range p = Inr (f, Some t)" shows "f \<le> t"
proof -
  obtain f' t' where "(case t' of Some x \<Rightarrow> if x < f' then Inl (range_error x f') else Inr (f', t') | None \<Rightarrow> Inr (f', t')) = Inr (f, Some t)"
    using assms unfolding rebuild_range_def rbind_Inr_iff by blast
  then show ?thesis by (cases t') (auto split: if_splits)
qed

lemma clear_decision_Inr:
  "clear_decision R g f dry force = Inr clr \<longleftrightarrow>
     (if f = 0 \<and> group_non_empty (rb_view R) g then \<not> dry \<and> force \<and> rb_active_writes R = 0 \<and> clr else \<not> clr)"
  by (auto simp: clear_decision_def simp del: lit_Cons)

lemma rebuild_plan_ReplayNow:
  assumes "rebuild_plan gc R p g d f t r = Inr (ReplayNow P)"
  defines "reset \<equiv> position_reset_detected (wp_applied_seq r) (wp_generation r) (read_generation gc (rb_fs R) d)"
  shows "rp_group_id P = g" "rp_wal_dir P = d" "rp_from_seq P = (if reset then 0 else f)" "rp_to_seq P = (if reset then None else t)"
    "rp_generation P = read_generation gc (rb_fs R) d" "rp_reset P = reset" "reset \<Longrightarrow> \<not> rp_dry_run P"
    "wp_applied_seq r \<noteq> None \<Longrightarrow> rp_generation P \<noteq> None" "\<not> rp_dry_run P \<Longrightarrow> rb_active_writes R = 0"
    "clear_decision R g (rp_from_seq P) (rp_dry_run P) (bool_param p (lit ''force_clear'') \<or> reset) = Inr (rp_clear P)"
  using assms(1) unfolding reset_def rebuild_plan_def
  by (auto simp: Let_def rbind_Inr_iff simp del: lit_Cons split: if_splits)

text \<open>C23: a rebuild never mixes two histories.  When the gate lets a replay start, then: if the group
  has a recorded position, the stream on disk has a readable generation, and either it is the
  recorded one or the replay is a full one that is not a dry run; a replay from the beginning runs
  only over a group without data or one that is cleared first; clearing happens only without a dry
  run, without writes in progress, and on request or after a reset; and the range is not empty by
  construction.  After a reset a dry run only reports.\<close>

theorem rebuild_gate_safe:
  assumes run: "rebuild_gate gc R p = Inr (ReplayNow P)" and rec: "get_wal_position (rb_db R) (rb_positions R) (rp_group_id P) = Inr r"
  shows "(wp_applied_seq r \<noteq> None \<longrightarrow> rp_generation P \<noteq> None \<and>
       (wp_generation r = rp_generation P \<or> (rp_from_seq P = 0 \<and> rp_to_seq P = None \<and> \<not> rp_dry_run P \<and> rp_reset P)))
    \<and> (rp_from_seq P = 0 \<longrightarrow> rp_clear P \<or> \<not> group_non_empty (rb_view R) (rp_group_id P))
    \<and> (rp_clear P \<longrightarrow> rp_from_seq P = 0 \<and> \<not> rp_dry_run P \<and> rb_active_writes R = 0
         \<and> (rp_reset P \<or> bool_param p (lit ''force_clear'')))
    \<and> (\<not> rp_dry_run P \<longrightarrow> rb_active_writes R = 0)
    \<and> (case rp_to_seq P of None \<Rightarrow> True | Some t \<Rightarrow> rp_from_seq P \<le> t)
    \<and> resolve_group_wal_dir (rb_wal_root R) (rb_fs R) (rp_group_id P) = Inr (rp_wal_dir P)
    \<and> rp_generation P = read_generation gc (rb_fs R) (rp_wal_dir P)"
proof -
  obtain f t d r' where range: "rebuild_range p = Inr (f, t)"
    and d: "resolve_group_wal_dir (rb_wal_root R) (rb_fs R) (group_id_param p) = Inr d"
    and r': "get_wal_position (rb_db R) (rb_positions R) (group_id_param p) = Inr r'"
    and plan: "rebuild_plan gc R p (group_id_param p) d f t r' = Inr (ReplayNow P)"
    using run by (auto simp: rebuild_gate_def rbind_Inr_iff simp del: lit_Cons split: if_splits)
  note P = rebuild_plan_ReplayNow [OF plan]
  have r: "r' = r" using r' rec P(1) by simp
  show ?thesis
    using P d r rebuild_range_le [of p f] range
    by (auto simp: clear_decision_Inr position_reset_detected_def simp del: lit_Cons split: if_splits option.splits)
qed

text \<open>A group with a stream on disk, no recorded position and no data.\<close>

definition toy_rebuild :: rebuild_env where
  "toy_rebuild = \<lparr>rb_wal_root = Some [], rb_fs = [([], Dir), ([lit ''liminis''], Dir), ([lit ''liminis'', lit ''a.jsonl''], File [])],
     rb_db = None, rb_positions = Map.empty,
     rb_view = \<lparr>gv_latest_episode_uuid = (\<lambda>g. Inr None), gv_count_episodics = (\<lambda>g. Inr 0),
       gv_count_entities = (\<lambda>g. Inr 0), gv_count_relates_to = (\<lambda>g. Inr 0)\<rparr>,
     rb_active_writes = 0\<rparr>"

lemma toy_rebuild_gate:
  "rebuild_gate toy_codec toy_rebuild (JObj []) =
     Inr (ReplayNow \<lparr>rp_group_id = lit ''liminis'', rp_wal_dir = [lit ''liminis''], rp_from_seq = 0, rp_to_seq = None,
       rp_dry_run = False, rp_reset = False, rp_clear = False, rp_generation = None\<rparr>)"
  by code_simp

theorem rebuild_gate_safe_witness:
  "\<exists>P. rebuild_gate toy_codec toy_rebuild (JObj []) = Inr (ReplayNow P)
     \<and> resolve_group_wal_dir (Some []) (rb_fs toy_rebuild) (rp_group_id P) = Inr (rp_wal_dir P)"
proof -
  have "get_wal_position (rb_db toy_rebuild) (rb_positions toy_rebuild) g = Inr no_position" for g
    by (simp add: toy_rebuild_def get_wal_position_def)
  moreover have "rb_wal_root toy_rebuild = Some []" by (simp add: toy_rebuild_def)
  moreover obtain P where P: "rebuild_gate toy_codec toy_rebuild (JObj []) = Inr (ReplayNow P)" using toy_rebuild_gate by blast
  ultimately show ?thesis using rebuild_gate_safe [OF P] by metis
qed

text \<open>A completed rebuild settles the position: the next request sees no reset.\<close>

lemma rebuild_settles:
  assumes "\<not> rp_dry_run P" "s < 2 ^ 63"
    and "get_wal_position None (rebuild_complete P (Some s) b ident (clear_position P T)) (rp_group_id P) = Inr r"
  shows "wp_applied_seq r = Some s \<and> wp_generation r = rp_generation P
    \<and> \<not> position_reset_detected (wp_applied_seq r) (wp_generation r) (rp_generation P)"
proof -
  have "s \<le> u64_max" using assms(2) by (simp add: u64_max_def)
  from get_after_set [OF this, of "rp_group_id P" "rp_generation P" _ "clear_position P T" "rp_group_id P"] assms
  show ?thesis by (auto simp: rebuild_complete_def position_reset_detected_def)
qed

end
