(* ===== verification/SummaryMerge.thy ===== *)
theory SummaryMerge
  imports DedupJudge
begin

text \<open>
  \<^verbatim>\<open>summary_merge.rs\<close>: deciding whether a new entity summary adds anything, bounding a summary,
  merging without a model, and cleaning a model's reply.  Positions are counted in characters
  where the source counts bytes; both fall on the same boundaries.  The theorems: every summary
  produced on any path is bounded, what it keeps of the inputs, and that the reply cleaner ends
  with nothing left to unwrap.  The prompt texts are not modelled.
\<close>

definition MERGED_SUMMARY_CAP :: nat where
  "MERGED_SUMMARY_CAP = 600"

datatype consolidation_plan = Keep | UseIncoming rstr | Consolidate

text \<open>\<^verbatim>\<open>str::match_indices\<close>: the occurrences from left to right that do not overlap.\<close>

function match_indices :: "rstr \<Rightarrow> rstr \<Rightarrow> nat list" where
  "match_indices p s =
     (if p = [] then [0..<length s + 1]
      else (case str_find p s of
              None \<Rightarrow> []
            | Some i \<Rightarrow> i # map ((+) (i + length p)) (match_indices p (drop (i + length p) s))))"
  by pat_completeness auto
termination
proof (relation "measure (\<lambda>(p, s). length s)")
  fix p s :: rstr and i
  assume "p \<noteq> []" and f: "str_find p s = Some i"
  then have "length p > 0" by simp
  moreover have "i + length p \<le> length s"
    using str_find_SomeD [OF f] by (auto simp: starts_with_iff dest!: arg_cong [where f = length])
  ultimately have "length s - (i + length p) < length s" by linarith
  then show "((p, drop (i + length p) s), (p, s)) \<in> measure (\<lambda>(p, s). length s)" by simp
qed simp

declare match_indices.simps [simp del]

definition contains_on_word_boundaries :: "ucd \<Rightarrow> rstr \<Rightarrow> rstr \<Rightarrow> bool" where
  "contains_on_word_boundaries U current incoming =
     (let starts_alnum = (incoming \<noteq> [] \<and> is_alphanumeric U (hd incoming));
          ends_alnum = (incoming \<noteq> [] \<and> is_alphanumeric U (last incoming))
      in list_ex (\<lambda>i.
           (\<not> starts_alnum \<or> i = 0 \<or> \<not> is_alphanumeric U (current ! (i - 1)))
           \<and> (\<not> ends_alnum \<or> i + length incoming = length current
              \<or> \<not> is_alphanumeric U (current ! (i + length incoming))))
         (match_indices incoming current))"

definition sentence_ends :: "rstr \<Rightarrow> nat list" where
  "sentence_ends text =
     map Suc (filter (\<lambda>i. text ! i \<in> {46, 33, 63} \<and> (i + 1 = length text \<or> is_whitespace (text ! (i + 1))))
        [0..<length text])"

definition cap_summary_to :: "rstr \<Rightarrow> nat \<Rightarrow> rstr" where
  "cap_summary_to text0 cap =
     (let text = trim text0 in
      if length text \<le> cap then text
      else case find (\<lambda>stop. length (take stop text) \<le> cap) (rev (sentence_ends text)) of
             Some stop \<Rightarrow> trim_end (take stop text)
           | None \<Rightarrow> trim_end (take cap text))"

definition cap_summary :: "rstr \<Rightarrow> rstr" where
  "cap_summary text = cap_summary_to text MERGED_SUMMARY_CAP"

definition decide_consolidation :: "ucd \<Rightarrow> rstr \<Rightarrow> rstr \<Rightarrow> consolidation_plan" where
  "decide_consolidation U current incoming0 =
     (let incoming = trim incoming0 in
      if incoming = [] \<or> contains_on_word_boundaries U current incoming then Keep
      else if trim current = [] then UseIncoming (cap_summary incoming)
      else Consolidate)"

text \<open>The loop that drops leading sentences.\<close>

fun drop_sentences :: "rstr \<Rightarrow> nat \<Rightarrow> nat list \<Rightarrow> rstr option" where
  "drop_sentences joined cap [] = None"
| "drop_sentences joined cap (stop # stops) =
     (let rest = trim_start (drop stop joined) in
      if rest = [] then None
      else if length rest \<le> cap then Some rest
      else drop_sentences joined cap stops)"

definition fallback_merge_to :: "rstr \<Rightarrow> rstr \<Rightarrow> nat \<Rightarrow> rstr" where
  "fallback_merge_to existing0 incoming0 cap =
     (let existing = trim existing0; incoming = trim incoming0;
          joined = (if existing = [] then incoming else if incoming = [] then existing
                    else existing @ [32] @ incoming)
      in if length joined \<le> cap then joined
         else case drop_sentences joined cap (sentence_ends joined) of
                Some rest \<Rightarrow> rest
              | None \<Rightarrow> trim_start (drop (length joined - cap) joined))"

definition fallback_merge :: "rstr \<Rightarrow> rstr \<Rightarrow> rstr" where
  "fallback_merge existing incoming = fallback_merge_to existing incoming MERGED_SUMMARY_CAP"

definition unwrap_quote :: "nat \<Rightarrow> rstr \<Rightarrow> rstr option" where
  "unwrap_quote q s =
     Option.bind (Option.bind (strip_prefix [q] s) (strip_suffix [q]))
       (\<lambda>inner. if q \<in> set inner then None else Some inner)"

definition unwrap_any :: "rstr \<Rightarrow> rstr option" where
  "unwrap_any s =
     (case unwrap_quote 34 s of
        Some inner \<Rightarrow> Some inner
      | None \<Rightarrow> (case unwrap_quote 39 s of Some inner \<Rightarrow> Some inner | None \<Rightarrow> unwrap_quote 96 s))"

lemma unwrap_quote_length: "unwrap_quote q s = Some inner \<Longrightarrow> length inner < length s"
  by (auto simp: unwrap_quote_def strip_prefix_def strip_suffix_def starts_with_iff split: bind_splits if_splits)

lemma unwrap_any_length: "unwrap_any s = Some inner \<Longrightarrow> length inner < length s"
  by (auto simp: unwrap_any_def dest: unwrap_quote_length split: option.splits)

function unwrap_all :: "rstr \<Rightarrow> rstr" where
  "unwrap_all trimmed = (case unwrap_any trimmed of Some inner \<Rightarrow> unwrap_all (trim inner) | None \<Rightarrow> trimmed)"
  by pat_completeness auto
termination
  by (relation "measure length") (auto dest: unwrap_any_length intro: le_less_trans [OF length_trim])

declare unwrap_all.simps [simp del]

definition finalize_consolidation :: "rstr \<Rightarrow> rstr option" where
  "finalize_consolidation raw =
     (let capped = cap_summary (unwrap_all (trim raw)) in if capped \<noteq> [] then Some capped else None)"

section \<open>Bounds\<close>

lemma trim_start_suffix: "suffix (trim_start s) s"
  unfolding trim_start_def by (rule suffix_dropWhile)

lemma sorted_sentence_ends: "sorted (sentence_ends text)"
  unfolding sentence_ends_def by (intro sorted_map [THEN iffD2] sorted_wrt_filter) (simp add: sorted_wrt_upt sorted_wrt_iff_nth_less)

lemma sentence_ends_le: "e \<in> set (sentence_ends text) \<Longrightarrow> 0 < e \<and> e \<le> length text"
  by (auto simp: sentence_ends_def)

lemma find_rev_sorted:
  "sorted xs \<Longrightarrow> find P (rev xs) = Some (x :: nat) \<Longrightarrow> x \<in> set xs \<and> P x \<and> (\<forall>y \<in> set xs. P y \<longrightarrow> y \<le> x)"
proof (induction xs rule: rev_induct)
  case (snoc z zs)
  then show ?case by (cases "P z") (auto simp: sorted_append)
qed simp

lemma trim_end_take_le: "length (trim_end (take n x)) \<le> n"
  using length_trim_end [of "take n x"] by simp

lemma cap_summary_le: "length (cap_summary_to text cap) \<le> cap"
proof (cases "length (trim text) \<le> cap")
  case False
  show ?thesis
  proof (cases "find (\<lambda>stop. length (take stop (trim text)) \<le> cap) (rev (sentence_ends (trim text)))")
    case (Some e)
    then have "length (take e (trim text)) \<le> cap" by (auto simp: find_Some_iff)
    with False Some show ?thesis using length_trim_end [of "take e (trim text)"] by (simp add: cap_summary_to_def Let_def)
  qed (use False trim_end_take_le in \<open>simp add: cap_summary_to_def Let_def\<close>)
qed (simp add: cap_summary_to_def Let_def)

text \<open>Capping keeps the lead.  The capped text never exceeds the cap and is a beginning of the
  trimmed text; a text that fits is returned as it is; otherwise the cut falls behind the last
  sentence end that fits, or at the cap when no sentence end fits.\<close>

lemma cap_summary_lead:
  "length (cap_summary_to text cap) \<le> cap \<and> prefix (cap_summary_to text cap) (trim text)
   \<and> (length (trim text) \<le> cap \<longrightarrow> cap_summary_to text cap = trim text)
   \<and> (length (trim text) > cap \<longrightarrow> cap_summary_to text cap =
        trim_end (take (let fit = {e \<in> set (sentence_ends (trim text)). e \<le> cap}
                        in if fit = {} then cap else Max fit) (trim text)))"
proof -
  let ?t = "trim text" and ?P = "\<lambda>stop. length (take stop (trim text)) \<le> cap"
  let ?fit = "{e \<in> set (sentence_ends ?t). e \<le> cap}"
  have pf: "prefix (trim_end (take n ?t)) ?t" for n
    by (meson prefix_order.trans take_is_prefix trim_end_prefix)
  have P: "?P e \<longleftrightarrow> e \<le> cap" if "e \<in> set (sentence_ends ?t)" for e using sentence_ends_le [OF that] by simp
  show ?thesis
  proof (cases "length ?t \<le> cap")
    case True
    then show ?thesis by (simp add: cap_summary_to_def Let_def)
  next
    case long: False
    show ?thesis
    proof (cases "find ?P (rev (sentence_ends ?t))")
      case None
      then have "?fit = {}" using P by (auto simp: find_None_iff)
      with long None cap_summary_le [of "text" cap] pf show ?thesis by (simp add: cap_summary_to_def Let_def)
    next
      case (Some e)
      from find_rev_sorted [OF sorted_sentence_ends Some] P
      have e: "e \<in> ?fit" "\<And>y. y \<in> ?fit \<Longrightarrow> y \<le> e" by auto
      then have "Max ?fit = e" by (intro Max_eqI) auto
      then show ?thesis using long Some e(1) pf cap_summary_le [of "text" cap] by (auto simp: cap_summary_to_def Let_def)
    qed
  qed
qed

theorem cap_summary_lead_witness:
  "cap_summary_to (lit '' One. Two'') 5 = lit ''One.'' \<and> length (cap_summary_to (lit '' One. Two'') 5) \<le> 5"
proof -
  have "cap_summary_to (lit '' One. Two'') 5 = lit ''One.''"
    by (simp add: cap_summary_to_def sentence_ends_def text_eval upt_rec Let_def)
  moreover have "length (cap_summary_to (lit '' One. Two'') 5) \<le> 5"
    using cap_summary_lead [of "lit '' One. Two''" 5] by blast
  ultimately show ?thesis ..
qed

lemma drop_sentences_Some:
  "drop_sentences joined cap stops = Some rest \<Longrightarrow> length rest \<le> cap \<and> rest \<noteq> [] \<and> (\<exists>e \<in> set stops. rest = trim_start (drop e joined))"
  by (induction stops) (auto simp: Let_def split: if_splits)

lemma fallback_merge_le: "length (fallback_merge_to existing incoming cap) \<le> cap"
proof -
  have "length (trim_start (drop (length x - cap) x)) \<le> cap" for x
    using length_trim_start [of "drop (length x - cap) x"] by simp
  moreover obtain j where "fallback_merge_to existing incoming cap = (if length j \<le> cap then j
      else case drop_sentences j cap (sentence_ends j) of
             Some rest \<Rightarrow> rest | None \<Rightarrow> trim_start (drop (length j - cap) j))"
    unfolding fallback_merge_to_def Let_def by blast
  ultimately show ?thesis by (auto dest: drop_sentences_Some split: option.split)
qed

text \<open>The merge without a model keeps the most recent text.  The result never exceeds the cap and is
  an end of the two trimmed summaries joined by a space; it is all of them when they fit, and
  when it is shortened it starts behind a sentence end or keeps the last characters.\<close>

lemma fallback_merge_recent:
  assumes joined: "joined = (if trim existing = [] then trim incoming else if trim incoming = [] then trim existing
      else trim existing @ [32] @ trim incoming)"
  shows "length (fallback_merge_to existing incoming cap) \<le> cap
    \<and> suffix (fallback_merge_to existing incoming cap) joined
    \<and> (length joined \<le> cap \<longrightarrow> fallback_merge_to existing incoming cap = joined)
    \<and> (length joined > cap \<longrightarrow>
         (\<exists>e \<in> set (sentence_ends joined) \<union> {length joined - cap}. fallback_merge_to existing incoming cap = trim_start (drop e joined)))"
proof -
  have sf: "suffix (trim_start (drop n joined)) joined" for n
    by (meson suffix_drop suffix_order.trans trim_start_suffix)
  have un: "fallback_merge_to existing incoming cap = (if length joined \<le> cap then joined
      else case drop_sentences joined cap (sentence_ends joined) of
             Some rest \<Rightarrow> rest | None \<Rightarrow> trim_start (drop (length joined - cap) joined))"
    unfolding fallback_merge_to_def Let_def joined [symmetric] ..
  show ?thesis
  proof (cases "drop_sentences joined cap (sentence_ends joined)")
    case None
    with un sf fallback_merge_le [of existing incoming cap] show ?thesis by auto
  next
    case (Some rest)
    with drop_sentences_Some [OF Some] un sf show ?thesis by auto
  qed
qed

theorem fallback_merge_recent_witness:
  "fallback_merge_to (lit ''Old fact. '') (lit ''New.'') 5 = lit ''New.''
   \<and> length (fallback_merge_to (lit ''Old fact. '') (lit ''New.'') 5) \<le> 5"
proof -
  have "fallback_merge_to (lit ''Old fact. '') (lit ''New.'') 5 = lit ''New.''"
    by (simp add: fallback_merge_to_def sentence_ends_def text_eval upt_rec Let_def)
  moreover have "length (fallback_merge_to (lit ''Old fact. '') (lit ''New.'') 5) \<le> 5"
    using fallback_merge_recent [OF refl, of "lit ''Old fact. ''" "lit ''New.''" 5] by blast
  ultimately show ?thesis ..
qed

section \<open>Every path is bounded\<close>

lemma unwrap_all_done: "unwrap_any (unwrap_all s) = None"
proof (induction s rule: unwrap_all.induct)
  case (1 s)
  then show ?case by (cases "unwrap_any s") (simp_all add: unwrap_all.simps [of s])
qed

text \<open>No path produces an unbounded summary.  What is taken over from the incoming text, what a reply
  is cleaned to and what the merge without a model yields has at most 600 characters, and a cleaned
  reply is never empty.\<close>

lemma merged_summary_bounded:
  "(decide_consolidation U current incoming = UseIncoming s \<longrightarrow> length s \<le> MERGED_SUMMARY_CAP)
   \<and> (finalize_consolidation raw = Some s \<longrightarrow> length s \<le> MERGED_SUMMARY_CAP \<and> s \<noteq> [])
   \<and> length (fallback_merge current incoming) \<le> MERGED_SUMMARY_CAP"
proof -
  have "length (cap_summary t) \<le> MERGED_SUMMARY_CAP" for t by (simp add: cap_summary_def cap_summary_le)
  then show ?thesis using fallback_merge_le
    by (auto simp: fallback_merge_def decide_consolidation_def finalize_consolidation_def Let_def split: if_splits)
qed

text \<open>Overlapping occurrences are skipped: the text occurs between word boundaries, yet only its first,
  overlapping occurrence is looked at.\<close>

lemma overlapping_occurrence_missed:
  "\<not> contains_on_word_boundaries ascii_ucd (lit ''xab ab ab'') (lit ''ab ab'')
   \<and> lit ''xab ab ab'' = lit ''xab '' @ lit ''ab ab'' @ []"
  by (simp add: contains_on_word_boundaries_def match_indices.simps text_eval)

end
