(* ===== verification/Pointer.thy ===== *)
theory Pointer
  imports Json "HOL-Library.Countable"
begin

text \<open>
  Cross-group pointers in the attributes of an edge and the forwarding reference of a merged entity
  (\<^verbatim>\<open>pointer.rs\<close>).  Attributes are a text; the JSON parser and printer are parameters, with the
  round trip of objects as hypothesis.  The conversions between a pointer and a JSON value are
  those the derived serialisation gives: optional fields are left out when empty, unknown fields
  are ignored, a missing or ill-typed field makes the whole value unreadable.
\<close>

section \<open>Pointers\<close>

datatype binding_state = Bound | Unbound | Ambiguous

datatype endpoint_side = Src | Dst

record cross_group_pointer =
  cp_source_group_id :: rstr
  cp_endpoint_name :: rstr
  cp_endpoint_kind :: "rstr option"
  cp_resolved_uuid :: "rstr option"
  cp_bound_at_seq :: "nat option"
  cp_binding_state :: binding_state

record cross_group_pointers =
  cps_src :: "cross_group_pointer option"
  cps_dst :: "cross_group_pointer option"

definition no_pointers :: cross_group_pointers where
  "no_pointers = \<lparr>cps_src = None, cps_dst = None\<rparr>"

definition pointers_is_empty :: "cross_group_pointers \<Rightarrow> bool" where
  "pointers_is_empty ps \<longleftrightarrow> cps_src ps = None \<and> cps_dst ps = None"

fun pointers_get :: "endpoint_side \<Rightarrow> cross_group_pointers \<Rightarrow> cross_group_pointer option" where
  "pointers_get Src ps = cps_src ps"
| "pointers_get Dst ps = cps_dst ps"

fun pointers_set :: "endpoint_side \<Rightarrow> cross_group_pointer \<Rightarrow> cross_group_pointers \<Rightarrow> cross_group_pointers" where
  "pointers_set Src p ps = ps\<lparr>cps_src := Some p\<rparr>"
| "pointers_set Dst p ps = ps\<lparr>cps_dst := Some p\<rparr>"

definition pointers_iter :: "cross_group_pointers \<Rightarrow> (endpoint_side \<times> cross_group_pointer) list" where
  "pointers_iter ps = (case cps_src ps of None \<Rightarrow> [] | Some p \<Rightarrow> [(Src, p)]) @ (case cps_dst ps of None \<Rightarrow> [] | Some p \<Rightarrow> [(Dst, p)])"

section \<open>As JSON values\<close>

definition state_to_json :: "binding_state \<Rightarrow> json" where
  "state_to_json s = JStr (case s of Bound \<Rightarrow> lit ''bound'' | Unbound \<Rightarrow> lit ''unbound'' | Ambiguous \<Rightarrow> lit ''ambiguous'')"

definition state_of_json :: "json \<Rightarrow> binding_state option" where
  "state_of_json v =
     (case as_str v of
        None \<Rightarrow> None
      | Some s \<Rightarrow> if s = lit ''bound'' then Some Bound else if s = lit ''unbound'' then Some Unbound
          else if s = lit ''ambiguous'' then Some Ambiguous else None)"

definition opt_field :: "rstr \<Rightarrow> json option \<Rightarrow> jmap" where
  "opt_field k v = (case v of None \<Rightarrow> [] | Some x \<Rightarrow> [(k, x)])"

definition pointer_to_json :: "cross_group_pointer \<Rightarrow> json" where
  "pointer_to_json p =
     JObj ([(lit ''source_group_id'', JStr (cp_source_group_id p)), (lit ''endpoint_name'', JStr (cp_endpoint_name p))]
       @ opt_field (lit ''endpoint_kind'') (map_option JStr (cp_endpoint_kind p))
       @ opt_field (lit ''resolved_uuid'') (map_option JStr (cp_resolved_uuid p))
       @ opt_field (lit ''bound_at_seq'') (map_option (JNum \<circ> PosInt) (cp_bound_at_seq p))
       @ [(lit ''binding_state'', state_to_json (cp_binding_state p))])"

text \<open>A required field, and an optional one that may be missing or null.\<close>

definition req_field :: "(json \<Rightarrow> 'a option) \<Rightarrow> jmap \<Rightarrow> rstr \<Rightarrow> 'a option" where
  "req_field f m k = Option.bind (jget m k) f"

definition default_field :: "(json \<Rightarrow> 'a option) \<Rightarrow> jmap \<Rightarrow> rstr \<Rightarrow> 'a option option" where
  "default_field f m k =
     (case jget m k of None \<Rightarrow> Some None
      | Some v \<Rightarrow> if v = JNull then Some None else map_option Some (f v))"

definition pointer_of_json :: "json \<Rightarrow> cross_group_pointer option" where
  "pointer_of_json v =
     (case v of
        JObj m \<Rightarrow>
          Option.bind (req_field as_str m (lit ''source_group_id'')) (\<lambda>g.
          Option.bind (req_field as_str m (lit ''endpoint_name'')) (\<lambda>n.
          Option.bind (default_field as_str m (lit ''endpoint_kind'')) (\<lambda>k.
          Option.bind (default_field as_str m (lit ''resolved_uuid'')) (\<lambda>u.
          Option.bind (default_field as_u64 m (lit ''bound_at_seq'')) (\<lambda>b.
          Option.bind (req_field state_of_json m (lit ''binding_state'')) (\<lambda>s.
            Some \<lparr>cp_source_group_id = g, cp_endpoint_name = n, cp_endpoint_kind = k, cp_resolved_uuid = u,
                  cp_bound_at_seq = b, cp_binding_state = s\<rparr>))))))
      | _ \<Rightarrow> None)"

definition pointers_to_json :: "cross_group_pointers \<Rightarrow> json" where
  "pointers_to_json ps =
     JObj (opt_field (lit ''src'') (map_option pointer_to_json (cps_src ps))
       @ opt_field (lit ''dst'') (map_option pointer_to_json (cps_dst ps)))"

definition pointers_of_json :: "json \<Rightarrow> cross_group_pointers option" where
  "pointers_of_json v =
     (case v of
        JObj m \<Rightarrow>
          Option.bind (default_field pointer_of_json m (lit ''src'')) (\<lambda>s.
          Option.bind (default_field pointer_of_json m (lit ''dst'')) (\<lambda>d.
            Some \<lparr>cps_src = s, cps_dst = d\<rparr>))
      | _ \<Rightarrow> None)"

section \<open>In the attributes\<close>

record json_text =
  jt_parse :: "rstr \<Rightarrow> json option"
  jt_print :: "json \<Rightarrow> rstr"

text \<open>What is relied on: printing an object and parsing it gives it back, and parsed objects have no
  key twice.\<close>

definition json_text_ok :: "json_text \<Rightarrow> bool" where
  "json_text_ok J \<longleftrightarrow> (\<forall>m. jmap_wf m \<longrightarrow> jt_parse J (jt_print J (JObj m)) = Some (JObj m))
     \<and> (\<forall>t m. jt_parse J t = Some (JObj m) \<longrightarrow> jmap_wf m)"

definition POINTERS_KEY :: rstr where
  "POINTERS_KEY = lit ''cross_group_pointers''"

definition MERGED_INTO_KEY :: rstr where
  "MERGED_INTO_KEY = lit ''merged_into''"

definition attr_map :: "json_text \<Rightarrow> rstr \<Rightarrow> jmap" where
  "attr_map J attributes = (case jt_parse J attributes of Some (JObj m) \<Rightarrow> m | _ \<Rightarrow> [])"

definition read_pointers :: "json_text \<Rightarrow> rstr \<Rightarrow> cross_group_pointers" where
  "read_pointers J attributes =
     (case jt_parse J attributes of
        Some (JObj m) \<Rightarrow>
          (case jget m POINTERS_KEY of
             None \<Rightarrow> no_pointers
           | Some raw \<Rightarrow> (case pointers_of_json raw of None \<Rightarrow> no_pointers | Some ps \<Rightarrow> ps))
      | _ \<Rightarrow> no_pointers)"

definition write_pointers :: "json_text \<Rightarrow> rstr \<Rightarrow> cross_group_pointers \<Rightarrow> rstr" where
  "write_pointers J attributes ps =
     jt_print J (JObj (if pointers_is_empty ps then jremove POINTERS_KEY (attr_map J attributes)
                       else jinsert POINTERS_KEY (pointers_to_json ps) (attr_map J attributes)))"

definition read_merged_into :: "json_text \<Rightarrow> rstr \<Rightarrow> rstr option" where
  "read_merged_into J attributes =
     (case jt_parse J attributes of
        Some (JObj m) \<Rightarrow> Option.bind (jget m MERGED_INTO_KEY) as_str
      | _ \<Rightarrow> None)"

definition write_merged_into :: "json_text \<Rightarrow> rstr \<Rightarrow> rstr \<Rightarrow> rstr" where
  "write_merged_into J attributes canonical_uuid =
     jt_print J (JObj (jinsert MERGED_INTO_KEY (JStr canonical_uuid) (attr_map J attributes)))"

record pointer_state_counts =
  pc_bound :: nat
  pc_unbound :: nat
  pc_ambiguous :: nat

fun record_state :: "binding_state \<Rightarrow> pointer_state_counts \<Rightarrow> pointer_state_counts" where
  "record_state Bound c = c\<lparr>pc_bound := pc_bound c + 1\<rparr>"
| "record_state Unbound c = c\<lparr>pc_unbound := pc_unbound c + 1\<rparr>"
| "record_state Ambiguous c = c\<lparr>pc_ambiguous := pc_ambiguous c + 1\<rparr>"

section \<open>Round trips\<close>

lemma state_roundtrip: "state_of_json (state_to_json s) = Some s"
  by (cases s) (simp_all add: state_of_json_def state_to_json_def as_str_def)

lemma pointer_roundtrip: "pointer_of_json (pointer_to_json p) = Some p"
  by (cases "cp_endpoint_kind p"; cases "cp_resolved_uuid p"; cases "cp_bound_at_seq p"; cases p)
    (simp_all add: pointer_of_json_def pointer_to_json_def req_field_def default_field_def opt_field_def jget_def
      as_str_def as_u64_def state_roundtrip)

lemma pointer_not_null: "pointer_to_json p \<noteq> JNull"
  by (simp add: pointer_to_json_def)

lemma pointers_roundtrip: "pointers_of_json (pointers_to_json ps) = Some ps"
  by (cases "cps_src ps"; cases "cps_dst ps"; cases ps)
    (simp_all add: pointers_of_json_def pointers_to_json_def default_field_def opt_field_def jget_def
      pointer_roundtrip pointer_not_null)

lemma attr_map_wf: "json_text_ok J \<Longrightarrow> jmap_wf (attr_map J a)"
  by (auto simp: attr_map_def json_text_ok_def jmap_wf_def split: option.splits json.splits)

lemma attr_map_print: "json_text_ok J \<Longrightarrow> jmap_wf m \<Longrightarrow> attr_map J (jt_print J (JObj m)) = m"
  by (simp add: attr_map_def json_text_ok_def)

lemma read_pointers_map:
  "read_pointers J a = (case Option.bind (jget (attr_map J a) POINTERS_KEY) pointers_of_json of None \<Rightarrow> no_pointers | Some ps \<Rightarrow> ps)"
  by (auto simp: read_pointers_def attr_map_def jget_def split: option.splits json.splits)

lemma read_merged_into_map: "read_merged_into J a = Option.bind (jget (attr_map J a) MERGED_INTO_KEY) as_str"
  by (auto simp: read_merged_into_def attr_map_def jget_def split: option.splits json.splits)

lemma attr_map_write_pointers:
  assumes "json_text_ok J"
  shows "jget (attr_map J (write_pointers J a ps)) = (jget (attr_map J a))
    (POINTERS_KEY := if pointers_is_empty ps then None else Some (pointers_to_json ps))"
proof -
  note wf = attr_map_wf [OF assms, of a]
  show ?thesis
    using attr_map_print [OF assms] jmap_wf_remove [OF wf] jmap_wf_insert [OF wf] jget_remove [OF wf]
    by (simp add: write_pointers_def jget_insert)
qed

lemma write_pointers_read: "json_text_ok J \<Longrightarrow> read_pointers J (write_pointers J a ps) = ps"
  by (simp add: read_pointers_map attr_map_write_pointers pointers_roundtrip)
    (cases ps, simp add: pointers_is_empty_def no_pointers_def)

lemma attr_map_write_merged:
  assumes "json_text_ok J"
  shows "jget (attr_map J (write_merged_into J a u)) = (jget (attr_map J a))(MERGED_INTO_KEY \<mapsto> JStr u)"
  using attr_map_print [OF assms jmap_wf_insert [OF attr_map_wf [OF assms]]] by (simp add: write_merged_into_def jget_insert)

lemma keys_apart: "POINTERS_KEY \<noteq> MERGED_INTO_KEY"
  by (simp add: POINTERS_KEY_def MERGED_INTO_KEY_def)


text \<open>A printer and a parser for the witnesses: a value is printed as its number in an enumeration of all values.\<close>

instance f64 :: countable by countable_datatype

instance jnum :: countable by countable_datatype

instance json :: countable by countable_datatype

definition toy_json_text :: json_text where
  "toy_json_text = \<lparr>jt_parse = (\<lambda>t. case t of [n] \<Rightarrow>
       (case from_nat n of JObj m \<Rightarrow> if jmap_wf m then Some (JObj m) else None | v \<Rightarrow> Some v) | _ \<Rightarrow> None),
     jt_print = (\<lambda>v. [to_nat v])\<rparr>"

lemma toy_json_text_ok: "json_text_ok toy_json_text"
  by (auto simp: json_text_ok_def toy_json_text_def split: list.splits json.splits if_splits)

text \<open>Another one, whose texts are ASCII: the number in unary.\<close>

definition plain_json_text :: json_text where
  "plain_json_text = \<lparr>jt_parse = (\<lambda>t. Some (from_nat (length t - 1))), jt_print = (\<lambda>v. 48 # replicate (to_nat v) 49)\<rparr>"

definition toy_pointer :: cross_group_pointer where
  "toy_pointer = \<lparr>cp_source_group_id = lit ''s'', cp_endpoint_name = lit ''n'', cp_endpoint_kind = None,
     cp_resolved_uuid = Some (lit ''u''), cp_bound_at_seq = Some 4, cp_binding_state = Bound\<rparr>"


end
