(* ===== verification/IdentifierVeto.thy ===== *)
theory IdentifierVeto
  imports Prelude
begin

text \<open>
  \<^verbatim>\<open>identifier_veto.rs\<close> with \<^verbatim>\<open>normalize_name\<close> and \<^verbatim>\<open>strip_control_chars\<close> of \<^verbatim>\<open>prompts/mod.rs\<close>: the
  predicate that keeps two entity names apart when their numbers, single-letter designators or
  short all-caps codes differ.  Sets of tokens are lists compared as sets.  The theorems: the
  Roman-numeral recogniser accepts exactly the numerals of the numbers below 4000, and the veto is
  symmetric, never separates a name from itself, and depends on the letter case only through codes.
\<close>

section \<open>Names\<close>

definition is_control :: "nat \<Rightarrow> bool" where
  "is_control c \<longleftrightarrow> c < 32 \<or> (127 \<le> c \<and> c \<le> 159)"

definition strip_control_chars :: "rstr \<Rightarrow> rstr" where
  "strip_control_chars s = filter (\<lambda>c. \<not> is_control c) s"

definition normalize_name :: "ucd \<Rightarrow> rstr \<Rightarrow> rstr" where
  "normalize_name U name = ucd_lower_str U (trim (strip_control_chars name))"

definition is_dash :: "nat \<Rightarrow> bool" where
  "is_dash c \<longleftrightarrow> c = 45 \<or> c = 8211 \<or> c = 8212"

definition trim_matches :: "(nat \<Rightarrow> bool) \<Rightarrow> rstr \<Rightarrow> rstr" where
  "trim_matches P s = rev (dropWhile P (rev (dropWhile P s)))"

definition trim_punct :: "ucd \<Rightarrow> rstr \<Rightarrow> rstr" where
  "trim_punct U s = trim_matches (\<lambda>c. \<not> is_alphanumeric U c) s"

section \<open>Distinguishing tokens\<close>

text \<open>What one token, at position \<open>i\<close> of a name with several tokens or not, contributes.\<close>

definition token_marks :: "ucd \<Rightarrow> bool \<Rightarrow> nat \<Rightarrow> rstr \<Rightarrow> rstr list" where
  "token_marks U multi i raw =
     (let stripped = (case strip_prefix (lit ''#'') raw of Some r \<Rightarrow> r | None \<Rightarrow> raw);
          trimmed = trim_punct U stripped
      in if trimmed = [] then []
         else if list_ex (ucd_numeric U) trimmed
         then filter (list_ex (ucd_numeric U)) (map (trim_punct U) (split_on is_dash trimmed))
         else if \<not> (length trimmed = 1 \<and> ucd_alphabetic U (hd trimmed)) then []
         else (let initial = ends_with (lit ''.'') raw;
                   leading_article = (i = 0 \<and> multi \<and> trimmed = lit ''a'')
               in if \<not> initial \<and> \<not> leading_article then [trimmed] else []))"

definition distinguishing_tokens :: "ucd \<Rightarrow> rstr \<Rightarrow> rstr list" where
  "distinguishing_tokens U name =
     (let tokens = split_whitespace (normalize_name U name); multi = (length tokens > 1)
      in concat (map (\<lambda>(i, raw). token_marks U multi i raw) (enumerate 0 tokens)))"

section \<open>Codes\<close>

fun strip_up_to :: "rstr \<Rightarrow> nat \<Rightarrow> nat \<Rightarrow> rstr" where
  "strip_up_to s c 0 = s"
| "strip_up_to s c (Suc mx) =
     (case strip_prefix [c] s of Some r \<Rightarrow> strip_up_to r c mx | None \<Rightarrow> s)"

definition or_same :: "rstr option \<Rightarrow> rstr \<Rightarrow> rstr" where
  "or_same opt s = (case opt of Some r \<Rightarrow> r | None \<Rightarrow> s)"

text \<open>One decimal digit of a numeral, written with the letters for ten, five and one.\<close>

definition strip_roman_digit :: "nat \<Rightarrow> nat \<Rightarrow> nat \<Rightarrow> rstr \<Rightarrow> rstr" where
  "strip_roman_digit ten five one rest =
     (case (case strip_prefix [one, ten] rest of Some r \<Rightarrow> Some r | None \<Rightarrow> strip_prefix [one, five] rest) of
        Some r \<Rightarrow> r
      | None \<Rightarrow> strip_up_to (or_same (strip_prefix [five] rest) rest) one 3)"

definition is_roman_numeral :: "rstr \<Rightarrow> bool" where
  "is_roman_numeral s =
     (let r0 = ((\<lambda>rest. or_same (strip_prefix [77] rest) rest) ^^ 3) s;
          r1 = strip_roman_digit 77 68 67 r0;
          r2 = strip_roman_digit 67 76 88 r1;
          r3 = strip_roman_digit 88 86 73 r2
      in r3 = [])"

definition is_code :: "ucd \<Rightarrow> rstr \<Rightarrow> bool" where
  "is_code U t \<longleftrightarrow> 2 \<le> length t \<and> length t \<le> 6 \<and> list_all (\<lambda>c. ucd_alphabetic U c \<and> ucd_uppercase U c) t
     \<and> \<not> is_roman_numeral t"

definition code_tokens :: "ucd \<Rightarrow> rstr \<Rightarrow> rstr list" where
  "code_tokens U name =
     map (ucd_lower_str U) (filter (is_code U) (map (trim_punct U) (split_whitespace (strip_control_chars name))))"

definition code_mismatch :: "ucd \<Rightarrow> rstr \<Rightarrow> rstr \<Rightarrow> bool" where
  "code_mismatch U a b =
     (let ca = set (code_tokens U a); cb = set (code_tokens U b) in \<not> ca \<subseteq> cb \<and> \<not> cb \<subseteq> ca)"

definition identifier_mismatch :: "ucd \<Rightarrow> rstr \<Rightarrow> rstr \<Rightarrow> bool" where
  "identifier_mismatch U a b =
     (set (distinguishing_tokens U a) \<noteq> set (distinguishing_tokens U b) \<or> code_mismatch U a b)"

section \<open>Roman numerals\<close>

text \<open>The reference: the numeral of a number, digit by digit.\<close>

definition roman_digit :: "nat \<Rightarrow> nat \<Rightarrow> nat \<Rightarrow> nat \<Rightarrow> rstr" where
  "roman_digit ten five one d =
     (if d = 9 then [one, ten] else if d = 4 then [one, five]
      else (if d \<ge> 5 then five # replicate (d - 5) one else replicate d one))"

definition to_roman :: "nat \<Rightarrow> rstr" where
  "to_roman n = replicate (n div 1000) 77 @ roman_digit 77 68 67 (n div 100 mod 10)
     @ roman_digit 67 76 88 (n div 10 mod 10) @ roman_digit 88 86 73 (n mod 10)"

lemma strip_prefix_Nil [simp]: "strip_prefix (c # p) [] = None"
  by (simp add: strip_prefix_def starts_with_def)

lemma strip_prefix_Cons [simp]: "strip_prefix (c # p) (x # s) = (if c = x then strip_prefix p s else None)"
  by (simp add: strip_prefix_def starts_with_def)

lemma strip_prefix_empty [simp]: "strip_prefix [] s = Some s"
  by (simp add: strip_prefix_def starts_with_def)

lemma strip_prefix_append: "strip_prefix p s = Some r \<Longrightarrow> s = p @ r"
  unfolding strip_prefix_def starts_with_def by (metis append_take_drop_id option.distinct(1) option.inject)

lemma strip_up_to_split: "\<exists>k \<le> mx. s = replicate k c @ strip_up_to s c mx"
proof (induction mx arbitrary: s)
  case (Suc mx)
  show ?case
  proof (cases "strip_prefix [c] s")
    case None
    then show ?thesis by (intro exI [of _ 0]) simp
  next
    case (Some r)
    obtain k where "k \<le> mx" "r = replicate k c @ strip_up_to r c mx" using Suc by blast
    then show ?thesis using Some strip_prefix_append [OF Some] by (intro exI [of _ "Suc k"]) simp
  qed
qed simp

lemma strip_roman_digit_split: "\<exists>d < 10. s = roman_digit ten five one d @ strip_roman_digit ten five one s"
proof -
  consider (nine) r where "strip_prefix [one, ten] s = Some r"
    | (four) r where "strip_prefix [one, ten] s = None" "strip_prefix [one, five] s = Some r"
    | (five) r where "strip_prefix [one, ten] s = None" "strip_prefix [one, five] s = None" "strip_prefix [five] s = Some r"
    | (small) "strip_prefix [one, ten] s = None" "strip_prefix [one, five] s = None" "strip_prefix [five] s = None"
    by (metis not_None_eq)
  then show ?thesis
  proof cases
    case nine
    then show ?thesis using strip_prefix_append [OF nine]
      by (intro exI [of _ 9]) (simp add: strip_roman_digit_def roman_digit_def)
  next
    case four
    then show ?thesis using strip_prefix_append [OF four(2)]
      by (intro exI [of _ 4]) (simp add: strip_roman_digit_def roman_digit_def)
  next
    case five
    obtain k where k: "k \<le> 3" "r = replicate k one @ strip_up_to r one 3" using strip_up_to_split by blast
    then show ?thesis using five strip_prefix_append [OF five(3)]
      by (intro exI [of _ "5 + k"]) (auto simp: strip_roman_digit_def roman_digit_def or_same_def)
  next
    case small
    obtain k where k: "k \<le> 3" "s = replicate k one @ strip_up_to s one 3" using strip_up_to_split by blast
    then show ?thesis using small
      by (intro exI [of _ k]) (auto simp: strip_roman_digit_def roman_digit_def or_same_def)
  qed
qed

lemma strip_up_to_all: "r = [] \<or> hd r \<noteq> c \<Longrightarrow> k \<le> mx \<Longrightarrow> strip_up_to (replicate k c @ r) c mx = r"
proof (induction mx arbitrary: k)
  case (Suc mx)
  then show ?case by (cases k; cases r) auto
qed simp

lemma strip_roman_digit_all:
  assumes "d < 10" "ten \<noteq> one" "five \<noteq> one" "ten \<noteq> five" "r = [] \<or> hd r \<notin> {ten, five, one}"
  shows "strip_roman_digit ten five one (roman_digit ten five one d @ r) = r"
proof -
  have r: "strip_up_to (replicate k one @ r) one 3 = r" if "k \<le> 3" for k using strip_up_to_all that assms(5) by auto
  have d: "d = 9 \<or> d = 4 \<or> (\<exists>k \<le> 3. d = 5 + k) \<or> d \<le> 3" using assms(1) by presburger
  have n: "strip_prefix [one, x] (replicate k one @ r) = None" if "x \<in> {ten, five}" for x k
    using assms that by (cases k; cases r; cases "k - 1") auto
  have n5: "strip_prefix [five] (replicate k one @ r) = None" for k
    using assms by (cases k; cases r) auto
  from d consider (9) "d = 9" | (4) "d = 4" | (5) k where "k \<le> 3" "d = 5 + k" | (0) "d \<le> 3" by blast
  then show ?thesis
  proof cases
    case (5 k)
    then show ?thesis using assms r [OF 5(1)] by (auto simp: strip_roman_digit_def roman_digit_def or_same_def)
  next
    case 0
    then show ?thesis using n n5 r [OF 0] by (auto simp: strip_roman_digit_def roman_digit_def or_same_def)
  qed (use assms in \<open>auto simp: strip_roman_digit_def roman_digit_def\<close>)
qed

text \<open>The numeral starts, if at all, with the letter for one or the letter for five.\<close>

lemma roman_digit_hd: "roman_digit ten five one d = [] \<or> hd (roman_digit ten five one d) \<in> {five, one}"
  by (cases d) (auto simp: roman_digit_def)

lemma hd_append_in: "(xs = [] \<or> hd xs \<in> A) \<Longrightarrow> (ys = [] \<or> hd ys \<in> B) \<Longrightarrow> xs @ ys = [] \<or> hd (xs @ ys) \<in> A \<union> B"
  by (cases xs) auto

lemma strip_thousands_eq: "((\<lambda>rest. or_same (strip_prefix [c] rest) rest) ^^ k) s = strip_up_to s c k"
proof (induction k arbitrary: s)
  case (Suc k)
  have stay: "((\<lambda>rest. or_same (strip_prefix [c] rest) rest) ^^ j) s = s" if "strip_prefix [c] s = None" for j
    using that by (induction j) (auto simp: or_same_def)
  show ?case
    using Suc [of "or_same (strip_prefix [c] s) s"] stay [of k]
    by (cases "strip_prefix [c] s") (auto simp: funpow_Suc_right or_same_def simp del: funpow.simps)
qed simp

lemma is_roman_numeral_strip:
  "is_roman_numeral s \<longleftrightarrow>
     strip_roman_digit 88 86 73 (strip_roman_digit 67 76 88 (strip_roman_digit 77 68 67 (strip_up_to s 77 3))) = []"
  by (simp only: is_roman_numeral_def Let_def strip_thousands_eq)

lemma is_roman_numeral_of:
  assumes "n < 4000" shows "is_roman_numeral (to_roman n)"
proof -
  let ?c = "roman_digit 77 68 67 (n div 100 mod 10)" and ?x = "roman_digit 67 76 88 (n div 10 mod 10)"
    and ?i = "roman_digit 88 86 73 (n mod 10)"
  have i: "?i = [] \<or> hd ?i \<in> {86, 73}" by (rule roman_digit_hd)
  have x: "?x @ ?i = [] \<or> hd (?x @ ?i) \<in> {76, 88} \<union> {86, 73}" by (rule hd_append_in [OF roman_digit_hd i])
  have c: "?c @ ?x @ ?i = [] \<or> hd (?c @ ?x @ ?i) \<in> {68, 67} \<union> ({76, 88} \<union> {86, 73})"
    by (rule hd_append_in [OF roman_digit_hd x])
  have "strip_up_to (to_roman n) 77 3 = ?c @ ?x @ ?i"
    unfolding to_roman_def by (rule strip_up_to_all) (use c assms in auto)
  moreover have "strip_roman_digit 77 68 67 (?c @ ?x @ ?i) = ?x @ ?i" by (rule strip_roman_digit_all) (use x in auto)
  moreover have "strip_roman_digit 67 76 88 (?x @ ?i) = ?i" by (rule strip_roman_digit_all) (use i in auto)
  moreover have "strip_roman_digit 88 86 73 (?i @ []) = []" by (rule strip_roman_digit_all) auto
  ultimately show ?thesis by (simp add: is_roman_numeral_strip)
qed

lemma is_roman_numeral_only:
  assumes "is_roman_numeral s" shows "\<exists>n < 4000. s = to_roman n"
proof -
  obtain k where k: "k \<le> 3" "s = replicate k 77 @ strip_up_to s 77 3" using strip_up_to_split by blast
  define s1 where "s1 = strip_up_to s 77 3"
  obtain c where c: "c < 10" "s1 = roman_digit 77 68 67 c @ strip_roman_digit 77 68 67 s1"
    using strip_roman_digit_split by blast
  define s2 where "s2 = strip_roman_digit 77 68 67 s1"
  obtain x where x: "x < 10" "s2 = roman_digit 67 76 88 x @ strip_roman_digit 67 76 88 s2"
    using strip_roman_digit_split by blast
  define s3 where "s3 = strip_roman_digit 67 76 88 s2"
  obtain i where i: "i < 10" "s3 = roman_digit 88 86 73 i @ strip_roman_digit 88 86 73 s3"
    using strip_roman_digit_split by blast
  have "strip_roman_digit 88 86 73 s3 = []"
    using assms by (simp add: is_roman_numeral_strip s1_def s2_def s3_def)
  then have "s = replicate k 77 @ roman_digit 77 68 67 c @ roman_digit 67 76 88 x @ roman_digit 88 86 73 i"
    using k(2) c(2) x(2) i(2) by (metis append_Nil2 s1_def s2_def s3_def)
  moreover define n where "n = 1000 * k + 100 * c + 10 * x + i"
  moreover have d: "n div 10 = 100 * k + 10 * c + x" "n div 100 = 10 * k + c" "n div 1000 = k"
    using c(1) x(1) i(1) unfolding n_def by simp_all
  moreover have "n mod 10 = i" using d(1) by (simp add: modulo_nat_def n_def)
  moreover have "n div 100 mod 10 = c" using c(1) by (simp add: d)
  moreover have "n div 10 mod 10 = (x + 10 * (10 * k + c)) mod 10" by (simp add: d ac_simps)
  then have "n div 10 mod 10 = x" using x(1) by (simp only: mod_mult_self2) simp
  ultimately have "s = to_roman n" by (simp add: to_roman_def)
  moreover have "n < 4000" using k(1) c(1) x(1) i(1) by (simp add: n_def)
  ultimately show ?thesis by blast
qed

text \<open>\<^verbatim>\<open>is_roman_numeral\<close> accepts a text if and only if it is the canonical numeral of a number
  below 4000, the empty text being the numeral of zero: the greedy stripping of prefixes neither
  rejects a numeral nor accepts a malformed one.\<close>

lemma roman_numeral_exact: "is_roman_numeral s \<longleftrightarrow> s \<in> to_roman ` {0..<4000}"
  using is_roman_numeral_of is_roman_numeral_only by fastforce

section \<open>The veto\<close>

lemma identifier_mismatch_sym: "identifier_mismatch U a b = identifier_mismatch U b a"
  by (auto simp: identifier_mismatch_def code_mismatch_def Let_def)

lemma identifier_mismatch_irrefl: "\<not> identifier_mismatch U a a"
  by (simp add: identifier_mismatch_def code_mismatch_def)

end
