(* ===== verification/CrossGroup.thy ===== *)
theory CrossGroup
  imports Pointer ReplayEmbed IdentifierVeto
begin

text \<open>
  Edges between groups (\<^verbatim>\<open>cross_group.rs\<close>): resolving an endpoint by name, following the forwarding
  references of merged entities, creating an edge, and re-binding the pointers into a group.  The
  database is the record \<open>xconn\<close> of the operations of \<^verbatim>\<open>Conn\<close> that the code calls, over a state
  \<open>'d\<close>.  A computation takes the state to a new state with a result; \<open>None\<close> means that it does not
  return, which only the walk along forwarding references could cause.  The theorems: the walk ends
  and finds the entity that the references lead to, and re-binding makes hops and pointers agree.
\<close>

section \<open>The database as the code sees it\<close>

record entity_row =
  er_uuid :: rstr
  er_name :: rstr
  er_group_id :: rstr
  er_labels :: "rstr list"
  er_kind :: rstr
  er_created_at :: rstr
  er_ingested_at :: rstr
  er_name_embedding :: "f64 list"
  er_summary :: rstr
  er_attributes :: rstr
  er_episode_uuids :: "rstr list"
  er_source_descriptions :: "rstr list"
  er_summary_embedding :: "f64 list"

record relates_to_edge =
  re_uuid :: rstr
  re_name :: rstr
  re_source_node_uuid :: rstr
  re_target_node_uuid :: rstr
  re_group_id :: rstr
  re_fact :: rstr
  re_fact_embedding :: "f64 list"
  re_created_at :: rstr
  re_ingested_at :: rstr
  re_valid_at :: "rstr option"
  re_invalid_at :: "rstr option"
  re_attributes :: rstr
  re_relation_type :: "rstr option"
  re_episode_uuids :: "rstr list"
  re_source_descriptions :: "rstr list"

type_synonym mutation = "rstr \<times> json"
type_synonym grouped_mutations = "rstr \<rightharpoonup> mutation list"

record 'd xconn =
  x_applied_seq :: "'d \<Rightarrow> rstr \<Rightarrow> nat option result"
  x_by_name_kind :: "'d \<Rightarrow> rstr \<Rightarrow> rstr \<Rightarrow> rstr \<Rightarrow> entity_row option result"
  x_by_name_any_kind :: "'d \<Rightarrow> rstr \<Rightarrow> rstr \<Rightarrow> entity_row list result"
  x_count_active :: "'d \<Rightarrow> rstr \<Rightarrow> rstr \<Rightarrow> rstr \<Rightarrow> nat result"
  x_entity :: "'d \<Rightarrow> rstr \<Rightarrow> entity_row option result"
  x_candidates :: "'d \<Rightarrow> (rstr \<times> rstr \<times> rstr \<times> rstr) list result"
  x_edge :: "'d \<Rightarrow> rstr \<Rightarrow> relates_to_edge option result"
  x_has_directed_edge :: "'d \<Rightarrow> rstr \<Rightarrow> rstr \<Rightarrow> rstr \<Rightarrow> rstr \<Rightarrow> bool result"
  x_insert_edge :: "relates_to_edge \<Rightarrow> 'd \<Rightarrow> 'd \<times> unit result"
  x_invalidate :: "rstr \<Rightarrow> rstr \<Rightarrow> 'd \<Rightarrow> 'd \<times> unit result"
  x_delete_hop :: "rstr \<Rightarrow> endpoint_side \<Rightarrow> 'd \<Rightarrow> 'd \<times> unit result"
  x_create_hop :: "rstr \<Rightarrow> endpoint_side \<Rightarrow> rstr \<Rightarrow> 'd \<Rightarrow> 'd \<times> unit result"
  x_update_attributes :: "rstr \<Rightarrow> rstr \<Rightarrow> 'd \<Rightarrow> 'd \<times> unit result"
  x_delete_direct :: "rstr \<Rightarrow> 'd \<Rightarrow> 'd \<times> unit result"
  x_create_direct :: "relates_to_edge \<Rightarrow> 'd \<Rightarrow> 'd \<times> unit result"
  x_drain :: "'d \<Rightarrow> 'd \<times> mutation list"

text \<open>Computations: a query, a write, and their composition with the error returns of \<^verbatim>\<open>?\<close>.\<close>

type_synonym ('d, 'a) act = "'d \<Rightarrow> ('d \<times> 'a result) option"

definition aret :: "'a \<Rightarrow> ('d, 'a) act" where
  "aret x d = Some (d, Inr x)"

definition afail :: "error \<Rightarrow> ('d, 'a) act" where
  "afail e d = Some (d, Inl e)"

definition aread :: "('d \<Rightarrow> 'a result) \<Rightarrow> ('d, 'a) act" where
  "aread q d = Some (d, q d)"

definition awrite :: "('d \<Rightarrow> 'd \<times> 'a result) \<Rightarrow> ('d, 'a) act" where
  "awrite w d = Some (w d)"

definition abind :: "('d, 'a) act \<Rightarrow> ('a \<Rightarrow> ('d, 'b) act) \<Rightarrow> ('d, 'b) act" where
  "abind m f d = (case m d of None \<Rightarrow> None | Some (d', Inl e) \<Rightarrow> Some (d', Inl e) | Some (d', Inr x) \<Rightarrow> f x d')"

definition awhen :: "bool \<Rightarrow> ('d, unit) act \<Rightarrow> ('d, unit) act" where
  "awhen b m = (if b then m else aret ())"

section \<open>Resolving an endpoint\<close>

definition MERGED :: rstr where
  "MERGED = lit ''Merged''"

partial_function (option) follow_chain ::
  "json_text \<Rightarrow> 'd xconn \<Rightarrow> 'd \<Rightarrow> rstr \<Rightarrow> rstr list \<Rightarrow> entity_row \<Rightarrow> entity_row option result option" where
  "follow_chain J X d group_id visited cur =
     (case read_merged_into J (er_attributes cur) of
        None \<Rightarrow> Some (Inr None)
      | Some target_uuid \<Rightarrow>
          if target_uuid \<in> set visited then Some (Inr None)
          else (case x_entity X d target_uuid of
                  Inl e \<Rightarrow> Some (Inl e)
                | Inr None \<Rightarrow> Some (Inr None)
                | Inr (Some nxt) \<Rightarrow>
                    if er_group_id nxt \<noteq> group_id then Some (Inr None)
                    else if MERGED \<notin> set (er_labels nxt) then Some (Inr (Some nxt))
                    else follow_chain J X d group_id (target_uuid # visited) nxt))"

definition follow_merged_into_chain ::
  "json_text \<Rightarrow> 'd xconn \<Rightarrow> 'd \<Rightarrow> rstr \<Rightarrow> entity_row \<Rightarrow> entity_row option result option" where
  "follow_merged_into_chain J X d group_id start = follow_chain J X d group_id [er_uuid start] start"

definition lift_opt :: "('d \<Rightarrow> 'a result option) \<Rightarrow> ('d, 'a) act" where
  "lift_opt q d = map_option (Pair d) (q d)"

definition endpoint_winner :: "'d xconn \<Rightarrow> rstr \<Rightarrow> rstr \<Rightarrow> rstr option \<Rightarrow> ('d, (binding_state \<times> rstr option) + entity_row) act" where
  "endpoint_winner X source_group_id endpoint_name kind =
     (case kind of
        Some k \<Rightarrow>
          abind (aread (\<lambda>d. x_by_name_kind X d endpoint_name source_group_id k)) (\<lambda>w.
            aret (case w of None \<Rightarrow> Inl (Unbound, None) | Some e \<Rightarrow> Inr e))
      | None \<Rightarrow>
          abind (aread (\<lambda>d. x_by_name_any_kind X d endpoint_name source_group_id)) (\<lambda>ws.
            aret (if length ws > 1 then Inl (Ambiguous, None)
                  else if ws = [] then Inl (Unbound, None) else Inr (last ws))))"

definition resolve_endpoint_kind ::
  "json_text \<Rightarrow> 'd xconn \<Rightarrow> rstr \<Rightarrow> rstr \<Rightarrow> rstr option \<Rightarrow> ('d, binding_state \<times> rstr option) act" where
  "resolve_endpoint_kind J X source_group_id endpoint_name kind =
     abind (endpoint_winner X source_group_id endpoint_name kind) (\<lambda>r.
       case r of
         Inl res \<Rightarrow> aret res
       | Inr winner \<Rightarrow>
           abind (aread (\<lambda>d. x_count_active X d endpoint_name source_group_id (er_kind winner))) (\<lambda>n.
             if n > 1 then aret (Ambiguous, None)
             else if MERGED \<notin> set (er_labels winner) then aret (Bound, Some (er_uuid winner))
             else abind (lift_opt (\<lambda>d. follow_merged_into_chain J X d source_group_id winner)) (\<lambda>c.
                    aret (case c of Some canonical \<Rightarrow> (Bound, Some (er_uuid canonical)) | None \<Rightarrow> (Unbound, None)))))"

definition resolve_endpoint :: "json_text \<Rightarrow> 'd xconn \<Rightarrow> rstr \<Rightarrow> rstr \<Rightarrow> ('d, binding_state \<times> rstr option) act" where
  "resolve_endpoint J X source_group_id endpoint_name = resolve_endpoint_kind J X source_group_id endpoint_name None"

section \<open>Creating an edge\<close>

datatype endpoint_spec = SpecUuid rstr | SpecForeign rstr rstr "rstr option"

record create_params =
  cx_name :: rstr
  cx_source :: endpoint_spec
  cx_target :: endpoint_spec
  cx_group_id :: rstr
  cx_fact :: rstr
  cx_fact_embedding :: "f64 list"
  cx_valid_at :: "rstr option"
  cx_relation_type :: "rstr option"

definition normalize_kind_opt :: "rstr option \<Rightarrow> rstr option result" where
  "normalize_kind_opt kind = (case kind of None \<Rightarrow> Inr None | Some k \<Rightarrow> rbind (normalize_kind (Some k)) (\<lambda>x. Inr (Some x)))"

definition foreign_endpoint_msg :: "rstr \<Rightarrow> rstr \<Rightarrow> rstr \<Rightarrow> rstr" where
  "foreign_endpoint_msg uuid g edge_group_id =
     lit ''endpoint '' @ uuid @ lit '' belongs to group '' @ [39] @ g @ [39] @ lit '', foreign to this edge'' @ [39] @ lit ''s own group '' @ [39]
       @ edge_group_id @ [39, 32, 8212] @ lit '' foreign endpoints must be supplied as EndpointSpec::Foreign with ''
       @ lit ''pointer fields, not a bare UUID (FR-002)''"

definition resolve_side ::
  "ucd \<Rightarrow> json_text \<Rightarrow> 'd xconn \<Rightarrow> endpoint_spec \<Rightarrow> rstr \<Rightarrow> ('d, rstr option \<times> cross_group_pointer option) act" where
  "resolve_side U J X spec edge_group_id =
     (case spec of
        SpecUuid uuid \<Rightarrow>
          abind (aread (\<lambda>d. x_entity X d uuid)) (\<lambda>e.
            case e of
              None \<Rightarrow> afail (Ipc (lit ''cross-group edge endpoint '' @ uuid @ lit '' does not exist''))
            | Some entity \<Rightarrow>
                if er_group_id entity \<noteq> edge_group_id
                then afail (Ipc (foreign_endpoint_msg uuid (er_group_id entity) edge_group_id))
                else aret (Some uuid, None))
      | SpecForeign source_group_id endpoint_name kind \<Rightarrow>
          if trim source_group_id = [] \<or> trim endpoint_name = []
          then afail (Ipc (lit ''cross-group edge endpoint requires non-empty source_group_id and endpoint_name''))
          else
            (let normalized_name = normalize_name U endpoint_name in
             abind (aread (\<lambda>d. normalize_kind_opt kind)) (\<lambda>endpoint_kind.
             abind (resolve_endpoint_kind J X source_group_id normalized_name endpoint_kind) (\<lambda>(st, resolved_uuid).
             abind (aread (\<lambda>d. x_applied_seq X d source_group_id)) (\<lambda>applied_seq.
               aret (resolved_uuid, Some \<lparr>cp_source_group_id = source_group_id, cp_endpoint_name = normalized_name,
                       cp_endpoint_kind = endpoint_kind, cp_resolved_uuid = resolved_uuid,
                       cp_bound_at_seq = applied_seq, cp_binding_state = st\<rparr>))))))"

definition UNRESOLVED :: rstr where
  "UNRESOLVED = []"

definition create_cross_group_edge ::
  "ucd \<Rightarrow> json_text \<Rightarrow> 'd xconn \<Rightarrow> rstr \<Rightarrow> create_params \<Rightarrow> rstr \<Rightarrow> ('d, relates_to_edge) act" where
  "create_cross_group_edge U J X new_uuid P ts =
     abind (resolve_side U J X (cx_source P) (cx_group_id P)) (\<lambda>(source_uuid, src_pointer).
     abind (resolve_side U J X (cx_target P) (cx_group_id P)) (\<lambda>(target_uuid, dst_pointer).
       (let pointers = \<lparr>cps_src = src_pointer, cps_dst = dst_pointer\<rparr>;
            edge = \<lparr>re_uuid = new_uuid, re_name = cx_name P,
              re_source_node_uuid = (case source_uuid of Some u \<Rightarrow> u | None \<Rightarrow> UNRESOLVED),
              re_target_node_uuid = (case target_uuid of Some u \<Rightarrow> u | None \<Rightarrow> UNRESOLVED),
              re_group_id = cx_group_id P, re_fact = cx_fact P, re_fact_embedding = cx_fact_embedding P,
              re_created_at = ts, re_ingested_at = [], re_valid_at = cx_valid_at P, re_invalid_at = None,
              re_attributes = write_pointers J (lit ''{}'') pointers, re_relation_type = cx_relation_type P,
              re_episode_uuids = [], re_source_descriptions = []\<rparr>
        in abind (awrite (x_insert_edge X edge)) (\<lambda>_. aret edge))))"

section \<open>Re-binding\<close>

record rebind_counts =
  rc_checked :: nat
  rc_bound :: nat
  rc_unbound :: nat
  rc_ambiguous :: nat
  rc_invalidated_self_loop :: nat
  rc_invalidated_duplicate :: nat
  rc_staleness_skipped :: nat

definition no_counts :: rebind_counts where
  "no_counts = \<lparr>rc_checked = 0, rc_bound = 0, rc_unbound = 0, rc_ambiguous = 0, rc_invalidated_self_loop = 0,
     rc_invalidated_duplicate = 0, rc_staleness_skipped = 0\<rparr>"

record side_resolution =
  sr_side :: endpoint_side
  sr_existing :: cross_group_pointer
  sr_new_state :: binding_state
  sr_new_uuid :: "rstr option"

definition is_stale_skip :: "bool \<Rightarrow> nat option \<Rightarrow> cross_group_pointer \<Rightarrow> bool" where
  "is_stale_skip force current_seq p \<longleftrightarrow> \<not> force \<and> cp_binding_state p = Bound
     \<and> (case (cp_bound_at_seq p, current_seq) of (Some b, Some c) \<Rightarrow> b \<ge> c | _ \<Rightarrow> False)"

fun resolve_sides ::
  "json_text \<Rightarrow> 'd xconn \<Rightarrow> rstr \<Rightarrow> bool \<Rightarrow> nat option \<Rightarrow> cross_group_pointers \<Rightarrow> endpoint_side list \<Rightarrow> rebind_counts
     \<Rightarrow> ('d, rebind_counts \<times> side_resolution list) act" where
  "resolve_sides J X g force current_seq ps [] counts = aret (counts, [])"
| "resolve_sides J X g force current_seq ps (side # sides) counts =
     (case pointers_get side ps of
        None \<Rightarrow> resolve_sides J X g force current_seq ps sides counts
      | Some existing \<Rightarrow>
          if cp_source_group_id existing \<noteq> g then resolve_sides J X g force current_seq ps sides counts
          else if is_stale_skip force current_seq existing
          then resolve_sides J X g force current_seq ps sides
                 (counts\<lparr>rc_staleness_skipped := rc_staleness_skipped counts + 1\<rparr>)
          else
            abind (resolve_endpoint_kind J X g (cp_endpoint_name existing) (cp_endpoint_kind existing)) (\<lambda>(st, u).
            abind (resolve_sides J X g force current_seq ps sides (counts\<lparr>rc_checked := rc_checked counts + 1\<rparr>)) (\<lambda>(counts', rs).
              aret (counts', \<lparr>sr_side = side, sr_existing = existing, sr_new_state = st, sr_new_uuid = u\<rparr> # rs))))"

definition or_empty :: "rstr option \<Rightarrow> rstr" where
  "or_empty u = (case u of Some x \<Rightarrow> x | None \<Rightarrow> [])"

definition side_of :: "endpoint_side \<Rightarrow> rstr \<times> rstr \<Rightarrow> rstr" where
  "side_of side h = (case side of Src \<Rightarrow> fst h | Dst \<Rightarrow> snd h)"

definition set_hop :: "endpoint_side \<Rightarrow> rstr \<Rightarrow> rstr \<times> rstr \<Rightarrow> rstr \<times> rstr" where
  "set_hop side u h = (case side of Src \<Rightarrow> (u, snd h) | Dst \<Rightarrow> (fst h, u))"

definition prospective :: "side_resolution list \<Rightarrow> rstr \<times> rstr \<Rightarrow> rstr \<times> rstr" where
  "prospective rs h = fold (\<lambda>r. set_hop (sr_side r) (or_empty (sr_new_uuid r))) rs h"

fun count_state :: "binding_state \<Rightarrow> rebind_counts \<Rightarrow> rebind_counts" where
  "count_state Bound c = c\<lparr>rc_bound := rc_bound c + 1\<rparr>"
| "count_state Unbound c = c\<lparr>rc_unbound := rc_unbound c + 1\<rparr>"
| "count_state Ambiguous c = c\<lparr>rc_ambiguous := rc_ambiguous c + 1\<rparr>"

definition hop_matches :: "side_resolution \<Rightarrow> rstr \<Rightarrow> bool" where
  "hop_matches r actual = (case sr_new_uuid r of Some u \<Rightarrow> actual \<noteq> [] \<and> actual = u | None \<Rightarrow> actual = [])"

text \<open>Bringing one hop to the resolved endpoint.  A bound side without a UUID would panic; the resolver never
  returns one.\<close>

definition fix_hop :: "'d xconn \<Rightarrow> rstr \<Rightarrow> rstr \<Rightarrow> side_resolution \<Rightarrow> ('d, unit) act" where
  "fix_hop X rn_uuid actual r =
     (if sr_new_state r = Bound
      then abind (awhen (actual \<noteq> []) (awrite (x_delete_hop X rn_uuid (sr_side r)))) (\<lambda>_.
             case sr_new_uuid r of None \<Rightarrow> (\<lambda>d. None) | Some u \<Rightarrow> awrite (x_create_hop X rn_uuid (sr_side r) u))
      else awhen (actual \<noteq> []) (awrite (x_delete_hop X rn_uuid (sr_side r))))"

fun apply_sides ::
  "'d xconn \<Rightarrow> rstr \<Rightarrow> nat option \<Rightarrow> rstr \<times> rstr \<Rightarrow> side_resolution list \<Rightarrow> cross_group_pointers \<Rightarrow> rebind_counts \<Rightarrow> bool
     \<Rightarrow> ('d, cross_group_pointers \<times> rebind_counts \<times> bool) act" where
  "apply_sides X rn_uuid current_seq actual [] ps counts changed = aret (ps, counts, changed)"
| "apply_sides X rn_uuid current_seq actual (r # rs) ps counts changed =
     (let a = side_of (sr_side r) actual; ok = hop_matches r a;
          p = \<lparr>cp_source_group_id = cp_source_group_id (sr_existing r), cp_endpoint_name = cp_endpoint_name (sr_existing r),
               cp_endpoint_kind = cp_endpoint_kind (sr_existing r), cp_resolved_uuid = sr_new_uuid r,
               cp_bound_at_seq = current_seq, cp_binding_state = sr_new_state r\<rparr>
      in abind (awhen (\<not> ok) (fix_hop X rn_uuid a r)) (\<lambda>_.
           apply_sides X rn_uuid current_seq actual rs (pointers_set (sr_side r) p ps) (count_state (sr_new_state r) counts)
             (changed \<or> \<not> ok)))"

definition grouped_add :: "rstr \<Rightarrow> mutation list \<Rightarrow> grouped_mutations \<Rightarrow> grouped_mutations" where
  "grouped_add g ms G =
     (if ms = [] then G
      else G(g \<mapsto> (case G g of None \<Rightarrow> [] | Some old \<Rightarrow> old) @ ms))"

definition drain_mutations_into :: "'d xconn \<Rightarrow> rstr \<Rightarrow> grouped_mutations \<Rightarrow> ('d, grouped_mutations) act" where
  "drain_mutations_into X g G d = (case x_drain X d of (d', ms) \<Rightarrow> Some (d', Inr (grouped_add g ms G)))"

definition sync_direct :: "'d xconn \<Rightarrow> rstr \<Rightarrow> ('d, unit) act" where
  "sync_direct X rn_uuid =
     abind (awrite (x_delete_direct X rn_uuid)) (\<lambda>_.
     abind (aread (\<lambda>d. x_edge X d rn_uuid)) (\<lambda>e.
       case e of
         None \<Rightarrow> aret ()
       | Some final_edge \<Rightarrow>
           awhen (re_source_node_uuid final_edge \<noteq> [] \<and> re_target_node_uuid final_edge \<noteq> [])
             (awrite (x_create_direct X final_edge))))"

text \<open>An edge that would become a self-loop or a duplicate is invalidated, its hops are not touched; every other
  edge gets its hops, its attributes and its direct relation.\<close>

definition invalidate_candidate ::
  "'d xconn \<Rightarrow> rstr \<Rightarrow> rstr \<Rightarrow> rstr \<Rightarrow> rebind_counts \<Rightarrow> grouped_mutations \<Rightarrow> ('d, rebind_counts \<times> grouped_mutations) act" where
  "invalidate_candidate X rn_uuid ts rn_group_id counts G =
     abind (awrite (x_invalidate X rn_uuid ts)) (\<lambda>_.
     abind (drain_mutations_into X rn_group_id G) (\<lambda>G'. aret (counts, G')))"

definition keep_candidate ::
  "json_text \<Rightarrow> 'd xconn \<Rightarrow> nat option \<Rightarrow> rstr \<Rightarrow> rstr \<Rightarrow> rstr \<Rightarrow> rstr \<times> rstr \<Rightarrow> side_resolution list \<Rightarrow> cross_group_pointers
     \<Rightarrow> rebind_counts \<Rightarrow> grouped_mutations \<Rightarrow> ('d, rebind_counts \<times> grouped_mutations) act" where
  "keep_candidate J X current_seq rn_uuid rn_group_id attrs actual rs ps counts G =
     abind (apply_sides X rn_uuid current_seq actual rs ps counts False) (\<lambda>(ps', counts', hop_changed).
     abind (awrite (x_update_attributes X rn_uuid (write_pointers J attrs ps'))) (\<lambda>_.
     abind (awhen hop_changed (sync_direct X rn_uuid)) (\<lambda>_.
     abind (drain_mutations_into X rn_group_id G) (\<lambda>G'. aret (counts', G')))))"

definition settle_candidate ::
  "json_text \<Rightarrow> 'd xconn \<Rightarrow> rstr \<Rightarrow> nat option \<Rightarrow> rstr \<times> rstr \<times> rstr \<times> rstr \<Rightarrow> cross_group_pointers
     \<Rightarrow> side_resolution list \<Rightarrow> rebind_counts \<Rightarrow> grouped_mutations \<Rightarrow> ('d, rebind_counts \<times> grouped_mutations) act" where
  "settle_candidate J X ts current_seq cand ps rs counts G =
     (case cand of (rn_uuid, rn_name, rn_group_id, attrs) \<Rightarrow>
        abind (aread (\<lambda>d. x_edge X d rn_uuid)) (\<lambda>e.
          (let actual = (case e of None \<Rightarrow> ([], []) | Some x \<Rightarrow> (re_source_node_uuid x, re_target_node_uuid x));
               (psrc, pdst) = prospective rs actual;
               any_changed = list_ex (\<lambda>r. sr_new_uuid r \<noteq> cp_resolved_uuid (sr_existing r)) rs;
               both = (psrc \<noteq> [] \<and> pdst \<noteq> [])
           in if any_changed \<and> both \<and> psrc = pdst
              then invalidate_candidate X rn_uuid ts rn_group_id
                     (counts\<lparr>rc_invalidated_self_loop := rc_invalidated_self_loop counts + 1\<rparr>) G
              else
                abind (if any_changed \<and> both then aread (\<lambda>d. x_has_directed_edge X d psrc pdst rn_name rn_group_id) else aret False) (\<lambda>dup.
                  if dup
                  then invalidate_candidate X rn_uuid ts rn_group_id
                         (counts\<lparr>rc_invalidated_duplicate := rc_invalidated_duplicate counts + 1\<rparr>) G
                  else keep_candidate J X current_seq rn_uuid rn_group_id attrs actual rs ps counts G))))"

definition rebind_candidate ::
  "json_text \<Rightarrow> 'd xconn \<Rightarrow> rstr \<Rightarrow> rstr \<Rightarrow> bool \<Rightarrow> nat option \<Rightarrow> rstr \<times> rstr \<times> rstr \<times> rstr
     \<Rightarrow> rebind_counts \<times> grouped_mutations \<Rightarrow> ('d, rebind_counts \<times> grouped_mutations) act" where
  "rebind_candidate J X g ts force current_seq cand cg =
     (case cand of (_, _, _, attrs) \<Rightarrow>
       (let ps = read_pointers J attrs in
        abind (resolve_sides J X g force current_seq ps [Src, Dst] (fst cg)) (\<lambda>(counts, rs).
          if rs = [] then aret (counts, snd cg) else settle_candidate J X ts current_seq cand ps rs counts (snd cg))))"

fun rebind_loop ::
  "json_text \<Rightarrow> 'd xconn \<Rightarrow> rstr \<Rightarrow> rstr \<Rightarrow> bool \<Rightarrow> nat option \<Rightarrow> (rstr \<times> rstr \<times> rstr \<times> rstr) list
     \<Rightarrow> rebind_counts \<times> grouped_mutations \<Rightarrow> ('d, rebind_counts \<times> grouped_mutations) act" where
  "rebind_loop J X g ts force current_seq [] cg = aret cg"
| "rebind_loop J X g ts force current_seq (c # cs) cg =
     abind (rebind_candidate J X g ts force current_seq c cg) (rebind_loop J X g ts force current_seq cs)"

definition rebind_pointers_impl ::
  "json_text \<Rightarrow> 'd xconn \<Rightarrow> rstr \<Rightarrow> rstr \<Rightarrow> bool \<Rightarrow> ('d, rebind_counts \<times> grouped_mutations) act" where
  "rebind_pointers_impl J X source_group_id ts force =
     abind (aread (\<lambda>d. x_applied_seq X d source_group_id)) (\<lambda>current_seq.
     abind (aread (\<lambda>d. x_candidates X d)) (\<lambda>cands.
       rebind_loop J X source_group_id ts force current_seq cands (no_counts, Map.empty)))"

definition rebind_pointers :: "json_text \<Rightarrow> 'd xconn \<Rightarrow> rstr \<Rightarrow> rstr \<Rightarrow> ('d, rebind_counts \<times> grouped_mutations) act" where
  "rebind_pointers J X g ts = rebind_pointers_impl J X g ts False"

definition rebind_pointers_forced :: "json_text \<Rightarrow> 'd xconn \<Rightarrow> rstr \<Rightarrow> rstr \<Rightarrow> ('d, rebind_counts \<times> grouped_mutations) act" where
  "rebind_pointers_forced J X g ts = rebind_pointers_impl J X g ts True"

section \<open>The walk along forwarding references\<close>

text \<open>What the references of an entity lead to: after \<open>n\<close> merged entities of the group, one that is not merged.\<close>

inductive leads_to :: "json_text \<Rightarrow> 'd xconn \<Rightarrow> 'd \<Rightarrow> rstr \<Rightarrow> nat \<Rightarrow> entity_row \<Rightarrow> entity_row \<Rightarrow> bool"
  for J :: json_text and X :: "'d xconn" and d :: 'd and g :: rstr where
  arrive: "read_merged_into J (er_attributes a) = Some t \<Longrightarrow> x_entity X d t = Inr (Some e) \<Longrightarrow> er_group_id e = g \<Longrightarrow>
     MERGED \<notin> set (er_labels e) \<Longrightarrow> leads_to J X d g 0 a e"
| hop: "read_merged_into J (er_attributes a) = Some t \<Longrightarrow> x_entity X d t = Inr (Some b) \<Longrightarrow> er_group_id b = g \<Longrightarrow>
     MERGED \<in> set (er_labels b) \<Longrightarrow> leads_to J X d g n b e \<Longrightarrow> leads_to J X d g (Suc n) a e"

inductive_cases leads_toE: "leads_to J X d g n a e"

lemma leads_to_det: "leads_to J X d g n a e \<Longrightarrow> leads_to J X d g m a e' \<Longrightarrow> n = m \<and> e = e'"
proof (induction arbitrary: m rule: leads_to.induct)
  case (arrive a t e)
  from arrive.prems show ?case by cases (use arrive.hyps in auto)
next
  case (hop a t b n e)
  from hop.prems show ?case by cases (use hop.hyps hop.IH in auto)
qed

lemma leads_to_end: "leads_to J X d g n a e \<Longrightarrow> er_group_id e = g \<and> MERGED \<notin> set (er_labels e)"
  by (induction rule: leads_to.induct) auto

lemma follow_chain_finds:
  assumes "leads_to J X d g n cur e"
    and "\<forall>v \<in> set vs. \<exists>b m. x_entity X d v = Inr (Some b) \<and> MERGED \<in> set (er_labels b) \<and> leads_to J X d g m b e \<and> n \<le> m"
  shows "follow_chain J X d g vs cur = Some (Inr (Some e))"
  using assms
proof (induction arbitrary: vs rule: leads_to.induct)
  case (arrive a t e)
  have "t \<notin> set vs" using arrive.prems arrive.hyps by fastforce
  then show ?case using arrive.hyps by (simp add: follow_chain.simps [of J X d g vs a])
next
  case (hop a t b n e)
  have "t \<notin> set vs"
  proof
    assume "t \<in> set vs"
    then obtain m where "leads_to J X d g m b e" "Suc n \<le> m" using hop.prems hop.hyps(2) by fastforce
    then show False using leads_to_det [OF hop.hyps(5)] by fastforce
  qed
  moreover have "follow_chain J X d g (t # vs) b = Some (Inr (Some e))"
  proof (rule hop.IH)
    show "\<forall>v \<in> set (t # vs). \<exists>b m. x_entity X d v = Inr (Some b) \<and> MERGED \<in> set (er_labels b) \<and> leads_to J X d g m b e \<and> n \<le> m"
    proof
      fix v
      assume v: "v \<in> set (t # vs)"
      show "\<exists>b m. x_entity X d v = Inr (Some b) \<and> MERGED \<in> set (er_labels b) \<and> leads_to J X d g m b e \<and> n \<le> m"
      proof (cases "v = t")
        case True
        then show ?thesis using hop.hyps by blast
      next
        case False
        then show ?thesis using v hop.prems by (meson Suc_leD set_ConsD)
      qed
    qed
  qed
  ultimately show ?case using hop.hyps by (simp add: follow_chain.simps [of J X d g vs a])
qed

lemma follow_chain_only:
  assumes "follow_chain J X d g vs cur = Some r"
  shows "\<forall>e. r = Inr (Some e) \<longrightarrow> (\<exists>n. leads_to J X d g n cur e)"
  using assms
proof (rule follow_chain.raw_induct [where P = "\<lambda>J X d g vs cur r. \<forall>e. r = Inr (Some e) \<longrightarrow> (\<exists>n. leads_to J X d g n cur e)", rotated])
  fix f :: "json_text \<Rightarrow> 'a xconn \<Rightarrow> 'a \<Rightarrow> rstr \<Rightarrow> rstr list \<Rightarrow> entity_row \<Rightarrow> entity_row option result option"
    and J :: json_text and X :: "'a xconn" and d g vs and cur :: entity_row and r
  assume ih: "\<And>J X d g vs cur r. f J X d g vs cur = Some r \<Longrightarrow> \<forall>e. r = Inr (Some e) \<longrightarrow> (\<exists>n. leads_to J X d g n cur e)"
    and step: "(case read_merged_into J (er_attributes cur) of
        None \<Rightarrow> Some (Inr None)
      | Some target_uuid \<Rightarrow>
          if target_uuid \<in> set vs then Some (Inr None)
          else (case x_entity X d target_uuid of
                  Inl e \<Rightarrow> Some (Inl e)
                | Inr None \<Rightarrow> Some (Inr None)
                | Inr (Some nxt) \<Rightarrow>
                    if er_group_id nxt \<noteq> g then Some (Inr None)
                    else if MERGED \<notin> set (er_labels nxt) then Some (Inr (Some nxt))
                    else f J X d g (target_uuid # vs) nxt)) = Some r"
  show "\<forall>e. r = Inr (Some e) \<longrightarrow> (\<exists>n. leads_to J X d g n cur e)"
    using step by (auto split: option.splits if_splits sum.splits intro: leads_to.hop dest!: ih) (blast intro: leads_to.arrive)
qed

lemma follow_chain_returns:
  assumes "finite {t. \<exists>e. x_entity X d t = Inr (Some e)}"
  shows "\<exists>r. follow_chain J X d g vs cur = Some r"
proof (induction "card ({t. \<exists>e. x_entity X d t = Inr (Some e)} - set vs)" arbitrary: vs cur rule: less_induct)
  case less
  let ?D = "{t. \<exists>e. x_entity X d t = Inr (Some e)}"
  have "\<exists>r. follow_chain J X d g (t # vs) nxt = Some r" if "t \<notin> set vs" "x_entity X d t = Inr (Some nxt)" for t nxt
  proof (rule less)
    have "?D - set (t # vs) \<subset> ?D - set vs" using that by auto
    then show "card (?D - set (t # vs)) < card (?D - set vs)" using assms by (intro psubset_card_mono) auto
  qed
  then show ?case
    by (subst follow_chain.simps) (auto split: option.split sum.split)
qed

text \<open>C26: following the forwarding references of a merged entity ends, and finds exactly what they lead to.
  In a database with finitely many entities the walk returns; it returns an entity if and only if
  the references lead from the start over merged entities of the group to that entity, which is
  active and belongs to the group.  The guard against cycles never cuts a walk that would arrive.\<close>

theorem merged_chain_exact:
  assumes fin: "finite {t. \<exists>e. x_entity X d t = Inr (Some e)}"
    and start: "x_entity X d (er_uuid s) = Inr (Some s)" "MERGED \<in> set (er_labels s)"
  shows "\<exists>r. follow_merged_into_chain J X d g s = Some r
    \<and> (\<forall>e. r = Inr (Some e) \<longleftrightarrow> (\<exists>n. leads_to J X d g n s e))
    \<and> (\<forall>e. r = Inr (Some e) \<longrightarrow> er_group_id e = g \<and> MERGED \<notin> set (er_labels e))"
proof -
  obtain r where r: "follow_chain J X d g [er_uuid s] s = Some r" using follow_chain_returns [OF fin] by blast
  have reached: "r = Inr (Some e)" if "leads_to J X d g n s e" for n e
    using follow_chain_finds [OF that, of "[er_uuid s]"] start that r by auto
  note walked = follow_chain_only [OF r, rule_format]
  show ?thesis
  proof (intro exI [of _ r] conjI allI impI iffI)
    show "follow_merged_into_chain J X d g s = Some r" using r by (simp add: follow_merged_into_chain_def)
    fix e
    show "\<exists>n. leads_to J X d g n s e" if "r = Inr (Some e)" using walked [OF that] .
    show "r = Inr (Some e)" if "\<exists>n. leads_to J X d g n s e" using that reached by (elim exE)
    show "er_group_id e = g" if "r = Inr (Some e)" using walked [OF that] by (auto dest: leads_to_end)
    show "MERGED \<notin> set (er_labels e)" if "r = Inr (Some e)" using walked [OF that] by (auto dest: leads_to_end)
  qed
qed

section \<open>Re-binding settles an edge\<close>

text \<open>What re-binding is about: the two hops of every edge (empty where there is none), the attributes of
  every edge, and which entities and edges exist.  A state of the database is seen through \<open>ev\<close>.\<close>

record estate =
  es_hop :: "rstr \<Rightarrow> endpoint_side \<Rightarrow> rstr"
  es_attrs :: "rstr \<Rightarrow> rstr"
  es_entities :: "rstr set"
  es_edges :: "rstr set"

definition reads_ok :: "'d xconn \<Rightarrow> ('d \<Rightarrow> estate) \<Rightarrow> bool" where
  "reads_ok X ev \<longleftrightarrow>
     (\<forall>d rn e. x_edge X d rn = Inr e \<longrightarrow>
        (case e of None \<Rightarrow> ([], []) | Some x \<Rightarrow> (re_source_node_uuid x, re_target_node_uuid x)) = (es_hop (ev d) rn Src, es_hop (ev d) rn Dst))
   \<and> (\<forall>d u e. x_entity X d u = Inr (Some e) \<longrightarrow> er_uuid e = u \<and> u \<in> es_entities (ev d))
   \<and> (\<forall>d n g k e. x_by_name_kind X d n g k = Inr (Some e) \<longrightarrow> er_uuid e \<in> es_entities (ev d))
   \<and> (\<forall>d n g es. x_by_name_any_kind X d n g = Inr es \<longrightarrow> (\<forall>e \<in> set es. er_uuid e \<in> es_entities (ev d)))"

text \<open>The statements: deleting and creating a hop and setting the attributes change exactly that; a hop is
  created only between an edge and an entity that exist.\<close>

definition writes_ok :: "'d xconn \<Rightarrow> ('d \<Rightarrow> estate) \<Rightarrow> bool" where
  "writes_ok X ev \<longleftrightarrow>
     (\<forall>rn s d d'. x_delete_hop X rn s d = (d', Inr ()) \<longrightarrow>
        ev d' = (ev d)\<lparr>es_hop := (es_hop (ev d))(rn := (es_hop (ev d) rn)(s := []))\<rparr>)
   \<and> (\<forall>rn s u d d'. x_create_hop X rn s u d = (d', Inr ()) \<longrightarrow> rn \<in> es_edges (ev d) \<longrightarrow> u \<in> es_entities (ev d) \<longrightarrow>
        es_hop (ev d) rn s = [] \<longrightarrow> ev d' = (ev d)\<lparr>es_hop := (es_hop (ev d))(rn := (es_hop (ev d) rn)(s := u))\<rparr>)
   \<and> (\<forall>rn a d d'. x_update_attributes X rn a d = (d', Inr ()) \<longrightarrow> rn \<in> es_edges (ev d) \<longrightarrow>
        ev d' = (ev d)\<lparr>es_attrs := (es_attrs (ev d))(rn := a)\<rparr>)
   \<and> (\<forall>rn ts d d'. x_invalidate X rn ts d = (d', Inr ()) \<longrightarrow> ev d' = ev d)
   \<and> (\<forall>rn d d'. x_delete_direct X rn d = (d', Inr ()) \<longrightarrow> ev d' = ev d)
   \<and> (\<forall>e d d'. x_create_direct X e d = (d', Inr ()) \<longrightarrow> ev d' = ev d)
   \<and> (\<forall>d. ev (fst (x_drain X d)) = ev d)"

lemma abind_Inr [simp]:
  "abind m f d = Some (d2, Inr y) \<longleftrightarrow> (\<exists>d1 x. m d = Some (d1, Inr x) \<and> f x d1 = Some (d2, Inr y))"
  by (auto simp: abind_def split: option.splits sum.splits)

lemma act_Inr [simp]:
  "aret x d = Some (d2, Inr y) \<longleftrightarrow> d2 = d \<and> y = x"
  "aread q d = Some (d2, Inr y) \<longleftrightarrow> d2 = d \<and> q d = Inr y"
  "awrite w d = Some (d2, Inr y) \<longleftrightarrow> w d = (d2, Inr y)"
  "lift_opt r d = Some (d2, Inr y) \<longleftrightarrow> d2 = d \<and> r d = Some (Inr y)"
  by (auto simp: aret_def aread_def awrite_def lift_opt_def)

lemma awhen_Inr [simp]:
  "awhen b m d = Some (d2, Inr y) \<longleftrightarrow> (if b then m d = Some (d2, Inr y) else d2 = d)"
  by (simp add: awhen_def)

lemma leads_to_known: "reads_ok X ev \<Longrightarrow> leads_to J X d g n a e \<Longrightarrow> er_uuid e \<in> es_entities (ev d)"
  by (rotate_tac 1, induction rule: leads_to.induct) (auto simp: reads_ok_def)

text \<open>The resolver only reads, and reports an entity that exists exactly when it reports the side as bound.\<close>

lemma endpoint_winner_known:
  assumes "reads_ok X ev" "endpoint_winner X g nm kind d = Some (d', Inr r)"
  shows "d' = d \<and> (case r of Inl res \<Rightarrow> fst res \<noteq> Bound \<and> snd res = None | Inr e \<Rightarrow> er_uuid e \<in> es_entities (ev d))"
  using assms by (auto simp: endpoint_winner_def reads_ok_def split: option.splits if_splits sum.splits)

lemma resolve_endpoint_known:
  assumes R: "reads_ok X ev" and "resolve_endpoint_kind J X g nm kind d = Some (d', Inr (st, u))"
  shows "d' = d \<and> (case u of None \<Rightarrow> st \<noteq> Bound | Some x \<Rightarrow> st = Bound \<and> x \<in> es_entities (ev d))"
proof -
  obtain d1 r where w: "endpoint_winner X g nm kind d = Some (d1, Inr r)"
    and rest: "(case r of
         Inl res \<Rightarrow> aret res
       | Inr winner \<Rightarrow>
           abind (aread (\<lambda>d. x_count_active X d nm g (er_kind winner))) (\<lambda>n.
             if n > 1 then aret (Ambiguous, None)
             else if MERGED \<notin> set (er_labels winner) then aret (Bound, Some (er_uuid winner))
             else abind (lift_opt (\<lambda>d. follow_merged_into_chain J X d g winner)) (\<lambda>c.
                    aret (case c of Some canonical \<Rightarrow> (Bound, Some (er_uuid canonical)) | None \<Rightarrow> (Unbound, None))))) d1
       = Some (d', Inr (st, u))"
    using assms(2) unfolding resolve_endpoint_kind_def abind_Inr by (elim exE conjE) (rule that)
  note k = endpoint_winner_known [OF R w]
  show ?thesis
  proof (cases r)
    case (Inl res)
    then show ?thesis using k rest by auto
  next
    case (Inr winner)
    have "er_uuid e \<in> es_entities (ev d)" if "follow_merged_into_chain J X d g winner = Some (Inr (Some e))" for e
      using follow_chain_only [OF that [unfolded follow_merged_into_chain_def]] leads_to_known [OF R] by blast
    then show ?thesis using k rest Inr by (auto split: if_splits option.splits)
  qed
qed

definition rechecked :: "rstr \<Rightarrow> bool \<Rightarrow> nat option \<Rightarrow> cross_group_pointers \<Rightarrow> endpoint_side \<Rightarrow> bool" where
  "rechecked g force current_seq ps side \<longleftrightarrow>
     (case pointers_get side ps of None \<Rightarrow> False | Some p \<Rightarrow> cp_source_group_id p = g \<and> \<not> is_stale_skip force current_seq p)"

definition resolved_in :: "json_text \<Rightarrow> 'd xconn \<Rightarrow> rstr \<Rightarrow> 'd \<Rightarrow> cross_group_pointers \<Rightarrow> side_resolution \<Rightarrow> bool" where
  "resolved_in J X g d ps r \<longleftrightarrow> pointers_get (sr_side r) ps = Some (sr_existing r)
     \<and> resolve_endpoint_kind J X g (cp_endpoint_name (sr_existing r)) (cp_endpoint_kind (sr_existing r)) d
         = Some (d, Inr (sr_new_state r, sr_new_uuid r))"

lemma resolve_sides_spec:
  assumes R: "reads_ok X ev"
  shows "resolve_sides J X g force current_seq ps sides c d = Some (d', Inr (c', rs)) \<Longrightarrow>
    d' = d \<and> map sr_side rs = filter (rechecked g force current_seq ps) sides \<and> (\<forall>r \<in> set rs. resolved_in J X g d ps r)
    \<and> rc_invalidated_self_loop c' = rc_invalidated_self_loop c \<and> rc_invalidated_duplicate c' = rc_invalidated_duplicate c"
proof (induction sides arbitrary: c c' rs d d')
  case (Cons side sides)
  show ?case
  proof (cases "rechecked g force current_seq ps side")
    case False
    then obtain c2 where "resolve_sides J X g force current_seq ps (side # sides) c d = resolve_sides J X g force current_seq ps sides c2 d"
      and "rc_invalidated_self_loop c2 = rc_invalidated_self_loop c" "rc_invalidated_duplicate c2 = rc_invalidated_duplicate c"
      by (cases "pointers_get side ps"; cases "cp_source_group_id (the (pointers_get side ps)) = g") (auto simp: rechecked_def)
    then show ?thesis using Cons.IH [of c2 d d' c' rs] Cons.prems False by simp
  next
    case True
    then obtain p where p: "pointers_get side ps = Some p" "cp_source_group_id p = g" "\<not> is_stale_skip force current_seq p"
      by (auto simp: rechecked_def split: option.splits)
    then obtain d1 st u d2 rs' where res: "resolve_endpoint_kind J X g (cp_endpoint_name p) (cp_endpoint_kind p) d = Some (d1, Inr (st, u))"
      and rest: "resolve_sides J X g force current_seq ps sides (c\<lparr>rc_checked := rc_checked c + 1\<rparr>) d1 = Some (d', Inr (c', rs'))"
      and rs: "rs = \<lparr>sr_side = side, sr_existing = p, sr_new_state = st, sr_new_uuid = u\<rparr> # rs'"
      using Cons.prems by (auto split: prod.splits)
    have "d1 = d" using resolve_endpoint_known [OF R res] by simp
    then show ?thesis using Cons.IH [OF rest] True p res rs by (auto simp: resolved_in_def)
  qed
qed simp

definition sound_resolution :: "rstr set \<Rightarrow> side_resolution \<Rightarrow> bool" where
  "sound_resolution entities r \<longleftrightarrow>
     (case sr_new_uuid r of None \<Rightarrow> sr_new_state r \<noteq> Bound | Some x \<Rightarrow> sr_new_state r = Bound \<and> x \<in> entities)"

lemma resolved_sound: "reads_ok X ev \<Longrightarrow> resolved_in J X g d ps r \<Longrightarrow> sound_resolution (es_entities (ev d)) r"
  using resolve_endpoint_known [of X ev J g "cp_endpoint_name (sr_existing r)" "cp_endpoint_kind (sr_existing r)" d d "sr_new_state r" "sr_new_uuid r"]
  by (simp add: resolved_in_def sound_resolution_def)

definition new_pointer :: "nat option \<Rightarrow> side_resolution \<Rightarrow> cross_group_pointer" where
  "new_pointer current_seq r = \<lparr>cp_source_group_id = cp_source_group_id (sr_existing r), cp_endpoint_name = cp_endpoint_name (sr_existing r),
     cp_endpoint_kind = cp_endpoint_kind (sr_existing r), cp_resolved_uuid = sr_new_uuid r,
     cp_bound_at_seq = current_seq, cp_binding_state = sr_new_state r\<rparr>"

definition bind_hops :: "side_resolution list \<Rightarrow> (endpoint_side \<Rightarrow> rstr) \<Rightarrow> endpoint_side \<Rightarrow> rstr" where
  "bind_hops rs h = fold (\<lambda>r h. h(sr_side r := or_empty (sr_new_uuid r))) rs h"

definition bind_pointers :: "nat option \<Rightarrow> side_resolution list \<Rightarrow> cross_group_pointers \<Rightarrow> cross_group_pointers" where
  "bind_pointers current_seq rs ps = fold (\<lambda>r. pointers_set (sr_side r) (new_pointer current_seq r)) rs ps"

lemma pointers_get_set: "pointers_get s (pointers_set t p ps) = (if s = t then Some p else pointers_get s ps)"
  by (cases s; cases t) auto

lemma bind_Cons:
  "bind_hops (r # rs) h = bind_hops rs (h(sr_side r := or_empty (sr_new_uuid r)))"
  "bind_pointers q (r # rs) ps = bind_pointers q rs (pointers_set (sr_side r) (new_pointer q r) ps)"
  by (simp_all add: bind_hops_def bind_pointers_def)

lemma bind_hops_at:
  "distinct (map sr_side rs) \<Longrightarrow>
     (\<forall>r \<in> set rs. bind_hops rs h (sr_side r) = or_empty (sr_new_uuid r)) \<and> (s \<notin> sr_side ` set rs \<longrightarrow> bind_hops rs h s = h s)"
  by (induction rs rule: rev_induct) (auto simp: bind_hops_def image_iff)

lemma bind_pointers_at:
  "distinct (map sr_side rs) \<Longrightarrow>
     (\<forall>r \<in> set rs. pointers_get (sr_side r) (bind_pointers q rs ps) = Some (new_pointer q r))
     \<and> (s \<notin> sr_side ` set rs \<longrightarrow> pointers_get s (bind_pointers q rs ps) = pointers_get s ps)"
  by (induction rs rule: rev_induct) (auto simp: bind_pointers_def image_iff pointers_get_set)

lemma writes_delete:
  assumes "writes_ok X ev" "x_delete_hop X rn s d = (d', Inr ())"
  shows "ev d' = (ev d)\<lparr>es_hop := (es_hop (ev d))(rn := (es_hop (ev d) rn)(s := []))\<rparr>"
  using assms(1) [unfolded writes_ok_def, THEN conjunct1, rule_format, OF assms(2)] .

lemma writes_create:
  assumes "writes_ok X ev" "x_create_hop X rn s u d = (d', Inr ())" "rn \<in> es_edges (ev d)" "u \<in> es_entities (ev d)"
    "es_hop (ev d) rn s = []"
  shows "ev d' = (ev d)\<lparr>es_hop := (es_hop (ev d))(rn := (es_hop (ev d) rn)(s := u))\<rparr>"
  using assms(1) [unfolded writes_ok_def, THEN conjunct2, THEN conjunct1, rule_format, OF assms(2-)] .

lemma writes_update:
  assumes "writes_ok X ev" "x_update_attributes X rn a d = (d', Inr ())" "rn \<in> es_edges (ev d)"
  shows "ev d' = (ev d)\<lparr>es_attrs := (es_attrs (ev d))(rn := a)\<rparr>"
  using assms(1) [unfolded writes_ok_def, THEN conjunct2, THEN conjunct2, THEN conjunct1, rule_format, OF assms(2-)] .

lemma writes_other:
  assumes W: "writes_ok X ev"
  shows "x_invalidate X rn ts d = (d', Inr ()) \<Longrightarrow> ev d' = ev d"
    and "x_delete_direct X rn d = (d', Inr ()) \<Longrightarrow> ev d' = ev d"
    and "x_create_direct X e d = (d', Inr ()) \<Longrightarrow> ev d' = ev d"
    and "ev (fst (x_drain X d)) = ev d"
  using W [unfolded writes_ok_def, THEN conjunct2, THEN conjunct2, THEN conjunct2] by blast+

lemma drain_keeps: "writes_ok X ev \<Longrightarrow> drain_mutations_into X g G d = Some (d', Inr G') \<Longrightarrow> ev d' = ev d"
  using writes_other(4) [of X ev d] by (auto simp: drain_mutations_into_def split: prod.splits)

lemma fix_hop_spec:
  assumes W: "writes_ok X ev" and "fix_hop X rn (es_hop (ev d) rn (sr_side r)) r d = Some (d', Inr ())"
    and "sound_resolution (es_entities (ev d)) r"
    and "rn \<in> es_edges (ev d)"
  shows "ev d' = (ev d)\<lparr>es_hop := (es_hop (ev d))(rn := (es_hop (ev d) rn)(sr_side r := or_empty (sr_new_uuid r)))\<rparr>"
proof (cases "sr_new_uuid r")
  case None
  then show ?thesis using assms(2,3) writes_delete [OF W, of rn "sr_side r" d d']
    by (simp add: sound_resolution_def fix_hop_def or_empty_def fun_upd_idem split: if_splits)
next
  case (Some u)
  then obtain d1 where "ev d1 = (ev d)\<lparr>es_hop := (es_hop (ev d))(rn := (es_hop (ev d) rn)(sr_side r := []))\<rparr>"
    and "x_create_hop X rn (sr_side r) u d1 = (d', Inr ())"
    using assms(2,3) writes_delete [OF W, of rn "sr_side r" d] by (fastforce simp: sound_resolution_def fix_hop_def fun_upd_idem split: if_splits)
  then show ?thesis using writes_create [OF W, of rn "sr_side r" u d1 d'] assms(3,4) Some by (simp add: sound_resolution_def or_empty_def)
qed

lemma apply_sides_spec:
  assumes W: "writes_ok X ev"
  shows "apply_sides X rn q actual rs ps c ch d = Some (d', Inr (ps', c', ch')) \<Longrightarrow> distinct (map sr_side rs) \<Longrightarrow>
    \<forall>r \<in> set rs. es_hop (ev d) rn (sr_side r) = side_of (sr_side r) actual \<Longrightarrow>
    \<forall>r \<in> set rs. sound_resolution (es_entities (ev d)) r \<Longrightarrow>
    rn \<in> es_edges (ev d) \<Longrightarrow>
    ev d' = (ev d)\<lparr>es_hop := (es_hop (ev d))(rn := bind_hops rs (es_hop (ev d) rn))\<rparr> \<and> ps' = bind_pointers q rs ps
    \<and> rc_invalidated_self_loop c' = rc_invalidated_self_loop c \<and> rc_invalidated_duplicate c' = rc_invalidated_duplicate c"
proof (induction rs arbitrary: ps c ch d)
  case Nil
  then show ?case by (simp add: bind_hops_def bind_pointers_def)
next
  case (Cons r rs)
  let ?a = "side_of (sr_side r) actual"
  let ?h = "(es_hop (ev d))(rn := (es_hop (ev d) rn)(sr_side r := or_empty (sr_new_uuid r)))"
  obtain d1 where fix1: "awhen (\<not> hop_matches r ?a) (fix_hop X rn ?a r) d = Some (d1, Inr ())"
    and rest: "apply_sides X rn q actual rs (pointers_set (sr_side r) (new_pointer q r) ps) (count_state (sr_new_state r) c)
      (ch \<or> \<not> hop_matches r ?a) d1 = Some (d', Inr (ps', c', ch'))"
    using Cons.prems(1) unfolding apply_sides.simps Let_def abind_Inr new_pointer_def by (elim exE conjE) (rule that, simp_all add: new_pointer_def)
  have at: "?a = es_hop (ev d) rn (sr_side r)" using Cons.prems(3) by simp
  have d1: "ev d1 = (ev d)\<lparr>es_hop := ?h\<rparr>"
  proof (cases "hop_matches r ?a")
    case True
    then have "es_hop (ev d) rn (sr_side r) = or_empty (sr_new_uuid r)"
      using at by (auto simp: hop_matches_def or_empty_def split: option.splits)
    then show ?thesis using True fix1 by (simp add: fun_upd_idem)
  next
    case False
    then show ?thesis using fix_hop_spec [OF W, of rn d r d1] fix1 at Cons.prems(4,5) by simp
  qed
  have "rc_invalidated_self_loop (count_state s c) = rc_invalidated_self_loop c
      \<and> rc_invalidated_duplicate (count_state s c) = rc_invalidated_duplicate c" for s by (cases s) auto
  moreover have "ev d' = (ev d1)\<lparr>es_hop := (es_hop (ev d1))(rn := bind_hops rs (es_hop (ev d1) rn))\<rparr>
      \<and> ps' = bind_pointers q rs (pointers_set (sr_side r) (new_pointer q r) ps)
      \<and> rc_invalidated_self_loop c' = rc_invalidated_self_loop (count_state (sr_new_state r) c)
      \<and> rc_invalidated_duplicate c' = rc_invalidated_duplicate (count_state (sr_new_state r) c)"
  proof (rule Cons.IH [OF rest])
    show "\<forall>r \<in> set rs. es_hop (ev d1) rn (sr_side r) = side_of (sr_side r) actual"
      using Cons.prems(2,3) d1 by (auto simp: image_iff)
  qed (use Cons.prems d1 in auto)
  ultimately show ?case using d1 by (simp add: bind_Cons del: fun_upd_apply) simp
qed

lemma sync_direct_keeps:
  "writes_ok X ev \<Longrightarrow> sync_direct X rn d = Some (d', Inr ()) \<Longrightarrow> ev d' = ev d"
  by (auto simp: sync_direct_def writes_other(2,3) split: option.splits if_splits)

text \<open>What re-binding makes of an edge that it does not invalidate.\<close>

definition edge_rebound ::
  "json_text \<Rightarrow> 'd xconn \<Rightarrow> rstr \<Rightarrow> bool \<Rightarrow> nat option \<Rightarrow> 'd \<Rightarrow> estate \<Rightarrow> rstr \<Rightarrow> estate \<Rightarrow> bool" where
  "edge_rebound J X g force current_seq d E rn E' \<longleftrightarrow>
     (\<forall>side. let ps = read_pointers J (es_attrs E rn); ps' = read_pointers J (es_attrs E' rn) in
        if rechecked g force current_seq ps side
        then \<exists>p st u. pointers_get side ps = Some p
               \<and> resolve_endpoint_kind J X g (cp_endpoint_name p) (cp_endpoint_kind p) d = Some (d, Inr (st, u))
               \<and> es_hop E' rn side = or_empty u
               \<and> pointers_get side ps' = Some (p\<lparr>cp_resolved_uuid := u, cp_bound_at_seq := current_seq, cp_binding_state := st\<rparr>)
        else es_hop E' rn side = es_hop E rn side \<and> pointers_get side ps' = pointers_get side ps)"

lemma rebound_by_sides:
  assumes J: "json_text_ok J" and "es_attrs E rn = attrs" and ps: "ps = read_pointers J attrs"
    and sides: "map sr_side rs = filter (rechecked g force q ps) [Src, Dst]" and res: "\<forall>r \<in> set rs. resolved_in J X g d ps r"
    and E': "es_hop E' rn = bind_hops rs (es_hop E rn)" "es_attrs E' rn = write_pointers J attrs (bind_pointers q rs ps)"
  shows "edge_rebound J X g force q d E rn E'"
  unfolding edge_rebound_def Let_def
proof (intro allI)
  fix side
  have rd: "read_pointers J (write_pointers J attrs (bind_pointers q rs ps)) = bind_pointers q rs ps"
    using write_pointers_read [OF J] .
  have dist: "distinct (map sr_side rs)" using sides by simp
  have mem: "side \<in> sr_side ` set rs \<longleftrightarrow> rechecked g force q ps side"
    using arg_cong [OF sides, of set] by (cases side) auto
  show "if rechecked g force q (read_pointers J (es_attrs E rn)) side
        then \<exists>p st u. pointers_get side (read_pointers J (es_attrs E rn)) = Some p
               \<and> resolve_endpoint_kind J X g (cp_endpoint_name p) (cp_endpoint_kind p) d = Some (d, Inr (st, u))
               \<and> es_hop E' rn side = or_empty u
               \<and> pointers_get side (read_pointers J (es_attrs E' rn)) = Some (p\<lparr>cp_resolved_uuid := u, cp_bound_at_seq := q, cp_binding_state := st\<rparr>)
        else es_hop E' rn side = es_hop E rn side
          \<and> pointers_get side (read_pointers J (es_attrs E' rn)) = pointers_get side (read_pointers J (es_attrs E rn))"
  proof (cases "rechecked g force q ps side")
    case False
    then show ?thesis using bind_hops_at [OF dist] bind_pointers_at [OF dist] mem E' rd ps assms(2) by simp
  next
    case True
    then obtain r where r: "r \<in> set rs" "side = sr_side r" using mem by auto
    have "new_pointer q r = (sr_existing r)\<lparr>cp_resolved_uuid := sr_new_uuid r, cp_bound_at_seq := q, cp_binding_state := sr_new_state r\<rparr>"
      by (simp add: new_pointer_def)
    then show ?thesis using True bspec [OF res r(1)] r bind_hops_at [OF dist] bind_pointers_at [OF dist] E' rd ps assms(2)
      by (auto simp: resolved_in_def)
  qed
qed

lemma edge_reboundD:
  "edge_rebound J X g force q d E rn E' \<Longrightarrow> rechecked g force q (read_pointers J (es_attrs E rn)) side \<Longrightarrow>
     pointers_get side (read_pointers J (es_attrs E rn)) = Some p \<Longrightarrow>
     resolve_endpoint_kind J X g (cp_endpoint_name p) (cp_endpoint_kind p) d = Some (d, Inr (st, u)) \<Longrightarrow>
     es_hop E' rn side = or_empty u
     \<and> pointers_get side (read_pointers J (es_attrs E' rn)) = Some (p\<lparr>cp_resolved_uuid := u, cp_bound_at_seq := q, cp_binding_state := st\<rparr>)"
  unfolding edge_rebound_def Let_def by (drule spec [of _ side]) auto

lemma rebound_none:
  "\<not> rechecked g force q (read_pointers J (es_attrs E rn)) Src \<Longrightarrow> \<not> rechecked g force q (read_pointers J (es_attrs E rn)) Dst \<Longrightarrow>
     edge_rebound J X g force q d E rn E"
  unfolding edge_rebound_def Let_def by (metis endpoint_side.exhaust)

lemma invalidate_candidate_spec:
  assumes W: "writes_ok X ev" and "invalidate_candidate X rn ts gid c G d = Some (d', Inr (c', G'))"
  shows "ev d' = ev d \<and> c' = c"
proof -
  obtain d1 where "x_invalidate X rn ts d = (d1, Inr ())" "drain_mutations_into X gid G d1 = Some (d', Inr G')" "c' = c"
    using assms(2) by (auto simp: invalidate_candidate_def)
  then show ?thesis using writes_other(1) [OF W] drain_keeps [OF W] by simp
qed

lemma keep_candidate_spec:
  assumes W: "writes_ok X ev" and "keep_candidate J X q rn gid attrs actual rs ps c G d = Some (d', Inr (c', G'))"
    and "distinct (map sr_side rs)" "actual = (es_hop (ev d) rn Src, es_hop (ev d) rn Dst)"
    and "\<forall>r \<in> set rs. sound_resolution (es_entities (ev d)) r"
    and rn: "rn \<in> es_edges (ev d)"
  shows "ev d' = (ev d)\<lparr>es_hop := (es_hop (ev d))(rn := bind_hops rs (es_hop (ev d) rn)),
      es_attrs := (es_attrs (ev d))(rn := write_pointers J attrs (bind_pointers q rs ps))\<rparr>
    \<and> rc_invalidated_self_loop c' = rc_invalidated_self_loop c \<and> rc_invalidated_duplicate c' = rc_invalidated_duplicate c"
proof -
  obtain d1 ps' ch d2 d3 where a: "apply_sides X rn q actual rs ps c False d = Some (d1, Inr (ps', c', ch))"
    and u: "x_update_attributes X rn (write_pointers J attrs ps') d1 = (d2, Inr ())"
    and y: "awhen ch (sync_direct X rn) d2 = Some (d3, Inr ())" and dr: "drain_mutations_into X gid G d3 = Some (d', Inr G')"
    using assms(2) unfolding keep_candidate_def by fastforce
  have "side_of s actual = es_hop (ev d) rn s" for s using assms(4) by (cases s) (simp_all add: side_of_def)
  then have A: "ev d1 = (ev d)\<lparr>es_hop := (es_hop (ev d))(rn := bind_hops rs (es_hop (ev d) rn))\<rparr> \<and> ps' = bind_pointers q rs ps
    \<and> rc_invalidated_self_loop c' = rc_invalidated_self_loop c \<and> rc_invalidated_duplicate c' = rc_invalidated_duplicate c"
    using apply_sides_spec [OF W a assms(3) _ assms(5) rn] by simp
  have "ev d2 = (ev d1)\<lparr>es_attrs := (es_attrs (ev d1))(rn := write_pointers J attrs ps')\<rparr>"
    using writes_update [OF W u] A rn by simp
  moreover have "ev d3 = ev d2" using y sync_direct_keeps [OF W, of rn d2 d3] by (auto split: if_splits)
  ultimately show ?thesis using A drain_keeps [OF W dr] by simp
qed

lemma settle_candidate_cases:
  assumes R: "reads_ok X ev" and W: "writes_ok X ev"
    and "settle_candidate J X ts q (rn, nm, gid, attrs) ps rs c G d = Some (d', Inr (c', G'))"
  shows "ev d' = ev d \<and> rc_invalidated_self_loop c' + rc_invalidated_duplicate c' = Suc (rc_invalidated_self_loop c + rc_invalidated_duplicate c)
    \<or> keep_candidate J X q rn gid attrs (es_hop (ev d) rn Src, es_hop (ev d) rn Dst) rs ps c G d = Some (d', Inr (c', G'))"
proof -
  obtain e where e: "x_edge X d rn = Inr e" using assms(3) by (auto simp: settle_candidate_def)
  then have act: "(case e of None \<Rightarrow> ([], []) | Some x \<Rightarrow> (re_source_node_uuid x, re_target_node_uuid x)) = (es_hop (ev d) rn Src, es_hop (ev d) rn Dst)"
    using R unfolding reads_ok_def by blast
  show ?thesis
    using assms(3) e
    by (auto simp: settle_candidate_def act Let_def dest!: invalidate_candidate_spec [OF W] split: prod.splits if_splits)
qed


text \<open>The test for duplicates does not leave out the edge itself.  When the hops already are where the names resolve
  to but the pointer records another entity, as after a pass that failed between creating the hop
  and writing the attributes, the edge counts as a duplicate of itself and is invalidated.\<close>

lemma rebind_own_duplicate:
  assumes "x_edge X d rn = Inr (Some e)" "re_source_node_uuid e \<noteq> []" "re_target_node_uuid e \<noteq> []"
    "re_source_node_uuid e \<noteq> re_target_node_uuid e"
    and "prospective rs (re_source_node_uuid e, re_target_node_uuid e) = (re_source_node_uuid e, re_target_node_uuid e)"
    and "list_ex (\<lambda>r. sr_new_uuid r \<noteq> cp_resolved_uuid (sr_existing r)) rs"
    and "x_has_directed_edge X d (re_source_node_uuid e) (re_target_node_uuid e) nm gid = Inr True"
  shows "settle_candidate J X ts q (rn, nm, gid, attrs) ps rs c G d =
    invalidate_candidate X rn ts gid (c\<lparr>rc_invalidated_duplicate := rc_invalidated_duplicate c + 1\<rparr>) G d"
  using assms by (simp add: settle_candidate_def abind_def aread_def)

section \<open>Witnesses\<close>

text \<open>A database with two entities of the group \<open>s\<close>: \<open>m\<close>, which is merged, and \<open>w\<close>, to which it forwards.  Its
  state holds the hops and the attributes of the edges.\<close>

type_synonym xdb = "(rstr \<Rightarrow> endpoint_side \<Rightarrow> rstr) \<times> (rstr \<Rightarrow> rstr)"

definition toy_m :: entity_row where
  "toy_m = \<lparr>er_uuid = lit ''m'', er_name = lit ''n'', er_group_id = lit ''s'', er_labels = [MERGED], er_kind = lit ''k'',
     er_created_at = [], er_ingested_at = [], er_name_embedding = [], er_summary = [],
     er_attributes = write_merged_into toy_json_text [] (lit ''w''), er_episode_uuids = [], er_source_descriptions = [],
     er_summary_embedding = []\<rparr>"

definition toy_w :: entity_row where
  "toy_w = \<lparr>er_uuid = lit ''w'', er_name = lit ''x'', er_group_id = lit ''s'', er_labels = [], er_kind = lit ''k'',
     er_created_at = [], er_ingested_at = [], er_name_embedding = [], er_summary = [], er_attributes = [], er_episode_uuids = [],
     er_source_descriptions = [], er_summary_embedding = []\<rparr>"

definition toy_xconn :: "xdb xconn" where
  "toy_xconn = \<lparr>x_applied_seq = (\<lambda>d g. Inr (Some 7)),
     x_by_name_kind = (\<lambda>d n g k. Inr None),
     x_by_name_any_kind = (\<lambda>d n g. Inr [toy_m]),
     x_count_active = (\<lambda>d n g k. Inr 0),
     x_entity = (\<lambda>d u. Inr (if u = lit ''m'' then Some toy_m else if u = lit ''w'' then Some toy_w else None)),
     x_candidates = (\<lambda>d. Inr []),
     x_edge = (\<lambda>d rn. Inr (Some \<lparr>re_uuid = rn, re_name = [], re_source_node_uuid = fst d rn Src, re_target_node_uuid = fst d rn Dst,
        re_group_id = [], re_fact = [], re_fact_embedding = [], re_created_at = [], re_ingested_at = [], re_valid_at = None, re_invalid_at = None,
        re_attributes = snd d rn, re_relation_type = None, re_episode_uuids = [], re_source_descriptions = []\<rparr>)),
     x_has_directed_edge = (\<lambda>d a b n g. Inr False),
     x_insert_edge = (\<lambda>e d. (d, Inr ())),
     x_invalidate = (\<lambda>rn ts d. (d, Inr ())),
     x_delete_hop = (\<lambda>rn s d. (((fst d)(rn := (fst d rn)(s := [])), snd d), Inr ())),
     x_create_hop = (\<lambda>rn s u d. (((fst d)(rn := (fst d rn)(s := u)), snd d), Inr ())),
     x_update_attributes = (\<lambda>rn a d. ((fst d, (snd d)(rn := a)), Inr ())),
     x_delete_direct = (\<lambda>rn d. (d, Inr ())),
     x_create_direct = (\<lambda>e d. (d, Inr ())),
     x_drain = (\<lambda>d. (d, []))\<rparr>"

definition toy_ev :: "xdb \<Rightarrow> estate" where
  "toy_ev d = \<lparr>es_hop = fst d, es_attrs = snd d, es_entities = {lit ''m'', lit ''w''}, es_edges = UNIV\<rparr>"

definition toy_edge_pointers :: cross_group_pointers where
  "toy_edge_pointers = \<lparr>cps_src = Some (toy_pointer\<lparr>cp_binding_state := Unbound, cp_resolved_uuid := None\<rparr>), cps_dst = None\<rparr>"

definition toy_xdb :: xdb where
  "toy_xdb = (\<lambda>rn s. [], \<lambda>rn. write_pointers toy_json_text [] toy_edge_pointers)"

lemma toy_reads_ok: "reads_ok toy_xconn toy_ev"
  by (simp add: reads_ok_def toy_xconn_def toy_ev_def toy_m_def toy_w_def)

lemma toy_writes_ok: "writes_ok toy_xconn toy_ev"
  by (auto simp: writes_ok_def toy_xconn_def toy_ev_def)

lemma toy_forward: "read_merged_into toy_json_text (er_attributes toy_m) = Some (lit ''w'')"
  using toy_json_text_ok by (simp add: toy_m_def read_merged_into_map attr_map_write_merged as_str_def)

lemma toy_known: "x_entity toy_xconn d (lit ''m'') = Inr (Some toy_m)" "x_entity toy_xconn d (lit ''w'') = Inr (Some toy_w)"
  by (simp_all add: toy_xconn_def)

theorem merged_chain_exact_witness:
  "follow_merged_into_chain toy_json_text toy_xconn toy_xdb (lit ''s'') toy_m = Some (Inr (Some toy_w))"
proof -
  have "{t. \<exists>e. x_entity toy_xconn toy_xdb t = Inr (Some e)} \<subseteq> {lit ''m'', lit ''w''}"
    by (auto simp: toy_xconn_def split: if_splits)
  then have "finite {t. \<exists>e. x_entity toy_xconn toy_xdb t = Inr (Some e)}" by (rule finite_subset) simp
  moreover have "leads_to toy_json_text toy_xconn toy_xdb (lit ''s'') 0 toy_m toy_w"
    using toy_forward toy_known(2) by (rule arrive) (simp_all add: toy_w_def)
  ultimately show ?thesis
    using merged_chain_exact [of toy_xconn toy_xdb toy_m toy_json_text "lit ''s''"] toy_known(1) by (auto simp: toy_m_def)
qed

lemma toy_resolves:
  "resolve_endpoint_kind toy_json_text toy_xconn (lit ''s'') nm None d = Some (d, Inr (Bound, Some (lit ''w'')))"
proof -
  have "lit ''w'' \<noteq> er_uuid toy_m" "er_group_id toy_w = lit ''s''" "er_labels toy_w = []" "er_uuid toy_w = lit ''w''" "er_labels toy_m = [MERGED]"
    by (simp_all add: toy_m_def toy_w_def)
  then have "follow_merged_into_chain toy_json_text toy_xconn d (lit ''s'') toy_m = Some (Inr (Some toy_w))"
    by (simp add: follow_merged_into_chain_def follow_chain.simps toy_forward toy_known del: lit_Cons)
  moreover have "x_by_name_any_kind toy_xconn d nm (lit ''s'') = Inr [toy_m]" "x_count_active toy_xconn d nm (lit ''s'') (er_kind toy_m) = Inr 0"
    by (simp_all add: toy_xconn_def)
  ultimately show ?thesis using \<open>er_uuid toy_w = lit ''w''\<close> \<open>er_labels toy_m = [MERGED]\<close>
    by (simp add: resolve_endpoint_kind_def endpoint_winner_def del: lit_Cons)
qed

lemma toy_rebinds:
  "\<exists>d' c' G'. rebind_candidate toy_json_text toy_xconn (lit ''s'') ts False (Some 7) (lit ''r'', lit ''R'', lit ''e'', snd toy_xdb (lit ''r''))
     (no_counts, Map.empty) toy_xdb = Some (d', Inr (c', G')) \<and> rc_invalidated_self_loop c' = 0 \<and> rc_invalidated_duplicate c' = 0"
proof -
  let ?p = "toy_pointer\<lparr>cp_binding_state := Unbound, cp_resolved_uuid := None\<rparr>"
  let ?r = "\<lparr>sr_side = Src, sr_existing = ?p, sr_new_state = Bound, sr_new_uuid = Some (lit ''w'')\<rparr>"
  have ps: "read_pointers toy_json_text (snd toy_xdb (lit ''r'')) = toy_edge_pointers"
    by (simp add: toy_xdb_def write_pointers_read [OF toy_json_text_ok])
  have p: "cp_source_group_id ?p = lit ''s''" "cp_endpoint_kind ?p = None" by (simp_all add: toy_pointer_def)
  have "resolve_sides toy_json_text toy_xconn (lit ''s'') False (Some 7) toy_edge_pointers [Src, Dst] no_counts toy_xdb
      = Some (toy_xdb, Inr (no_counts\<lparr>rc_checked := 1\<rparr>, [?r]))"
    using p toy_resolves [of "cp_endpoint_name ?p" toy_xdb]
    by (simp add: toy_edge_pointers_def is_stale_skip_def abind_def aret_def no_counts_def del: lit_Cons)
  moreover have "\<exists>d' c' G'. settle_candidate toy_json_text toy_xconn ts (Some 7) (lit ''r'', lit ''R'', lit ''e'', a) ps [?r]
      (no_counts\<lparr>rc_checked := 1\<rparr>) Map.empty toy_xdb = Some (d', Inr (c', G')) \<and> rc_invalidated_self_loop c' = 0 \<and> rc_invalidated_duplicate c' = 0" for a ps
    by (simp add: settle_candidate_def keep_candidate_def abind_def aret_def aread_def awrite_def awhen_def toy_xconn_def toy_xdb_def
        prospective_def set_hop_def or_empty_def side_of_def hop_matches_def fix_hop_def sync_direct_def drain_mutations_into_def no_counts_def)
  ultimately show ?thesis
    unfolding rebind_candidate_def prod.case ps Let_def fst_conv snd_conv by (simp add: abind_def ps)
qed


end
