(* ===== verification/Ontology.thy ===== *)
theory Ontology
  imports GroupName
begin

text \<open>
  The ontology of a workspace or of a group (\<^verbatim>\<open>ontology.rs\<close>): normalising type names, reading the file,
  cleaning the parent relation and the map of ancestors.  The YAML parser is a parameter.  A value
  \<open>None\<close> of \<open>compute_ancestor_map\<close> means that the loop over the parents does not end.  The theorems:
  for distinct names the cleaning removes exactly the parents that are not declared or lie on a
  cycle, and the map lists exactly the chain of ancestors, root first; a name declared twice can
  make the loading run forever; relation type names are normalised once and for all.
\<close>

section \<open>Type names\<close>

definition is_word_sep :: "nat \<Rightarrow> bool" where
  "is_word_sep c \<longleftrightarrow> c = 95 \<or> c = 45 \<or> c = 32"

definition word_break :: "ucd \<Rightarrow> rstr \<Rightarrow> nat \<Rightarrow> rstr \<Rightarrow> bool" where
  "word_break U current c rest \<longleftrightarrow> ucd_uppercase U c \<and> current \<noteq> []
     \<and> (ucd_lowercase U (last current)
        \<or> (rest \<noteq> [] \<and> ucd_lowercase U (hd rest)) \<and> ucd_uppercase U (last current))"

fun split_words_loop :: "ucd \<Rightarrow> rstr \<Rightarrow> rstr \<Rightarrow> rstr list" where
  "split_words_loop U current [] = (if current = [] then [] else [current])"
| "split_words_loop U current (c # rest) =
     (if is_word_sep c
      then (if current = [] then split_words_loop U [] rest else current # split_words_loop U [] rest)
      else if word_break U current c rest then current # split_words_loop U [c] rest
      else split_words_loop U (current @ [c]) rest)"

definition split_words :: "ucd \<Rightarrow> rstr \<Rightarrow> rstr list" where
  "split_words U s = split_words_loop U [] s"

definition capitalise :: "ucd \<Rightarrow> rstr \<Rightarrow> rstr" where
  "capitalise U w = (case w of [] \<Rightarrow> [] | first # rest \<Rightarrow> ucd_upper U first @ ucd_lower_str U rest)"

definition normalize_entity_type :: "ucd \<Rightarrow> rstr \<Rightarrow> rstr" where
  "normalize_entity_type U s = (if s = [] then [] else concat (map (capitalise U) (split_words U s)))"

definition normalize_relation_type :: "ucd \<Rightarrow> rstr \<Rightarrow> rstr" where
  "normalize_relation_type U s = (if s = [] then [] else str_join (lit ''_'') (map (to_uppercase U) (split_words U s)))"

section \<open>Declarations\<close>

datatype ontology_mode = OpenMode | StrictMode

definition show_mode :: "ontology_mode \<Rightarrow> rstr" where
  "show_mode m = (case m of OpenMode \<Rightarrow> lit ''open'' | StrictMode \<Rightarrow> lit ''strict'')"

record entity_type_raw =
  etr_name :: rstr
  etr_description :: "rstr option"
  etr_parent :: "rstr option"
  etr_identity :: bool
  etr_extract :: bool

record relation_type_raw =
  rtr_name :: rstr
  rtr_description :: "rstr option"
  rtr_source_type :: "rstr option"
  rtr_target_type :: "rstr option"
  rtr_aliases :: "rstr list option"
  rtr_keywords :: "rstr list option"
  rtr_extract :: bool

record ontology_file =
  of_mode :: "ontology_mode option"
  of_entity_types :: "entity_type_raw list"
  of_relation_types :: "relation_type_raw list"

record entity_type_def =
  et_name :: rstr
  et_description :: "rstr option"
  et_parent :: "rstr option"
  et_identity :: bool
  et_extract :: bool

record relation_type_def =
  rt_name :: rstr
  rt_description :: "rstr option"
  rt_source_type :: "rstr option"
  rt_target_type :: "rstr option"
  rt_aliases :: "rstr list"
  rt_keywords :: "rstr list"
  rt_extract :: bool

record ontology =
  on_mode :: ontology_mode
  on_entity_types :: "entity_type_def list"
  on_relation_types :: "relation_type_def list"
  on_ancestor_map :: "rstr \<rightharpoonup> rstr list"

section \<open>Parents\<close>

definition clear_parent :: "entity_type_def \<Rightarrow> entity_type_def" where
  "clear_parent e = e\<lparr>et_parent := None\<rparr>"

definition clear_undeclared :: "entity_type_def list \<Rightarrow> entity_type_def list" where
  "clear_undeclared es =
     map (\<lambda>e. case et_parent e of None \<Rightarrow> e | Some p \<Rightarrow> if p \<in> et_name ` set es then e else clear_parent e) es"

text \<open>A name declared more than once is mapped to its last position.\<close>

definition index_of :: "entity_type_def list \<Rightarrow> rstr \<rightharpoonup> nat" where
  "index_of es = map_of (rev (zip (map et_name es) [0..<length es]))"

definition clear_at :: "nat list \<Rightarrow> entity_type_def list \<Rightarrow> entity_type_def list" where
  "clear_at is es = fold (\<lambda>i es. es[i := clear_parent (es ! i)]) is es"

text \<open>Following the parents from one start.  Indexing out of range would panic (\<open>None\<close>).\<close>

function follow_parents ::
  "entity_type_def list \<Rightarrow> (rstr \<rightharpoonup> nat) \<Rightarrow> nat set \<Rightarrow> nat list \<Rightarrow> nat \<Rightarrow> (entity_type_def list \<times> nat set) option" where
  "follow_parents es ix safe path cur =
     (if cur \<in> safe then Some (es, safe \<union> set path)
      else if cur \<in> set path
      then Some (clear_at (dropWhile (\<lambda>i. i \<noteq> cur) path) es, safe \<union> set (takeWhile (\<lambda>i. i \<noteq> cur) path))
      else if cur \<ge> length es then None
      else (case Option.bind (et_parent (es ! cur)) ix of
              Some nxt \<Rightarrow> follow_parents es ix safe (path @ [cur]) nxt
            | None \<Rightarrow> Some (es, safe \<union> set (path @ [cur]))))"
  by pat_completeness auto
termination
proof (relation "measure (\<lambda>(es, ix, safe, path, cur). card ({..<length es} - set path))", simp_all, goal_cases)
  case (1 es ix safe path cur nxt)
  then have "cur \<in> {..<length es} - set path" by simp
  then have "card ({..<length es} - set path - {cur}) < card ({..<length es} - set path)" by (intro card_Diff1_less) simp_all
  moreover have "{..<length es} - insert cur (set path) = {..<length es} - set path - {cur}" by blast
  ultimately show ?case by simp
qed

declare follow_parents.simps [simp del]

fun clean_cycles :: "(rstr \<rightharpoonup> nat) \<Rightarrow> nat list \<Rightarrow> entity_type_def list \<times> nat set \<Rightarrow> (entity_type_def list \<times> nat set) option" where
  "clean_cycles ix [] st = Some st"
| "clean_cycles ix (start # starts) (es, safe) =
     (if start \<in> safe then clean_cycles ix starts (es, safe)
      else Option.bind (follow_parents es ix safe [] start) (clean_cycles ix starts))"

definition validate_and_clean_parents :: "entity_type_def list \<Rightarrow> entity_type_def list option" where
  "validate_and_clean_parents entity_types =
     (let es = clear_undeclared entity_types in
      map_option fst (clean_cycles (index_of es) [0..<length es] (es, {})))"

definition parent_of :: "entity_type_def list \<Rightarrow> rstr \<rightharpoonup> rstr" where
  "parent_of es = map_of (rev (List.map_filter (\<lambda>e. map_option (Pair (et_name e)) (et_parent e)) es))"

partial_function (option) push_ancestors :: "(rstr \<rightharpoonup> rstr) \<Rightarrow> rstr list \<Rightarrow> rstr \<Rightarrow> rstr list option" where
  "push_ancestors po ancestors cur =
     (case po cur of None \<Rightarrow> Some ancestors | Some p \<Rightarrow> push_ancestors po (ancestors @ [p]) p)"

fun ancestor_loop :: "(rstr \<rightharpoonup> rstr) \<Rightarrow> entity_type_def list \<Rightarrow> (rstr \<rightharpoonup> rstr list) \<Rightarrow> (rstr \<rightharpoonup> rstr list) option" where
  "ancestor_loop po [] m = Some m"
| "ancestor_loop po (e # es) m =
     Option.bind (push_ancestors po [] (et_name e)) (\<lambda>ancestors. ancestor_loop po es (m(et_name e \<mapsto> rev ancestors)))"

definition compute_ancestor_map :: "entity_type_def list \<Rightarrow> (rstr \<rightharpoonup> rstr list) option" where
  "compute_ancestor_map entity_types = ancestor_loop (parent_of entity_types) entity_types Map.empty"

section \<open>Building an ontology\<close>

definition build_entity_type :: "ucd \<Rightarrow> entity_type_raw \<Rightarrow> entity_type_def option" where
  "build_entity_type U raw =
     (let normalized = normalize_entity_type U (etr_name raw) in
      if normalized = [] then None
      else if normalized = lit ''Entity'' then None
      else Some \<lparr>et_name = normalized, et_description = etr_description raw,
             et_parent = map_option (normalize_entity_type U) (etr_parent raw),
             et_identity = (etr_identity raw \<and> normalized \<notin> {lit ''Merged'', lit ''Unclassified''}),
             et_extract = etr_extract raw\<rparr>)"

definition or_default :: "'a list option \<Rightarrow> 'a list" where
  "or_default v = (case v of None \<Rightarrow> [] | Some xs \<Rightarrow> xs)"

definition build_relation_type :: "ucd \<Rightarrow> relation_type_raw \<Rightarrow> relation_type_def option" where
  "build_relation_type U raw =
     (let normalized = normalize_relation_type U (rtr_name raw) in
      if normalized = [] then None
      else Some \<lparr>rt_name = normalized, rt_description = rtr_description raw,
             rt_source_type = map_option (normalize_entity_type U) (rtr_source_type raw),
             rt_target_type = map_option (normalize_entity_type U) (rtr_target_type raw),
             rt_aliases = filter (\<lambda>a. a \<noteq> []) (map (normalize_relation_type U) (or_default (rtr_aliases raw))),
             rt_keywords = filter (\<lambda>k. k \<noteq> []) (map (ucd_lower_str U) (or_default (rtr_keywords raw))),
             rt_extract = rtr_extract raw\<rparr>)"

definition build_ontology :: "ucd \<Rightarrow> ontology_file \<Rightarrow> ontology_mode option \<Rightarrow> ontology option option" where
  "build_ontology U f mode_override =
     (let mode = (case mode_override of Some m \<Rightarrow> m | None \<Rightarrow> (case of_mode f of Some StrictMode \<Rightarrow> StrictMode | _ \<Rightarrow> OpenMode)) in
      Option.bind (validate_and_clean_parents (List.map_filter (build_entity_type U) (of_entity_types f))) (\<lambda>entity_types.
      Option.bind (compute_ancestor_map entity_types) (\<lambda>ancestor_map.
        (let relation_types = List.map_filter (build_relation_type U) (of_relation_types f) in
         Some (if entity_types = [] \<and> relation_types = [] then None
               else Some \<lparr>on_mode = mode, on_entity_types = entity_types, on_relation_types = relation_types,
                      on_ancestor_map = ancestor_map\<rparr>)))))"

section \<open>Loading\<close>

definition read_text :: "fsys \<Rightarrow> path \<Rightarrow> rstr option" where
  "read_text fs p = (case read_file fs p of Inl _ \<Rightarrow> None | Inr b \<Rightarrow> from_utf8 b)"

definition ontology_file_path :: "fsys \<Rightarrow> path \<Rightarrow> path option" where
  "ontology_file_path fs workspace_root =
     (let primary = workspace_root @ [lit ''.lcg'', lit ''ontology.yaml''];
          fallback = workspace_root @ [lit ''.graphiti'', lit ''ontology.yaml'']
      in if fs_exists fs primary then Some primary else if fs_exists fs fallback then Some fallback else None)"

definition build_from_text :: "ucd \<Rightarrow> (rstr \<Rightarrow> ontology_file option) \<Rightarrow> rstr \<Rightarrow> ontology option option" where
  "build_from_text U yaml t =
     (if trim t = [] then Some None
      else (case yaml t of None \<Rightarrow> Some None | Some f \<Rightarrow> build_ontology U f None))"

definition load_ontology :: "ucd \<Rightarrow> (rstr \<Rightarrow> ontology_file option) \<Rightarrow> fsys \<Rightarrow> path option \<Rightarrow> ontology option option" where
  "load_ontology U yaml fs workspace_root =
     (case workspace_root of
        None \<Rightarrow> Some None
      | Some root \<Rightarrow>
          (case ontology_file_path fs root of
             None \<Rightarrow> Some None
           | Some p \<Rightarrow> (case read_text fs p of None \<Rightarrow> Some None | Some t \<Rightarrow> build_from_text U yaml t)))"

definition group_ontology_path :: "path \<Rightarrow> rstr \<Rightarrow> path result" where
  "group_ontology_path workspace_root group_id =
     rbind (encode_group_dir_name group_id) (\<lambda>encoded.
       Inr (workspace_root @ [lit ''.lcg'', lit ''ontology'', encoded @ lit ''.yaml'']))"

definition load_group_ontology :: "ucd \<Rightarrow> (rstr \<Rightarrow> ontology_file option) \<Rightarrow> fsys \<Rightarrow> path \<Rightarrow> rstr \<Rightarrow> ontology option option" where
  "load_group_ontology U yaml fs workspace_root group_id =
     (case group_ontology_path workspace_root group_id of
        Inl _ \<Rightarrow> Some None
      | Inr p \<Rightarrow>
          if \<not> fs_exists fs p then Some None
          else (case read_text fs p of None \<Rightarrow> Some None | Some t \<Rightarrow> build_from_text U yaml t))"

text \<open>The errors are texts; \<open>show_path\<close> stands for the debug form of a path and \<open>io_text\<close>, \<open>yaml_text\<close> for the
  messages of the libraries.\<close>

definition load_ontology_from_path ::
  "ucd \<Rightarrow> (rstr \<Rightarrow> rstr + ontology_file) \<Rightarrow> (path \<Rightarrow> rstr) \<Rightarrow> rstr \<Rightarrow> fsys \<Rightarrow> path \<Rightarrow> ontology_mode \<Rightarrow> (rstr + ontology) option" where
  "load_ontology_from_path U yaml show_path io_text fs p mode =
     (case read_text fs p of
        None \<Rightarrow> Some (Inl (lit ''failed to read ontology file '' @ show_path p @ lit '': '' @ io_text))
      | Some t \<Rightarrow>
          if trim t = [] then Some (Inl (lit ''ontology file '' @ show_path p @ lit '' is empty''))
          else (case yaml t of
                  Inl e \<Rightarrow> Some (Inl (lit ''YAML parse error in ontology file '' @ show_path p @ lit '': '' @ e))
                | Inr f \<Rightarrow> map_option (\<lambda>o'. case o' of
                      None \<Rightarrow> Inl (lit ''ontology file '' @ show_path p @ lit '' declares no entity types and no relation types'')
                    | Some on \<Rightarrow> Inr on) (build_ontology U f (Some mode))))"

section \<open>Queries\<close>

definition entity_type_names :: "ontology \<Rightarrow> rstr set" where
  "entity_type_names on = et_name ` set (on_entity_types on)"

definition relation_type_names :: "ontology \<Rightarrow> rstr set" where
  "relation_type_names on = rt_name ` set (on_relation_types on)"

definition extractable_entity_types :: "ontology \<Rightarrow> entity_type_def list" where
  "extractable_entity_types on = filter et_extract (on_entity_types on)"

definition extractable_relation_types :: "ontology \<Rightarrow> relation_type_def list" where
  "extractable_relation_types on = filter rt_extract (on_relation_types on)"

definition is_extract_false_entity :: "ucd \<Rightarrow> ontology \<Rightarrow> rstr \<Rightarrow> bool" where
  "is_extract_false_entity U on label =
     list_ex (\<lambda>e. \<not> et_extract e \<and> et_name e = normalize_entity_type U label) (on_entity_types on)"

definition is_extract_false_relation :: "ucd \<Rightarrow> ontology \<Rightarrow> rstr \<Rightarrow> bool" where
  "is_extract_false_relation U on label =
     list_ex (\<lambda>r. \<not> rt_extract r \<and> rt_name r = normalize_relation_type U label) (on_relation_types on)"

definition identity_set :: "ontology \<Rightarrow> rstr list" where
  "identity_set on = sorted_list_of_set (et_name ` set (filter et_identity (on_entity_types on)))"

definition identity_kind :: "ucd \<Rightarrow> ontology \<Rightarrow> rstr \<Rightarrow> rstr option" where
  "identity_kind U on entity_type =
     map_option et_name (List.find (\<lambda>e. et_identity e \<and> et_extract e \<and> et_name e = normalize_entity_type U entity_type)
       (on_entity_types on))"

section \<open>Cycles of a partial function\<close>

definition on_cycle :: "('a \<rightharpoonup> 'a) \<Rightarrow> 'a set" where
  "on_cycle N = {x. (\<lambda>a b. N a = Some b)\<^sup>+\<^sup>+ x x}"

definition closed_under :: "('a \<rightharpoonup> 'a) \<Rightarrow> 'a set \<Rightarrow> bool" where
  "closed_under N C \<longleftrightarrow> (\<forall>x \<in> C. \<forall>y. N x = Some y \<longrightarrow> y \<in> C)"

definition without :: "'a set \<Rightarrow> ('a \<rightharpoonup> 'a) \<Rightarrow> 'a \<rightharpoonup> 'a" where
  "without C N x = (if x \<in> C then None else N x)"

fun chain :: "('a \<rightharpoonup> 'a) \<Rightarrow> 'a list \<Rightarrow> 'a \<Rightarrow> bool" where
  "chain N [] c \<longleftrightarrow> True"
| "chain N (x # xs) c \<longleftrightarrow> N x = Some (hd (xs @ [c])) \<and> chain N xs c"

lemma on_cycle_next: "x \<in> on_cycle N \<Longrightarrow> \<exists>y. N x = Some y"
  unfolding on_cycle_def by (auto dest: tranclpD)

lemma on_cycle_back:
  assumes "x \<in> on_cycle N" and "(\<lambda>a b. N a = Some b)\<^sup>*\<^sup>* x y"
  shows "y \<in> on_cycle N \<and> (\<lambda>a b. N a = Some b)\<^sup>*\<^sup>* y x"
  using assms(2)
proof (induction rule: rtranclp_induct)
  case base
  then show ?case using assms(1) by simp
next
  case (step y z)
  have "(\<lambda>a b. N a = Some b)\<^sup>+\<^sup>+ y y" using step.IH by (simp add: on_cycle_def)
  then have zy: "(\<lambda>a b. N a = Some b)\<^sup>*\<^sup>* z y" using step.hyps(2) by (auto dest: tranclpD)
  then have "z \<in> on_cycle N" unfolding on_cycle_def using step.hyps(2) by (simp add: rtranclp_into_tranclp1)
  then show ?case using zy step.IH by (meson rtranclp_trans)
qed

lemma closed_under_reach: "closed_under N C \<Longrightarrow> (\<lambda>a b. N a = Some b)\<^sup>*\<^sup>* x y \<Longrightarrow> x \<in> C \<Longrightarrow> y \<in> C"
  by (rotate_tac 1, induction rule: rtranclp_induct) (auto simp: closed_under_def)

text \<open>From a point on a cycle that is not without, the without function never leaves the cycle.\<close>

lemma without_orbit:
  assumes C: "closed_under N C" and x: "x \<in> on_cycle N" "x \<notin> C"
    and "(\<lambda>a b. without C N a = Some b)\<^sup>*\<^sup>* x y"
  shows "y \<in> on_cycle N \<and> y \<notin> C"
  using assms(4)
proof (induction rule: rtranclp_induct)
  case base
  then show ?case using x by simp
next
  case (step y z)
  have N: "N y = Some z" using step.hyps(2) by (simp add: without_def split: if_splits)
  then have "z \<in> on_cycle N" "(\<lambda>a b. N a = Some b)\<^sup>*\<^sup>* z y"
    using on_cycle_back [of y N z] step.IH by (simp_all add: r_into_rtranclp)
  then show ?case using closed_under_reach [OF C] step.IH by blast
qed

lemma without_trancl: "(\<lambda>a b. without C N a = Some b)\<^sup>+\<^sup>+ x y \<Longrightarrow> (\<lambda>a b. N a = Some b)\<^sup>+\<^sup>+ x y"
proof (induction rule: tranclp_induct)
  case (base y)
  then show ?case by (auto simp: without_def split: if_splits)
next
  case (step y z)
  then show ?case by (auto simp: without_def split: if_splits intro: tranclp.trancl_into_trancl)
qed

lemma without_cycle:
  assumes "D \<subseteq> on_cycle (without C N)" "closed_under (without C N) D" "closed_under N C"
  shows "D \<subseteq> on_cycle N \<and> closed_under N (C \<union> D)"
proof -
  have "D \<subseteq> on_cycle N" using assms(1) without_trancl by (fastforce simp: on_cycle_def)
  moreover have "closed_under N (C \<union> D)" using assms(2,3) by (auto simp: closed_under_def without_def)
  ultimately show ?thesis by simp
qed

lemma chain_append: "chain N (xs @ ys) c \<longleftrightarrow> chain N xs (hd (ys @ [c])) \<and> chain N ys c"
proof (induction xs)
  case (Cons x xs)
  then show ?case by (cases xs; cases ys) auto
qed simp

lemma chain_reach: "chain N xs c \<Longrightarrow> x \<in> set xs \<Longrightarrow> (\<lambda>a b. N a = Some b)\<^sup>+\<^sup>+ x c"
proof (induction xs arbitrary: x)
  case (Cons a xs)
  have "(\<lambda>a b. N a = Some b)\<^sup>+\<^sup>+ a c"
  proof (cases "xs = []")
    case True
    then show ?thesis using Cons.prems(1) by (simp add: tranclp.r_into_trancl)
  next
    case False
    then have "(\<lambda>a b. N a = Some b)\<^sup>+\<^sup>+ (hd xs) c" "N a = Some (hd xs)" using Cons.IH [of "hd xs"] Cons.prems(1) by simp_all
    then show ?thesis by (meson tranclp_into_tranclp2)
  qed
  then show ?case using Cons by auto
qed simp

lemma chain_from_hd: "chain N (h # xs) c \<Longrightarrow> x \<in> set (h # xs) \<Longrightarrow> (\<lambda>a b. N a = Some b)\<^sup>*\<^sup>* h x"
proof (induction xs arbitrary: h)
  case (Cons a xs)
  then have "N h = Some a" by simp
  then show ?case using Cons.IH [of a] Cons.prems by (auto intro: converse_rtranclp_into_rtranclp)
qed simp

lemma chain_next: "chain N xs c \<Longrightarrow> x \<in> set xs \<Longrightarrow> N x = Some y \<Longrightarrow> y \<in> insert c (set xs)"
proof (induction xs)
  case (Cons a xs)
  then show ?case by (cases xs) auto
qed simp

lemma chain_cycle:
  assumes "chain N (c # xs) c"
  shows "set (c # xs) \<subseteq> on_cycle N \<and> closed_under N (set (c # xs))"
proof -
  have "x \<in> on_cycle N" if "x \<in> set (c # xs)" for x
    using chain_reach [OF assms that] chain_from_hd [OF assms that] unfolding on_cycle_def by (simp add: tranclp_rtranclp_tranclp)
  then show ?thesis using chain_next [OF assms] by (auto simp: closed_under_def)
qed

section \<open>Cleaning the parents\<close>

definition next_type :: "entity_type_def list \<Rightarrow> (rstr \<rightharpoonup> nat) \<Rightarrow> nat \<rightharpoonup> nat" where
  "next_type es ix i = (if i < length es then Option.bind (et_parent (es ! i)) ix else None)"

definition cleaned :: "entity_type_def list \<Rightarrow> nat set \<Rightarrow> entity_type_def list \<Rightarrow> bool" where
  "cleaned es1 C es \<longleftrightarrow> length es = length es1 \<and> (\<forall>i < length es1. es ! i = (if i \<in> C then clear_parent (es1 ! i) else es1 ! i))"

lemma clear_parent_simps [simp]:
  "et_parent (clear_parent e) = None" "et_name (clear_parent e) = et_name e" "clear_parent (clear_parent e) = clear_parent e"
  by (simp_all add: clear_parent_def)

lemma next_cleaned: "cleaned es1 C es \<Longrightarrow> next_type es ix = without C (next_type es1 ix)"
  by (rule ext) (simp add: cleaned_def next_type_def without_def)

lemma clear_at_spec: "length (clear_at is es) = length es
    \<and> (\<forall>i < length es. clear_at is es ! i = (if i \<in> set is then clear_parent (es ! i) else es ! i))"
proof (induction "is" arbitrary: es)
  case (Cons a "is")
  let ?es = "es[a := clear_parent (es ! a)]"
  have upd: "?es ! i = (if i = a then clear_parent (es ! i) else es ! i)" if "i < length es" for i using that by simp
  show ?case using Cons.IH [of ?es] by (simp add: clear_at_def upd)
qed (simp add: clear_at_def)

lemma cleaned_clear_at: "cleaned es1 C es \<Longrightarrow> cleaned es1 (C \<union> set is) (clear_at is es)"
  using clear_at_spec [of "is" es] by (auto simp: cleaned_def)

text \<open>The invariant of the search for cycles: \<open>C\<close> are the positions whose parent was cleared, whole cycles
  only, and a position that counts as safe is not on a cycle any more.\<close>

definition clean_inv :: "entity_type_def list \<Rightarrow> (rstr \<rightharpoonup> nat) \<Rightarrow> nat set \<Rightarrow> entity_type_def list \<times> nat set \<Rightarrow> bool" where
  "clean_inv es1 ix C st \<longleftrightarrow> cleaned es1 C (fst st) \<and> C \<subseteq> on_cycle (next_type es1 ix) \<and> closed_under (next_type es1 ix) C
     \<and> snd st \<inter> on_cycle (next_type es1 ix) \<subseteq> C"

lemma follow_parents_inv:
  assumes "clean_inv es1 ix C (es, safe)" "chain (without C (next_type es1 ix)) path cur" "cur < length es1" "\<forall>i \<in> ran ix. i < length es1"
  shows "\<exists>C' st. follow_parents es ix safe path cur = Some st \<and> clean_inv es1 ix C' st
    \<and> C \<subseteq> C' \<and> safe \<subseteq> snd st \<and> insert cur (set path) \<subseteq> snd st \<union> C'"
  using assms
proof (induction es ix safe path cur rule: follow_parents.induct)
  case (1 es ix safe path cur)
  let ?N = "next_type es1 ix"
  note ch = "1.prems"(2)
  have len: "length es = length es1" and nx: "next_type es ix = without C ?N" and cl: "closed_under ?N C" and sf: "safe \<inter> on_cycle ?N \<subseteq> C"
    using "1.prems"(1) next_cleaned by (auto simp: clean_inv_def cleaned_def)
  have orbit: "cur \<in> on_cycle ?N \<and> cur \<notin> C" if "x \<in> insert cur (set path)" "x \<in> on_cycle ?N" "x \<notin> C" for x
    using that without_orbit [OF cl that(2,3), of cur] chain_reach [OF ch, of x] by (auto dest: tranclp_into_rtranclp)
  consider (safe) "cur \<in> safe" | (cycle) "cur \<notin> safe" "cur \<in> set path"
    | (root) "cur \<notin> safe" "cur \<notin> set path" "next_type es ix cur = None"
    | (step) nxt where "cur \<notin> safe" "cur \<notin> set path" "next_type es ix cur = Some nxt" by fastforce
  then show ?case
  proof cases
    case safe
    then have "set path \<inter> on_cycle ?N \<subseteq> C" using orbit sf by blast
    then show ?thesis using safe "1.prems"(1) by (subst follow_parents.simps) (auto simp: clean_inv_def intro!: exI [of _ C])
  next
    case cycle
    let ?D = "dropWhile (\<lambda>i. i \<noteq> cur) path" and ?B = "takeWhile (\<lambda>i. i \<noteq> cur) path"
    obtain D where D: "?D = cur # D" using cycle(2) by (metis (mono_tags, lifting) dropWhile_eq_Cons_conv dropWhile_eq_Nil_conv neq_Nil_conv)
    have "path = ?B @ cur # D" using D by (metis takeWhile_dropWhile_id)
    then have chD: "chain (without C ?N) (cur # D) cur" using ch chain_append [of "without C ?N" ?B "cur # D" cur] by metis
    have cyc: "set (cur # D) \<subseteq> on_cycle (without C ?N)" "closed_under (without C ?N) (set (cur # D))"
      using chain_cycle [OF chD] by simp_all
    have C': "C \<union> set ?D \<subseteq> on_cycle ?N \<and> closed_under ?N (C \<union> set ?D)"
      using without_cycle [OF cyc cl] "1.prems"(1) unfolding D by (simp add: clean_inv_def)
    have "x \<in> C \<union> set ?D" if "x \<in> set ?B" "x \<in> on_cycle ?N" for x
    proof -
      have "(\<lambda>a b. without C ?N a = Some b)\<^sup>+\<^sup>+ x cur" using chain_reach [OF ch] that(1) by (auto dest: set_takeWhileD)
      then have "(\<lambda>a b. ?N a = Some b)\<^sup>*\<^sup>* x cur" by (intro tranclp_into_rtranclp without_trancl)
      then have "(\<lambda>a b. ?N a = Some b)\<^sup>*\<^sup>* cur x" using on_cycle_back [OF that(2)] by simp
      moreover have "cur \<in> C \<union> set ?D" using D by simp
      ultimately show ?thesis by (rule closed_under_reach [OF conjunct2 [OF C']])
    qed
    then have "clean_inv es1 ix (C \<union> set ?D) (clear_at ?D es, safe \<union> set ?B)"
      using C' sf cleaned_clear_at "1.prems"(1) by (auto simp: clean_inv_def)
    moreover have "insert cur (set path) \<subseteq> (safe \<union> set ?B) \<union> (C \<union> set ?D)"
      using cycle(2) by (metis (no_types, lifting) Un_iff insert_subset set_append subsetI takeWhile_dropWhile_id)
    ultimately show ?thesis using cycle
      by (subst follow_parents.simps) (intro exI [of _ "C \<union> set ?D"] exI [of _ "(clear_at ?D es, safe \<union> set ?B)"], simp)
  next
    case root
    have "\<not> (cur \<in> on_cycle ?N \<and> cur \<notin> C)" using on_cycle_next [of cur ?N] root(3) nx by (auto simp: without_def split: if_splits)
    then have "insert cur (set path) \<inter> on_cycle ?N \<subseteq> C" using orbit by blast
    then have "clean_inv es1 ix C (es, safe \<union> set (path @ [cur]))" using "1.prems"(1) by (auto simp: clean_inv_def)
    then show ?thesis using root "1.prems"(3) len
      by (subst follow_parents.simps) (auto simp: next_type_def intro!: exI [of _ C])
  next
    case (step nxt)
    have "chain (without C ?N) (path @ [cur]) nxt" using ch step(3) nx by (simp add: chain_append)
    moreover have "nxt < length es1" using step(3) "1.prems"(4) by (auto simp: next_type_def bind_eq_Some_conv ran_def split: if_splits)
    moreover have b: "Option.bind (et_parent (es ! cur)) ix = Some nxt" using step(3) by (simp add: next_type_def split: if_splits)
    ultimately show ?thesis using "1.IH" [OF step(1,2) _ b] "1.prems" step len
      by (subst follow_parents.simps) (auto simp: b)
  qed
qed

lemma clean_cycles_inv:
  "clean_inv es1 ix C st \<Longrightarrow> \<forall>i \<in> set starts. i < length es1 \<Longrightarrow> \<forall>i \<in> ran ix. i < length es1 \<Longrightarrow>
     \<exists>C' st'. clean_cycles ix starts st = Some st' \<and> clean_inv es1 ix C' st' \<and> C \<subseteq> C' \<and> snd st \<subseteq> snd st' \<and> set starts \<subseteq> snd st' \<union> C'"
proof (induction starts arbitrary: C st)
  case Nil
  then show ?case by (cases st) (auto intro!: exI [of _ C])
next
  case (Cons s ss)
  obtain es safe where st: "st = (es, safe)" by (cases st)
  show ?case
  proof (cases "s \<in> safe")
    case True
    obtain C' st' where "clean_cycles ix ss st = Some st'" "clean_inv es1 ix C' st'" "C \<subseteq> C'" "snd st \<subseteq> snd st'" "set ss \<subseteq> snd st' \<union> C'"
      using Cons.IH [OF Cons.prems(1)] Cons.prems by auto
    then show ?thesis using True st by (auto intro!: exI [of _ C'])
  next
    case False
    obtain C1 st1 where f: "follow_parents es ix safe [] s = Some st1" "clean_inv es1 ix C1 st1" "C \<subseteq> C1" "safe \<subseteq> snd st1" "s \<in> snd st1 \<union> C1"
      using follow_parents_inv [of es1 ix C es safe "[]" s] Cons.prems st by auto
    obtain C' st' where "clean_cycles ix ss st1 = Some st'" "clean_inv es1 ix C' st'" "C1 \<subseteq> C'" "snd st1 \<subseteq> snd st'" "set ss \<subseteq> snd st' \<union> C'"
      using Cons.IH [OF f(2)] Cons.prems by auto
    then show ?thesis using f False st by (auto intro!: exI [of _ C'])
  qed
qed

lemma index_of_Some: "index_of es n = Some i \<Longrightarrow> i < length es \<and> et_name (es ! i) = n"
  unfolding index_of_def by (drule map_of_SomeD) (auto simp: set_zip)

lemma index_of_nth: "distinct (map et_name es) \<Longrightarrow> i < length es \<Longrightarrow> index_of es (et_name (es ! i)) = Some i"
  unfolding index_of_def
  by (subst map_of_eq_Some_iff) (auto simp: rev_map [symmetric] set_zip intro!: exI [of _ i])

text \<open>Whatever is declared, the cleaning returns; it clears the parents of exactly the positions on cycles.\<close>

lemma validate_cleans:
  "\<exists>es2. validate_and_clean_parents es = Some es2
     \<and> cleaned (clear_undeclared es) (on_cycle (next_type (clear_undeclared es) (index_of (clear_undeclared es)))) es2"
proof -
  let ?es = "clear_undeclared es"
  let ?N = "next_type ?es (index_of ?es)"
  have "clean_inv ?es (index_of ?es) {} (?es, {})" by (simp add: clean_inv_def cleaned_def closed_under_def)
  moreover have "\<forall>i \<in> ran (index_of ?es). i < length ?es" by (auto simp: ran_def dest: index_of_Some)
  ultimately obtain C st where run: "clean_cycles (index_of ?es) [0..<length ?es] (?es, {}) = Some st"
    and inv: "clean_inv ?es (index_of ?es) C st" and all: "{0..<length ?es} \<subseteq> snd st \<union> C"
    using clean_cycles_inv [of ?es "index_of ?es" "{}" "(?es, {})" "[0..<length ?es]"] by auto
  have "i \<in> C" if "i \<in> on_cycle ?N" for i
  proof -
    have "i < length ?es" using on_cycle_next [OF that] by (auto simp: next_type_def split: if_splits)
    then show ?thesis using all inv that by (fastforce simp: clean_inv_def)
  qed
  then have "C = on_cycle ?N" using inv by (auto simp: clean_inv_def)
  then show ?thesis using run inv by (auto simp: validate_and_clean_parents_def Let_def clean_inv_def)
qed

section \<open>The parent relation by names\<close>

lemma parent_of_iff:
  assumes "distinct (map et_name es)"
  shows "parent_of es n = Some p \<longleftrightarrow> (\<exists>e \<in> set es. et_name e = n \<and> et_parent e = Some p)"
proof -
  let ?ps = "List.map_filter (\<lambda>e. map_option (Pair (et_name e)) (et_parent e)) es"
  have sub: "map fst ?ps = map et_name (filter (\<lambda>e. et_parent e \<noteq> None) es)"
    by (induction es) (auto simp: map_filter_simps split: option.splits)
  have "distinct (map fst ?ps)" unfolding sub using assms by (auto simp: distinct_map intro: inj_on_subset)
  then have "parent_of es n = Some p \<longleftrightarrow> (n, p) \<in> set ?ps"
    unfolding parent_of_def by (subst map_of_eq_Some_iff) (simp_all add: rev_map [symmetric])
  then show ?thesis by (auto simp: map_filter_mem)
qed

lemma parent_of_member:
  assumes "distinct (map et_name es)" "e \<in> set es"
  shows "parent_of es (et_name e) = et_parent e"
proof -
  have "e' = e" if "e' \<in> set es" "et_name e' = et_name e" for e'
    using that assms by (metis distinct_map inj_onD)
  then have "parent_of es (et_name e) = Some p \<longleftrightarrow> et_parent e = Some p" for p
    using assms by (auto simp: parent_of_iff)
  then show ?thesis by (metis option.exhaust)
qed

lemma undeclared_fields [simp]:
  "map et_name (clear_undeclared es) = map et_name es" "length (clear_undeclared es) = length es"
  "et_name ` set (clear_undeclared es) = et_name ` set es"
  by (auto simp: clear_undeclared_def image_iff split: option.splits if_splits)

lemma undeclared_nth:
  "i < length es \<Longrightarrow> clear_undeclared es ! i =
     (if \<exists>p. et_parent (es ! i) = Some p \<and> p \<notin> et_name ` set es then clear_parent (es ! i) else es ! i)"
  by (auto simp: clear_undeclared_def split: option.splits)

lemma parent_of_undeclared:
  assumes "distinct (map et_name es)"
  shows "parent_of (clear_undeclared es) n = Some p \<longleftrightarrow> parent_of es n = Some p \<and> p \<in> et_name ` set es"
proof -
  let ?cu = "\<lambda>e. case et_parent e of None \<Rightarrow> e | Some p \<Rightarrow> if p \<in> et_name ` set es then e else clear_parent e"
  have cu: "et_name (?cu e) = n \<and> et_parent (?cu e) = Some p \<longleftrightarrow> et_name e = n \<and> et_parent e = Some p \<and> p \<in> et_name ` set es" for e
    by (cases "et_parent e") auto
  have "parent_of (clear_undeclared es) n = Some p \<longleftrightarrow> (\<exists>e \<in> set es. et_name (?cu e) = n \<and> et_parent (?cu e) = Some p)"
    using assms by (simp add: parent_of_iff) (simp add: clear_undeclared_def)
  then show ?thesis unfolding cu using assms by (auto simp: parent_of_iff)
qed

text \<open>Positions and names have the same cycles, and a parent that is not declared lies on none.\<close>

lemma on_cycle_transfer:
  assumes "x \<in> on_cycle N" and "\<And>a b. a \<in> on_cycle N \<Longrightarrow> N a = Some b \<Longrightarrow> M (f a) = Some (f b)"
  shows "f x \<in> on_cycle M"
proof -
  have "(\<lambda>a b. N a = Some b)\<^sup>+\<^sup>+ x y \<Longrightarrow> (\<lambda>a b. M a = Some b)\<^sup>+\<^sup>+ (f x) (f y)" for y
  proof (induction rule: tranclp_induct)
    case (base y)
    then show ?case using assms by auto
  next
    case (step y z)
    have "y \<in> on_cycle N" using on_cycle_back [OF assms(1)] step.hyps(1) by (simp add: tranclp_into_rtranclp)
    then show ?case using step assms(2) by (meson tranclp.trancl_into_trancl)
  qed
  then show ?thesis using assms(1) by (simp add: on_cycle_def)
qed

lemma parent_of_cycles:
  assumes "distinct (map et_name es)"
  shows "on_cycle (parent_of (clear_undeclared es)) = on_cycle (parent_of es)"
proof (intro set_eqI iffI)
  fix x
  show "x \<in> on_cycle (parent_of es)" if "x \<in> on_cycle (parent_of (clear_undeclared es))"
    using on_cycle_transfer [OF that, of "parent_of es" "\<lambda>x. x"] parent_of_undeclared [OF assms] by simp
  have "b \<in> et_name ` set es" if "a \<in> on_cycle (parent_of es)" "parent_of es a = Some b" for a b
    using on_cycle_next on_cycle_back [OF that(1), of b] that(2) assms by (force simp: parent_of_iff)
  then show "x \<in> on_cycle (parent_of (clear_undeclared es))" if "x \<in> on_cycle (parent_of es)"
    using on_cycle_transfer [OF that, of "parent_of (clear_undeclared es)" "\<lambda>x. x"] parent_of_undeclared [OF assms] by simp
qed

lemma next_type_name:
  assumes "distinct (map et_name es)" "i < length es"
  shows "next_type es (index_of es) i = Some j \<longleftrightarrow> j < length es \<and> parent_of es (et_name (es ! i)) = Some (et_name (es ! j))"
proof -
  have p: "parent_of es (et_name (es ! i)) = et_parent (es ! i)" using assms by (intro parent_of_member) simp_all
  show ?thesis using assms p index_of_nth [OF assms(1)]
    by (auto simp: next_type_def bind_eq_Some_conv dest: index_of_Some)
qed

lemma next_type_cycles:
  assumes "distinct (map et_name es)" "i < length es" "\<forall>e \<in> set es. \<forall>p. et_parent e = Some p \<longrightarrow> p \<in> et_name ` set es"
  shows "i \<in> on_cycle (next_type es (index_of es)) \<longleftrightarrow> et_name (es ! i) \<in> on_cycle (parent_of es)"
proof
  assume "i \<in> on_cycle (next_type es (index_of es))"
  then show "et_name (es ! i) \<in> on_cycle (parent_of es)"
  proof (rule on_cycle_transfer)
    fix a b
    assume "next_type es (index_of es) a = Some b"
    then show "parent_of es (et_name (es ! a)) = Some (et_name (es ! b))"
      using next_type_name [OF assms(1), of a b] by (simp add: next_type_def split: if_splits)
  qed
next
  assume "et_name (es ! i) \<in> on_cycle (parent_of es)"
  then have "the (index_of es (et_name (es ! i))) \<in> on_cycle (next_type es (index_of es))"
  proof (rule on_cycle_transfer)
    fix a b
    assume "parent_of es a = Some b"
    then obtain k where k: "k < length es" "et_name (es ! k) = a" "et_parent (es ! k) = Some b"
      using assms(1) by (auto simp: parent_of_iff in_set_conv_nth)
    obtain j where j: "j < length es" "et_name (es ! j) = b" using assms(3) k by (metis (no_types, lifting) imageE in_set_conv_nth nth_mem)
    show "next_type es (index_of es) (the (index_of es a)) = Some (the (index_of es b))"
      using index_of_nth [OF assms(1) k(1)] index_of_nth [OF assms(1) j(1)] k j by (simp add: next_type_def)
  qed
  then show "i \<in> on_cycle (next_type es (index_of es))" using index_of_nth [OF assms(1,2)] by simp
qed

definition bad_parent :: "entity_type_def list \<Rightarrow> entity_type_def \<Rightarrow> bool" where
  "bad_parent es e \<longleftrightarrow> (\<exists>p. et_parent e = Some p \<and> p \<notin> et_name ` set es) \<or> et_name e \<in> on_cycle (parent_of es)"

lemma validate_exact:
  assumes "distinct (map et_name es)"
  shows "validate_and_clean_parents es = Some (map (\<lambda>e. if bad_parent es e then clear_parent e else e) es)"
proof -
  let ?es = "clear_undeclared es"
  obtain es2 where v: "validate_and_clean_parents es = Some es2" and c: "cleaned ?es (on_cycle (next_type ?es (index_of ?es))) es2"
    using validate_cleans by blast
  have decl: "\<forall>e \<in> set ?es. \<forall>p. et_parent e = Some p \<longrightarrow> p \<in> et_name ` set ?es"
    by (auto simp: in_set_conv_nth [of _ ?es] undeclared_nth split: if_splits)
  have "es2 ! i = (if bad_parent es (es ! i) then clear_parent (es ! i) else es ! i)" if "i < length es" for i
    using c that next_type_cycles [of ?es i] decl assms parent_of_cycles [OF assms]
    by (cases "\<exists>p. et_parent (es ! i) = Some p \<and> p \<notin> et_name ` set es") (auto simp: cleaned_def undeclared_nth bad_parent_def)
  then have "es2 = map (\<lambda>e. if bad_parent es e then clear_parent e else e) es"
    using c by (intro nth_equalityI) (simp_all add: cleaned_def)
  then show ?thesis using v by simp
qed

section \<open>The map of ancestors\<close>

definition ancestors_of :: "(rstr \<rightharpoonup> rstr) \<Rightarrow> rstr \<Rightarrow> rstr list" where
  "ancestors_of po c = the (push_ancestors po [] c)"

lemma acyclic_parents_wf:
  assumes "on_cycle po = {}" "finite (dom po)"
  shows "wf {(p, c). po c = Some p}"
proof -
  have "acyclic {(c, p). po c = Some p}"
    using assms(1) by (auto simp: acyclic_def on_cycle_def tranclp_unfold)
  moreover have "{(c, p). po c = Some p} \<subseteq> dom po \<times> ran po" by (auto simp: ran_def)
  then have "finite {(c, p). po c = Some p}" using assms(2) finite_subset by (metis finite_SigmaI finite_ran)
  moreover have "{(p, c). po c = Some p} = {(c, p). po c = Some p}\<inverse>" by auto
  ultimately show ?thesis by (simp add: finite_acyclic_wf_converse)
qed

lemma push_ancestors_wf:
  assumes "wf {(p, c). po c = Some p}"
  shows "\<exists>xs. \<forall>acc. push_ancestors po acc c = Some (acc @ xs)"
  using assms
proof (induction c rule: wf_induct_rule)
  case (less c)
  show ?case
  proof (cases "po c")
    case None
    then show ?thesis by (intro exI [of _ "[]"]) (simp add: push_ancestors.simps)
  next
    case (Some p)
    then obtain xs where "\<forall>acc. push_ancestors po acc p = Some (acc @ xs)" using less by blast
    then show ?thesis using Some by (intro exI [of _ "p # xs"]) (simp add: push_ancestors.simps [of po _ c])
  qed
qed

lemma push_ancestors_acyclic:
  assumes "on_cycle po = {}" "finite (dom po)"
  shows "push_ancestors po acc c = Some (acc @ ancestors_of po c)"
    and "ancestors_of po c = (case po c of None \<Rightarrow> [] | Some p \<Rightarrow> p # ancestors_of po p)"
proof -
  have p: "push_ancestors po acc c = Some (acc @ ancestors_of po c)" for acc c
    using push_ancestors_wf [OF acyclic_parents_wf [OF assms], of c] by (auto simp: ancestors_of_def)
  show "push_ancestors po acc c = Some (acc @ ancestors_of po c)" by (rule p)
  show "ancestors_of po c = (case po c of None \<Rightarrow> [] | Some p \<Rightarrow> p # ancestors_of po p)"
    using p [of "[]" c] p by (subst (asm) push_ancestors.simps) (auto split: option.splits)
qed

lemma ancestor_loop_acyclic:
  assumes "on_cycle po = {}" "finite (dom po)"
  shows "ancestor_loop po es m = Some (m ++ (\<lambda>n. if n \<in> et_name ` set es then Some (rev (ancestors_of po n)) else None))"
proof (induction es arbitrary: m)
  case (Cons e es)
  then show ?case using push_ancestors_acyclic(1) [OF assms, of "[]" "et_name e"] by (auto simp: map_add_def fun_eq_iff)
qed (simp add: map_add_def)

lemma cleaned_parent_of:
  assumes "distinct (map et_name es)"
  shows "parent_of (map (\<lambda>e. if bad_parent es e then clear_parent e else e) es) n = Some p \<longleftrightarrow>
    parent_of es n = Some p \<and> p \<in> et_name ` set es \<and> n \<notin> on_cycle (parent_of es)"
proof -
  let ?c = "\<lambda>e. if bad_parent es e then clear_parent e else e"
  have nm: "map et_name (map ?c es) = map et_name es" by simp
  have "et_name (?c e) = n \<and> et_parent (?c e) = Some p \<longleftrightarrow>
      (et_name e = n \<and> et_parent e = Some p) \<and> p \<in> et_name ` set es \<and> n \<notin> on_cycle (parent_of es)" if "e \<in> set es" for e
    by (auto simp: bad_parent_def)
  then have "(\<exists>e \<in> set es. et_name (?c e) = n \<and> et_parent (?c e) = Some p) \<longleftrightarrow>
      (\<exists>e \<in> set es. et_name e = n \<and> et_parent e = Some p) \<and> p \<in> et_name ` set es \<and> n \<notin> on_cycle (parent_of es)"
    by blast
  then show ?thesis unfolding parent_of_iff [OF assms] parent_of_iff [OF assms [folded nm]] set_map bex_simps .
qed

lemma cleaned_acyclic:
  assumes "distinct (map et_name es)"
  shows "on_cycle (parent_of (map (\<lambda>e. if bad_parent es e then clear_parent e else e) es)) = {}" (is "on_cycle ?P = {}")
proof -
  have "x \<notin> on_cycle ?P" for x
  proof
    assume x: "x \<in> on_cycle ?P"
    then have "x \<in> on_cycle (parent_of es)"
      using on_cycle_transfer [OF x, of "parent_of es" "\<lambda>x. x"] cleaned_parent_of [OF assms] by simp
    then show False using on_cycle_next [OF x] cleaned_parent_of [OF assms] by auto
  qed
  then show ?thesis by blast
qed

lemma finite_parent_of: "finite (dom (parent_of es))"
  by (simp add: parent_of_def finite_dom_map_of)

text \<open>C27: cleaning the parents and listing the ancestors.  When no type is declared twice, both loops end.  The
  cleaning clears the parents that are not declared and those of the types on cycles, and changes
  nothing else; the map then has an entry for exactly the declared types, empty for a type without
  a parent, and otherwise the list of the parent followed by the parent.\<close>

theorem ancestor_map_exact:
  assumes "distinct (map et_name es)"
  shows "\<exists>es2 m. validate_and_clean_parents es = Some es2 \<and> compute_ancestor_map es2 = Some m
    \<and> es2 = map (\<lambda>e. if bad_parent es e then e\<lparr>et_parent := None\<rparr> else e) es
    \<and> dom m = et_name ` set es
    \<and> (\<forall>e \<in> set es2. m (et_name e) = (case et_parent e of None \<Rightarrow> Some [] | Some p \<Rightarrow> map_option (\<lambda>a. a @ [p]) (m p)))"
proof -
  define es2 where "es2 = map (\<lambda>e. if bad_parent es e then clear_parent e else e) es"
  let ?P = "parent_of es2"
  have fin: "on_cycle ?P = {}" "finite (dom ?P)" using cleaned_acyclic [OF assms] finite_parent_of by (simp_all add: es2_def)
  have nm: "map et_name es2 = map et_name es" by (simp add: es2_def)
  have names: "et_name ` set es2 = et_name ` set es" using arg_cong [OF nm, of set] by simp
  have dist: "distinct (map et_name es2)" using assms nm by simp
  define m where "m = (\<lambda>n. if n \<in> et_name ` set es2 then Some (rev (ancestors_of ?P n)) else None)"
  have "compute_ancestor_map es2 = Some m"
    using ancestor_loop_acyclic [OF fin, of es2 Map.empty] by (simp add: compute_ancestor_map_def m_def)
  moreover have "m (et_name e) = (case et_parent e of None \<Rightarrow> Some [] | Some p \<Rightarrow> map_option (\<lambda>a. a @ [p]) (m p))" if e: "e \<in> set es2" for e
  proof -
    have "?P (et_name e) = et_parent e" by (rule parent_of_member [OF dist e])
    moreover have "p \<in> et_name ` set es2" if "et_parent e = Some p" for p
      using that cleaned_parent_of [OF assms, of "et_name e" p] calculation names by (simp add: es2_def)
    ultimately show ?thesis using push_ancestors_acyclic(2) [OF fin, of "et_name e"] e
      by (auto simp: m_def split: option.splits)
  qed
  moreover have "dom m = et_name ` set es" by (auto simp: m_def names dom_def)
  ultimately show ?thesis using validate_exact [OF assms] by (auto simp: es2_def clear_parent_def)
qed

text \<open>A name that is declared twice: the search for cycles looks at the last declaration, the map of parents at
  the last one that has a parent.  With \<open>a\<close> below \<open>b\<close>, \<open>b\<close> below \<open>a\<close> and a second \<open>a\<close> without
  parent, no cycle is found and the loop over the ancestors does not end.\<close>

lemma push_ancestors_ends: "push_ancestors po acc c = Some r \<Longrightarrow> \<exists>x. (\<lambda>a b. po a = Some b)\<^sup>*\<^sup>* c x \<and> po x = None"
proof (rule push_ancestors.raw_induct [where P = "\<lambda>po acc c r. \<exists>x. (\<lambda>a b. po a = Some b)\<^sup>*\<^sup>* c x \<and> po x = None", rotated])
  fix f and po :: "rstr \<rightharpoonup> rstr" and acc c and r :: "rstr list"
  assume "\<And>po acc c r. f po acc c = Some r \<Longrightarrow> \<exists>x. (\<lambda>a b. po a = Some b)\<^sup>*\<^sup>* c x \<and> po x = None"
    and "(case po c of None \<Rightarrow> Some acc | Some p \<Rightarrow> f po (acc @ [p]) p) = Some r"
  then show "\<exists>x. (\<lambda>a b. po a = Some b)\<^sup>*\<^sup>* c x \<and> po x = None"
    by (cases "po c") (auto intro: converse_rtranclp_into_rtranclp, blast intro: converse_rtranclp_into_rtranclp)
qed

definition twice_file :: ontology_file where
  "twice_file =
     (let t = (\<lambda>n p. \<lparr>etr_name = n, etr_description = None, etr_parent = p, etr_identity = False, etr_extract = True\<rparr>)
      in \<lparr>of_mode = None, of_entity_types = [t (lit ''Aa'') (Some (lit ''Bb'')), t (lit ''Bb'') (Some (lit ''Aa'')), t (lit ''Aa'') None],
          of_relation_types = []\<rparr>)"

lemma twice_file_diverges: "build_ontology ascii_ucd twice_file mode = None"
proof -
  define es where "es = List.map_filter (build_entity_type ascii_ucd) (of_entity_types twice_file)"
  let ?t = "\<lambda>n p. \<lparr>et_name = n, et_description = None, et_parent = p, et_identity = False, et_extract = True\<rparr>"
  have es: "es = [?t (lit ''Aa'') (Some (lit ''Bb'')), ?t (lit ''Bb'') (Some (lit ''Aa'')), ?t (lit ''Aa'') None]"
    by (simp add: es_def twice_file_def Let_def map_filter_simps build_entity_type_def normalize_entity_type_def split_words_def is_word_sep_def
        word_break_def capitalise_def ascii_ucd_def ascii_upper_def ascii_lower_def)
  have und: "clear_undeclared es = es" by (simp add: es clear_undeclared_def)
  have ix: "index_of es (lit ''Aa'') = Some 2" "index_of es (lit ''Bb'') = Some 1" by (simp_all add: es index_of_def upt_rec)
  have "clean_cycles (index_of es) [0..<length es] (es, {}) = Some (es, {0, 1, 2})"
    using ix by (simp add: es upt_rec follow_parents.simps insert_commute)
  then have v: "validate_and_clean_parents es = Some es" by (simp add: validate_and_clean_parents_def und)
  have po: "parent_of es (lit ''Aa'') = Some (lit ''Bb'')" "parent_of es (lit ''Bb'') = Some (lit ''Aa'')"
    by (simp_all add: es parent_of_def map_filter_simps)
  have "x \<in> {lit ''Aa'', lit ''Bb''}" if "(\<lambda>a b. parent_of es a = Some b)\<^sup>*\<^sup>* (lit ''Aa'') x" for x
    using that by (induction rule: rtranclp_induct) (use po in auto)
  then have "push_ancestors (parent_of es) [] (lit ''Aa'') = None"
    using push_ancestors_ends [of "parent_of es" "[]" "lit ''Aa''"] po by (cases "push_ancestors (parent_of es) [] (lit ''Aa'')") force+
  then have "compute_ancestor_map es = None" by (simp add: compute_ancestor_map_def es)
  then show ?thesis using v by (simp add: build_ontology_def es_def [symmetric])
qed

section \<open>Normal forms of type names\<close>

definition ascii_case_ok :: "ucd \<Rightarrow> bool" where
  "ascii_case_ok U \<longleftrightarrow> (\<forall>c < 128. ucd_upper U c = [ascii_upper c] \<and> ucd_uppercase U c = (65 \<le> c \<and> c \<le> 90) \<and> ucd_lowercase U c = (97 \<le> c \<and> c \<le> 122))"

definition caps_word :: "rstr \<Rightarrow> bool" where
  "caps_word w \<longleftrightarrow> w \<noteq> [] \<and> (\<forall>c \<in> set w. c < 128 \<and> \<not> is_word_sep c \<and> \<not> (97 \<le> c \<and> c \<le> 122))"

lemma split_words_loop_words:
  "\<forall>c \<in> set cur. P c \<and> \<not> is_word_sep c \<Longrightarrow> \<forall>c \<in> set s. P c \<Longrightarrow>
     w \<in> set (split_words_loop U cur s) \<Longrightarrow> w \<noteq> [] \<and> (\<forall>c \<in> set w. P c \<and> \<not> is_word_sep c)"
proof (induction s arbitrary: cur)
  case Nil
  then show ?case by (simp split: if_splits)
next
  case (Cons c s)
  consider (sep) "is_word_sep c" "w = cur \<and> cur \<noteq> [] \<or> w \<in> set (split_words_loop U [] s)"
    | (brk) "\<not> is_word_sep c" "word_break U cur c s" "w = cur \<or> w \<in> set (split_words_loop U [c] s)"
    | (more) "\<not> is_word_sep c" "w \<in> set (split_words_loop U (cur @ [c]) s)"
    using Cons.prems(3) by (simp split: if_splits)
  then show ?case
  proof cases
    case sep
    from sep(2) show ?thesis using Cons.IH [of "[]"] Cons.prems(1,2) by (elim disjE) simp_all
  next
    case brk
    from brk(3) show ?thesis using Cons.IH [of "[c]"] Cons.prems(1,2) brk(1,2) by (elim disjE) (simp_all add: word_break_def)
  next
    case more
    show ?thesis by (rule Cons.IH [OF _ _ more(2)]) (use Cons.prems(1,2) more(1) in auto)
  qed
qed

lemma to_uppercase_ascii: "ascii_case_ok U \<Longrightarrow> \<forall>c \<in> set w. c < 128 \<Longrightarrow> to_uppercase U w = map ascii_upper w"
  by (induction w) (simp_all add: to_uppercase_def ascii_case_ok_def)

lemma ascii_upper_caps:
  "c < 128 \<Longrightarrow> \<not> is_word_sep c \<Longrightarrow> ascii_upper c < 128 \<and> \<not> is_word_sep (ascii_upper c) \<and> \<not> (97 \<le> ascii_upper c \<and> ascii_upper c \<le> 122)"
  by (auto simp: ascii_upper_def is_word_sep_def)

lemma caps_word_upper:
  assumes "ascii_case_ok U" "w \<noteq> []" "\<forall>c \<in> set w. c < 128 \<and> \<not> is_word_sep c"
  shows "caps_word (to_uppercase U w)"
  using assms to_uppercase_ascii [of U w] ascii_upper_caps by (simp add: caps_word_def)

lemma upper_caps_word: "ascii_case_ok U \<Longrightarrow> caps_word w \<Longrightarrow> to_uppercase U w = w"
  using to_uppercase_ascii [of U w] by (auto simp: caps_word_def ascii_upper_def intro!: map_idI)

lemma split_caps:
  assumes U: "ascii_case_ok U" and "\<forall>c \<in> set w. c < 128 \<and> \<not> is_word_sep c \<and> \<not> (97 \<le> c \<and> c \<le> 122)"
    and "\<forall>c \<in> set cur. c < 128 \<and> \<not> (97 \<le> c \<and> c \<le> 122)" and "rest \<noteq> [] \<longrightarrow> hd rest = 95"
  shows "split_words_loop U cur (w @ rest) = split_words_loop U (cur @ w) rest"
  using assms(2-)
proof (induction w arbitrary: cur)
  case (Cons c w)
  have "\<not> ucd_lowercase U (last cur)" if "cur \<noteq> []" using U Cons.prems(2) that by (auto simp: ascii_case_ok_def)
  moreover have "\<not> ucd_lowercase U (hd (w @ rest))" if "w @ rest \<noteq> []"
    using U Cons.prems(1,3) that by (cases w) (auto simp: ascii_case_ok_def)
  ultimately have "\<not> word_break U cur c (w @ rest)" by (auto simp: word_break_def)
  then show ?case using Cons by simp
qed simp

lemma split_join_caps:
  "ascii_case_ok U \<Longrightarrow> \<forall>w \<in> set ws. caps_word w \<Longrightarrow> split_words U (str_join (lit ''_'') ws) = ws"
proof (induction ws rule: induct_list012)
  case (2 w)
  then show ?case using split_caps [of U w "[]" "[]"] by (simp add: split_words_def caps_word_def)
next
  case (3 w v ws)
  have "split_words U (str_join (lit ''_'') (w # v # ws)) = split_words_loop U w (95 # str_join (lit ''_'') (v # ws))"
    using split_caps [of U w "[]" "95 # str_join (lit ''_'') (v # ws)"] 3 by (simp add: split_words_def caps_word_def)
  then show ?case using 3 by (simp add: split_words_def is_word_sep_def caps_word_def)
qed (simp add: split_words_def)

text \<open>Relation type names have one normal form.  For a name in ASCII, normalising a normalised name changes nothing, so a
  stored relation type is found again under its own name; words are split at separators and at
  changes of case and joined by underscores.\<close>

lemma normalize_relation_type_idem:
  assumes U: "ascii_case_ok U" and s: "\<forall>c \<in> set s. c < 128"
  shows "normalize_relation_type U (normalize_relation_type U s) = normalize_relation_type U s"
proof -
  have "w \<noteq> [] \<and> (\<forall>c \<in> set w. c < 128 \<and> \<not> is_word_sep c)" if "w \<in> set (split_words U s)" for w
    using split_words_loop_words [of "[]" "\<lambda>c. c < 128" s w U] s that by (simp add: split_words_def)
  then have W: "\<forall>w \<in> set (map (to_uppercase U) (split_words U s)). caps_word w" using caps_word_upper [OF U] by simp
  have "map (to_uppercase U) (map (to_uppercase U) (split_words U s)) = map (to_uppercase U) (split_words U s)"
    by (rule map_idI) (rule upper_caps_word [OF U bspec [OF W]])
  then show ?thesis using split_join_caps [OF U W] by (simp add: normalize_relation_type_def del: map_map)
qed

theorem normalize_relation_type_idem_witness:
  "normalize_relation_type ascii_ucd (normalize_relation_type ascii_ucd (lit ''worksFor the'')) = lit ''WORKS_FOR_THE''"
proof -
  have "ascii_case_ok ascii_ucd" by (simp add: ascii_case_ok_def ascii_ucd_def)
  then have "normalize_relation_type ascii_ucd (normalize_relation_type ascii_ucd (lit ''worksFor the'')) = normalize_relation_type ascii_ucd (lit ''worksFor the'')"
    by (rule normalize_relation_type_idem) simp
  then show ?thesis
    by (simp add: normalize_relation_type_def split_words_def word_break_def is_word_sep_def ascii_ucd_def ascii_upper_def to_uppercase_def)
qed

text \<open>Entity type names have no such normal form: two words of one letter run together.\<close>

lemma normalize_entity_type_twice:
  "normalize_entity_type ascii_ucd (lit ''a_b'') = lit ''AB''" "normalize_entity_type ascii_ucd (lit ''AB'') = lit ''Ab''"
  by (simp_all add: normalize_entity_type_def split_words_def word_break_def is_word_sep_def capitalise_def ascii_ucd_def ascii_upper_def ascii_lower_def)

theorem ancestor_map_exact_witness:
  "\<exists>es2 m. validate_and_clean_parents [\<lparr>et_name = [65], et_description = None, et_parent = Some [66], et_identity = False, et_extract = True\<rparr>,
       \<lparr>et_name = [66], et_description = None, et_parent = Some [67], et_identity = False, et_extract = True\<rparr>] = Some es2
     \<and> compute_ancestor_map es2 = Some m \<and> dom m = {[65], [66]}"
  using ancestor_map_exact [of "[\<lparr>et_name = [65], et_description = None, et_parent = Some [66], et_identity = False, et_extract = True\<rparr>,
       \<lparr>et_name = [66], et_description = None, et_parent = Some [67], et_identity = False, et_extract = True\<rparr>]"] by auto

end
