(* ===== verification/OntologyDrift.thy ===== *)
theory OntologyDrift
  imports Ontology WalSafety WalBounds "HOL-Library.Countable"
begin

text \<open>
  The content hash of an ontology (\<^verbatim>\<open>ontology.rs\<close>) and the record of the ontology that data was ingested
  with (\<^verbatim>\<open>ontology_sidecar.rs\<close>).  The digest and the JSON serialiser are parameters.  The theorems: the
  hash does not depend on the order of declarations; right after a record was written, drift is
  reported exactly when the hash differs, adding or removing an ontology always counts, and the
  record of one group does not touch another.
\<close>

section \<open>The content hash\<close>

definition opt_text :: "rstr option \<Rightarrow> rstr" where
  "opt_text t = (case t of None \<Rightarrow> [] | Some x \<Rightarrow> x)"

definition NUL :: rstr where
  "NUL = [0]"

definition entity_entry :: "entity_type_def \<Rightarrow> rstr" where
  "entity_entry e = et_name e @ NUL @ opt_text (et_description e)"

definition relation_entry :: "relation_type_def \<Rightarrow> rstr" where
  "relation_entry r = rt_name r @ NUL @ opt_text (rt_source_type r) @ NUL @ opt_text (rt_target_type r) @ NUL
     @ opt_text (rt_description r) @ NUL @ str_join NUL (sort (rt_aliases r)) @ NUL @ str_join NUL (sort (rt_keywords r))"

definition parent_entries :: "ontology \<Rightarrow> rstr list" where
  "parent_entries on = List.map_filter (\<lambda>e. map_option (\<lambda>p. et_name e @ NUL @ p) (et_parent e)) (on_entity_types on)"

definition join_entries :: "rstr list \<Rightarrow> rstr" where
  "join_entries xs = str_join (NUL @ NUL) xs"

definition canonical_text :: "ontology \<Rightarrow> rstr" where
  "canonical_text on =
     (let ef = sort (map et_name (filter (\<lambda>e. \<not> et_extract e) (on_entity_types on)));
          rf = sort (map rt_name (filter (\<lambda>r. \<not> rt_extract r) (on_relation_types on)))
      in lit ''mode:'' @ show_mode (on_mode on)
         @ [10] @ lit ''entity_types:'' @ join_entries (sort (map entity_entry (on_entity_types on)))
         @ [10] @ lit ''relation_types:'' @ join_entries (sort (map relation_entry (on_relation_types on)))
         @ (if sort (parent_entries on) = [] then [] else [10] @ lit ''parent_edges:'' @ join_entries (sort (parent_entries on)))
         @ (if identity_set on = [] then [] else [10] @ lit ''identity:'' @ join_entries (identity_set on))
         @ (if ef = [] \<and> rf = [] then []
            else [10] @ lit ''extract_false:'' @ join_entries ef @ [10] @ lit ''extract_false_relations:'' @ join_entries rf))"

definition sha256_hex :: "(bytes \<Rightarrow> bytes) \<Rightarrow> bytes \<Rightarrow> rstr" where
  "sha256_hex H data = to_hex (H data)"

definition content_hash :: "(bytes \<Rightarrow> bytes) \<Rightarrow> ontology option \<Rightarrow> rstr" where
  "content_hash H ontology =
     (case ontology of None \<Rightarrow> lit ''none'' | Some on \<Rightarrow> sha256_hex H (as_bytes (canonical_text on)))"

section \<open>Sidecars\<close>

record ontology_sidecar =
  sc_hash :: rstr
  sc_mode :: "rstr option"
  sc_entity_types :: "rstr list"
  sc_relation_types :: "rstr list"

record sc_codec =
  sc_print :: "ontology_sidecar \<Rightarrow> rstr"
  sc_parse :: "rstr \<Rightarrow> ontology_sidecar option"

definition sc_ok :: "sc_codec \<Rightarrow> bool" where
  "sc_ok c \<longleftrightarrow> (\<forall>s. valid_str (sc_print c s) \<and> sc_parse c (sc_print c s) = Some s)"

definition sidecar_of :: "(bytes \<Rightarrow> bytes) \<Rightarrow> ontology option \<Rightarrow> ontology_sidecar" where
  "sidecar_of H ontology =
     \<lparr>sc_hash = content_hash H ontology, sc_mode = map_option (\<lambda>on. show_mode (on_mode on)) ontology,
      sc_entity_types = (case ontology of None \<Rightarrow> [] | Some on \<Rightarrow> map et_name (on_entity_types on)),
      sc_relation_types = (case ontology of None \<Rightarrow> [] | Some on \<Rightarrow> map rt_name (on_relation_types on))\<rparr>"

definition sidecar_path :: "path \<Rightarrow> path" where
  "sidecar_path workspace_root = workspace_root @ [lit ''.lcg'', lit ''ontology-hash.json'']"

definition group_sidecar_path :: "path \<Rightarrow> rstr \<Rightarrow> path result" where
  "group_sidecar_path workspace_root group_id =
     rbind (encode_group_dir_name group_id) (\<lambda>encoded.
       Inr (workspace_root @ [lit ''.lcg'', lit ''ontology-hash'', encoded @ lit ''.json'']))"

definition WAL_ONTOLOGY_FILE :: rstr where
  "WAL_ONTOLOGY_FILE = lit ''.wal-ontology.json''"

definition wal_ontology_path :: "path \<Rightarrow> path" where
  "wal_ontology_path wal_dir = wal_dir @ [WAL_ONTOLOGY_FILE]"

definition read_record :: "sc_codec \<Rightarrow> fsys \<Rightarrow> path \<Rightarrow> ontology_sidecar option" where
  "read_record c fs p = Option.bind (read_text fs p) (sc_parse c)"

definition read_sidecar :: "sc_codec \<Rightarrow> fsys \<Rightarrow> path \<Rightarrow> ontology_sidecar option" where
  "read_sidecar c fs workspace_root = read_record c fs (sidecar_path workspace_root)"

definition read_group_sidecar :: "sc_codec \<Rightarrow> fsys \<Rightarrow> path \<Rightarrow> rstr \<Rightarrow> ontology_sidecar option" where
  "read_group_sidecar c fs workspace_root group_id =
     (case group_sidecar_path workspace_root group_id of Inl _ \<Rightarrow> None | Inr p \<Rightarrow> read_record c fs p)"

definition read_wal_ontology_sidecar :: "sc_codec \<Rightarrow> fsys \<Rightarrow> path \<Rightarrow> ontology_sidecar option" where
  "read_wal_ontology_sidecar c fs wal_dir = read_record c fs (wal_ontology_path wal_dir)"

text \<open>\<^verbatim>\<open>with_extension\<close> replaces what follows the last dot of the file name.\<close>

definition with_extension :: "path \<Rightarrow> rstr \<Rightarrow> path" where
  "with_extension p ext =
     (let n = last p; stem = (if extension n = None then n else rev (tl (dropWhile (\<lambda>c. c \<noteq> 46) (rev n))))
      in butlast p @ [stem @ [46] @ ext])"

definition publish :: "path \<Rightarrow> path \<Rightarrow> bytes \<Rightarrow> fsys \<Rightarrow> fsys \<times> unit result" where
  "publish tmp p b fs =
     (case write_tmp tmp b fs of
        Inl e \<Rightarrow> (fs, Inl e)
      | Inr fs1 \<Rightarrow> (case rename tmp p fs1 of Inl e \<Rightarrow> (fs1, Inl e) | Inr fs2 \<Rightarrow> (fs2, Inr ())))"

definition write_record :: "sc_codec \<Rightarrow> path \<Rightarrow> path \<Rightarrow> path \<Rightarrow> ontology_sidecar \<Rightarrow> fsys \<Rightarrow> fsys \<times> unit result" where
  "write_record c dir tmp p s fs =
     (case create_dir_all dir fs of
        Inl e \<Rightarrow> (fs, Inl e)
      | Inr fs1 \<Rightarrow> publish tmp p (as_bytes (sc_print c s)) fs1)"

definition write_sidecar ::
  "(bytes \<Rightarrow> bytes) \<Rightarrow> sc_codec \<Rightarrow> path \<Rightarrow> ontology option \<Rightarrow> fsys \<Rightarrow> fsys \<times> unit result" where
  "write_sidecar H c workspace_root ontology fs =
     (let p = sidecar_path workspace_root in
      write_record c (workspace_root @ [lit ''.lcg'']) (with_extension p (lit ''json.tmp'')) p (sidecar_of H ontology) fs)"

definition write_group_sidecar ::
  "(bytes \<Rightarrow> bytes) \<Rightarrow> sc_codec \<Rightarrow> rstr \<Rightarrow> path \<Rightarrow> rstr \<Rightarrow> ontology option \<Rightarrow> fsys \<Rightarrow> fsys \<times> unit result" where
  "write_group_sidecar H c uuid workspace_root group_id ontology fs =
     (case group_sidecar_path workspace_root group_id of
        Inl e \<Rightarrow> (fs, Inl e)
      | Inr p \<Rightarrow> write_record c (butlast p) (with_extension p (lit ''json.'' @ uuid @ lit ''.tmp'')) p (sidecar_of H ontology) fs)"

definition write_wal_ontology_sidecar ::
  "(bytes \<Rightarrow> bytes) \<Rightarrow> sc_codec \<Rightarrow> rstr \<Rightarrow> path \<Rightarrow> ontology option \<Rightarrow> fsys \<Rightarrow> fsys \<times> unit result" where
  "write_wal_ontology_sidecar H c uuid wal_dir ontology fs =
     (let p = wal_ontology_path wal_dir in
      write_record c wal_dir (with_extension p (lit ''json.'' @ uuid @ lit ''.tmp'')) p (sidecar_of H ontology) fs)"

section \<open>Drift\<close>

definition added_text :: "ontology \<Rightarrow> rstr" where
  "added_text on = lit ''ontology added: '' @ show_nat (length (on_entity_types on)) @ lit '' entity types, ''
     @ show_nat (length (on_relation_types on)) @ lit '' relation types''"

definition list_change :: "rstr \<Rightarrow> rstr set \<Rightarrow> rstr list" where
  "list_change what xs = (if xs = {} then [] else [what @ lit '': ['' @ str_join (lit '', '') (sorted_list_of_set xs) @ lit '']''])"

definition build_drift_summary :: "ontology_sidecar \<Rightarrow> ontology option \<Rightarrow> rstr" where
  "build_drift_summary sidecar current =
     (case current of
        Some on \<Rightarrow>
          if sc_hash sidecar = lit ''none'' then added_text on
          else
            (let prev_e = set (sc_entity_types sidecar); prev_r = set (sc_relation_types sidecar);
                 cur_e = entity_type_names on; cur_r = relation_type_names on;
                 mode_part = (if sc_mode sidecar \<noteq> Some (show_mode (on_mode on))
                    then [lit ''mode changed: '' @ (case sc_mode sidecar of None \<Rightarrow> lit ''none'' | Some m \<Rightarrow> m) @ [32, 8594, 32] @ show_mode (on_mode on)]
                    else []);
                 parts = mode_part @ list_change (lit ''entity types added'') (cur_e - prev_e)
                   @ list_change (lit ''entity types removed'') (prev_e - cur_e)
                   @ list_change (lit ''relation types added'') (cur_r - prev_r)
                   @ list_change (lit ''relation types removed'') (prev_r - cur_r)
             in if parts = [] then lit ''descriptions or structure updated'' else str_join (lit ''; '') parts)
      | None \<Rightarrow>
          if sc_hash sidecar \<noteq> lit ''none''
          then lit ''ontology removed (was '' @ show_nat (length (sc_entity_types sidecar)) @ lit '' entity types, ''
                 @ show_nat (length (sc_relation_types sidecar)) @ lit '' relation types)''
          else
            (let mode_part = (case sc_mode sidecar of None \<Rightarrow> [] | Some m \<Rightarrow> [lit ''mode changed: '' @ m @ [32, 8594, 32] @ lit ''none'']);
                 parts = mode_part @ list_change (lit ''entity types removed'') (set (sc_entity_types sidecar))
                   @ list_change (lit ''relation types removed'') (set (sc_relation_types sidecar))
             in if parts = [] then lit ''descriptions or structure updated'' else str_join (lit ''; '') parts))"

definition compute_drift_from_sidecar ::
  "(bytes \<Rightarrow> bytes) \<Rightarrow> ontology_sidecar option \<Rightarrow> ontology option \<Rightarrow> bool \<Rightarrow> bool \<times> rstr option" where
  "compute_drift_from_sidecar H sidecar ontology has_prior_data =
     (case sidecar of
        None \<Rightarrow>
          (case ontology of
             Some on \<Rightarrow> if has_prior_data then (True, Some (added_text on)) else (False, None)
           | None \<Rightarrow> (False, None))
      | Some s \<Rightarrow>
          if content_hash H ontology = sc_hash s then (False, None)
          else (True, Some (build_drift_summary s ontology)))"

definition compute_drift ::
  "(bytes \<Rightarrow> bytes) \<Rightarrow> sc_codec \<Rightarrow> fsys \<Rightarrow> path option \<Rightarrow> ontology option \<Rightarrow> bool \<Rightarrow> bool \<times> rstr option" where
  "compute_drift H c fs workspace_root ontology has_prior_data =
     (case workspace_root of
        None \<Rightarrow> (False, None)
      | Some root \<Rightarrow> compute_drift_from_sidecar H (read_sidecar c fs root) ontology has_prior_data)"

definition compute_group_drift ::
  "(bytes \<Rightarrow> bytes) \<Rightarrow> sc_codec \<Rightarrow> fsys \<Rightarrow> path option \<Rightarrow> rstr \<Rightarrow> ontology option \<Rightarrow> bool \<Rightarrow> bool \<times> rstr option" where
  "compute_group_drift H c fs workspace_root group_id ontology has_prior_data =
     (case workspace_root of
        None \<Rightarrow> (False, None)
      | Some root \<Rightarrow> compute_drift_from_sidecar H (read_group_sidecar c fs root group_id) ontology has_prior_data)"

section \<open>The hash and the order of declarations\<close>

definition canonical_relation :: "relation_type_def \<Rightarrow> relation_type_def" where
  "canonical_relation r = r\<lparr>rt_aliases := sort (rt_aliases r), rt_keywords := sort (rt_keywords r)\<rparr>"

lemma sort_mset_cong: "mset xs = mset ys \<Longrightarrow> sort xs = sort ys" for xs ys :: "rstr list"
  by (metis properties_for_sort sorted_sort mset_sort)

lemma mset_map_filter: "mset xs = mset ys \<Longrightarrow> mset (List.map_filter f xs) = mset (List.map_filter f ys)"
  by (simp add: List.map_filter_def)

lemma relation_entry_canonical: "relation_entry (canonical_relation r) = relation_entry r"
  by (simp add: relation_entry_def canonical_relation_def sorted_sort_id)


text \<open>Different ontologies can have the same hash whatever the digest: the lists of aliases and of keywords are
  joined by the character that separates them from each other.\<close>

definition clash :: "rstr list \<Rightarrow> rstr list \<Rightarrow> ontology" where
  "clash aliases keywords = \<lparr>on_mode = OpenMode, on_entity_types = [],
     on_relation_types = [\<lparr>rt_name = lit ''R'', rt_description = None, rt_source_type = None, rt_target_type = None,
       rt_aliases = aliases, rt_keywords = keywords, rt_extract = True\<rparr>], on_ancestor_map = Map.empty\<rparr>"

lemma content_hash_clash:
  "content_hash H (Some (clash [lit ''1'', lit ''2''] [lit ''3''])) = content_hash H (Some (clash [lit ''1''] [lit ''2'', lit ''3'']))"
proof -
  have "relation_entry (hd (on_relation_types (clash [lit ''1'', lit ''2''] [lit ''3''])))
      = relation_entry (hd (on_relation_types (clash [lit ''1''] [lit ''2'', lit ''3''])))"
    by (simp add: clash_def relation_entry_def)
  then show ?thesis by (simp add: content_hash_def canonical_text_def clash_def parent_entries_def identity_set_def map_filter_simps)
qed

section \<open>Writing and reading a record\<close>

lemma rename_onto:
  assumes "rename src dst fs = Inr fs'" "\<not> prefix src dst"
  shows "fs_get fs' dst = fs_get fs src"
proof -
  have mv: "move_path src dst q = dst \<longleftrightarrow> q = src \<or> q = dst" for q
    using assms(2) by (auto simp: move_path_def prefix_def) (metis append_take_drop_id self_append_conv)
  then have mv': "dst = move_path src dst q \<longleftrightarrow> q = src \<or> q = dst" for q by metis
  have mv_map: "map_of (map (\<lambda>(q, n). (move_path src dst q, n)) xs) dst = map_of xs src" if "map_of xs dst = None" for xs :: fsys
    using that by (induction xs) (auto simp: mv' split: if_splits)
  have fs': "fs' = map (\<lambda>(q, n). (move_path src dst q, n)) (fs_del dst fs)"
    using assms(1) by (auto simp: rename_def split: if_splits)
  have del: "map_of (fs_del dst fs) = (map_of fs)(dst := None)" using fs_get_del [of dst fs] by (simp add: fs_get_def [abs_def])
  have "src \<noteq> dst" using assms(2) by auto
  then show ?thesis using mv_map [of "fs_del dst fs"] by (simp add: fs' fs_get_def del)
qed

lemma publish_spec:
  assumes "publish tmp p b fs = (fs', Inr ())" "\<not> prefix tmp p"
  shows "read_file fs' p = Inr b" and "\<not> prefix tmp k \<Longrightarrow> \<not> prefix p k \<Longrightarrow> fs_get fs' k = fs_get fs k"
proof -
  obtain fs1 where w: "write_tmp tmp b fs = Inr fs1" and r: "rename tmp p fs1 = Inr fs'"
    using assms(1) by (auto simp: publish_def split: sum.splits)
  have fs1: "fs1 = fs_put tmp (File b) fs" using w by (auto simp: write_tmp_def split: if_splits)
  show "read_file fs' p = Inr b" using rename_onto [OF r assms(2)] by (simp add: fs1 read_file_def)
  show "fs_get fs' k = fs_get fs k" if "\<not> prefix tmp k" "\<not> prefix p k"
    using rename_other [OF r that] that(1) by (auto simp: fs1)
qed

lemma write_record_spec:
  assumes "write_record c dir tmp p s fs = (fs', Inr ())" "sc_ok c" "\<not> prefix tmp p"
  shows "read_record c fs' p = Some s"
    and "\<not> prefix tmp k \<Longrightarrow> \<not> prefix p k \<Longrightarrow> \<not> prefix k dir \<Longrightarrow> read_record c fs' k = read_record c fs k"
proof -
  obtain fs1 where d: "create_dir_all dir fs = Inr fs1" and pub: "publish tmp p (as_bytes (sc_print c s)) fs1 = (fs', Inr ())"
    using assms(1) by (auto simp: write_record_def split: sum.splits)
  have "from_utf8 (as_bytes (sc_print c s)) = Some (sc_print c s)" using assms(2) by (simp add: sc_ok_def from_utf8_as_bytes)
  then show "read_record c fs' p = Some s"
    using publish_spec(1) [OF pub assms(3)] assms(2) by (simp add: read_record_def read_text_def sc_ok_def)
  show "read_record c fs' k = read_record c fs k" if "\<not> prefix tmp k" "\<not> prefix p k" "\<not> prefix k dir"
  proof -
    have "fs_get fs1 k = fs_get fs k"
    proof (rule mkdirs_frame [OF d [unfolded create_dir_all_def]])
      show "k \<notin> set (tl (prefixes dir))" using that(3) by (metis in_set_prefixes list.sel(2) list.set_sel(2))
    qed
    then show ?thesis using publish_spec(2) [OF pub assms(3) that(1,2)] by (simp add: read_record_def read_text_def read_file_def)
  qed
qed

section \<open>Drift after writing\<close>

definition digest_bytes :: "(bytes \<Rightarrow> bytes) \<Rightarrow> bool" where
  "digest_bytes H \<longleftrightarrow> (\<forall>x. \<forall>b \<in> set (H x). b < 256)"

lemma content_hash_some:
  assumes "digest_bytes H"
  shows "content_hash H (Some on) \<noteq> lit ''none''"
proof -
  have "d < 16 \<Longrightarrow> hex_lower d \<noteq> 110" for d by (auto simp: hex_lower_def)
  then have "110 \<notin> set (to_hex bs)" if "\<forall>b \<in> set bs. b < 256" for bs
    using that by (fastforce simp: to_hex_def less_mult_imp_div_less)
  then have "110 \<notin> set (content_hash H (Some on))" using assms by (simp add: content_hash_def sha256_hex_def digest_bytes_def)
  then show ?thesis by auto
qed

lemma drift_of_record:
  assumes "digest_bytes H"
  shows "fst (compute_drift_from_sidecar H (Some (sidecar_of H on)) on' prior) \<longleftrightarrow> content_hash H on' \<noteq> content_hash H on"
    and "(on = None) \<noteq> (on' = None) \<Longrightarrow> content_hash H on' \<noteq> content_hash H on"
  using content_hash_some [OF assms]
  by (simp_all add: compute_drift_from_sidecar_def sidecar_of_def) (cases on; cases on'; force simp: content_hash_def)

lemma sidecar_tmp: "with_extension (sidecar_path root) ext = root @ [lit ''.lcg'', lit ''ontology-hash.'' @ ext]"
  by (simp add: with_extension_def sidecar_path_def extension_def butlast_append Let_def)

lemma group_sidecar_tmp:
  assumes "valid_str g" "encode_group_dir_name g = Inr d"
  shows "with_extension (root @ [lit ''.lcg'', lit ''ontology-hash'', d @ lit ''.json'']) ext
    = root @ [lit ''.lcg'', lit ''ontology-hash'', d @ lit ''.'' @ ext]"
proof -
  have "d \<noteq> []" using encode_safe_chars [OF assms] by simp
  then show ?thesis by (simp add: with_extension_def extension_def butlast_append Let_def)
qed

lemma encode_no_dot: "valid_str g \<Longrightarrow> encode_group_dir_name g = Inr d \<Longrightarrow> 46 \<notin> set d"
  using encode_safe_chars [of g d] by (auto simp: safe_char_def is_ascii_alphanumeric_def is_ascii_alphabetic_def is_ascii_digit_def)

lemma dotless: "46 \<notin> set a \<Longrightarrow> 46 \<notin> set b \<Longrightarrow> a @ 46 # x = b @ 46 # y \<Longrightarrow> a = b" for a b :: rstr
proof -
  have "takeWhile (\<lambda>c. c \<noteq> 46) (c @ 46 # z) = c" if "46 \<notin> set c" for c z :: rstr using that by (induction c) auto
  then show "46 \<notin> set a \<Longrightarrow> 46 \<notin> set b \<Longrightarrow> a @ 46 # x = b @ 46 # y \<Longrightarrow> a = b" by metis
qed

text \<open>What the drift report says.  After the record of a group was written, the report for the group is positive
  exactly when the hash of the current ontology differs from the recorded one, whatever else is
  known about the group; an ontology that was added or removed since always counts.  Writing the
  record changes neither the report of any other group nor that of the workspace.\<close>

lemma group_drift_exact:
  assumes "digest_bytes H" "sc_ok c" and g: "valid_str g" "encode_group_dir_name g = Inr d"
    and w: "write_group_sidecar H c u root g on fs = (fs', Inr ())"
  shows "(fst (compute_group_drift H c fs' (Some root) g on' prior) \<longleftrightarrow> content_hash H on' \<noteq> content_hash H on)
    \<and> ((on = None) \<noteq> (on' = None) \<longrightarrow> fst (compute_group_drift H c fs' (Some root) g on' prior))
    \<and> (\<forall>h. valid_str h \<longrightarrow> h \<noteq> g \<longrightarrow> compute_group_drift H c fs' (Some root) h on' prior = compute_group_drift H c fs (Some root) h on' prior)
    \<and> compute_drift H c fs' (Some root) on' prior = compute_drift H c fs (Some root) on' prior"
proof -
  let ?p = "root @ [lit ''.lcg'', lit ''ontology-hash'', d @ lit ''.json'']"
  let ?t = "root @ [lit ''.lcg'', lit ''ontology-hash'', d @ lit ''.json.'' @ u @ lit ''.tmp'']"
  have path: "group_sidecar_path root g = Inr ?p" using g(2) by (simp add: group_sidecar_path_def)
  have "with_extension ?p (lit ''json.'' @ u @ lit ''.tmp'') = ?t" using group_sidecar_tmp [OF g] by simp
  then have wr: "write_record c (butlast ?p) ?t ?p (sidecar_of H on) fs = (fs', Inr ())"
    using w path by (simp add: write_group_sidecar_def)
  have np: "\<not> prefix ?t ?p" by simp
  have "read_group_sidecar c fs' root g = Some (sidecar_of H on)"
    using write_record_spec(1) [OF wr assms(2) np] path by (simp add: read_group_sidecar_def)
  then have own: "compute_group_drift H c fs' (Some root) g on' prior = compute_drift_from_sidecar H (Some (sidecar_of H on)) on' prior"
    by (simp add: compute_group_drift_def)
  have "read_group_sidecar c fs' root h = read_group_sidecar c fs root h" if "valid_str h" "h \<noteq> g" for h
  proof (cases "encode_group_dir_name h")
    case (Inr dh)
    have "dh \<noteq> d" using decode_encode [OF that(1) Inr] decode_encode [OF g] that(2) by auto
    moreover have "dh @ 46 # x = d @ 46 # y \<Longrightarrow> dh = d" for x y
      using dotless encode_no_dot [OF that(1) Inr] encode_no_dot [OF g] by blast
    ultimately show ?thesis
      using write_record_spec(2) [OF wr assms(2) np, of "root @ [lit ''.lcg'', lit ''ontology-hash'', dh @ lit ''.json'']"] Inr
      by (auto simp: read_group_sidecar_def group_sidecar_path_def butlast_append)
  qed (simp add: read_group_sidecar_def group_sidecar_path_def)
  moreover have "read_sidecar c fs' root = read_sidecar c fs root"
    using write_record_spec(2) [OF wr assms(2) np, of "sidecar_path root"] by (simp add: read_sidecar_def sidecar_path_def butlast_append)
  ultimately show ?thesis using drift_of_record [OF assms(1)] own by (simp add: compute_group_drift_def compute_drift_def)
qed

section \<open>Witnesses\<close>


definition toy_sc :: sc_codec where
  "toy_sc = \<lparr>sc_print = (\<lambda>s. replicate (to_nat (sc_hash s, sc_mode s, sc_entity_types s, sc_relation_types s)) 97),
     sc_parse = (\<lambda>t. case from_nat (length t) of (h, m, es, rs) \<Rightarrow>
       Some \<lparr>sc_hash = h, sc_mode = m, sc_entity_types = es, sc_relation_types = rs\<rparr>)\<rparr>"

lemma toy_sc_ok: "sc_ok toy_sc"
  by (auto simp: sc_ok_def toy_sc_def valid_str_def is_scalar_def list_all_iff)

lemma toy_sidecar_written:
  "\<exists>fs'. write_group_sidecar (\<lambda>_. []) toy_sc [] [] (lit ''g'') None [([], Dir)] = (fs', Inr ())"
proof -
  have "encode_group_dir_name (lit ''g'') = Inr (lit ''g'')" by code_simp
  then show ?thesis
    by (simp add: write_group_sidecar_def group_sidecar_path_def write_record_def create_dir_all_def publish_def write_tmp_def rename_def
        with_extension_def extension_def is_dir_def fs_exists_def fs_get_def fs_put_def)
qed

theorem group_drift_exact_witness:
  "\<exists>fs'. write_group_sidecar (\<lambda>_. []) toy_sc [] [] (lit ''g'') None [([], Dir)] = (fs', Inr ())
     \<and> fst (compute_group_drift (\<lambda>_. []) toy_sc fs' (Some []) (lit ''g'') (Some (clash [] [])) True)
     \<and> \<not> fst (compute_group_drift (\<lambda>_. []) toy_sc fs' (Some []) (lit ''g'') None True)"
proof -
  obtain fs' where w: "write_group_sidecar (\<lambda>_. []) toy_sc [] [] (lit ''g'') None [([], Dir)] = (fs', Inr ())"
    using toy_sidecar_written by blast
  have H: "digest_bytes (\<lambda>_. [])" by (simp add: digest_bytes_def)
  have v: "valid_str (lit ''g'')" by (simp add: valid_str_def is_scalar_def)
  have e: "encode_group_dir_name (lit ''g'') = Inr (lit ''g'')" by code_simp
  show ?thesis using w group_drift_exact [OF H toy_sc_ok v e w] by blast
qed

end
