(* ===== verification/Canonicalize.thy ===== *)
theory Canonicalize
  imports Ontology
begin

text \<open>
  The pass that maps the names of edges to declared relation types (\<^verbatim>\<open>canonicalize.rs\<close>).  Reading the
  edges, the embedder and the statements are parameters; similarities are values of a linear order.
  The theorem: a second run after a complete one executes no statement, as the module claims,
  provided that no keyword and no alias matches the marker \<^verbatim>\<open>UNCLASSIFIED\<close> that the first run writes;
  without that condition it fails.
\<close>

section \<open>Reading in pages\<close>

text \<open>The loop that reads page after page until one is short, used by several passes over the database.\<close>

partial_function (option) read_pages :: "(nat \<Rightarrow> 'a list result) \<Rightarrow> nat \<Rightarrow> nat \<Rightarrow> 'a list \<Rightarrow> 'a list result option" where
  "read_pages page limit offset acc =
     (case page offset of
        Inl e \<Rightarrow> Some (Inl e)
      | Inr rows \<Rightarrow>
          if length rows < limit then Some (Inr (acc @ rows))
          else read_pages page limit (offset + length rows) (acc @ rows))"

lemma read_pages_all:
  assumes "0 < n" and "\<And>k. page k = Inr (take n (drop k xs))"
  shows "read_pages page n k (take k xs) = Some (Inr xs)"
proof (induction "length xs - k" arbitrary: k rule: less_induct)
  case less
  show ?case
  proof (cases "length (take n (drop k xs)) < n")
    case True
    then have short: "length xs - k < n" by (simp add: min_def split: if_splits)
    then have "take k xs @ take n (drop k xs) = xs" by simp
    then show ?thesis using short assms(2) by (subst read_pages.simps) simp
  next
    case False
    have "take k xs @ take n (drop k xs) = take (k + n) xs" by (simp add: take_add)
    moreover have "read_pages page n (k + n) (take (k + n) xs) = Some (Inr xs)"
      using less [of "k + n"] False assms(1) by simp
    ultimately show ?thesis using False assms(2) by (subst read_pages.simps) (simp add: min_def split: if_splits)
  qed
qed

section \<open>The lexical index\<close>

datatype edge_class = is_mapped: Mapped rstr | Noise | Residual

record edge_record =
  ed_uuid :: rstr
  ed_name :: rstr
  ed_relation_type :: "rstr option"
  ed_fact :: rstr

record lexical_index =
  li_exact :: "rstr \<rightharpoonup> rstr"
  li_keywords :: "(rstr \<times> rstr) list"
  li_canonical_names :: "rstr set"
  li_assert_only_names :: "rstr set"

definition build_alias_map :: "ontology \<Rightarrow> rstr \<rightharpoonup> rstr" where
  "build_alias_map on =
     fold (\<lambda>rt m. fold (\<lambda>a m. m(a \<mapsto> rt_name rt)) (rt_aliases rt) (m(rt_name rt \<mapsto> rt_name rt))) (extractable_relation_types on) Map.empty"

definition build_lexical_index :: "ontology \<Rightarrow> lexical_index" where
  "build_lexical_index on =
     \<lparr>li_exact = build_alias_map on,
      li_keywords = concat (map (\<lambda>rt. if rt_extract rt then map (\<lambda>kw. (kw, rt_name rt)) (rt_keywords rt) else []) (on_relation_types on)),
      li_canonical_names = rt_name ` set (on_relation_types on),
      li_assert_only_names = rt_name ` set (filter (\<lambda>rt. \<not> rt_extract rt) (on_relation_types on))\<rparr>"

section \<open>Classification\<close>

text \<open>The expression \<^verbatim>\<open>^[A-Z][A-Z0-9 ]*\s*(\<close>arrow\<^verbatim>\<open>|->)\s*[A-Z][A-Z0-9 ]*$\<close>: a text on each side of an arrow.\<close>

definition cap_char :: "nat \<Rightarrow> bool" where
  "cap_char c \<longleftrightarrow> 65 \<le> c \<and> c \<le> 90"

definition cap_run :: "nat \<Rightarrow> bool" where
  "cap_run c \<longleftrightarrow> cap_char c \<or> is_ascii_digit c \<or> c = 32"

definition noise_left :: "rstr \<Rightarrow> bool" where
  "noise_left a = (case a of [] \<Rightarrow> False | c # cs \<Rightarrow> cap_char c \<and> list_all is_whitespace (dropWhile cap_run cs))"

definition noise_right :: "rstr \<Rightarrow> bool" where
  "noise_right b = (case dropWhile is_whitespace b of [] \<Rightarrow> False | c # cs \<Rightarrow> cap_char c \<and> list_all cap_run cs)"

definition noise_at :: "rstr \<Rightarrow> nat \<Rightarrow> bool" where
  "noise_at s i \<longleftrightarrow> noise_left (take i s)
     \<and> (\<exists>arrow \<in> {[8594], [45, 62]}. starts_with arrow (drop i s) \<and> noise_right (drop (i + length arrow) s))"

definition is_noise_edge :: "rstr \<Rightarrow> bool" where
  "is_noise_edge s = (let t = trim s in list_ex (noise_at t) [0..<length t])"

definition keyword_match :: "lexical_index \<Rightarrow> rstr \<Rightarrow> rstr option" where
  "keyword_match idx lower = map_option snd (List.find (\<lambda>(kw, _). str_contains lower kw) (li_keywords idx))"

definition lexical_match :: "ucd \<Rightarrow> lexical_index \<Rightarrow> rstr \<Rightarrow> rstr option" where
  "lexical_match U idx s =
     (let normalized = normalize_relation_type U s in
      case li_exact idx normalized of
        Some canonical \<Rightarrow> Some canonical
      | None \<Rightarrow> keyword_match idx (ucd_lower_str U normalized))"

definition classify_by_type :: "ucd \<Rightarrow> rstr option \<Rightarrow> lexical_index \<Rightarrow> edge_class" where
  "classify_by_type U current_rt idx =
     (case current_rt of
        None \<Rightarrow> Residual
      | Some rt \<Rightarrow>
          if rt \<in> li_canonical_names idx then Mapped rt
          else (case lexical_match U idx rt of Some canonical \<Rightarrow> Mapped canonical | None \<Rightarrow> Residual))"

definition classify_edge_lexically :: "ucd \<Rightarrow> rstr \<Rightarrow> rstr option \<Rightarrow> lexical_index \<Rightarrow> edge_class" where
  "classify_edge_lexically U name current_rt idx =
     (if is_noise_edge name then Noise
      else if (case current_rt of Some rt \<Rightarrow> is_noise_edge rt | None \<Rightarrow> False) then Noise
      else if (case current_rt of Some rt \<Rightarrow> rt \<in> li_assert_only_names idx | None \<Rightarrow> False) then Mapped (the current_rt)
      else (case lexical_match U idx name of
              Some canonical \<Rightarrow> Mapped canonical
            | None \<Rightarrow> classify_by_type U current_rt idx))"

section \<open>The embedding fallback\<close>

text \<open>\<^verbatim>\<open>max_by\<close> returns the last of several greatest elements.\<close>

fun max_by :: "('a \<Rightarrow> 's::linorder) \<Rightarrow> 'a list \<Rightarrow> 'a option" where
  "max_by f [] = None"
| "max_by f (x # xs) = Some (fold (\<lambda>y best. if f best \<le> f y then y else best) xs x)"

definition types_with_desc :: "ontology \<Rightarrow> (rstr \<times> rstr) list" where
  "types_with_desc on =
     List.map_filter (\<lambda>rt. case rt_description rt of Some d \<Rightarrow> if d = [] then None else Some (rt_name rt, d) | None \<Rightarrow> None)
       (extractable_relation_types on)"

fun embed_glosses :: "(rstr \<Rightarrow> 'v result) \<Rightarrow> (rstr \<times> rstr) list \<Rightarrow> (rstr \<times> 'v) list option" where
  "embed_glosses emb [] = Some []"
| "embed_glosses emb ((n, d) # ds) =
     (case emb d of Inl _ \<Rightarrow> None | Inr v \<Rightarrow> map_option ((#) (n, v)) (embed_glosses emb ds))"

definition gloss_embeddings :: "(rstr \<Rightarrow> 'v result) \<Rightarrow> ontology \<Rightarrow> (rstr \<times> 'v) list" where
  "gloss_embeddings emb on = (case embed_glosses emb (types_with_desc on) of None \<Rightarrow> [] | Some gs \<Rightarrow> gs)"

definition promote ::
  "(rstr \<Rightarrow> 'v result) \<Rightarrow> ('v \<Rightarrow> 'v \<Rightarrow> 's::linorder) \<Rightarrow> 's \<Rightarrow> (rstr \<times> 'v) list \<Rightarrow> rstr \<Rightarrow> rstr option" where
  "promote emb sim threshold glosses fact_text =
     (if fact_text = [] then None
      else (case emb fact_text of
              Inl _ \<Rightarrow> None
            | Inr v \<Rightarrow> (case max_by (\<lambda>(_, g). sim v g) glosses of
                        None \<Rightarrow> None
                      | Some (canonical, g) \<Rightarrow> if sim v g \<ge> threshold then Some canonical else None)))"

definition classify_edge ::
  "ucd \<Rightarrow> (rstr \<Rightarrow> 'v result) \<Rightarrow> ('v \<Rightarrow> 'v \<Rightarrow> 's::linorder) \<Rightarrow> 's \<Rightarrow> ontology \<Rightarrow> edge_record \<Rightarrow> edge_class" where
  "classify_edge U emb sim threshold on e =
     (case classify_edge_lexically U (ed_name e) (ed_relation_type e) (build_lexical_index on) of
        Residual \<Rightarrow> (case promote emb sim threshold (gloss_embeddings emb on) (ed_fact e) of
                        Some canonical \<Rightarrow> Mapped canonical | None \<Rightarrow> Residual)
      | c \<Rightarrow> c)"

section \<open>Writing\<close>

definition UNCLASSIFIED :: rstr where
  "UNCLASSIFIED = lit ''UNCLASSIFIED''"

definition new_type :: "rstr option \<Rightarrow> edge_class \<Rightarrow> rstr option" where
  "new_type current_rt c =
     (case c of
        Mapped canonical \<Rightarrow> if current_rt = Some canonical then None else Some canonical
      | Residual \<Rightarrow> if current_rt = Some UNCLASSIFIED then None else Some UNCLASSIFIED
      | Noise \<Rightarrow> if trim (case current_rt of None \<Rightarrow> [] | Some rt \<Rightarrow> rt) \<noteq> [] then None else Some UNCLASSIFIED)"

text \<open>One batch: the statements are executed up to the first failure; what was executed is flushed in any case.
  The list of executed statements is returned with the state.\<close>

fun write_rows :: "(rstr \<Rightarrow> rstr \<Rightarrow> 'd \<Rightarrow> 'd \<times> unit result) \<Rightarrow> (rstr \<times> rstr option \<times> edge_class) list \<Rightarrow> 'd \<Rightarrow>
    'd \<times> (rstr \<times> rstr) list \<times> unit result" where
  "write_rows exec [] d = (d, [], Inr ())"
| "write_rows exec ((uuid, current_rt, c) # rows) d =
     (case new_type current_rt c of
        None \<Rightarrow> write_rows exec rows d
      | Some rt \<Rightarrow>
          (case exec uuid rt d of
             (d', Inl e) \<Rightarrow> (d', [], Inl e)
           | (d', Inr _) \<Rightarrow> (case write_rows exec rows d' of (d'', ss, r) \<Rightarrow> (d'', (uuid, rt) # ss, r))))"

fun chunks :: "nat \<Rightarrow> 'a list \<Rightarrow> 'a list list" where
  "chunks n [] = []"
| "chunks n (x # xs) = (if n = 0 then [] else take n (x # xs) # chunks n (drop n (x # xs)))"

fun write_batches :: "(rstr \<Rightarrow> rstr \<Rightarrow> 'd \<Rightarrow> 'd \<times> unit result) \<Rightarrow> ('d \<Rightarrow> 'd) \<Rightarrow> (rstr \<times> rstr option \<times> edge_class) list list \<Rightarrow> 'd \<Rightarrow>
    'd \<times> (rstr \<times> rstr) list \<times> unit result" where
  "write_batches exec flush [] d = (d, [], Inr ())"
| "write_batches exec flush (b # bs) d =
     (case write_rows exec b d of
        (d', ss, Inl e) \<Rightarrow> (flush d', ss, Inl e)
      | (d', ss, Inr _) \<Rightarrow> (case write_batches exec flush bs (flush d') of (d'', ss', r) \<Rightarrow> (d'', ss @ ss', r)))"

definition WRITE_BATCH_SIZE :: nat where
  "WRITE_BATCH_SIZE = 250"

definition PAGE_SIZE :: nat where
  "PAGE_SIZE = 500"

record canonicalize_report =
  cz_total_edges :: nat
  cz_mapped_count :: nat
  cz_noise_count :: nat
  cz_residual_count :: nat

definition count_classes :: "edge_class list \<Rightarrow> canonicalize_report" where
  "count_classes cs = \<lparr>cz_total_edges = length cs, cz_mapped_count = length (filter is_mapped cs),
     cz_noise_count = length (filter (\<lambda>c. c = Noise) cs), cz_residual_count = length (filter (\<lambda>c. c = Residual) cs)\<rparr>"

definition edge_of_row :: "rstr \<times> rstr \<times> rstr \<times> rstr \<Rightarrow> edge_record" where
  "edge_of_row row = (case row of (uuid, name, fact_text, rt_str) \<Rightarrow>
     \<lparr>ed_uuid = uuid, ed_name = name, ed_relation_type = (if rt_str = [] then None else Some rt_str), ed_fact = fact_text\<rparr>)"

definition canonicalize_relations ::
  "ucd \<Rightarrow> (rstr \<Rightarrow> 'v result) \<Rightarrow> ('v \<Rightarrow> 'v \<Rightarrow> 's::linorder) \<Rightarrow> 's \<Rightarrow> ontology
     \<Rightarrow> ('d \<Rightarrow> nat \<Rightarrow> nat \<Rightarrow> (rstr \<times> rstr \<times> rstr \<times> rstr) list result) \<Rightarrow> (rstr \<Rightarrow> rstr \<Rightarrow> 'd \<Rightarrow> 'd \<times> unit result) \<Rightarrow> ('d \<Rightarrow> 'd)
     \<Rightarrow> bool \<Rightarrow> 'd \<Rightarrow> ('d \<times> (rstr \<times> rstr) list \<times> canonicalize_report result) option" where
  "canonicalize_relations U emb sim threshold on page exec flush dry_run d =
     (case read_pages (\<lambda>offset. page d offset PAGE_SIZE) PAGE_SIZE 0 [] of
        None \<Rightarrow> None
      | Some (Inl e) \<Rightarrow> Some (d, [], Inl e)
      | Some (Inr rows) \<Rightarrow>
          (let edges = map edge_of_row rows;
               classifications = map (\<lambda>e. (ed_uuid e, ed_relation_type e, classify_edge U emb sim threshold on e)) edges;
               report = count_classes (map (\<lambda>(_, _, c). c) classifications)
           in if dry_run then Some (d, [], Inr report)
              else (case write_batches exec flush (chunks WRITE_BATCH_SIZE classifications) d of
                      (d', ss, Inl e) \<Rightarrow> Some (d', ss, Inl e)
                    | (d', ss, Inr _) \<Rightarrow> Some (d', ss, Inr report))))"

section \<open>A second run\<close>

text \<open>An edge after the pass.\<close>

definition retyped :: "rstr option \<Rightarrow> edge_class \<Rightarrow> rstr option" where
  "retyped current_rt c = (case new_type current_rt c of None \<Rightarrow> current_rt | Some t \<Rightarrow> Some t)"

lemma noise_not_blank: "is_noise_edge s \<Longrightarrow> trim s \<noteq> []"
  by (auto simp: is_noise_edge_def Let_def)

lemma alias_map_names: "build_alias_map on n = Some c \<Longrightarrow> c \<in> rt_name ` set (on_relation_types on)"
proof -
  have inner: "fold (\<lambda>a m. m(a \<mapsto> v)) as m n = Some c \<Longrightarrow> c = v \<or> m n = Some c" for as v and m :: "rstr \<rightharpoonup> rstr"
    by (induction as arbitrary: m) (fastforce split: if_splits)+
  have "fold (\<lambda>rt m. fold (\<lambda>a m. m(a \<mapsto> rt_name rt)) (rt_aliases rt) (m(rt_name rt \<mapsto> rt_name rt))) rts m n = Some c \<Longrightarrow>
      c \<in> rt_name ` set rts \<or> m n = Some c" for rts m
  proof (induction rts arbitrary: m)
    case (Cons rt rts)
    let ?m = "fold (\<lambda>a m. m(a \<mapsto> rt_name rt)) (rt_aliases rt) (m(rt_name rt \<mapsto> rt_name rt))"
    from Cons.prems Cons.IH [of ?m] consider "c \<in> rt_name ` set rts" | "?m n = Some c" by (auto simp del: fun_upd_apply)
    then show ?case using inner [of "rt_name rt" "rt_aliases rt" "m(rt_name rt \<mapsto> rt_name rt)"] by cases (auto split: if_splits)
  qed simp
  then show "build_alias_map on n = Some c \<Longrightarrow> c \<in> rt_name ` set (on_relation_types on)"
    unfolding build_alias_map_def extractable_relation_types_def by fastforce
qed

lemma lexical_match_names: "lexical_match U (build_lexical_index on) s = Some c \<Longrightarrow> c \<in> rt_name ` set (on_relation_types on)"
  by (auto simp: lexical_match_def Let_def keyword_match_def build_lexical_index_def find_Some_iff split: option.splits if_splits
      dest: alias_map_names dest!: nth_mem)

lemma max_by_mem: "max_by f xs = Some x \<Longrightarrow> x \<in> set xs"
proof (cases xs)
  case (Cons a as)
  have "fold (\<lambda>y best. if f best \<le> f y then y else best) as a \<in> set (a # as)"
    by (induction as arbitrary: a) auto
  then show "max_by f xs = Some x \<Longrightarrow> x \<in> set xs" using Cons by auto
qed simp

lemma embed_glosses_names: "embed_glosses emb ds = Some gs \<Longrightarrow> (n, v) \<in> set gs \<Longrightarrow> n \<in> fst ` set ds"
proof (induction ds arbitrary: gs)
  case (Cons nd ds)
  obtain w hs where "gs = (fst nd, w) # hs" "embed_glosses emb ds = Some hs"
    using Cons.prems(1) by (cases nd) (auto split: sum.splits)
  then show ?case using Cons.IH [of hs] Cons.prems(2) by auto
qed simp

lemma promote_names: "promote emb sim th (gloss_embeddings emb on) t = Some c \<Longrightarrow> c \<in> rt_name ` set (on_relation_types on)"
proof -
  assume "promote emb sim th (gloss_embeddings emb on) t = Some c"
  then obtain v g where "max_by (\<lambda>(_, g). sim v g) (gloss_embeddings emb on) = Some (c, g)"
    by (auto simp: promote_def split: if_splits sum.splits option.splits)
  then have "(c, g) \<in> set (gloss_embeddings emb on)" by (rule max_by_mem)
  then have "c \<in> fst ` set (types_with_desc on)"
    by (cases "embed_glosses emb (types_with_desc on)") (auto simp: gloss_embeddings_def dest: embed_glosses_names)
  then obtain b rt where "rt \<in> set (on_relation_types on)"
    "(case rt_description rt of Some d \<Rightarrow> if d = [] then None else Some (rt_name rt, d) | None \<Rightarrow> None) = Some (c, b)"
    by (auto simp: types_with_desc_def extractable_relation_types_def map_filter_mem simp del: option.case)
  then show "c \<in> rt_name ` set (on_relation_types on)" by (cases "rt_description rt") (auto split: if_splits)
qed

lemma noise_has_arrow: "is_noise_edge s \<Longrightarrow> 8594 \<in> set s \<or> 62 \<in> set s"
proof -
  assume "is_noise_edge s"
  then obtain i a where "a \<in> {[8594], [45, 62]}" "starts_with a (drop i (trim s))" by (auto simp: is_noise_edge_def Let_def list_ex_iff noise_at_def)
  then have "8594 \<in> set (trim s) \<or> 62 \<in> set (trim s)" by (auto simp: starts_with_iff) (metis in_set_dropD list.set_intros)+
  then show ?thesis using set_trim by blast
qed

lemma unclassified_not_noise: "\<not> is_noise_edge UNCLASSIFIED" "trim UNCLASSIFIED \<noteq> []"
  using noise_has_arrow [of UNCLASSIFIED]
  by (auto simp: UNCLASSIFIED_def trim_def trim_start_def trim_end_def is_whitespace_def)

definition marker_free :: "ucd \<Rightarrow> ontology \<Rightarrow> bool" where
  "marker_free U on \<longleftrightarrow> lexical_match U (build_lexical_index on) UNCLASSIFIED \<in> {None, Some UNCLASSIFIED}"

text \<open>An edge that was given a declared type keeps it, and so does one that was given the marker.\<close>

lemma declared_type_stays:
  assumes "c \<in> rt_name ` set (on_relation_types on)" "lexical_match U (build_lexical_index on) (ed_name e) \<in> {None, Some c}"
    and "ed_relation_type e = Some c" "\<not> is_noise_edge (ed_name e)"
  shows "new_type (Some c) (classify_edge U emb sim th on e) = None"
proof -
  have "c \<in> li_canonical_names (build_lexical_index on)" using assms(1) by (simp add: build_lexical_index_def)
  then show ?thesis using assms(2-4) noise_not_blank [of c]
    by (auto simp: classify_edge_def classify_edge_lexically_def classify_by_type_def new_type_def)
qed

lemma marker_stays:
  assumes "marker_free U on" "lexical_match U (build_lexical_index on) (ed_name e) = None"
    and "promote emb sim th (gloss_embeddings emb on) (ed_fact e) = None"
    and "ed_relation_type e = Some UNCLASSIFIED" "\<not> is_noise_edge (ed_name e)"
  shows "new_type (Some UNCLASSIFIED) (classify_edge U emb sim th on e) = None"
  using assms unclassified_not_noise
  by (auto simp: classify_edge_def classify_edge_lexically_def classify_by_type_def new_type_def marker_free_def split: option.splits)

lemma retype_cases:
  assumes "\<not> is_noise_edge (ed_name e)" "new_type (ed_relation_type e) (classify_edge U emb sim th on e) = Some t"
  shows "t \<in> rt_name ` set (on_relation_types on) \<and> lexical_match U (build_lexical_index on) (ed_name e) \<in> {None, Some t}
    \<or> t = UNCLASSIFIED \<and> lexical_match U (build_lexical_index on) (ed_name e) = None
      \<and> promote emb sim th (gloss_embeddings emb on) (ed_fact e) = None"
proof (cases "classify_edge_lexically U (ed_name e) (ed_relation_type e) (build_lexical_index on)")
  case (Mapped d)
  then have "t = d" "ed_relation_type e \<noteq> Some d" using assms(2) by (auto simp: classify_edge_def new_type_def split: if_splits)
  then show ?thesis using Mapped lexical_match_names [of U on]
    by (auto simp: classify_edge_lexically_def classify_by_type_def split: option.splits if_splits)
next
  case Noise
  then have "\<exists>rt. ed_relation_type e = Some rt \<and> is_noise_edge rt" using assms(1)
    by (auto simp: classify_edge_lexically_def classify_by_type_def split: option.splits if_splits)
  then show ?thesis using Noise assms(2) noise_not_blank by (auto simp: classify_edge_def new_type_def split: if_splits)
next
  case Residual
  then have "lexical_match U (build_lexical_index on) (ed_name e) = None"
    by (auto simp: classify_edge_lexically_def split: option.splits if_splits)
  then show ?thesis using Residual assms(2) promote_names [of emb sim th on "ed_fact e"]
    by (auto simp: classify_edge_def new_type_def split: option.splits if_splits)
qed

lemma classify_stable:
  assumes free: "marker_free U on" and c_def: "c = classify_edge U emb sim th on e"
    and e'_def: "e' = e\<lparr>ed_relation_type := retyped (ed_relation_type e) c\<rparr>"
  shows "new_type (ed_relation_type e') (classify_edge U emb sim th on e') = None"
proof (cases "new_type (ed_relation_type e) c")
  case None
  then show ?thesis by (simp add: e'_def retyped_def c_def)
next
  case (Some t)
  let ?m = "lexical_match U (build_lexical_index on)"
  have e': "ed_relation_type e' = Some t" "ed_name e' = ed_name e" "ed_fact e' = ed_fact e" using Some by (simp_all add: e'_def retyped_def)
  show ?thesis
  proof (cases "is_noise_edge (ed_name e)")
    case True
    then have "c = Noise" by (simp add: c_def classify_edge_def classify_edge_lexically_def)
    then show ?thesis using Some True e' unclassified_not_noise(2)
      by (auto simp: classify_edge_def classify_edge_lexically_def new_type_def split: if_splits)
  next
    case name: False
    from retype_cases [OF name Some [unfolded c_def]] show ?thesis
    proof (elim disjE conjE)
      assume "t \<in> rt_name ` set (on_relation_types on)" "?m (ed_name e) \<in> {None, Some t}"
      then show ?thesis using declared_type_stays [of t on U e' emb sim th] e' name by simp
    next
      assume "t = UNCLASSIFIED" "?m (ed_name e) = None" "promote emb sim th (gloss_embeddings emb on) (ed_fact e) = None"
      then show ?thesis using marker_stays [OF free, of e' emb sim th] e' name by simp
    qed
  qed
qed

section \<open>What a run leaves behind\<close>

type_synonym edge_row = "rstr \<times> rstr \<times> rstr \<times> rstr"

definition set_row :: "rstr \<Rightarrow> rstr \<Rightarrow> edge_row \<Rightarrow> edge_row" where
  "set_row uuid rt row = (case row of (u, n, f, t) \<Rightarrow> (u, n, f, if u = uuid then rt else t))"

text \<open>The edges of the group, seen through \<open>rows\<close>: a page is a part of them, a statement sets the type of the edges
  with its UUID, and flushing the log does not change them.\<close>

definition edges_ok ::
  "('d \<Rightarrow> edge_row list) \<Rightarrow> ('d \<Rightarrow> nat \<Rightarrow> nat \<Rightarrow> edge_row list result) \<Rightarrow> (rstr \<Rightarrow> rstr \<Rightarrow> 'd \<Rightarrow> 'd \<times> unit result) \<Rightarrow> ('d \<Rightarrow> 'd) \<Rightarrow> bool" where
  "edges_ok rows page exec flush \<longleftrightarrow>
     (\<forall>d offset limit. page d offset limit = Inr (take limit (drop offset (rows d))))
     \<and> (\<forall>uuid rt d d'. exec uuid rt d = (d', Inr ()) \<longrightarrow> rows d' = map (set_row uuid rt) (rows d))
     \<and> (\<forall>d. rows (flush d) = rows d)"

definition statements :: "(rstr \<times> rstr option \<times> edge_class) list \<Rightarrow> (rstr \<times> rstr) list" where
  "statements cs = List.map_filter (\<lambda>(u, cur, c). map_option (Pair u) (new_type cur c)) cs"

lemma write_rows_statements:
  assumes "edges_ok rows page exec flush"
  shows "write_rows exec cs d = (d', ss, Inr ()) \<Longrightarrow>
    ss = statements cs \<and> rows d' = fold (\<lambda>(u, t). map (set_row u t)) ss (rows d)"
proof (induction cs arbitrary: d ss)
  case Nil
  then show ?case by (simp add: statements_def map_filter_simps)
next
  case (Cons a cs)
  obtain u cur c where a: "a = (u, cur, c)" by (cases a)
  show ?case
  proof (cases "new_type cur c")
    case None
    then show ?thesis using Cons a by (simp add: statements_def map_filter_simps)
  next
    case (Some t)
    obtain d1 ss1 where e: "exec u t d = (d1, Inr ())" and w: "write_rows exec cs d1 = (d', ss1, Inr ())" and ss: "ss = (u, t) # ss1"
      using Cons.prems a Some by (auto split: prod.splits sum.splits)
    have "rows d1 = map (set_row u t) (rows d)" using assms e unfolding edges_ok_def by blast
    then show ?thesis using Cons.IH [OF w] ss a Some by (simp add: statements_def map_filter_simps)
  qed
qed

lemma statements_append: "statements (xs @ ys) = statements xs @ statements ys"
  by (simp add: statements_def List.map_filter_def)

lemma write_batches_statements:
  assumes E: "edges_ok rows page exec flush"
  shows "write_batches exec flush bs d = (d', ss, Inr ()) \<Longrightarrow>
    ss = statements (concat bs) \<and> rows d' = fold (\<lambda>(u, t). map (set_row u t)) ss (rows d)"
proof (induction bs arbitrary: d ss)
  case Nil
  then show ?case by (simp add: statements_def map_filter_simps)
next
  case (Cons b bs)
  obtain d1 ss1 ss2 where w: "write_rows exec b d = (d1, ss1, Inr ())" and r: "write_batches exec flush bs (flush d1) = (d', ss2, Inr ())"
    and ss: "ss = ss1 @ ss2"
    using Cons.prems by (auto split: prod.splits sum.splits)
  have "rows (flush d1) = rows d1" using E by (simp add: edges_ok_def)
  then show ?case using Cons.IH [OF r] write_rows_statements [OF E w] ss by (simp add: statements_append)
qed

lemma concat_chunks: "0 < n \<Longrightarrow> concat (chunks n xs) = xs"
  by (induction n xs rule: chunks.induct) (auto simp: drop_Cons' take_Cons')

lemma fold_set_rows:
  "distinct (map fst ss) \<Longrightarrow> fold (\<lambda>(u, t). map (set_row u t)) ss rs =
     map (\<lambda>(u, n, f, t). (u, n, f, case map_of ss u of Some t' \<Rightarrow> t' | None \<Rightarrow> t)) rs"
proof (induction ss arbitrary: rs)
  case (Cons s ss)
  have "map_of ss u = None" if "u = fst s" for u using Cons.prems that by (auto simp: map_of_eq_None_iff)
  then show ?case using Cons by (cases s) (auto simp: set_row_def split: option.splits)
qed (simp add: split_def)

lemma statements_of_rows:
  assumes "distinct (map fst rs)"
  shows "distinct (map fst (statements (map (\<lambda>e. (ed_uuid e, ed_relation_type e, f e)) (map edge_of_row rs))))"
    and "r \<in> set rs \<Longrightarrow> map_of (statements (map (\<lambda>e. (ed_uuid e, ed_relation_type e, f e)) (map edge_of_row rs))) (fst r)
      = new_type (ed_relation_type (edge_of_row r)) (f (edge_of_row r))"
proof -
  have u: "ed_uuid (edge_of_row r) = fst r" for r by (simp add: edge_of_row_def split: prod.splits)
  have sub: "set (map fst (statements (map (\<lambda>e. (ed_uuid e, ed_relation_type e, f e)) (map edge_of_row rs)))) \<subseteq> fst ` set rs" for rs
    by (auto simp: statements_def map_filter_mem u)
  show "distinct (map fst (statements (map (\<lambda>e. (ed_uuid e, ed_relation_type e, f e)) (map edge_of_row rs))))"
    using assms
  proof (induction rs)
    case (Cons r rs)
    then show ?case using sub [of rs] by (auto simp: statements_def map_filter_simps u split: option.splits)
  qed (simp add: statements_def map_filter_simps)
  show "r \<in> set rs \<Longrightarrow> map_of (statements (map (\<lambda>e. (ed_uuid e, ed_relation_type e, f e)) (map edge_of_row rs))) (fst r)
      = new_type (ed_relation_type (edge_of_row r)) (f (edge_of_row r))"
    using assms
  proof (induction rs)
    case (Cons a rs)
    have "map_of (statements (map (\<lambda>e. (ed_uuid e, ed_relation_type e, f e)) (map edge_of_row rs))) (fst a) = None"
      using sub [of rs] Cons.prems(2) by (auto simp: map_of_eq_None_iff)
    moreover have "fst r \<noteq> fst a" if "r \<in> set rs" using that Cons.prems(2) by (auto simp: image_iff)
    ultimately show ?case using Cons.IH Cons.prems
      by (cases "r = a") (simp_all add: statements_def map_filter_simps u split: option.splits)
  qed simp
qed

lemma write_nothing:
  "statements cs = [] \<Longrightarrow> write_rows exec cs d = (d, [], Inr ())"
  by (induction cs arbitrary: d) (auto simp: statements_def map_filter_simps split: option.splits)

lemma write_batches_nothing:
  "statements (concat bs) = [] \<Longrightarrow> \<exists>d'. write_batches exec flush bs d = (d', [], Inr ())"
proof (induction bs arbitrary: d)
  case (Cons b bs)
  then show ?case using write_nothing [of b exec d] Cons.IH [of "flush d"] by (auto simp: statements_append)
qed simp

definition rows_after ::
  "ucd \<Rightarrow> (rstr \<Rightarrow> 'v result) \<Rightarrow> ('v \<Rightarrow> 'v \<Rightarrow> 's::linorder) \<Rightarrow> 's \<Rightarrow> ontology \<Rightarrow> edge_row list \<Rightarrow> edge_row list" where
  "rows_after U emb sim th on rs =
     map (\<lambda>r. case r of (u, n, f, t) \<Rightarrow> (u, n, f,
        case new_type (ed_relation_type (edge_of_row r)) (classify_edge U emb sim th on (edge_of_row r)) of Some t' \<Rightarrow> t' | None \<Rightarrow> t)) rs"

lemma canonicalize_run:
  assumes E: "edges_ok rows page exec flush"
  shows "canonicalize_relations U emb sim th on page exec flush False d =
    (let cs = map (\<lambda>e. (ed_uuid e, ed_relation_type e, classify_edge U emb sim th on e)) (map edge_of_row (rows d)) in
     case write_batches exec flush (chunks WRITE_BATCH_SIZE cs) d of
       (d', ss, Inl e) \<Rightarrow> Some (d', ss, Inl e)
     | (d', ss, Inr _) \<Rightarrow> Some (d', ss, Inr (count_classes (map (\<lambda>(_, _, c). c) cs))))"
proof -
  have "read_pages (\<lambda>offset. page d offset PAGE_SIZE) PAGE_SIZE 0 [] = Some (Inr (rows d))"
    using read_pages_all [of PAGE_SIZE "\<lambda>offset. page d offset PAGE_SIZE" "rows d" 0] E by (simp add: PAGE_SIZE_def edges_ok_def)
  then show ?thesis by (simp add: canonicalize_relations_def Let_def del: map_map)
qed

lemma canonicalize_rows:
  assumes E: "edges_ok rows page exec flush" and "distinct (map fst (rows d))"
    and "canonicalize_relations U emb sim th on page exec flush False d = Some (d', ss, Inr report)"
  shows "rows d' = rows_after U emb sim th on (rows d)"
proof -
  let ?cs = "map (\<lambda>e. (ed_uuid e, ed_relation_type e, classify_edge U emb sim th on e)) (map edge_of_row (rows d))"
  have w: "write_batches exec flush (chunks WRITE_BATCH_SIZE ?cs) d = (d', ss, Inr ())"
    using assms(3) by (auto simp: canonicalize_run [OF E] Let_def split: prod.splits sum.splits)
  have "concat (chunks WRITE_BATCH_SIZE ?cs) = ?cs" by (rule concat_chunks) (simp add: WRITE_BATCH_SIZE_def)
  then have "rows d' = fold (\<lambda>(u, t). map (set_row u t)) (statements ?cs) (rows d)" using write_batches_statements [OF E w] by simp
  also have "\<dots> = map (\<lambda>(u, n, f, t). (u, n, f, case map_of (statements ?cs) u of Some t' \<Rightarrow> t' | None \<Rightarrow> t)) (rows d)"
    by (rule fold_set_rows) (rule statements_of_rows(1) [OF assms(2)])
  also have "\<dots> = rows_after U emb sim th on (rows d)"
    unfolding rows_after_def
  proof (rule map_cong [OF refl])
    fix x
    assume x: "x \<in> set (rows d)"
    obtain u n f t where q: "x = (u, n, f, t)" by (cases x)
    show "(case x of (u, n, f, t) \<Rightarrow> (u, n, f, case map_of (statements ?cs) u of Some t' \<Rightarrow> t' | None \<Rightarrow> t)) =
      (case x of (u, n, f, t) \<Rightarrow> (u, n, f,
        case new_type (ed_relation_type (edge_of_row x)) (classify_edge U emb sim th on (edge_of_row x)) of Some t' \<Rightarrow> t' | None \<Rightarrow> t))"
      using statements_of_rows(2) [OF assms(2) x, of "classify_edge U emb sim th on"] unfolding q fst_conv prod.case by simp
  qed
  finally show ?thesis .
qed

lemma row_after_stable:
  assumes "marker_free U on" "[] \<notin> rt_name ` set (on_relation_types on)" "r \<in> set (rows_after U emb sim th on rs)"
  shows "new_type (ed_relation_type (edge_of_row r)) (classify_edge U emb sim th on (edge_of_row r)) = None"
proof -
  obtain u n f t where q: "(u, n, f, t) \<in> set rs" and r: "r = (u, n, f,
      case new_type (ed_relation_type (edge_of_row (u, n, f, t))) (classify_edge U emb sim th on (edge_of_row (u, n, f, t))) of Some t' \<Rightarrow> t' | None \<Rightarrow> t)"
    using assms(3) by (auto simp: rows_after_def)
  let ?e = "edge_of_row (u, n, f, t)"
  let ?c = "classify_edge U emb sim th on ?e"
  have "t' \<noteq> []" if "new_type (ed_relation_type ?e) ?c = Some t'" for t'
  proof (cases "is_noise_edge (ed_name ?e)")
    case True
    then show ?thesis using that by (auto simp: classify_edge_def classify_edge_lexically_def new_type_def UNCLASSIFIED_def split: if_splits)
  next
    case False
    then show ?thesis using retype_cases [OF False that] assms(2) by (auto simp: UNCLASSIFIED_def)
  qed
  then have "edge_of_row r = ?e\<lparr>ed_relation_type := retyped (ed_relation_type ?e) ?c\<rparr>"
    by (cases "new_type (ed_relation_type ?e) ?c") (simp_all add: r retyped_def, simp_all add: edge_of_row_def)
  then show ?thesis by (rule classify_stable [OF assms(1) refl])
qed

text \<open>C29: the pass is idempotent.  When the edges have different UUIDs, every relation type has a name, and no alias and no
  keyword of the ontology matches the marker, then after a run that succeeded a second run over
  the same edges succeeds and executes no statement, and the edges stay as they are.\<close>

theorem canonicalize_idempotent:
  assumes "marker_free U on" "[] \<notin> rt_name ` set (on_relation_types on)"
    and E: "edges_ok rows page exec flush" and "distinct (map fst (rows d))"
    and "canonicalize_relations U emb sim th on page exec flush False d = Some (d', ss, Inr report)"
  shows "\<exists>d'' report'. canonicalize_relations U emb sim th on page exec flush False d' = Some (d'', [], Inr report') \<and> rows d'' = rows d'"
proof -
  let ?cs = "map (\<lambda>e. (ed_uuid e, ed_relation_type e, classify_edge U emb sim th on e)) (map edge_of_row (rows d'))"
  have rows: "rows d' = rows_after U emb sim th on (rows d)" using assms by (intro canonicalize_rows)
  have none: "statements ?cs = []"
    using row_after_stable [OF assms(1,2)] unfolding rows by (auto simp: statements_def List.map_filter_def filter_empty_conv)
  have cat: "concat (chunks WRITE_BATCH_SIZE ?cs) = ?cs" by (rule concat_chunks) (simp add: WRITE_BATCH_SIZE_def)
  then obtain d'' where w: "write_batches exec flush (chunks WRITE_BATCH_SIZE ?cs) d' = (d'', [], Inr ())"
    using write_batches_nothing [of "chunks WRITE_BATCH_SIZE ?cs" exec flush d'] none by auto
  then have "rows d'' = rows d'" using write_batches_statements [OF E w] by simp
  then show ?thesis using w by (simp add: canonicalize_run [OF E])
qed

section \<open>The marker and keywords\<close>

text \<open>With a keyword such as \<^verbatim>\<open>class\<close> the marker itself matches: an edge without a type is marked in the first run
  and mapped to that relation type in the second.\<close>

definition kinds_ontology :: "rstr \<Rightarrow> ontology" where
  "kinds_ontology keyword = \<lparr>on_mode = OpenMode, on_entity_types = [],
     on_relation_types = [\<lparr>rt_name = lit ''INSTANCE_OF'', rt_description = None, rt_source_type = None, rt_target_type = None,
       rt_aliases = [], rt_keywords = [keyword], rt_extract = True\<rparr>], on_ancestor_map = Map.empty\<rparr>"

lemma second_run_maps_marker:
  "classify_edge_lexically ascii_ucd (lit ''likes'') None (build_lexical_index (kinds_ontology (lit ''class''))) = Residual
   \<and> classify_edge_lexically ascii_ucd (lit ''likes'') (Some UNCLASSIFIED) (build_lexical_index (kinds_ontology (lit ''class''))) = Mapped (lit ''INSTANCE_OF'')"
proof -
  have "\<not> is_noise_edge (lit ''likes'')" using noise_has_arrow [of "lit ''likes''"] by auto
  moreover have "lexical_match ascii_ucd (build_lexical_index (kinds_ontology (lit ''class''))) (lit ''likes'') = None"
    "lexical_match ascii_ucd (build_lexical_index (kinds_ontology (lit ''class''))) UNCLASSIFIED = Some (lit ''INSTANCE_OF'')"
    by code_simp+
  moreover have "UNCLASSIFIED \<notin> li_canonical_names (build_lexical_index (kinds_ontology (lit ''class'')))"
    "UNCLASSIFIED \<notin> li_assert_only_names (build_lexical_index (kinds_ontology (lit ''class'')))"
    by (simp_all add: build_lexical_index_def kinds_ontology_def UNCLASSIFIED_def)
  ultimately show ?thesis using unclassified_not_noise by (simp add: classify_edge_lexically_def classify_by_type_def)
qed

definition toy_page :: "edge_row list \<Rightarrow> nat \<Rightarrow> nat \<Rightarrow> edge_row list result" where
  "toy_page d offset limit = Inr (take limit (drop offset d))"

definition toy_set :: "rstr \<Rightarrow> rstr \<Rightarrow> edge_row list \<Rightarrow> edge_row list \<times> unit result" where
  "toy_set u t d = (map (set_row u t) d, Inr ())"

lemma toy_edges_ok: "edges_ok id toy_page toy_set id"
  by (auto simp: edges_ok_def toy_page_def toy_set_def)

lemma toy_marker_free: "marker_free ascii_ucd (kinds_ontology (lit ''isa''))"
  unfolding marker_free_def by code_simp

lemma write_rows_total: "\<forall>u t d. \<exists>d'. exec u t d = (d', Inr ()) \<Longrightarrow> \<exists>d' ss. write_rows exec cs d = (d', ss, Inr ())"
proof (induction cs arbitrary: d)
  case (Cons a cs)
  obtain u cur c where a: "a = (u, cur, c)" by (cases a)
  show ?case
  proof (cases "new_type cur c")
    case None
    then show ?thesis using Cons a by simp
  next
    case (Some t)
    obtain d1 where e: "exec u t d = (d1, Inr ())" using Cons.prems by blast
    obtain d' ss where "write_rows exec cs d1 = (d', ss, Inr ())" using Cons.IH [OF Cons.prems] by blast
    then show ?thesis using a Some e by simp
  qed
qed simp

lemma write_batches_total: "\<forall>u t d. \<exists>d'. exec u t d = (d', Inr ()) \<Longrightarrow> \<exists>d' ss. write_batches exec flush bs d = (d', ss, Inr ())"
proof (induction bs arbitrary: d)
  case (Cons b bs)
  obtain d1 s1 where "write_rows exec b d = (d1, s1, Inr ())" using write_rows_total [OF Cons.prems] by blast
  moreover obtain d' ss where "write_batches exec flush bs (flush d1) = (d', ss, Inr ())" using Cons.IH [OF Cons.prems] by blast
  ultimately show ?case by simp
qed simp

lemma canonicalize_total:
  assumes E: "edges_ok rows page exec flush" and "\<forall>u t d. \<exists>d'. exec u t d = (d', Inr ())"
  shows "\<exists>d' ss r. canonicalize_relations U emb sim th on page exec flush False d = Some (d', ss, Inr r)"
proof -
  let ?cs = "map (\<lambda>e. (ed_uuid e, ed_relation_type e, classify_edge U emb sim th on e)) (map edge_of_row (rows d))"
  obtain d' ss where "write_batches exec flush (chunks WRITE_BATCH_SIZE ?cs) d = (d', ss, Inr ())"
    using write_batches_total [OF assms(2)] by blast
  then show ?thesis by (simp add: canonicalize_run [OF E] Let_def)
qed

definition no_embed :: "rstr \<Rightarrow> unit result" where
  "no_embed t = Inl Cancelled"

theorem canonicalize_idempotent_witness:
  "\<exists>d' ss r d'' r'. canonicalize_relations ascii_ucd no_embed (\<lambda>_ _. 0::nat) 1 (kinds_ontology (lit ''isa'')) toy_page toy_set id False [(lit ''u'', lit ''likes'', [], [])]
      = Some (d', ss, Inr r)
    \<and> canonicalize_relations ascii_ucd no_embed (\<lambda>_ _. 0::nat) 1 (kinds_ontology (lit ''isa'')) toy_page toy_set id False d' = Some (d'', [], Inr r')"
proof -
  let ?d = "[(lit ''u'', lit ''likes'', [], [])]"
  obtain d' ss r where run: "canonicalize_relations ascii_ucd no_embed (\<lambda>_ _. 0::nat) 1 (kinds_ontology (lit ''isa'')) toy_page toy_set id False ?d = Some (d', ss, Inr r)"
    using canonicalize_total [OF toy_edges_ok] by (fastforce simp: toy_set_def)
  have "[] \<notin> rt_name ` set (on_relation_types (kinds_ontology (lit ''isa'')))" by (simp add: kinds_ontology_def)
  then show ?thesis using canonicalize_idempotent [OF toy_marker_free _ toy_edges_ok _ run] run by fastforce
qed

end
