(* ===== verification/ReadPage.thy ===== *)
theory ReadPage
  imports CrossGroup Rebuild OntologyDrift "HOL-Library.Product_Lexorder"
begin

text \<open>
  Paged reads: the options of a read request, the cursors that continue it (\<^verbatim>\<open>read_page.rs\<close>), the
  two database queries that return one page, and the request handlers for entities and episodes
  (\<^verbatim>\<open>handlers.rs\<close>).  The texts and the parameters of the queries are those of the code; what the
  database answers is a parameter.  Following the cursors from the first page visits every selected
  row exactly once, in order; a cursor of another query is refused.
\<close>

section \<open>Options and projections\<close>

definition EPISODE_FIELDS :: "rstr list" where
  "EPISODE_FIELDS = [lit ''uuid'', lit ''name'', lit ''group_id'', lit ''created_at'', lit ''ingested_at'', lit ''source'',
     lit ''source_description'', lit ''content'', lit ''valid_at'', lit ''entity_edges'', lit ''attributes'']"

definition ENTITY_FIELDS :: "rstr list" where
  "ENTITY_FIELDS = [lit ''uuid'', lit ''name'', lit ''group_id'', lit ''labels'', lit ''kind'', lit ''created_at'',
     lit ''ingested_at'', lit ''summary'', lit ''attributes'', lit ''episode_uuids'', lit ''source_descriptions'']"

definition EPISODES_TAG :: rstr where "EPISODES_TAG = lit ''episodes''"

definition ENTITIES_TAG :: rstr where "ENTITIES_TAG = lit ''entities''"

definition CURSOR_VERSION :: nat where "CURSOR_VERSION = 1"

record read_opts =
  ro_cursor :: "rstr option"
  ro_fields :: "rstr list option"
  ro_name_prefix :: "rstr option"
  ro_paged :: bool

definition has_key :: "json \<Rightarrow> rstr \<Rightarrow> bool" where
  "has_key p key = (case p of JObj m \<Rightarrow> jget m key \<noteq> None | _ \<Rightarrow> False)"

definition optional_text :: "json \<Rightarrow> rstr \<Rightarrow> rstr option result" where
  "optional_text p key =
     (case value_index p key of
        JNull \<Rightarrow> Inr None
      | JStr s \<Rightarrow> if s = [] then Inr None else Inr (Some s)
      | _ \<Rightarrow> Inl (Ipc (key @ lit '' must be a string'')))"

fun read_fields :: "rstr list \<Rightarrow> json list \<Rightarrow> rstr list \<Rightarrow> rstr list result" where
  "read_fields allowed [] out = Inr out"
| "read_fields allowed (f # fs) out =
     (case as_str f of
        None \<Rightarrow> Inl (Ipc (lit ''fields must be an array of strings''))
      | Some name \<Rightarrow>
          if name \<notin> set allowed
          then Inl (Ipc (lit ''unknown field '' @ [39] @ name @ [39] @ lit '' (allowed: '' @ str_join (lit '', '') allowed @ lit '')''))
          else read_fields allowed fs (if name \<in> set out then out else out @ [name]))"

definition parse_read_opts :: "json \<Rightarrow> rstr list \<Rightarrow> read_opts result" where
  "parse_read_opts p allowed =
     (let paged = has_key p (lit ''cursor'') \<or> has_key p (lit ''fields'') \<or> has_key p (lit ''name_prefix'') in
      rbind (optional_text p (lit ''cursor'')) (\<lambda>cursor.
      rbind (optional_text p (lit ''name_prefix'')) (\<lambda>name_prefix.
      rbind (case value_index p (lit ''fields'') of
               JNull \<Rightarrow> Inr None
             | JArr arr \<Rightarrow> if arr = [] then Inl (Ipc (lit ''fields must not be empty''))
                           else rbind (read_fields allowed arr []) (\<lambda>out. Inr (Some out))
             | _ \<Rightarrow> Inl (Ipc (lit ''fields must be an array of strings''))) (\<lambda>fields.
      Inr \<lparr>ro_cursor = cursor, ro_fields = fields, ro_name_prefix = name_prefix, ro_paged = paged\<rparr>))))"

definition project :: "json \<Rightarrow> rstr list \<Rightarrow> json" where
  "project item fs =
     JObj (fold (\<lambda>f out. case value_get item f of Some v \<Rightarrow> jinsert f v out | None \<Rightarrow> out) fs [])"

section \<open>Cursors\<close>

definition json_opt :: "rstr option \<Rightarrow> json" where
  "json_opt s = (case s of None \<Rightarrow> JNull | Some t \<Rightarrow> JStr t)"

definition shape_hash ::
  "json_text \<Rightarrow> (bytes \<Rightarrow> bytes) \<Rightarrow> rstr \<Rightarrow> rstr list option \<Rightarrow> rstr option \<Rightarrow> rstr option \<Rightarrow> rstr" where
  "shape_hash J H tag groups kind name_prefix =
     (let groups = map_option (\<lambda>g. remdups_adj (sort g)) groups;
          canonical = jt_print J (JArr [JStr tag, (case groups of None \<Rightarrow> JNull | Some g \<Rightarrow> JArr (map JStr g)),
            json_opt kind, json_opt name_prefix])
      in to_hex (H (as_bytes canonical)))"

definition encode_cursor :: "json_text \<Rightarrow> rstr \<Rightarrow> rstr \<Rightarrow> json \<Rightarrow> rstr" where
  "encode_cursor J tag shape pos =
     (let payload = JObj [(lit ''v'', JNum (PosInt CURSOR_VERSION)), (lit ''t'', JStr tag), (lit ''shape'', JStr shape), (lit ''pos'', pos)]
      in to_hex (as_bytes (jt_print J payload)))"

fun hex_pairs :: "rstr \<Rightarrow> bytes option" where
  "hex_pairs [] = Some []"
| "hex_pairs [c] = None"
| "hex_pairs (c # d # s) = Option.bind (u8_from_hex [c, d]) (\<lambda>b. map_option (Cons b) (hex_pairs s))"

definition hex_decode :: "rstr \<Rightarrow> bytes option" where
  "hex_decode s = (if (\<exists>c \<in> set s. c \<ge> 128) \<or> odd (length s) then None else hex_pairs s)"

definition bad_cursor :: "rstr \<Rightarrow> error" where
  "bad_cursor why = Ipc (lit ''invalid cursor: '' @ why)"

definition decode_cursor :: "json_text \<Rightarrow> rstr \<Rightarrow> rstr \<Rightarrow> rstr \<Rightarrow> json result" where
  "decode_cursor J cursor tag shape =
     (case Option.bind (hex_decode cursor) (\<lambda>bs. Option.bind (from_utf8 bs) (jt_parse J)) of
        None \<Rightarrow> Inl (bad_cursor (lit ''malformed''))
      | Some payload \<Rightarrow>
          if as_u64 (value_index payload (lit ''v'')) \<noteq> Some CURSOR_VERSION
          then Inl (bad_cursor (lit ''unsupported version''))
          else if as_str (value_index payload (lit ''t'')) \<noteq> Some tag \<or> as_str (value_index payload (lit ''shape'')) \<noteq> Some shape
          then Inl (bad_cursor (lit ''cursor does not belong to this query''))
          else (case value_get payload (lit ''pos'') of
                  Some (JObj pos) \<Rightarrow> Inr (JObj pos)
                | _ \<Rightarrow> Inl (bad_cursor (lit ''malformed''))))"

section \<open>The queries of one page\<close>

definition i64_max :: nat where "i64_max = 9223372036854775807"

definition i64_value :: "int \<Rightarrow> json" where
  "i64_value i = (if i < 0 then JNum (NegInt i) else JNum (PosInt (nat i)))"

definition as_i64 :: "json \<Rightarrow> int option" where
  "as_i64 v = (case v of
     JNum (PosInt n) \<Rightarrow> if n \<le> i64_max then Some (int n) else None
   | JNum (NegInt i) \<Rightarrow> Some i
   | _ \<Rightarrow> None)"

definition gids_given :: "rstr list option \<Rightarrow> rstr list option" where
  "gids_given group_ids = (case group_ids of Some gids \<Rightarrow> if gids = [] then None else Some gids | None \<Rightarrow> None)"

definition where_clause :: "rstr list \<Rightarrow> rstr" where
  "where_clause preds = (if preds = [] then [] else lit ''WHERE '' @ str_join (lit '' AND '') preds @ lit '' '')"

definition opt_list :: "('a \<Rightarrow> 'b) \<Rightarrow> 'a option \<Rightarrow> 'b list" where
  "opt_list f x = (case x of None \<Rightarrow> [] | Some a \<Rightarrow> [f a])"

definition KIND_PRED :: rstr where
  "KIND_PRED = lit ''(e.kind = $kind OR (e.kind IS NULL AND $kind = '' @ [39] @ lit ''Entity'' @ [39] @ lit ''))''"

definition list_entities_query ::
  "rstr list option \<Rightarrow> nat \<Rightarrow> rstr option \<Rightarrow> rstr option \<Rightarrow> rstr option \<Rightarrow> rstr \<times> json" where
  "list_entities_query group_ids limit kind name_prefix after_uuid =
     (let gids = gids_given group_ids;
          preds = opt_list (\<lambda>_. lit ''e.group_id IN $gids'') gids @ opt_list (\<lambda>_. KIND_PRED) kind
            @ opt_list (\<lambda>_. lit ''lower(e.name) STARTS WITH lower($prefix)'') name_prefix
            @ opt_list (\<lambda>_. lit ''e.uuid < $after_uuid'') after_uuid
      in (lit ''MATCH (e:Entity) '' @ where_clause preds
            @ lit ''RETURN e.uuid, e.name, e.group_id, e.labels, e.created_at, e.summary, e.attributes, e.kind, e.ingested_at ORDER BY e.uuid DESC LIMIT $limit'',
          JObj ((lit ''limit'', JNum (PosInt (min limit i64_max))) # opt_list (\<lambda>g. (lit ''gids'', JArr (map JStr g))) gids
            @ opt_list (\<lambda>k. (lit ''kind'', JStr k)) kind @ opt_list (\<lambda>p. (lit ''prefix'', JStr p)) name_prefix
            @ opt_list (\<lambda>u. (lit ''after_uuid'', JStr u)) after_uuid)))"

definition list_entities_page ::
  "(rstr \<times> json \<Rightarrow> entity_row list result) \<Rightarrow> rstr list option \<Rightarrow> nat \<Rightarrow> rstr option \<Rightarrow> rstr option \<Rightarrow> rstr option
     \<Rightarrow> entity_row list result" where
  "list_entities_page query group_ids limit kind name_prefix after_uuid =
     query (list_entities_query group_ids limit kind name_prefix after_uuid)"

definition episode_info_query :: "rstr list \<Rightarrow> rstr list option \<Rightarrow> rstr \<times> json" where
  "episode_info_query entity_uuids group_ids =
     (let gids = gids_given group_ids in
      (lit ''MATCH (ep:Episodic)-[:MENTIONS]->(n:Entity) WHERE n.uuid IN $uuids''
         @ (if gids = None then [] else lit '' AND ep.group_id IN $gids'')
         @ lit '' RETURN DISTINCT n.uuid, ep.uuid, ep.source_description'',
       JObj ((lit ''uuids'', JArr (map JStr entity_uuids)) # opt_list (\<lambda>g. (lit ''gids'', JArr (map JStr g))) gids)))"

type_synonym episode_info = "rstr \<rightharpoonup> rstr list \<times> rstr list"

definition add_info :: "rstr \<times> rstr \<times> rstr \<Rightarrow> episode_info \<Rightarrow> episode_info" where
  "add_info row mp =
     (case row of (entity_uuid, ep_uuid, src_desc) \<Rightarrow>
        let (us, ds) = (case mp entity_uuid of None \<Rightarrow> ([], []) | Some e \<Rightarrow> e) in mp(entity_uuid \<mapsto> (us @ [ep_uuid], ds @ [src_desc])))"

definition get_episode_info_for_entities ::
  "(rstr \<times> json \<Rightarrow> (rstr \<times> rstr \<times> rstr) list result) \<Rightarrow> rstr list \<Rightarrow> rstr list option \<Rightarrow> episode_info result" where
  "get_episode_info_for_entities query entity_uuids group_ids =
     (if entity_uuids = [] then Inr Map.empty
      else rbind (query (episode_info_query entity_uuids group_ids)) (\<lambda>rows. Inr (fold add_info rows Map.empty)))"

record episodic_row =
  ep_uuid :: rstr
  ep_name :: rstr
  ep_group_id :: rstr
  ep_created_at :: rstr
  ep_source :: rstr
  ep_source_description :: rstr
  ep_content :: rstr
  ep_content_embedding :: "f64 list"
  ep_valid_at :: rstr
  ep_ingested_at :: rstr
  ep_entity_edges :: "rstr list"
  ep_attributes :: rstr

definition episodes_query ::
  "rstr list option \<Rightarrow> nat \<Rightarrow> rstr option \<Rightarrow> (rstr \<times> rstr) option \<Rightarrow> rstr \<times> json" where
  "episodes_query groups limit name_prefix after =
     (let gids = gids_given groups;
          preds = opt_list (\<lambda>_. lit ''ep.group_id IN $gids'') gids @ opt_list (\<lambda>_. lit ''ep.name STARTS WITH $prefix'') name_prefix
            @ opt_list (\<lambda>_. lit ''(ep.created_at < $created_at OR (ep.created_at = $created_at AND ep.uuid < $after_uuid))'') after
      in (lit ''MATCH (ep:Episodic) '' @ where_clause preds
            @ lit ''RETURN ep.uuid, ep.name, ep.group_id, ep.created_at, ep.source, ep.source_description, ep.content, ep.valid_at, ep.entity_edges, ep.attributes, ep.ingested_at ORDER BY ep.created_at DESC, ep.uuid DESC LIMIT $limit'',
          JObj ((lit ''limit'', JNum (PosInt (min limit i64_max))) # opt_list (\<lambda>g. (lit ''gids'', JArr (map JStr g))) gids
            @ opt_list (\<lambda>p. (lit ''prefix'', JStr p)) name_prefix
            @ (case after of None \<Rightarrow> [] | Some (t, u) \<Rightarrow> [(lit ''created_at'', JStr t), (lit ''after_uuid'', JStr u)]))))"

text \<open>\<open>stamp\<close> is the conversion of microseconds to a date by the \<^verbatim>\<open>time\<close> crate, which refuses what it cannot
  represent, and the formatting of that date.\<close>

definition retrieve_episodes_page ::
  "(rstr \<times> json \<Rightarrow> (episodic_row \<times> int) list result) \<Rightarrow> (int \<Rightarrow> rstr + rstr) \<Rightarrow> rstr list option \<Rightarrow> nat \<Rightarrow> rstr option
     \<Rightarrow> (int \<times> rstr) option \<Rightarrow> (episodic_row \<times> int) list result" where
  "retrieve_episodes_page query stamp groups limit name_prefix after =
     (case after of
        None \<Rightarrow> query (episodes_query groups limit name_prefix None)
      | Some (us, uuid) \<Rightarrow>
          (case stamp us of
             Inl e \<Rightarrow> Inl (bad_cursor e)
           | Inr t \<Rightarrow> query (episodes_query groups limit name_prefix (Some (t, uuid)))))"

section \<open>The handlers\<close>

text \<open>The database of a request: whether it can be opened, and the answers to its queries.\<close>

record page_db =
  pd_open :: "unit result"
  pd_entities :: "rstr \<times> json \<Rightarrow> entity_row list result"
  pd_info :: "rstr \<times> json \<Rightarrow> (rstr \<times> rstr \<times> rstr) list result"
  pd_episodes :: "rstr \<times> json \<Rightarrow> (episodic_row \<times> int) list result"
  pd_stamp :: "int \<Rightarrow> rstr + rstr"

definition extract_optional_group_ids :: "json \<Rightarrow> rstr list option" where
  "extract_optional_group_ids v =
     (case v of
        JArr arr \<Rightarrow> (let gids = List.map_filter as_str arr in if gids = [] then None else Some gids)
      | JStr s \<Rightarrow> Some [s]
      | _ \<Rightarrow> None)"

definition optional_kind_param :: "json \<Rightarrow> rstr option result" where
  "optional_kind_param v =
     (if v = JNull then Inr None
      else rbind (normalize_kind (Some (case as_str v of None \<Rightarrow> [] | Some s \<Rightarrow> s))) (\<lambda>k. Inr (Some k)))"

definition entity_value :: "entity_row \<Rightarrow> json" where
  "entity_value n = JObj [(lit ''uuid'', JStr (er_uuid n)), (lit ''name'', JStr (er_name n)), (lit ''group_id'', JStr (er_group_id n)),
     (lit ''labels'', JArr (map JStr (er_labels n))), (lit ''kind'', JStr (er_kind n)), (lit ''created_at'', JStr (er_created_at n)),
     (lit ''ingested_at'', JStr (er_ingested_at n)), (lit ''summary'', JStr (er_summary n)), (lit ''attributes'', JStr (er_attributes n)),
     (lit ''episode_uuids'', JArr (map JStr (er_episode_uuids n))), (lit ''source_descriptions'', JArr (map JStr (er_source_descriptions n)))]"

definition episode_value :: "episodic_row \<Rightarrow> json" where
  "episode_value e = JObj [(lit ''uuid'', JStr (ep_uuid e)), (lit ''name'', JStr (ep_name e)), (lit ''group_id'', JStr (ep_group_id e)),
     (lit ''created_at'', JStr (ep_created_at e)), (lit ''source'', JStr (ep_source e)),
     (lit ''source_description'', JStr (ep_source_description e)), (lit ''content'', JStr (ep_content e)),
     (lit ''valid_at'', JStr (ep_valid_at e)), (lit ''ingested_at'', JStr (ep_ingested_at e)),
     (lit ''entity_edges'', JArr (map JStr (ep_entity_edges e))), (lit ''attributes'', JStr (ep_attributes e))]"

definition shown :: "read_opts \<Rightarrow> json \<Rightarrow> json" where
  "shown opts item = (case ro_fields opts of Some fs \<Rightarrow> project item fs | None \<Rightarrow> item)"

definition page_response :: "rstr \<Rightarrow> read_opts \<Rightarrow> json list \<Rightarrow> rstr option \<Rightarrow> json" where
  "page_response key opts items next_cursor =
     JObj ([(key, JArr (map (shown opts) items)), (lit ''count'', JNum (PosInt (length items)))]
       @ (if ro_paged opts then [(lit ''next_cursor'', json_opt next_cursor)] else []))"

fun enrich_nodes :: "episode_info \<Rightarrow> entity_row list \<Rightarrow> entity_row list" where
  "enrich_nodes ep_info [] = []"
| "enrich_nodes ep_info (n # ns) =
     (case ep_info (er_uuid n) of
        Some (us, ds) \<Rightarrow> n\<lparr>er_episode_uuids := us, er_source_descriptions := ds\<rparr> # enrich_nodes (ep_info(er_uuid n := None)) ns
      | None \<Rightarrow> n # enrich_nodes ep_info ns)"

definition needs_enrichment :: "read_opts \<Rightarrow> bool" where
  "needs_enrichment opts =
     (case ro_fields opts of None \<Rightarrow> True | Some f \<Rightarrow> lit ''episode_uuids'' \<in> set f \<or> lit ''source_descriptions'' \<in> set f)"

definition entities_after :: "json_text \<Rightarrow> rstr \<Rightarrow> rstr option \<Rightarrow> rstr option result" where
  "entities_after J shape cursor =
     (case cursor of
        None \<Rightarrow> Inr None
      | Some c \<Rightarrow> rbind (decode_cursor J c ENTITIES_TAG shape) (\<lambda>pos.
          case as_str (value_index pos (lit ''uuid'')) of Some u \<Rightarrow> Inr (Some u) | None \<Rightarrow> Inl (bad_cursor (lit ''malformed''))))"

definition entities_reply ::
  "json_text \<Rightarrow> page_db \<Rightarrow> rstr \<Rightarrow> read_opts \<Rightarrow> rstr list option \<Rightarrow> nat \<Rightarrow> entity_row list \<Rightarrow> json" where
  "entities_reply J D shape opts group_ids num_results rows =
     (let has_more = length rows > num_results;
          page = take num_results rows;
          nodes = (if needs_enrichment opts
            then enrich_nodes (case get_episode_info_for_entities (pd_info D) (map er_uuid page) group_ids of
                   Inr ep_info \<Rightarrow> ep_info | Inl _ \<Rightarrow> Map.empty) page
            else page);
          next_cursor = (if has_more \<and> nodes \<noteq> []
            then Some (encode_cursor J ENTITIES_TAG shape (JObj [(lit ''uuid'', JStr (er_uuid (last nodes)))])) else None)
      in page_response (lit ''nodes'') opts (map entity_value nodes) next_cursor)"

definition handle_list_entities :: "ucd \<Rightarrow> json_text \<Rightarrow> (bytes \<Rightarrow> bytes) \<Rightarrow> page_db \<Rightarrow> json \<Rightarrow> json result" where
  "handle_list_entities U J H D p =
     (let num_results_raw = (case as_i64 (value_index p (lit ''num_results'')) of Some i \<Rightarrow> i | None \<Rightarrow> 500) in
      if num_results_raw \<le> 0 then Inl (Ipc (lit ''num_results must be > 0''))
      else
       (let num_results = nat num_results_raw; group_ids = extract_optional_group_ids (value_index p (lit ''group_ids'')) in
        rbind (optional_kind_param (value_index p (lit ''kind''))) (\<lambda>kind.
        rbind (parse_read_opts p ENTITY_FIELDS) (\<lambda>opts.
        let shape = shape_hash J H ENTITIES_TAG group_ids kind (map_option (ucd_lower_str U) (ro_name_prefix opts)) in
        rbind (entities_after J shape (ro_cursor opts)) (\<lambda>after_uuid.
        rbind (pd_open D) (\<lambda>_.
        rbind (list_entities_page (pd_entities D) group_ids (min (num_results + 1) u64_max) kind (ro_name_prefix opts) after_uuid) (\<lambda>rows.
        Inr (entities_reply J D shape opts group_ids num_results rows))))))))"

fun retain_first :: "'a list \<Rightarrow> 'a list \<Rightarrow> 'a list" where
  "retain_first seen [] = []"
| "retain_first seen (x # xs) = (if x \<in> set seen then retain_first seen xs else x # retain_first (x # seen) xs)"

definition episode_group_scope :: "json \<Rightarrow> rstr list option" where
  "episode_group_scope p =
     (let gids = (case extract_optional_group_ids (value_index p (lit ''group_ids'')) of None \<Rightarrow> [] | Some g \<Rightarrow> g);
          one = (case as_str (value_index p (lit ''group_id'')) of Some g \<Rightarrow> if g = [] then [] else [g] | None \<Rightarrow> []);
          out = retain_first [] (gids @ one)
      in if out = [] then None else Some out)"

definition episodes_after :: "json_text \<Rightarrow> rstr \<Rightarrow> rstr option \<Rightarrow> (int \<times> rstr) option result" where
  "episodes_after J shape cursor =
     (case cursor of
        None \<Rightarrow> Inr None
      | Some c \<Rightarrow> rbind (decode_cursor J c EPISODES_TAG shape) (\<lambda>pos.
          case (as_i64 (value_index pos (lit ''created_at_us'')), as_str (value_index pos (lit ''uuid''))) of
            (Some us, Some u) \<Rightarrow> Inr (Some (us, u))
          | _ \<Rightarrow> Inl (bad_cursor (lit ''malformed''))))"

definition episodes_reply :: "json_text \<Rightarrow> rstr \<Rightarrow> read_opts \<Rightarrow> nat \<Rightarrow> (episodic_row \<times> int) list \<Rightarrow> json" where
  "episodes_reply J shape opts last_n rows =
     (let page = (if length rows > last_n then take last_n rows else rows);
          next_cursor = (if length rows > last_n \<and> page \<noteq> []
            then Some (encode_cursor J EPISODES_TAG shape
                   (JObj [(lit ''created_at_us'', i64_value (snd (last page))), (lit ''uuid'', JStr (ep_uuid (fst (last page))))])) else None)
      in page_response (lit ''episodes'') opts (map (episode_value \<circ> fst) page) next_cursor)"

definition handle_get_episodes :: "json_text \<Rightarrow> (bytes \<Rightarrow> bytes) \<Rightarrow> page_db \<Rightarrow> json \<Rightarrow> json result" where
  "handle_get_episodes J H D p =
     (let last_n = (case as_u64 (value_index p (lit ''last_n'')) of Some n \<Rightarrow> n | None \<Rightarrow> 50) in
      rbind (parse_read_opts p EPISODE_FIELDS) (\<lambda>opts.
      let groups = episode_group_scope p;
          shape = shape_hash J H EPISODES_TAG groups None (ro_name_prefix opts) in
      rbind (episodes_after J shape (ro_cursor opts)) (\<lambda>after.
      rbind (pd_open D) (\<lambda>_.
      rbind (retrieve_episodes_page (pd_episodes D) (pd_stamp D) groups (min (last_n + 1) u64_max) (ro_name_prefix opts) after) (\<lambda>rows.
      Inr (episodes_reply J shape opts last_n rows))))))"

section \<open>Hexadecimal text and cursors\<close>

text \<open>What is relied on of the JSON library: a value without floating-point numbers, whose numbers are in
  range and whose objects have no key twice, is printed as a valid string and parsed back.\<close>

fun json_exact :: "json \<Rightarrow> bool" where
  "json_exact JNull = True"
| "json_exact (JBool b) = True"
| "json_exact (JNum (PosInt n)) = (n \<le> u64_max)"
| "json_exact (JNum (NegInt i)) = (- (2 ^ 63) \<le> i \<and> i < 0)"
| "json_exact (JNum (Float x)) = False"
| "json_exact (JStr s) = valid_str s"
| "json_exact (JArr xs) = list_all json_exact xs"
| "json_exact (JObj m) = (distinct (map fst m) \<and> list_all (\<lambda>e. valid_str (fst e) \<and> json_exact (snd e)) m)"

definition json_exact_ok :: "json_text \<Rightarrow> bool" where
  "json_exact_ok J \<longleftrightarrow> (\<forall>v. json_exact v \<longrightarrow> valid_str (jt_print J v) \<and> jt_print J v \<noteq> [] \<and> jt_parse J (jt_print J v) = Some v)"

lemma hex_lower_digit: "d < 16 \<Longrightarrow> hex_digit (hex_lower d) = Some d \<and> hex_lower d < 128 \<and> hex_lower d \<noteq> 43"
  by (auto simp: hex_digit_def hex_lower_def)

lemma u8_from_hex_lower:
  assumes "b < 256"
  shows "u8_from_hex [hex_lower (b div 16), hex_lower (b mod 16)] = Some b"
proof -
  have "b div 16 < 16" "b mod 16 < 16" "b div 16 * 16 + b mod 16 = b" using assms by auto
  then show ?thesis using assms hex_lower_digit [of "b div 16"] hex_lower_digit [of "b mod 16"]
    by (simp add: u8_from_hex_def from_str_radix_def Let_def)
qed

lemma to_hex_ascii: "\<forall>b \<in> set bs. b < 256 \<Longrightarrow> \<forall>c \<in> set (to_hex bs). c < 128"
  using hex_lower_digit by (fastforce simp: to_hex_def less_mult_imp_div_less)

lemma valid_str_hex: "\<forall>b \<in> set bs. b < 256 \<Longrightarrow> valid_str (to_hex bs)"
  by (rule valid_str_ascii) (rule to_hex_ascii)

lemma hex_decode_to_hex:
  assumes "\<forall>b \<in> set bs. b < 256"
  shows "hex_decode (to_hex bs) = Some bs"
proof -
  have "hex_pairs (to_hex bs) = Some bs" using assms by (induction bs) (simp_all add: to_hex_def u8_from_hex_lower)
  moreover have "even (length (to_hex bs))" by (induction bs) (simp_all add: to_hex_def)
  ultimately show ?thesis using to_hex_ascii [OF assms] by (auto simp: hex_decode_def)
qed

lemma to_hex_inj: "\<forall>b \<in> set xs. b < 256 \<Longrightarrow> \<forall>b \<in> set ys. b < 256 \<Longrightarrow> to_hex xs = to_hex ys \<Longrightarrow> xs = ys"
  using hex_decode_to_hex by (metis option.inject)

lemma jt_print_inj:
  "json_exact_ok J \<Longrightarrow> json_exact v \<Longrightarrow> json_exact w \<Longrightarrow> jt_print J v = jt_print J w \<Longrightarrow> v = w"
  by (metis json_exact_ok_def option.inject)

lemma valid_str_lit: "valid_str (lit s)"
proof -
  have "of_char c < (256 :: nat)" for c by (metis mod_less_divisor of_char_mod_256 zero_less_numeral)
  then have "is_scalar (of_char c)" for c using less_trans [of "of_char c" "256 :: nat" 55296] by (simp add: is_scalar_def)
  then show ?thesis by (simp add: valid_str_def list_all_iff lit_def)
qed

lemma payload_printed:
  assumes "json_exact_ok J" "json_exact (JObj pos)" "valid_str tag" "valid_str shape"
    and "payload = JObj [(lit ''v'', JNum (PosInt CURSOR_VERSION)), (lit ''t'', JStr tag), (lit ''shape'', JStr shape), (lit ''pos'', JObj pos)]"
  shows "valid_str (jt_print J payload)" "jt_print J payload \<noteq> []" "jt_parse J (jt_print J payload) = Some payload"
proof -
  have "json_exact payload" using assms(2-5) valid_str_lit [of "''v''"] valid_str_lit [of "''t''"] valid_str_lit [of "''shape''"]
      valid_str_lit [of "''pos''"]
    by (simp add: CURSOR_VERSION_def u64_max_def)
  then show "valid_str (jt_print J payload)" "jt_print J payload \<noteq> []" "jt_parse J (jt_print J payload) = Some payload"
    using assms(1) by (simp_all add: json_exact_ok_def)
qed

lemma decode_encode_cursor:
  assumes J: "json_exact_ok J" and "json_exact (JObj pos)" "valid_str tag" "valid_str shape"
  shows "decode_cursor J (encode_cursor J tag shape (JObj pos)) tag' shape' =
    (if tag = tag' \<and> shape = shape' then Inr (JObj pos) else Inl (bad_cursor (lit ''cursor does not belong to this query'')))"
proof -
  let ?payload = "JObj [(lit ''v'', JNum (PosInt CURSOR_VERSION)), (lit ''t'', JStr tag), (lit ''shape'', JStr shape), (lit ''pos'', JObj pos)]"
  note v = payload_printed [OF assms refl]
  have "Option.bind (hex_decode (encode_cursor J tag shape (JObj pos))) (\<lambda>bs. Option.bind (from_utf8 bs) (jt_parse J)) = Some ?payload"
    using v as_bytes_byte [OF v(1)] by (simp add: encode_cursor_def Let_def hex_decode_to_hex from_utf8_as_bytes del: lit_Cons)
  then show ?thesis by (auto simp: decode_cursor_def value_index_def value_get_def jget_def as_u64_def as_str_def)
qed

lemma distinct_sorted_remdups_adj: "sorted xs \<Longrightarrow> distinct (remdups_adj xs)" for xs :: "'a::linorder list"
  by (induction xs rule: remdups_adj.induct) (auto simp: less_le_not_le)

lemma sorted_set_eq: "remdups_adj (sort xs) = remdups_adj (sort ys) \<longleftrightarrow> set xs = set (ys :: 'a::linorder list)"
proof -
  have "remdups_adj (sort xs) = sorted_list_of_set (set xs)" for xs :: "'a list"
    by (rule sorted_distinct_set_unique) (simp_all add: distinct_sorted_remdups_adj)
  then show ?thesis by (metis List.finite_set sorted_list_of_set_inject)
qed

definition shape_value :: "rstr \<Rightarrow> rstr list option \<Rightarrow> rstr option \<Rightarrow> rstr option \<Rightarrow> json" where
  "shape_value tag groups kind name_prefix =
     JArr [JStr tag, (case groups of None \<Rightarrow> JNull | Some g \<Rightarrow> JArr (map JStr (remdups_adj (sort g)))), json_opt kind, json_opt name_prefix]"

lemma shape_hash_value: "shape_hash J H tag groups kind name_prefix = to_hex (H (as_bytes (jt_print J (shape_value tag groups kind name_prefix))))"
  by (cases groups) (simp_all add: shape_hash_def shape_value_def Let_def)

lemma shape_value_eq:
  "shape_value tag gs k np = shape_value tag' gs' k' np' \<longleftrightarrow> tag = tag' \<and> map_option set gs = map_option set gs' \<and> k = k' \<and> np = np'"
proof -
  have "inj JStr" by (simp add: inj_def)
  then show ?thesis
    by (auto simp: shape_value_def json_opt_def inj_map_eq_map sorted_set_eq split: option.splits)
qed

lemma shape_value_exact:
  "valid_str tag \<Longrightarrow> \<forall>g \<in> set_option gs. \<forall>s \<in> set g. valid_str s \<Longrightarrow> \<forall>s \<in> set_option k. valid_str s \<Longrightarrow> \<forall>s \<in> set_option np. valid_str s
     \<Longrightarrow> json_exact (shape_value tag gs k np)"
  by (auto simp: shape_value_def json_opt_def list_all_iff split: option.splits)

definition scope_texts :: "rstr list option \<Rightarrow> rstr option \<Rightarrow> rstr option \<Rightarrow> rstr set" where
  "scope_texts gs k np = (case gs of None \<Rightarrow> {} | Some g \<Rightarrow> set g) \<union> set_option k \<union> set_option np"

text \<open>C31: a cursor continues exactly the query it came from.  For a digest that tells the two shapes apart, a
  cursor handed out for one query is decoded to its position by a query with the same target, the
  same set of groups, the same kind and the same prefix, and refused by every other query.\<close>

theorem cursor_belongs_to_query:
  assumes "json_exact_ok J" "digest_bytes H" "json_exact (JObj pos)" "valid_str tag" "valid_str tag'"
    and "\<forall>s \<in> scope_texts gs k np \<union> scope_texts gs' k' np'. valid_str s"
    and coll: "H (as_bytes (jt_print J (shape_value tag gs k np))) = H (as_bytes (jt_print J (shape_value tag' gs' k' np')))
      \<Longrightarrow> jt_print J (shape_value tag gs k np) = jt_print J (shape_value tag' gs' k' np')"
  shows "decode_cursor J (encode_cursor J tag (shape_hash J H tag gs k np) (JObj pos)) tag' (shape_hash J H tag' gs' k' np') =
    (if tag = tag' \<and> map_option set gs = map_option set gs' \<and> k = k' \<and> np = np' then Inr (JObj pos)
     else Inl (Ipc (lit ''invalid cursor: cursor does not belong to this query'')))"
proof -
  let ?v = "shape_value tag gs k np" and ?w = "shape_value tag' gs' k' np'"
  have ex: "json_exact ?v" "json_exact ?w" using assms(4-6)
    by (auto intro!: shape_value_exact simp: scope_texts_def split: option.splits)
  have b: "\<forall>b \<in> set (H x). b < 256" for x using assms(2) by (simp add: digest_bytes_def)
  have "shape_hash J H tag gs k np = shape_hash J H tag' gs' k' np' \<longleftrightarrow> ?v = ?w"
    using to_hex_inj [OF b b] coll jt_print_inj [OF assms(1) ex] by (auto simp: shape_hash_value)
  moreover have "valid_str (shape_hash J H tag gs k np)" by (simp add: shape_hash_value valid_str_hex [OF b])
  ultimately show ?thesis using decode_encode_cursor [OF assms(1,3,4)] shape_value_eq [of tag gs k np tag' gs' k' np']
    by (auto simp: bad_cursor_def)
qed

section \<open>Following the cursors\<close>

text \<open>A client that asks for page after page until there is no further cursor, \<open>k\<close> pages at most.\<close>

fun follow_cursors :: "(json \<Rightarrow> json result) \<Rightarrow> rstr \<Rightarrow> jmap \<Rightarrow> nat \<Rightarrow> rstr \<Rightarrow> json list result" where
  "follow_cursors h key m 0 c = Inr []"
| "follow_cursors h key m (Suc k) c =
     rbind (h (JObj (jinsert (lit ''cursor'') (JStr c) m))) (\<lambda>r.
       case value_index r key of
         JArr xs \<Rightarrow> (case value_index r (lit ''next_cursor'') of
             JStr c' \<Rightarrow> rbind (follow_cursors h key m k c') (\<lambda>ys. Inr (xs @ ys))
           | _ \<Rightarrow> Inr xs)
       | _ \<Rightarrow> Inr [])"

lemma keyset_rest:
  fixes key :: "'a \<Rightarrow> 'k::linorder"
  assumes s: "sorted_wrt (\<lambda>a b. key b < key a) rows" and i: "i < length rows"
  shows "filter (\<lambda>r. key r < key (rows ! i)) rows = drop (Suc i) rows"
proof -
  let ?x = "rows ! i"
  have eq: "rows = take i rows @ ?x # drop (Suc i) rows" by (rule id_take_nth_drop [OF i])
  from s have "sorted_wrt (\<lambda>a b. key b < key a) (take i rows @ ?x # drop (Suc i) rows)" by (subst (asm) eq) simp
  then have "\<forall>r \<in> set (take i rows). \<not> key r < key ?x" "\<forall>r \<in> set (drop (Suc i) rows). key r < key ?x"
    by (auto simp: sorted_wrt_append)
  then have "filter (\<lambda>r. key r < key ?x) (take i rows @ ?x # drop (Suc i) rows) = drop (Suc i) rows"
    by (simp add: filter_empty_conv filter_id_conv)
  then show ?thesis by (subst (2) eq) simp
qed

definition page_cursor :: "(nat \<Rightarrow> rstr) \<Rightarrow> nat \<Rightarrow> rstr" where
  "page_cursor enc i = (if i = 0 then [] else enc (i - 1))"

lemma follow_cursors_complete:
  assumes n: "0 < n"
    and step: "\<And>i. i = 0 \<or> i < length rows \<Longrightarrow> \<exists>r xs. h (JObj (jinsert (lit ''cursor'') (JStr (page_cursor enc i)) m)) = Inr r
      \<and> value_index r key = JArr xs \<and> map view xs = map row_view (take n (drop i rows))
      \<and> value_index r (lit ''next_cursor'') = json_opt (if i + n < length rows then Some (page_cursor enc (i + n)) else None)"
  shows "i = 0 \<or> i < length rows \<Longrightarrow> length rows \<le> i + k * n \<Longrightarrow>
    \<exists>xs. follow_cursors h key m k (page_cursor enc i) = Inr xs \<and> map view xs = map row_view (drop i rows)"
proof (induction k arbitrary: i)
  case 0
  then show ?case by simp
next
  case (Suc k)
  obtain r xs where r: "h (JObj (jinsert (lit ''cursor'') (JStr (page_cursor enc i)) m)) = Inr r" "value_index r key = JArr xs"
      "map view xs = map row_view (take n (drop i rows))"
      "value_index r (lit ''next_cursor'') = json_opt (if i + n < length rows then Some (page_cursor enc (i + n)) else None)"
    using step [OF Suc.prems(1)] by blast
  show ?case
  proof (cases "i + n < length rows")
    case True
    obtain ys where ys: "follow_cursors h key m k (page_cursor enc (i + n)) = Inr ys" "map view ys = map row_view (drop (i + n) rows)"
      using Suc.IH [of "i + n"] True Suc.prems(2) by (auto simp: algebra_simps)
    have "drop i rows = take n (drop i rows) @ drop (i + n) rows" by (metis append_take_drop_id add.commute drop_drop)
    then have "map row_view (drop i rows) = map view (xs @ ys)" using r(3) ys(2) by (metis map_append)
    then show ?thesis using r(1,2,4) ys(1) True by (simp add: json_opt_def)
  next
    case False
    then show ?thesis using r by (simp add: json_opt_def)
  qed
qed

section \<open>One page of a handler\<close>

lemma value_index_insert: "value_index (JObj (jinsert k v m)) k' = (if k' = k then v else value_index (JObj m) k')"
  by (simp add: value_index_def value_get_def jget_insert)

lemma has_key_insert: "has_key (JObj (jinsert k v m)) k' = (k' = k \<or> has_key (JObj m) k')"
  by (simp add: has_key_def jget_insert)

lemma keys_differ:
  "lit ''name_prefix'' \<noteq> lit ''cursor''" "lit ''fields'' \<noteq> lit ''cursor''" "lit ''num_results'' \<noteq> lit ''cursor''"
  "lit ''group_ids'' \<noteq> lit ''cursor''" "lit ''kind'' \<noteq> lit ''cursor''" "lit ''last_n'' \<noteq> lit ''cursor''" "lit ''group_id'' \<noteq> lit ''cursor''"
  by simp_all

lemma optional_text_insert:
  "optional_text (JObj (jinsert k v m)) k' = (if k' = k then optional_text (JObj [(k, v)]) k else optional_text (JObj m) k')"
  by (cases "k' = k") (simp_all add: optional_text_def value_index_def value_get_def jget_insert jget_def)

lemma parse_opts_cursor:
  assumes "parse_read_opts (JObj m) allowed = Inr opts"
  shows "parse_read_opts (JObj (jinsert (lit ''cursor'') (JStr c) m)) allowed =
    Inr (opts\<lparr>ro_cursor := (if c = [] then None else Some c), ro_paged := True\<rparr>)"
proof -
  have "optional_text (JObj [(lit ''cursor'', JStr c)]) (lit ''cursor'') = Inr (if c = [] then None else Some c)"
    by (simp add: optional_text_def value_index_def value_get_def jget_def del: lit_Cons)
  then show ?thesis using assms
    by (auto simp: parse_read_opts_def optional_text_insert value_index_insert has_key_insert keys_differ rbind_Inr_iff simp del: lit_Cons)
qed

lemma project_get: "value_get (project item fs) f = (if f \<in> set fs then value_get item f else None)"
proof -
  have "jget (fold (\<lambda>f out. case value_get item f of Some v \<Rightarrow> jinsert f v out | None \<Rightarrow> out) fs out) f
      = (if f \<in> set fs \<and> value_get item f \<noteq> None then value_get item f else jget out f)" for out
    by (induction fs arbitrary: out) (auto simp: jget_insert split: option.splits)
  then show ?thesis by (auto simp: project_def value_get_def jget_def)
qed

definition shows_uuid :: "read_opts \<Rightarrow> bool" where
  "shows_uuid opts \<longleftrightarrow> (case ro_fields opts of None \<Rightarrow> True | Some fs \<Rightarrow> lit ''uuid'' \<in> set fs)"

lemma shown_uuid: "shows_uuid opts \<Longrightarrow> value_index (shown opts item) (lit ''uuid'') = value_index item (lit ''uuid'')"
  by (simp add: shows_uuid_def shown_def value_index_def project_get del: lit_Cons split: option.splits)

lemma entity_value_uuid: "value_index (entity_value n) (lit ''uuid'') = JStr (er_uuid n)"
  by (simp add: entity_value_def value_index_def value_get_def jget_def del: lit_Cons)

lemma episode_value_uuid: "value_index (episode_value n) (lit ''uuid'') = JStr (ep_uuid n)"
  by (simp add: episode_value_def value_index_def value_get_def jget_def del: lit_Cons)

lemma page_response_fields:
  assumes "ro_paged opts" "key \<in> {lit ''nodes'', lit ''episodes''}"
  shows "value_index (page_response key opts items nc) key = JArr (map (shown opts) items)"
    "value_index (page_response key opts items nc) (lit ''next_cursor'') = json_opt nc"
  using assms by (auto simp: page_response_def value_index_def value_get_def jget_def)

lemma enrich_nodes_uuid: "map er_uuid (enrich_nodes mp ns) = map er_uuid ns"
  by (induction ns arbitrary: mp) (auto split: option.splits)

lemma encode_cursor_nonempty:
  assumes "json_exact_ok J" "json_exact (JObj pos)" "valid_str tag" "valid_str shape"
  shows "encode_cursor J tag shape (JObj pos) \<noteq> []"
proof -
  have "to_hex (as_bytes s) \<noteq> []" if "s \<noteq> []" for s
    using that utf8_encode1_nonempty [of "hd s"] by (cases s; cases "utf8_encode1 (hd s)") (simp_all add: as_bytes_def to_hex_def)
  then show ?thesis using payload_printed(2) [OF assms refl] by (simp add: encode_cursor_def Let_def del: lit_Cons)
qed

section \<open>Every row exactly once\<close>

text \<open>What is relied on of the database: it selects the rows of a request in descending order of their keys, which
  are distinct, leaves out those that are not below the given key, and returns as many as asked for.\<close>

definition below :: "('r \<Rightarrow> 'k::linorder) \<Rightarrow> 'k option \<Rightarrow> 'r \<Rightarrow> bool" where
  "below key after r \<longleftrightarrow> (case after of None \<Rightarrow> True | Some k \<Rightarrow> key r < k)"

definition entities_view_ok ::
  "page_db \<Rightarrow> (rstr list option \<Rightarrow> rstr option \<Rightarrow> rstr option \<Rightarrow> entity_row list) \<Rightarrow> bool" where
  "entities_view_ok D sel \<longleftrightarrow>
     (\<forall>g k np. sorted_wrt (\<lambda>a b. er_uuid b < er_uuid a) (sel g k np) \<and> (\<forall>r \<in> set (sel g k np). valid_str (er_uuid r)))
   \<and> (\<forall>g limit k np after. list_entities_page (pd_entities D) g limit k np after
        = Inr (take (min limit i64_max) (filter (below er_uuid after) (sel g k np))))"

definition row_cursor :: "json_text \<Rightarrow> rstr \<Rightarrow> rstr \<Rightarrow> ('r \<Rightarrow> jmap) \<Rightarrow> 'r list \<Rightarrow> nat \<Rightarrow> rstr" where
  "row_cursor J tag shape pos rows i = encode_cursor J tag shape (JObj (pos (rows ! i)))"

lemma page_rows:
  fixes key :: "'a \<Rightarrow> 'k::linorder"
  assumes "sorted_wrt (\<lambda>a b. key b < key a) rows" "i = 0 \<or> i < length rows"
  shows "filter (below key (if i = 0 then None else Some (key (rows ! (i - 1))))) rows = drop i rows"
  using keyset_rest [OF assms(1), of "i - 1"] assms(2) by (cases i) (auto simp: below_def [abs_def])

lemma last_of_page: "0 < n \<Longrightarrow> i + n < length rows \<Longrightarrow> last (take n (drop i rows)) = rows ! (i + n - 1)"
  by (simp add: last_conv_nth)

lemma shape_hash_valid: "digest_bytes H \<Longrightarrow> valid_str (shape_hash J H tag gs k np)"
  by (simp add: shape_hash_value valid_str_hex digest_bytes_def)

definition entity_pos :: "entity_row \<Rightarrow> jmap" where
  "entity_pos r = [(lit ''uuid'', JStr (er_uuid r))]"

lemma entities_after_page:
  assumes "json_exact_ok J" "valid_str shape" "\<forall>r \<in> set rows. valid_str (er_uuid r)" "i = 0 \<or> i < length rows"
    and "c = page_cursor (row_cursor J ENTITIES_TAG shape entity_pos rows) i"
  shows "entities_after J shape (if c = [] then None else Some c) = Inr (if i = 0 then None else Some (er_uuid (rows ! (i - 1))))"
proof (cases "i = 0")
  case True
  then show ?thesis using assms(5) by (simp add: entities_after_def page_cursor_def)
next
  case False
  let ?r = "rows ! (i - 1)"
  have "?r \<in> set rows" using False assms(4) by simp
  then have ex: "json_exact (JObj (entity_pos ?r))" using assms(3) valid_str_lit [of "''uuid''"] by (simp add: entity_pos_def)
  have tag: "valid_str ENTITIES_TAG" unfolding ENTITIES_TAG_def by (rule valid_str_lit)
  have c: "c = encode_cursor J ENTITIES_TAG shape (JObj (entity_pos ?r))" using False assms(5) by (simp add: page_cursor_def row_cursor_def)
  then have "c \<noteq> []" using encode_cursor_nonempty [OF assms(1) ex tag assms(2)] by simp
  moreover have "decode_cursor J c ENTITIES_TAG shape = Inr (JObj (entity_pos ?r))" using decode_encode_cursor [OF assms(1) ex tag assms(2)] c by simp
  ultimately show ?thesis using False
    by (simp add: entities_after_def entity_pos_def value_index_def value_get_def jget_def as_str_def)
qed

lemma entities_reply_page:
  assumes "0 < n" "ro_paged opts" "shows_uuid opts" "enc = row_cursor J ENTITIES_TAG shape entity_pos rows"
  shows "\<exists>xs. value_index (entities_reply J D shape opts gids n (take (Suc n) (drop i rows))) (lit ''nodes'') = JArr xs
    \<and> map (\<lambda>x. value_index x (lit ''uuid'')) xs = map (\<lambda>r. JStr (er_uuid r)) (take n (drop i rows))
    \<and> value_index (entities_reply J D shape opts gids n (take (Suc n) (drop i rows))) (lit ''next_cursor'')
      = json_opt (if i + n < length rows then Some (page_cursor enc (i + n)) else None)"
proof -
  let ?page = "take n (drop i rows)"
  let ?info = "case get_episode_info_for_entities (pd_info D) (map er_uuid ?page) gids of Inr e \<Rightarrow> e | Inl _ \<Rightarrow> Map.empty"
  define nodes where "nodes = (if needs_enrichment opts then enrich_nodes ?info ?page else ?page)"
  define nxt where "nxt = (if i + n < length rows \<and> nodes \<noteq> []
    then Some (encode_cursor J ENTITIES_TAG shape (JObj [(lit ''uuid'', JStr (er_uuid (last nodes)))])) else None)"
  have uuids: "map er_uuid nodes = map er_uuid ?page" by (simp add: nodes_def enrich_nodes_uuid)
  have "entities_reply J D shape opts gids n (take (Suc n) (drop i rows)) = page_response (lit ''nodes'') opts (map entity_value nodes) nxt"
  proof -
    have "n < length (take (Suc n) (drop i rows)) \<longleftrightarrow> i + n < length rows" by auto
    moreover have "take n (take (Suc n) (drop i rows)) = ?page" by simp
    ultimately show ?thesis unfolding entities_reply_def Let_def nodes_def nxt_def by (simp only:)
  qed
  moreover have "nxt = (if i + n < length rows then Some (page_cursor enc (i + n)) else None)"
  proof (cases "i + n < length rows")
    case True
    then have ne: "?page \<noteq> []" using assms(1) by simp
    then have "nodes \<noteq> []" using uuids by auto
    moreover have "er_uuid (last nodes) = er_uuid (last ?page)" using uuids ne \<open>nodes \<noteq> []\<close> by (metis last_map)
    ultimately show ?thesis using True last_of_page [OF assms(1) True] assms(1)
      by (simp add: nxt_def assms(4) page_cursor_def row_cursor_def entity_pos_def del: lit_Cons)
  qed (simp add: nxt_def)
  moreover have "map (\<lambda>x. value_index x (lit ''uuid'')) (map (shown opts) (map entity_value nodes)) = map JStr (map er_uuid nodes)"
    using shown_uuid [OF assms(3)] entity_value_uuid by (simp del: lit_Cons)
  ultimately show ?thesis using page_response_fields [OF assms(2), of "lit ''nodes''"] uuids by (simp add: comp_def del: lit_Cons)
qed

lemma list_entities_step:
  assumes codec: "json_exact_ok J" "digest_bytes H" and view: "entities_view_ok D sel" and open_ok: "pd_open D = Inr ()"
    and n: "as_i64 (value_index (JObj m) (lit ''num_results'')) = Some (int n)" "0 < n" "n < i64_max"
    and kind: "optional_kind_param (value_index (JObj m) (lit ''kind'')) = Inr kind"
    and opts: "parse_read_opts (JObj m) ENTITY_FIELDS = Inr opts"
    and gids: "gids = extract_optional_group_ids (value_index (JObj m) (lit ''group_ids''))"
    and rows: "rows = sel gids kind (ro_name_prefix opts)"
    and shape: "shape = shape_hash J H ENTITIES_TAG gids kind (map_option (ucd_lower_str U) (ro_name_prefix opts))"
    and c: "c = page_cursor (row_cursor J ENTITIES_TAG shape entity_pos rows) i"
    and i: "i = 0 \<or> i < length rows"
  shows "handle_list_entities U J H D (JObj (jinsert (lit ''cursor'') (JStr c) m)) =
    Inr (entities_reply J D shape (opts\<lparr>ro_cursor := (if c = [] then None else Some c), ro_paged := True\<rparr>) gids n (take (Suc n) (drop i rows)))"
proof -
  have srt: "sorted_wrt (\<lambda>a b. er_uuid b < er_uuid a) rows" and val: "\<forall>r \<in> set rows. valid_str (er_uuid r)"
    and page: "\<And>limit after. list_entities_page (pd_entities D) gids limit kind (ro_name_prefix opts) after
        = Inr (take (min limit i64_max) (filter (below er_uuid after) rows))"
    using view rows by (simp_all add: entities_view_ok_def)
  have aft: "entities_after J shape (if c = [] then None else Some c) = Inr (if i = 0 then None else Some (er_uuid (rows ! (i - 1))))"
    by (rule entities_after_page [OF codec(1) _ val i c]) (use shape shape_hash_valid [OF codec(2)] in simp)
  have lim: "min (min (n + 1) u64_max) i64_max = Suc n" using n(3) by (simp add: u64_max_def i64_max_def)
  have "list_entities_page (pd_entities D) gids (min (n + 1) u64_max) kind (ro_name_prefix opts)
      (if i = 0 then None else Some (er_uuid (rows ! (i - 1)))) = Inr (take (Suc n) (drop i rows))"
    unfolding page page_rows [OF srt i] lim ..
  then show ?thesis
    using n(1,2) parse_opts_cursor [OF opts, of c] kind open_ok aft
    by (simp add: handle_list_entities_def value_index_insert keys_differ gids [symmetric] shape [symmetric] del: lit_Cons)
qed

text \<open>C30: listing the entities page by page.  With a page size \<open>n\<close> and at least as many requests as needed, a client
  that follows the cursors receives every selected entity exactly once, in the order of the
  database, and no request fails.\<close>

theorem entities_walk_complete:
  assumes "json_exact_ok J" "digest_bytes H" "entities_view_ok D sel" "pd_open D = Inr ()"
    and "as_i64 (value_index (JObj m) (lit ''num_results'')) = Some (int n)" "0 < n" "n < i64_max"
    and "optional_kind_param (value_index (JObj m) (lit ''kind'')) = Inr kind"
    and "parse_read_opts (JObj m) ENTITY_FIELDS = Inr opts" "shows_uuid opts"
    and "rows = sel (extract_optional_group_ids (value_index (JObj m) (lit ''group_ids''))) kind (ro_name_prefix opts)"
    and "length rows \<le> k * n"
  shows "\<exists>xs. follow_cursors (handle_list_entities U J H D) (lit ''nodes'') m k [] = Inr xs
    \<and> map (\<lambda>x. value_index x (lit ''uuid'')) xs = map (\<lambda>r. JStr (er_uuid r)) rows \<and> distinct (map er_uuid rows)"
proof -
  let ?shape = "shape_hash J H ENTITIES_TAG (extract_optional_group_ids (value_index (JObj m) (lit ''group_ids''))) kind
    (map_option (ucd_lower_str U) (ro_name_prefix opts))"
  define enc where "enc = row_cursor J ENTITIES_TAG ?shape entity_pos rows"
  have "\<exists>r xs. handle_list_entities U J H D (JObj (jinsert (lit ''cursor'') (JStr (page_cursor enc i)) m)) = Inr r
      \<and> value_index r (lit ''nodes'') = JArr xs \<and> map (\<lambda>x. value_index x (lit ''uuid'')) xs = map (\<lambda>r. JStr (er_uuid r)) (take n (drop i rows))
      \<and> value_index r (lit ''next_cursor'') = json_opt (if i + n < length rows then Some (page_cursor enc (i + n)) else None)"
    if "i = 0 \<or> i < length rows" for i
    using list_entities_step [OF assms(1-9) refl assms(11) refl _ that, of "page_cursor enc i"]
      entities_reply_page [OF assms(6), of "opts\<lparr>ro_cursor := _, ro_paged := True\<rparr>"] assms(10)
    by (simp add: enc_def shows_uuid_def del: lit_Cons)
  from follow_cursors_complete [OF assms(6) this, of 0 k] have "\<exists>xs. follow_cursors (handle_list_entities U J H D) (lit ''nodes'') m k [] = Inr xs
      \<and> map (\<lambda>x. value_index x (lit ''uuid'')) xs = map (\<lambda>r. JStr (er_uuid r)) rows"
    using assms(12) by (simp add: page_cursor_def del: lit_Cons)
  moreover have "distinct (map er_uuid rows)"
  proof -
    have "sorted_wrt (>) (map er_uuid rows)" using assms(3,11) by (simp add: entities_view_ok_def sorted_wrt_map)
    then show ?thesis by (metis sorted_wrt_rev strict_sorted_iff distinct_rev rev_rev_ident)
  qed
  ultimately show ?thesis by blast
qed

section \<open>Episodes\<close>

definition episode_key :: "episodic_row \<times> int \<Rightarrow> int \<times> rstr" where
  "episode_key r = (snd r, ep_uuid (fst r))"

definition episode_pos :: "episodic_row \<times> int \<Rightarrow> jmap" where
  "episode_pos r = [(lit ''created_at_us'', i64_value (snd r)), (lit ''uuid'', JStr (ep_uuid (fst r)))]"

definition episodes_view_ok :: "page_db \<Rightarrow> (rstr list option \<Rightarrow> rstr option \<Rightarrow> (episodic_row \<times> int) list) \<Rightarrow> bool" where
  "episodes_view_ok D sel \<longleftrightarrow>
     (\<forall>g np. sorted_wrt (\<lambda>a b. episode_key b < episode_key a) (sel g np)
        \<and> (\<forall>r \<in> set (sel g np). valid_str (ep_uuid (fst r)) \<and> - (2 ^ 63) \<le> snd r \<and> snd r < 2 ^ 63))
   \<and> (\<forall>g limit np after. after = None \<or> (\<exists>r \<in> set (sel g np). after = Some (episode_key r)) \<longrightarrow>
        retrieve_episodes_page (pd_episodes D) (pd_stamp D) g limit np after
          = Inr (take (min limit i64_max) (filter (below episode_key after) (sel g np))))"

lemma i64_roundtrip: "- (2 ^ 63) \<le> i \<Longrightarrow> i < 2 ^ 63 \<Longrightarrow> as_i64 (i64_value i) = Some i \<and> json_exact (i64_value i)"
  by (auto simp: i64_value_def as_i64_def i64_max_def u64_max_def)

lemma episodes_after_page:
  assumes "json_exact_ok J" "valid_str shape" "\<forall>r \<in> set rows. valid_str (ep_uuid (fst r)) \<and> - (2 ^ 63) \<le> snd r \<and> snd r < 2 ^ 63"
    and "i = 0 \<or> i < length rows" "c = page_cursor (row_cursor J EPISODES_TAG shape episode_pos rows) i"
  shows "episodes_after J shape (if c = [] then None else Some c) = Inr (if i = 0 then None else Some (episode_key (rows ! (i - 1))))"
proof (cases "i = 0")
  case True
  then show ?thesis using assms(5) by (simp add: episodes_after_def page_cursor_def)
next
  case False
  let ?r = "rows ! (i - 1)"
  have "?r \<in> set rows" using False assms(4) by simp
  then have i64: "as_i64 (i64_value (snd ?r)) = Some (snd ?r) \<and> json_exact (i64_value (snd ?r))" and "valid_str (ep_uuid (fst ?r))"
    using assms(3) i64_roundtrip by blast+
  then have ex: "json_exact (JObj (episode_pos ?r))" using valid_str_lit [of "''uuid''"] valid_str_lit [of "''created_at_us''"]
    by (simp add: episode_pos_def)
  have tag: "valid_str EPISODES_TAG" unfolding EPISODES_TAG_def by (rule valid_str_lit)
  have c: "c = encode_cursor J EPISODES_TAG shape (JObj (episode_pos ?r))" using False assms(5) by (simp add: page_cursor_def row_cursor_def)
  then have "c \<noteq> []" using encode_cursor_nonempty [OF assms(1) ex tag assms(2)] by simp
  moreover have "decode_cursor J c EPISODES_TAG shape = Inr (JObj (episode_pos ?r))" using decode_encode_cursor [OF assms(1) ex tag assms(2)] c by simp
  ultimately show ?thesis using False i64
    by (simp add: episodes_after_def episode_pos_def episode_key_def value_index_def value_get_def jget_def as_str_def)
qed

lemma episodes_reply_page:
  assumes "0 < n" "ro_paged opts" "shows_uuid opts" "enc = row_cursor J EPISODES_TAG shape episode_pos rows"
  shows "\<exists>xs. value_index (episodes_reply J shape opts n (take (Suc n) (drop i rows))) (lit ''episodes'') = JArr xs
    \<and> map (\<lambda>x. value_index x (lit ''uuid'')) xs = map (\<lambda>r. JStr (ep_uuid (fst r))) (take n (drop i rows))
    \<and> value_index (episodes_reply J shape opts n (take (Suc n) (drop i rows))) (lit ''next_cursor'')
      = json_opt (if i + n < length rows then Some (page_cursor enc (i + n)) else None)"
proof -
  let ?page = "take n (drop i rows)" and ?nxt = "if i + n < length rows then Some (page_cursor enc (i + n)) else None"
  have more: "n < length (take (Suc n) (drop i rows)) \<longleftrightarrow> i + n < length rows" by auto
  have page: "(if i + n < length rows then take n (take (Suc n) (drop i rows)) else take (Suc n) (drop i rows)) = ?page" by simp
  have "(if i + n < length rows \<and> ?page \<noteq> [] then Some (encode_cursor J EPISODES_TAG shape
      (JObj [(lit ''created_at_us'', i64_value (snd (last ?page))), (lit ''uuid'', JStr (ep_uuid (fst (last ?page))))])) else None) = ?nxt"
    using last_of_page [OF assms(1), of i rows] assms(1)
    by (auto simp: assms(4) page_cursor_def row_cursor_def episode_pos_def simp del: lit_Cons)
  then have "episodes_reply J shape opts n (take (Suc n) (drop i rows)) = page_response (lit ''episodes'') opts (map (episode_value \<circ> fst) ?page) ?nxt"
    unfolding episodes_reply_def Let_def more page by (simp only:)
  moreover have "map (\<lambda>x. value_index x (lit ''uuid'')) (map (shown opts) (map (episode_value \<circ> fst) ?page)) = map (\<lambda>r. JStr (ep_uuid (fst r))) ?page"
    using shown_uuid [OF assms(3)] episode_value_uuid by (simp del: lit_Cons)
  ultimately show ?thesis using page_response_fields [OF assms(2), of "lit ''episodes''"] by (simp del: lit_Cons)
qed

lemma get_episodes_step:
  assumes codec: "json_exact_ok J" "digest_bytes H" and view: "episodes_view_ok D sel" and open_ok: "pd_open D = Inr ()"
    and n: "as_u64 (value_index (JObj m) (lit ''last_n'')) = Some n" "n < i64_max"
    and opts: "parse_read_opts (JObj m) EPISODE_FIELDS = Inr opts"
    and rows: "rows = sel (episode_group_scope (JObj m)) (ro_name_prefix opts)"
    and shape: "shape = shape_hash J H EPISODES_TAG (episode_group_scope (JObj m)) None (ro_name_prefix opts)"
    and c: "c = page_cursor (row_cursor J EPISODES_TAG shape episode_pos rows) i"
    and i: "i = 0 \<or> i < length rows"
  shows "handle_get_episodes J H D (JObj (jinsert (lit ''cursor'') (JStr c) m)) =
    Inr (episodes_reply J shape (opts\<lparr>ro_cursor := (if c = [] then None else Some c), ro_paged := True\<rparr>) n (take (Suc n) (drop i rows)))"
proof -
  let ?after = "if i = 0 then None else Some (episode_key (rows ! (i - 1)))"
  have srt: "sorted_wrt (\<lambda>a b. episode_key b < episode_key a) rows"
    and val: "\<forall>r \<in> set rows. valid_str (ep_uuid (fst r)) \<and> - (2 ^ 63) \<le> snd r \<and> snd r < 2 ^ 63"
    using view rows unfolding episodes_view_ok_def by blast+
  have "?after = None \<or> (\<exists>r \<in> set rows. ?after = Some (episode_key r))" using i by auto
  then have page: "retrieve_episodes_page (pd_episodes D) (pd_stamp D) (episode_group_scope (JObj m)) limit (ro_name_prefix opts) ?after
      = Inr (take (min limit i64_max) (filter (below episode_key ?after) rows))" for limit
    using view unfolding episodes_view_ok_def rows by blast
  have aft: "episodes_after J shape (if c = [] then None else Some c) = Inr ?after"
    by (rule episodes_after_page [OF codec(1) _ val i c]) (use shape shape_hash_valid [OF codec(2)] in simp)
  have lim: "min (min (n + 1) u64_max) i64_max = Suc n" using n(2) by (simp add: u64_max_def i64_max_def)
  have scope: "episode_group_scope (JObj (jinsert (lit ''cursor'') (JStr c) m)) = episode_group_scope (JObj m)"
    by (simp add: episode_group_scope_def value_index_insert keys_differ del: lit_Cons)
  have "retrieve_episodes_page (pd_episodes D) (pd_stamp D) (episode_group_scope (JObj m)) (min (n + 1) u64_max) (ro_name_prefix opts) ?after
      = Inr (take (Suc n) (drop i rows))"
    unfolding page page_rows [OF srt i] lim ..
  then show ?thesis
    using n(1) parse_opts_cursor [OF opts, of c] open_ok aft
    by (simp add: handle_get_episodes_def value_index_insert keys_differ scope shape [symmetric] del: lit_Cons)
qed

text \<open>Retrieving episodes page by page.  Where several episodes have the same time, the cursor also holds the
  identifier of the last one; a client that follows the cursors receives every selected episode
  exactly once, in the order of the database, and no request fails.\<close>

lemma episodes_walk_complete:
  assumes "json_exact_ok J" "digest_bytes H" "episodes_view_ok D sel" "pd_open D = Inr ()"
    and "as_u64 (value_index (JObj m) (lit ''last_n'')) = Some n" "n < i64_max" "0 < n"
    and "parse_read_opts (JObj m) EPISODE_FIELDS = Inr opts" "shows_uuid opts"
    and "rows = sel (episode_group_scope (JObj m)) (ro_name_prefix opts)" "length rows \<le> k * n"
  shows "\<exists>xs. follow_cursors (handle_get_episodes J H D) (lit ''episodes'') m k [] = Inr xs
    \<and> map (\<lambda>x. value_index x (lit ''uuid'')) xs = map (\<lambda>r. JStr (ep_uuid (fst r))) rows"
proof -
  let ?shape = "shape_hash J H EPISODES_TAG (episode_group_scope (JObj m)) None (ro_name_prefix opts)"
  define enc where "enc = row_cursor J EPISODES_TAG ?shape episode_pos rows"
  have "\<exists>r xs. handle_get_episodes J H D (JObj (jinsert (lit ''cursor'') (JStr (page_cursor enc i)) m)) = Inr r
      \<and> value_index r (lit ''episodes'') = JArr xs
      \<and> map (\<lambda>x. value_index x (lit ''uuid'')) xs = map (\<lambda>r. JStr (ep_uuid (fst r))) (take n (drop i rows))
      \<and> value_index r (lit ''next_cursor'') = json_opt (if i + n < length rows then Some (page_cursor enc (i + n)) else None)"
    if "i = 0 \<or> i < length rows" for i
    using get_episodes_step [OF assms(1-6,8) assms(10) refl _ that, of "page_cursor enc i"]
      episodes_reply_page [OF assms(7), of "opts\<lparr>ro_cursor := _, ro_paged := True\<rparr>"] assms(9)
    by (simp add: enc_def shows_uuid_def del: lit_Cons)
  from follow_cursors_complete [OF assms(7) this, of 0 k] show ?thesis
    using assms(11) by (simp add: page_cursor_def del: lit_Cons)
qed

section \<open>Concrete pages\<close>

lemma plain_json_text_ok: "json_exact_ok plain_json_text"
  by (auto simp: json_exact_ok_def plain_json_text_def intro!: valid_str_ascii)

lemma no_digest: "digest_bytes (\<lambda>_. [])"
  by (simp add: digest_bytes_def)

definition same_bytes :: "bytes \<Rightarrow> bytes" where
  "same_bytes = map (\<lambda>b. b mod 256)"

lemma same_bytes_print: "same_bytes (as_bytes (jt_print plain_json_text v)) = jt_print plain_json_text v"
proof -
  have a: "\<forall>c \<in> set (jt_print plain_json_text v). c < 128" by (auto simp: plain_json_text_def)
  have "map (\<lambda>b. b mod 256) s = s" if "\<forall>c \<in> set s. c < 128" for s :: rstr
    using that by (intro map_idI) auto
  with a show ?thesis by (simp add: same_bytes_def as_bytes_ascii [OF a])
qed

theorem cursor_belongs_to_query_witness:
  "decode_cursor plain_json_text (encode_cursor plain_json_text ENTITIES_TAG
      (shape_hash plain_json_text same_bytes ENTITIES_TAG (Some [[103], [102]]) None None) (JObj []))
     ENTITIES_TAG (shape_hash plain_json_text same_bytes ENTITIES_TAG (Some [[102], [103], [102]]) None None) = Inr (JObj [])
   \<and> decode_cursor plain_json_text (encode_cursor plain_json_text ENTITIES_TAG
      (shape_hash plain_json_text same_bytes ENTITIES_TAG (Some [[103]]) None None) (JObj []))
     ENTITIES_TAG (shape_hash plain_json_text same_bytes ENTITIES_TAG (Some [[102]]) None None)
       = Inl (Ipc (lit ''invalid cursor: cursor does not belong to this query''))"
proof -
  have tag: "valid_str ENTITIES_TAG" unfolding ENTITIES_TAG_def by (rule valid_str_lit)
  have d: "digest_bytes same_bytes" by (auto simp: digest_bytes_def same_bytes_def)
  have p: "json_exact (JObj [])" by simp
  have s: "\<forall>s \<in> scope_texts (Some gs) None None \<union> scope_texts (Some gs') None None. valid_str s" if "\<forall>s \<in> set gs \<union> set gs'. valid_str s" for gs gs'
    using that by (simp add: scope_texts_def)
  have v: "valid_str [102]" "valid_str [103]" by (simp_all add: valid_str_def is_scalar_def)
  note cb = cursor_belongs_to_query [OF plain_json_text_ok d p tag tag s, unfolded same_bytes_print]
  have "set [[103], [102 :: nat]] = set [[102], [103], [102]]" by auto
  then show ?thesis using cb [of "[[103], [102]]" "[[102], [103], [102]]"] cb [of "[[103]]" "[[102]]"] v by simp
qed

definition toy_entities :: "entity_row list" where
  "toy_entities = map (\<lambda>u. \<lparr>er_uuid = u, er_name = [], er_group_id = [], er_labels = [], er_kind = [], er_created_at = [],
     er_ingested_at = [], er_name_embedding = [], er_summary = [], er_attributes = [], er_episode_uuids = [],
     er_source_descriptions = [], er_summary_embedding = []\<rparr>) [lit ''b'', lit ''a'']"

definition toy_episodes :: "(episodic_row \<times> int) list" where
  "toy_episodes = map (\<lambda>u. (\<lparr>ep_uuid = u, ep_name = [], ep_group_id = [], ep_created_at = [], ep_source = [],
     ep_source_description = [], ep_content = [], ep_content_embedding = [], ep_valid_at = [], ep_ingested_at = [],
     ep_entity_edges = [], ep_attributes = []\<rparr>, 0)) [lit ''b'', lit ''a'']"

definition param_limit :: "json \<Rightarrow> nat" where
  "param_limit ps = (case as_u64 (value_index ps (lit ''limit'')) of Some n \<Rightarrow> n | None \<Rightarrow> 0)"

definition toy_page_db :: page_db where
  "toy_page_db = \<lparr>pd_open = Inr (),
     pd_entities = (\<lambda>(_, ps). Inr (take (param_limit ps) (filter (below er_uuid (as_str (value_index ps (lit ''after_uuid'')))) toy_entities))),
     pd_info = (\<lambda>_. Inr []),
     pd_episodes = (\<lambda>(_, ps). Inr (take (param_limit ps)
       (filter (below episode_key (map_option (Pair 0) (as_str (value_index ps (lit ''after_uuid''))))) toy_episodes))),
     pd_stamp = (\<lambda>us. if us = 0 then Inr [] else Inl [])\<rparr>"

lemma param_cases:
  "param_limit (JObj ((lit ''limit'', JNum (PosInt n)) # m)) = n"
  "value_index (snd (list_entities_query g l k np after)) (lit ''after_uuid'') = json_opt after"
  "value_index (snd (episodes_query g l np (map_option (Pair t) u))) (lit ''after_uuid'') = json_opt u"
  by (simp add: param_limit_def value_index_def value_get_def jget_def as_u64_def del: lit_Cons)
    (simp_all add: list_entities_query_def episodes_query_def Let_def value_index_def value_get_def jget_def opt_list_def json_opt_def
      del: list.map split: option.splits)

lemma toy_views_ok: "entities_view_ok toy_page_db (\<lambda>_ _ _. toy_entities)" "episodes_view_ok toy_page_db (\<lambda>_ _. toy_episodes)"
proof -
  have as: "as_str (json_opt u) = u" for u by (cases u) (simp_all add: json_opt_def as_str_def)
  have lim: "param_limit (snd (list_entities_query g l k np after)) = min l i64_max"
    "param_limit (snd (episodes_query g l np aft)) = min l i64_max" for g l k np after aft
    by (simp_all add: list_entities_query_def episodes_query_def Let_def param_cases(1) del: lit_Cons)
  have v: "valid_str [97]" "valid_str [98]" by (simp_all add: valid_str_def is_scalar_def)
  show "entities_view_ok toy_page_db (\<lambda>_ _ _. toy_entities)"
    by (simp add: entities_view_ok_def list_entities_page_def split_beta toy_page_db_def lim param_cases as del: lit_Cons)
      (simp add: toy_entities_def v)
  have "retrieve_episodes_page (pd_episodes toy_page_db) (pd_stamp toy_page_db) g limit np after =
      Inr (take (min limit i64_max) (filter (below episode_key after) toy_episodes))"
    if "after = None \<or> (\<exists>r \<in> set toy_episodes. after = Some (episode_key r))" for g limit np after
  proof -
    have "after = map_option (Pair 0) (map_option snd after)" using that by (auto simp: toy_episodes_def episode_key_def)
    then obtain u where u: "after = map_option (Pair 0) u" ..
    show ?thesis using param_cases(3) [of g limit np "[]" u] lim(2) [of g limit np "map_option (Pair []) u"]
      by (cases u) (simp_all add: retrieve_episodes_page_def toy_page_db_def u as split_beta del: lit_Cons)
  qed
  then show "episodes_view_ok toy_page_db (\<lambda>_ _. toy_episodes)"
    unfolding episodes_view_ok_def by (auto simp: toy_episodes_def episode_key_def v)
qed

theorem entities_walk_complete_witness:
  "\<exists>xs. follow_cursors (handle_list_entities ascii_ucd plain_json_text (\<lambda>_. []) toy_page_db) (lit ''nodes'')
       [(lit ''num_results'', JNum (PosInt 1))] 2 [] = Inr xs
     \<and> map (\<lambda>x. value_index x (lit ''uuid'')) xs = [JStr (lit ''b''), JStr (lit ''a'')]"
proof -
  let ?m = "[(lit ''num_results'', JNum (PosInt 1))]"
  have "parse_read_opts (JObj ?m) ENTITY_FIELDS = Inr \<lparr>ro_cursor = None, ro_fields = None, ro_name_prefix = None, ro_paged = False\<rparr>"
    by (simp add: parse_read_opts_def has_key_def optional_text_def value_index_def value_get_def jget_def)
  moreover have "as_i64 (value_index (JObj ?m) (lit ''num_results'')) = Some (int 1)"
    by (simp add: value_index_def value_get_def jget_def as_i64_def i64_max_def)
  moreover have "optional_kind_param (value_index (JObj ?m) (lit ''kind'')) = Inr None"
    by (simp add: value_index_def value_get_def jget_def optional_kind_param_def)
  ultimately show ?thesis
    using entities_walk_complete [OF plain_json_text_ok no_digest toy_views_ok(1), of ?m 1 None _ toy_entities 2 ascii_ucd]
    by (simp add: toy_page_db_def i64_max_def shows_uuid_def) (simp add: toy_entities_def)
qed

theorem episodes_walk_complete_witness:
  "\<exists>xs. follow_cursors (handle_get_episodes plain_json_text (\<lambda>_. []) toy_page_db) (lit ''episodes'')
       [(lit ''last_n'', JNum (PosInt 1))] 2 [] = Inr xs
     \<and> map (\<lambda>x. value_index x (lit ''uuid'')) xs = [JStr (lit ''b''), JStr (lit ''a'')]"
proof -
  let ?m = "[(lit ''last_n'', JNum (PosInt 1))]"
  have "parse_read_opts (JObj ?m) EPISODE_FIELDS = Inr \<lparr>ro_cursor = None, ro_fields = None, ro_name_prefix = None, ro_paged = False\<rparr>"
    by (simp add: parse_read_opts_def has_key_def optional_text_def value_index_def value_get_def jget_def)
  moreover have "as_u64 (value_index (JObj ?m) (lit ''last_n'')) = Some 1"
    by (simp add: value_index_def value_get_def jget_def as_u64_def)
  ultimately show ?thesis
    using episodes_walk_complete [OF plain_json_text_ok no_digest toy_views_ok(2), of ?m 1 _ toy_episodes 2]
    by (simp add: toy_page_db_def i64_max_def shows_uuid_def) (simp add: toy_episodes_def)
qed

end
