(* ===== verification/WalMigrate.thy ===== *)
theory WalMigrate
  imports Rebuild
begin

text \<open>
  The migration of an old WAL root with a single stream at its top level into the directory of the
  default group (\<^verbatim>\<open>wal_group.rs\<close>).  The states between its file-system calls are listed by
  \<open>migration_states\<close>, so that an interruption can be followed by another attempt, and another one.
  Whatever was interrupted how often, the next attempt that runs to its end leaves every artifact
  in the directory of the default group, with its content, and a generation beside it.
\<close>

section \<open>The migration\<close>

definition is_legacy_top_level_wal_artifact :: "fsys \<Rightarrow> path \<Rightarrow> rstr \<Rightarrow> bool" where
  "is_legacy_top_level_wal_artifact fs wal_root name =
     (if is_dir fs (wal_root @ [name]) then name = CHECKPOINTS_DIR_NAME
      else ends_with (lit ''.jsonl'') name \<or> name = WAL_BOUNDS_MANIFEST_FILE
        \<or> (starts_with (lit ''.wal-bounds.'') name \<and> ends_with (lit ''.tmp'') name) \<or> name = WAL_GENERATION_FILE)"

definition loose_entries :: "fsys \<Rightarrow> path \<Rightarrow> rstr list result" where
  "loose_entries fs wal_root =
     rbind (read_dir fs wal_root) (\<lambda>ns. Inr (filter (is_legacy_top_level_wal_artifact fs wal_root) ns))"

definition default_dir :: "path \<Rightarrow> path" where
  "default_dir wal_root = wal_root @ [DEFAULT_GROUP_ID]"

definition remove_loose :: "path \<Rightarrow> fsys \<Rightarrow> fsys \<times> unit result" where
  "remove_loose p fs = (case remove_file p fs of Inl e \<Rightarrow> (fs, Inl e) | Inr fs1 \<Rightarrow> (fs1, Inr ()))"

definition relocate_generation :: "path \<Rightarrow> rstr list \<Rightarrow> fsys \<Rightarrow> fsys \<times> unit result" where
  "relocate_generation wal_root loose fs =
     (if WAL_GENERATION_FILE \<notin> set loose then (fs, Inr ())
      else
       (let loose_generation = generation_file_path wal_root; dest = generation_file_path (default_dir wal_root) in
        case hard_link loose_generation dest fs of
          Inr fs1 \<Rightarrow> remove_loose loose_generation fs1
        | Inl e \<Rightarrow>
            if e = WalIo AlreadyExists
            then (case read_file fs loose_generation of
                    Inl e1 \<Rightarrow> (fs, Inl e1)
                  | Inr loose_bytes \<Rightarrow>
                      (case read_file fs dest of
                         Inl e2 \<Rightarrow> (fs, Inl e2)
                       | Inr dest_bytes \<Rightarrow>
                           if loose_bytes = dest_bytes then remove_loose loose_generation fs
                           else (fs, Inl (Ipc (lit ''cannot migrate WAL root: a loose and a destination generation disagree'')))))
            else (fs, Inl e)))"

fun relocate_entries :: "path \<Rightarrow> rstr list \<Rightarrow> fsys \<Rightarrow> fsys \<times> unit result" where
  "relocate_entries wal_root [] fs = (fs, Inr ())"
| "relocate_entries wal_root (file_name # es) fs =
     (let dest = default_dir wal_root @ [file_name] in
      if fs_exists fs dest then relocate_entries wal_root es fs
      else (case rename (wal_root @ [file_name]) dest fs of
              Inl e \<Rightarrow> (fs, Inl e)
            | Inr fs1 \<Rightarrow> relocate_entries wal_root es fs1))"

definition migrate_wal_root_if_needed :: "gen_codec \<Rightarrow> (nat \<Rightarrow> rstr) \<Rightarrow> path \<Rightarrow> fsys \<Rightarrow> fsys \<times> unit result" where
  "migrate_wal_root_if_needed c uu wal_root fs =
     (if \<not> fs_exists fs wal_root then (fs, Inr ())
      else
       (case loose_entries fs wal_root of
          Inl e \<Rightarrow> (fs, Inl e)
        | Inr loose \<Rightarrow>
            if loose = [] then (fs, Inr ())
            else
             (case create_dir_all (default_dir wal_root) fs of
                Inl e \<Rightarrow> (fs, Inl e)
              | Inr fs1 \<Rightarrow>
                  (case relocate_generation wal_root loose fs1 of
                     (fs2, Inl e) \<Rightarrow> (fs2, Inl e)
                   | (fs2, Inr _) \<Rightarrow>
                       (case ensure_generation c uu (default_dir wal_root) fs2 of
                          (fs3, Inl e) \<Rightarrow> (fs3, Inl e)
                        | (fs3, Inr _) \<Rightarrow> relocate_entries wal_root loose fs3)))))"

section \<open>Its intermediate states\<close>

text \<open>The states in which a run can be interrupted: before and after creating the directory, between linking
  and removing a loose generation, after minting, and after each renaming.\<close>

fun relocation_states :: "path \<Rightarrow> rstr list \<Rightarrow> fsys \<Rightarrow> fsys list" where
  "relocation_states wal_root [] fs = [fs]"
| "relocation_states wal_root (file_name # es) fs =
     fs # (let dest = default_dir wal_root @ [file_name] in
       if fs_exists fs dest then relocation_states wal_root es fs
       else (case rename (wal_root @ [file_name]) dest fs of
               Inl e \<Rightarrow> []
             | Inr fs1 \<Rightarrow> relocation_states wal_root es fs1))"

definition migration_states :: "gen_codec \<Rightarrow> (nat \<Rightarrow> rstr) \<Rightarrow> path \<Rightarrow> fsys \<Rightarrow> fsys list" where
  "migration_states c uu wal_root fs =
     fs # (case loose_entries fs wal_root of
        Inl e \<Rightarrow> []
      | Inr loose \<Rightarrow>
          if loose = [] then []
          else
           (case create_dir_all (default_dir wal_root) fs of
              Inl e \<Rightarrow> []
            | Inr fs1 \<Rightarrow>
                fs1 # (case hard_link (generation_file_path wal_root) (generation_file_path (default_dir wal_root)) fs1 of
                   Inr fs' \<Rightarrow> if WAL_GENERATION_FILE \<in> set loose then [fs'] else []
                 | Inl _ \<Rightarrow> [])
                @ (case relocate_generation wal_root loose fs1 of
                   (fs2, Inl e) \<Rightarrow> []
                 | (fs2, Inr _) \<Rightarrow>
                     fs2 # (case ensure_generation c uu (default_dir wal_root) fs2 of
                        (fs3, Inl e) \<Rightarrow> []
                      | (fs3, Inr _) \<Rightarrow> relocation_states wal_root loose fs3))))"

text \<open>The last of them is where the run ends.\<close>

lemma relocation_states_last:
  "relocate_entries wal_root es fs = (fs', Inr ()) \<Longrightarrow> last (relocation_states wal_root es fs) = fs'"
proof (induction es arbitrary: fs)
  case (Cons e es)
  have "relocation_states wal_root es f \<noteq> []" for f by (cases es) simp_all
  with Cons show ?case by (auto simp: Let_def split: if_splits sum.splits)
qed simp

lemma migration_states_last:
  assumes "migrate_wal_root_if_needed c uu wal_root fs = (fs', Inr ())"
  shows "last (migration_states c uu wal_root fs) = fs'"
proof (cases "\<exists>loose. loose_entries fs wal_root = Inr loose \<and> loose \<noteq> []")
  case False
  then have "migration_states c uu wal_root fs = [fs]" by (auto simp: migration_states_def split: sum.splits)
  then show ?thesis using assms False by (auto simp: migrate_wal_root_if_needed_def split: if_splits sum.splits)
next
  case True
  then obtain loose where l: "loose_entries fs wal_root = Inr loose" "loose \<noteq> []" by blast
  then have "fs_exists fs wal_root" by (auto simp: loose_entries_def read_dir_def fs_exists_def is_dir_def split: if_splits)
  then obtain fs1 fs2 g fs3 where "create_dir_all (default_dir wal_root) fs = Inr fs1"
      "relocate_generation wal_root loose fs1 = (fs2, Inr ())" "ensure_generation c uu (default_dir wal_root) fs2 = (fs3, Inr g)"
      and r: "relocate_entries wal_root loose fs3 = (fs', Inr ())"
    using assms l unfolding migrate_wal_root_if_needed_def by (simp split: sum.splits prod.splits)
  moreover have "relocation_states wal_root loose fs3 \<noteq> []" by (cases loose) simp_all
  ultimately show ?thesis using l relocation_states_last [OF r] by (simp add: migration_states_def last_append)
qed

section \<open>Moved artifacts\<close>

text \<open>The view of a file system in which the entries \<open>M\<close> of the root were moved to the default group.\<close>

definition moved :: "path \<Rightarrow> rstr set \<Rightarrow> (path \<rightharpoonup> node) \<Rightarrow> path \<rightharpoonup> node" where
  "moved root M f p =
     (if take (length root) p \<noteq> root then f p
      else case drop (length root) p of
        [] \<Rightarrow> f p
      | n # q \<Rightarrow>
          if n \<in> M then None
          else if n = DEFAULT_GROUP_ID
          then (case q of [] \<Rightarrow> f p | e # q' \<Rightarrow> if e \<in> M then f (root @ e # q') else f p)
          else f p)"

lemma moved_below:
  "moved root M f (root @ n # q) =
     (if n \<in> M then None
      else if n = DEFAULT_GROUP_ID
      then (case q of [] \<Rightarrow> f (root @ n # q) | e # q' \<Rightarrow> if e \<in> M then f (root @ e # q') else f (root @ n # q))
      else f (root @ n # q))"
  by (simp add: moved_def)

lemma moved_elsewhere: "(\<And>n q. p \<noteq> root @ n # q) \<Longrightarrow> moved root M f p = f p"
proof -
  assume other: "\<And>n q. p \<noteq> root @ n # q"
  have "drop (length root) p = []" if t: "take (length root) p = root"
  proof (rule ccontr)
    assume "drop (length root) p \<noteq> []"
    then obtain n q where "drop (length root) p = n # q" by (cases "drop (length root) p") simp_all
    then have "p = root @ n # q" using t append_take_drop_id [of "length root" p] by simp
    with other show False by blast
  qed
  then show ?thesis by (auto simp: moved_def)
qed

lemma path_below_cases:
  obtains (below) n q where "p = root @ n # q" | (elsewhere) "\<And>n q. p \<noteq> root @ n # q"
  by blast

lemma moved_empty [simp]: "moved root {} f = f"
  by (rule ext) (auto simp: moved_def split: list.splits)

lemma map_of_rekey:
  "(\<And>q. map_of xs q \<noteq> None \<Longrightarrow> f q = k \<longleftrightarrow> q = k') \<Longrightarrow> map_of (map (\<lambda>(q, n). (f q, n)) xs) k = map_of xs k'"
proof (induction xs)
  case (Cons x xs)
  obtain q n where x: "x = (q, n)" by (cases x)
  have here: "f q = k \<longleftrightarrow> q = k'" using Cons.prems [of q] x by simp
  show ?case
  proof (cases "q = k'")
    case True
    then show ?thesis using here x by simp
  next
    case False
    have "f p = k \<longleftrightarrow> p = k'" if "map_of xs p \<noteq> None" for p
      using Cons.prems [of p] that here False x by (cases "p = q") auto
    from Cons.IH [OF this] show ?thesis using here False x by simp
  qed
qed simp

lemma rename_moves:
  assumes r: "rename (root @ [e]) (root @ [DEFAULT_GROUP_ID, e]) fs = Inr fs'" and e: "e \<noteq> DEFAULT_GROUP_ID"
    and free: "\<And>q. fs_get fs (root @ DEFAULT_GROUP_ID # e # q) = None"
  shows "fs_get fs' = moved root {e} (fs_get fs)"
proof
  fix p
  let ?src = "root @ [e]" and ?dst = "root @ [DEFAULT_GROUP_ID, e]"
  have "fs_get (fs_del ?dst fs) = fs_get fs" using free [of "[]"] by (auto simp: fun_eq_iff)
  then have keys: "map_of (fs_del ?dst fs) q = fs_get fs q" for q unfolding fs_get_def by simp
  have fs': "fs_get fs' k = map_of (map (\<lambda>(q, n). (move_path ?src ?dst q, n)) (fs_del ?dst fs)) k" for k
    using r by (auto simp: rename_def fs_get_def split: if_splits)
  have mv: "move_path ?src ?dst q = (if \<exists>t. q = root @ e # t then root @ DEFAULT_GROUP_ID # e # drop (Suc (length root)) q else q)" for q
    by (auto simp: move_path_def) (metis append.assoc append_Cons append_Nil append_take_drop_id)
  show "fs_get fs' p = moved root {e} (fs_get fs) p"
  proof (cases p root rule: path_below_cases)
    case (below n q)
    consider (src) "n = e" | (dst) q' where "n = DEFAULT_GROUP_ID" "q = e # q'" | (other) "n \<noteq> e" "\<And>q'. n = DEFAULT_GROUP_ID \<Longrightarrow> q \<noteq> e # q'" by blast
    then show ?thesis
    proof cases
      case src
      have "p \<noteq> move_path ?src ?dst k" for k using e src below by (auto simp: mv split: if_splits)
      then have "map_of (map (\<lambda>(q, n). (move_path ?src ?dst q, n)) xs) p = None" for xs by (induction xs) (simp_all add: split_beta)
      then show ?thesis using src below fs' by (simp add: moved_below)
    next
      case dst
      have "move_path ?src ?dst k = p \<longleftrightarrow> k = root @ e # q'" if "map_of (fs_del ?dst fs) k \<noteq> None" for k
        using that free below dst e by (auto simp: mv keys)
      from map_of_rekey [of "fs_del ?dst fs", OF this] show ?thesis using dst below e fs' keys by (simp add: moved_below)
    next
      case other
      have "move_path ?src ?dst k = p \<longleftrightarrow> k = p" if "map_of (fs_del ?dst fs) k \<noteq> None" for k
        using other below by (auto simp: mv)
      from map_of_rekey [of "fs_del ?dst fs", OF this] show ?thesis using other below fs' keys by (auto simp: moved_below split: list.splits)
    qed
  next
    case elsewhere
    have "move_path ?src ?dst k = p \<longleftrightarrow> k = p" if "map_of (fs_del ?dst fs) k \<noteq> None" for k
      using elsewhere by (auto simp: mv)
    from map_of_rekey [of "fs_del ?dst fs", OF this] show ?thesis using moved_elsewhere [OF elsewhere] fs' keys by simp
  qed
qed

section \<open>The states of a migration\<close>

definition legacy_names :: "fsys \<Rightarrow> path \<Rightarrow> rstr set" where
  "legacy_names fs root = {n. fs_exists fs (root @ [n]) \<and> is_legacy_top_level_wal_artifact fs root n}"

definition mview :: "path \<Rightarrow> (path \<rightharpoonup> node) \<Rightarrow> rstr set \<Rightarrow> node option \<Rightarrow> node option \<Rightarrow> node option \<Rightarrow> path \<rightharpoonup> node" where
  "mview root f M dv gd gl = (moved root M f)(root @ [DEFAULT_GROUP_ID] := dv, root @ [DEFAULT_GROUP_ID, WAL_GENERATION_FILE] := gd,
     root @ [WAL_GENERATION_FILE] := gl)"

lemma names_apart [simp]: "DEFAULT_GROUP_ID \<noteq> WAL_GENERATION_FILE" "WAL_GENERATION_FILE \<noteq> DEFAULT_GROUP_ID"
  by (simp_all add: DEFAULT_GROUP_ID_def WAL_GENERATION_FILE_def)

lemma default_not_legacy: "DEFAULT_GROUP_ID \<notin> legacy_names fs root"
  by (simp add: legacy_names_def is_legacy_top_level_wal_artifact_def DEFAULT_GROUP_ID_def CHECKPOINTS_DIR_NAME_def
      WAL_BOUNDS_MANIFEST_FILE_def WAL_GENERATION_FILE_def ends_with_def starts_with_def)

lemma generation_not_checkpoints: "WAL_GENERATION_FILE \<noteq> CHECKPOINTS_DIR_NAME"
  by (simp add: WAL_GENERATION_FILE_def CHECKPOINTS_DIR_NAME_def)

lemma mview_move:
  assumes "e \<notin> M" "e \<noteq> DEFAULT_GROUP_ID" "e \<noteq> WAL_GENERATION_FILE" "DEFAULT_GROUP_ID \<notin> M" "WAL_GENERATION_FILE \<notin> M"
  shows "moved root {e} (mview root f M dv gd gl) = mview root f (insert e M) dv gd gl"
proof
  fix p
  show "moved root {e} (mview root f M dv gd gl) p = mview root f (insert e M) dv gd gl p"
  proof (cases p root rule: path_below_cases)
    case (below n q)
    then show ?thesis using assms by (auto simp: mview_def moved_below split: list.splits)
  next
    case elsewhere
    then show ?thesis using elsewhere [of DEFAULT_GROUP_ID "[]"] elsewhere [of DEFAULT_GROUP_ID "[WAL_GENERATION_FILE]"]
        elsewhere [of WAL_GENERATION_FILE "[]"]
      by (simp add: mview_def moved_elsewhere)
  qed
qed

text \<open>The names at the root, without the assumption that a path occurs once.\<close>

lemma loose_entries_set:
  assumes "fs_get fs root = Some Dir"
  obtains loose where "loose_entries fs root = Inr loose" "set loose = legacy_names fs root"
proof -
  let ?ns = "map (last \<circ> fst) (filter (\<lambda>(q, _). q \<noteq> [] \<and> butlast q = root) fs)"
  have "n \<in> set ?ns \<longleftrightarrow> fs_exists fs (root @ [n])" for n
  proof
    assume "n \<in> set ?ns"
    then obtain q v where "(q, v) \<in> set fs" "q \<noteq> []" "butlast q = root" "last q = n" by auto
    then have "(root @ [n], v) \<in> set fs" by auto
    then show "fs_exists fs (root @ [n])" by (force simp: fs_exists_def fs_get_def map_of_eq_None_iff)
  next
    assume "fs_exists fs (root @ [n])"
    then obtain v where "(root @ [n], v) \<in> set fs" by (auto simp: fs_exists_def fs_get_def dest: map_of_SomeD)
    then show "n \<in> set ?ns" by force
  qed
  moreover have "read_dir fs root = Inr ?ns" using assms by (simp add: read_dir_def is_dir_def)
  ultimately show ?thesis by (intro that [of "filter (is_legacy_top_level_wal_artifact fs root) ?ns"])
      (auto simp: loose_entries_def legacy_names_def)
qed

text \<open>What is assumed of the root before the first attempt: it holds artifacts, it is a directory below directories, nothing is in the way
  of the artifacts, and a loose generation, if there is one, is readable.\<close>

definition readable_gen :: "gen_codec \<Rightarrow> node option \<Rightarrow> bool" where
  "readable_gen c nd \<longleftrightarrow> (\<exists>b. nd = Some (File b) \<and> parse_generation_record c b \<noteq> None)"

definition old_root :: "gen_codec \<Rightarrow> path \<Rightarrow> fsys \<Rightarrow> bool" where
  "old_root c root fs \<longleftrightarrow> legacy_names fs root \<noteq> {} \<and> fs_get fs root = Some Dir \<and> (\<forall>p. prefix p root \<and> p \<noteq> [] \<longrightarrow> fs_get fs p = Some Dir)
     \<and> fs_get fs (default_dir root) \<in> {None, Some Dir}
     \<and> (\<forall>e \<in> legacy_names fs root. \<forall>q. fs_get fs (default_dir root @ e # q) = None)
     \<and> fs_get fs (generation_file_path (default_dir root)) \<noteq> Some Dir
     \<and> (WAL_GENERATION_FILE \<in> legacy_names fs root \<longrightarrow> readable_gen c (fs_get fs (generation_file_path root)))"

text \<open>The condition on a state: \<open>M\<close> has been moved, and the generation is loose, linked twice, moved or minted.\<close>

definition gen_state :: "gen_codec \<Rightarrow> path \<Rightarrow> fsys \<Rightarrow> rstr set \<Rightarrow> node option \<Rightarrow> node option \<Rightarrow> bool" where
  "gen_state c root fs0 M gd gl \<longleftrightarrow>
     (let l = fs_get fs0 (generation_file_path root); d = fs_get fs0 (generation_file_path (default_dir root)) in
      (M \<noteq> {} \<longrightarrow> readable_gen c gd) \<and>
      (if WAL_GENERATION_FILE \<in> legacy_names fs0 root
       then (gl = l \<and> M = {} \<and> gd \<in> {None, l}) \<or> (gl = None \<and> gd = l)
       else gl = l \<and> (gd = d \<or> readable_gen c gd \<and> \<not> readable_gen c d)))"

definition migrating :: "gen_codec \<Rightarrow> path \<Rightarrow> fsys \<Rightarrow> fsys \<Rightarrow> bool" where
  "migrating c root fs0 fs \<longleftrightarrow> (\<exists>M dv gd gl. fs_get fs = mview root (fs_get fs0) M dv gd gl
     \<and> M \<subseteq> legacy_names fs0 root - {WAL_GENERATION_FILE} \<and> gen_state c root fs0 M gd gl
     \<and> (dv = Some Dir \<or> dv = fs_get fs0 (default_dir root) \<and> M = {} \<and> gd = fs_get fs0 (generation_file_path (default_dir root))))"

section \<open>Each step keeps the condition\<close>

lemma default_paths:
  "default_dir root = root @ [DEFAULT_GROUP_ID]" "generation_file_path root = root @ [WAL_GENERATION_FILE]"
  "generation_file_path (default_dir root) = root @ [DEFAULT_GROUP_ID, WAL_GENERATION_FILE]"
  by (simp_all add: default_dir_def generation_file_path_def)

lemma mview_at:
  assumes "DEFAULT_GROUP_ID \<notin> M" "WAL_GENERATION_FILE \<notin> M"
  shows "mview root f M dv gd gl (root @ [DEFAULT_GROUP_ID]) = dv"
    "mview root f M dv gd gl (root @ [DEFAULT_GROUP_ID, WAL_GENERATION_FILE]) = gd"
    "mview root f M dv gd gl (root @ [WAL_GENERATION_FILE]) = gl"
    "n \<notin> {DEFAULT_GROUP_ID, WAL_GENERATION_FILE} \<Longrightarrow> mview root f M dv gd gl (root @ n # q) = (if n \<in> M then None else f (root @ n # q))"
    "n \<noteq> WAL_GENERATION_FILE \<Longrightarrow> mview root f M dv gd gl (root @ DEFAULT_GROUP_ID # n # q) = (if n \<in> M then f (root @ n # q) else f (root @ DEFAULT_GROUP_ID # n # q))"
    "(\<And>n q. p \<noteq> root @ n # q) \<Longrightarrow> mview root f M dv gd gl p = f p"
  using assms by (auto simp: mview_def moved_below moved_elsewhere)

lemma mview_update:
  "(mview root f M dv gd gl)(root @ [DEFAULT_GROUP_ID] := dv') = mview root f M dv' gd gl"
  "(mview root f M dv gd gl)(root @ [DEFAULT_GROUP_ID, WAL_GENERATION_FILE] := gd') = mview root f M dv gd' gl"
  "(mview root f M dv gd gl)(root @ [WAL_GENERATION_FILE] := gl') = mview root f M dv gd gl'"
  by (auto simp: mview_def fun_eq_iff)

lemma mkdirs_skip: "(\<And>p. p \<in> set ps \<Longrightarrow> fs_get fs p = Some Dir) \<Longrightarrow> mkdirs (ps @ qs) fs = mkdirs qs fs"
  by (induction ps) auto

lemma make_default_dir:
  assumes "\<And>p. prefix p root \<Longrightarrow> p \<noteq> [] \<Longrightarrow> fs_get fs p = Some Dir" and "fs_get fs (root @ [n]) \<in> {None, Some Dir}"
  shows "\<exists>fs1. create_dir_all (root @ [n]) fs = Inr fs1 \<and> fs_get fs1 = (fs_get fs)(root @ [n] \<mapsto> Dir)"
proof -
  have "tl (prefixes (root @ [n])) = tl (prefixes root) @ [root @ [n]]" by (cases root) (simp_all add: prefixes_snoc)
  moreover have "fs_get fs p = Some Dir" if "p \<in> set (tl (prefixes root))" for p
    using that assms(1) [of p] by (cases root) auto
  ultimately have "create_dir_all (root @ [n]) fs = mkdirs [root @ [n]] fs" by (simp add: create_dir_all_def mkdirs_skip)
  then show ?thesis using assms(2) by (auto simp: fun_upd_idem)
qed

lemma legacy_in_view:
  assumes "fs_get fs = mview root (fs_get fs0) M dv gd gl" "M \<subseteq> legacy_names fs0 root - {WAL_GENERATION_FILE}"
    and "gl = fs_get fs0 (generation_file_path root) \<or> gl = None"
  shows "legacy_names fs root = legacy_names fs0 root - {WAL_GENERATION_FILE} - M
    \<union> (if gl \<noteq> None then legacy_names fs0 root \<inter> {WAL_GENERATION_FILE} else {})"
proof -
  note D = default_not_legacy [of _ root]
  have M: "DEFAULT_GROUP_ID \<notin> M" "WAL_GENERATION_FILE \<notin> M" using assms(2) D by auto
  have "n \<in> legacy_names fs root \<longleftrightarrow> n \<in> legacy_names fs0 root - M" if "n \<notin> {DEFAULT_GROUP_ID, WAL_GENERATION_FILE}" for n
    using mview_at(4) [OF M that, of root "fs_get fs0" dv gd gl "[]"] assms(1)
    by (auto simp: legacy_names_def fs_exists_def is_legacy_top_level_wal_artifact_def is_dir_def)
  moreover have "WAL_GENERATION_FILE \<in> legacy_names fs root \<longleftrightarrow> gl \<noteq> None \<and> WAL_GENERATION_FILE \<in> legacy_names fs0 root"
    using assms(3) mview_at(3) [OF M, of root "fs_get fs0" dv gd gl] assms(1) generation_not_checkpoints
    by (auto simp: legacy_names_def fs_exists_def is_legacy_top_level_wal_artifact_def is_dir_def default_paths)
  ultimately show ?thesis using D M by (intro set_eqI) (case_tac "x = DEFAULT_GROUP_ID"; case_tac "x = WAL_GENERATION_FILE"; auto)
qed

lemma relocation_keeps:
  assumes old: "old_root c root fs0" and "set es \<subseteq> legacy_names fs0 root" "M \<subseteq> legacy_names fs0 root - {WAL_GENERATION_FILE}"
    and "fs_get fs = mview root (fs_get fs0) M (Some Dir) (Some (File b)) gl"
  shows "\<exists>fs'. relocate_entries root es fs = (fs', Inr ())
    \<and> fs_get fs' = mview root (fs_get fs0) (M \<union> (set es - {WAL_GENERATION_FILE})) (Some Dir) (Some (File b)) gl
    \<and> (\<forall>s \<in> set (relocation_states root es fs). \<exists>M'. M' \<subseteq> legacy_names fs0 root - {WAL_GENERATION_FILE}
         \<and> fs_get s = mview root (fs_get fs0) M' (Some Dir) (Some (File b)) gl)"
  using assms(2-4)
proof (induction es arbitrary: M fs)
  case (Cons e es)
  let ?L = "legacy_names fs0 root"
  have M: "DEFAULT_GROUP_ID \<notin> M" "WAL_GENERATION_FILE \<notin> M" and e: "e \<in> ?L" "e \<noteq> DEFAULT_GROUP_ID"
    using Cons.prems(1,2) default_not_legacy [of fs0 root] by auto
  note at = mview_at [OF M, where root = root and f = "fs_get fs0" and dv = "Some Dir" and gd = "Some (File b)" and gl = gl]
  show ?case
  proof (cases "e \<in> M \<or> e = WAL_GENERATION_FILE")
    case True
    have "fs_exists fs (root @ [DEFAULT_GROUP_ID, e])"
      using True at(2) at(5) [of e "[]"] M e(1) Cons.prems(3)
      by (cases "e = WAL_GENERATION_FILE") (auto simp: fs_exists_def legacy_names_def)
    moreover have "M \<union> (set (e # es) - {WAL_GENERATION_FILE}) = M \<union> (set es - {WAL_GENERATION_FILE})" using True by auto
    ultimately show ?thesis using Cons.IH [OF _ Cons.prems(2,3)] Cons.prems(1-3) by (auto simp: default_paths)
  next
    case False
    have free: "fs_get fs (root @ DEFAULT_GROUP_ID # e # q) = None" for q
      using at(5) [of e q] False old e(1) Cons.prems(3) by (auto simp: old_root_def default_paths)
    have "fs_exists fs (root @ [e])" "is_dir fs (root @ [DEFAULT_GROUP_ID])"
      using at(1) at(4) [of e "[]"] False e Cons.prems(3) by (auto simp: fs_exists_def legacy_names_def is_dir_def)
    then obtain fs1 where r: "rename (root @ [e]) (root @ [DEFAULT_GROUP_ID, e]) fs = Inr fs1"
      using free [of "[]"] by (auto simp: rename_def is_dir_def butlast_append)
    have view: "fs_get fs1 = mview root (fs_get fs0) (insert e M) (Some Dir) (Some (File b)) gl"
      using rename_moves [OF r e(2) free] Cons.prems(3) mview_move [of e M] False e(2) M by simp
    have ins: "insert e M \<subseteq> ?L - {WAL_GENERATION_FILE}" using Cons.prems(2) False e(1) by auto
    have "insert e M \<union> (set es - {WAL_GENERATION_FILE}) = M \<union> (set (e # es) - {WAL_GENERATION_FILE})" using False by auto
    then show ?thesis using Cons.IH [OF _ ins view] Cons.prems free [of "[]"] r
      by (auto simp: default_paths fs_exists_def)
  qed
qed auto

definition settled :: "gen_codec \<Rightarrow> path \<Rightarrow> fsys \<Rightarrow> node option \<Rightarrow> node option \<Rightarrow> bool" where
  "settled c root fs0 gd gl \<longleftrightarrow>
     (let l = fs_get fs0 (generation_file_path root); d = fs_get fs0 (generation_file_path (default_dir root)) in
      if WAL_GENERATION_FILE \<in> legacy_names fs0 root then gl = None \<and> gd = l
      else gl = l \<and> (gd = d \<or> readable_gen c gd \<and> \<not> readable_gen c d))"

lemma settled_state: "settled c root fs0 gd gl \<Longrightarrow> M = {} \<or> readable_gen c gd \<Longrightarrow> gen_state c root fs0 M gd gl"
  by (auto simp: settled_def gen_state_def Let_def split: if_splits)

lemma gen_state_loose:
  "gen_state c root fs0 M gd gl \<Longrightarrow> gl = fs_get fs0 (generation_file_path root) \<or> gl = None"
  by (auto simp: gen_state_def Let_def split: if_splits)

lemma old_loose_gen:
  assumes "old_root c root fs0" "WAL_GENERATION_FILE \<in> legacy_names fs0 root"
  obtains b where "fs_get fs0 (root @ [WAL_GENERATION_FILE]) = Some (File b)" "parse_generation_record c b \<noteq> None"
    "fs_get fs0 (root @ [DEFAULT_GROUP_ID, WAL_GENERATION_FILE]) = None"
  using assms that unfolding old_root_def readable_gen_def default_paths by fastforce

lemma relocate_generation_step:
  assumes old: "old_root c root fs0" and M: "M \<subseteq> legacy_names fs0 root - {WAL_GENERATION_FILE}"
    and view: "fs_get fs = mview root (fs_get fs0) M (Some Dir) gd gl" and st: "gen_state c root fs0 M gd gl"
    and loose: "WAL_GENERATION_FILE \<in> set loose \<longleftrightarrow> WAL_GENERATION_FILE \<in> legacy_names fs0 root \<and> gl \<noteq> None"
  shows "\<exists>fs2 gd' gl'. relocate_generation root loose fs = (fs2, Inr ())
    \<and> fs_get fs2 = mview root (fs_get fs0) M (Some Dir) gd' gl' \<and> settled c root fs0 gd' gl' \<and> (M \<noteq> {} \<longrightarrow> readable_gen c gd')"
    and "WAL_GENERATION_FILE \<in> set loose \<Longrightarrow> hard_link (generation_file_path root) (generation_file_path (default_dir root)) fs = Inr fs'
      \<Longrightarrow> migrating c root fs0 fs'"
proof -
  let ?G = WAL_GENERATION_FILE
  have N: "DEFAULT_GROUP_ID \<notin> M" "?G \<notin> M" using M default_not_legacy [of fs0 root] by auto
  note at = mview_at [OF N, where root = root and f = "fs_get fs0" and dv = "Some Dir"]
  show "\<exists>fs2 gd' gl'. relocate_generation root loose fs = (fs2, Inr ())
    \<and> fs_get fs2 = mview root (fs_get fs0) M (Some Dir) gd' gl' \<and> settled c root fs0 gd' gl' \<and> (M \<noteq> {} \<longrightarrow> readable_gen c gd')"
  proof (cases "?G \<in> set loose")
    case False
    then have "settled c root fs0 gd gl" using loose st by (auto simp: settled_def gen_state_def Let_def split: if_splits)
    moreover have "M \<noteq> {} \<longrightarrow> readable_gen c gd" using st by (simp add: gen_state_def Let_def)
    ultimately show ?thesis using False view by (auto simp: relocate_generation_def)
  next
    case True
    then have G: "?G \<in> legacy_names fs0 root" and gl: "gl \<noteq> None" using loose by auto
    obtain b where b: "fs_get fs0 (root @ [?G]) = Some (File b)" using old_loose_gen [OF old G] by metis
    have gs: "gl = Some (File b)" "M = {}" "gd = None \<or> gd = Some (File b)"
      using st G gl b by (auto simp: gen_state_def Let_def default_paths split: if_splits)
    let ?fs1 = "fs_put (root @ [DEFAULT_GROUP_ID, ?G]) (File b) fs"
    have get: "fs_get fs (root @ [?G]) = Some (File b)" "fs_get fs (root @ [DEFAULT_GROUP_ID, ?G]) = gd" "fs_get fs (root @ [DEFAULT_GROUP_ID]) = Some Dir"
      using at(1-3) view gs(1) by simp_all
    define fs2 where "fs2 = fs_del (root @ [?G]) (if gd = None then ?fs1 else fs)"
    have "relocate_generation root loose fs = (fs2, Inr ())"
      using True gs get by (auto simp: relocate_generation_def remove_loose_def remove_file_def hard_link_def fs_exists_def is_dir_def
          read_file_def default_paths butlast_append fs2_def Let_def)
    moreover have "fs_get fs2 = mview root (fs_get fs0) M (Some Dir) (Some (File b)) None"
      using gs(3) view by (auto simp: fs2_def mview_update)
    ultimately show ?thesis using G b gs(2) by (auto simp: settled_def Let_def default_paths)
  qed
  assume True: "?G \<in> set loose" and link: "hard_link (generation_file_path root) (generation_file_path (default_dir root)) fs = Inr fs'"
  then have G: "?G \<in> legacy_names fs0 root" and gl: "gl \<noteq> None" using loose by auto
  obtain b where b: "fs_get fs0 (root @ [?G]) = Some (File b)" using old_loose_gen [OF old G] by metis
  have gs: "gl = Some (File b)" "M = {}" using st G gl b by (auto simp: gen_state_def Let_def default_paths split: if_splits)
  have "fs_get fs' = mview root (fs_get fs0) {} (Some Dir) (Some (File b)) (Some (File b))"
    using link at(2,3) view gs by (auto simp: hard_link_def default_paths mview_update split: if_splits)
  moreover have "gen_state c root fs0 {} (Some (File b)) (Some (File b))" using G b by (simp add: gen_state_def Let_def default_paths)
  ultimately show "migrating c root fs0 fs'" unfolding migrating_def by blast
qed

lemma mint_step:
  assumes old: "old_root c root fs0" and M: "M \<subseteq> legacy_names fs0 root - {WAL_GENERATION_FILE}"
    and view: "fs_get fs = mview root (fs_get fs0) M (Some Dir) gd gl" and st: "settled c root fs0 gd gl"
    and ok: "gen_ok c (uu 0)" "gen_ok c (uu 2)"
    and fresh: "\<And>k. fs_get fs0 (root @ [DEFAULT_GROUP_ID, tmp_file_name (uu k)]) = None \<and> fs_get fs0 (root @ [tmp_file_name (uu k)]) = None"
  shows "\<exists>fs3 g b. ensure_generation c uu (default_dir root) fs = (fs3, Inr g)
    \<and> fs_get fs3 = mview root (fs_get fs0) M (Some Dir) (Some (File b)) gl
    \<and> readable_gen c (Some (File b)) \<and> settled c root fs0 (Some (File b)) gl"
proof -
  let ?G = WAL_GENERATION_FILE
  have N: "DEFAULT_GROUP_ID \<notin> M" "?G \<notin> M" using M default_not_legacy [of fs0 root] by auto
  note at = mview_at [OF N, where root = root and f = "fs_get fs0" and dv = "Some Dir"]
  have dir: "is_dir fs (default_dir root)" using at(1) view by (simp add: is_dir_def default_paths)
  have gd: "fs_get fs (generation_file_path (default_dir root)) = gd" using at(2) view by (simp add: default_paths)
  have node: "fs_get fs (generation_file_path (default_dir root)) \<noteq> Some Dir"
    using gd st old old_loose_gen [OF old] by (auto simp: settled_def old_root_def Let_def readable_gen_def default_paths split: if_splits)
  have tmp: "fs_get fs (default_dir root @ [tmp_file_name (uu k)]) = None" for k
    using at(5) [of "tmp_file_name (uu k)" _ _ "[]"] view fresh [of k] by (simp add: default_paths)
  from ensure_generation_effect [where uu = uu and c = c, OF dir node ok tmp] show ?thesis
  proof (elim disjE exE conjE)
    fix g assume r: "read_generation c fs (default_dir root) = Some g" and e: "ensure_generation c uu (default_dir root) fs = (fs, Inr g)"
    then obtain b where "gd = Some (File b)" "parse_generation_record c b = Some g"
      using gd by (auto simp: read_generation_get split: option.splits node.splits)
    then show ?thesis using e view st by (auto simp: readable_gen_def)
  next
    fix fs' g assume r: "read_generation c fs (default_dir root) = None" and e: "ensure_generation c uu (default_dir root) fs = (fs', Inr g)" "gen_ok c g"
      and get: "fs_get fs' = (fs_get fs)(generation_file_path (default_dir root) \<mapsto> File (as_bytes (gen_print c g)))"
    have bad: "\<not> readable_gen c gd" using r gd by (auto simp: read_generation_get readable_gen_def split: option.splits)
    have good: "readable_gen c (Some (File (as_bytes (gen_print c g))))" using e(2) by (simp add: readable_gen_def parse_generation_print)
    have "?G \<notin> legacy_names fs0 root" using bad st old by (auto simp: settled_def old_root_def Let_def split: if_splits)
    then have "settled c root fs0 (Some (File (as_bytes (gen_print c g)))) gl" using st bad good by (auto simp: settled_def Let_def)
    then show ?thesis using e(1) get view good by (auto simp: default_paths mview_update)
  qed
qed

section \<open>Interrupted attempts\<close>

definition migrated :: "gen_codec \<Rightarrow> path \<Rightarrow> fsys \<Rightarrow> fsys \<Rightarrow> bool" where
  "migrated c root fs0 fs \<longleftrightarrow> (\<exists>gd gl. fs_get fs = mview root (fs_get fs0) (legacy_names fs0 root - {WAL_GENERATION_FILE}) (Some Dir) gd gl
     \<and> readable_gen c gd \<and> settled c root fs0 gd gl)"

lemma migrate_nothing_loose:
  assumes "old_root c root fs0" "migrating c root fs0 fs" "loose_entries fs root = Inr []"
  shows "migrated c root fs0 fs" "migrate_wal_root_if_needed c uu root fs = (fs, Inr ())" "migration_states c uu root fs = [fs]"
proof -
  let ?L = "legacy_names fs0 root" and ?G = WAL_GENERATION_FILE
  obtain M dv gd gl where v: "fs_get fs = mview root (fs_get fs0) M dv gd gl" "M \<subseteq> ?L - {?G}" "gen_state c root fs0 M gd gl"
      "dv = Some Dir \<or> dv = fs_get fs0 (default_dir root) \<and> M = {} \<and> gd = fs_get fs0 (generation_file_path (default_dir root))"
    using assms(2) unfolding migrating_def by blast
  have "fs_get fs root = Some Dir" using assms(3) by (auto simp: loose_entries_def read_dir_def is_dir_def split: if_splits)
  then obtain loose where l: "loose_entries fs root = Inr loose" "set loose = legacy_names fs root" by (rule loose_entries_set)
  then have "legacy_names fs root = {}" using assms(3) by simp
  then have all: "M = ?L - {?G}" "?G \<in> ?L \<Longrightarrow> gl = None"
    using legacy_in_view [OF v(1,2) gen_state_loose [OF v(3)]] v(2) by (auto split: if_splits)
  have "settled c root fs0 gd gl \<and> readable_gen c gd \<and> dv = Some Dir"
  proof (cases "?G \<in> ?L")
    case True
    then obtain b where "fs_get fs0 (root @ [?G]) = Some (File b)" "parse_generation_record c b \<noteq> None"
        "fs_get fs0 (root @ [DEFAULT_GROUP_ID, ?G]) = None" using old_loose_gen [OF assms(1)] by metis
    then show ?thesis using True all(2) v(3,4) by (auto simp: gen_state_def settled_def readable_gen_def Let_def default_paths)
  next
    case False
    then have "M \<noteq> {}" using all(1) assms(1) by (simp add: old_root_def)
    then show ?thesis using False v(3,4) by (auto simp: gen_state_def settled_def Let_def)
  qed
  then show "migrated c root fs0 fs" using v(1) all(1) by (auto simp: migrated_def)
  show "migrate_wal_root_if_needed c uu root fs = (fs, Inr ())" "migration_states c uu root fs = [fs]"
    using assms(3) by (auto simp: migrate_wal_root_if_needed_def migration_states_def)
qed

lemma migrate_attempt:
  assumes old: "old_root c root fs0" and mig: "migrating c root fs0 fs" and ok: "gen_ok c (uu 0)" "gen_ok c (uu 2)"
    and fresh: "\<And>k. fs_get fs0 (root @ [DEFAULT_GROUP_ID, tmp_file_name (uu k)]) = None \<and> fs_get fs0 (root @ [tmp_file_name (uu k)]) = None"
  shows "\<exists>fs'. migrate_wal_root_if_needed c uu root fs = (fs', Inr ()) \<and> migrated c root fs0 fs'
    \<and> (\<forall>s \<in> set (migration_states c uu root fs). migrating c root fs0 s)"
proof -
  let ?L = "legacy_names fs0 root" and ?G = WAL_GENERATION_FILE
  obtain M dv gd gl where v: "fs_get fs = mview root (fs_get fs0) M dv gd gl" "M \<subseteq> ?L - {?G}" "gen_state c root fs0 M gd gl"
      "dv = Some Dir \<or> dv = fs_get fs0 (default_dir root) \<and> M = {} \<and> gd = fs_get fs0 (generation_file_path (default_dir root))"
    using mig unfolding migrating_def by blast
  have N: "DEFAULT_GROUP_ID \<notin> M" "?G \<notin> M" using v(2) default_not_legacy [of fs0 root] by auto
  have above: "fs_get fs p = fs_get fs0 p" if "prefix p root" for p
    using mview_at(6) [OF N, of p root] that v(1) by (auto simp: prefix_def)
  then have root: "fs_get fs root = Some Dir" using old by (simp add: old_root_def)
  then obtain loose where l: "loose_entries fs root = Inr loose" "set loose = legacy_names fs root" by (rule loose_entries_set)
  have set_loose: "set loose = ?L - {?G} - M \<union> (if gl \<noteq> None then ?L \<inter> {?G} else {})"
    using legacy_in_view [OF v(1,2) gen_state_loose [OF v(3)]] l(2) by simp
  show ?thesis
  proof (cases "loose = []")
    case True
    then show ?thesis using migrate_nothing_loose [OF old mig] l(1) mig by simp
  next
    case False
    have "fs_get fs (root @ [DEFAULT_GROUP_ID]) \<in> {None, Some Dir}"
      using mview_at(1) [OF N] v(1,4) old by (auto simp: old_root_def default_paths)
    then obtain fs1 where c1: "create_dir_all (default_dir root) fs = Inr fs1" and "fs_get fs1 = (fs_get fs)(root @ [DEFAULT_GROUP_ID] \<mapsto> Dir)"
      using make_default_dir [of root fs DEFAULT_GROUP_ID] above old by (auto simp: old_root_def default_paths)
    then have v1: "fs_get fs1 = mview root (fs_get fs0) M (Some Dir) gd gl" using v(1) by (simp add: mview_update)
    have sub: "set loose \<subseteq> ?L" using set_loose by (auto split: if_splits)
    have lg: "?G \<in> set loose \<longleftrightarrow> ?G \<in> ?L \<and> gl \<noteq> None" using set_loose by auto
    obtain fs2 gd2 gl2 where c2: "relocate_generation root loose fs1 = (fs2, Inr ())"
        and v2: "fs_get fs2 = mview root (fs_get fs0) M (Some Dir) gd2 gl2" "settled c root fs0 gd2 gl2" "M \<noteq> {} \<longrightarrow> readable_gen c gd2"
      using relocate_generation_step(1) [OF old v(2) v1 v(3) lg] by blast
    obtain fs3 g b where c3: "ensure_generation c uu (default_dir root) fs2 = (fs3, Inr g)"
        and v3: "fs_get fs3 = mview root (fs_get fs0) M (Some Dir) (Some (File b)) gl2" "readable_gen c (Some (File b))" "settled c root fs0 (Some (File b)) gl2"
      using mint_step [where uu = uu, OF old v(2) v2(1,2) ok fresh] by blast
    obtain fs' where c4: "relocate_entries root loose fs3 = (fs', Inr ())"
        and v4: "fs_get fs' = mview root (fs_get fs0) (M \<union> (set loose - {?G})) (Some Dir) (Some (File b)) gl2"
        and s4: "\<forall>s \<in> set (relocation_states root loose fs3). \<exists>M'. M' \<subseteq> ?L - {?G} \<and> fs_get s = mview root (fs_get fs0) M' (Some Dir) (Some (File b)) gl2"
      using relocation_keeps [OF old sub v(2) v3(1)] by blast
    have run: "migrate_wal_root_if_needed c uu root fs = (fs', Inr ())"
      using root l(1) False c1 c2 c3 c4 by (simp add: migrate_wal_root_if_needed_def fs_exists_def)
    have "M \<union> (set loose - {?G}) = ?L - {?G}" using set_loose v(2) by auto
    then have "migrated c root fs0 fs'" using v4 v3(2,3) unfolding migrated_def by auto
    moreover have "migrating c root fs0 fs1" using v1 v(2,3) unfolding migrating_def by blast
    moreover have "migrating c root fs0 fs2" using v2 v(2) settled_state [OF v2(2)] unfolding migrating_def by blast
    moreover have "migrating c root fs0 s" if "s \<in> set (relocation_states root loose fs3)" for s
      using s4 that settled_state [OF v3(3)] v3(2) unfolding migrating_def by blast
    ultimately show ?thesis using run mig l(1) False c1 c2 c3 relocate_generation_step(2) [OF old v(2) v1 v(3) lg]
      by (auto simp: migration_states_def split: sum.splits if_splits)
  qed
qed

text \<open>File systems that interrupted attempts can leave behind.\<close>

inductive left_behind :: "gen_codec \<Rightarrow> path \<Rightarrow> fsys \<Rightarrow> fsys \<Rightarrow> bool" for c root fs0 where
  untouched: "left_behind c root fs0 fs0"
| interrupted: "left_behind c root fs0 fs \<Longrightarrow> gen_ok c (uu 0) \<Longrightarrow> gen_ok c (uu 2) \<Longrightarrow>
    (\<And>k. fs_get fs0 (root @ [DEFAULT_GROUP_ID, tmp_file_name (uu k)]) = None \<and> fs_get fs0 (root @ [tmp_file_name (uu k)]) = None) \<Longrightarrow>
    s \<in> set (migration_states c uu root fs) \<Longrightarrow> left_behind c root fs0 s"

lemma left_behind_migrating:
  assumes "old_root c root fs0" "left_behind c root fs0 fs"
  shows "migrating c root fs0 fs"
  using assms(2)
proof induction
  case untouched
  have "fs_get fs0 = mview root (fs_get fs0) {} (fs_get fs0 (default_dir root)) (fs_get fs0 (generation_file_path (default_dir root))) (fs_get fs0 (generation_file_path root))"
    by (auto simp: mview_def default_paths fun_eq_iff)
  moreover have "gen_state c root fs0 {} (fs_get fs0 (generation_file_path (default_dir root))) (fs_get fs0 (generation_file_path root))"
  proof (cases "WAL_GENERATION_FILE \<in> legacy_names fs0 root")
    case True
    then have "fs_get fs0 (root @ [DEFAULT_GROUP_ID, WAL_GENERATION_FILE]) = None" using old_loose_gen [OF assms(1)] by metis
    then show ?thesis using True by (simp add: gen_state_def Let_def default_paths)
  qed (simp add: gen_state_def)
  ultimately show ?case unfolding migrating_def by blast
next
  case (interrupted fs uu s)
  from migrate_attempt [where uu = uu, OF assms(1) interrupted.IH interrupted.hyps(2-4)] interrupted.hyps(5) show ?case by blast
qed

lemma migrated_again:
  assumes "old_root c root fs0" "migrated c root fs0 fs"
  shows "migrate_wal_root_if_needed c uu root fs = (fs, Inr ())"
proof -
  let ?L = "legacy_names fs0 root" and ?G = WAL_GENERATION_FILE
  obtain gd gl where v: "fs_get fs = mview root (fs_get fs0) (?L - {?G}) (Some Dir) gd gl" "readable_gen c gd" "settled c root fs0 gd gl"
    using assms(2) unfolding migrated_def by blast
  have N: "DEFAULT_GROUP_ID \<notin> ?L - {?G}" "?G \<notin> ?L - {?G}" using default_not_legacy [of fs0 root] by auto
  have "fs_get fs root = Some Dir" using mview_at(6) [OF N, of root root] v(1) assms(1) by (simp add: old_root_def)
  then obtain loose where l: "loose_entries fs root = Inr loose" "set loose = legacy_names fs root" by (rule loose_entries_set)
  moreover have "legacy_names fs root = {}"
    using legacy_in_view [OF v(1)] v(3) by (auto simp: settled_def Let_def split: if_splits)
  ultimately show ?thesis by (auto simp: migrate_wal_root_if_needed_def)
qed

text \<open>C32: the migration is safe against interruptions.  From whatever file system any number of interrupted
  attempts left behind, an attempt that is not interrupted succeeds.  Then every artifact of the old
  root, with everything below it, is in the directory of the default group and no longer at the top,
  the stream has a readable generation (the loose one, if there was one, and an existing one is
  kept), nothing else has changed, and a further call does nothing.\<close>

theorem migration_crash_safe:
  assumes "old_root c root fs0" "left_behind c root fs0 fs" "gen_ok c (uu 0)" "gen_ok c (uu 2)"
    and "\<And>k. fs_get fs0 (root @ [DEFAULT_GROUP_ID, tmp_file_name (uu k)]) = None \<and> fs_get fs0 (root @ [tmp_file_name (uu k)]) = None"
  shows "\<exists>fs'. migrate_wal_root_if_needed c uu root fs = (fs', Inr ())
    \<and> (\<forall>e \<in> legacy_names fs0 root - {WAL_GENERATION_FILE}. \<forall>q.
         fs_get fs' (default_dir root @ e # q) = fs_get fs0 (root @ e # q) \<and> fs_get fs' (root @ e # q) = None)
    \<and> read_generation c fs' (default_dir root) \<noteq> None
    \<and> (WAL_GENERATION_FILE \<in> legacy_names fs0 root \<longrightarrow>
         fs_get fs' (generation_file_path (default_dir root)) = fs_get fs0 (generation_file_path root) \<and> fs_get fs' (generation_file_path root) = None)
    \<and> (\<forall>g. read_generation c fs0 (default_dir root) = Some g \<longrightarrow> read_generation c fs' (default_dir root) = Some g)
    \<and> (\<forall>n q. n \<notin> insert WAL_GENERATION_FILE (legacy_names fs0 root) \<longrightarrow>
         fs_get fs' (default_dir root @ n # q) = fs_get fs0 (default_dir root @ n # q))
    \<and> (\<forall>p. (\<forall>n \<in> insert DEFAULT_GROUP_ID (legacy_names fs0 root). \<forall>q. p \<noteq> root @ n # q) \<longrightarrow> fs_get fs' p = fs_get fs0 p)
    \<and> (\<forall>uu'. migrate_wal_root_if_needed c uu' root fs' = (fs', Inr ()))"
proof -
  let ?L = "legacy_names fs0 root" and ?G = WAL_GENERATION_FILE
  obtain fs' where run: "migrate_wal_root_if_needed c uu root fs = (fs', Inr ())" and fin: "migrated c root fs0 fs'"
    using migrate_attempt [where uu = uu, OF assms(1) left_behind_migrating [OF assms(1,2)] assms(3-5)] by blast
  obtain gd gl where v: "fs_get fs' = mview root (fs_get fs0) (?L - {?G}) (Some Dir) gd gl" "readable_gen c gd" "settled c root fs0 gd gl"
    using fin unfolding migrated_def by blast
  have N: "DEFAULT_GROUP_ID \<notin> ?L - {?G}" "?G \<notin> ?L - {?G}" using default_not_legacy [of fs0 root] by auto
  note at = mview_at [OF N, where root = root and f = "fs_get fs0" and dv = "Some Dir" and gd = gd and gl = gl, folded v(1)]
  have "fs_get fs' (default_dir root @ e # q) = fs_get fs0 (root @ e # q) \<and> fs_get fs' (root @ e # q) = None" if "e \<in> ?L - {?G}" for e q
    using at(4) [of e q] at(5) [of e q] that default_not_legacy [of fs0 root] by (auto simp: default_paths)
  moreover obtain b where gd: "gd = Some (File b)" "parse_generation_record c b \<noteq> None" using v(2) by (auto simp: readable_gen_def)
  then have "read_generation c fs' (default_dir root) \<noteq> None" using at(2) by (simp add: read_generation_get default_paths)
  moreover have "fs_get fs' (generation_file_path (default_dir root)) = fs_get fs0 (generation_file_path root) \<and> fs_get fs' (generation_file_path root) = None"
    if "?G \<in> ?L" using that v(3) at(2,3) by (simp add: settled_def Let_def default_paths)
  moreover have "read_generation c fs' (default_dir root) = Some g" if g: "read_generation c fs0 (default_dir root) = Some g" for g
  proof -
    have r: "readable_gen c (fs_get fs0 (generation_file_path (default_dir root)))"
      using g by (auto simp: read_generation_get readable_gen_def split: option.splits node.splits)
    have "?G \<notin> ?L"
    proof
      assume "?G \<in> ?L"
      then have "fs_get fs0 (root @ [DEFAULT_GROUP_ID, ?G]) = None" using old_loose_gen [OF assms(1)] by metis
      then show False using r by (simp add: readable_gen_def default_paths)
    qed
    then have "gd = fs_get fs0 (generation_file_path (default_dir root))" using v(3) r by (auto simp: settled_def Let_def)
    then show ?thesis using g at(2) by (simp add: read_generation_get default_paths)
  qed
  moreover have "fs_get fs' (default_dir root @ n # q) = fs_get fs0 (default_dir root @ n # q)" if "n \<notin> insert ?G ?L" for n q
    using at(5) [of n q] that by (simp add: default_paths)
  moreover have "fs_get fs' p = fs_get fs0 p" if p: "\<forall>n \<in> insert DEFAULT_GROUP_ID ?L. \<forall>q. p \<noteq> root @ n # q" for p
  proof (cases p root rule: path_below_cases)
    case (below n q)
    then show ?thesis using p at(3,4) v(3) by (cases "n = ?G"; cases q) (auto simp: settled_def Let_def default_paths mview_def moved_below v(1))
  qed (rule at(6))
  ultimately show ?thesis using run migrated_again [OF assms(1) fin] by blast
qed

definition toy_old_root :: fsys where
  "toy_old_root = [([], Dir), ([lit ''a.jsonl''], File [49]), ([CHECKPOINTS_DIR_NAME], Dir), ([CHECKPOINTS_DIR_NAME, lit ''c''], Dir)]"

lemma toy_old_root_names: "legacy_names toy_old_root [] = {lit ''a.jsonl'', CHECKPOINTS_DIR_NAME}"
  by (auto simp: legacy_names_def toy_old_root_def fs_exists_def fs_get_def is_legacy_top_level_wal_artifact_def is_dir_def
      ends_with_def starts_with_def CHECKPOINTS_DIR_NAME_def split: if_splits)

lemma toy_old_root_ok: "old_root toy_codec [] toy_old_root"
proof -
  have "WAL_GENERATION_FILE \<notin> legacy_names toy_old_root []"
    unfolding toy_old_root_names by (simp add: WAL_GENERATION_FILE_def CHECKPOINTS_DIR_NAME_def)
  moreover have "fs_get toy_old_root (default_dir [] @ q) = None" for q
    by (simp add: toy_old_root_def fs_get_def default_dir_def DEFAULT_GROUP_ID_def CHECKPOINTS_DIR_NAME_def)
  moreover have "fs_get toy_old_root [] = Some Dir" by (simp add: toy_old_root_def fs_get_def)
  ultimately show ?thesis using toy_old_root_names
    by (auto simp: old_root_def generation_file_path_def) (metis append_Nil2)+
qed

theorem migration_crash_safe_witness:
  "\<exists>fs'. migrate_wal_root_if_needed toy_codec (\<lambda>k. 98 # replicate k 97) [] toy_old_root = (fs', Inr ())
     \<and> fs_get fs' [DEFAULT_GROUP_ID, lit ''a.jsonl''] = Some (File [49]) \<and> fs_get fs' [DEFAULT_GROUP_ID, CHECKPOINTS_DIR_NAME, lit ''c''] = Some Dir"
proof -
  let ?uu = "\<lambda>k. 98 # replicate k (97 :: nat)"
  have fresh: "fs_get toy_old_root ([] @ [DEFAULT_GROUP_ID, tmp_file_name (?uu k)]) = None \<and> fs_get toy_old_root ([] @ [tmp_file_name (?uu k)]) = None" for k
    by (simp add: toy_old_root_def fs_get_def DEFAULT_GROUP_ID_def CHECKPOINTS_DIR_NAME_def tmp_file_name_def WAL_GENERATION_FILE_def)
  have names: "lit ''a.jsonl'' \<in> legacy_names toy_old_root [] - {WAL_GENERATION_FILE}" "CHECKPOINTS_DIR_NAME \<in> legacy_names toy_old_root [] - {WAL_GENERATION_FILE}"
    unfolding toy_old_root_names by (simp_all add: WAL_GENERATION_FILE_def CHECKPOINTS_DIR_NAME_def)
  obtain fs' where run: "migrate_wal_root_if_needed toy_codec ?uu [] toy_old_root = (fs', Inr ())"
      and all: "\<forall>e \<in> legacy_names toy_old_root [] - {WAL_GENERATION_FILE}. \<forall>q.
        fs_get fs' (default_dir [] @ e # q) = fs_get toy_old_root ([] @ e # q) \<and> fs_get fs' ([] @ e # q) = None"
    using migration_crash_safe [where uu = ?uu, OF toy_old_root_ok left_behind.untouched toy_codec_ok toy_codec_ok fresh]
    by (elim exE conjE) (rule that)
  have "fs_get fs' [DEFAULT_GROUP_ID, lit ''a.jsonl''] = fs_get toy_old_root [lit ''a.jsonl'']"
    "fs_get fs' [DEFAULT_GROUP_ID, CHECKPOINTS_DIR_NAME, lit ''c''] = fs_get toy_old_root [CHECKPOINTS_DIR_NAME, lit ''c'']"
    using bspec [OF all names(1), THEN spec, of "[]"] bspec [OF all names(2), THEN spec, of "[lit ''c'']"]
    by (simp_all add: default_dir_def del: lit_Cons)
  moreover have "fs_get toy_old_root [lit ''a.jsonl''] = Some (File [49])" "fs_get toy_old_root [CHECKPOINTS_DIR_NAME, lit ''c''] = Some Dir"
    by (simp_all add: toy_old_root_def fs_get_def CHECKPOINTS_DIR_NAME_def)
  ultimately show ?thesis using run by (simp del: lit_Cons)
qed

end
