(* ===== verification/WalStrip.thy ===== *)
theory WalStrip
  imports WalMigrate OntologyDrift Pointer
begin

text \<open>
  Removing embedding vectors from log files that were written before the writer left them out
  (\<^verbatim>\<open>wal_strip.rs\<close>).  A line is rewritten only when its parameters hold a vector; everything else,
  lines that do not parse included, is kept byte for byte.  A file is replaced by renaming a
  complete temporary file.  After a run every line holds the same record without its vectors, and
  a second run changes nothing; a dry run reports what the real one does.
\<close>

section \<open>One line\<close>

text \<open>The derived deserialiser of \<^verbatim>\<open>WalLine\<close>: five required fields, from an object, whose other keys are
  ignored, or from a sequence.\<close>

definition wal_line_of_fields :: "json option \<Rightarrow> json option \<Rightarrow> json option \<Rightarrow> json option \<Rightarrow> json option \<Rightarrow> wal_line option" where
  "wal_line_of_fields sq ts d cy ps =
     Option.bind (Option.bind sq as_u64) (\<lambda>sq. Option.bind (Option.bind ts as_str) (\<lambda>ts.
     Option.bind (Option.bind d as_str) (\<lambda>d. Option.bind (Option.bind cy as_str) (\<lambda>cy.
     Option.bind ps (\<lambda>ps. Some \<lparr>ln_seq = sq, ln_ts = ts, ln_db = d, ln_cypher = cy, ln_params = ps\<rparr>)))))"

definition wal_line_of_json :: "json \<Rightarrow> wal_line option" where
  "wal_line_of_json v =
     (case v of
        JObj m \<Rightarrow> wal_line_of_fields (jget m (lit ''seq'')) (jget m (lit ''ts'')) (jget m (lit ''db'')) (jget m (lit ''cypher'')) (jget m (lit ''params''))
      | JArr [sq, ts, d, cy, ps] \<Rightarrow> wal_line_of_fields (Some sq) (Some ts) (Some d) (Some cy) (Some ps)
      | _ \<Rightarrow> None)"

record line_outcome =
  lo_output :: bytes
  lo_rewritten :: bool
  lo_unparseable :: bool

definition is_ascii_whitespace :: "nat \<Rightarrow> bool" where
  "is_ascii_whitespace b \<longleftrightarrow> b \<in> {9, 10, 12, 13, 32}"

definition is_well_formed_number_array :: "json \<Rightarrow> bool" where
  "is_well_formed_number_array v =
     (case v of JArr items \<Rightarrow> list_all (\<lambda>x. case x of JNum _ \<Rightarrow> True | _ \<Rightarrow> False) items | _ \<Rightarrow> False)"

text \<open>The loop over the vector keys: the first one with another value is the error; otherwise whether there is one.\<close>

fun check_vectors :: "rstr list \<Rightarrow> jmap \<Rightarrow> bool \<Rightarrow> rstr + bool" where
  "check_vectors [] params_obj found = Inr found"
| "check_vectors (key # keys) params_obj found =
     (case jget params_obj key of
        Some v \<Rightarrow> if is_well_formed_number_array v then check_vectors keys params_obj True else Inl key
      | None \<Rightarrow> check_vectors keys params_obj found)"

definition line_content :: "bytes \<Rightarrow> bytes" where
  "line_content raw = (if raw \<noteq> [] \<and> last raw = 10 then butlast raw else raw)"

definition passed :: "bytes \<Rightarrow> bool \<Rightarrow> line_outcome" where
  "passed raw unparseable = \<lparr>lo_output = raw, lo_rewritten = False, lo_unparseable = unparseable\<rparr>"

definition malformed_vector :: "(path \<Rightarrow> rstr) \<Rightarrow> path \<Rightarrow> nat \<Rightarrow> rstr \<Rightarrow> error" where
  "malformed_vector display file_path line_no key =
     Ipc (display file_path @ lit '': line '' @ show_nat line_no @ lit '': embedding-vector param '' @ [34] @ key @ [34]
       @ lit '' is not a well-formed JSON array of numbers'')"

definition transform_line :: "json_text \<Rightarrow> (path \<Rightarrow> rstr) \<Rightarrow> bytes \<Rightarrow> nat \<Rightarrow> path \<Rightarrow> line_outcome result" where
  "transform_line J display raw line_no file_path =
     (let content = line_content raw in
      if list_all is_ascii_whitespace content then Inr (passed raw False)
      else
       (case from_utf8 content of
          None \<Rightarrow> Inr (passed raw True)
        | Some txt \<Rightarrow>
            (case jt_parse J txt of
               None \<Rightarrow> Inr (passed raw True)
             | Some v \<Rightarrow>
                 if wal_line_of_json v = None then Inr (passed raw True)
                 else
                  (case v of
                     JObj m \<Rightarrow>
                       (case jget m (lit ''params'') of
                          Some (JObj params_obj) \<Rightarrow>
                            (case check_vectors VECTOR_PARAM_KEYS params_obj False of
                               Inl key \<Rightarrow> Inl (malformed_vector display file_path line_no key)
                             | Inr has_embedding_key \<Rightarrow>
                                 if \<not> has_embedding_key then Inr (passed raw False)
                                 else Inr \<lparr>lo_output = as_bytes (jt_print J (JObj (jinsert (lit ''params'') (strip_vector_params (JObj params_obj)) m)))
                                        @ (if raw \<noteq> [] \<and> last raw = 10 then [10] else []),
                                      lo_rewritten = True, lo_unparseable = False\<rparr>)
                        | _ \<Rightarrow> Inr (passed raw False))
                   | _ \<Rightarrow> Inr (passed raw False)))))"

section \<open>One file\<close>

text \<open>\<^verbatim>\<open>read_until\<close>: lines with their line feed; the last one may have none.\<close>

fun raw_lines_acc :: "bytes \<Rightarrow> bytes \<Rightarrow> bytes list" where
  "raw_lines_acc acc [] = (if acc = [] then [] else [rev acc])"
| "raw_lines_acc acc (b # bs) = (if b = 10 then rev (b # acc) # raw_lines_acc [] bs else raw_lines_acc (b # acc) bs)"

definition raw_lines :: "bytes \<Rightarrow> bytes list" where
  "raw_lines bs = raw_lines_acc [] bs"

fun transform_lines :: "json_text \<Rightarrow> (path \<Rightarrow> rstr) \<Rightarrow> path \<Rightarrow> nat \<Rightarrow> bytes list \<Rightarrow> line_outcome list result" where
  "transform_lines J display file_path line_no [] = Inr []"
| "transform_lines J display file_path line_no (raw # raws) =
     rbind (transform_line J display raw (Suc line_no) file_path) (\<lambda>out.
     rbind (transform_lines J display file_path (Suc line_no) raws) (\<lambda>outs. Inr (out # outs)))"

record file_scan_result =
  fsr_bytes_before :: nat
  fsr_bytes_after :: nat
  fsr_needs_rewrite :: bool
  fsr_records_rewritten :: nat
  fsr_unparseable_lines :: nat

definition scan_file :: "json_text \<Rightarrow> (path \<Rightarrow> rstr) \<Rightarrow> path \<Rightarrow> fsys \<Rightarrow> file_scan_result result" where
  "scan_file J display p fs =
     rbind (read_file fs p) (\<lambda>b.
     rbind (transform_lines J display p 0 (raw_lines b)) (\<lambda>outs.
     Inr \<lparr>fsr_bytes_before = length b, fsr_bytes_after = sum_list (map (length \<circ> lo_output) outs),
       fsr_needs_rewrite = list_ex lo_rewritten outs, fsr_records_rewritten = length (filter lo_rewritten outs),
       fsr_unparseable_lines = length (filter lo_unparseable outs)\<rparr>))"

definition commit_or_cleanup :: "path \<Rightarrow> path \<Rightarrow> fsys \<Rightarrow> fsys \<times> unit result" where
  "commit_or_cleanup tmp p fs =
     (case rename tmp p fs of
        Inr fs1 \<Rightarrow> (fs1, Inr ())
      | Inl e \<Rightarrow> (ignore_err (remove_file tmp) fs, Inl e))"

definition rewrite_tmp_path :: "rstr \<Rightarrow> path \<Rightarrow> path" where
  "rewrite_tmp_path uuid p = butlast p @ [last p @ lit ''.'' @ uuid @ lit ''.tmp'']"

definition rewrite_file :: "json_text \<Rightarrow> (path \<Rightarrow> rstr) \<Rightarrow> rstr \<Rightarrow> path \<Rightarrow> fsys \<Rightarrow> fsys \<times> unit result" where
  "rewrite_file J display uuid p fs =
     (if p = [] then (fs, Inl InvalidPath)
      else
       (let tmp_path = rewrite_tmp_path uuid p in
        case read_file fs p of
          Inl e \<Rightarrow> (ignore_err (remove_file tmp_path) fs, Inl e)
        | Inr b \<Rightarrow>
            (case write_tmp tmp_path [] fs of
               Inl e \<Rightarrow> (ignore_err (remove_file tmp_path) fs, Inl e)
             | Inr fs1 \<Rightarrow>
                 (case transform_lines J display p 0 (raw_lines b) of
                    Inl e \<Rightarrow> (ignore_err (remove_file tmp_path) fs1, Inl e)
                  | Inr outs \<Rightarrow>
                      commit_or_cleanup tmp_path p (fs_put tmp_path (File (concat (map lo_output outs))) fs1)))))"

record file_result =
  fr_rewritten :: bool
  fr_bytes_before :: nat
  fr_bytes_after :: nat
  fr_records_rewritten :: nat
  fr_unparseable_lines :: nat

definition strip_one_file :: "json_text \<Rightarrow> (path \<Rightarrow> rstr) \<Rightarrow> rstr \<Rightarrow> path \<Rightarrow> bool \<Rightarrow> fsys \<Rightarrow> fsys \<times> file_result result" where
  "strip_one_file J display uuid p dry_run fs =
     (case scan_file J display p fs of
        Inl e \<Rightarrow> (fs, Inl e)
      | Inr scan \<Rightarrow>
          if \<not> fsr_needs_rewrite scan
          then (fs, Inr \<lparr>fr_rewritten = False, fr_bytes_before = fsr_bytes_before scan, fr_bytes_after = fsr_bytes_before scan,
                 fr_records_rewritten = 0, fr_unparseable_lines = fsr_unparseable_lines scan\<rparr>)
          else if dry_run
          then (fs, Inr \<lparr>fr_rewritten = True, fr_bytes_before = fsr_bytes_before scan, fr_bytes_after = fsr_bytes_after scan,
                 fr_records_rewritten = fsr_records_rewritten scan, fr_unparseable_lines = fsr_unparseable_lines scan\<rparr>)
          else
           (case rewrite_file J display uuid p fs of
              (fs1, Inl e) \<Rightarrow> (fs1, Inl e)
            | (fs1, Inr _) \<Rightarrow>
                (case file_len fs1 p of
                   None \<Rightarrow> (fs1, Inl (WalIo NotFound))
                 | Some bytes_after \<Rightarrow>
                     (fs1, Inr \<lparr>fr_rewritten = True, fr_bytes_before = fsr_bytes_before scan, fr_bytes_after = bytes_after,
                       fr_records_rewritten = fsr_records_rewritten scan, fr_unparseable_lines = fsr_unparseable_lines scan\<rparr>))))"

section \<open>All files\<close>

record strip_report =
  sr_files_processed :: nat
  sr_files_rewritten :: nat
  sr_files_unchanged :: nat
  sr_bytes_before :: nat
  sr_bytes_after :: nat
  sr_records_rewritten :: nat
  sr_unparseable_lines :: nat
  sr_errors :: "(path \<times> error) list"

definition empty_report :: strip_report where
  "empty_report = \<lparr>sr_files_processed = 0, sr_files_rewritten = 0, sr_files_unchanged = 0, sr_bytes_before = 0, sr_bytes_after = 0,
     sr_records_rewritten = 0, sr_unparseable_lines = 0, sr_errors = []\<rparr>"

definition note_file :: "path \<Rightarrow> file_result result \<Rightarrow> strip_report \<Rightarrow> strip_report" where
  "note_file file r report =
     (let report = report\<lparr>sr_files_processed := sr_files_processed report + 1\<rparr> in
      case r of
        Inl e \<Rightarrow> report\<lparr>sr_errors := sr_errors report @ [(file, e)]\<rparr>
      | Inr res \<Rightarrow>
          (let report = report\<lparr>sr_bytes_before := sr_bytes_before report + fr_bytes_before res,
                 sr_bytes_after := sr_bytes_after report + fr_bytes_after res,
                 sr_unparseable_lines := sr_unparseable_lines report + fr_unparseable_lines res\<rparr> in
           if fr_rewritten res
           then report\<lparr>sr_files_rewritten := sr_files_rewritten report + 1,
                  sr_records_rewritten := sr_records_rewritten report + fr_records_rewritten res\<rparr>
           else report\<lparr>sr_files_unchanged := sr_files_unchanged report + 1\<rparr>))"

text \<open>\<open>uid p\<close> is the UUID drawn for the temporary file of \<open>p\<close>.\<close>

fun strip_files :: "json_text \<Rightarrow> (path \<Rightarrow> rstr) \<Rightarrow> (path \<Rightarrow> rstr) \<Rightarrow> bool \<Rightarrow> path list \<Rightarrow> fsys \<times> strip_report \<Rightarrow> fsys \<times> strip_report" where
  "strip_files J display uid dry_run [] st = st"
| "strip_files J display uid dry_run (file # files) (fs, report) =
     (case strip_one_file J display (uid file) file dry_run fs of
        (fs1, r) \<Rightarrow> strip_files J display uid dry_run files (fs1, note_file file r report))"

definition dir_jsonl_files :: "fsys \<Rightarrow> path \<Rightarrow> rstr list \<Rightarrow> path list" where
  "dir_jsonl_files fs dir ns =
     map (\<lambda>n. dir @ [n]) (sort (filter (\<lambda>n. (\<exists>b. fs_get fs (dir @ [n]) = Some (File b)) \<and> is_jsonl n) ns))"

fun strip_dirs :: "json_text \<Rightarrow> (path \<Rightarrow> rstr) \<Rightarrow> (path \<Rightarrow> rstr) \<Rightarrow> bool \<Rightarrow> path list \<Rightarrow> fsys \<times> strip_report \<Rightarrow> fsys \<times> strip_report" where
  "strip_dirs J display uid dry_run [] st = st"
| "strip_dirs J display uid dry_run (dir # dirs) (fs, report) =
     (case read_dir fs dir of
        Inl e \<Rightarrow> strip_dirs J display uid dry_run dirs
          (fs, if fs_exists fs dir then report\<lparr>sr_errors := sr_errors report @ [(dir, e)]\<rparr> else report)
      | Inr ns \<Rightarrow> strip_dirs J display uid dry_run dirs
          (strip_files J display uid dry_run (dir_jsonl_files fs dir ns) (fs, report)))"

definition strip_targets :: "path \<Rightarrow> rstr option \<Rightarrow> fsys \<Rightarrow> path list result" where
  "strip_targets wal_root group_id fs =
     (case group_id of
        Some gid \<Rightarrow> rbind (group_wal_dir wal_root gid) (\<lambda>dir. Inr (if is_dir fs dir then [dir] else []))
      | None \<Rightarrow> Inr ((case list_group_wal_dirs fs wal_root of Inr group_dirs \<Rightarrow> map snd group_dirs | Inl _ \<Rightarrow> []) @ [wal_root]))"

definition strip_wal_embeddings ::
  "json_text \<Rightarrow> gen_codec \<Rightarrow> (nat \<Rightarrow> rstr) \<Rightarrow> (path \<Rightarrow> rstr) \<Rightarrow> (path \<Rightarrow> rstr) \<Rightarrow> path \<Rightarrow> rstr option \<Rightarrow> bool \<Rightarrow> fsys
     \<Rightarrow> fsys \<times> strip_report result" where
  "strip_wal_embeddings J gc uu display uid wal_root group_id dry_run fs =
     (let fs1 = fst (migrate_wal_root_if_needed gc uu wal_root fs) in
      case strip_targets wal_root group_id fs1 of
        Inl e \<Rightarrow> (fs1, Inl e)
      | Inr dirs \<Rightarrow> (case strip_dirs J display uid dry_run dirs (fs1, empty_report) of (fs2, report) \<Rightarrow> (fs2, Inr report)))"

section \<open>Lines and what they hold\<close>

lemma raw_lines_acc_concat: "concat (raw_lines_acc acc bs) = rev acc @ bs"
  by (induction bs arbitrary: acc) auto

lemma raw_lines_acc_line: "10 \<notin> set l \<Longrightarrow> raw_lines_acc acc (l @ 10 # r) = (rev acc @ l @ [10]) # raw_lines_acc [] r"
  by (induction l arbitrary: acc) auto

definition is_raw_line :: "bytes \<Rightarrow> bool" where
  "is_raw_line l \<longleftrightarrow> (\<exists>c. 10 \<notin> set c \<and> l = c @ [10])"

lemma raw_lines_shape:
  "\<exists>ls rest. raw_lines_acc acc bs = ls @ rest \<and> (10 \<notin> set acc \<longrightarrow> (\<forall>l \<in> set ls. is_raw_line l) \<and> (rest = [] \<or> (\<exists>c. rest = [c] \<and> c \<noteq> [] \<and> 10 \<notin> set c)))"
proof (induction bs arbitrary: acc)
  case Nil
  show ?case by (rule exI [of _ "[]"]) (auto simp: set_rev)
next
  case (Cons b bs)
  show ?case
  proof (cases "b = 10")
    case True
    obtain ls rest where r: "raw_lines_acc [] bs = ls @ rest" "(\<forall>l \<in> set ls. is_raw_line l)" "rest = [] \<or> (\<exists>c. rest = [c] \<and> c \<noteq> [] \<and> 10 \<notin> set c)"
      using Cons.IH [of "[]"] by auto
    have "is_raw_line (rev (b # acc))" if "10 \<notin> set acc" using that True by (auto simp: is_raw_line_def)
    then show ?thesis using r True by (intro exI [of _ "rev (b # acc) # ls"] exI [of _ rest]) auto
  next
    case False
    obtain ls rest where r: "raw_lines_acc (b # acc) bs = ls @ rest"
        "10 \<notin> set (b # acc) \<longrightarrow> (\<forall>l \<in> set ls. is_raw_line l) \<and> (rest = [] \<or> (\<exists>c. rest = [c] \<and> c \<noteq> [] \<and> 10 \<notin> set c))"
      using Cons.IH [of "b # acc"] by metis
    then show ?thesis using False by (intro exI [of _ ls] exI [of _ rest]) simp
  qed
qed

lemma raw_lines_of:
  assumes "\<forall>l \<in> set ls. is_raw_line l" "rest = [] \<or> (\<exists>c. rest = [c] \<and> c \<noteq> [] \<and> 10 \<notin> set c)"
  shows "raw_lines (concat (ls @ rest)) = ls @ rest"
proof -
  have tail: "raw_lines_acc acc c = (if rev acc @ c = [] then [] else [rev acc @ c])" if "10 \<notin> set c" for acc c
    using that by (induction c arbitrary: acc) auto
  have "raw_lines_acc [] (concat ls @ concat rest) = ls @ rest"
    using assms
  proof (induction ls)
    case Nil
    then show ?case using tail by auto
  next
    case (Cons l ls)
    then obtain c where "10 \<notin> set c" "l = c @ [10]" by (auto simp: is_raw_line_def)
    then show ?case using Cons raw_lines_acc_line [of c "[]"] by simp
  qed
  then show ?thesis by (simp add: raw_lines_def)
qed

definition record_of :: "json_text \<Rightarrow> bytes \<Rightarrow> wal_line option" where
  "record_of J raw = Option.bind (from_utf8 (line_content raw)) (\<lambda>t. Option.bind (jt_parse J t) wal_line_of_json)"

definition strip_record :: "wal_line \<Rightarrow> wal_line" where
  "strip_record l = l\<lparr>ln_params := strip_vector_params (ln_params l)\<rparr>"

definition stripped_value :: "jmap \<Rightarrow> jmap \<Rightarrow> json" where
  "stripped_value m ps = JObj (jinsert (lit ''params'') (strip_vector_params (JObj ps)) m)"

text \<open>What is relied on of the JSON library for a line: a blank text is not a record, a record is an object without a
  key twice, and the object without its vectors is printed as one line that parses back.\<close>

definition reprint_ok :: "json_text \<Rightarrow> json \<Rightarrow> bool" where
  "reprint_ok J v \<longleftrightarrow> valid_str (jt_print J v) \<and> 10 \<notin> set (jt_print J v) \<and> \<not> list_all is_ascii_whitespace (as_bytes (jt_print J v))
     \<and> jt_parse J (jt_print J v) = Some v"

definition line_ok :: "json_text \<Rightarrow> bytes \<Rightarrow> bool" where
  "line_ok J raw \<longleftrightarrow> (list_all is_ascii_whitespace (line_content raw) \<longrightarrow> record_of J raw = None)
     \<and> (\<forall>t v. from_utf8 (line_content raw) = Some t \<and> jt_parse J t = Some v \<and> wal_line_of_json v \<noteq> None \<longrightarrow>
          (\<exists>m. v = JObj m \<and> (\<forall>ps. jget m (lit ''params'') = Some (JObj ps) \<longrightarrow> jmap_wf ps \<and> reprint_ok J (stripped_value m ps))))"

lemma check_vectors_none:
  "check_vectors keys ps False = Inr False \<longleftrightarrow> (\<forall>k \<in> set keys. jget ps k = None)"
proof -
  have "check_vectors keys ps True \<noteq> Inr False" for keys by (induction keys) (auto split: option.splits)
  then show ?thesis by (induction keys) (auto split: option.splits)
qed

lemma strip_absent: "\<forall>k \<in> set VECTOR_PARAM_KEYS. jget ps k = None \<Longrightarrow> strip_vector_params (JObj ps) = JObj ps"
proof -
  have "\<forall>k \<in> set ks. jget ps k = None \<Longrightarrow> fold jremove ks ps = ps" for ks
    by (induction ks) (auto simp: jremove_absent)
  then show "\<forall>k \<in> set VECTOR_PARAM_KEYS. jget ps k = None \<Longrightarrow> strip_vector_params (JObj ps) = JObj ps"
    by (simp add: strip_vector_params_def)
qed

lemma strip_removes:
  assumes "jmap_wf ps"
  shows "\<exists>ps'. strip_vector_params (JObj ps) = JObj ps' \<and> (\<forall>k \<in> set VECTOR_PARAM_KEYS. jget ps' k = None)"
  using strip_keys_get [OF assms, of VECTOR_PARAM_KEYS] by (auto simp: strip_vector_params_def restrict_map_def)

lemma record_keys:
  "lit ''seq'' \<noteq> lit ''params''" "lit ''ts'' \<noteq> lit ''params''" "lit ''db'' \<noteq> lit ''params''" "lit ''cypher'' \<noteq> lit ''params''"
  by simp_all

lemma wal_line_insert_params:
  "wal_line_of_json (JObj m) = Some l \<Longrightarrow> wal_line_of_json (JObj (jinsert (lit ''params'') x m)) = Some (l\<lparr>ln_params := x\<rparr>)"
  by (auto simp: wal_line_of_json_def wal_line_of_fields_def jget_insert record_keys bind_eq_Some_conv simp del: lit_Cons)

lemma wal_line_params: "wal_line_of_json (JObj m) = Some l \<Longrightarrow> jget m (lit ''params'') = Some (ln_params l)"
  by (auto simp: wal_line_of_json_def wal_line_of_fields_def bind_eq_Some_conv simp del: lit_Cons)

text \<open>The branches of \<open>transform_line\<close> for a line the library reads as assumed.\<close>

lemma transform_no_record:
  assumes "record_of J raw = None"
  shows "transform_line J display raw n p = Inr (passed raw (\<not> list_all is_ascii_whitespace (line_content raw)))"
  using assms by (auto simp: transform_line_def record_of_def Let_def bind_eq_None_conv split: option.splits)

lemma transform_record:
  assumes ok: "line_ok J raw" and rec: "record_of J raw = Some l"
  obtains t m where "from_utf8 (line_content raw) = Some t" "jt_parse J t = Some (JObj m)" "wal_line_of_json (JObj m) = Some l"
    "transform_line J display raw n p =
       (case ln_params l of
          JObj ps \<Rightarrow>
            (case check_vectors VECTOR_PARAM_KEYS ps False of
               Inl key \<Rightarrow> Inl (malformed_vector display p n key)
             | Inr found \<Rightarrow>
                 if \<not> found then Inr (passed raw False)
                 else Inr \<lparr>lo_output = as_bytes (jt_print J (stripped_value m ps)) @ (if raw \<noteq> [] \<and> last raw = 10 then [10] else []),
                        lo_rewritten = True, lo_unparseable = False\<rparr>)
        | _ \<Rightarrow> Inr (passed raw False))"
proof -
  obtain t v where tv: "from_utf8 (line_content raw) = Some t" "jt_parse J t = Some v" "wal_line_of_json v = Some l"
    using rec by (auto simp: record_of_def bind_eq_Some_conv)
  then obtain m where m: "v = JObj m" using ok unfolding line_ok_def by (metis option.distinct(1))
  have "\<not> list_all is_ascii_whitespace (line_content raw)" using ok rec by (auto simp: line_ok_def)
  then show ?thesis
    by (intro that [of t m]; (unfold transform_line_def stripped_value_def Let_def)?)
      (use tv m wal_line_params [of m l] in \<open>simp_all del: lit_Cons\<close>)
qed

lemma as_bytes_no_nl: "10 \<notin> set s \<Longrightarrow> 10 \<notin> set (as_bytes s)"
  using as_bytes_ascii_byte [of 10 s] by auto

lemma line_content_nl: "10 \<notin> set c \<Longrightarrow> line_content (c @ (if b then [10] else [])) = c"
  by (auto simp: line_content_def dest: last_in_set)

lemma passed_fields [simp]:
  "lo_output (passed raw u) = raw" "lo_rewritten (passed raw u) = False" "lo_unparseable (passed raw u) = u"
  by (simp_all add: passed_def)

definition kept :: "json_text \<Rightarrow> bytes \<Rightarrow> line_outcome \<Rightarrow> bool" where
  "kept J raw out \<longleftrightarrow> record_of J (lo_output out) = map_option strip_record (record_of J raw)
     \<and> (\<forall>display n p. transform_line J display (lo_output out) n p = Inr (passed (lo_output out) (lo_unparseable out)))
     \<and> (\<not> lo_rewritten out \<longrightarrow> lo_output out = raw)
     \<and> (is_raw_line raw \<longrightarrow> is_raw_line (lo_output out))
     \<and> (raw \<noteq> [] \<and> 10 \<notin> set raw \<longrightarrow> lo_output out \<noteq> [] \<and> 10 \<notin> set (lo_output out))"

lemma rewritten_kept:
  assumes ok: "line_ok J raw" and rec: "record_of J raw = Some l" and ps: "ln_params l = JObj ps"
    and tm: "from_utf8 (line_content raw) = Some t" "jt_parse J t = Some (JObj m)" "wal_line_of_json (JObj m) = Some l"
    and out: "out = \<lparr>lo_output = as_bytes (jt_print J (stripped_value m ps)) @ (if raw \<noteq> [] \<and> last raw = 10 then [10] else []),
       lo_rewritten = True, lo_unparseable = False\<rparr>"
  shows "kept J raw out"
proof -
  let ?v = "stripped_value m ps" and ?nl = "if raw \<noteq> [] \<and> last raw = 10 then [10] else []"
  have "jmap_wf ps \<and> reprint_ok J ?v" using ok tm wal_line_params [OF tm(3)] ps unfolding line_ok_def by fastforce
  then have wf: "jmap_wf ps" and v: "valid_str (jt_print J ?v)" "10 \<notin> set (jt_print J ?v)"
      "\<not> list_all is_ascii_whitespace (as_bytes (jt_print J ?v))" "jt_parse J (jt_print J ?v) = Some ?v"
    by (auto simp: reprint_ok_def)
  have cont: "line_content (lo_output out) = as_bytes (jt_print J ?v)"
    unfolding out by (simp only: line_outcome.simps line_content_nl [OF as_bytes_no_nl [OF v(2)]])
  have ne: "as_bytes (jt_print J ?v) \<noteq> []" using v(3) by auto
  have line: "wal_line_of_json ?v = Some (strip_record l)"
    using wal_line_insert_params [OF tm(3)] ps by (simp add: stripped_value_def strip_record_def del: lit_Cons)
  then have rec': "record_of J (lo_output out) = Some (strip_record l)"
    using v by (simp add: record_of_def cont from_utf8_as_bytes)
  obtain ps' where ps': "strip_vector_params (JObj ps) = JObj ps'" "\<forall>k \<in> set VECTOR_PARAM_KEYS. jget ps' k = None"
    using strip_removes [OF wf] by blast
  have "transform_line J display (lo_output out) n p = Inr (passed (lo_output out) False)" for display n p
    using v cont line ps' check_vectors_none [of VECTOR_PARAM_KEYS ps']
    by (simp add: transform_line_def stripped_value_def from_utf8_as_bytes jget_insert del: lit_Cons)
  then show ?thesis using rec rec' ne as_bytes_no_nl [OF v(2)]
    by (auto simp: kept_def out is_raw_line_def dest: last_in_set)
qed

lemma transform_line_kept:
  assumes ok: "line_ok J raw" and t: "transform_line J display raw n p = Inr out"
  shows "kept J raw out"
proof (cases "record_of J raw")
  case None
  then show ?thesis using t transform_no_record [OF None] by (auto simp: kept_def)
next
  case (Some l)
  obtain t m where tm: "from_utf8 (line_content raw) = Some t" "jt_parse J t = Some (JObj m)" "wal_line_of_json (JObj m) = Some l"
    by (rule transform_record [OF ok Some])
  have other: "transform_line J display' raw n' p' = Inr (passed raw False)" if "\<And>ps. ln_params l \<noteq> JObj ps" for display' n' p'
    by (rule transform_record [OF ok Some, of display' n' p']) (use that in \<open>auto split: json.splits\<close>)
  show ?thesis
  proof (cases "\<exists>ps. ln_params l = JObj ps")
    case False
    then have "out = passed raw False" "strip_record l = l"
      using other t by (auto simp: strip_record_def strip_vector_params_def split: json.splits)
    then show ?thesis using Some other False by (auto simp: kept_def)
  next
    case True
    then obtain ps where ps: "ln_params l = JObj ps" by blast
    show ?thesis
    proof (cases "check_vectors VECTOR_PARAM_KEYS ps False = Inr False")
      case True
      have run: "transform_line J display' raw n' p' = Inr (passed raw False)" for display' n' p'
        by (rule transform_record [OF ok Some, of display' n' p']) (use True ps in simp)
      have "strip_record l = l" using strip_absent [of ps] True ps by (simp add: strip_record_def check_vectors_none)
      then show ?thesis using run t Some by (auto simp: kept_def)
    next
      case False
      have "out = \<lparr>lo_output = as_bytes (jt_print J (stripped_value m ps)) @ (if raw \<noteq> [] \<and> last raw = 10 then [10] else []),
          lo_rewritten = True, lo_unparseable = False\<rparr>"
        by (rule transform_record [OF ok Some, of display n p]) (use False ps t tm in \<open>auto split: sum.splits if_splits\<close>)
      then show ?thesis by (rule rewritten_kept [OF ok Some ps tm])
    qed
  qed
qed

section \<open>Files\<close>

lemma map_of_unmapped: "(\<And>q. map_of xs q \<noteq> None \<Longrightarrow> f q \<noteq> k) \<Longrightarrow> map_of (map (\<lambda>(q, n). (f q, n)) xs) k = None"
  by (force simp: map_of_eq_None_iff weak_map_of_SomeI)

lemma rename_file:
  assumes r: "rename src dst fs = Inr fs'" and apart: "\<not> prefix src dst" "\<not> prefix dst src"
    and leaf: "\<And>q. q \<noteq> [] \<Longrightarrow> fs_get fs (src @ q) = None" "\<And>q. q \<noteq> [] \<Longrightarrow> fs_get fs (dst @ q) = None"
  shows "fs_get fs' = (fs_get fs)(dst := fs_get fs src, src := None)"
proof
  fix k
  have fs': "fs_get fs' k = map_of (map (\<lambda>(q, n). (move_path src dst q, n)) (fs_del dst fs)) k"
    using r by (auto simp: rename_def fs_get_def split: if_splits)
  have keys: "map_of (fs_del dst fs) q = (if q = dst then None else fs_get fs q)" for q
    using fs_get_del [of dst fs] by (simp add: fs_get_def [symmetric])
  consider (dst) "k = dst" | (below) q where "k = dst @ q" "q \<noteq> []" | (src) "prefix src k" | (other) "\<not> prefix src k" "\<not> prefix dst k"
    by (metis prefixE self_append_conv)
  then show "fs_get fs' k = ((fs_get fs)(dst := fs_get fs src, src := None)) k"
  proof cases
    case dst
    then show ?thesis using rename_onto [OF r apart(1)] apart by auto
  next
    case below
    have "move_path src dst q' \<noteq> k" if "map_of (fs_del dst fs) q' \<noteq> None" for q'
    proof (cases "take (length src) q' = src")
      case True
      then obtain r where q': "q' = src @ r" by (metis append_take_drop_id)
      have "fs_get fs (src @ r) \<noteq> None" using that keys [of q'] q' by (auto split: if_splits)
      then have "r = []" using leaf(1) [of r] by (cases "r = []") simp_all
      then show ?thesis using q' below by (simp add: move_path_def)
    next
      case False
      then show ?thesis using that leaf(2) [OF below(2)] below keys [of q'] by (auto simp: move_path_def split: if_splits)
    qed
    then have "fs_get fs' k = None" unfolding fs' by (rule map_of_unmapped)
    moreover have "k \<noteq> dst" "k \<noteq> src" using below apart by auto
    ultimately show ?thesis using leaf(2) [of q] below by simp
  next
    case src
    have "move_path src dst q \<noteq> k" for q
      using src apart by (auto simp: move_path_def prefix_def append_eq_append_conv2 split: if_splits)
    then have "fs_get fs' k = None" unfolding fs' by (intro map_of_unmapped) blast
    moreover have "k \<noteq> dst" using src apart by auto
    moreover have "fs_get fs k = None" if "k \<noteq> src"
    proof -
      obtain r where "k = src @ r" using src by (auto simp: prefix_def)
      then show ?thesis using leaf(1) [of r] that by (cases "r = []") simp_all
    qed
    ultimately show ?thesis by simp
  next
    case other
    then show ?thesis using rename_other [OF r other] by auto
  qed
qed

lemma transform_lines_kept:
  "\<forall>raw \<in> set raws. line_ok J raw \<Longrightarrow> transform_lines J display p n raws = Inr outs \<Longrightarrow> list_all2 (kept J) raws outs"
  by (induction raws arbitrary: n outs) (auto simp: rbind_Inr_iff transform_line_kept)

lemma transform_lines_again:
  "list_all2 (kept J) raws outs \<Longrightarrow>
     transform_lines J display p n (map lo_output outs) = Inr (map (\<lambda>out. passed (lo_output out) (lo_unparseable out)) outs)"
  by (induction arbitrary: n rule: list_all2_induct) (simp_all add: kept_def)

lemma outputs_are_lines:
  assumes "list_all2 (kept J) (raw_lines b) outs"
  shows "raw_lines (concat (map lo_output outs)) = map lo_output outs"
proof -
  obtain ls rest where r: "raw_lines b = ls @ rest" "\<forall>l \<in> set ls. is_raw_line l" "rest = [] \<or> (\<exists>c. rest = [c] \<and> c \<noteq> [] \<and> 10 \<notin> set c)"
    using raw_lines_shape [of "[]" b] by (auto simp: raw_lines_def)
  then obtain outs1 outs2 where o: "outs = outs1 @ outs2" "list_all2 (kept J) ls outs1" "list_all2 (kept J) rest outs2"
    using assms by (auto simp: list_all2_append1)
  have "\<forall>l \<in> set (map lo_output outs1). is_raw_line l"
    using o(2) r(2) by (induction rule: list_all2_induct) (auto simp: kept_def)
  moreover have "map lo_output outs2 = [] \<or> (\<exists>c. map lo_output outs2 = [c] \<and> c \<noteq> [] \<and> 10 \<notin> set c)"
    using o(3) r(3) by (auto simp: list_all2_Cons1 kept_def)
  ultimately show ?thesis using raw_lines_of [of "map lo_output outs1" "map lo_output outs2"] o(1) by simp
qed

lemma unchanged_outputs:
  "list_all2 (kept J) raws outs \<Longrightarrow> \<not> list_ex lo_rewritten outs \<Longrightarrow> map lo_output outs = raws"
  by (induction rule: list_all2_induct) (auto simp: kept_def)

definition strippable :: "json_text \<Rightarrow> rstr \<Rightarrow> path \<Rightarrow> bytes \<Rightarrow> fsys \<Rightarrow> bool" where
  "strippable J uuid p b fs \<longleftrightarrow> p \<noteq> [] \<and> fs_get fs p = Some (File b) \<and> is_dir fs (butlast p)
     \<and> (\<forall>q. q \<noteq> [] \<longrightarrow> fs_get fs (p @ q) = None) \<and> (\<forall>q. fs_get fs (rewrite_tmp_path uuid p @ q) = None)
     \<and> (\<forall>raw \<in> set (raw_lines b). line_ok J raw)"

lemma tmp_apart:
  assumes "p \<noteq> []"
  shows "\<not> prefix (rewrite_tmp_path uuid p) p" "\<not> prefix p (rewrite_tmp_path uuid p)" "rewrite_tmp_path uuid p \<noteq> []"
    "butlast (rewrite_tmp_path uuid p) = butlast p" "rewrite_tmp_path uuid p \<noteq> butlast p"
proof -
  obtain d n where "p = d @ [n]" using assms by (cases p rule: rev_cases) simp_all
  then show "\<not> prefix (rewrite_tmp_path uuid p) p" "\<not> prefix p (rewrite_tmp_path uuid p)" "rewrite_tmp_path uuid p \<noteq> []"
      "butlast (rewrite_tmp_path uuid p) = butlast p" "rewrite_tmp_path uuid p \<noteq> butlast p"
    by (auto simp: rewrite_tmp_path_def prefix_def)
qed

lemma rewrite_file_effect:
  assumes s: "strippable J uuid p b fs" and outs: "transform_lines J display p 0 (raw_lines b) = Inr outs"
  shows "\<exists>fs'. rewrite_file J display uuid p fs = (fs', Inr ()) \<and> fs_get fs' = (fs_get fs)(p \<mapsto> File (concat (map lo_output outs)))"
proof -
  let ?tmp = "rewrite_tmp_path uuid p" and ?out = "concat (map lo_output outs)"
  have p: "p \<noteq> []" and get: "fs_get fs p = Some (File b)" and dir: "is_dir fs (butlast p)"
    and leaf: "\<And>q. q \<noteq> [] \<Longrightarrow> fs_get fs (p @ q) = None" and fresh: "\<And>q. fs_get fs (?tmp @ q) = None"
    using s by (auto simp: strippable_def)
  note ap = tmp_apart [OF p, of uuid]
  let ?fs2 = "fs_put ?tmp (File ?out) (fs_put ?tmp (File []) fs)"
  have w: "write_tmp ?tmp [] fs = Inr (fs_put ?tmp (File []) fs)" using dir fresh [of "[]"] ap by (simp add: write_tmp_def is_dir_def)
  have g2: "fs_get ?fs2 = (fs_get fs)(?tmp \<mapsto> File ?out)" by simp
  have "is_dir ?fs2 (butlast p)" "fs_exists ?fs2 ?tmp" "\<not> is_dir ?fs2 p" using dir get ap by (auto simp: is_dir_def fs_exists_def)
  then obtain fs' where r: "rename ?tmp p ?fs2 = Inr fs'" by (auto simp: rename_def)
  have ne: "p @ q \<noteq> ?tmp" for q using ap(2) by (metis prefixI)
  have "fs_get ?fs2 (?tmp @ q) = None" "fs_get ?fs2 (p @ q) = None" if "q \<noteq> []" for q
    using that fresh [of q] leaf [OF that] ne [of q] by auto
  from rename_file [OF r ap(1,2) this] have "fs_get fs' = (fs_get fs)(p \<mapsto> File ?out)"
    using fresh [of "[]"] ap by (auto simp: fun_eq_iff)
  moreover have "rewrite_file J display uuid p fs = (fs', Inr ())"
    using p get w outs r by (simp add: rewrite_file_def read_file_def commit_or_cleanup_def)
  ultimately show ?thesis by blast
qed

text \<open>C33: stripping one log file.  When some vector is malformed nothing is changed and an error is returned.
  Otherwise the file is replaced as a whole: it has as many lines as before, and each holds the
  same record without its vectors, a line without a record included; no other path changes.  The
  dry run returns the very result of the real one, sizes included, and a second run finds nothing
  to rewrite.\<close>

theorem strip_file_exact:
  assumes s: "strippable J uuid p b fs"
  shows "(\<exists>e. transform_lines J display p 0 (raw_lines b) = Inl e \<and> (\<forall>dry. strip_one_file J display uuid p dry fs = (fs, Inl e)))
    \<or> (\<exists>fs' r b'. strip_one_file J display uuid p False fs = (fs', Inr r) \<and> strip_one_file J display uuid p True fs = (fs, Inr r)
        \<and> fs_get fs' = (fs_get fs)(p \<mapsto> File b')
        \<and> map (record_of J) (raw_lines b') = map (map_option strip_record \<circ> record_of J) (raw_lines b)
        \<and> fr_bytes_before r = length b \<and> fr_bytes_after r = length b' \<and> (\<not> fr_rewritten r \<longrightarrow> fs' = fs)
        \<and> (\<forall>uuid2 dry. \<exists>r2. strip_one_file J display uuid2 p dry fs' = (fs', Inr r2) \<and> \<not> fr_rewritten r2
             \<and> fr_unparseable_lines r2 = fr_unparseable_lines r))"
proof (cases "transform_lines J display p 0 (raw_lines b)")
  case (Inl e)
  then show ?thesis using s by (auto simp: strippable_def strip_one_file_def scan_file_def read_file_def)
next
  case (Inr outs)
  let ?out = "concat (map lo_output outs)"
  have get: "fs_get fs p = Some (File b)" and ok: "\<forall>raw \<in> set (raw_lines b). line_ok J raw" using s by (auto simp: strippable_def)
  have k: "list_all2 (kept J) (raw_lines b) outs" by (rule transform_lines_kept [OF ok Inr])
  have lines: "raw_lines ?out = map lo_output outs" by (rule outputs_are_lines [OF k])
  have recs: "map (record_of J) (map lo_output outs) = map (map_option strip_record \<circ> record_of J) (raw_lines b)"
    using k by (induction rule: list_all2_induct) (simp_all add: kept_def)
  have again: "transform_lines J display p 0 (raw_lines ?out) = Inr (map (\<lambda>out. passed (lo_output out) (lo_unparseable out)) outs)"
    using transform_lines_again [OF k] lines by simp
  have second: "\<exists>r2. strip_one_file J display uuid2 p dry fs' = (fs', Inr r2) \<and> \<not> fr_rewritten r2
      \<and> fr_unparseable_lines r2 = length (filter lo_unparseable outs)"
    if "fs_get fs' p = Some (File ?out)" for fs' uuid2 dry
    using that again by (simp add: strip_one_file_def scan_file_def read_file_def list_ex_iff filter_map comp_def)
  have len: "length ?out = sum_list (map (length \<circ> lo_output) outs)" by (simp add: length_concat)
  show ?thesis
  proof (cases "list_ex lo_rewritten outs")
    case False
    then have "?out = b" using unchanged_outputs [OF k] raw_lines_acc_concat [of "[]" b] by (simp add: raw_lines_def)
    define r where "r = \<lparr>fr_rewritten = False, fr_bytes_before = length b,
        fr_bytes_after = length b, fr_records_rewritten = 0, fr_unparseable_lines = length (filter lo_unparseable outs)\<rparr>"
    have "strip_one_file J display uuid p dry fs = (fs, Inr r)" for dry
      using get Inr False by (simp add: strip_one_file_def scan_file_def read_file_def r_def)
    then show ?thesis using second [of fs] get recs lines \<open>?out = b\<close>
      by (intro disjI2 exI [of _ fs] exI [of _ r] exI [of _ b]) (simp add: fun_upd_idem r_def)
  next
    case True
    obtain fs' where w: "rewrite_file J display uuid p fs = (fs', Inr ())" and get': "fs_get fs' = (fs_get fs)(p \<mapsto> File ?out)"
      using rewrite_file_effect [OF s Inr] by blast
    define r where "r = \<lparr>fr_rewritten = True, fr_bytes_before = length b, fr_bytes_after = length ?out,
        fr_records_rewritten = length (filter lo_rewritten outs), fr_unparseable_lines = length (filter lo_unparseable outs)\<rparr>"
    have "strip_one_file J display uuid p False fs = (fs', Inr r)" "strip_one_file J display uuid p True fs = (fs, Inr r)"
      using get Inr True w get' len by (simp_all add: strip_one_file_def scan_file_def read_file_def file_len_def r_def)
    then show ?thesis using second [of fs'] get' recs lines by (intro disjI2) (auto simp: r_def)
  qed
qed

text \<open>A dry run writes no log file, but it does migrate the WAL root.\<close>

lemma dry_run_only_migrates:
  "fst (strip_wal_embeddings J gc uu display uid wal_root group_id True fs) = fst (migrate_wal_root_if_needed gc uu wal_root fs)"
proof -
  have "fst (strip_files J display uid True files (fs, report)) = fs" for files fs report
    by (induction files arbitrary: report) (auto simp: strip_one_file_def split: sum.splits)
  then have "fst (strip_dirs J display uid True dirs (fs, report)) = fs" for dirs fs report
  proof (induction dirs arbitrary: report)
    case (Cons dir dirs)
    then show ?case by (auto split: sum.splits) (metis prod.collapse)
  qed simp
  then show ?thesis by (auto simp: strip_wal_embeddings_def Let_def split: sum.splits prod.splits) (metis fst_conv)
qed

section \<open>A concrete file\<close>

definition toy_params :: jmap where
  "toy_params = [(lit ''name_embedding'', JArr []), (lit ''name'', JStr (lit ''x''))]"

definition toy_record :: jmap where
  "toy_record = [(lit ''seq'', JNum (PosInt 7)), (lit ''ts'', JStr []), (lit ''db'', JStr []), (lit ''cypher'', JStr []), (lit ''params'', JObj toy_params)]"

definition toy_old_line :: bytes where
  "toy_old_line = jt_print plain_json_text (JObj toy_record) @ [10]"

definition toy_old_log :: fsys where
  "toy_old_log = [([], Dir), ([lit ''a.jsonl''], File toy_old_line)]"

lemma plain_text: "\<forall>c \<in> set (jt_print plain_json_text v). c = 48 \<or> c = 49" "jt_print plain_json_text v \<noteq> []"
    "jt_parse plain_json_text (jt_print plain_json_text v) = Some v" "as_bytes (jt_print plain_json_text v) = jt_print plain_json_text v"
    "from_utf8 (jt_print plain_json_text v) = Some (jt_print plain_json_text v)" "10 \<notin> set (jt_print plain_json_text v)"
    "valid_str (jt_print plain_json_text v)" "\<not> list_all is_ascii_whitespace (jt_print plain_json_text v)"
proof -
  show 1: "\<forall>c \<in> set (jt_print plain_json_text v). c = 48 \<or> c = 49" by (auto simp: plain_json_text_def)
  then have asc: "\<forall>c \<in> set (jt_print plain_json_text v). c < 128" by auto
  show "as_bytes (jt_print plain_json_text v) = jt_print plain_json_text v" by (rule as_bytes_ascii [OF asc])
  show "from_utf8 (jt_print plain_json_text v) = Some (jt_print plain_json_text v)" by (rule from_utf8_ascii [OF asc])
  show "valid_str (jt_print plain_json_text v)" by (rule valid_str_ascii [OF asc])
  show "10 \<notin> set (jt_print plain_json_text v)" using 1 by auto
qed (simp_all add: plain_json_text_def is_ascii_whitespace_def)

lemma toy_line_reads:
  "line_content toy_old_line = jt_print plain_json_text (JObj toy_record)"
  "wal_line_of_json (JObj toy_record) = Some \<lparr>ln_seq = 7, ln_ts = [], ln_db = [], ln_cypher = [], ln_params = JObj toy_params\<rparr>"
  "raw_lines toy_old_line = [toy_old_line]"
proof -
  show "line_content toy_old_line = jt_print plain_json_text (JObj toy_record)" by (simp add: toy_old_line_def line_content_def)
  show "wal_line_of_json (JObj toy_record) = Some \<lparr>ln_seq = 7, ln_ts = [], ln_db = [], ln_cypher = [], ln_params = JObj toy_params\<rparr>"
    by (simp add: wal_line_of_json_def wal_line_of_fields_def toy_record_def jget_def as_u64_def as_str_def)
  show "raw_lines toy_old_line = [toy_old_line]"
    using raw_lines_acc_line [OF plain_text(6), of "[]" "JObj toy_record" "[]"] by (simp add: raw_lines_def toy_old_line_def)
qed

lemma toy_line_ok: "line_ok plain_json_text toy_old_line"
  "record_of plain_json_text toy_old_line = Some \<lparr>ln_seq = 7, ln_ts = [], ln_db = [], ln_cypher = [], ln_params = JObj toy_params\<rparr>"
proof -
  have "jmap_wf toy_params" by (simp add: jmap_wf_def toy_params_def)
  then show "line_ok plain_json_text toy_old_line" using plain_text toy_line_reads
    by (auto simp: line_ok_def reprint_ok_def toy_record_def jget_def)
  show "record_of plain_json_text toy_old_line = Some \<lparr>ln_seq = 7, ln_ts = [], ln_db = [], ln_cypher = [], ln_params = JObj toy_params\<rparr>"
    using plain_text toy_line_reads by (simp add: record_of_def)
qed

theorem strip_file_exact_witness:
  "\<exists>fs' r b'. strip_one_file plain_json_text (\<lambda>_. []) [120] [lit ''a.jsonl''] False toy_old_log = (fs', Inr r)
     \<and> fs_get fs' [lit ''a.jsonl''] = Some (File b') \<and> fr_bytes_after r = length b'
     \<and> map (record_of plain_json_text) (raw_lines b') =
         [Some \<lparr>ln_seq = 7, ln_ts = [], ln_db = [], ln_cypher = [], ln_params = JObj [(lit ''name'', JStr (lit ''x''))]\<rparr>]"
proof -
  have s: "strippable plain_json_text [120] [lit ''a.jsonl''] toy_old_line toy_old_log"
    using toy_line_ok(1) toy_line_reads(3)
    by (simp add: strippable_def toy_old_log_def fs_get_def is_dir_def rewrite_tmp_path_def)
  have v: "check_vectors VECTOR_PARAM_KEYS toy_params False = Inr True"
    by (simp add: VECTOR_PARAM_KEYS_def toy_params_def jget_def is_well_formed_number_array_def)
  have "\<exists>out. transform_line plain_json_text (\<lambda>_. []) toy_old_line 1 [lit ''a.jsonl''] = Inr out"
    by (rule transform_record [OF toy_line_ok, of "\<lambda>_. []" 1 "[lit ''a.jsonl'']"]) (simp add: v del: lit_Cons)
  then have t: "\<nexists>e. transform_lines plain_json_text (\<lambda>_. []) [lit ''a.jsonl''] 0 (raw_lines toy_old_line) = Inl e"
    using toy_line_reads(3) by (auto simp: rbind_Inr_iff simp del: lit_Cons)
  obtain fs' r b' where run: "strip_one_file plain_json_text (\<lambda>_. []) [120] [lit ''a.jsonl''] False toy_old_log = (fs', Inr r)"
      "fs_get fs' = (fs_get toy_old_log)([lit ''a.jsonl''] \<mapsto> File b')"
      "map (record_of plain_json_text) (raw_lines b') = map (map_option strip_record \<circ> record_of plain_json_text) (raw_lines toy_old_line)"
      "fr_bytes_after r = length b'"
    using strip_file_exact [OF s, of "\<lambda>_. []"] t by (elim disjE exE conjE) (blast, rule that)
  have "strip_vector_params (JObj toy_params) = JObj [(lit ''name'', JStr (lit ''x''))]"
    by (simp add: strip_vector_params_def VECTOR_PARAM_KEYS_def toy_params_def jremove_def)
  then show ?thesis using run toy_line_ok(2) toy_line_reads(3)
    by (intro exI [of _ fs'] exI [of _ r] exI [of _ b']) (simp add: strip_record_def del: lit_Cons)
qed

end
