(* ===== verification/DbConn.thy ===== *)
theory DbConn
  imports ReadPage
begin

text \<open>
  The connection to the embedded database (\<^verbatim>\<open>db.rs\<close>, \<^verbatim>\<open>Conn\<close>): the values that are bound to parameters
  and read from columns, the execution of statements with the recording of what reaches the log, the
  repair of full-text indexes with a single retry, and the flag of an open transaction.  The engine
  is the record \<open>lbug_engine\<close> over a state \<open>'d\<close>; the libraries for time and numbers and the printing of
  values are \<open>lbug_env\<close>.  A computation is an \<open>act\<close> over the state \<open>cstate\<close> of the connection; \<open>None\<close> is
  the panic of indexing a row beyond its columns.  The theorem: a statement is recorded exactly when
  it was executed with success, and it is tried a second time only outside of a transaction.
\<close>

section \<open>Values\<close>

datatype ltype = TAny | TBool | TInt64 | TDouble | TString

record odt =
  od_year :: int
  od_month :: nat
  od_day :: nat
  od_hour :: nat
  od_minute :: nat
  od_second :: nat
  od_nano :: nat

datatype lval = VNull ltype | VBool bool | VInt64 int | VUInt64 nat | VInt32 int | VFloat f64 | VDouble f64
  | VString rstr | VTimestamp odt | VList ltype "lval list" | VArray ltype "lval list" | VJson json | VOther rstr

record lbug_env =
  lv_show :: "lval \<Rightarrow> rstr"
  lv_rfc3339 :: "rstr \<Rightarrow> odt option"
  lv_space_format :: "rstr \<Rightarrow> odt option"
  lv_format_rfc3339 :: "odt \<Rightarrow> rstr option"
  lv_to_utc :: "odt \<Rightarrow> odt"
  lv_unix_nanos :: "odt \<Rightarrow> int"
  lv_as_f64 :: "jnum \<Rightarrow> f64 option"
  lv_as_f32 :: "f64 \<Rightarrow> f64"
  lv_of_int :: "int \<Rightarrow> f64"
  lv_trunc :: "f64 \<Rightarrow> int"
  lv_debug :: "rstr \<Rightarrow> rstr"
  lv_show_io :: "io_error \<Rightarrow> rstr"
  lv_version :: rstr
  lv_now_ms :: nat
  lv_now :: rstr

definition TIMESTAMP_PARAM_NAMES :: "rstr list" where
  "TIMESTAMP_PARAM_NAMES = [lit ''created_at'', lit ''valid_at'', lit ''invalid_at'', lit ''expired_at'', lit ''ingested_at'']"

definition parse_timestamp_str :: "lbug_env \<Rightarrow> rstr \<Rightarrow> odt option" where
  "parse_timestamp_str L s = (case lv_rfc3339 L s of Some t \<Rightarrow> Some t | None \<Rightarrow> lv_space_format L s)"

definition logical_type_of :: "json \<Rightarrow> ltype" where
  "logical_type_of v = (case v of
     JBool _ \<Rightarrow> TBool
   | JNum _ \<Rightarrow> (if as_i64 v \<noteq> None then TInt64 else TDouble)
   | _ \<Rightarrow> TString)"

definition value_f64 :: "lbug_env \<Rightarrow> json \<Rightarrow> f64 option" where
  "value_f64 L v = (case v of JNum n \<Rightarrow> lv_as_f64 L n | _ \<Rightarrow> None)"

definition or_zero :: "f64 option \<Rightarrow> f64" where
  "or_zero x = (case x of Some f \<Rightarrow> f | None \<Rightarrow> Finite 0 0)"

fun json_to_value :: "lbug_env \<Rightarrow> json \<Rightarrow> lval" where
  "json_to_value L JNull = VNull TAny"
| "json_to_value L (JBool b) = VBool b"
| "json_to_value L (JNum n) = (case as_i64 (JNum n) of Some i \<Rightarrow> VInt64 i | None \<Rightarrow> VDouble (or_zero (lv_as_f64 L n)))"
| "json_to_value L (JStr s) = VString s"
| "json_to_value L (JArr arr) =
     (case arr of
        [] \<Rightarrow> VList TString []
      | JNum _ # _ \<Rightarrow> VList TDouble (map (\<lambda>x. VDouble (or_zero (value_f64 L x))) arr)
      | JStr _ # _ \<Rightarrow> VList TString (map (\<lambda>x. VString (case as_str x of Some s \<Rightarrow> s | None \<Rightarrow> [])) arr)
      | v # _ \<Rightarrow> VList (logical_type_of v) (map (json_to_value L) arr))"
| "json_to_value L (JObj m) = VJson (JObj m)"

definition json_value_for_param :: "lbug_env \<Rightarrow> rstr \<Rightarrow> json \<Rightarrow> lval" where
  "json_value_for_param L key v =
     (case (if key \<in> set TIMESTAMP_PARAM_NAMES then Option.bind (as_str v) (parse_timestamp_str L) else None) of
        Some t \<Rightarrow> VTimestamp t
      | None \<Rightarrow> json_to_value L v)"

definition json_params_to_values :: "lbug_env \<Rightarrow> json \<Rightarrow> (rstr \<times> lval) list" where
  "json_params_to_values L params =
     (case params of JObj m \<Rightarrow> map (\<lambda>(k, v). (k, json_value_for_param L k v)) m | _ \<Rightarrow> [])"

definition ingested_at_or_now :: "lbug_env \<Rightarrow> rstr \<Rightarrow> rstr" where
  "ingested_at_or_now L existing = (if existing = [] then lv_now L else existing)"

definition validate_and_normalize_valid_at :: "lbug_env \<Rightarrow> rstr \<Rightarrow> rstr result" where
  "validate_and_normalize_valid_at L raw =
     (case parse_timestamp_str L raw of
        Some t \<Rightarrow> Inr (case lv_format_rfc3339 L t of Some s \<Rightarrow> s | None \<Rightarrow> raw)
      | None \<Rightarrow> Inl (Ipc (lit ''valid_at '' @ [39] @ raw @ [39] @ lit '' is not a valid RFC-3339 or '' @ [39]
                          @ lit ''YYYY-MM-DD HH:MM:SS'' @ [39] @ lit '' timestamp'')))"

section \<open>Columns\<close>

definition show_pad :: "nat \<Rightarrow> nat \<Rightarrow> rstr" where
  "show_pad w n = replicate (w - length (show_nat n)) 48 @ show_nat n"

definition show_year :: "int \<Rightarrow> rstr" where
  "show_year y = (if y < 0 then 45 # show_pad 3 (nat (- y)) else show_pad 4 (nat y))"

definition show_date :: "odt \<Rightarrow> rstr" where
  "show_date t = show_year (od_year t) @ lit ''-'' @ show_pad 2 (od_month t) @ lit ''-'' @ show_pad 2 (od_day t)"

definition show_clock :: "odt \<Rightarrow> rstr" where
  "show_clock t = show_pad 2 (od_hour t) @ lit '':'' @ show_pad 2 (od_minute t) @ lit '':'' @ show_pad 2 (od_second t)"

definition format_datetime :: "odt \<Rightarrow> rstr" where
  "format_datetime t = show_date t @ lit '' '' @ show_clock t"

definition format_datetime_iso8601 :: "odt \<Rightarrow> rstr" where
  "format_datetime_iso8601 t = show_date t @ lit ''T'' @ show_clock t @ lit ''Z''"

definition format_datetime_rfc3339_subsecond :: "lbug_env \<Rightarrow> odt \<Rightarrow> rstr" where
  "format_datetime_rfc3339_subsecond L dt =
     (let t = lv_to_utc L dt in show_date t @ lit ''T'' @ show_clock t @ lit ''.'' @ show_pad 6 (od_nano t div 1000) @ lit ''Z'')"

definition normalize_ts_str_for_dump :: "lbug_env \<Rightarrow> rstr \<Rightarrow> rstr" where
  "normalize_ts_str_for_dump L s =
     (case lv_rfc3339 L s of
        Some t \<Rightarrow> format_datetime_rfc3339_subsecond L t
      | None \<Rightarrow> (case lv_space_format L s of Some t \<Rightarrow> format_datetime_rfc3339_subsecond L t | None \<Rightarrow> s))"

definition value_as_string :: "lbug_env \<Rightarrow> lval \<Rightarrow> rstr" where
  "value_as_string L v = (case v of VString s \<Rightarrow> s | VNull _ \<Rightarrow> [] | _ \<Rightarrow> lv_show L v)"

definition value_as_timestamp_str :: "lbug_env \<Rightarrow> lval \<Rightarrow> rstr" where
  "value_as_timestamp_str L v =
     (case v of VTimestamp t \<Rightarrow> format_datetime t | VString s \<Rightarrow> s | VNull _ \<Rightarrow> [] | _ \<Rightarrow> lv_show L v)"

definition value_as_timestamp_micros :: "lbug_env \<Rightarrow> lval \<Rightarrow> int" where
  "value_as_timestamp_micros L v =
     (case (case v of VTimestamp t \<Rightarrow> Some t | VString s \<Rightarrow> parse_timestamp_str L s | _ \<Rightarrow> None) of
        Some t \<Rightarrow> (let n = lv_unix_nanos L t in if n < 0 then - ((- n) div 1000) else n div 1000)
      | None \<Rightarrow> 0)"

definition value_as_optional_timestamp_str :: "lbug_env \<Rightarrow> lval \<Rightarrow> rstr option" where
  "value_as_optional_timestamp_str L v = (case v of VNull _ \<Rightarrow> None | _ \<Rightarrow> Some (value_as_timestamp_str L v))"

definition value_as_optional_string :: "lbug_env \<Rightarrow> lval \<Rightarrow> rstr option" where
  "value_as_optional_string L v =
     (case v of VNull _ \<Rightarrow> None | VString s \<Rightarrow> if s = [] then None else Some s | _ \<Rightarrow> Some (value_as_string L v))"

definition value_as_f64 :: "lbug_env \<Rightarrow> lval \<Rightarrow> f64" where
  "value_as_f64 L v = (case v of VDouble f \<Rightarrow> f | VFloat f \<Rightarrow> f | VInt64 i \<Rightarrow> lv_of_int L i | _ \<Rightarrow> Finite 0 0)"

text \<open>\<^verbatim>\<open>as usize\<close> keeps the low 64 bits of an integer; \<open>lv_trunc\<close> is the saturating cast of a float.\<close>

definition as_u64_cast :: "int \<Rightarrow> nat" where
  "as_u64_cast i = nat (i mod 2 ^ 64)"

definition value_as_usize :: "lbug_env \<Rightarrow> lval \<Rightarrow> nat" where
  "value_as_usize L v =
     (case v of VInt64 i \<Rightarrow> as_u64_cast i | VUInt64 n \<Rightarrow> n | VInt32 i \<Rightarrow> as_u64_cast i
      | VDouble f \<Rightarrow> nat (lv_trunc L f) | _ \<Rightarrow> 0)"

definition value_as_opt_u64 :: "lval \<Rightarrow> nat option" where
  "value_as_opt_u64 v =
     (case v of VInt64 i \<Rightarrow> if i \<ge> 0 then Some (nat i) else None | VUInt64 n \<Rightarrow> Some n
      | VInt32 i \<Rightarrow> if i \<ge> 0 then Some (nat i) else None | _ \<Rightarrow> None)"

definition value_as_float_array :: "lbug_env \<Rightarrow> lval \<Rightarrow> f64 list" where
  "value_as_float_array L v =
     (let elem = (\<lambda>e. case e of VFloat f \<Rightarrow> f | VDouble f \<Rightarrow> lv_as_f32 L f | _ \<Rightarrow> Finite 0 0) in
      case v of VArray _ es \<Rightarrow> map elem es | VList _ es \<Rightarrow> map elem es | _ \<Rightarrow> [])"

definition value_as_str_list :: "lbug_env \<Rightarrow> lval \<Rightarrow> rstr list" where
  "value_as_str_list L v =
     (case v of VArray _ es \<Rightarrow> map (value_as_string L) es | VList _ es \<Rightarrow> map (value_as_string L) es | _ \<Rightarrow> [])"

definition value_as_kind :: "lbug_env \<Rightarrow> lval \<Rightarrow> rstr" where
  "value_as_kind L v = (let k = value_as_string L v in if trim k = [] then DEFAULT_KIND else k)"

section \<open>Errors as text\<close>

definition format_candidates :: "(rstr \<times> rstr) list \<Rightarrow> rstr" where
  "format_candidates c = str_join (lit '', '') (map (\<lambda>(uuid, kind). kind @ lit '' ('' @ uuid @ lit '')'') c)"

fun show_error :: "lbug_env \<Rightarrow> error \<Rightarrow> rstr" where
  "show_error L (Lbug e) = lit ''database error: '' @ e"
| "show_error L InvalidPath = lit ''invalid path''"
| "show_error L (QueryFailed e) = lit ''query failed: '' @ e"
| "show_error L (Http e) = lit ''HTTP error: '' @ e"
| "show_error L (Json e) = lit ''JSON error: '' @ e"
| "show_error L (Ipc e) = lit ''IPC error: '' @ e"
| "show_error L (Join e) = lit ''task join error: '' @ e"
| "show_error L (WalIo e) = lit ''WAL I/O error: '' @ lv_show_io L e"
| "show_error L (WalJson e) = lit ''WAL JSON error: '' @ e"
| "show_error L (DbUnavailable e) = lit ''DB unavailable, recovery required: '' @ e"
| "show_error L Cancelled = lit ''operation cancelled''"
| "show_error L (Config e) = lit ''configuration error: '' @ e"
| "show_error L (CassetteMiss e) = lit ''cassette miss: '' @ e"
| "show_error L (CassetteCorrupt e) = lit ''cassette corrupt: '' @ e"
| "show_error L (CassetteDuplicateKey e) = lit ''cassette duplicate key: '' @ e"
| "show_error L (CheckpointInvalidName n) =
     lit ''invalid checkpoint name '' @ lv_debug L n @ lit '': must be 1-200 chars of [A-Za-z0-9_-]''"
| "show_error L (CheckpointDuplicateName n) = lit ''checkpoint '' @ lv_debug L n @ lit '' already exists''"
| "show_error L (CheckpointNotFound n) = lit ''checkpoint '' @ lv_debug L n @ lit '' not found''"
| "show_error L (InvalidGroupId g) =
     lit ''invalid group_id '' @ lv_debug L g @ lit '': must be non-empty and map to a directory name of 1-200 chars''"
| "show_error L (WalGenerationUnknown e) = lit ''WAL stream generation unknown: '' @ e"
| "show_error L (InvalidKind k) =
     lit ''invalid kind '' @ lv_debug L k @ lit '': must be non-empty, must not contain U+001F, and must not be the ''
       @ lit ''reserved label '' @ [34] @ lit ''Merged'' @ [34]"
| "show_error L (AmbiguousEntity n g c) =
     lit ''ambiguous entity '' @ lv_debug L n @ lit '' in group '' @ lv_debug L g @ lit '': '' @ format_candidates c"
| "show_error L (IdentitySetChangeRefused g l c message) = message"

definition is_fts_inconsistent_error :: "lbug_env \<Rightarrow> error \<Rightarrow> bool" where
  "is_fts_inconsistent_error L e =
     (let s = show_error L e in str_contains s (lit ''FTS index '' @ [39]) \<and> str_contains s (lit ''is inconsistent''))"

definition is_already_exists_error :: "lbug_env \<Rightarrow> error \<Rightarrow> bool" where
  "is_already_exists_error L e =
     (let s = show_error L e in str_contains s (lit ''Binder exception:'') \<and> str_contains s (lit ''already exists in table''))"

definition is_named_catalog_entry_already_exists_error :: "lbug_env \<Rightarrow> error \<Rightarrow> rstr \<Rightarrow> bool" where
  "is_named_catalog_entry_already_exists_error L e name =
     (let s = show_error L e in
      str_contains s (lit ''Binder exception:'') \<and> str_contains s (name @ lit '' already exists in catalog''))"

section \<open>The connection\<close>

record 'd lbug_engine =
  en_query :: "rstr \<Rightarrow> 'd \<Rightarrow> 'd \<times> (rstr + lval list list)"
  en_prepare :: "'d \<Rightarrow> rstr \<Rightarrow> rstr + unit"
  en_execute :: "rstr \<Rightarrow> (rstr \<times> lval) list \<Rightarrow> 'd \<Rightarrow> 'd \<times> (rstr + lval list list)"

record 'd cstate =
  cs_db :: 'd
  cs_executed_mutations :: "mutation list"
  cs_in_txn :: bool
  cs_fts_repairs :: "nat \<times> nat"
  cs_known_kinds :: "rstr set"
  cs_fallback_scans :: nat

definition of_lbug :: "rstr + 'a \<Rightarrow> 'a result" where
  "of_lbug r = map_sum Lbug id r"

definition on_db :: "('d \<Rightarrow> 'd \<times> (rstr + 'a)) \<Rightarrow> ('d cstate, 'a) act" where
  "on_db f s = (case f (cs_db s) of (d, r) \<Rightarrow> Some (s\<lparr>cs_db := d\<rparr>, of_lbug r))"

definition atry :: "('s, 'a) act \<Rightarrow> (error \<Rightarrow> ('s, 'a) act) \<Rightarrow> ('s, 'a) act" where
  "atry m h d = (case m d of None \<Rightarrow> None | Some (d', Inl e) \<Rightarrow> h e d' | Some (d', Inr x) \<Rightarrow> Some (d', Inr x))"

definition aignore :: "('s, 'a) act \<Rightarrow> ('s, unit) act" where
  "aignore m = atry (abind m (\<lambda>_. aret ())) (\<lambda>_. aret ())"

definition amodify :: "('s \<Rightarrow> 's) \<Rightarrow> ('s, unit) act" where
  "amodify f d = Some (f d, Inr ())"

fun aeach :: "('a \<Rightarrow> ('s, unit) act) \<Rightarrow> 'a list \<Rightarrow> ('s, unit) act" where
  "aeach f [] = aret ()"
| "aeach f (x # xs) = abind (f x) (\<lambda>_. aeach f xs)"

definition execute_prepared :: "lbug_env \<Rightarrow> 'd lbug_engine \<Rightarrow> rstr \<Rightarrow> json \<Rightarrow> ('d cstate, unit) act" where
  "execute_prepared L E cypher params =
     abind (on_db (en_execute E cypher (json_params_to_values L params))) (\<lambda>_. aret ())"

definition prepare :: "'d lbug_engine \<Rightarrow> rstr \<Rightarrow> ('d cstate, unit) act" where
  "prepare E cypher = aread (\<lambda>s. of_lbug (en_prepare E (cs_db s) cypher))"

definition query_unrecorded :: "'d lbug_engine \<Rightarrow> rstr \<Rightarrow> ('d cstate, unit) act" where
  "query_unrecorded E sql = abind (on_db (en_query E sql)) (\<lambda>_. aret ())"

definition exec_params_unrecorded :: "lbug_env \<Rightarrow> 'd lbug_engine \<Rightarrow> rstr \<Rightarrow> json \<Rightarrow> ('d cstate, unit) act" where
  "exec_params_unrecorded L E cypher params = abind (prepare E cypher) (\<lambda>_. execute_prepared L E cypher params)"

definition query_params :: "lbug_env \<Rightarrow> 'd lbug_engine \<Rightarrow> rstr \<Rightarrow> json \<Rightarrow> ('d cstate, lval list list) act" where
  "query_params L E cypher params =
     abind (prepare E cypher) (\<lambda>_. on_db (en_execute E cypher (json_params_to_values L params)))"

subsection \<open>Rebuilding the full-text indexes\<close>

definition FTS_MARKER_KEY :: rstr where
  "FTS_MARKER_KEY = lit ''fts_built_by_lbug''"

definition single_quoted :: "rstr \<Rightarrow> rstr" where
  "single_quoted s = [39] @ s @ [39]"

definition CREATE_FTS_SQL :: "rstr list" where
  "CREATE_FTS_SQL =
     [lit ''CALL CREATE_FTS_INDEX('' @ single_quoted (lit ''Entity'') @ lit '', '' @ single_quoted (lit ''node_name_and_summary'') @ lit '', [''
        @ single_quoted (lit ''name'') @ lit '', '' @ single_quoted (lit ''summary'') @ lit ''])'',
      lit ''CALL CREATE_FTS_INDEX('' @ single_quoted (lit ''RelatesToNode_'') @ lit '', '' @ single_quoted (lit ''edge_name_and_fact'') @ lit '', [''
        @ single_quoted (lit ''name'') @ lit '', '' @ single_quoted (lit ''fact'') @ lit ''])'',
      lit ''CALL CREATE_FTS_INDEX('' @ single_quoted (lit ''Episodic'') @ lit '', '' @ single_quoted (lit ''episode_content'') @ lit '', [''
        @ single_quoted (lit ''content'') @ lit '', '' @ single_quoted (lit ''source'') @ lit '', '' @ single_quoted (lit ''source_description'') @ lit ''])'']"

definition DROP_FTS_SQL :: "rstr list" where
  "DROP_FTS_SQL =
     [lit ''CALL DROP_FTS_INDEX('' @ single_quoted (lit ''Entity'') @ lit '', '' @ single_quoted (lit ''node_name_and_summary'') @ lit '')'',
      lit ''CALL DROP_FTS_INDEX('' @ single_quoted (lit ''RelatesToNode_'') @ lit '', '' @ single_quoted (lit ''edge_name_and_fact'') @ lit '')'',
      lit ''CALL DROP_FTS_INDEX('' @ single_quoted (lit ''Episodic'') @ lit '', '' @ single_quoted (lit ''episode_content'') @ lit '')'']"

definition MARKER_DELETE :: rstr where
  "MARKER_DELETE = lit ''MATCH (s:SchemaState {key: $key}) DELETE s''"

definition MARKER_WRITE :: rstr where
  "MARKER_WRITE = lit ''MERGE (s:SchemaState {key: $key}) SET s.status = $status''"

definition SCHEMA_STATE_TABLE :: rstr where
  "SCHEMA_STATE_TABLE = lit ''CREATE NODE TABLE IF NOT EXISTS SchemaState (key STRING PRIMARY KEY, status STRING)''"

definition ensure_schema_state_table :: "'d lbug_engine \<Rightarrow> ('d cstate, unit) act" where
  "ensure_schema_state_table E = query_unrecorded E SCHEMA_STATE_TABLE"

definition write_fts_marker :: "lbug_env \<Rightarrow> 'd lbug_engine \<Rightarrow> ('d cstate, unit) act" where
  "write_fts_marker L E =
     exec_params_unrecorded L E MARKER_WRITE
       (JObj [(lit ''key'', JStr FTS_MARKER_KEY), (lit ''status'', JStr (lv_version L))])"

definition rebuild_fts_indexes :: "lbug_env \<Rightarrow> 'd lbug_engine \<Rightarrow> ('d cstate, unit) act" where
  "rebuild_fts_indexes L E =
     abind (ensure_schema_state_table E) (\<lambda>_.
     abind (exec_params_unrecorded L E MARKER_DELETE (JObj [(lit ''key'', JStr FTS_MARKER_KEY)])) (\<lambda>_.
     abind (aeach (\<lambda>sql. aignore (query_unrecorded E sql)) DROP_FTS_SQL) (\<lambda>_.
     abind (aeach (query_unrecorded E) CREATE_FTS_SQL) (\<lambda>_.
     write_fts_marker L E))))"

definition fts_record :: "nat \<Rightarrow> nat \<times> nat \<Rightarrow> nat \<times> nat" where
  "fts_record now_ms g = (wrap_add u64_max (fst g) 1, now_ms)"

definition fts_snapshot :: "nat \<times> nat \<Rightarrow> nat \<times> nat option" where
  "fts_snapshot g = (fst g, if snd g \<noteq> 0 then Some (snd g) else None)"

definition repair_fts_after :: "lbug_env \<Rightarrow> 'd lbug_engine \<Rightarrow> error \<Rightarrow> ('d cstate, bool) act" where
  "repair_fts_after L E err s =
     (if cs_in_txn s \<or> \<not> is_fts_inconsistent_error L err then aret False s
      else atry (abind (rebuild_fts_indexes L E) (\<lambda>_.
                 abind (amodify (\<lambda>t. t\<lparr>cs_fts_repairs := fts_record (lv_now_ms L) (cs_fts_repairs t)\<rparr>)) (\<lambda>_. aret True)))
                (\<lambda>_. aret False) s)"

subsection \<open>Recorded statements\<close>

definition record_mutation :: "rstr \<Rightarrow> json \<Rightarrow> ('d cstate, unit) act" where
  "record_mutation cypher params =
     amodify (\<lambda>s. s\<lparr>cs_executed_mutations := cs_executed_mutations s @ [(cypher, params)]\<rparr>)"

definition with_backstop :: "lbug_env \<Rightarrow> 'd lbug_engine \<Rightarrow> ('d cstate, 'a) act \<Rightarrow> ('d cstate, 'a) act \<Rightarrow> ('d cstate, 'a) act" where
  "with_backstop L E first again =
     atry first (\<lambda>e. abind (repair_fts_after L E e) (\<lambda>repaired. if repaired then again else afail e))"

definition raw_query :: "lbug_env \<Rightarrow> 'd lbug_engine \<Rightarrow> rstr \<Rightarrow> ('d cstate, unit) act" where
  "raw_query L E sql =
     abind (with_backstop L E (on_db (en_query E sql)) (on_db (en_query E sql))) (\<lambda>_. record_mutation sql JNull)"

definition cypher_query :: "lbug_env \<Rightarrow> 'd lbug_engine \<Rightarrow> rstr \<Rightarrow> ('d cstate, rstr list list) act" where
  "cypher_query L E sql =
     abind (with_backstop L E (on_db (en_query E sql)) (on_db (en_query E sql))) (\<lambda>rows.
     abind (record_mutation sql JNull) (\<lambda>_. aret (map (map (value_as_string L)) rows)))"

definition exec_params :: "lbug_env \<Rightarrow> 'd lbug_engine \<Rightarrow> rstr \<Rightarrow> json \<Rightarrow> ('d cstate, unit) act" where
  "exec_params L E cypher params =
     abind (prepare E cypher) (\<lambda>_.
     abind (with_backstop L E (execute_prepared L E cypher params)
              (abind (prepare E cypher) (\<lambda>_. execute_prepared L E cypher params))) (\<lambda>_.
     record_mutation cypher params))"

definition exec_transaction_control :: "'d lbug_engine \<Rightarrow> rstr \<Rightarrow> ('d cstate, unit) act" where
  "exec_transaction_control E sql s =
     (let upper = map ascii_upper (trim_start sql);
          is_begin = starts_with (lit ''BEGIN'') upper;
          is_end = starts_with (lit ''COMMIT'') upper \<or> starts_with (lit ''ROLLBACK'') upper
      in case en_query E sql (cs_db s) of
           (d, r) \<Rightarrow>
             (let s' = s\<lparr>cs_db := d, cs_in_txn := (if is_begin \<and> isl r = False then True else if is_end then False else cs_in_txn s)\<rparr>
              in abind (\<lambda>t. Some (t, of_lbug r)) (\<lambda>_. aret ()) s'))"

definition drain_mutations :: "('d cstate, mutation list) act" where
  "drain_mutations s = Some (s\<lparr>cs_executed_mutations := []\<rparr>, Inr (cs_executed_mutations s))"

definition conn_drain_into :: "rstr \<Rightarrow> grouped_mutations \<Rightarrow> ('d cstate, grouped_mutations) act" where
  "conn_drain_into group_id grouped = abind drain_mutations (\<lambda>drained. aret (grouped_add group_id drained grouped))"

section \<open>Frames of computations\<close>

text \<open>\<open>frames R m\<close>: every run of \<open>m\<close>, whether it returns a value or an error, relates its states by \<open>R\<close>.\<close>

definition frames :: "('s \<Rightarrow> 's \<Rightarrow> bool) \<Rightarrow> ('s, 'a) act \<Rightarrow> bool" where
  "frames R m \<longleftrightarrow> (\<forall>s s' r. m s = Some (s', r) \<longrightarrow> R s s')"

definition returns :: "('s, 'a) act \<Rightarrow> bool" where
  "returns m \<longleftrightarrow> (\<forall>s. m s \<noteq> None)"

lemma framesD: "frames R m \<Longrightarrow> m s = Some (s', r) \<Longrightarrow> R s s'"
  by (simp add: frames_def)

lemma framesI: "(\<And>s s' r. m s = Some (s', r) \<Longrightarrow> R s s') \<Longrightarrow> frames R m"
  by (simp add: frames_def)

lemma frames_if: "frames R m \<Longrightarrow> frames R n \<Longrightarrow> frames R (if b then m else n)"
  by simp

locale act_frame =
  fixes R :: "'s \<Rightarrow> 's \<Rightarrow> bool"
  assumes R_refl: "R s s" and R_trans: "R s t \<Longrightarrow> R t u \<Longrightarrow> R s u"
begin

lemma ret: "frames R (aret x)"
  by (simp add: frames_def aret_def R_refl)

lemma fail: "frames R (afail e)"
  by (simp add: frames_def afail_def R_refl)

lemma read: "frames R (aread q)"
  by (simp add: frames_def aread_def R_refl)

lemma bind: "frames R m \<Longrightarrow> (\<And>x. frames R (f x)) \<Longrightarrow> frames R (abind m f)"
  unfolding frames_def abind_def
  by (fastforce split: option.splits prod.splits sum.splits intro: R_trans)

lemma catch: "frames R m \<Longrightarrow> (\<And>e. frames R (h e)) \<Longrightarrow> frames R (atry m h)"
  unfolding frames_def atry_def
  by (fastforce split: option.splits prod.splits sum.splits intro: R_trans)

lemma ignore: "frames R m \<Longrightarrow> frames R (aignore m)"
  unfolding aignore_def by (intro catch bind ret)

lemma each: "(\<And>x. x \<in> set xs \<Longrightarrow> frames R (f x)) \<Longrightarrow> frames R (aeach f xs)"
  by (induction xs) (auto intro!: bind ret)

lemma cond: "(b \<Longrightarrow> frames R m) \<Longrightarrow> frames R (awhen b m)"
  by (simp add: awhen_def ret)

lemmas rules = ret fail read bind catch ignore each cond

end

lemma returns_simps [simp]: "returns (aret x)" "returns (afail e)" "returns (aread q)" "returns (on_db f)" "returns (amodify g)"
  by (simp_all add: returns_def aret_def afail_def aread_def on_db_def amodify_def split: prod.splits)

lemma returns_bind: "returns m \<Longrightarrow> (\<And>x. returns (f x)) \<Longrightarrow> returns (abind m f)"
  by (simp add: returns_def abind_def split: option.splits prod.splits sum.splits)

lemma returns_try: "returns m \<Longrightarrow> (\<And>e. returns (h e)) \<Longrightarrow> returns (atry m h)"
  by (simp add: returns_def atry_def split: option.splits prod.splits sum.splits)

lemma returns_ignore: "returns m \<Longrightarrow> returns (aignore m)"
  unfolding aignore_def by (intro returns_try returns_bind returns_simps)

lemma returns_each: "(\<And>x. returns (f x)) \<Longrightarrow> returns (aeach f xs)"
  by (induction xs) (auto intro!: returns_bind)

section \<open>What is recorded\<close>

definition same_log :: "'d cstate \<Rightarrow> 'd cstate \<Rightarrow> bool" where
  "same_log s t \<longleftrightarrow> cs_executed_mutations t = cs_executed_mutations s \<and> cs_in_txn t = cs_in_txn s"

interpretation quiet: act_frame same_log
  by unfold_locales (simp_all add: same_log_def)

lemma quiet_on_db: "frames same_log (on_db f)"
  by (auto simp: frames_def on_db_def same_log_def split: prod.splits)

lemma quiet_repairs: "frames same_log (amodify (\<lambda>t. t\<lparr>cs_fts_repairs := f t\<rparr>))"
  by (simp add: frames_def amodify_def same_log_def)

lemma quiet_execute: "frames same_log (execute_prepared L E q p)"
  unfolding execute_prepared_def by (intro quiet.bind quiet_on_db quiet.ret)

lemma quiet_prepare: "frames same_log (prepare E q)"
  unfolding prepare_def by (rule quiet.read)

lemma quiet_query: "frames same_log (query_unrecorded E q)"
  unfolding query_unrecorded_def by (intro quiet.bind quiet_on_db quiet.ret)

lemma quiet_unrecorded: "frames same_log (exec_params_unrecorded L E q p)"
  unfolding exec_params_unrecorded_def by (intro quiet.bind quiet_prepare quiet_execute)

lemma quiet_query_params: "frames same_log (query_params L E q p)"
  unfolding query_params_def by (intro quiet.bind quiet_prepare quiet_on_db)

lemma quiet_rebuild: "frames same_log (rebuild_fts_indexes L E)"
  unfolding rebuild_fts_indexes_def ensure_schema_state_table_def write_fts_marker_def
  by (intro quiet.bind quiet.each quiet.ignore quiet_query quiet_unrecorded)

lemma quiet_repair: "frames same_log (repair_fts_after L E e)"
proof (rule framesI)
  fix s s' r
  let ?m = "atry (abind (rebuild_fts_indexes L E) (\<lambda>_.
      abind (amodify (\<lambda>t. t\<lparr>cs_fts_repairs := fts_record (lv_now_ms L) (cs_fts_repairs t)\<rparr>)) (\<lambda>_. aret True))) (\<lambda>_. aret False)"
  have m: "frames same_log ?m"
    by (intro quiet.catch quiet.bind quiet_rebuild quiet_repairs quiet.ret)
  assume "repair_fts_after L E e s = Some (s', r)"
  then show "same_log s s'"
    by (auto simp: repair_fts_after_def aret_def same_log_def split: if_splits dest: framesD [OF m])
qed

lemma quiet_backstop: "frames same_log a \<Longrightarrow> frames same_log b \<Longrightarrow> frames same_log (with_backstop L E a b)"
  unfolding with_backstop_def by (intro quiet.catch quiet.bind quiet_repair) (auto intro: quiet.fail)

lemma returns_rebuild: "returns (rebuild_fts_indexes L E)"
  unfolding rebuild_fts_indexes_def ensure_schema_state_table_def write_fts_marker_def query_unrecorded_def
    exec_params_unrecorded_def execute_prepared_def prepare_def
  by (intro returns_bind returns_each returns_ignore returns_simps)

lemma returns_repair: "returns (repair_fts_after L E e)"
proof -
  let ?m = "atry (abind (rebuild_fts_indexes L E) (\<lambda>_.
      abind (amodify (\<lambda>t. t\<lparr>cs_fts_repairs := fts_record (lv_now_ms L) (cs_fts_repairs t)\<rparr>)) (\<lambda>_. aret True))) (\<lambda>_. aret False)"
  have "returns ?m" by (intro returns_try returns_bind returns_rebuild returns_simps)
  then show ?thesis by (auto simp: returns_def repair_fts_after_def aret_def)
qed

lemma returns_backstop: "returns a \<Longrightarrow> returns b \<Longrightarrow> returns (with_backstop L E a b)"
  unfolding with_backstop_def by (intro returns_try returns_bind returns_repair) auto

lemma returns_exec_params: "returns (exec_params L E q p)"
  unfolding exec_params_def execute_prepared_def prepare_def record_mutation_def
  by (intro returns_bind returns_backstop returns_simps)

text \<open>In a transaction, or after any other error, the outcome of the first attempt stands.\<close>

lemma no_repair: "cs_in_txn s \<or> \<not> is_fts_inconsistent_error L e \<Longrightarrow> repair_fts_after L E e s = Some (s, Inr False)"
  by (auto simp: repair_fts_after_def aret_def)

lemma recorded_after:
  assumes q: "frames same_log m" and r: "abind m (\<lambda>_. record_mutation c p) s = Some (s', r)"
  shows "cs_in_txn s' = cs_in_txn s \<and>
    cs_executed_mutations s' = cs_executed_mutations s @ (case r of Inr _ \<Rightarrow> [(c, p)] | Inl _ \<Rightarrow> [])"
proof -
  from r obtain t x where t: "m s = Some (t, x)" by (auto simp: abind_def split: option.splits)
  with q have "same_log s t" by (rule framesD)
  with t r show ?thesis by (cases x) (auto simp: abind_def record_mutation_def amodify_def same_log_def)
qed

lemma abind_assoc: "abind (abind m f) g = abind m (\<lambda>x. abind (f x) g)"
  by (auto simp: abind_def fun_eq_iff split: option.splits sum.splits)

lemma exec_params_recorded:
  assumes "exec_params L E q p s = Some (s', r)"
  shows "cs_in_txn s' = cs_in_txn s \<and>
    cs_executed_mutations s' = cs_executed_mutations s @ (case r of Inr _ \<Rightarrow> [(q, p)] | Inl _ \<Rightarrow> [])"
  by (rule recorded_after [where m = "abind (prepare E q) (\<lambda>_. with_backstop L E (execute_prepared L E q p)
         (abind (prepare E q) (\<lambda>_. execute_prepared L E q p)))"])
     (use assms in \<open>auto simp: exec_params_def abind_assoc intro!: quiet.bind quiet_prepare quiet_backstop quiet_execute\<close>)

lemma raw_query_recorded:
  assumes "raw_query L E q s = Some (s', r)"
  shows "cs_in_txn s' = cs_in_txn s \<and>
    cs_executed_mutations s' = cs_executed_mutations s @ (case r of Inr _ \<Rightarrow> [(q, JNull)] | Inl _ \<Rightarrow> [])"
  using recorded_after [OF quiet_backstop [OF quiet_on_db quiet_on_db]] assms unfolding raw_query_def by blast

lemma exec_params_single:
  assumes p: "en_prepare E (cs_db s) q = Inr ()" and x: "en_execute E q (json_params_to_values L p) (cs_db s) = (d, r)"
    and n: "cs_in_txn s \<or> (\<forall>e. r = Inl e \<longrightarrow> \<not> is_fts_inconsistent_error L (Lbug e))"
  shows "\<exists>s'. exec_params L E q p s = Some (s', map_sum Lbug (\<lambda>_. ()) r) \<and> cs_db s' = d \<and> cs_fts_repairs s' = cs_fts_repairs s"
proof (cases r)
  case (Inl e)
  with n no_repair [of "s\<lparr>cs_db := d\<rparr>" L "Lbug e" E] p x show ?thesis
    by (simp add: exec_params_def abind_def prepare_def aread_def of_lbug_def with_backstop_def atry_def execute_prepared_def
        on_db_def afail_def)
next
  case (Inr rows)
  with p x show ?thesis
    by (simp add: exec_params_def abind_def prepare_def aread_def of_lbug_def with_backstop_def atry_def execute_prepared_def
        on_db_def aret_def record_mutation_def amodify_def)
qed

section \<open>Views of the database\<close>

text \<open>A view of the engine's state that the maintenance of the full-text indexes does not touch.\<close>

definition fts_invisible :: "'d lbug_engine \<Rightarrow> ('d \<Rightarrow> 'v) \<Rightarrow> bool" where
  "fts_invisible E V \<longleftrightarrow>
     (\<forall>q \<in> set (SCHEMA_STATE_TABLE # DROP_FTS_SQL @ CREATE_FTS_SQL). \<forall>d. V (fst (en_query E q d)) = V d)
   \<and> (\<forall>q \<in> {MARKER_DELETE, MARKER_WRITE}. \<forall>b d. V (fst (en_execute E q b d)) = V d)"

text \<open>A relation on views, carried over to the states of the connection.\<close>

definition on_view :: "('d \<Rightarrow> 'v) \<Rightarrow> ('v \<Rightarrow> 'v \<Rightarrow> bool) \<Rightarrow> 'd cstate \<Rightarrow> 'd cstate \<Rightarrow> bool" where
  "on_view V R s t = R (V (cs_db s)) (V (cs_db t))"

locale view_frame =
  fixes V :: "'d \<Rightarrow> 'v" and R :: "'v \<Rightarrow> 'v \<Rightarrow> bool"
  assumes view_refl: "R v v" and view_trans: "R u v \<Longrightarrow> R v w \<Longrightarrow> R u w"
begin

sublocale act_frame "on_view V R"
  by unfold_locales (auto simp: on_view_def view_refl intro: view_trans)

lemma view_on_db: "(\<And>d. R (V d) (V (fst (f d)))) \<Longrightarrow> frames (on_view V R) (on_db f)"
  by (auto simp: frames_def on_view_def on_db_def split: prod.splits) (metis fst_conv)

lemma view_amodify: "(\<And>s. cs_db (f s) = cs_db s) \<Longrightarrow> frames (on_view V R) (amodify f)"
  by (simp add: frames_def on_view_def amodify_def view_refl)

lemma view_drain: "frames (on_view V R) drain_mutations"
  by (simp add: frames_def on_view_def drain_mutations_def view_refl)

lemma view_query: "(\<And>d. R (V d) (V (fst (en_query E q d)))) \<Longrightarrow> frames (on_view V R) (query_unrecorded E q)"
  unfolding query_unrecorded_def by (intro bind view_on_db ret)

lemma view_execute:
  "(\<And>d. R (V d) (V (fst (en_execute E q (json_params_to_values L p) d)))) \<Longrightarrow> frames (on_view V R) (execute_prepared L E q p)"
  unfolding execute_prepared_def by (intro bind view_on_db ret)

lemma view_prepare: "frames (on_view V R) (prepare E q)"
  unfolding prepare_def by (rule read)

lemma view_query_params:
  "(\<And>d. R (V d) (V (fst (en_execute E q (json_params_to_values L p) d)))) \<Longrightarrow> frames (on_view V R) (query_params L E q p)"
  unfolding query_params_def by (intro bind view_prepare view_on_db)

lemma view_rebuild: "fts_invisible E V \<Longrightarrow> frames (on_view V R) (rebuild_fts_indexes L E)"
  unfolding rebuild_fts_indexes_def ensure_schema_state_table_def write_fts_marker_def exec_params_unrecorded_def
  by (intro bind each ignore view_prepare view_query view_execute) (auto simp: fts_invisible_def view_refl)

lemma view_repair: assumes "fts_invisible E V" shows "frames (on_view V R) (repair_fts_after L E e)"
proof (rule framesI)
  fix s s' r
  let ?m = "atry (abind (rebuild_fts_indexes L E) (\<lambda>_.
      abind (amodify (\<lambda>t. t\<lparr>cs_fts_repairs := fts_record (lv_now_ms L) (cs_fts_repairs t)\<rparr>)) (\<lambda>_. aret True))) (\<lambda>_. aret False)"
  have m: "frames (on_view V R) ?m"
    by (intro catch bind view_rebuild [OF assms] view_amodify ret) simp
  assume "repair_fts_after L E e s = Some (s', r)"
  then show "on_view V R s s'"
    by (auto simp: repair_fts_after_def aret_def R_refl split: if_splits dest: framesD [OF m])
qed

text \<open>A statement moves the view as its execution in the engine does.\<close>

lemma view_exec_params:
  assumes f: "fts_invisible E V" and x: "\<And>d. R (V d) (V (fst (en_execute E q (json_params_to_values L p) d)))"
  shows "frames (on_view V R) (exec_params L E q p)"
  unfolding exec_params_def with_backstop_def record_mutation_def
  by (intro bind catch view_prepare view_execute x view_repair [OF f] view_amodify)
     (auto intro!: bind view_prepare view_execute x fail)

end

text \<open>C34: Executing a statement with parameters always returns.  Whatever happens inside, an error of the engine, the
  rebuild of the indexes or a retry, the statement is recorded for the log once if the call returns a value and not at
  all if it returns an error; nothing else is recorded and the transaction flag is kept.  Inside a transaction, and after
  every error that is not an inconsistent full-text index, the engine is asked once and its answer is the result.\<close>

theorem statement_recorded_once:
  "\<exists>s' r. exec_params L E q p s = Some (s', r)
     \<and> cs_executed_mutations s' = cs_executed_mutations s @ (case r of Inr _ \<Rightarrow> [(q, p)] | Inl _ \<Rightarrow> [])
     \<and> cs_in_txn s' = cs_in_txn s
     \<and> (\<forall>d x. en_prepare E (cs_db s) q = Inr () \<longrightarrow> en_execute E q (json_params_to_values L p) (cs_db s) = (d, x)
          \<longrightarrow> cs_in_txn s \<or> (\<forall>e. x = Inl e \<longrightarrow> \<not> is_fts_inconsistent_error L (Lbug e))
          \<longrightarrow> r = map_sum Lbug (\<lambda>_. ()) x \<and> cs_db s' = d \<and> cs_fts_repairs s' = cs_fts_repairs s)"
proof -
  obtain s' r where x: "exec_params L E q p s = Some (s', r)"
    using returns_exec_params [of L E q p] unfolding returns_def by (metis option.exhaust prod.exhaust)
  moreover note exec_params_recorded [OF x]
  moreover have "r = map_sum Lbug (\<lambda>_. ()) a \<and> cs_db s' = d \<and> cs_fts_repairs s' = cs_fts_repairs s"
    if "en_prepare E (cs_db s) q = Inr ()" "en_execute E q (json_params_to_values L p) (cs_db s) = (d, a)"
      "cs_in_txn s \<or> (\<forall>e. a = Inl e \<longrightarrow> \<not> is_fts_inconsistent_error L (Lbug e))" for d a
    using exec_params_single [OF that] x by auto
  ultimately show ?thesis by blast
qed

definition toy_lbug :: lbug_env where
  "toy_lbug = \<lparr>lv_show = (\<lambda>_. lit ''?''), lv_rfc3339 = (\<lambda>_. None), lv_space_format = (\<lambda>_. None), lv_format_rfc3339 = (\<lambda>_. None),
     lv_to_utc = id, lv_unix_nanos = (\<lambda>_. 0), lv_as_f64 = (\<lambda>_. None), lv_as_f32 = id, lv_of_int = (\<lambda>i. Finite i 0), lv_trunc = (\<lambda>_. 0),
     lv_debug = single_quoted, lv_show_io = (\<lambda>_. lit ''io''), lv_version = lit ''0.21'', lv_now_ms = 5, lv_now = lit ''now''\<rparr>"

text \<open>An engine whose first statement always hits an inconsistent index; its state counts the statements.\<close>

definition toy_counter :: "nat lbug_engine" where
  "toy_counter = \<lparr>en_query = (\<lambda>q d. (Suc d, Inr [])), en_prepare = (\<lambda>d q. Inr ()),
     en_execute = (\<lambda>q b d. (Suc d, if d = 0 then Inl (lit ''FTS index '' @ [39] @ lit ''i'' @ [39] @ lit '' is inconsistent'') else Inr []))\<rparr>"

definition toy_cstate :: "bool \<Rightarrow> nat cstate" where
  "toy_cstate b = \<lparr>cs_db = 0, cs_executed_mutations = [], cs_in_txn = b, cs_fts_repairs = (0, 0), cs_known_kinds = {DEFAULT_KIND}, cs_fallback_scans = 0\<rparr>"

lemma toy_inconsistent: "is_fts_inconsistent_error toy_lbug (Lbug (lit ''FTS index '' @ [39] @ lit ''i'' @ [39] @ lit '' is inconsistent''))"
  by (simp add: is_fts_inconsistent_error_def Let_def text_eval)

text \<open>Outside of a transaction the same statement is repaired, retried and recorded once.\<close>

lemma toy_retried:
  "\<exists>s'. exec_params toy_lbug toy_counter (lit ''Q'') JNull (toy_cstate False) = Some (s', Inr ())
     \<and> cs_executed_mutations s' = [(lit ''Q'', JNull)] \<and> cs_fts_repairs s' = (1, 5) \<and> cs_db s' = 11"
  using toy_inconsistent
  by (simp add: exec_params_def abind_def prepare_def aread_def of_lbug_def with_backstop_def atry_def execute_prepared_def
      on_db_def aret_def record_mutation_def amodify_def toy_counter_def toy_cstate_def repair_fts_after_def
      rebuild_fts_indexes_def ensure_schema_state_table_def query_unrecorded_def exec_params_unrecorded_def aignore_def
      DROP_FTS_SQL_def CREATE_FTS_SQL_def write_fts_marker_def fts_record_def wrap_add_def u64_max_def del: lit_Cons)
     (simp add: toy_lbug_def)

theorem statement_recorded_once_witness:
  "\<exists>s' r. exec_params toy_lbug toy_counter (lit ''Q'') JNull (toy_cstate True) = Some (s', r)
     \<and> cs_executed_mutations s' = [] \<and> cs_db s' = 1 \<and> cs_fts_repairs s' = (0, 0) \<and> isl r"
  using statement_recorded_once [of toy_lbug toy_counter "lit ''Q''" JNull "toy_cstate True"]
  by (auto simp: toy_counter_def toy_cstate_def)

end
