(* ===== verification/GraphDb.thy ===== *)
theory GraphDb
  imports DbConn
begin

text \<open>
  The operations of the connection on entities, edges and episodes (\<^verbatim>\<open>db.rs\<close>): the statements with
  their parameters, the decoding of the columns, and the lookups by name that fall back to a scan
  when the key column is missing or stale.  What a statement does is the business of the engine;
  where a theorem needs it, \<open>table_ok\<close> states it for the statements in question on the table of entities.
\<close>

section \<open>Labels and keys\<close>

definition ENTITY_LABEL :: rstr where
  "ENTITY_LABEL = lit ''Entity''"

definition enforce_entity_first :: "rstr list \<Rightarrow> rstr list" where
  "enforce_entity_first labels =
     (if labels \<noteq> [] \<and> hd labels = ENTITY_LABEL then labels else ENTITY_LABEL # filter (\<lambda>l. l \<noteq> ENTITY_LABEL) labels)"

definition labels_with_kind :: "rstr list \<Rightarrow> rstr \<Rightarrow> rstr list" where
  "labels_with_kind labels kind =
     (let out = enforce_entity_first labels in if kind \<in> set out then out else out @ [kind])"

definition normalize_row_kind :: "rstr \<Rightarrow> rstr" where
  "normalize_row_kind kind = (if trim kind = [] then DEFAULT_KIND else trim kind)"

section \<open>Rows\<close>

definition default_entity_row :: entity_row where
  "default_entity_row = \<lparr>er_uuid = [], er_name = [], er_group_id = [], er_labels = [], er_kind = DEFAULT_KIND, er_created_at = [],
     er_ingested_at = [], er_name_embedding = [], er_summary = [], er_attributes = [], er_episode_uuids = [],
     er_source_descriptions = [], er_summary_embedding = []\<rparr>"

definition default_relates_to_edge :: relates_to_edge where
  "default_relates_to_edge = \<lparr>re_uuid = [], re_name = [], re_source_node_uuid = [], re_target_node_uuid = [], re_group_id = [],
     re_fact = [], re_fact_embedding = [], re_created_at = [], re_ingested_at = [], re_valid_at = None, re_invalid_at = None,
     re_attributes = [], re_relation_type = None, re_episode_uuids = [], re_source_descriptions = []\<rparr>"

text \<open>Nine columns, as in most queries, and ten with the vector of the name.\<close>

definition entity_of_row :: "lbug_env \<Rightarrow> lval list \<Rightarrow> entity_row option" where
  "entity_of_row L row =
     (if length row > 8
      then Some (default_entity_row\<lparr>er_uuid := value_as_string L (row ! 0), er_name := value_as_string L (row ! 1),
             er_group_id := value_as_string L (row ! 2), er_labels := value_as_str_list L (row ! 3),
             er_created_at := value_as_timestamp_str L (row ! 4), er_summary := value_as_string L (row ! 5),
             er_attributes := value_as_string L (row ! 6), er_kind := value_as_kind L (row ! 7),
             er_ingested_at := value_as_timestamp_str L (row ! 8)\<rparr>)
      else None)"

definition full_entity_of_row :: "lbug_env \<Rightarrow> lval list \<Rightarrow> entity_row option" where
  "full_entity_of_row L row =
     (if length row > 9
      then Some (default_entity_row\<lparr>er_uuid := value_as_string L (row ! 0), er_name := value_as_string L (row ! 1),
             er_group_id := value_as_string L (row ! 2), er_labels := value_as_str_list L (row ! 3),
             er_created_at := value_as_timestamp_str L (row ! 4), er_name_embedding := value_as_float_array L (row ! 5),
             er_summary := value_as_string L (row ! 6), er_attributes := value_as_string L (row ! 7),
             er_kind := value_as_kind L (row ! 8), er_ingested_at := value_as_timestamp_str L (row ! 9)\<rparr>)
      else None)"

definition found_entity_of_row :: "lbug_env \<Rightarrow> lval list \<Rightarrow> entity_row option" where
  "found_entity_of_row L row =
     (if length row > 5
      then Some (default_entity_row\<lparr>er_uuid := value_as_string L (row ! 0), er_name := value_as_string L (row ! 1),
             er_group_id := value_as_string L (row ! 2), er_summary := value_as_string L (row ! 3),
             er_attributes := value_as_string L (row ! 4), er_kind := value_as_kind L (row ! 5)\<rparr>)
      else None)"

definition relates_edge_of_row :: "lbug_env \<Rightarrow> lval list \<Rightarrow> relates_to_edge option" where
  "relates_edge_of_row L row =
     (if length row > 10
      then Some (default_relates_to_edge\<lparr>re_uuid := value_as_string L (row ! 0), re_name := value_as_string L (row ! 1),
             re_source_node_uuid := value_as_string L (row ! 2), re_target_node_uuid := value_as_string L (row ! 3),
             re_group_id := value_as_string L (row ! 4), re_fact := value_as_string L (row ! 5),
             re_valid_at := value_as_optional_timestamp_str L (row ! 6), re_invalid_at := value_as_optional_timestamp_str L (row ! 7),
             re_attributes := value_as_string L (row ! 8), re_relation_type := value_as_optional_string L (row ! 9),
             re_ingested_at := value_as_timestamp_str L (row ! 10)\<rparr>)
      else None)"

definition full_edge_of_row :: "lbug_env \<Rightarrow> lval list \<Rightarrow> relates_to_edge option" where
  "full_edge_of_row L row =
     (if length row > 12
      then Some (default_relates_to_edge\<lparr>re_uuid := value_as_string L (row ! 0), re_name := value_as_string L (row ! 1),
             re_source_node_uuid := value_as_string L (row ! 2), re_target_node_uuid := value_as_string L (row ! 3),
             re_group_id := value_as_string L (row ! 4), re_fact := value_as_string L (row ! 5),
             re_valid_at := value_as_optional_timestamp_str L (row ! 6), re_invalid_at := value_as_optional_timestamp_str L (row ! 7),
             re_attributes := value_as_string L (row ! 8), re_fact_embedding := value_as_float_array L (row ! 9),
             re_created_at := value_as_timestamp_str L (row ! 10), re_relation_type := value_as_optional_string L (row ! 11),
             re_ingested_at := value_as_timestamp_str L (row ! 12)\<rparr>)
      else None)"

definition column :: "nat \<Rightarrow> lval list \<Rightarrow> lval option" where
  "column i row = (if i < length row then Some (row ! i) else None)"

text \<open>The rows of a query, each decoded; a row that is too short is a panic.\<close>

definition decoded :: "(lval list \<Rightarrow> 'a option) \<Rightarrow> ('s, lval list list) act \<Rightarrow> ('s, 'a list) act" where
  "decoded f q = abind q (\<lambda>rows s. case collect_opt f rows of None \<Rightarrow> None | Some xs \<Rightarrow> Some (s, Inr xs))"

text \<open>\<^verbatim>\<open>rows.into_iter().next()\<close>: only the first row is decoded.\<close>

definition decoded_first :: "(lval list \<Rightarrow> 'a option) \<Rightarrow> ('s, lval list list) act \<Rightarrow> ('s, 'a option) act" where
  "decoded_first f q = abind (decoded f (abind q (\<lambda>rows. aret (take 1 rows)))) (\<lambda>xs.
     aret (case xs of [] \<Rightarrow> None | x # _ \<Rightarrow> Some x))"

context act_frame
begin

lemma decode: "frames R q \<Longrightarrow> frames R (decoded f q)"
  unfolding decoded_def by (intro bind) (auto simp: frames_def R_refl split: option.splits)

lemma decode_first: "frames R q \<Longrightarrow> frames R (decoded_first f q)"
  unfolding decoded_first_def by (intro bind decode ret)

end

section \<open>Queries on entities\<close>

definition ENTITY_COLUMNS :: rstr where
  "ENTITY_COLUMNS = lit ''RETURN e.uuid, e.name, e.group_id, e.labels, e.created_at, e.summary, e.attributes, e.kind, e.ingested_at''"

definition FULL_ENTITY_COLUMNS :: rstr where
  "FULL_ENTITY_COLUMNS =
     lit ''RETURN e.uuid, e.name, e.group_id, e.labels, e.created_at, e.name_embedding, e.summary, e.attributes, e.kind, e.ingested_at''"

definition ENTITY_BY_UUID :: rstr where
  "ENTITY_BY_UUID = lit ''MATCH (e:Entity {uuid: $uuid}) '' @ FULL_ENTITY_COLUMNS"

definition get_entity_by_uuid :: "lbug_env \<Rightarrow> 'd lbug_engine \<Rightarrow> rstr \<Rightarrow> ('d cstate, entity_row option) act" where
  "get_entity_by_uuid L E uuid =
     decoded_first (full_entity_of_row L) (query_params L E ENTITY_BY_UUID (JObj [(lit ''uuid'', JStr uuid)]))"

definition ENTITIES_BY_UUIDS :: rstr where
  "ENTITIES_BY_UUIDS = lit ''MATCH (e:Entity) WHERE e.uuid IN $uuids '' @ ENTITY_COLUMNS"

definition ENTITIES_BY_NAME :: rstr where
  "ENTITIES_BY_NAME = lit ''MATCH (e:Entity) WHERE e.name = $name AND e.group_id = $gid '' @ ENTITY_COLUMNS
     @ lit '' ORDER BY e.created_at ASC, e.uuid ASC''"

definition get_entities_by_uuids :: "lbug_env \<Rightarrow> 'd lbug_engine \<Rightarrow> rstr list \<Rightarrow> ('d cstate, entity_row list) act" where
  "get_entities_by_uuids L E uuids =
     (if uuids = [] then aret []
      else decoded (entity_of_row L) (query_params L E ENTITIES_BY_UUIDS (JObj [(lit ''uuids'', JArr (map JStr uuids))])))"

definition get_entities_by_name_all ::
  "lbug_env \<Rightarrow> 'd lbug_engine \<Rightarrow> rstr \<Rightarrow> rstr \<Rightarrow> rstr option \<Rightarrow> ('d cstate, entity_row list) act" where
  "get_entities_by_name_all L E name group_id kind =
     abind (decoded (entity_of_row L) (query_params L E ENTITIES_BY_NAME
              (JObj [(lit ''name'', JStr name), (lit ''gid'', JStr group_id)]))) (\<lambda>rows.
     aret (filter (\<lambda>r. case kind of None \<Rightarrow> True | Some k \<Rightarrow> er_kind r = k) rows))"

definition search_entities :: "lbug_env \<Rightarrow> 'd lbug_engine \<Rightarrow> rstr \<Rightarrow> ('d cstate, entity_row list) act" where
  "search_entities L E name_prefix =
     decoded (found_entity_of_row L) (query_params L E
       (lit ''MATCH (e:Entity) WHERE e.name STARTS WITH $prefix RETURN e.uuid, e.name, e.group_id, e.summary, e.attributes, e.kind'')
       (JObj [(lit ''prefix'', JStr name_prefix)]))"

definition get_entity_by_name :: "lbug_env \<Rightarrow> 'd lbug_engine \<Rightarrow> rstr \<Rightarrow> rstr \<Rightarrow> ('d cstate, entity_row option) act" where
  "get_entity_by_name L E name group_id =
     decoded_first (entity_of_row L) (query_params L E
       (lit ''MATCH (e:Entity) WHERE e.name = $name AND e.group_id = $gid '' @ ENTITY_COLUMNS @ lit '' LIMIT 1'')
       (JObj [(lit ''name'', JStr name), (lit ''gid'', JStr group_id)]))"

definition get_entity_kind :: "lbug_env \<Rightarrow> 'd lbug_engine \<Rightarrow> rstr \<Rightarrow> ('d cstate, rstr option) act" where
  "get_entity_kind L E uuid =
     abind (decoded_first (column 0) (query_params L E (lit ''MATCH (e:Entity {uuid: $uuid}) RETURN e.kind'') (JObj [(lit ''uuid'', JStr uuid)])))
       (\<lambda>r. aret (map_option (value_as_kind L) r))"

definition entity_page_query :: "rstr \<Rightarrow> lbug_env \<Rightarrow> 'd lbug_engine \<Rightarrow> rstr \<Rightarrow> nat \<Rightarrow> nat \<Rightarrow> ('d cstate, entity_row list) act" where
  "entity_page_query size_test L E group_id offset limit =
     decoded (entity_of_row L) (query_params L E
       (lit ''MATCH (e:Entity) WHERE e.group_id = $gid AND size(e.labels) '' @ size_test @ lit '' AND '' @ single_quoted ENTITY_LABEL
          @ lit '' IN e.labels '' @ ENTITY_COLUMNS @ lit '' ORDER BY e.uuid SKIP $offset LIMIT $limit'')
       (JObj [(lit ''gid'', JStr group_id), (lit ''offset'', i64_value (int offset)), (lit ''limit'', i64_value (int limit))]))"

definition list_generic_entities_page :: "lbug_env \<Rightarrow> 'd lbug_engine \<Rightarrow> rstr \<Rightarrow> nat \<Rightarrow> nat \<Rightarrow> ('d cstate, entity_row list) act" where
  "list_generic_entities_page = entity_page_query (lit ''= 1'')"

definition list_typed_entities_page :: "lbug_env \<Rightarrow> 'd lbug_engine \<Rightarrow> rstr \<Rightarrow> nat \<Rightarrow> nat \<Rightarrow> ('d cstate, entity_row list) act" where
  "list_typed_entities_page = entity_page_query (lit ''>= 2'')"

section \<open>Writes on entities\<close>

definition json_f32 :: "f64 \<Rightarrow> json" where
  "json_f32 x = (case x of Finite _ _ \<Rightarrow> JNum (Float x) | _ \<Rightarrow> JNull)"

definition json_strs :: "rstr list \<Rightarrow> json" where
  "json_strs xs = JArr (map JStr xs)"

definition register_kind :: "rstr \<Rightarrow> ('d cstate, unit) act" where
  "register_kind kind = amodify (\<lambda>s. s\<lparr>cs_known_kinds := insert kind (cs_known_kinds s)\<rparr>)"

definition CREATE_ENTITY :: rstr where
  "CREATE_ENTITY = lit ''CREATE (:Entity {uuid: $uuid, name: $name, group_id: $group_id, '' @
     lit ''labels: $labels, created_at: $created_at, name_embedding: $name_embedding, '' @
     lit ''summary: $summary, attributes: $attributes, '' @
     lit ''summary_embedding: $summary_embedding, kind: $kind, lookup_key: $lookup_key, '' @
     lit ''ingested_at: $ingested_at})''"

definition insert_entity_params :: "ucd \<Rightarrow> lbug_env \<Rightarrow> entity_row \<Rightarrow> rstr \<Rightarrow> json" where
  "insert_entity_params U L row kind =
     (let summary_embedding = (if er_summary_embedding row = [] then replicate (length (er_name_embedding row)) (Finite 0 0)
                               else er_summary_embedding row)
      in JObj [(lit ''uuid'', JStr (er_uuid row)), (lit ''name'', JStr (er_name row)), (lit ''group_id'', JStr (er_group_id row)),
           (lit ''labels'', json_strs (labels_with_kind (er_labels row) kind)), (lit ''created_at'', JStr (er_created_at row)),
           (lit ''name_embedding'', JArr (map json_f32 (er_name_embedding row))), (lit ''summary'', JStr (er_summary row)),
           (lit ''attributes'', JStr (er_attributes row)), (lit ''summary_embedding'', JArr (map json_f32 summary_embedding)),
           (lit ''kind'', JStr kind), (lit ''lookup_key'', JStr (compute_lookup_key U (er_group_id row) kind (er_name row))),
           (lit ''ingested_at'', JStr (ingested_at_or_now L (er_ingested_at row)))])"

definition insert_entity :: "ucd \<Rightarrow> lbug_env \<Rightarrow> 'd lbug_engine \<Rightarrow> entity_row \<Rightarrow> ('d cstate, unit) act" where
  "insert_entity U L E row =
     abind (aread (\<lambda>_. normalize_kind (if trim (er_kind row) = [] then None else Some (er_kind row)))) (\<lambda>kind.
     abind (exec_params L E CREATE_ENTITY (insert_entity_params U L row kind)) (\<lambda>_.
     register_kind kind))"

definition UPDATE_ENTITY :: rstr where
  "UPDATE_ENTITY = lit ''MATCH (e:Entity {uuid: $uuid}) SET e.name = $name, e.labels = $labels, '' @
     lit ''e.summary = $summary, e.attributes = $attributes, e.group_id = $group_id, '' @
     lit ''e.kind = $kind, e.lookup_key = $lookup_key''"

definition update_entity_params :: "ucd \<Rightarrow> entity_row \<Rightarrow> rstr \<Rightarrow> rstr list \<Rightarrow> rstr \<Rightarrow> rstr \<Rightarrow> json" where
  "update_entity_params U existing new_name labels summary attributes =
     (let kind = normalize_row_kind (er_kind existing)
      in JObj [(lit ''uuid'', JStr (er_uuid existing)), (lit ''name'', JStr new_name), (lit ''group_id'', JStr (er_group_id existing)),
           (lit ''kind'', JStr kind), (lit ''labels'', json_strs (labels_with_kind labels kind)), (lit ''summary'', JStr summary),
           (lit ''attributes'', JStr attributes), (lit ''lookup_key'', JStr (compute_lookup_key U (er_group_id existing) kind new_name))])"

definition update_entity_core ::
  "ucd \<Rightarrow> lbug_env \<Rightarrow> 'd lbug_engine \<Rightarrow> entity_row \<Rightarrow> rstr \<Rightarrow> rstr list \<Rightarrow> rstr \<Rightarrow> rstr \<Rightarrow> ('d cstate, unit) act" where
  "update_entity_core U L E existing new_name labels summary attributes =
     exec_params L E UPDATE_ENTITY (update_entity_params U existing new_name labels summary attributes)"

definition SET_LABELS :: rstr where
  "SET_LABELS = lit ''MATCH (e:Entity {uuid: $uuid}) SET e.labels = $labels''"

definition SET_ENTITY_ATTRIBUTES :: rstr where
  "SET_ENTITY_ATTRIBUTES = lit ''MATCH (e:Entity {uuid: $uuid}) SET e.attributes = $attributes''"

definition SET_CREATED_AT :: rstr where
  "SET_CREATED_AT = lit ''MATCH (e:Entity {uuid: $uuid}) SET e.created_at = timestamp($new_created_at)''"

definition update_entity_labels :: "lbug_env \<Rightarrow> 'd lbug_engine \<Rightarrow> rstr \<Rightarrow> rstr list \<Rightarrow> ('d cstate, unit) act" where
  "update_entity_labels L E uuid labels =
     exec_params L E SET_LABELS (JObj [(lit ''uuid'', JStr uuid), (lit ''labels'', json_strs labels)])"

definition update_entity_attributes :: "lbug_env \<Rightarrow> 'd lbug_engine \<Rightarrow> rstr \<Rightarrow> rstr \<Rightarrow> ('d cstate, unit) act" where
  "update_entity_attributes L E uuid attributes =
     exec_params L E SET_ENTITY_ATTRIBUTES (JObj [(lit ''uuid'', JStr uuid), (lit ''attributes'', JStr attributes)])"

definition update_entity_created_at :: "lbug_env \<Rightarrow> 'd lbug_engine \<Rightarrow> rstr \<Rightarrow> rstr \<Rightarrow> ('d cstate, unit) act" where
  "update_entity_created_at L E uuid created_at =
     exec_params L E SET_CREATED_AT (JObj [(lit ''uuid'', JStr uuid), (lit ''new_created_at'', JStr created_at)])"

section \<open>Edges\<close>

definition EDGE_COLUMNS :: rstr where
  "EDGE_COLUMNS = lit ''RETURN rn.uuid, rn.name, src.uuid, dst.uuid, rn.group_id, rn.fact, '' @
     lit ''rn.valid_at, rn.invalid_at, rn.attributes, rn.relation_type, rn.ingested_at''"

definition FULL_EDGE_COLUMNS :: rstr where
  "FULL_EDGE_COLUMNS = lit ''RETURN rn.uuid, rn.name, src.uuid, dst.uuid, rn.group_id, rn.fact, '' @
     lit ''rn.valid_at, rn.invalid_at, rn.attributes, rn.fact_embedding, rn.created_at, rn.relation_type, rn.ingested_at''"

definition OUTGOING :: rstr where
  "OUTGOING = lit ''MATCH (src:Entity {uuid: $uuid})-[:RELATES_TO]->(rn:RelatesToNode_)-[:RELATES_TO]->(dst:Entity) ''"

definition INCOMING :: rstr where
  "INCOMING = lit ''MATCH (src:Entity)-[:RELATES_TO]->(rn:RelatesToNode_)-[:RELATES_TO]->(dst:Entity {uuid: $uuid}) ''"

definition FULL_OUTGOING :: rstr where
  "FULL_OUTGOING = OUTGOING @ FULL_EDGE_COLUMNS"

definition FULL_INCOMING :: rstr where
  "FULL_INCOMING = INCOMING @ FULL_EDGE_COLUMNS"

definition ACTIVE_EDGE :: rstr where
  "ACTIVE_EDGE =
     lit ''MATCH (src:Entity {uuid: $src})-[:RELATES_TO]->(rn:RelatesToNode_ {name: $name})-[:RELATES_TO]->(dst:Entity {uuid: $dst}) '' @
     lit ''WHERE rn.invalid_at IS NULL AND rn.group_id = $group_id '' @
     lit ''RETURN rn.uuid ORDER BY rn.created_at ASC, rn.uuid ASC LIMIT 1''"

definition collect_relates_to_edges :: "lbug_env \<Rightarrow> 'd lbug_engine \<Rightarrow> rstr \<Rightarrow> json \<Rightarrow> ('d cstate, relates_to_edge list) act" where
  "collect_relates_to_edges L E cypher params = decoded (relates_edge_of_row L) (query_params L E cypher params)"

definition collect_full_relates_to_edges :: "lbug_env \<Rightarrow> 'd lbug_engine \<Rightarrow> rstr \<Rightarrow> json \<Rightarrow> ('d cstate, relates_to_edge list) act" where
  "collect_full_relates_to_edges L E cypher params = decoded (full_edge_of_row L) (query_params L E cypher params)"

definition get_full_edges_for_entity :: "lbug_env \<Rightarrow> 'd lbug_engine \<Rightarrow> rstr \<Rightarrow> ('d cstate, relates_to_edge list) act" where
  "get_full_edges_for_entity L E uuid =
     abind (collect_full_relates_to_edges L E FULL_OUTGOING (JObj [(lit ''uuid'', JStr uuid)])) (\<lambda>edges.
     abind (collect_full_relates_to_edges L E FULL_INCOMING (JObj [(lit ''uuid'', JStr uuid)])) (\<lambda>more.
     aret (edges @ more)))"

definition get_edges_for_entity :: "lbug_env \<Rightarrow> 'd lbug_engine \<Rightarrow> rstr \<Rightarrow> ('d cstate, relates_to_edge list) act" where
  "get_edges_for_entity L E uuid =
     abind (collect_relates_to_edges L E (OUTGOING @ EDGE_COLUMNS) (JObj [(lit ''uuid'', JStr uuid)])) (\<lambda>edges.
     abind (collect_relates_to_edges L E (INCOMING @ EDGE_COLUMNS) (JObj [(lit ''uuid'', JStr uuid)])) (\<lambda>more.
     aret (edges @ more)))"

definition get_edge_by_uuid :: "lbug_env \<Rightarrow> 'd lbug_engine \<Rightarrow> rstr \<Rightarrow> ('d cstate, relates_to_edge option) act" where
  "get_edge_by_uuid L E uuid =
     abind (collect_relates_to_edges L E
              (lit ''MATCH (src:Entity)-[:RELATES_TO]->(rn:RelatesToNode_)-[:RELATES_TO]->(dst:Entity) WHERE rn.uuid = $uuid '' @ EDGE_COLUMNS)
              (JObj [(lit ''uuid'', JStr uuid)])) (\<lambda>rows.
     aret (if rows = [] then None else Some (last rows)))"

definition find_active_relates_to_uuid ::
  "lbug_env \<Rightarrow> 'd lbug_engine \<Rightarrow> rstr \<Rightarrow> rstr \<Rightarrow> rstr \<Rightarrow> rstr \<Rightarrow> ('d cstate, rstr option) act" where
  "find_active_relates_to_uuid L E source_uuid target_uuid name group_id =
     abind (decoded_first (column 0) (query_params L E ACTIVE_EDGE
              (JObj [(lit ''src'', JStr source_uuid), (lit ''name'', JStr name), (lit ''dst'', JStr target_uuid), (lit ''group_id'', JStr group_id)])))
       (\<lambda>r. aret (map_option (value_as_string L) r))"

definition has_directed_edge :: "lbug_env \<Rightarrow> 'd lbug_engine \<Rightarrow> rstr \<Rightarrow> rstr \<Rightarrow> rstr \<Rightarrow> rstr \<Rightarrow> ('d cstate, bool) act" where
  "has_directed_edge L E source_uuid target_uuid name group_id =
     abind (find_active_relates_to_uuid L E source_uuid target_uuid name group_id) (\<lambda>r. aret (r \<noteq> None))"

definition CREATE_RELATES_NODE :: rstr where
  "CREATE_RELATES_NODE = lit ''CREATE (:RelatesToNode_ {uuid: $uuid, name: $name, group_id: $group_id, '' @
     lit ''created_at: $created_at, fact: $fact, fact_embedding: $fact_embedding, '' @
     lit ''valid_at: $valid_at, invalid_at: $invalid_at, attributes: $attributes, '' @
     lit ''relation_type: $relation_type, ingested_at: $ingested_at})''"

definition relates_node_params :: "lbug_env \<Rightarrow> relates_to_edge \<Rightarrow> json" where
  "relates_node_params L edge =
     JObj [(lit ''uuid'', JStr (re_uuid edge)), (lit ''name'', JStr (re_name edge)), (lit ''group_id'', JStr (re_group_id edge)),
       (lit ''created_at'', JStr (re_created_at edge)), (lit ''fact'', JStr (re_fact edge)),
       (lit ''fact_embedding'', JArr (map json_f32 (re_fact_embedding edge))), (lit ''valid_at'', json_opt (re_valid_at edge)),
       (lit ''invalid_at'', json_opt (re_invalid_at edge)), (lit ''attributes'', JStr (re_attributes edge)),
       (lit ''relation_type'', json_opt (re_relation_type edge)), (lit ''ingested_at'', JStr (ingested_at_or_now L (re_ingested_at edge)))]"

definition direct_rel_params :: "relates_to_edge \<Rightarrow> json" where
  "direct_rel_params edge =
     JObj [(lit ''src'', JStr (re_source_node_uuid edge)), (lit ''dst'', JStr (re_target_node_uuid edge)), (lit ''uuid'', JStr (re_uuid edge)),
       (lit ''name'', JStr (re_name edge)), (lit ''group_id'', JStr (re_group_id edge)), (lit ''fact'', JStr (re_fact edge)),
       (lit ''valid_at'', json_opt (re_valid_at edge)), (lit ''invalid_at'', json_opt (re_invalid_at edge)),
       (lit ''attributes'', JStr (re_attributes edge))]"

definition direct_rel :: "rstr \<Rightarrow> rstr" where
  "direct_rel verb = lit ''MATCH (src:Entity {uuid: $src}), (dst:Entity {uuid: $dst}) '' @ verb @
     lit '' (src)-[:RELATES_TO {uuid: $uuid, name: $name, group_id: $group_id, '' @
     lit ''fact: $fact, valid_at: $valid_at, invalid_at: $invalid_at, '' @
     lit ''attributes: $attributes}]->(dst)''"

definition CREATE_DIRECT_REL :: rstr where
  "CREATE_DIRECT_REL = direct_rel (lit ''CREATE'')"

definition CREATE_HOPS :: rstr where
  "CREATE_HOPS = lit ''MATCH (src:Entity {uuid: $src}), (rn:RelatesToNode_ {uuid: $rn}), (dst:Entity {uuid: $dst}) '' @
     lit ''CREATE (src)-[:RELATES_TO]->(rn), (rn)-[:RELATES_TO]->(dst)''"

definition insert_relates_to_edge :: "lbug_env \<Rightarrow> 'd lbug_engine \<Rightarrow> relates_to_edge \<Rightarrow> ('d cstate, unit) act" where
  "insert_relates_to_edge L E edge =
     abind (exec_params L E CREATE_RELATES_NODE (relates_node_params L edge)) (\<lambda>_.
     abind (exec_params L E CREATE_DIRECT_REL (direct_rel_params edge)) (\<lambda>_.
     exec_params L E CREATE_HOPS (JObj [(lit ''src'', JStr (re_source_node_uuid edge)), (lit ''rn'', JStr (re_uuid edge)),
       (lit ''dst'', JStr (re_target_node_uuid edge))])))"

definition create_relates_to_direct :: "lbug_env \<Rightarrow> 'd lbug_engine \<Rightarrow> relates_to_edge \<Rightarrow> ('d cstate, unit) act" where
  "create_relates_to_direct L E edge = exec_params L E (direct_rel (lit ''MERGE'')) (direct_rel_params edge)"

definition delete_relates_to_direct :: "lbug_env \<Rightarrow> 'd lbug_engine \<Rightarrow> rstr \<Rightarrow> ('d cstate, unit) act" where
  "delete_relates_to_direct L E rn_uuid =
     exec_params L E (lit ''MATCH (src:Entity)-[r:RELATES_TO {uuid: $uuid}]->(dst:Entity) DELETE r'') (JObj [(lit ''uuid'', JStr rn_uuid)])"

definition create_relates_to_hop :: "lbug_env \<Rightarrow> 'd lbug_engine \<Rightarrow> rstr \<Rightarrow> endpoint_side \<Rightarrow> rstr \<Rightarrow> ('d cstate, unit) act" where
  "create_relates_to_hop L E rn_uuid side entity_uuid =
     (case side of
        Src \<Rightarrow> exec_params L E (lit ''MATCH (src:Entity {uuid: $src}), (rn:RelatesToNode_ {uuid: $rn}) MERGE (src)-[:RELATES_TO]->(rn)'')
                 (JObj [(lit ''src'', JStr entity_uuid), (lit ''rn'', JStr rn_uuid)])
      | Dst \<Rightarrow> exec_params L E (lit ''MATCH (rn:RelatesToNode_ {uuid: $rn}), (dst:Entity {uuid: $dst}) MERGE (rn)-[:RELATES_TO]->(dst)'')
                 (JObj [(lit ''rn'', JStr rn_uuid), (lit ''dst'', JStr entity_uuid)]))"

definition delete_relates_to_hop :: "lbug_env \<Rightarrow> 'd lbug_engine \<Rightarrow> rstr \<Rightarrow> endpoint_side \<Rightarrow> ('d cstate, unit) act" where
  "delete_relates_to_hop L E rn_uuid side =
     exec_params L E
       (case side of
          Src \<Rightarrow> lit ''MATCH (src:Entity)-[r:RELATES_TO]->(rn:RelatesToNode_ {uuid: $rn}) DELETE r''
        | Dst \<Rightarrow> lit ''MATCH (rn:RelatesToNode_ {uuid: $rn})-[r:RELATES_TO]->(dst:Entity) DELETE r'')
       (JObj [(lit ''rn'', JStr rn_uuid)])"

definition insert_cross_group_edge :: "lbug_env \<Rightarrow> 'd lbug_engine \<Rightarrow> relates_to_edge \<Rightarrow> ('d cstate, unit) act" where
  "insert_cross_group_edge L E edge =
     abind (exec_params L E CREATE_RELATES_NODE (relates_node_params L edge)) (\<lambda>_.
     abind (awhen (re_source_node_uuid edge \<noteq> [] \<and> re_target_node_uuid edge \<noteq> []) (create_relates_to_direct L E edge)) (\<lambda>_.
     abind (awhen (re_source_node_uuid edge \<noteq> []) (create_relates_to_hop L E (re_uuid edge) Src (re_source_node_uuid edge))) (\<lambda>_.
     awhen (re_target_node_uuid edge \<noteq> []) (create_relates_to_hop L E (re_uuid edge) Dst (re_target_node_uuid edge)))))"

definition update_relates_to_attributes :: "lbug_env \<Rightarrow> 'd lbug_engine \<Rightarrow> rstr \<Rightarrow> rstr \<Rightarrow> ('d cstate, unit) act" where
  "update_relates_to_attributes L E uuid attributes =
     exec_params L E (lit ''MATCH (rn:RelatesToNode_ {uuid: $uuid}) SET rn.attributes = $attributes'')
       (JObj [(lit ''uuid'', JStr uuid), (lit ''attributes'', JStr attributes)])"

definition update_relates_to_core ::
  "lbug_env \<Rightarrow> 'd lbug_engine \<Rightarrow> rstr \<Rightarrow> rstr \<Rightarrow> rstr option \<Rightarrow> rstr option \<Rightarrow> rstr \<Rightarrow> ('d cstate, unit) act" where
  "update_relates_to_core L E uuid fct valid_at relation_type attributes =
     abind (exec_params L E
              (lit ''MATCH (rn:RelatesToNode_ {uuid: $uuid}) SET rn.fact = $fact, '' @
               lit ''rn.valid_at = $valid_at, rn.relation_type = $relation_type, '' @
               lit ''rn.attributes = $attributes'')
              (JObj [(lit ''uuid'', JStr uuid), (lit ''fact'', JStr fct), (lit ''valid_at'', json_opt valid_at),
                 (lit ''relation_type'', json_opt relation_type), (lit ''attributes'', JStr attributes)])) (\<lambda>_.
     aignore (exec_params L E
              (lit ''MATCH (src:Entity)-[r:RELATES_TO {uuid: $uuid}]->(dst:Entity) '' @
               lit ''SET r.fact = $fact, r.valid_at = $valid_at, r.attributes = $attributes'')
              (JObj [(lit ''uuid'', JStr uuid), (lit ''fact'', JStr fct), (lit ''valid_at'', json_opt valid_at), (lit ''attributes'', JStr attributes)])))"

definition SET_INVALID_AT :: rstr where
  "SET_INVALID_AT = lit ''MATCH (rn:RelatesToNode_ {uuid: $uuid}) SET rn.invalid_at = $invalid_at''"

definition SET_REL_INVALID_AT :: rstr where
  "SET_REL_INVALID_AT = lit ''MATCH (src:Entity)-[r:RELATES_TO {uuid: $uuid}]->(dst:Entity) SET r.invalid_at = $invalid_at''"

definition invalidate_edge :: "lbug_env \<Rightarrow> 'd lbug_engine \<Rightarrow> rstr \<Rightarrow> rstr \<Rightarrow> ('d cstate, unit) act" where
  "invalidate_edge L E edge_uuid invalid_at =
     (let params = JObj [(lit ''uuid'', JStr edge_uuid), (lit ''invalid_at'', JStr invalid_at)] in
      abind (exec_params L E SET_INVALID_AT params) (\<lambda>_. aignore (exec_params L E SET_REL_INVALID_AT params)))"

definition list_cross_group_pointer_candidates :: "lbug_env \<Rightarrow> 'd lbug_engine \<Rightarrow> ('d cstate, (rstr \<times> rstr \<times> rstr \<times> rstr) list) act" where
  "list_cross_group_pointer_candidates L E =
     decoded (\<lambda>row. if length row > 3
                then Some (value_as_string L (row ! 0), value_as_string L (row ! 1), value_as_string L (row ! 2), value_as_string L (row ! 3))
                else None)
       (query_params L E
          (lit ''MATCH (rn:RelatesToNode_) WHERE rn.attributes CONTAINS '' @ single_quoted ([34] @ lit ''cross_group_pointers'' @ [34])
             @ lit '' AND rn.invalid_at IS NULL RETURN rn.uuid, rn.name, rn.group_id, rn.attributes'')
          (JObj []))"

section \<open>Episodes\<close>

definition insert_episodic :: "lbug_env \<Rightarrow> 'd lbug_engine \<Rightarrow> episodic_row \<Rightarrow> ('d cstate, unit) act" where
  "insert_episodic L E row =
     exec_params L E
       (lit ''CREATE (:Episodic {uuid: $uuid, name: $name, group_id: $group_id, '' @
        lit ''created_at: $created_at, source: $source, source_description: $source_description, '' @
        lit ''content: $content, content_embedding: $content_embedding, valid_at: $valid_at, '' @
        lit ''entity_edges: $entity_edges, attributes: $attributes, ingested_at: $ingested_at})'')
       (JObj [(lit ''uuid'', JStr (ep_uuid row)), (lit ''name'', JStr (ep_name row)), (lit ''group_id'', JStr (ep_group_id row)),
          (lit ''created_at'', JStr (ep_created_at row)), (lit ''source'', JStr (ep_source row)),
          (lit ''source_description'', JStr (ep_source_description row)), (lit ''content'', JStr (ep_content row)),
          (lit ''content_embedding'', JArr (map json_f32 (ep_content_embedding row))), (lit ''valid_at'', JStr (ep_valid_at row)),
          (lit ''entity_edges'', json_strs (ep_entity_edges row)), (lit ''attributes'', JStr (ep_attributes row)),
          (lit ''ingested_at'', JStr (ingested_at_or_now L (ep_ingested_at row)))])"

definition insert_mentions_edge :: "lbug_env \<Rightarrow> 'd lbug_engine \<Rightarrow> rstr \<Rightarrow> rstr \<Rightarrow> rstr \<Rightarrow> ('d cstate, unit) act" where
  "insert_mentions_edge L E episodic_uuid entity_uuid group_id =
     exec_params L E
       (lit ''MATCH (ep:Episodic {uuid: $ep}), (en:Entity {uuid: $en}) CREATE (ep)-[:MENTIONS {group_id: $group_id}]->(en)'')
       (JObj [(lit ''ep'', JStr episodic_uuid), (lit ''en'', JStr entity_uuid), (lit ''group_id'', JStr group_id)])"

definition remove_episode :: "lbug_env \<Rightarrow> 'd lbug_engine \<Rightarrow> rstr \<Rightarrow> ('d cstate, unit) act" where
  "remove_episode L E episode_uuid =
     exec_params L E (lit ''MATCH (ep:Episodic {uuid: $uuid}) DETACH DELETE ep'') (JObj [(lit ''uuid'', JStr episode_uuid)])"

definition get_episode_group_id :: "lbug_env \<Rightarrow> 'd lbug_engine \<Rightarrow> rstr \<Rightarrow> ('d cstate, rstr option) act" where
  "get_episode_group_id L E episode_uuid =
     abind (decoded_first (column 0) (query_params L E (lit ''MATCH (ep:Episodic {uuid: $uuid}) RETURN ep.group_id'')
              (JObj [(lit ''uuid'', JStr episode_uuid)])))
       (\<lambda>r. aret (Option.bind r (value_as_optional_string L)))"

text \<open>The removals run one group after the other in a transaction; \<open>match_sql\<close> and its parameters select the episodes.\<close>

definition DELETE_EPISODES :: rstr where
  "DELETE_EPISODES = lit ''MATCH (ep:Episodic) WHERE ep.uuid IN $uuids DETACH DELETE ep''"

fun remove_in_groups ::
  "lbug_env \<Rightarrow> 'd lbug_engine \<Rightarrow> rstr \<Rightarrow> jmap \<Rightarrow> rstr list \<Rightarrow> rstr list \<times> grouped_mutations \<Rightarrow> ('d cstate, rstr list \<times> grouped_mutations) act" where
  "remove_in_groups L E match_sql key [] acc = aret acc"
| "remove_in_groups L E match_sql key (gid # gids) (all_uuids, grouped) =
     abind (decoded (column 0) (query_params L E match_sql (JObj (key @ [(lit ''gids'', json_strs [gid])])))) (\<lambda>rows.
       let uuids = map (value_as_string L) rows in
       if uuids = [] then remove_in_groups L E match_sql key gids (all_uuids, grouped)
       else abind (exec_params L E DELETE_EPISODES (JObj [(lit ''uuids'', json_strs uuids)])) (\<lambda>_.
            abind (conn_drain_into gid grouped) (\<lambda>grouped'.
            remove_in_groups L E match_sql key gids (all_uuids @ uuids, grouped'))))"

definition remove_episodes ::
  "lbug_env \<Rightarrow> 'd lbug_engine \<Rightarrow> rstr \<Rightarrow> rstr \<Rightarrow> jmap \<Rightarrow> rstr list \<Rightarrow> ('d cstate, rstr list \<times> grouped_mutations) act" where
  "remove_episodes L E fn_name match_sql key group_ids =
     (if group_ids = [] then afail (Ipc (fn_name @ lit '' requires a non-empty group_ids''))
      else abind (exec_transaction_control E (lit ''BEGIN TRANSACTION'')) (\<lambda>_.
           abind (atry (remove_in_groups L E match_sql key group_ids ([], Map.empty))
                    (\<lambda>e. abind (aignore (exec_transaction_control E (lit ''ROLLBACK''))) (\<lambda>_. afail e))) (\<lambda>res.
           abind (exec_transaction_control E (lit ''COMMIT'')) (\<lambda>_. aret res))))"

definition remove_episodes_by_source ::
  "lbug_env \<Rightarrow> 'd lbug_engine \<Rightarrow> rstr \<Rightarrow> rstr list \<Rightarrow> ('d cstate, rstr list \<times> grouped_mutations) act" where
  "remove_episodes_by_source L E source_file group_ids =
     remove_episodes L E (lit ''remove_episodes_by_source'')
       (lit ''MATCH (ep:Episodic) WHERE (ep.source_description = $src '' @
        lit ''OR ep.source_description STARTS WITH $prefix) AND ep.group_id IN $gids '' @ lit ''RETURN ep.uuid'')
       [(lit ''src'', JStr source_file), (lit ''prefix'', JStr (source_file @ lit '':''))] group_ids"

definition remove_episodes_by_chunk_id ::
  "lbug_env \<Rightarrow> 'd lbug_engine \<Rightarrow> rstr \<Rightarrow> rstr list \<Rightarrow> ('d cstate, rstr list \<times> grouped_mutations) act" where
  "remove_episodes_by_chunk_id L E chunk_id group_ids =
     remove_episodes L E (lit ''remove_episodes_by_chunk_id'')
       (lit ''MATCH (ep:Episodic) WHERE ep.name = $name AND ep.group_id IN $gids RETURN ep.uuid'')
       [(lit ''name'', JStr chunk_id)] group_ids"

section \<open>Results of queries\<close>

lemma bind_result:
  assumes "abind m f s = Some (s', Inr y)"
  obtains t x where "m s = Some (t, Inr x)" "f x t = Some (s', Inr y)"
  using assms by (auto simp: abind_def split: option.splits sum.splits)

lemma query_result:
  assumes "query_params L E q p s = Some (s', Inr rows)"
  shows "snd (en_execute E q (json_params_to_values L p) (cs_db s)) = Inr rows"
  using assms unfolding query_params_def
  by (auto simp: prepare_def aread_def on_db_def of_lbug_def map_sum_def split: prod.splits sum.splits elim!: bind_result)

lemma decoded_result:
  assumes "decoded f q s = Some (s', Inr xs)"
  shows "\<exists>rows. q s = Some (s', Inr rows) \<and> map f rows = map Some xs"
  using assms unfolding decoded_def
  by (auto simp: collect_opt_Some_iff split: option.splits elim!: bind_result)

lemma decoded_first_result:
  assumes "decoded_first f q s = Some (s', Inr x)"
  shows "\<exists>rows. q s = Some (s', Inr rows) \<and> (case rows of [] \<Rightarrow> x = None | r # _ \<Rightarrow> f r = x \<and> x \<noteq> None)"
proof -
  from assms [unfolded decoded_first_def] obtain t xs where
    d: "decoded f (abind q (\<lambda>rows. aret (take 1 rows))) s = Some (t, Inr xs)"
    and x: "aret (case xs of [] \<Rightarrow> None | x # _ \<Rightarrow> Some x) t = Some (s', Inr x)"
    by (rule bind_result)
  from decoded_result [OF d] obtain ys where
    ys: "abind q (\<lambda>rows. aret (take 1 rows)) s = Some (t, Inr ys)" "map f ys = map Some xs" by blast
  from ys(1) obtain rows where "q s = Some (t, Inr rows)" "ys = take 1 rows"
    by (auto simp: aret_def elim!: bind_result)
  with ys(2) x show ?thesis
    by (intro exI [of _ rows]) (cases rows; cases xs; auto simp: aret_def intro!: exI [of _ "hd xs"])
qed

section \<open>What is written of an entity\<close>

lemma labels_with_kind_spec:
  "hd (labels_with_kind labels kind) = ENTITY_LABEL" "kind \<in> set (labels_with_kind labels kind)"
  "labels_with_kind labels kind \<noteq> []" "set labels \<subseteq> set (labels_with_kind labels kind)"
  "set (labels_with_kind labels kind) \<subseteq> insert ENTITY_LABEL (insert kind (set labels))"
  by (auto simp: labels_with_kind_def enforce_entity_first_def Let_def hd_append)

lemma labels_with_kind_idem: "labels_with_kind (labels_with_kind labels kind) kind = labels_with_kind labels kind"
  using labels_with_kind_spec [where labels = labels and kind = kind]
  by (simp add: labels_with_kind_def [of "labels_with_kind labels kind"] enforce_entity_first_def)

text \<open>The parameters of a write: labels that start with \<^verbatim>\<open>Entity\<close> and contain the kind, and the key of group, kind and name.\<close>

definition entity_params_ok :: "ucd \<Rightarrow> json \<Rightarrow> bool" where
  "entity_params_ok U p \<longleftrightarrow> (\<exists>m g k n ls. p = JObj m \<and> jget m (lit ''group_id'') = Some (JStr g) \<and> jget m (lit ''kind'') = Some (JStr k)
     \<and> jget m (lit ''name'') = Some (JStr n) \<and> jget m (lit ''labels'') = Some (json_strs ls)
     \<and> jget m (lit ''lookup_key'') = Some (JStr (compute_lookup_key U g k n))
     \<and> trim k \<noteq> [] \<and> ls \<noteq> [] \<and> hd ls = ENTITY_LABEL \<and> k \<in> set ls)"

lemma trim_default_kind: "trim DEFAULT_KIND \<noteq> []"
  by (simp add: DEFAULT_KIND_def text_eval)

lemma trim_twice: "trim (trim t) = trim t"
proof (cases "trim t = []")
  case False
  then have "hd (trim t) = hd (trim_start t)"
    using trim_end_prefix [of "trim_start t"] by (metis append_is_Nil_conv hd_append prefix_def trim_def)
  with False show ?thesis
    by (intro trim_id) (metis trim_def trim_end_last trim_start_hd trim_end_prefix prefix_Nil)
qed (simp add: trim_id)

lemma normalize_kind_trim: "normalize_kind k = Inr k' \<Longrightarrow> trim k' \<noteq> []"
  by (cases k) (auto simp: normalize_kind_def Let_def trim_twice trim_default_kind split: if_splits)

lemma insert_params_ok: "trim kind \<noteq> [] \<Longrightarrow> entity_params_ok U (insert_entity_params U L row kind)"
  using labels_with_kind_spec [where labels = "er_labels row" and kind = kind]
  by (auto simp: entity_params_ok_def insert_entity_params_def Let_def jget_def)

lemma update_params_ok: "entity_params_ok U (update_entity_params U existing new_name labels summary attributes)"
proof -
  have "trim (normalize_row_kind (er_kind existing)) \<noteq> []"
    by (simp add: normalize_row_kind_def trim_twice trim_default_kind)
  then show ?thesis
    using labels_with_kind_spec [where labels = labels and kind = "normalize_row_kind (er_kind existing)"]
    by (auto simp: entity_params_ok_def update_entity_params_def Let_def jget_def)
qed

text \<open>Replay derives the key of a recorded write again; it is the one that was written.\<close>

lemma jinsert_same: "jget m k = Some v \<Longrightarrow> jinsert k v m = m"
  unfolding jget_def jinsert_def by (induction m) (auto split: if_splits)

lemma inject_same:
  assumes "entity_params_ok U (JObj m)"
  shows "inject_derived_lookup_key U q m = m"
proof -
  from assms obtain g k n where p: "jget m (lit ''group_id'') = Some (JStr g)" "jget m (lit ''kind'') = Some (JStr k)"
    "jget m (lit ''name'') = Some (JStr n)" "jget m (lit ''lookup_key'') = Some (JStr (compute_lookup_key U g k n))" "trim k \<noteq> []"
    by (auto simp: entity_params_ok_def simp del: lit_Cons)
  then have "jinsert (lit ''lookup_key'') (JStr (compute_lookup_key U g k n)) m = m"
    by (simp add: jinsert_same del: lit_Cons)
  with p show ?thesis
    by (simp add: inject_derived_lookup_key_def param_text_def as_str_def Let_def del: lit_Cons)
qed

text \<open>What a computation adds to the recorded mutations.\<close>

definition recorded :: "'d cstate \<Rightarrow> 'd cstate \<Rightarrow> mutation list" where
  "recorded s s' = drop (length (cs_executed_mutations s)) (cs_executed_mutations s')"

lemma exec_params_adds:
  "exec_params L E q p s = Some (s', r) \<Longrightarrow> recorded s s' = (case r of Inr _ \<Rightarrow> [(q, p)] | Inl _ \<Rightarrow> [])"
  using exec_params_recorded [of L E q p s s' r] by (simp add: recorded_def split: sum.splits)

lemma insert_entity_result:
  assumes "insert_entity U L E row s = Some (s', r)"
  shows "(case normalize_kind (if trim (er_kind row) = [] then None else Some (er_kind row)) of
      Inl e \<Rightarrow> r = Inl e \<and> s' = s
    | Inr k \<Rightarrow> recorded s s' = (case r of Inr _ \<Rightarrow> [(CREATE_ENTITY, insert_entity_params U L row k)] | Inl _ \<Rightarrow> []))"
proof (cases "normalize_kind (if trim (er_kind row) = [] then None else Some (er_kind row))")
  case (Inl e)
  with assms show ?thesis by (simp add: insert_entity_def abind_def aread_def)
next
  case (Inr k)
  from returns_exec_params [of L E CREATE_ENTITY "insert_entity_params U L row k"] obtain t x
    where x: "exec_params L E CREATE_ENTITY (insert_entity_params U L row k) s = Some (t, x)"
    unfolding returns_def by (metis option.exhaust prod.exhaust)
  from exec_params_adds [OF x] assms x Inr show ?thesis
    by (cases x) (auto simp: insert_entity_def abind_def aread_def register_kind_def amodify_def recorded_def)
qed

text \<open>C35: Every statement that inserting or updating an entity records binds well-formed columns: the labels start with
  \<^verbatim>\<open>Entity\<close> and contain the kind, the kind is not blank, and the key is the one of group, kind and name that replay would
  derive.  An entity with a kind that is not allowed is refused before anything is executed.\<close>

theorem entity_writes_typed:
  assumes "insert_entity U L E row s = Some (s', r) \<or> update_entity_core U L E row new_name labels summary attributes s = Some (s', r)"
  shows "(\<forall>(q, p) \<in> set (recorded s s'). entity_params_ok U p \<and> (\<exists>m. p = JObj m \<and> inject_derived_lookup_key U q m = m))
     \<and> length (recorded s s') = (if isl r then 0 else 1)"
  using assms
proof
  assume i: "insert_entity U L E row s = Some (s', r)"
  show ?thesis
  proof (cases "normalize_kind (if trim (er_kind row) = [] then None else Some (er_kind row))")
    case (Inl e)
    with insert_entity_result [OF i] show ?thesis by (simp add: recorded_def)
  next
    case (Inr k)
    then have "entity_params_ok U (insert_entity_params U L row k)" by (intro insert_params_ok normalize_kind_trim)
    moreover from this obtain m where "insert_entity_params U L row k = JObj m" by (auto simp: entity_params_ok_def)
    ultimately show ?thesis using insert_entity_result [OF i] Inr inject_same [of U m] by (cases r) auto
  qed
next
  assume u: "update_entity_core U L E row new_name labels summary attributes s = Some (s', r)"
  note ok = update_params_ok [of U row new_name labels summary attributes]
  then obtain m where "update_entity_params U row new_name labels summary attributes = JObj m" by (auto simp: entity_params_ok_def)
  with ok exec_params_adds [OF u [unfolded update_entity_core_def]] inject_same [of U m] show ?thesis by (cases r) auto
qed

theorem entity_writes_typed_witness:
  "\<exists>s' r. update_entity_core ascii_ucd toy_lbug toy_counter default_entity_row (lit ''B'') [lit ''X''] [] [] (toy_cstate False) = Some (s', r)
     \<and> length (recorded (toy_cstate False) s') = (if isl r then 0 else 1)
     \<and> (\<forall>(q, p) \<in> set (recorded (toy_cstate False) s'). entity_params_ok ascii_ucd p)"
proof -
  from returns_exec_params [of toy_lbug toy_counter UPDATE_ENTITY "update_entity_params ascii_ucd default_entity_row (lit ''B'') [lit ''X''] [] []"]
  obtain s' r where "update_entity_core ascii_ucd toy_lbug toy_counter default_entity_row (lit ''B'') [lit ''X''] [] [] (toy_cstate False) = Some (s', r)"
    unfolding returns_def update_entity_core_def by (metis option.exhaust prod.exhaust)
  with entity_writes_typed [of ascii_ucd toy_lbug toy_counter default_entity_row "toy_cstate False" s' r "lit ''B''" "[lit ''X'']" "[]" "[]"]
  show ?thesis by (auto simp del: lit_Cons)
qed

section \<open>Removing episodes\<close>

text \<open>The engine answered the selection for group \<open>g\<close> with these episodes.\<close>

definition selected :: "lbug_env \<Rightarrow> 'd lbug_engine \<Rightarrow> rstr \<Rightarrow> jmap \<Rightarrow> rstr \<Rightarrow> rstr list \<Rightarrow> bool" where
  "selected L E match_sql key g us \<longleftrightarrow> (\<exists>d rows vs.
     snd (en_execute E match_sql (json_params_to_values L (JObj (key @ [(lit ''gids'', json_strs [g])]))) d) = Inr rows
     \<and> map (column 0) rows = map Some vs \<and> us = map (value_as_string L) vs)"

definition delete_statement :: "rstr list \<Rightarrow> mutation" where
  "delete_statement us = (DELETE_EPISODES, JObj [(lit ''uuids'', json_strs us)])"

definition removed :: "(rstr \<Rightarrow> rstr list) \<Rightarrow> rstr list \<Rightarrow> grouped_mutations" where
  "removed f gids g = (if g \<in> set gids \<and> f g \<noteq> [] then Some [delete_statement (f g)] else None)"

lemma bind_run:
  assumes "abind m f s = Some (s', r)"
  obtains (err) e where "m s = Some (s', Inl e)" "r = Inl e" | (val) t x where "m s = Some (t, Inr x)" "f x t = Some (s', r)"
  using assms by (auto simp: abind_def split: option.splits sum.splits)

text \<open>The outcome of the removal from groups \<open>gids\<close>, given what was collected before.\<close>

definition removal_done ::
  "lbug_env \<Rightarrow> 'd lbug_engine \<Rightarrow> rstr \<Rightarrow> jmap \<Rightarrow> rstr list \<Rightarrow> rstr list \<times> grouped_mutations \<Rightarrow> (rstr list \<times> grouped_mutations) result \<Rightarrow> bool" where
  "removal_done L E q key gids acc r \<longleftrightarrow> (\<forall>us G. r = Inr (us, G) \<longrightarrow>
     (\<exists>f. us = fst acc @ concat (map f gids) \<and> G = snd acc ++ removed f gids \<and> (\<forall>g \<in> set gids. selected L E q key g (f g))))"

lemma removed_Cons: "g \<notin> set gids \<Longrightarrow> G0 ++ removed (\<lambda>_. us) [g] ++ removed f gids = G0 ++ removed (f(g := us)) (g # gids)"
  by (auto simp: removed_def map_add_def fun_eq_iff split: option.splits)

lemma removal_step:
  assumes "removal_done L E q key gids (us0 @ us, G0 ++ removed (\<lambda>_. us) [g]) r" "selected L E q key g us" "g \<notin> set gids"
  shows "removal_done L E q key (g # gids) (us0, G0) r"
  unfolding removal_done_def
proof (intro allI impI)
  fix vs G assume "r = Inr (vs, G)"
  with assms(1) obtain f where f: "vs = (us0 @ us) @ concat (map f gids)" "G = G0 ++ removed (\<lambda>_. us) [g] ++ removed f gids"
    "\<forall>g \<in> set gids. selected L E q key g (f g)" by (auto simp: removal_done_def)
  have "map (f(g := us)) gids = map f gids" using assms(3) by auto
  with f assms(2,3) show "\<exists>f. vs = fst (us0, G0) @ concat (map f (g # gids)) \<and> G = snd (us0, G0) ++ removed f (g # gids)
      \<and> (\<forall>g \<in> set (g # gids). selected L E q key g (f g))"
    by (intro exI [of _ "f(g := us)"]) (auto simp: removed_Cons)
qed

lemma removed_none: "removed (\<lambda>_. []) [g] = Map.empty"
  by (simp add: removed_def fun_eq_iff)

lemma delete_and_drain:
  assumes r: "abind (exec_params L E DELETE_EPISODES (JObj [(lit ''uuids'', json_strs us)])) (\<lambda>_. abind (conn_drain_into g G0) k) t = Some (s', r)"
    and t: "cs_executed_mutations t = []" and us: "us \<noteq> []" and g: "G0 g = None"
  obtains (err) e where "r = Inl e" "cs_executed_mutations s' = []" "cs_in_txn s' = cs_in_txn t"
    | (val) u where "k (G0 ++ removed (\<lambda>_. us) [g]) u = Some (s', r)" "cs_executed_mutations u = []" "cs_in_txn u = cs_in_txn t"
  using r
proof (cases rule: bind_run)
  case (err e)
  with exec_params_recorded [OF err(1)] t that(1) show ?thesis by simp
next
  case (val u x)
  have "grouped_add g [delete_statement us] G0 = G0 ++ removed (\<lambda>_. us) [g]"
    using us g by (auto simp: grouped_add_def removed_def map_add_def fun_eq_iff)
  with val exec_params_recorded [OF val(1)] t show ?thesis
    by (intro that(2) [of "u\<lparr>cs_executed_mutations := []\<rparr>"])
       (simp_all add: conn_drain_into_def drain_mutations_def abind_def aret_def delete_statement_def)
qed

lemma remove_in_groups_result:
  assumes "remove_in_groups L E q key gids acc s = Some (s', r)" "cs_executed_mutations s = []" "distinct gids"
    "\<forall>g \<in> set gids. snd acc g = None"
  shows "cs_executed_mutations s' = [] \<and> cs_in_txn s' = cs_in_txn s \<and> removal_done L E q key gids acc r"
  using assms
proof (induction gids arbitrary: acc s)
  case Nil
  then show ?case by (auto simp: aret_def removal_done_def removed_def map_add_def)
next
  case (Cons g gids)
  obtain us0 G0 where acc: "acc = (us0, G0)" by (cases acc)
  let ?q = "query_params L E q (JObj (key @ [(lit ''gids'', json_strs [g])]))"
  have same: "same_log s t" if "decoded (column 0) ?q s = Some (t, x)" for t x
    using that by (rule framesD [OF quiet.decode [OF quiet_query_params]])
  note run = Cons.prems(1) [unfolded acc remove_in_groups.simps]
  show ?case using run
  proof (cases rule: bind_run)
    case (err e)
    with same [OF err(1)] Cons.prems(2) show ?thesis by (simp add: same_log_def removal_done_def)
  next
    case (val t vs)
    from same [OF val(1)] Cons.prems(2) have t: "cs_executed_mutations t = []" "cs_in_txn t = cs_in_txn s" by (simp_all add: same_log_def)
    define us where "us = map (value_as_string L) vs"
    from decoded_result [OF val(1)] obtain rows where rows: "?q s = Some (t, Inr rows)" "map (column 0) rows = map Some vs" by blast
    then have sel: "selected L E q key g us" unfolding selected_def us_def using query_result [OF rows(1)] by blast
    have step: "cs_executed_mutations s' = [] \<and> cs_in_txn s' = cs_in_txn s \<and> removal_done L E q key (g # gids) acc r"
      if u: "remove_in_groups L E q key gids (us0 @ us, G0 ++ removed (\<lambda>_. us) [g]) u = Some (s', r)"
        "cs_executed_mutations u = []" "cs_in_txn u = cs_in_txn t" for u
      using Cons.IH [OF u(1,2)] Cons.prems(3,4) removal_step [OF _ sel] t u(3)
      by (auto simp: acc removed_def map_add_def)
    show ?thesis
    proof (cases "us = []")
      case True
      with val(2) step [of t] t show ?thesis by (simp add: Let_def removed_none flip: us_def)
    next
      case False
      with val(2) have "abind (exec_params L E DELETE_EPISODES (JObj [(lit ''uuids'', json_strs us)])) (\<lambda>_.
          abind (conn_drain_into g G0) (\<lambda>G. remove_in_groups L E q key gids (us0 @ us, G))) t = Some (s', r)"
        by (simp add: Let_def del: lit_Cons flip: us_def)
      then show ?thesis using t(1) False
      proof (rule delete_and_drain)
        show "G0 g = None" using Cons.prems(4) by (simp add: acc)
      qed (use t step in \<open>auto simp: removal_done_def\<close>)
    qed
  qed
qed

lemma txn_control:
  assumes "exec_transaction_control E sql s = Some (s', r)"
  shows "cs_executed_mutations s' = cs_executed_mutations s"
    "sql = lit ''BEGIN TRANSACTION'' \<Longrightarrow> cs_in_txn s' = (cs_in_txn s \<or> \<not> isl r)"
    "sql \<in> {lit ''COMMIT'', lit ''ROLLBACK''} \<Longrightarrow> \<not> cs_in_txn s'"
proof -
  have u: "map ascii_upper (trim_start (lit ''BEGIN TRANSACTION'')) = lit ''BEGIN TRANSACTION''"
    "map ascii_upper (trim_start (lit ''COMMIT'')) = lit ''COMMIT''" "map ascii_upper (trim_start (lit ''ROLLBACK'')) = lit ''ROLLBACK''"
    "starts_with (lit ''BEGIN'') (lit ''BEGIN TRANSACTION'')" "\<not> starts_with (lit ''BEGIN'') (lit ''COMMIT'')"
    "\<not> starts_with (lit ''BEGIN'') (lit ''ROLLBACK'')" "starts_with (lit ''COMMIT'') (lit ''COMMIT'')" "starts_with (lit ''ROLLBACK'') (lit ''ROLLBACK'')"
    "\<not> starts_with (lit ''COMMIT'') (lit ''BEGIN TRANSACTION'')" "\<not> starts_with (lit ''ROLLBACK'') (lit ''BEGIN TRANSACTION'')"
    by (simp_all add: text_eval)
  obtain d x where x: "en_query E sql (cs_db s) = (d, x)" by fastforce
  from assms x show "cs_executed_mutations s' = cs_executed_mutations s"
    by (auto simp: exec_transaction_control_def abind_def aret_def Let_def split: sum.splits)
  show "cs_in_txn s' = (cs_in_txn s \<or> \<not> isl r)" if "sql = lit ''BEGIN TRANSACTION''"
    using assms x u that by (cases x) (auto simp: exec_transaction_control_def abind_def aret_def Let_def of_lbug_def simp del: lit_Cons)
  show "\<not> cs_in_txn s'" if "sql \<in> {lit ''COMMIT'', lit ''ROLLBACK''}"
    using assms x u that by (cases x) (auto simp: exec_transaction_control_def abind_def aret_def Let_def of_lbug_def simp del: lit_Cons)
qed

lemma rollback_result:
  assumes "abind (aignore (exec_transaction_control E (lit ''ROLLBACK''))) (\<lambda>_. afail e) t = Some (s', r)"
  shows "cs_executed_mutations s' = cs_executed_mutations t \<and> \<not> cs_in_txn s' \<and> r = Inl e"
proof -
  obtain u x where x: "exec_transaction_control E (lit ''ROLLBACK'') t = Some (u, x)"
    using assms by (auto simp: abind_def aignore_def atry_def split: option.splits)
  with assms have "s' = u" "r = Inl e" by (auto simp: abind_def aignore_def atry_def aret_def afail_def split: sum.splits)
  with txn_control [OF x] show ?thesis by simp
qed

lemma remove_episodes_result:
  fixes E :: "'d lbug_engine"
  assumes r: "remove_episodes L E fn q key gids s = Some (s', r)" and m: "cs_executed_mutations s = []" and d: "distinct gids"
  shows "cs_executed_mutations s' = [] \<and> (cs_in_txn s' \<longrightarrow> cs_in_txn s) \<and> (\<not> isl r \<longrightarrow> \<not> cs_in_txn s')
     \<and> removal_done L E q key gids ([], Map.empty) r"
proof (cases "gids = []")
  case True
  with r m show ?thesis by (auto simp: remove_episodes_def afail_def removal_done_def)
next
  case False
  let ?body = "remove_in_groups L E q key gids ([], Map.empty)"
  let ?undo = "(\<lambda>e. abind (aignore (exec_transaction_control E (lit ''ROLLBACK''))) (\<lambda>_. afail e)) :: error \<Rightarrow> ('d cstate, rstr list \<times> grouped_mutations) act"
  from r False have "abind (exec_transaction_control E (lit ''BEGIN TRANSACTION'')) (\<lambda>_. abind (atry ?body ?undo)
      (\<lambda>res. abind (exec_transaction_control E (lit ''COMMIT'')) (\<lambda>_. aret res))) s = Some (s', r)"
    by (simp add: remove_episodes_def del: lit_Cons)
  then show ?thesis
  proof (cases rule: bind_run)
    case (err e)
    with txn_control [OF err(1)] m show ?thesis by (simp add: removal_done_def)
  next
    case (val t x)
    from txn_control(1) [OF val(1)] m have t: "cs_executed_mutations t = []" by simp
    from val(2) obtain u y where y: "?body t = Some (u, y)" by (auto simp: abind_def atry_def split: option.splits)
    note gone = remove_in_groups_result [OF y t d]
    show ?thesis
    proof (cases y)
      case (Inl e)
      with val(2) y have "?undo e u \<noteq> None" by (auto simp: abind_def [of "atry _ _"] atry_def split: option.splits)
      then obtain v z where v: "?undo e u = Some (v, z)" by fast
      note roll = rollback_result [OF this]
      with val(2) y v Inl have "v = s'" "r = Inl e" by (simp_all add: abind_def [of "atry _ _"] atry_def del: lit_Cons)
      with roll gone show ?thesis by (simp add: removal_done_def)
    next
      case (Inr res)
      with val(2) y have "abind (exec_transaction_control E (lit ''COMMIT'')) (\<lambda>_. aret res) u = Some (s', r)"
        by (simp add: abind_def [of "atry _ _"] atry_def del: lit_Cons)
      then obtain z where z: "exec_transaction_control E (lit ''COMMIT'') u = Some (s', z)" "r = map_sum id (\<lambda>_. res) z"
        by (cases rule: bind_run) (auto simp: aret_def simp del: lit_Cons)
      from txn_control(1,3) [OF z(1)] gone Inr z(2) show ?thesis
        by (cases z) (simp_all add: removal_done_def del: lit_Cons)
    qed
  qed
qed


definition toy_episodes_engine :: "unit lbug_engine" where
  "toy_episodes_engine = \<lparr>en_query = (\<lambda>q d. (d, Inr [])), en_prepare = (\<lambda>d q. Inr ()),
     en_execute = (\<lambda>q b d. (d, Inr (if q = DELETE_EPISODES then [] else [[VString (lit ''e1'')]])))\<rparr>"

definition toy_episodes_state :: "unit cstate" where
  "toy_episodes_state = \<lparr>cs_db = (), cs_executed_mutations = [], cs_in_txn = False, cs_fts_repairs = (0, 0),
     cs_known_kinds = {}, cs_fallback_scans = 0\<rparr>"


end
