(* ===== verification/NameLookup.thy ===== *)
theory NameLookup
  imports GraphDb
begin

text \<open>
  Resolving a name to entities (\<^verbatim>\<open>db.rs\<close>): the indexed lookup by the derived key, the check of its answer, the
  scan of the group when the index has no answer that fits, and the repair of keys that a scan found
  wrong.  The key column may be stale: \<open>table_ok\<close> does not say which rows the lookup by key returns, only
  that they are rows of the table.  The theorems: the answer of the authoritative lookup is an entity
  with that name, group and kind, and there is none exactly when it answers none; a lookup over a
  list of kinds finds one entity for each kind that has one.
\<close>

section \<open>The lookups\<close>

definition lower_trim :: "ucd \<Rightarrow> rstr \<Rightarrow> rstr" where
  "lower_trim U s = ucd_lower_str U (trim s)"

definition ENTITY_BY_KEY :: rstr where
  "ENTITY_BY_KEY = lit ''MATCH (e:Entity) WHERE e.lookup_key = $key '' @ FULL_ENTITY_COLUMNS @
     lit '' ORDER BY e.created_at ASC, e.uuid ASC LIMIT 1''"

definition get_entity_by_name_ci :: "ucd \<Rightarrow> lbug_env \<Rightarrow> 'd lbug_engine \<Rightarrow> rstr \<Rightarrow> rstr \<Rightarrow> rstr \<Rightarrow> ('d cstate, entity_row option) act" where
  "get_entity_by_name_ci U L E name group_id kind =
     decoded_first (full_entity_of_row L) (query_params L E ENTITY_BY_KEY (JObj [(lit ''key'', JStr (compute_lookup_key U group_id kind name))]))"

definition hit_fits :: "ucd \<Rightarrow> rstr \<Rightarrow> rstr \<Rightarrow> rstr \<Rightarrow> entity_row \<Rightarrow> bool" where
  "hit_fits U name group_id kind row \<longleftrightarrow>
     er_group_id row = group_id \<and> er_kind row = kind \<and> lower_trim U (er_name row) = lower_trim U name"

definition record_lookup_key_fallback_scan :: "('d cstate, unit) act" where
  "record_lookup_key_fallback_scan = amodify (\<lambda>s. s\<lparr>cs_fallback_scans := wrap_add u64_max (cs_fallback_scans s) 1\<rparr>)"

definition SELF_HEAL :: rstr where
  "SELF_HEAL = lit ''MATCH (e:Entity {uuid: $uuid, name: $expected_name, group_id: $expected_group_id}) '' @
     lit ''SET e.kind = $kind, e.lookup_key = $key''"

definition self_heal_params :: "ucd \<Rightarrow> entity_row \<Rightarrow> json" where
  "self_heal_params U row =
     JObj [(lit ''uuid'', JStr (er_uuid row)), (lit ''expected_name'', JStr (er_name row)), (lit ''expected_group_id'', JStr (er_group_id row)),
       (lit ''kind'', JStr (er_kind row)), (lit ''key'', JStr (compute_lookup_key U (er_group_id row) (er_kind row) (er_name row)))]"

definition self_heal_lookup_key :: "ucd \<Rightarrow> lbug_env \<Rightarrow> 'd lbug_engine \<Rightarrow> entity_row \<Rightarrow> ('d cstate, unit) act" where
  "self_heal_lookup_key U L E row = aignore (exec_params L E SELF_HEAL (self_heal_params U row))"

definition SCAN_GROUP :: rstr where
  "SCAN_GROUP = lit ''MATCH (e:Entity) WHERE e.group_id = $gid '' @
     lit ''RETURN e.uuid, e.name, e.group_id, e.created_at, e.kind '' @
     lit ''ORDER BY e.created_at ASC, e.uuid ASC''"

definition scan_columns :: "lbug_env \<Rightarrow> lval list \<Rightarrow> (rstr \<times> rstr \<times> rstr) option" where
  "scan_columns L row =
     (if length row > 4 then Some (value_as_string L (row ! 0), value_as_string L (row ! 1), value_as_kind L (row ! 4)) else None)"

fun hydrate :: "lbug_env \<Rightarrow> 'd lbug_engine \<Rightarrow> bool \<Rightarrow> rstr list \<Rightarrow> ('d cstate, entity_row list) act" where
  "hydrate L E first_only [] = aret []"
| "hydrate L E first_only (uuid # uuids) =
     abind (get_entity_by_uuid L E uuid) (\<lambda>e.
       case e of
         None \<Rightarrow> hydrate L E first_only uuids
       | Some entity \<Rightarrow> if first_only then aret [entity]
                         else abind (hydrate L E first_only uuids) (\<lambda>es. aret (entity # es)))"

definition scan_entities_by_name_ci ::
  "ucd \<Rightarrow> lbug_env \<Rightarrow> 'd lbug_engine \<Rightarrow> rstr \<Rightarrow> rstr \<Rightarrow> rstr option \<Rightarrow> ('d cstate, entity_row list) act" where
  "scan_entities_by_name_ci U L E name group_id kind =
     abind (decoded (scan_columns L) (query_params L E SCAN_GROUP (JObj [(lit ''gid'', JStr group_id)]))) (\<lambda>rows.
     hydrate L E (kind \<noteq> None)
       (map fst (filter (\<lambda>(u, n, k). lower_trim U n = lower_trim U name \<and> (case kind of None \<Rightarrow> True | Some k' \<Rightarrow> k = k')) rows)))"

definition fall_back :: "ucd \<Rightarrow> lbug_env \<Rightarrow> 'd lbug_engine \<Rightarrow> rstr \<Rightarrow> rstr \<Rightarrow> rstr \<Rightarrow> ('d cstate, entity_row option) act" where
  "fall_back U L E name group_id kind =
     abind record_lookup_key_fallback_scan (\<lambda>_.
     abind (scan_entities_by_name_ci U L E name group_id (Some kind)) (\<lambda>rows.
       case rows of
         [] \<Rightarrow> aret None
       | row # _ \<Rightarrow> abind (self_heal_lookup_key U L E row) (\<lambda>_. aret (Some row))))"

definition get_entity_by_name_ci_with_scan_fallback ::
  "ucd \<Rightarrow> lbug_env \<Rightarrow> 'd lbug_engine \<Rightarrow> rstr \<Rightarrow> rstr \<Rightarrow> rstr \<Rightarrow> ('d cstate, entity_row option) act" where
  "get_entity_by_name_ci_with_scan_fallback U L E name group_id kind =
     abind (get_entity_by_name_ci U L E name group_id kind) (\<lambda>hit.
       case hit of
         Some row \<Rightarrow> if hit_fits U name group_id kind row then aret (Some row) else fall_back U L E name group_id kind
       | None \<Rightarrow> fall_back U L E name group_id kind)"

definition known_kinds :: "'d cstate \<Rightarrow> rstr list" where
  "known_kinds s = sorted_list_of_set (cs_known_kinds s)"

definition by_age :: "entity_row list \<Rightarrow> entity_row list" where
  "by_age rows = sort_key (\<lambda>r. (er_created_at r, er_uuid r)) rows"

text \<open>The indexed probe of each kind, keeping the answers that fit.\<close>

fun probe_kinds :: "ucd \<Rightarrow> lbug_env \<Rightarrow> 'd lbug_engine \<Rightarrow> rstr \<Rightarrow> rstr \<Rightarrow> rstr list \<Rightarrow> ('d cstate, entity_row list) act" where
  "probe_kinds U L E name group_id [] = aret []"
| "probe_kinds U L E name group_id (kind # kinds) =
     abind (get_entity_by_name_ci U L E name group_id kind) (\<lambda>hit.
     abind (probe_kinds U L E name group_id kinds) (\<lambda>rest.
     aret ((case hit of Some row \<Rightarrow> if hit_fits U name group_id kind row then [row] else [] | None \<Rightarrow> []) @ rest)))"

text \<open>The rows of a scan: each is repaired, and the first of each kind that is not yet answered is kept.\<close>

fun scan_winners :: "ucd \<Rightarrow> lbug_env \<Rightarrow> 'd lbug_engine \<Rightarrow> (rstr \<Rightarrow> ('d cstate, unit) act) \<Rightarrow> rstr set \<Rightarrow> entity_row list \<Rightarrow> ('d cstate, entity_row list) act" where
  "scan_winners U L E noted seen [] = aret []"
| "scan_winners U L E noted seen (row # rows) =
     abind (self_heal_lookup_key U L E row) (\<lambda>_.
     abind (noted (er_kind row)) (\<lambda>_.
     abind (scan_winners U L E noted (insert (er_kind row) seen) rows) (\<lambda>rest.
     aret (if er_kind row \<in> seen then rest else row # rest))))"

definition scan_kinds ::
  "ucd \<Rightarrow> lbug_env \<Rightarrow> 'd lbug_engine \<Rightarrow> (rstr \<Rightarrow> ('d cstate, unit) act) \<Rightarrow> rstr \<Rightarrow> rstr \<Rightarrow> rstr set \<Rightarrow> (rstr \<Rightarrow> bool) \<Rightarrow> ('d cstate, entity_row list) act" where
  "scan_kinds U L E noted name group_id seen wanted =
     abind record_lookup_key_fallback_scan (\<lambda>_.
     abind (scan_entities_by_name_ci U L E name group_id None) (\<lambda>rows.
     scan_winners U L E noted seen (filter (\<lambda>r. wanted (er_kind r)) rows)))"

definition resolve_entities_by_name_any_kind ::
  "ucd \<Rightarrow> lbug_env \<Rightarrow> 'd lbug_engine \<Rightarrow> rstr \<Rightarrow> rstr \<Rightarrow> ('d cstate, entity_row list) act" where
  "resolve_entities_by_name_any_kind U L E name group_id =
     abind (aread (\<lambda>s. Inr (known_kinds s))) (\<lambda>kinds.
     abind (probe_kinds U L E name group_id kinds) (\<lambda>out.
     if out \<noteq> [] then aret (by_age out)
     else abind (scan_kinds U L E register_kind name group_id {} (\<lambda>_. True)) (\<lambda>out'. aret (by_age out'))))"

definition resolve_entities_by_name_in_kinds ::
  "ucd \<Rightarrow> lbug_env \<Rightarrow> 'd lbug_engine \<Rightarrow> rstr \<Rightarrow> rstr \<Rightarrow> rstr list \<Rightarrow> ('d cstate, entity_row list) act" where
  "resolve_entities_by_name_in_kinds U L E name group_id kinds =
     abind (probe_kinds U L E name group_id kinds) (\<lambda>out.
     let seen_kinds = set (map er_kind out) in
     if card seen_kinds < card (set kinds)
     then abind (scan_kinds U L E (\<lambda>_. aret ()) name group_id seen_kinds (\<lambda>k. k \<in> set kinds)) (\<lambda>out'. aret (by_age (out @ out')))
     else aret (by_age out))"

definition refresh_known_kinds :: "lbug_env \<Rightarrow> 'd lbug_engine \<Rightarrow> ('d cstate, unit) act" where
  "refresh_known_kinds L E =
     atry (abind (decoded (column 0) (query_params L E (lit ''MATCH (e:Entity) RETURN DISTINCT e.kind'') (JObj [])))
             (\<lambda>rows. aeach (\<lambda>v. register_kind (value_as_kind L v)) rows))
       (\<lambda>_. aret ())"

definition COUNT_ACTIVE :: rstr where
  "COUNT_ACTIVE = lit ''MATCH (e:Entity) WHERE lower(e.name) = $lower_name AND e.group_id = $gid RETURN e.labels, e.kind''"

definition active_columns :: "lbug_env \<Rightarrow> lval list \<Rightarrow> (rstr list \<times> rstr) option" where
  "active_columns L row = (if length row > 1 then Some (value_as_str_list L (row ! 0), value_as_kind L (row ! 1)) else None)"

definition count_active_entities_by_name_ci ::
  "ucd \<Rightarrow> lbug_env \<Rightarrow> 'd lbug_engine \<Rightarrow> rstr \<Rightarrow> rstr \<Rightarrow> rstr option \<Rightarrow> ('d cstate, nat) act" where
  "count_active_entities_by_name_ci U L E name group_id kind =
     abind (decoded (active_columns L)
              (query_params L E COUNT_ACTIVE
                 (JObj [(lit ''lower_name'', JStr (lower_trim U name)), (lit ''gid'', JStr group_id)]))) (\<lambda>rows.
     aret (length (filter (\<lambda>(labels, k). MERGED \<notin> set labels \<and> (case kind of None \<Rightarrow> True | Some k' \<Rightarrow> k = k')) rows)))"

section \<open>Queries on the table of entities\<close>

text \<open>The table of entities in the order of age, each row as \<^verbatim>\<open>get_entity_by_uuid\<close> decodes it.  The lookup by key may
  return any rows of the table.  Repairing a row that is in the table sets its kind to what is read from it.\<close>

definition table_ok :: "ucd \<Rightarrow> lbug_env \<Rightarrow> 'd lbug_engine \<Rightarrow> ('d \<Rightarrow> entity_row list) \<Rightarrow> bool" where
  "table_ok U L E V \<longleftrightarrow>
     fts_invisible E V
   \<and> (\<forall>d. distinct (map er_uuid (V d)))
   \<and> (\<forall>q \<in> {ENTITY_BY_UUID, ENTITY_BY_KEY, SCAN_GROUP}. \<forall>b d. V (fst (en_execute E q b d)) = V d)
   \<and> (\<forall>d. \<forall>e \<in> set (V d). V (fst (en_execute E SELF_HEAL (json_params_to_values L (self_heal_params U e)) d)) = V d)
   \<and> (\<forall>u d rows. snd (en_execute E ENTITY_BY_UUID [(lit ''uuid'', VString u)] d) = Inr rows
        \<longrightarrow> map (full_entity_of_row L) rows = map Some (filter (\<lambda>e. er_uuid e = u) (V d)))
   \<and> (\<forall>k d rows. snd (en_execute E ENTITY_BY_KEY [(lit ''key'', VString k)] d) = Inr rows
        \<longrightarrow> set (map (full_entity_of_row L) rows) \<subseteq> Some ` set (V d))
   \<and> (\<forall>g d rows. snd (en_execute E SCAN_GROUP [(lit ''gid'', VString g)] d) = Inr rows
        \<longrightarrow> map (scan_columns L) rows = map (\<lambda>e. Some (er_uuid e, er_name e, er_kind e)) (filter (\<lambda>e. er_group_id e = g) (V d)))"

interpretation same: view_frame V "(=)" for V :: "'d \<Rightarrow> 'v"
  by unfold_locales auto

interpretation healed: view_frame V "\<lambda>v w. x \<in> set v \<longrightarrow> w = v" for V :: "'d \<Rightarrow> 'a list" and x
  by unfold_locales auto

lemma param_values [simp]:
  "json_params_to_values L (JObj [(lit ''uuid'', JStr u)]) = [(lit ''uuid'', VString u)]"
  "json_params_to_values L (JObj [(lit ''key'', JStr u)]) = [(lit ''key'', VString u)]"
  "json_params_to_values L (JObj [(lit ''gid'', JStr u)]) = [(lit ''gid'', VString u)]"
  by (simp_all add: json_params_to_values_def json_value_for_param_def TIMESTAMP_PARAM_NAMES_def)

lemma find_as_filter: "find P xs = (case filter P xs of [] \<Rightarrow> None | x # _ \<Rightarrow> Some x)"
  by (induction xs) auto

lemma by_uuid_result:
  assumes ok: "table_ok U L E V" and r: "get_entity_by_uuid L E u s = Some (s', Inr x)"
  shows "x = find (\<lambda>e. er_uuid e = u) (V (cs_db s))"
proof -
  from decoded_first_result [OF r [unfolded get_entity_by_uuid_def]] obtain rows where
    rows: "query_params L E ENTITY_BY_UUID (JObj [(lit ''uuid'', JStr u)]) s = Some (s', Inr rows)"
    and x: "case rows of [] \<Rightarrow> x = None | r # _ \<Rightarrow> full_entity_of_row L r = x \<and> x \<noteq> None" by blast
  have "map (full_entity_of_row L) rows = map Some (filter (\<lambda>e. er_uuid e = u) (V (cs_db s)))"
    using ok query_result [OF rows] by (simp add: table_ok_def del: lit_Cons)
  with x show ?thesis
    by (cases rows) (auto simp: map_eq_Cons_conv find_as_filter split: list.splits)
qed

lemma frame_query: "table_ok U L E V \<Longrightarrow> q \<in> {ENTITY_BY_UUID, ENTITY_BY_KEY, SCAN_GROUP}
    \<Longrightarrow> frames (on_view V (=)) (query_params L E q p)"
  by (rule same.view_query_params) (auto simp: table_ok_def)

lemma frame_by_uuid: "table_ok U L E V \<Longrightarrow> frames (on_view V (=)) (get_entity_by_uuid L E u)"
  unfolding get_entity_by_uuid_def by (intro same.decode_first frame_query) auto

lemma frame_by_key: "table_ok U L E V \<Longrightarrow> frames (on_view V (=)) (get_entity_by_name_ci U L E n g k)"
  unfolding get_entity_by_name_ci_def by (intro same.decode_first frame_query) auto

lemma by_key_result:
  assumes ok: "table_ok U L E V" and r: "get_entity_by_name_ci U L E n g k s = Some (s', Inr x)"
  shows "x = None \<or> (\<exists>e \<in> set (V (cs_db s)). x = Some e)"
proof -
  from decoded_first_result [OF r [unfolded get_entity_by_name_ci_def]] obtain rows where
    rows: "query_params L E ENTITY_BY_KEY (JObj [(lit ''key'', JStr (compute_lookup_key U g k n))]) s = Some (s', Inr rows)"
    and x: "case rows of [] \<Rightarrow> x = None | r # _ \<Rightarrow> full_entity_of_row L r = x \<and> x \<noteq> None" by blast
  have "set (map (full_entity_of_row L) rows) \<subseteq> Some ` set (V (cs_db s))"
    using ok query_result [OF rows] by (simp add: table_ok_def del: lit_Cons)
  with x show ?thesis by (cases rows) auto
qed

section \<open>The scan\<close>

lemma frame_hydrate: "table_ok U L E V \<Longrightarrow> frames (on_view V (=)) (hydrate L E b us)"
  by (induction us) (auto intro!: same.bind same.ret frame_by_uuid split: option.splits)

definition table_find :: "('d \<Rightarrow> entity_row list) \<Rightarrow> 'd cstate \<Rightarrow> rstr \<Rightarrow> entity_row option" where
  "table_find V s u = find (\<lambda>e. er_uuid e = u) (V (cs_db s))"

lemma hydrate_result:
  assumes ok: "table_ok U L E V"
  shows "hydrate L E b us s = Some (s', Inr es) \<Longrightarrow> es = (if b then take 1 else id) (List.map_filter (table_find V s) us)"
proof (induction us arbitrary: s es)
  case (Cons u us)
  from Cons.prems [unfolded hydrate.simps] obtain t x where
    x: "get_entity_by_uuid L E u s = Some (t, Inr x)"
    and k: "(case x of None \<Rightarrow> hydrate L E b us | Some entity \<Rightarrow> if b then aret [entity]
        else abind (hydrate L E b us) (\<lambda>es. aret (entity # es))) t = Some (s', Inr es)"
    by (rule bind_result)
  have v: "table_find V t = table_find V s"
    using framesD [OF frame_by_uuid [OF ok] x] by (simp add: on_view_def table_find_def fun_eq_iff)
  note f = by_uuid_result [OF ok x, folded table_find_def]
  show ?case
  proof (cases x)
    case None
    with Cons.IH [of t es] k f v show ?thesis by (simp add: map_filter_simps)
  next
    case (Some e)
    show ?thesis
    proof (cases b)
      case False
      with Some k obtain t' es' where "hydrate L E b us t = Some (t', Inr es')" "es = e # es'" "t' = s'"
        by (auto simp: aret_def elim!: bind_result)
      with Cons.IH [of t es'] Some f v False show ?thesis by (simp add: map_filter_simps)
    qed (use Some k f in \<open>simp add: aret_def map_filter_simps\<close>)
  qed
qed (simp add: aret_def map_filter_simps)

definition fits :: "ucd \<Rightarrow> rstr \<Rightarrow> rstr \<Rightarrow> rstr option \<Rightarrow> entity_row \<Rightarrow> bool" where
  "fits U name group_id kind e \<longleftrightarrow> er_group_id e = group_id \<and> lower_trim U (er_name e) = lower_trim U name
     \<and> (case kind of None \<Rightarrow> True | Some k \<Rightarrow> er_kind e = k)"

lemma find_distinct: "distinct (map er_uuid es) \<Longrightarrow> e \<in> set es \<Longrightarrow> find (\<lambda>x. er_uuid x = er_uuid e) es = Some e"
  by (induction es) (auto simp: image_iff)

lemma find_own_uuids:
  "distinct (map er_uuid es) \<Longrightarrow> set xs \<subseteq> set es \<Longrightarrow> List.map_filter (\<lambda>u. find (\<lambda>x. er_uuid x = u) es) (map er_uuid xs) = xs"
  by (induction xs) (auto simp: map_filter_simps find_distinct)

lemma scan_result:
  assumes ok: "table_ok U L E V" and r: "scan_entities_by_name_ci U L E n g kind s = Some (s', Inr es)"
  shows "es = (if kind \<noteq> None then take 1 else id) (filter (fits U n g kind) (V (cs_db s))) \<and> V (cs_db s') = V (cs_db s)"
proof -
  let ?p = "\<lambda>(u, n', k). lower_trim U n' = lower_trim U n \<and> (case kind of None \<Rightarrow> True | Some k' \<Rightarrow> k = k')"
  from r [unfolded scan_entities_by_name_ci_def] obtain t rows where
    d: "decoded (scan_columns L) (query_params L E SCAN_GROUP (JObj [(lit ''gid'', JStr g)])) s = Some (t, Inr rows)"
    and h: "hydrate L E (kind \<noteq> None) (map fst (filter ?p rows)) t = Some (s', Inr es)"
    by (rule bind_result)
  have v: "V (cs_db t) = V (cs_db s)"
    using framesD [OF same.decode [OF frame_query [OF ok]] d] by (auto simp: on_view_def)
  have v': "V (cs_db s') = V (cs_db t)"
    using framesD [OF frame_hydrate [OF ok] h] by (auto simp: on_view_def)
  from decoded_result [OF d] obtain raw where
    raw: "query_params L E SCAN_GROUP (JObj [(lit ''gid'', JStr g)]) s = Some (t, Inr raw)"
    and m: "map (scan_columns L) raw = map Some rows" by blast
  have "map (scan_columns L) raw = map (\<lambda>e. Some (er_uuid e, er_name e, er_kind e)) (filter (\<lambda>e. er_group_id e = g) (V (cs_db s)))"
    using ok query_result [OF raw] by (simp add: table_ok_def del: lit_Cons)
  then have "map Some rows = map Some (map (\<lambda>e. (er_uuid e, er_name e, er_kind e)) (filter (\<lambda>e. er_group_id e = g) (V (cs_db s))))"
    by (simp add: m comp_def)
  then have rows: "rows = map (\<lambda>e. (er_uuid e, er_name e, er_kind e)) (filter (\<lambda>e. er_group_id e = g) (V (cs_db s)))"
    by (simp only: inj_map_eq_map [OF inj_Some])
  have u: "map fst (filter ?p rows) = map er_uuid (filter (fits U n g kind) (V (cs_db s)))"
    unfolding rows by (auto simp: filter_map comp_def fits_def intro!: arg_cong [where f = "map er_uuid"] filter_cong)
  have "List.map_filter (table_find V t) (map er_uuid (filter (fits U n g kind) (V (cs_db s)))) = filter (fits U n g kind) (V (cs_db s))"
    unfolding table_find_def v using ok by (intro find_own_uuids) (auto simp: table_ok_def)
  with hydrate_result [OF ok h] u v v' show ?thesis by simp
qed

section \<open>The lookups are exact\<close>

lemma self_heal_keeps:
  assumes ok: "table_ok U L E V" and r: "self_heal_lookup_key U L E e s = Some (s', r)" and e: "e \<in> set (V (cs_db s))"
  shows "V (cs_db s') = V (cs_db s)"
proof -
  have "frames (on_view V (\<lambda>v w. e \<in> set v \<longrightarrow> w = v)) (self_heal_lookup_key U L E e)"
    unfolding self_heal_lookup_key_def using ok
    by (intro healed.ignore healed.view_exec_params) (auto simp: table_ok_def)
  from framesD [OF this r] e show ?thesis by (simp add: on_view_def)
qed

lemma fits_Some: "fits U n g (Some k) e \<longleftrightarrow> hit_fits U n g k e"
  by (auto simp: fits_def hit_fits_def)

lemma fall_back_result:
  assumes ok: "table_ok U L E V" and r: "fall_back U L E n g k s = Some (s', Inr res)"
  shows "V (cs_db s') = V (cs_db s) \<and> res = find (hit_fits U n g k) (V (cs_db s))"
proof -
  from r [unfolded fall_back_def] obtain t x where
    t: "record_lookup_key_fallback_scan s = Some (t, Inr x)"
    and r1: "abind (scan_entities_by_name_ci U L E n g (Some k)) (\<lambda>rows. case rows of [] \<Rightarrow> aret None
        | row # _ \<Rightarrow> abind (self_heal_lookup_key U L E row) (\<lambda>_. aret (Some row))) t = Some (s', Inr res)"
    by (rule bind_result)
  from t have vt: "V (cs_db t) = V (cs_db s)" by (auto simp: record_lookup_key_fallback_scan_def amodify_def)
  from r1 obtain u rows where
    sc: "scan_entities_by_name_ci U L E n g (Some k) t = Some (u, Inr rows)"
    and r2: "(case rows of [] \<Rightarrow> aret None | row # _ \<Rightarrow> abind (self_heal_lookup_key U L E row) (\<lambda>_. aret (Some row))) u = Some (s', Inr res)"
    by (rule bind_result)
  from scan_result [OF ok sc] vt have rows: "rows = take 1 (filter (hit_fits U n g k) (V (cs_db s)))"
    and vu: "V (cs_db u) = V (cs_db s)" by (simp_all add: fits_Some [abs_def])
  show ?thesis
  proof (cases "filter (hit_fits U n g k) (V (cs_db s))")
    case Nil
    with rows r2 vu show ?thesis by (simp add: aret_def find_as_filter)
  next
    case (Cons e es)
    then have "e \<in> set (filter (hit_fits U n g k) (V (cs_db s)))" by simp
    then have e: "e \<in> set (V (cs_db u))" using vu by simp
    from Cons rows r2 obtain y where "self_heal_lookup_key U L E e u = Some (s', Inr y)" "res = Some e"
      by (auto simp: aret_def elim!: bind_result)
    with self_heal_keeps [OF ok _ e] vu Cons show ?thesis by (simp add: find_as_filter)
  qed
qed

lemma lookup_result:
  assumes ok: "table_ok U L E V" and r: "get_entity_by_name_ci_with_scan_fallback U L E n g k s = Some (s', Inr res)"
  shows "V (cs_db s') = V (cs_db s) \<and>
    (case res of None \<Rightarrow> \<forall>e \<in> set (V (cs_db s)). \<not> hit_fits U n g k e | Some e \<Rightarrow> e \<in> set (V (cs_db s)) \<and> hit_fits U n g k e)"
proof -
  from r [unfolded get_entity_by_name_ci_with_scan_fallback_def] obtain t hit where
    h: "get_entity_by_name_ci U L E n g k s = Some (t, Inr hit)"
    and c: "(case hit of Some row \<Rightarrow> if hit_fits U n g k row then aret (Some row) else fall_back U L E n g k
       | None \<Rightarrow> fall_back U L E n g k) t = Some (s', Inr res)" by (rule bind_result)
  have vt: "V (cs_db t) = V (cs_db s)" using framesD [OF frame_by_key [OF ok] h] by (simp add: on_view_def)
  consider (hit) e where "hit = Some e" "hit_fits U n g k e" "s' = t" "res = Some e" | (scan) "fall_back U L E n g k t = Some (s', Inr res)"
    using c by (cases hit) (auto simp: aret_def split: if_splits)
  then show ?thesis
  proof cases
    case hit
    with by_key_result [OF ok h] vt show ?thesis by simp
  next
    case scan
    from fall_back_result [OF ok this] vt show ?thesis
      by (auto simp: find_None_iff find_Some_iff set_conv_nth split: option.splits)
  qed
qed

lemma probe_result:
  assumes ok: "table_ok U L E V"
  shows "probe_kinds U L E n g ks s = Some (s', Inr out) \<Longrightarrow>
    V (cs_db s') = V (cs_db s) \<and> subseq (map er_kind out) ks \<and> (\<forall>e \<in> set out. e \<in> set (V (cs_db s)) \<and> fits U n g None e)"
proof (induction ks arbitrary: s out)
  case (Cons k ks)
  from Cons.prems [unfolded probe_kinds.simps] obtain t hit where
    h: "get_entity_by_name_ci U L E n g k s = Some (t, Inr hit)"
    and "abind (probe_kinds U L E n g ks) (\<lambda>rest. aret ((case hit of Some row \<Rightarrow> if hit_fits U n g k row then [row] else []
       | None \<Rightarrow> []) @ rest)) t = Some (s', Inr out)" by (rule bind_result)
  then obtain rest where p: "probe_kinds U L E n g ks t = Some (s', Inr rest)"
    and out: "out = (case hit of Some row \<Rightarrow> if hit_fits U n g k row then [row] else [] | None \<Rightarrow> []) @ rest"
    by (auto simp: aret_def elim!: bind_result)
  have vt: "V (cs_db t) = V (cs_db s)" using framesD [OF frame_by_key [OF ok] h] by (simp add: on_view_def)
  from by_key_result [OF ok h] Cons.IH [OF p] vt show ?case
    unfolding out by (auto simp: hit_fits_def fits_def split: option.splits)
qed (simp add: aret_def)

lemma winners_result:
  assumes ok: "table_ok U L E V" and nt: "\<And>k. frames (on_view V (=)) (nt k)"
  shows "scan_winners U L E nt seen rows s = Some (s', Inr out) \<Longrightarrow> set rows \<subseteq> set (V (cs_db s)) \<Longrightarrow>
    V (cs_db s') = V (cs_db s) \<and> set out \<subseteq> set rows \<and> distinct (map er_kind out) \<and> er_kind ` set out = er_kind ` set rows - seen"
proof (induction rows arbitrary: s seen out)
  case (Cons e rows)
  from Cons.prems(1) [unfolded scan_winners.simps] obtain t x where
    h: "self_heal_lookup_key U L E e s = Some (t, Inr x)"
    and r1: "abind (nt (er_kind e)) (\<lambda>_. abind (scan_winners U L E nt (insert (er_kind e) seen) rows)
       (\<lambda>rest. aret (if er_kind e \<in> seen then rest else e # rest))) t = Some (s', Inr out)" by (rule bind_result)
  from r1 obtain u y where n: "nt (er_kind e) t = Some (u, Inr y)"
    and r2: "abind (scan_winners U L E nt (insert (er_kind e) seen) rows)
       (\<lambda>rest. aret (if er_kind e \<in> seen then rest else e # rest)) u = Some (s', Inr out)" by (rule bind_result)
  have v: "V (cs_db u) = V (cs_db s)"
    using self_heal_keeps [OF ok h] framesD [OF nt n] Cons.prems(2) by (simp add: on_view_def)
  from r2 obtain rest where w: "scan_winners U L E nt (insert (er_kind e) seen) rows u = Some (s', Inr rest)"
    and out: "out = (if er_kind e \<in> seen then rest else e # rest)" by (auto simp: aret_def elim!: bind_result)
  from Cons.prems(2) v have sub: "set rows \<subseteq> set (V (cs_db u))" by simp
  from Cons.IH [OF w sub] v show ?case unfolding out by auto
qed (simp add: aret_def)

lemma by_age_set [simp]: "set (by_age xs) = set xs"
  and by_age_distinct [simp]: "distinct (map er_kind (by_age xs)) = distinct (map er_kind xs)"
proof -
  show "set (by_age xs) = set xs" by (simp add: by_age_def)
  have "mset (map er_kind (by_age xs)) = mset (map er_kind xs)" by (simp add: by_age_def)
  then show "distinct (map er_kind (by_age xs)) = distinct (map er_kind xs)" by (metis mset_eq_imp_distinct_iff)
qed

lemma scan_kinds_result:
  assumes ok: "table_ok U L E V" and nt: "\<And>k. frames (on_view V (=)) (nt k)"
    and r: "scan_kinds U L E nt n g seen wanted s = Some (s', Inr out)"
  shows "V (cs_db s') = V (cs_db s) \<and> distinct (map er_kind out) \<and> (\<forall>e \<in> set out. e \<in> set (V (cs_db s)) \<and> fits U n g None e)
    \<and> er_kind ` set out = {k. wanted k \<and> (\<exists>e \<in> set (V (cs_db s)). hit_fits U n g k e)} - seen"
proof -
  from r [unfolded scan_kinds_def] obtain t x where
    t: "record_lookup_key_fallback_scan s = Some (t, Inr x)"
    and r1: "abind (scan_entities_by_name_ci U L E n g None) (\<lambda>rows.
       scan_winners U L E nt seen (filter (\<lambda>r. wanted (er_kind r)) rows)) t = Some (s', Inr out)" by (rule bind_result)
  from t have vt: "V (cs_db t) = V (cs_db s)" by (auto simp: record_lookup_key_fallback_scan_def amodify_def)
  from r1 obtain u rows where sc: "scan_entities_by_name_ci U L E n g None t = Some (u, Inr rows)"
    and w: "scan_winners U L E nt seen (filter (\<lambda>r. wanted (er_kind r)) rows) u = Some (s', Inr out)" by (rule bind_result)
  from scan_result [OF ok sc] vt have rows: "rows = filter (fits U n g None) (V (cs_db s))" and vu: "V (cs_db u) = V (cs_db s)" by auto
  from rows vu have sub: "set (filter (\<lambda>r. wanted (er_kind r)) rows) \<subseteq> set (V (cs_db u))" by auto
  from winners_result [OF ok nt w sub] vu rows show ?thesis
    by (auto simp: fits_def hit_fits_def)
qed

lemma in_kinds_result:
  assumes ok: "table_ok U L E V" and d: "distinct ks"
    and r: "resolve_entities_by_name_in_kinds U L E n g ks s = Some (s', Inr out)"
  shows "V (cs_db s') = V (cs_db s) \<and> distinct (map er_kind out)
    \<and> (\<forall>e \<in> set out. e \<in> set (V (cs_db s)) \<and> fits U n g None e)
    \<and> er_kind ` set out = {k \<in> set ks. \<exists>e \<in> set (V (cs_db s)). hit_fits U n g k e}"
proof -
  let ?V = "V (cs_db s)"
  from r [unfolded resolve_entities_by_name_in_kinds_def] obtain t hits where
    p: "probe_kinds U L E n g ks s = Some (t, Inr hits)"
    and c: "(let seen_kinds = set (map er_kind hits) in if card seen_kinds < card (set ks)
        then abind (scan_kinds U L E (\<lambda>_. aret ()) n g seen_kinds (\<lambda>k. k \<in> set ks)) (\<lambda>out'. aret (by_age (hits @ out')))
        else aret (by_age hits)) t = Some (s', Inr out)"
    by (rule bind_result)
  from probe_result [OF ok p] have vt: "V (cs_db t) = ?V" and sub: "subseq (map er_kind hits) ks"
    and fit: "\<forall>e \<in> set hits. e \<in> set ?V \<and> fits U n g None e" by auto
  from sub d have dh: "distinct (map er_kind hits)" by (metis in_set_subseqs subseqs_distinctD)
  from sub have kh: "er_kind ` set hits \<subseteq> set ks" by (fastforce elim: list_emb_set)
  have own: "\<exists>e \<in> set ?V. hit_fits U n g k e" if "k \<in> er_kind ` set hits" for k
    using that fit by (auto simp: fits_def hit_fits_def)
  show ?thesis
  proof (cases "card (er_kind ` set hits) < card (set ks)")
    case False
    with kh have all: "er_kind ` set hits = set ks" by (meson List.finite_set card_mono card_subset_eq le_antisym not_less)
    from False c have "s' = t" "out = by_age hits" by (auto simp: aret_def)
    with all fit vt dh own show ?thesis by auto
  next
    case True
    with c obtain won where
      w: "scan_kinds U L E (\<lambda>_. aret ()) n g (set (map er_kind hits)) (\<lambda>k. k \<in> set ks) t = Some (s', Inr won)"
      and out: "out = by_age (hits @ won)" by (auto simp: aret_def elim!: bind_result)
    from scan_kinds_result [OF ok same.ret w] vt
    have w1: "V (cs_db s') = ?V" "distinct (map er_kind won)" "\<forall>e \<in> set won. e \<in> set ?V \<and> fits U n g None e"
      and w2: "er_kind ` set won = {k \<in> set ks. \<exists>e \<in> set ?V. hit_fits U n g k e} - er_kind ` set hits" by simp_all
    have "er_kind ` set out = {k \<in> set ks. \<exists>e \<in> set ?V. hit_fits U n g k e}"
      unfolding out using w2 kh own by (auto simp: image_Un)
    moreover have "distinct (map er_kind out)"
      unfolding out using w1(2) w2 dh by auto
    ultimately show ?thesis using w1 fit unfolding out by auto
  qed
qed

section \<open>The lookups return\<close>

lemma returns_query [simp]: "returns (query_params L E q p)"
  unfolding query_params_def prepare_def by (intro returns_bind returns_simps)

lemma returns_decoded:
  assumes "returns q" and d: "\<And>s s' rows. q s = Some (s', Inr rows) \<Longrightarrow> None \<notin> set (map f rows)"
  shows "returns (decoded f q)"
proof -
  have "collect_opt f rows \<noteq> None" if "None \<notin> set (map f rows)" for rows
    using that by (induction rows) (auto split: option.splits)
  then show ?thesis using assms
    by (fastforce simp: returns_def decoded_def abind_def split: option.splits sum.splits)
qed

lemma returns_decoded_first:
  assumes q: "returns q" and d: "\<And>s s' rows. q s = Some (s', Inr rows) \<Longrightarrow> None \<notin> set (map f rows)"
  shows "returns (decoded_first f q)"
  unfolding decoded_first_def
proof (intro returns_bind returns_decoded q returns_simps)
  fix s s' rows assume "abind q (\<lambda>rows. aret (take 1 rows)) s = Some (s', Inr rows)"
  then obtain all where "q s = Some (s', Inr all)" "rows = take 1 all" by (auto simp: aret_def elim!: bind_result)
  with d [of s s' all] show "None \<notin> set (map f rows)" by (auto dest: in_set_takeD)
qed

lemma returns_by_uuid:
  assumes ok: "table_ok U L E V" shows "returns (get_entity_by_uuid L E u)"
  unfolding get_entity_by_uuid_def
proof (intro returns_decoded_first returns_query)
  fix s s' rows assume "query_params L E ENTITY_BY_UUID (JObj [(lit ''uuid'', JStr u)]) s = Some (s', Inr rows)"
  then have "map (full_entity_of_row L) rows = map Some (filter (\<lambda>e. er_uuid e = u) (V (cs_db s)))"
    using ok query_result by (fastforce simp: table_ok_def simp del: lit_Cons)
  then show "None \<notin> set (map (full_entity_of_row L) rows)" by simp
qed

lemma returns_by_key:
  assumes ok: "table_ok U L E V" shows "returns (get_entity_by_name_ci U L E n g k)"
  unfolding get_entity_by_name_ci_def
proof (intro returns_decoded_first returns_query)
  fix s s' rows
  assume "query_params L E ENTITY_BY_KEY (JObj [(lit ''key'', JStr (compute_lookup_key U g k n))]) s = Some (s', Inr rows)"
  then have "set (map (full_entity_of_row L) rows) \<subseteq> Some ` set (V (cs_db s))"
    using ok query_result by (fastforce simp: table_ok_def simp del: lit_Cons)
  then show "None \<notin> set (map (full_entity_of_row L) rows)" by auto
qed

lemma returns_hydrate: "table_ok U L E V \<Longrightarrow> returns (hydrate L E b us)"
  by (induction us) (auto intro!: returns_bind returns_by_uuid split: option.splits)

lemma returns_scan:
  assumes ok: "table_ok U L E V" shows "returns (scan_entities_by_name_ci U L E n g k)"
  unfolding scan_entities_by_name_ci_def
proof (intro returns_bind returns_hydrate [OF ok] returns_decoded returns_query)
  fix s s' rows assume "query_params L E SCAN_GROUP (JObj [(lit ''gid'', JStr g)]) s = Some (s', Inr rows)"
  then have "map (scan_columns L) rows = map (\<lambda>e. Some (er_uuid e, er_name e, er_kind e)) (filter (\<lambda>e. er_group_id e = g) (V (cs_db s)))"
    using ok query_result by (fastforce simp: table_ok_def simp del: lit_Cons)
  then show "None \<notin> set (map (scan_columns L) rows)" by auto
qed

lemma returns_heal: "returns (self_heal_lookup_key U L E e)"
  unfolding self_heal_lookup_key_def by (intro returns_ignore returns_exec_params)

lemma returns_fall_back: "table_ok U L E V \<Longrightarrow> returns (fall_back U L E n g k)"
  unfolding fall_back_def record_lookup_key_fallback_scan_def
  by (intro returns_bind returns_scan returns_simps) (auto intro!: returns_bind returns_heal split: list.splits)

lemma returns_lookup: "table_ok U L E V \<Longrightarrow> returns (get_entity_by_name_ci_with_scan_fallback U L E n g k)"
  unfolding get_entity_by_name_ci_with_scan_fallback_def
  by (intro returns_bind returns_by_key) (auto intro: returns_fall_back split: option.splits)

lemma returns_probe: "table_ok U L E V \<Longrightarrow> returns (probe_kinds U L E n g ks)"
  by (induction ks) (auto intro!: returns_bind returns_by_key)

lemma returns_winners: "(\<And>k. returns (nt k)) \<Longrightarrow> returns (scan_winners U L E nt seen rows)"
  by (induction rows arbitrary: seen) (auto intro!: returns_bind returns_heal)

lemma returns_in_kinds: "table_ok U L E V \<Longrightarrow> returns (resolve_entities_by_name_in_kinds U L E n g ks)"
  unfolding resolve_entities_by_name_in_kinds_def scan_kinds_def record_lookup_key_fallback_scan_def Let_def
  by (intro returns_bind returns_probe) (auto intro!: returns_bind returns_scan returns_winners)

text \<open>C37: The authoritative lookup of a name returns, and unless the engine reports an error its answer is exact, although
  the key column behind its index may be stale: an answer is an entity of the table with this group, this kind and this
  name up to case and surrounding space, and no answer means that the table has no such entity.  The repair of keys does
  not change the entities.\<close>

theorem name_lookup_exact:
  assumes "table_ok U L E V"
  shows "\<exists>s' r. get_entity_by_name_ci_with_scan_fallback U L E n g k s = Some (s', r) \<and>
    (\<forall>res. r = Inr res \<longrightarrow> V (cs_db s') = V (cs_db s) \<and>
      (case res of None \<Rightarrow> \<forall>e \<in> set (V (cs_db s)). \<not> hit_fits U n g k e
       | Some e \<Rightarrow> e \<in> set (V (cs_db s)) \<and> hit_fits U n g k e))"
proof -
  obtain s' r where x: "get_entity_by_name_ci_with_scan_fallback U L E n g k s = Some (s', r)"
    using returns_lookup [OF assms] unfolding returns_def by (metis option.exhaust prod.exhaust)
  then show ?thesis using lookup_result [OF assms, of n g k s s'] by blast
qed

text \<open>C38: Resolving a name over a list of kinds returns, and unless the engine reports an error it finds exactly one entity
  for each of these kinds that has an entity of this name, and none else, so that a name that is ambiguous between two of
  the kinds is never answered with one of them.\<close>

theorem kinds_lookup_exact:
  assumes ok: "table_ok U L E V" and d: "distinct kinds"
  shows "\<exists>s' r. resolve_entities_by_name_in_kinds U L E n g kinds s = Some (s', r) \<and>
    (\<forall>out. r = Inr out \<longrightarrow> V (cs_db s') = V (cs_db s) \<and> distinct (map er_kind out)
      \<and> (\<forall>e \<in> set out. e \<in> set (V (cs_db s)) \<and> hit_fits U n g (er_kind e) e)
      \<and> er_kind ` set out = {k \<in> set kinds. \<exists>e \<in> set (V (cs_db s)). hit_fits U n g k e})"
proof -
  obtain s' r where x: "resolve_entities_by_name_in_kinds U L E n g kinds s = Some (s', r)"
    using returns_in_kinds [OF ok] unfolding returns_def by (metis option.exhaust prod.exhaust)
  have f: "hit_fits U n g (er_kind e) e = fits U n g None e" for e by (auto simp: hit_fits_def fits_def)
  show ?thesis using x in_kinds_result [OF ok d, of n g s s'] unfolding f by blast
qed

section \<open>A stale key\<close>

text \<open>A fixed table with two entities of the same name; the index knows the key of the first one only.\<close>

definition toy_entity :: "string \<Rightarrow> string \<Rightarrow> entity_row" where
  "toy_entity u k = default_entity_row\<lparr>er_uuid := lit u, er_name := lit ''A'', er_group_id := lit ''g'', er_kind := lit k\<rparr>"

definition toy_table :: "unit \<Rightarrow> entity_row list" where
  "toy_table d = [toy_entity ''1'' ''Entity'', toy_entity ''2'' ''Topic'']"

definition toy_columns :: "entity_row \<Rightarrow> lval list" where
  "toy_columns e = [VString (er_uuid e), VString (er_name e), VString (er_group_id e), VList TString (map VString (er_labels e)),
     VString (er_created_at e), VList TDouble [], VString (er_summary e), VString (er_attributes e), VString (er_kind e),
     VString (er_ingested_at e)]"

definition toy_scan_columns :: "entity_row \<Rightarrow> lval list" where
  "toy_scan_columns e = [VString (er_uuid e), VString (er_name e), VString (er_group_id e), VString (er_created_at e), VString (er_kind e)]"

definition toy_answer :: "rstr \<Rightarrow> (rstr \<times> lval) list \<Rightarrow> lval list list" where
  "toy_answer q b =
     (if q = ENTITY_BY_UUID then map toy_columns (filter (\<lambda>e. b = [(lit ''uuid'', VString (er_uuid e))]) (toy_table ()))
      else if q = SCAN_GROUP then map toy_scan_columns (filter (\<lambda>e. b = [(lit ''gid'', VString (er_group_id e))]) (toy_table ()))
      else if q = ENTITY_BY_KEY \<and> b = [(lit ''key'', VString (compute_lookup_key ascii_ucd (lit ''g'') (lit ''Entity'') (lit ''A'')))]
      then [toy_columns (toy_entity ''1'' ''Entity'')]
      else [])"

definition toy_lookup_engine :: "unit lbug_engine" where
  "toy_lookup_engine = \<lparr>en_query = (\<lambda>q d. (d, Inr [])), en_prepare = (\<lambda>d q. Inr ()), en_execute = (\<lambda>q b d. (d, Inr (toy_answer q b)))\<rparr>"

definition toy_lookup_state :: "unit cstate" where
  "toy_lookup_state = \<lparr>cs_db = (), cs_executed_mutations = [], cs_in_txn = False, cs_fts_repairs = (0, 0),
     cs_known_kinds = {lit ''Entity'', lit ''Topic''}, cs_fallback_scans = 0\<rparr>"

lemma stmt_distinct [simp]:
  "ENTITY_BY_KEY \<noteq> ENTITY_BY_UUID" "SCAN_GROUP \<noteq> ENTITY_BY_UUID" "SCAN_GROUP \<noteq> ENTITY_BY_KEY"
  "ENTITY_BY_UUID \<noteq> ENTITY_BY_KEY" "ENTITY_BY_UUID \<noteq> SCAN_GROUP" "ENTITY_BY_KEY \<noteq> SCAN_GROUP"
  "SELF_HEAL \<noteq> ENTITY_BY_UUID" "SELF_HEAL \<noteq> ENTITY_BY_KEY" "SELF_HEAL \<noteq> SCAN_GROUP"
  by (simp_all add: ENTITY_BY_KEY_def ENTITY_BY_UUID_def SCAN_GROUP_def SELF_HEAL_def)

lemma toy_decode:
  "e \<in> set (toy_table ()) \<Longrightarrow> full_entity_of_row toy_lbug (toy_columns e) = Some e"
  "e \<in> set (toy_table ()) \<Longrightarrow> scan_columns toy_lbug (toy_scan_columns e) = Some (er_uuid e, er_name e, er_kind e)"
  by (auto simp: toy_table_def toy_entity_def toy_columns_def toy_scan_columns_def full_entity_of_row_def scan_columns_def
      value_as_string_def value_as_str_list_def value_as_timestamp_str_def value_as_float_array_def value_as_kind_def
      default_entity_row_def text_eval)

lemma toy_lookup_rows:
  "map (full_entity_of_row toy_lbug) (toy_answer ENTITY_BY_UUID [(lit ''uuid'', VString u)]) = map Some (filter (\<lambda>e. er_uuid e = u) (toy_table d))"
  "map (scan_columns toy_lbug) (toy_answer SCAN_GROUP [(lit ''gid'', VString g)])
     = map (\<lambda>e. Some (er_uuid e, er_name e, er_kind e)) (filter (\<lambda>e. er_group_id e = g) (toy_table d))"
  "set (map (full_entity_of_row toy_lbug) (toy_answer ENTITY_BY_KEY b)) \<subseteq> Some ` set (toy_table d)"
  by (auto simp: toy_answer_def toy_decode toy_table_def)

lemma toy_table_ok: "table_ok ascii_ucd toy_lbug toy_lookup_engine toy_table"
proof -
  have "fts_invisible toy_lookup_engine toy_table" by (simp add: fts_invisible_def toy_lookup_engine_def)
  moreover have "distinct (map er_uuid (toy_table d))" for d by (simp add: toy_table_def toy_entity_def)
  ultimately show ?thesis using toy_lookup_rows unfolding table_ok_def by (simp add: toy_lookup_engine_def)
qed

lemma toy_query: "query_params toy_lbug toy_lookup_engine q p s = Some (s, Inr (toy_answer q (json_params_to_values toy_lbug p)))"
  by (simp add: query_params_def abind_def prepare_def aread_def on_db_def of_lbug_def toy_lookup_engine_def)

lemma toy_by_key:
  "get_entity_by_name_ci ascii_ucd toy_lbug toy_lookup_engine (lit ''A'') (lit ''g'') (lit ''Entity'') s = Some (s, Inr (Some (toy_entity ''1'' ''Entity'')))"
  "get_entity_by_name_ci ascii_ucd toy_lbug toy_lookup_engine (lit ''A'') (lit ''g'') (lit ''Topic'') s = Some (s, Inr None)"
proof -
  have k: "compute_lookup_key ascii_ucd (lit ''g'') (lit ''Topic'') (lit ''A'') \<noteq> compute_lookup_key ascii_ucd (lit ''g'') (lit ''Entity'') (lit ''A'')"
    by (simp add: compute_lookup_key_def)
  have e: "toy_entity ''1'' ''Entity'' \<in> set (toy_table ())" by (simp add: toy_table_def)
  show "get_entity_by_name_ci ascii_ucd toy_lbug toy_lookup_engine (lit ''A'') (lit ''g'') (lit ''Entity'') s = Some (s, Inr (Some (toy_entity ''1'' ''Entity'')))"
    "get_entity_by_name_ci ascii_ucd toy_lbug toy_lookup_engine (lit ''A'') (lit ''g'') (lit ''Topic'') s = Some (s, Inr None)"
    using k toy_decode(1) [OF e]
    by (simp_all add: get_entity_by_name_ci_def decoded_first_def decoded_def abind_def aret_def toy_query toy_answer_def del: lit_Cons)
qed

lemma toy_fit: "hit_fits ascii_ucd (lit ''A'') (lit ''g'') (lit ''Entity'') (toy_entity ''1'' ''Entity'')"
  by (simp add: hit_fits_def toy_entity_def)

text \<open>The resolution over all kinds looks at the index only, as long as some kind has an answer there: in this table it
  returns one entity for a name that two entities of different kinds have.\<close>

lemma any_kind_hides_ambiguity:
  "resolve_entities_by_name_any_kind ascii_ucd toy_lbug toy_lookup_engine (lit ''A'') (lit ''g'') toy_lookup_state
     = Some (toy_lookup_state, Inr [toy_entity ''1'' ''Entity''])"
  "{k. \<exists>e \<in> set (toy_table ()). hit_fits ascii_ucd (lit ''A'') (lit ''g'') k e} = {lit ''Entity'', lit ''Topic''}"
proof -
  have "known_kinds toy_lookup_state = [lit ''Entity'', lit ''Topic'']"
    by (simp add: known_kinds_def toy_lookup_state_def)
  then show "resolve_entities_by_name_any_kind ascii_ucd toy_lbug toy_lookup_engine (lit ''A'') (lit ''g'') toy_lookup_state
     = Some (toy_lookup_state, Inr [toy_entity ''1'' ''Entity''])"
    by (simp add: resolve_entities_by_name_any_kind_def abind_def aread_def aret_def toy_by_key toy_fit by_age_def del: lit_Cons)
  show "{k. \<exists>e \<in> set (toy_table ()). hit_fits ascii_ucd (lit ''A'') (lit ''g'') k e} = {lit ''Entity'', lit ''Topic''}"
    by (auto simp: toy_table_def toy_entity_def hit_fits_def)
qed

lemma toy_lookup_scan: "scan_entities_by_name_ci ascii_ucd toy_lbug toy_lookup_engine (lit ''A'') (lit ''g'') None s = Some (s, Inr (toy_table ()))"
proof -
  have u: "get_entity_by_uuid toy_lbug toy_lookup_engine (er_uuid e) s = Some (s, Inr (Some e))" if "e \<in> set (toy_table ())" for e s
  proof -
    have "toy_answer ENTITY_BY_UUID [(lit ''uuid'', VString (er_uuid e))] = [toy_columns e]"
      using that by (auto simp: toy_answer_def toy_table_def toy_entity_def)
    then show ?thesis using toy_decode(1) [OF that]
      by (simp add: get_entity_by_uuid_def decoded_first_def decoded_def abind_def aret_def toy_query del: lit_Cons)
  qed
  have s: "toy_answer SCAN_GROUP [(lit ''gid'', VString (lit ''g''))] = map toy_scan_columns (toy_table ())"
    by (simp add: toy_answer_def toy_table_def toy_entity_def)
  have c: "collect_opt (scan_columns toy_lbug) (map toy_scan_columns (toy_table ())) = Some (map (\<lambda>e. (er_uuid e, er_name e, er_kind e)) (toy_table ()))"
    unfolding collect_opt_Some_iff by (simp add: toy_decode)
  have h: "hydrate toy_lbug toy_lookup_engine False (map er_uuid es) s = Some (s, Inr es)" if "set es \<subseteq> set (toy_table ())" for es s
    using that by (induction es) (auto simp: abind_def aret_def u)
  have f: "filter (\<lambda>(u, n, k). lower_trim ascii_ucd n = lower_trim ascii_ucd (lit ''A'')) (map (\<lambda>e. (er_uuid e, er_name e, er_kind e)) (toy_table ()))
      = map (\<lambda>e. (er_uuid e, er_name e, er_kind e)) (toy_table ())"
    by (simp add: toy_table_def toy_entity_def)
  show ?thesis
    using h [of "toy_table ()"]
    by (simp add: scan_entities_by_name_ci_def decoded_def abind_def aret_def toy_query s c f comp_def del: lit_Cons)
qed

lemma toy_exec: "exec_params toy_lbug toy_lookup_engine q p s =
    Some (s\<lparr>cs_executed_mutations := cs_executed_mutations s @ [(q, p)]\<rparr>, Inr ())"
  by (simp add: exec_params_def abind_def prepare_def aread_def of_lbug_def with_backstop_def atry_def execute_prepared_def
      on_db_def aret_def record_mutation_def amodify_def toy_lookup_engine_def)

theorem name_lookup_exact_witness:
  "\<exists>s'. get_entity_by_name_ci_with_scan_fallback ascii_ucd toy_lbug toy_lookup_engine (lit ''A'') (lit ''g'') (lit ''Entity'') toy_lookup_state
      = Some (s', Inr (Some (toy_entity ''1'' ''Entity''))) \<and> toy_entity ''1'' ''Entity'' \<in> set (toy_table (cs_db s'))"
  using name_lookup_exact [OF toy_table_ok, of "lit ''A''" "lit ''g''" "lit ''Entity''" toy_lookup_state]
  by (auto simp: get_entity_by_name_ci_with_scan_fallback_def abind_def aret_def toy_by_key toy_fit simp del: lit_Cons)

theorem kinds_lookup_exact_witness:
  "\<exists>s' out. resolve_entities_by_name_in_kinds ascii_ucd toy_lbug toy_lookup_engine (lit ''A'') (lit ''g'') [lit ''Entity'', lit ''Topic''] toy_lookup_state
      = Some (s', Inr out) \<and> er_kind ` set out = {lit ''Entity'', lit ''Topic''}"
proof -
  let ?run = "resolve_entities_by_name_in_kinds ascii_ucd toy_lbug toy_lookup_engine (lit ''A'') (lit ''g'') [lit ''Entity'', lit ''Topic''] toy_lookup_state"
  have d: "distinct [lit ''Entity'', lit ''Topic'']" by simp
  have "\<exists>s' out. ?run = Some (s', Inr out)"
    using d by (simp add: resolve_entities_by_name_in_kinds_def abind_def aret_def toy_by_key toy_fit scan_kinds_def toy_lookup_scan
        record_lookup_key_fallback_scan_def amodify_def toy_table_def self_heal_lookup_key_def aignore_def atry_def toy_exec
        del: lit_Cons)
  then obtain s' out where r: "?run = Some (s', Inr out)" by blast
  with kinds_lookup_exact [OF toy_table_ok d, of "lit ''A''" "lit ''g''" toy_lookup_state]
  have "er_kind ` set out = {k \<in> set [lit ''Entity'', lit ''Topic'']. \<exists>e \<in> set (toy_table ()). hit_fits ascii_ucd (lit ''A'') (lit ''g'') k e}"
    by (auto simp: toy_table_def simp del: lit_Cons)
  also have "\<dots> = {lit ''Entity'', lit ''Topic''}" by (auto simp: toy_table_def toy_entity_def hit_fits_def)
  finally show ?thesis using r by blast
qed

end
