(* ===== verification/MergeEntities.thy ===== *)
theory MergeEntities
  imports NameLookup
begin

text \<open>
  Merging entities (\<^verbatim>\<open>corrections.rs\<close>, \<^verbatim>\<open>merge_entities\<close>): choosing the canonical entity, collecting the aliases,
  refusing to merge different kinds, moving the edges of each alias, and marking the aliases.  The
  theorem: on an engine whose statements do what they say (\<open>graph_ok\<close>), a merge in one group changes no entity and no edge of
  another group, a dry run changes nothing at all, and neither does a refused call.
\<close>

section \<open>Data\<close>

record merge_params =
  mp_canonical_uuid :: "rstr option"
  mp_canonical_name :: "rstr option"
  mp_alias_uuids :: "rstr list"
  mp_alias_names :: "rstr list"
  mp_merge_all_by_name :: bool
  mp_kind :: "rstr option"
  mp_group_id :: rstr
  mp_dry_run :: bool

record alias_info =
  ai_uuid :: rstr
  ai_name :: rstr
  ai_active_edges :: nat
  ai_duplicate_edges :: nat
  ai_foreign_edges_skipped :: nat

record merge_plan =
  pl_aliases :: "alias_info list"
  pl_total_edges_rewritten :: nat
  pl_total_edges_collapsed :: nat
  pl_total_foreign_edges_skipped :: nat

record merge_result =
  mr_success :: bool
  mr_canonical_uuid :: rstr
  mr_merged_count :: nat
  mr_skipped :: nat
  mr_edges_rewritten :: nat
  mr_edges_deduplicated :: nat
  mr_foreign_edges_skipped :: nat
  mr_errors :: "rstr list"
  mr_plan :: "merge_plan option"

record merge_edge_counts =
  mc_rewritten :: nat
  mc_deduped :: nat
  mc_foreign_skipped :: nat

definition no_edge_counts :: merge_edge_counts where
  "no_edge_counts = \<lparr>mc_rewritten = 0, mc_deduped = 0, mc_foreign_skipped = 0\<rparr>"

definition merge_failed :: "rstr \<Rightarrow> rstr list \<Rightarrow> merge_result" where
  "merge_failed canonical_uuid errors =
     \<lparr>mr_success = False, mr_canonical_uuid = canonical_uuid, mr_merged_count = 0, mr_skipped = 0, mr_edges_rewritten = 0,
      mr_edges_deduplicated = 0, mr_foreign_edges_skipped = 0, mr_errors = errors, mr_plan = None\<rparr>"

definition LIMINIS :: rstr where
  "LIMINIS = lit ''liminis''"

definition merge_group :: "merge_params \<Rightarrow> rstr" where
  "merge_group P = (if mp_group_id P = [] then LIMINIS else mp_group_id P)"

section \<open>The canonical entity\<close>

definition ambiguity_error :: "rstr \<Rightarrow> rstr \<Rightarrow> entity_row list \<Rightarrow> error" where
  "ambiguity_error name group_id candidates = AmbiguousEntity name group_id (map (\<lambda>r. (er_uuid r, er_kind r)) candidates)"

definition NEVER_FOREIGN :: rstr where
  "NEVER_FOREIGN = [32, 8212] @ lit '' merge never writes another group'' @ [39] @ lit ''s data''"

definition canonical_by_uuid :: "lbug_env \<Rightarrow> 'd lbug_engine \<Rightarrow> rstr \<Rightarrow> ('d cstate, merge_result + entity_row) act" where
  "canonical_by_uuid L E uuid =
     atry (abind (get_entity_by_uuid L E uuid) (\<lambda>e. aret (case e of
              Some row \<Rightarrow> Inr row
            | None \<Rightarrow> Inl (merge_failed [] [lit ''canonical entity not found: uuid='' @ uuid]))))
       (\<lambda>e. aret (Inl (merge_failed [] [lit ''canonical lookup failed: '' @ show_error L e])))"

definition pick_canonical :: "lbug_env \<Rightarrow> rstr \<Rightarrow> rstr \<Rightarrow> entity_row list \<Rightarrow> merge_result + entity_row" where
  "pick_canonical L name group_id all_rows =
     (let rows = filter (\<lambda>r. MERGED \<notin> set (er_labels r)) all_rows in
      if \<exists>r \<in> set rows. er_kind r \<noteq> er_kind (hd rows)
      then Inl (merge_failed [] [show_error L (ambiguity_error name group_id rows) @ [32, 8212] @ lit '' pass `kind` to select one''])
      else if rows = [] then Inl (merge_failed [] [lit ''canonical entity not found: name='' @ name @ lit '', group='' @ group_id])
      else Inr (hd rows))"

definition canonical_by_name :: "lbug_env \<Rightarrow> 'd lbug_engine \<Rightarrow> rstr \<Rightarrow> rstr \<Rightarrow> rstr option \<Rightarrow> ('d cstate, merge_result + entity_row) act" where
  "canonical_by_name L E name group_id kind =
     atry (abind (get_entities_by_name_all L E name group_id kind) (\<lambda>rows. aret (pick_canonical L name group_id rows)))
       (\<lambda>e. aret (Inl (merge_failed [] [lit ''canonical lookup failed: '' @ show_error L e])))"

definition check_canonical :: "rstr \<Rightarrow> entity_row \<Rightarrow> merge_result + entity_row" where
  "check_canonical group_id canonical =
     (if MERGED \<in> set (er_labels canonical)
      then Inl (merge_failed (er_uuid canonical) [lit ''canonical entity is already merged'' @ [32, 8212] @ lit '' cannot use as merge target''])
      else if er_group_id canonical \<noteq> group_id
      then Inl (merge_failed (er_uuid canonical)
             [lit ''canonical entity '' @ er_uuid canonical @ lit '' belongs to group '' @ single_quoted (er_group_id canonical)
                @ lit '', foreign to the requested merge group '' @ single_quoted group_id @ NEVER_FOREIGN])
      else Inr canonical)"

section \<open>The aliases\<close>

type_synonym alias_map = "(rstr \<times> entity_row) list"

definition or_insert :: "rstr \<Rightarrow> entity_row \<Rightarrow> alias_map \<Rightarrow> alias_map" where
  "or_insert uuid row m = (if map_of m uuid = None then m @ [(uuid, row)] else m)"

definition keep_row :: "rstr \<Rightarrow> entity_row \<Rightarrow> alias_map \<Rightarrow> alias_map" where
  "keep_row canonical_uuid row m = (if er_uuid row \<noteq> canonical_uuid then or_insert (er_uuid row) row m else m)"

definition foreign_alias_msg :: "rstr \<Rightarrow> entity_row \<Rightarrow> rstr" where
  "foreign_alias_msg group_id row =
     lit ''alias uuid '' @ er_uuid row @ lit '' belongs to group '' @ single_quoted (er_group_id row)
       @ lit '', foreign to the requested merge group '' @ single_quoted group_id @ NEVER_FOREIGN"

fun take_uuid_rows :: "rstr \<Rightarrow> rstr \<Rightarrow> entity_row list \<Rightarrow> alias_map \<times> rstr list \<times> rstr set \<Rightarrow> alias_map \<times> rstr list \<times> rstr set" where
  "take_uuid_rows canonical_uuid group_id [] acc = acc"
| "take_uuid_rows canonical_uuid group_id (row # rows) (m, errors, foreign) =
     take_uuid_rows canonical_uuid group_id rows
       (if er_uuid row = canonical_uuid then (m, errors, foreign)
        else if er_group_id row \<noteq> group_id then (m, errors @ [foreign_alias_msg group_id row], insert (er_uuid row) foreign)
        else (AList.update (er_uuid row) row m, errors, foreign))"

definition aliases_by_uuid ::
  "lbug_env \<Rightarrow> 'd lbug_engine \<Rightarrow> rstr \<Rightarrow> rstr \<Rightarrow> rstr list \<Rightarrow> ('d cstate, alias_map \<times> rstr list) act" where
  "aliases_by_uuid L E canonical_uuid group_id alias_uuids =
     (if alias_uuids = [] then aret ([], [])
      else atry (abind (get_entities_by_uuids L E alias_uuids) (\<lambda>rows.
             aret (let (m, errors, foreign) = take_uuid_rows canonical_uuid group_id rows ([], [], {}) in
               (m, errors @ map (\<lambda>u. lit ''alias uuid not found: '' @ u)
                 (filter (\<lambda>u. u \<noteq> canonical_uuid \<and> map_of m u = None \<and> u \<notin> foreign) alias_uuids)))))
           (\<lambda>e. aret ([], [lit ''alias UUID lookup failed: '' @ show_error L e])))"

fun aliases_by_name ::
  "lbug_env \<Rightarrow> 'd lbug_engine \<Rightarrow> rstr \<Rightarrow> rstr \<Rightarrow> rstr option \<Rightarrow> rstr list \<Rightarrow> alias_map \<times> rstr list \<Rightarrow> ('d cstate, alias_map \<times> rstr list) act" where
  "aliases_by_name L E canonical_uuid group_id kind [] acc = aret acc"
| "aliases_by_name L E canonical_uuid group_id kind (name # names) (m, errors) =
     abind (atry (abind (get_entities_by_name_all L E name group_id kind) (\<lambda>rows.
              aret (fold (keep_row canonical_uuid) rows m,
                errors @ (if rows = [] then [lit ''alias name '' @ single_quoted name @ lit '' matches no entities in group '' @ single_quoted group_id] else []))))
            (\<lambda>e. aret (m, errors @ [lit ''alias name lookup failed for '' @ single_quoted name @ lit '': '' @ show_error L e]))) (\<lambda>acc.
     aliases_by_name L E canonical_uuid group_id kind names acc)"

definition aliases_all_by_name ::
  "lbug_env \<Rightarrow> 'd lbug_engine \<Rightarrow> entity_row \<Rightarrow> rstr \<Rightarrow> bool \<Rightarrow> alias_map \<times> rstr list \<Rightarrow> ('d cstate, alias_map \<times> rstr list) act" where
  "aliases_all_by_name L E canonical group_id merge_all acc =
     (if \<not> merge_all then aret acc
      else atry (abind (get_entities_by_name_all L E (er_name canonical) group_id (Some (er_kind canonical))) (\<lambda>rows.
             aret (fold (keep_row (er_uuid canonical)) rows (fst acc), snd acc)))
           (\<lambda>e. aret (fst acc, snd acc @ [lit ''merge_all_by_name lookup failed: '' @ show_error L e])))"

definition expand_aliases :: "lbug_env \<Rightarrow> 'd lbug_engine \<Rightarrow> entity_row \<Rightarrow> merge_params \<Rightarrow> ('d cstate, alias_map \<times> rstr list) act" where
  "expand_aliases L E canonical P =
     abind (aliases_by_uuid L E (er_uuid canonical) (merge_group P) (mp_alias_uuids P)) (\<lambda>acc.
     abind (aliases_by_name L E (er_uuid canonical) (merge_group P) (mp_kind P) (mp_alias_names P) acc) (\<lambda>acc.
     aliases_all_by_name L E canonical (merge_group P) (mp_merge_all_by_name P) acc))"

text \<open>The kinds in the order in which the values of the hash map come, which is the parameter \<open>ho\<close>.\<close>

definition merge_kinds :: "(alias_map \<Rightarrow> entity_row list) \<Rightarrow> entity_row \<Rightarrow> alias_map \<Rightarrow> rstr list" where
  "merge_kinds ho canonical m =
     fold (\<lambda>a kinds. if er_kind a \<in> set kinds then kinds else kinds @ [er_kind a]) (ho m) [er_kind canonical]"

definition kinds_msg :: "entity_row \<Rightarrow> rstr list \<Rightarrow> rstr" where
  "kinds_msg canonical kinds =
     lit ''refusing to merge entities of different kinds: canonical '' @ er_uuid canonical @ lit '' is kind '' @ single_quoted (er_kind canonical)
       @ lit '', aliases include kind(s) '' @ str_join (lit '', '') (map single_quoted (tl kinds))
       @ [32, 8212] @ lit '' merges never cross kinds; nothing was modified''"

section \<open>Moving the edges of an alias\<close>

definition replaced :: "rstr \<Rightarrow> rstr \<Rightarrow> rstr \<Rightarrow> rstr" where
  "replaced alias_uuid canonical_uuid u = (if u = alias_uuid then canonical_uuid else u)"

definition moved_edge :: "rstr \<Rightarrow> rstr \<Rightarrow> rstr \<Rightarrow> relates_to_edge \<Rightarrow> relates_to_edge" where
  "moved_edge new_uuid new_src new_dst old =
     \<lparr>re_uuid = new_uuid, re_name = re_name old, re_source_node_uuid = new_src, re_target_node_uuid = new_dst, re_group_id = re_group_id old,
      re_fact = re_fact old, re_fact_embedding = re_fact_embedding old, re_created_at = re_created_at old, re_ingested_at = re_ingested_at old,
      re_valid_at = re_valid_at old, re_invalid_at = None, re_attributes = re_attributes old, re_relation_type = re_relation_type old,
      re_episode_uuids = [], re_source_descriptions = []\<rparr>"

fun merge_edges ::
  "lbug_env \<Rightarrow> 'd lbug_engine \<Rightarrow> (rstr \<Rightarrow> rstr) \<Rightarrow> rstr \<Rightarrow> rstr \<Rightarrow> rstr \<Rightarrow> rstr \<Rightarrow> bool \<Rightarrow> relates_to_edge list \<Rightarrow> merge_edge_counts
     \<Rightarrow> ('d cstate, merge_edge_counts) act" where
  "merge_edges L E mint canonical_uuid alias_uuid group_id ts dry_run [] counts = aret counts"
| "merge_edges L E mint canonical_uuid alias_uuid group_id ts dry_run (old # edges) counts =
     (if re_invalid_at old \<noteq> None then merge_edges L E mint canonical_uuid alias_uuid group_id ts dry_run edges counts
      else if re_group_id old \<noteq> group_id
      then merge_edges L E mint canonical_uuid alias_uuid group_id ts dry_run edges (counts\<lparr>mc_foreign_skipped := mc_foreign_skipped counts + 1\<rparr>)
      else
        (let new_src = replaced alias_uuid canonical_uuid (re_source_node_uuid old);
             new_dst = replaced alias_uuid canonical_uuid (re_target_node_uuid old)
         in if new_src = new_dst
            then abind (awhen (\<not> dry_run) (invalidate_edge L E (re_uuid old) ts)) (\<lambda>_.
                 merge_edges L E mint canonical_uuid alias_uuid group_id ts dry_run edges counts)
            else abind (has_directed_edge L E new_src new_dst (re_name old) (re_group_id old)) (\<lambda>present.
                 if present
                 then abind (awhen (\<not> dry_run) (invalidate_edge L E (re_uuid old) ts)) (\<lambda>_.
                      merge_edges L E mint canonical_uuid alias_uuid group_id ts dry_run edges (counts\<lparr>mc_deduped := mc_deduped counts + 1\<rparr>))
                 else abind (awhen (\<not> dry_run)
                        (abind (insert_relates_to_edge L E (moved_edge (mint (re_uuid old)) new_src new_dst old)) (\<lambda>_.
                         invalidate_edge L E (re_uuid old) ts))) (\<lambda>_.
                      merge_edges L E mint canonical_uuid alias_uuid group_id ts dry_run edges
                        (counts\<lparr>mc_rewritten := mc_rewritten counts + 1\<rparr>)))))"

definition merge_entities_inner ::
  "lbug_env \<Rightarrow> 'd lbug_engine \<Rightarrow> (rstr \<Rightarrow> rstr) \<Rightarrow> rstr \<Rightarrow> entity_row \<Rightarrow> rstr \<Rightarrow> rstr \<Rightarrow> bool \<Rightarrow> ('d cstate, merge_edge_counts) act" where
  "merge_entities_inner L E mint canonical_uuid al group_id ts dry_run =
     abind (get_full_edges_for_entity L E (er_uuid al)) (\<lambda>edges.
     merge_edges L E mint canonical_uuid (er_uuid al) group_id ts dry_run edges no_edge_counts)"

section \<open>The whole merge\<close>

record merge_state =
  mt_merged :: nat
  mt_skipped :: nat
  mt_counts :: merge_edge_counts
  mt_plan_aliases :: "alias_info list"
  mt_earliest :: rstr
  mt_errors :: "rstr list"

definition attempt :: "('s, 'a) act \<Rightarrow> ('s, 'a result) act" where
  "attempt m = atry (abind m (\<lambda>x. aret (Inr x))) (\<lambda>e. aret (Inl e))"

definition add_counts :: "merge_edge_counts \<Rightarrow> merge_edge_counts \<Rightarrow> merge_edge_counts" where
  "add_counts a b = \<lparr>mc_rewritten = mc_rewritten a + mc_rewritten b, mc_deduped = mc_deduped a + mc_deduped b,
     mc_foreign_skipped = mc_foreign_skipped a + mc_foreign_skipped b\<rparr>"

definition add_error :: "lbug_env \<Rightarrow> rstr \<Rightarrow> 'a result \<Rightarrow> merge_state \<Rightarrow> merge_state" where
  "add_error L what r st = (case r of Inl e \<Rightarrow> st\<lparr>mt_errors := mt_errors st @ [what @ show_error L e]\<rparr> | Inr _ \<Rightarrow> st)"

definition merged_labels :: "rstr list \<Rightarrow> rstr list" where
  "merged_labels labels = (if MERGED \<in> set labels then labels else labels @ [MERGED])"

definition mark_alias ::
  "json_text \<Rightarrow> lbug_env \<Rightarrow> 'd lbug_engine \<Rightarrow> rstr \<Rightarrow> entity_row \<Rightarrow> merge_state \<Rightarrow> ('d cstate, merge_state) act" where
  "mark_alias J L E canonical_uuid al st =
     abind (attempt (update_entity_labels L E (er_uuid al) (merged_labels (er_labels al)))) (\<lambda>r1.
     abind (attempt (update_entity_attributes L E (er_uuid al) (write_merged_into J (er_attributes al) canonical_uuid))) (\<lambda>r2.
       let st = add_error L (lit ''failed to mark alias '' @ er_uuid al @ lit '' as merged: '') r1 st;
           st = add_error L (lit ''failed to record merged_into for alias '' @ er_uuid al @ lit '': '') r2 st
       in aret (if er_created_at al \<noteq> [] \<and> er_created_at al < mt_earliest st then st\<lparr>mt_earliest := er_created_at al\<rparr> else st)))"

definition plan_alias :: "entity_row \<Rightarrow> merge_edge_counts \<Rightarrow> alias_info" where
  "plan_alias al counts = \<lparr>ai_uuid = er_uuid al, ai_name = er_name al, ai_active_edges = mc_rewritten counts,
     ai_duplicate_edges = mc_deduped counts, ai_foreign_edges_skipped = mc_foreign_skipped counts\<rparr>"

definition merge_alias ::
  "json_text \<Rightarrow> lbug_env \<Rightarrow> 'd lbug_engine \<Rightarrow> (rstr \<Rightarrow> rstr \<Rightarrow> rstr) \<Rightarrow> rstr \<Rightarrow> rstr \<Rightarrow> rstr \<Rightarrow> bool \<Rightarrow> entity_row \<Rightarrow> merge_state \<Rightarrow> ('d cstate, merge_state) act" where
  "merge_alias J L E mint canonical_uuid group_id ts dry_run al st =
     (if MERGED \<in> set (er_labels al) then aret (st\<lparr>mt_skipped := mt_skipped st + 1\<rparr>)
      else abind (attempt (merge_entities_inner L E (mint (er_uuid al)) canonical_uuid al group_id ts dry_run)) (\<lambda>r.
        case r of
          Inl e \<Rightarrow> aret (st\<lparr>mt_errors := mt_errors st @ [lit ''merge failed for alias '' @ er_uuid al @ lit '': '' @ show_error L e]\<rparr>)
        | Inr counts \<Rightarrow>
            (let st = st\<lparr>mt_counts := add_counts (mt_counts st) counts\<rparr> in
             abind (if dry_run then aret (st\<lparr>mt_plan_aliases := mt_plan_aliases st @ [plan_alias al counts]\<rparr>)
                    else mark_alias J L E canonical_uuid al st) (\<lambda>st.
             aret (st\<lparr>mt_merged := mt_merged st + 1\<rparr>)))))"

fun merge_aliases ::
  "json_text \<Rightarrow> lbug_env \<Rightarrow> 'd lbug_engine \<Rightarrow> (rstr \<Rightarrow> rstr \<Rightarrow> rstr) \<Rightarrow> rstr \<Rightarrow> rstr \<Rightarrow> rstr \<Rightarrow> bool \<Rightarrow> entity_row list \<Rightarrow> merge_state \<Rightarrow> ('d cstate, merge_state) act" where
  "merge_aliases J L E mint canonical_uuid group_id ts dry_run [] st = aret st"
| "merge_aliases J L E mint canonical_uuid group_id ts dry_run (al # als) st =
     abind (merge_alias J L E mint canonical_uuid group_id ts dry_run al st) (\<lambda>st.
     merge_aliases J L E mint canonical_uuid group_id ts dry_run als st)"

definition soft_error :: "rstr \<Rightarrow> bool" where
  "soft_error e \<longleftrightarrow> str_contains e (lit ''not found'') \<or> str_contains e (lit ''matches no entities'')"

definition merge_report :: "bool \<Rightarrow> rstr \<Rightarrow> merge_state \<Rightarrow> merge_result" where
  "merge_report dry_run canonical_uuid st =
     \<lparr>mr_success = (\<forall>e \<in> set (mt_errors st). soft_error e), mr_canonical_uuid = canonical_uuid, mr_merged_count = mt_merged st,
      mr_skipped = mt_skipped st, mr_edges_rewritten = mc_rewritten (mt_counts st), mr_edges_deduplicated = mc_deduped (mt_counts st),
      mr_foreign_edges_skipped = mc_foreign_skipped (mt_counts st), mr_errors = mt_errors st,
      mr_plan = (if dry_run then Some \<lparr>pl_aliases = mt_plan_aliases st, pl_total_edges_rewritten = mc_rewritten (mt_counts st),
                   pl_total_edges_collapsed = mc_deduped (mt_counts st), pl_total_foreign_edges_skipped = mc_foreign_skipped (mt_counts st)\<rparr>
                 else None)\<rparr>"

definition merge_into ::
  "json_text \<Rightarrow> lbug_env \<Rightarrow> 'd lbug_engine \<Rightarrow> (rstr \<Rightarrow> rstr \<Rightarrow> rstr) \<Rightarrow> (alias_map \<Rightarrow> entity_row list) \<Rightarrow> merge_params \<Rightarrow> rstr \<Rightarrow> entity_row
     \<Rightarrow> alias_map \<times> rstr list \<Rightarrow> ('d cstate, merge_result) act" where
  "merge_into J L E mint ho P ts canonical acc =
     (let kinds = merge_kinds ho canonical (fst acc) in
      if length kinds > 1 then aret (merge_failed (er_uuid canonical) (snd acc @ [kinds_msg canonical kinds]))
      else abind (merge_aliases J L E mint (er_uuid canonical) (merge_group P) ts (mp_dry_run P) (sort_key er_uuid (ho (fst acc)))
                    \<lparr>mt_merged = 0, mt_skipped = 0, mt_counts = no_edge_counts, mt_plan_aliases = [], mt_earliest = er_created_at canonical,
                     mt_errors = snd acc\<rparr>) (\<lambda>st.
           abind (if \<not> mp_dry_run P \<and> mt_merged st > 0 \<and> mt_earliest st \<noteq> er_created_at canonical
                  then abind (attempt (update_entity_created_at L E (er_uuid canonical) (mt_earliest st))) (\<lambda>r.
                       aret (add_error L (lit ''failed to update canonical created_at: '') r st))
                  else aret st) (\<lambda>st.
           aret (merge_report (mp_dry_run P) (er_uuid canonical) st))))"

definition merge_entities ::
  "json_text \<Rightarrow> lbug_env \<Rightarrow> 'd lbug_engine \<Rightarrow> (rstr \<Rightarrow> rstr \<Rightarrow> rstr) \<Rightarrow> (alias_map \<Rightarrow> entity_row list) \<Rightarrow> merge_params \<Rightarrow> rstr \<Rightarrow> ('d cstate, merge_result) act" where
  "merge_entities J L E mint ho P ts =
     (if mp_canonical_uuid P = None \<and> mp_canonical_name P = None
      then aret (merge_failed [] [lit ''at least one of canonical_uuid or canonical_name must be provided''])
      else if mp_alias_uuids P = [] \<and> mp_alias_names P = [] \<and> \<not> mp_merge_all_by_name P
      then aret (merge_failed [] [lit ''at least one of alias_uuids, alias_names, or merge_all_by_name must be provided''])
      else abind (case mp_canonical_uuid P of
                    Some uuid \<Rightarrow> canonical_by_uuid L E uuid
                  | None \<Rightarrow> canonical_by_name L E (the (mp_canonical_name P)) (merge_group P) (mp_kind P)) (\<lambda>found.
             case rbind found (check_canonical (merge_group P)) of
               Inl res \<Rightarrow> aret res
             | Inr canonical \<Rightarrow>
                 abind (expand_aliases L E canonical P) (\<lambda>acc. merge_into J L E mint ho P ts canonical acc)))"

section \<open>The graph as the statements see it\<close>

text \<open>Entities and edges by their identifier; an edge stands for its node with its hops and for the direct relationship that
  carries the same identifier.\<close>

record gview =
  gv_entities :: "rstr \<Rightarrow> entity_row option"
  gv_edges :: "rstr \<Rightarrow> relates_to_edge option"

definition bound :: "(rstr \<times> lval) list \<Rightarrow> string \<Rightarrow> rstr \<Rightarrow> bool" where
  "bound b key x \<longleftrightarrow> map_of b (lit key) = Some (VString x)"

definition row_in :: "gview \<Rightarrow> entity_row \<Rightarrow> bool" where
  "row_in v r \<longleftrightarrow> (\<exists>e. gv_entities v (er_uuid r) = Some e \<and> er_group_id e = er_group_id r \<and> er_kind e = er_kind r)"

definition edge_in :: "gview \<Rightarrow> relates_to_edge \<Rightarrow> bool" where
  "edge_in v r \<longleftrightarrow> (\<exists>e. gv_edges v (re_uuid r) = Some e \<and> re_group_id e = re_group_id r)"

text \<open>Only the entity, or only the edge, with this identifier may change, and it stays in its group.\<close>

definition touches_entity :: "rstr \<Rightarrow> gview \<Rightarrow> gview \<Rightarrow> bool" where
  "touches_entity u v w \<longleftrightarrow> gv_edges w = gv_edges v \<and> (\<forall>k. k \<noteq> u \<longrightarrow> gv_entities w k = gv_entities v k)
     \<and> map_option er_group_id (gv_entities w u) = map_option er_group_id (gv_entities v u)"

definition touches_edge :: "rstr \<Rightarrow> gview \<Rightarrow> gview \<Rightarrow> bool" where
  "touches_edge u v w \<longleftrightarrow> gv_entities w = gv_entities v \<and> (\<forall>k. k \<noteq> u \<longrightarrow> gv_edges w k = gv_edges v k)
     \<and> map_option re_group_id (gv_edges w u) = map_option re_group_id (gv_edges v u)"

definition creates_edge :: "rstr \<Rightarrow> rstr \<Rightarrow> gview \<Rightarrow> gview \<Rightarrow> bool" where
  "creates_edge u g v w \<longleftrightarrow> gv_entities w = gv_entities v \<and> (\<forall>k. k \<noteq> u \<longrightarrow> gv_edges w k = gv_edges v k)
     \<and> (gv_edges w u = gv_edges v u \<or> (\<exists>e. gv_edges w u = Some e \<and> re_group_id e = g))"

definition MERGE_READS :: "rstr set" where
  "MERGE_READS = {ENTITY_BY_UUID, ENTITIES_BY_UUIDS, ENTITIES_BY_NAME, FULL_OUTGOING, FULL_INCOMING, ACTIVE_EDGE}"

definition graph_ok :: "lbug_env \<Rightarrow> 'd lbug_engine \<Rightarrow> ('d \<Rightarrow> gview) \<Rightarrow> bool" where
  "graph_ok L E V \<longleftrightarrow>
     fts_invisible E V
   \<and> (\<forall>q \<in> MERGE_READS. \<forall>b d. V (fst (en_execute E q b d)) = V d)
   \<and> (\<forall>b d rows. snd (en_execute E ENTITY_BY_UUID b d) = Inr rows \<longrightarrow> (\<forall>row \<in> set rows. \<exists>r. full_entity_of_row L row = Some r \<and> row_in (V d) r))
   \<and> (\<forall>b d rows. snd (en_execute E ENTITIES_BY_UUIDS b d) = Inr rows \<longrightarrow> (\<forall>row \<in> set rows. \<exists>r. entity_of_row L row = Some r \<and> row_in (V d) r))
   \<and> (\<forall>b d rows g. snd (en_execute E ENTITIES_BY_NAME b d) = Inr rows \<longrightarrow> bound b ''gid'' g
        \<longrightarrow> (\<forall>row \<in> set rows. \<exists>r. entity_of_row L row = Some r \<and> row_in (V d) r \<and> er_group_id r = g))
   \<and> (\<forall>q \<in> {FULL_OUTGOING, FULL_INCOMING}. \<forall>b d rows. snd (en_execute E q b d) = Inr rows
        \<longrightarrow> (\<forall>row \<in> set rows. \<exists>r. full_edge_of_row L row = Some r \<and> edge_in (V d) r))
   \<and> (\<forall>b d rows. snd (en_execute E ACTIVE_EDGE b d) = Inr rows \<longrightarrow> [] \<notin> set rows)
   \<and> (\<forall>q \<in> {SET_LABELS, SET_ENTITY_ATTRIBUTES, SET_CREATED_AT}. \<forall>b d u. bound b ''uuid'' u \<longrightarrow> touches_entity u (V d) (V (fst (en_execute E q b d))))
   \<and> (\<forall>q \<in> {SET_INVALID_AT, SET_REL_INVALID_AT, CREATE_DIRECT_REL}. \<forall>b d u. bound b ''uuid'' u
        \<longrightarrow> touches_edge u (V d) (V (fst (en_execute E q b d))))
   \<and> (\<forall>b d u. bound b ''rn'' u \<longrightarrow> touches_edge u (V d) (V (fst (en_execute E CREATE_HOPS b d))))
   \<and> (\<forall>b d u g. bound b ''uuid'' u \<longrightarrow> bound b ''group_id'' g \<longrightarrow> creates_edge u g (V d) (V (fst (en_execute E CREATE_RELATES_NODE b d))))"

section \<open>What a merge may touch\<close>

text \<open>The entities \<open>X\<close> and the edges \<open>Y\<close> belong to group \<open>g\<close>, as far as they exist.\<close>

definition own :: "rstr set \<Rightarrow> rstr set \<Rightarrow> rstr \<Rightarrow> gview \<Rightarrow> bool" where
  "own X Y g v \<longleftrightarrow> (\<forall>u \<in> X. \<forall>e. gv_entities v u = Some e \<longrightarrow> er_group_id e = g) \<and> (\<forall>u \<in> Y. \<forall>e. gv_edges v u = Some e \<longrightarrow> re_group_id e = g)"

definition only_own :: "rstr set \<Rightarrow> rstr \<Rightarrow> gview \<Rightarrow> gview \<Rightarrow> bool" where
  "only_own X g v w \<longleftrightarrow> (\<forall>u. u \<notin> X \<longrightarrow> gv_entities w u = gv_entities v u)
     \<and> (\<forall>u e. gv_edges v u = Some e \<longrightarrow> re_group_id e \<noteq> g \<longrightarrow> gv_edges w u = Some e)"

definition own_step :: "rstr set \<Rightarrow> rstr set \<Rightarrow> rstr \<Rightarrow> gview \<Rightarrow> gview \<Rightarrow> bool" where
  "own_step X Y g v w \<longleftrightarrow> (own X Y g v \<longrightarrow> own X Y g w \<and> only_own X g v w)"

interpretation own: view_frame V "own_step X Y g" for V :: "'d \<Rightarrow> gview" and X Y g
  by unfold_locales (auto simp: own_step_def only_own_def)

text \<open>An object that may be in group \<open>g\<close> only, before and after a step that changes one key.\<close>

lemma keyed_step:
  assumes k: "\<forall>k. k \<noteq> u \<longrightarrow> n k = m k" and u: "\<forall>e. n u = Some e \<longrightarrow> (\<exists>e'. m u = Some e' \<and> grp e = grp e') \<or> grp e = g"
    and U: "u \<in> U" and own: "\<forall>x \<in> U. \<forall>e. m x = Some e \<longrightarrow> grp e = g"
  shows "\<forall>x \<in> U. \<forall>e. n x = Some e \<longrightarrow> grp e = g"
proof (intro ballI allI impI)
  fix x e assume x: "x \<in> U" "n x = Some e"
  show "grp e = g"
  proof (cases "x = u")
    case True
    with u x(2) have "(\<exists>e'. m u = Some e' \<and> grp e = grp e') \<or> grp e = g" by simp
    then show ?thesis using own U by fastforce
  next
    case False
    with k x own show ?thesis by simp
  qed
qed

lemma keyed_foreign:
  assumes k: "\<forall>k. k \<noteq> u \<longrightarrow> n k = m k" and u: "u \<in> U" and own: "\<forall>x \<in> U. \<forall>e. m x = Some e \<longrightarrow> grp e = g"
  shows "m x = Some e \<longrightarrow> grp e \<noteq> g \<longrightarrow> n x = Some e"
  using assms by (cases "x = u") auto

lemma own_touches_entity:
  assumes t: "touches_entity u v w" and u: "u \<in> X"
  shows "own_step X Y g v w"
  unfolding own_step_def
proof
  assume o: "own X Y g v"
  have "\<forall>e. gv_entities w u = Some e \<longrightarrow> (\<exists>e'. gv_entities v u = Some e' \<and> er_group_id e = er_group_id e') \<or> er_group_id e = g"
    using t by (auto simp: touches_entity_def) (metis map_option_eq_Some option.simps(9))
  with t u o have "\<forall>x \<in> X. \<forall>e. gv_entities w x = Some e \<longrightarrow> er_group_id e = g"
    by (intro keyed_step [of u "gv_entities w" "gv_entities v"]) (auto simp: touches_entity_def own_def)
  with t u o show "own X Y g w \<and> only_own X g v w" by (auto simp: own_def only_own_def touches_entity_def)
qed

lemma own_edge_step:
  assumes e: "gv_entities w = gv_entities v" and k: "\<forall>k. k \<noteq> u \<longrightarrow> gv_edges w k = gv_edges v k"
    and g: "\<forall>e. gv_edges w u = Some e \<longrightarrow> (\<exists>e'. gv_edges v u = Some e' \<and> re_group_id e = re_group_id e') \<or> re_group_id e = g" and u: "u \<in> Y"
  shows "own_step X Y g v w"
  unfolding own_step_def
proof
  assume o: "own X Y g v"
  then have y: "\<forall>x \<in> Y. \<forall>e. gv_edges v x = Some e \<longrightarrow> re_group_id e = g" by (simp add: own_def)
  have "own X Y g w" using keyed_step [OF k g u y] o e by (simp add: own_def)
  moreover have "only_own X g v w" using keyed_foreign [OF k u y] e by (auto simp: only_own_def)
  ultimately show "own X Y g w \<and> only_own X g v w" ..
qed

lemma own_touches_edge: assumes t: "touches_edge u v w" and u: "u \<in> Y" shows "own_step X Y g v w"
proof (rule own_edge_step [OF _ _ _ u])
  show "\<forall>e. gv_edges w u = Some e \<longrightarrow> (\<exists>e'. gv_edges v u = Some e' \<and> re_group_id e = re_group_id e') \<or> re_group_id e = g"
    using t by (auto simp: touches_edge_def) (metis map_option_eq_Some option.simps(9))
qed (use t in \<open>simp_all add: touches_edge_def\<close>)

lemma own_creates_edge: assumes t: "creates_edge u g v w" and u: "u \<in> Y" shows "own_step X Y g v w"
  by (rule own_edge_step [OF _ _ _ u]) (use t in \<open>auto simp: creates_edge_def\<close>)

lemma bound_params:
  "bound (json_params_to_values L (JObj [(lit ''uuid'', JStr u), (lit ''labels'', x)])) ''uuid'' u"
  "bound (json_params_to_values L (JObj [(lit ''uuid'', JStr u), (lit ''attributes'', x)])) ''uuid'' u"
  "bound (json_params_to_values L (JObj [(lit ''uuid'', JStr u), (lit ''new_created_at'', x)])) ''uuid'' u"
  "bound (json_params_to_values L (JObj [(lit ''uuid'', JStr u), (lit ''invalid_at'', x)])) ''uuid'' u"
  "bound (json_params_to_values L (JObj [(lit ''name'', y), (lit ''gid'', JStr g)])) ''gid'' g"
  "bound (json_params_to_values L (JObj [(lit ''src'', y), (lit ''rn'', JStr u), (lit ''dst'', z)])) ''rn'' u"
  "bound (json_params_to_values L (relates_node_params L e)) ''uuid'' (re_uuid e)"
  "bound (json_params_to_values L (relates_node_params L e)) ''group_id'' (re_group_id e)"
  "bound (json_params_to_values L (direct_rel_params e)) ''uuid'' (re_uuid e)"
  by (simp_all add: bound_def json_params_to_values_def json_value_for_param_def TIMESTAMP_PARAM_NAMES_def relates_node_params_def
      direct_rel_params_def)

lemma graph_rows:
  assumes "graph_ok L E V"
  shows by_uuid_row: "snd (en_execute E ENTITY_BY_UUID b d) = Inr rows \<Longrightarrow> row \<in> set rows \<Longrightarrow> \<exists>r. full_entity_of_row L row = Some r \<and> row_in (V d) r"
    and by_uuids_row: "snd (en_execute E ENTITIES_BY_UUIDS b d) = Inr rows \<Longrightarrow> row \<in> set rows \<Longrightarrow> \<exists>r. entity_of_row L row = Some r \<and> row_in (V d) r"
    and by_name_row: "snd (en_execute E ENTITIES_BY_NAME b d) = Inr rows \<Longrightarrow> bound b ''gid'' g \<Longrightarrow> row \<in> set rows
      \<Longrightarrow> \<exists>r. entity_of_row L row = Some r \<and> row_in (V d) r \<and> er_group_id r = g"
    and edge_row: "q \<in> {FULL_OUTGOING, FULL_INCOMING} \<Longrightarrow> snd (en_execute E q b d) = Inr rows \<Longrightarrow> row \<in> set rows
      \<Longrightarrow> \<exists>r. full_edge_of_row L row = Some r \<and> edge_in (V d) r"
proof -
  note ok = assms [unfolded graph_ok_def]
  show "snd (en_execute E ENTITY_BY_UUID b d) = Inr rows \<Longrightarrow> row \<in> set rows \<Longrightarrow> \<exists>r. full_entity_of_row L row = Some r \<and> row_in (V d) r"
    using ok by simp
  show "snd (en_execute E ENTITIES_BY_UUIDS b d) = Inr rows \<Longrightarrow> row \<in> set rows \<Longrightarrow> \<exists>r. entity_of_row L row = Some r \<and> row_in (V d) r"
    using ok by simp
  show "snd (en_execute E ENTITIES_BY_NAME b d) = Inr rows \<Longrightarrow> bound b ''gid'' g \<Longrightarrow> row \<in> set rows
      \<Longrightarrow> \<exists>r. entity_of_row L row = Some r \<and> row_in (V d) r \<and> er_group_id r = g"
    using ok by simp
  show "q \<in> {FULL_OUTGOING, FULL_INCOMING} \<Longrightarrow> snd (en_execute E q b d) = Inr rows \<Longrightarrow> row \<in> set rows
      \<Longrightarrow> \<exists>r. full_edge_of_row L row = Some r \<and> edge_in (V d) r"
    using ok by (cases "q = FULL_OUTGOING") simp_all
qed

lemma reads_frame:
  assumes "graph_ok L E V" "q \<in> MERGE_READS"
  shows "frames (on_view V (=)) (query_params L E q p)" "frames (on_view V (own_step X Y g)) (query_params L E q p)"
proof -
  have v: "V (fst (en_execute E q b d)) = V d" for b d using assms by (simp add: graph_ok_def)
  show "frames (on_view V (=)) (query_params L E q p)" by (rule same.view_query_params) (simp add: v)
  show "frames (on_view V (own_step X Y g)) (query_params L E q p)" by (rule own.view_query_params) (simp add: v own.view_refl)
qed

lemma own_entity_exec:
  assumes ok: "graph_ok L E V" and q: "q \<in> {SET_LABELS, SET_ENTITY_ATTRIBUTES, SET_CREATED_AT}" and u: "u \<in> X"
    and b: "bound (json_params_to_values L p) ''uuid'' u"
  shows "frames (on_view V (own_step X Y g)) (exec_params L E q p)"
proof (rule own.view_exec_params)
  fix d
  have "touches_entity u (V d) (V (fst (en_execute E q (json_params_to_values L p) d)))"
    using ok q b unfolding graph_ok_def by blast
  then show "own_step X Y g (V d) (V (fst (en_execute E q (json_params_to_values L p) d)))" using u by (rule own_touches_entity)
qed (use ok in \<open>simp add: graph_ok_def\<close>)

lemma own_edge_exec:
  assumes ok: "graph_ok L E V" and u: "u \<in> Y"
    and q: "q \<in> {SET_INVALID_AT, SET_REL_INVALID_AT, CREATE_DIRECT_REL} \<and> bound (json_params_to_values L p) ''uuid'' u
      \<or> q = CREATE_HOPS \<and> bound (json_params_to_values L p) ''rn'' u"
  shows "frames (on_view V (own_step X Y g)) (exec_params L E q p)"
proof (rule own.view_exec_params)
  fix d
  have "touches_edge u (V d) (V (fst (en_execute E q (json_params_to_values L p) d)))"
    using ok q unfolding graph_ok_def by blast
  then show "own_step X Y g (V d) (V (fst (en_execute E q (json_params_to_values L p) d)))" using u by (rule own_touches_edge)
qed (use ok in \<open>simp add: graph_ok_def\<close>)

lemma own_node_exec:
  assumes ok: "graph_ok L E V" and u: "re_uuid e \<in> Y" and g: "re_group_id e = g"
  shows "frames (on_view V (own_step X Y g)) (exec_params L E CREATE_RELATES_NODE (relates_node_params L e))"
proof (rule own.view_exec_params)
  fix d
  let ?b = "json_params_to_values L (relates_node_params L e)"
  have "creates_edge (re_uuid e) g (V d) (V (fst (en_execute E CREATE_RELATES_NODE ?b d)))"
    using ok bound_params(7,8) [of L e] g unfolding graph_ok_def by blast
  then show "own_step X Y g (V d) (V (fst (en_execute E CREATE_RELATES_NODE ?b d)))" using u by (rule own_creates_edge)
qed (use ok in \<open>simp add: graph_ok_def\<close>)

lemma own_labels: "graph_ok L E V \<Longrightarrow> u \<in> X \<Longrightarrow> frames (on_view V (own_step X Y g)) (update_entity_labels L E u ls)"
  unfolding update_entity_labels_def by (rule own_entity_exec) (auto intro: bound_params simp del: lit_Cons)

lemma own_attributes: "graph_ok L E V \<Longrightarrow> u \<in> X \<Longrightarrow> frames (on_view V (own_step X Y g)) (update_entity_attributes L E u a)"
  unfolding update_entity_attributes_def by (rule own_entity_exec) (auto intro: bound_params simp del: lit_Cons)

lemma own_created_at: "graph_ok L E V \<Longrightarrow> u \<in> X \<Longrightarrow> frames (on_view V (own_step X Y g)) (update_entity_created_at L E u a)"
  unfolding update_entity_created_at_def by (rule own_entity_exec) (auto intro: bound_params simp del: lit_Cons)

lemma own_invalidate: "graph_ok L E V \<Longrightarrow> u \<in> Y \<Longrightarrow> frames (on_view V (own_step X Y g)) (invalidate_edge L E u ts)"
  unfolding invalidate_edge_def Let_def
  by (intro own.bind own.ignore own_edge_exec) (auto intro: bound_params simp del: lit_Cons)

lemma own_insert: "graph_ok L E V \<Longrightarrow> re_uuid e \<in> Y \<Longrightarrow> re_group_id e = g
    \<Longrightarrow> frames (on_view V (own_step X Y g)) (insert_relates_to_edge L E e)"
  unfolding insert_relates_to_edge_def
  by (intro own.bind own_node_exec own_edge_exec [of L E V "re_uuid e"]) (auto intro: bound_params simp del: lit_Cons)

lemma own_has_edge: "graph_ok L E V \<Longrightarrow> frames (on_view V (own_step X Y g)) (has_directed_edge L E a b n h)"
  unfolding has_directed_edge_def find_active_relates_to_uuid_def
  by (intro own.bind own.ret own.decode_first reads_frame) (simp_all add: MERGE_READS_def)

lemma own_merge_edges:
  assumes ok: "graph_ok L E V" and Y: "\<forall>e \<in> set es. re_group_id e = g \<longrightarrow> re_uuid e \<in> Y" and m: "range mint \<subseteq> Y"
  shows "frames (on_view V (own_step X Y g)) (merge_edges L E mint c a g ts dry es counts)"
  using Y
proof (induction es arbitrary: counts)
  case (Cons e es)
  have rest: "frames (on_view V (own_step X Y g)) (merge_edges L E mint c a g ts dry es counts)" for counts
    using Cons.prems by (intro Cons.IH) simp
  show ?case
  proof (cases "re_invalid_at e = None \<and> re_group_id e = g")
    case False
    with rest show ?thesis by (auto simp del: not_None_eq)
  next
    case True
    have i: "frames (on_view V (own_step X Y g)) (invalidate_edge L E (re_uuid e) ts)"
      using Cons.prems True by (intro own_invalidate ok) simp
    have n: "frames (on_view V (own_step X Y g)) (insert_relates_to_edge L E (moved_edge (mint (re_uuid e)) x y e))" for x y
      using m True by (intro own_insert ok) (auto simp: moved_edge_def)
    from True show ?thesis
      unfolding merge_edges.simps Let_def by (intro frames_if own.bind own.cond own_has_edge [OF ok] i n rest)
  qed
qed (simp add: own.ret)

text \<open>The edges of an alias are read first: those of group \<open>g\<close> are then known to belong to it.\<close>

lemma full_edges_result:
  assumes ok: "graph_ok L E V" and r: "get_full_edges_for_entity L E u s = Some (s', Inr es)"
  shows "V (cs_db s') = V (cs_db s) \<and> (\<forall>e \<in> set es. edge_in (V (cs_db s)) e)"
proof -
  have one: "V (cs_db t') = V (cs_db t) \<and> (\<forall>e \<in> set xs. edge_in (V (cs_db t)) e)"
    if c: "collect_full_relates_to_edges L E q p t = Some (t', Inr xs)" and q: "q \<in> {FULL_OUTGOING, FULL_INCOMING}" for q p t t' xs
  proof -
    from decoded_result [OF c [unfolded collect_full_relates_to_edges_def]] obtain rows where
      rows: "query_params L E q p t = Some (t', Inr rows)" "map (full_edge_of_row L) rows = map Some xs" by blast
    have "on_view V (=) t t'" using q by (intro framesD [OF reads_frame(1) [OF ok] rows(1)]) (auto simp: MERGE_READS_def)
    moreover have "\<forall>row \<in> set rows. \<exists>r. full_edge_of_row L row = Some r \<and> edge_in (V (cs_db t)) r"
      using edge_row [OF ok q query_result [OF rows(1)]] by blast
    moreover have "\<exists>row \<in> set rows. full_edge_of_row L row = Some x" if "x \<in> set xs" for x
      using that rows(2) by (metis (no_types, lifting) imageE image_eqI list.set_map)
    ultimately show ?thesis by (fastforce simp: on_view_def)
  qed
  from r [unfolded get_full_edges_for_entity_def] obtain t xs ys where
    "collect_full_relates_to_edges L E FULL_OUTGOING (JObj [(lit ''uuid'', JStr u)]) s = Some (t, Inr xs)"
    "collect_full_relates_to_edges L E FULL_INCOMING (JObj [(lit ''uuid'', JStr u)]) t = Some (s', Inr ys)" "es = xs @ ys"
    by (auto simp: aret_def elim!: bind_result simp del: lit_Cons)
  with one [of FULL_OUTGOING _ s t xs] one [of FULL_INCOMING _ t s' ys] show ?thesis by auto
qed

lemma own_full_edges: "graph_ok L E V \<Longrightarrow> frames (on_view V (own_step X Y g)) (get_full_edges_for_entity L E u)"
  unfolding get_full_edges_for_entity_def collect_full_relates_to_edges_def
  by (intro own.bind own.ret own.decode reads_frame) (simp_all add: MERGE_READS_def)

lemma own_inner:
  assumes ok: "graph_ok L E V" and m: "range mint \<subseteq> Y"
  shows "frames (on_view V (own_step X Y g)) (merge_entities_inner L E mint c al g ts dry)"
proof (rule framesI)
  fix s s' r assume "merge_entities_inner L E mint c al g ts dry s = Some (s', r)"
  then show "on_view V (own_step X Y g) s s'" unfolding merge_entities_inner_def
  proof (cases rule: bind_run)
    case (err e)
    then show ?thesis using own_full_edges [OF ok] by (blast intro: framesD)
  next
    case (val t es)
    let ?Y = "Y \<union> {re_uuid e | e. e \<in> set es \<and> re_group_id e = g}"
    from full_edges_result [OF ok val(1)] have v: "V (cs_db t) = V (cs_db s)" and es: "\<forall>e \<in> set es. edge_in (V (cs_db t)) e" by auto
    have step: "on_view V (own_step X ?Y g) t s'"
      using m by (intro framesD [OF own_merge_edges [OF ok] val(2)]) auto
    have "own X ?Y g (V (cs_db t))" if o: "own X Y g (V (cs_db t))"
    proof -
      have "re_group_id e = g" if u: "u \<in> ?Y" "gv_edges (V (cs_db t)) u = Some e" for u e
      proof (cases "u \<in> Y")
        case False
        with u(1) obtain e' where "e' \<in> set es" "re_group_id e' = g" "u = re_uuid e'" by blast
        with es u(2) show ?thesis unfolding edge_in_def by fastforce
      qed (use o u(2) in \<open>simp add: own_def\<close>)
      with o show ?thesis unfolding own_def by blast
    qed
    moreover have "own X Y g (V (cs_db s'))" if "own X ?Y g (V (cs_db s'))" using that unfolding own_def by blast
    ultimately show ?thesis using step unfolding on_view_def own_step_def v by blast
  qed
qed

context act_frame
begin

lemma attempted: "frames R m \<Longrightarrow> frames R (attempt m)"
  unfolding attempt_def by (intro catch bind ret)

end

lemma own_mark:
  assumes ok: "graph_ok L E V" and u: "er_uuid al \<in> X"
  shows "frames (on_view V (own_step X Y g)) (mark_alias J L E c al st)"
  unfolding mark_alias_def Let_def
  by (intro own.bind own.attempted own.ret own_labels own_attributes ok u)

lemma own_alias:
  assumes ok: "graph_ok L E V" and u: "er_uuid al \<in> X" and m: "\<forall>a. range (mint a) \<subseteq> Y"
  shows "frames (on_view V (own_step X Y g)) (merge_alias J L E mint c g ts dry al st)"
proof -
  have "frames (on_view V (own_step X Y g)) (attempt (merge_entities_inner L E (mint (er_uuid al)) c al g ts dry))"
    using m by (intro own.attempted own_inner ok) simp
  then show ?thesis
    unfolding merge_alias_def Let_def
    by (intro frames_if own.bind own.ret) (auto intro!: frames_if own.bind own.ret own_mark [OF ok u] split: sum.split)
qed

lemma own_aliases:
  assumes "graph_ok L E V" "\<forall>al \<in> set als. er_uuid al \<in> X" "\<forall>a. range (mint a) \<subseteq> Y"
  shows "frames (on_view V (own_step X Y g)) (merge_aliases J L E mint c g ts dry als st)"
  using assms(2) by (induction als arbitrary: st) (auto intro!: own.bind own.ret own_alias assms(1,3))

lemma own_into:
  assumes ok: "graph_ok L E V" and c: "er_uuid c \<in> X" and a: "\<forall>al \<in> set (ho (fst acc)). er_uuid al \<in> X" and m: "\<forall>a. range (mint a) \<subseteq> Y"
  shows "frames (on_view V (own_step X Y (merge_group P))) (merge_into J L E mint ho P ts c acc)"
proof -
  have "frames (on_view V (own_step X Y (merge_group P))) (merge_aliases J L E mint (er_uuid c) (merge_group P) ts dry (sort_key er_uuid (ho (fst acc))) st)" for dry st
    using a by (intro own_aliases ok m) simp
  then show ?thesis
    unfolding merge_into_def Let_def
    by (intro frames_if own.bind own.ret own.attempted own_created_at ok c)
qed

section \<open>Which entities are merged\<close>

definition alias_ok :: "gview \<Rightarrow> rstr \<Rightarrow> alias_map \<Rightarrow> bool" where
  "alias_ok v g m \<longleftrightarrow> (\<forall>(u, r) \<in> set m. u = er_uuid r \<and> row_in v r \<and> er_group_id r = g)"

lemma decoded_rows:
  assumes r: "decoded f (query_params L E q p) s = Some (s', Inr xs)" and x: "x \<in> set xs"
  shows "\<exists>rows. snd (en_execute E q (json_params_to_values L p) (cs_db s)) = Inr rows \<and> (\<exists>row \<in> set rows. f row = Some x)"
proof -
  from decoded_result [OF r] obtain rows where rows: "query_params L E q p s = Some (s', Inr rows)" "map f rows = map Some xs" by blast
  have "\<exists>row \<in> set rows. f row = Some x" using x rows(2) by (metis (no_types, lifting) imageE image_eqI list.set_map)
  with query_result [OF rows(1)] show ?thesis by blast
qed

lemma by_name_rows:
  assumes ok: "graph_ok L E V" and r: "get_entities_by_name_all L E n g k s = Some (s', Inr xs)" and x: "x \<in> set xs"
  shows "row_in (V (cs_db s)) x \<and> er_group_id x = g"
proof -
  from r [unfolded get_entities_by_name_all_def] obtain ys where
    y: "decoded (entity_of_row L) (query_params L E ENTITIES_BY_NAME (JObj [(lit ''name'', JStr n), (lit ''gid'', JStr g)])) s = Some (s', Inr ys)"
    and "set xs \<subseteq> set ys" by (auto simp: aret_def elim!: bind_result simp del: lit_Cons)
  with x have "x \<in> set ys" by blast
  from decoded_rows [OF y this] obtain rows row where rows: "row \<in> set rows" "entity_of_row L row = Some x"
    "snd (en_execute E ENTITIES_BY_NAME (json_params_to_values L (JObj [(lit ''name'', JStr n), (lit ''gid'', JStr g)])) (cs_db s)) = Inr rows" by blast
  from by_name_row [OF ok rows(3) bound_params(5) rows(1)] rows(2) show ?thesis by auto
qed

lemma by_uuids_rows:
  assumes ok: "graph_ok L E V" and r: "get_entities_by_uuids L E us s = Some (s', Inr xs)" and x: "x \<in> set xs"
  shows "row_in (V (cs_db s)) x"
proof (cases "us = []")
  case True
  with r x show ?thesis by (simp add: get_entities_by_uuids_def aret_def)
next
  case False
  with r have "decoded (entity_of_row L) (query_params L E ENTITIES_BY_UUIDS (JObj [(lit ''uuids'', JArr (map JStr us))])) s = Some (s', Inr xs)"
    by (simp add: get_entities_by_uuids_def del: lit_Cons)
  from decoded_rows [OF this x] obtain rows row where rows: "row \<in> set rows" "entity_of_row L row = Some x"
    "snd (en_execute E ENTITIES_BY_UUIDS (json_params_to_values L (JObj [(lit ''uuids'', JArr (map JStr us))])) (cs_db s)) = Inr rows" by blast
  from by_uuids_row [OF ok rows(3,1)] rows(2) show ?thesis by auto
qed

lemma by_uuid_found:
  assumes ok: "graph_ok L E V" and r: "get_entity_by_uuid L E u s = Some (s', Inr (Some x))"
  shows "row_in (V (cs_db s)) x"
proof -
  from decoded_first_result [OF r [unfolded get_entity_by_uuid_def]] obtain rows where
    rows: "query_params L E ENTITY_BY_UUID (JObj [(lit ''uuid'', JStr u)]) s = Some (s', Inr rows)"
    and x: "case rows of [] \<Rightarrow> Some x = None | r # _ \<Rightarrow> full_entity_of_row L r = Some x \<and> Some x \<noteq> None" by blast
  then obtain row where "row \<in> set rows" "full_entity_of_row L row = Some x" by (cases rows) auto
  with by_uuid_row [OF ok query_result [OF rows]] show ?thesis by fastforce
qed

lemma frame_lookups:
  assumes ok: "graph_ok L E V"
  shows "frames (on_view V (=)) (get_entity_by_uuid L E u)" "frames (on_view V (=)) (get_entities_by_uuids L E us)"
    "frames (on_view V (=)) (get_entities_by_name_all L E n g k)"
  unfolding get_entity_by_uuid_def get_entities_by_uuids_def get_entities_by_name_all_def
  by (intro frames_if same.bind same.ret same.decode same.decode_first reads_frame(1) [OF ok]; simp add: MERGE_READS_def)+

lemma alias_ok_add:
  assumes "alias_ok v g m" "row_in v x" "er_group_id x = g"
  shows "alias_ok v g (keep_row c x m)" "alias_ok v g (AList.update (er_uuid x) x m)"
proof -
  have "set (AList.update (er_uuid x) x m) \<subseteq> insert (er_uuid x, x) (set m)" by (induction m) auto
  with assms show "alias_ok v g (AList.update (er_uuid x) x m)" unfolding alias_ok_def by blast
  show "alias_ok v g (keep_row c x m)" using assms by (auto simp: keep_row_def or_insert_def alias_ok_def)
qed

lemma keep_rows_ok:
  "alias_ok v g m \<Longrightarrow> (\<And>x. x \<in> set rows \<Longrightarrow> row_in v x \<and> er_group_id x = g) \<Longrightarrow> alias_ok v g (fold (keep_row c) rows m)"
  by (induction rows arbitrary: m) (simp_all add: alias_ok_add)

lemma take_uuid_rows_ok:
  "alias_ok v g (fst acc) \<Longrightarrow> (\<And>x. x \<in> set rows \<Longrightarrow> row_in v x) \<Longrightarrow> alias_ok v g (fst (take_uuid_rows c g rows acc))"
  by (induction c g rows acc rule: take_uuid_rows.induct) (simp_all add: alias_ok_add)

lemma try_run:
  assumes "atry m h s = Some (s', r)"
  obtains (err) t e where "m s = Some (t, Inl e)" "h e t = Some (s', r)" | (val) x where "m s = Some (s', Inr x)" "r = Inr x"
  using assms by (auto simp: atry_def split: option.splits sum.splits)

text \<open>A step of the expansion keeps the view and the property of the map, and never fails.\<close>

lemma expandsI:
  assumes q: "frames (on_view V (=)) q"
    and v: "\<And>s s' rows. q s = Some (s', Inr rows) \<Longrightarrow> alias_ok (V (cs_db s)) g (fst (f rows))"
    and s: "atry (abind q (\<lambda>rows. aret (f rows))) (\<lambda>e. aret (h e)) s = Some (s', r)" and h: "\<And>e. alias_ok (V (cs_db s)) g (fst (h e))"
  shows "V (cs_db s') = V (cs_db s) \<and> (\<exists>m errs. r = Inr (m, errs) \<and> alias_ok (V (cs_db s)) g m)"
  using s
proof (cases rule: try_run)
  case (err t e)
  then have "q s = Some (t, Inl e)" by (auto simp: abind_def aret_def split: option.splits sum.splits)
  with framesD [OF q this] err h [of e] show ?thesis by (cases "h e") (auto simp: aret_def on_view_def)
next
  case (val x)
  then obtain rows where "q s = Some (s', Inr rows)" "x = f rows" by (auto simp: abind_def aret_def split: option.splits sum.splits)
  with framesD [OF q this(1)] v [OF this(1)] val show ?thesis by (cases "f rows") (auto simp: on_view_def)
qed

lemma expand_by_uuid:
  assumes ok: "graph_ok L E V" and r: "aliases_by_uuid L E c g us s = Some (s', r)"
  shows "V (cs_db s') = V (cs_db s) \<and> (\<exists>m errs. r = Inr (m, errs) \<and> alias_ok (V (cs_db s)) g m)"
proof (cases "us = []")
  case True
  with r show ?thesis by (auto simp: aliases_by_uuid_def aret_def alias_ok_def)
next
  case False
  note run = r [unfolded aliases_by_uuid_def if_not_P [OF False]]
  show ?thesis
  proof (rule expandsI [OF frame_lookups(2) [OF ok] _ run])
    fix t t' rows assume t: "get_entities_by_uuids L E us t = Some (t', Inr rows)"
    have "alias_ok (V (cs_db t)) g (fst (take_uuid_rows c g rows ([], [], {})))"
      using by_uuids_rows [OF ok t] by (intro take_uuid_rows_ok) (simp_all add: alias_ok_def)
    then show "alias_ok (V (cs_db t)) g (fst (let (m, errors, foreign) = take_uuid_rows c g rows ([], [], {}) in
       (m, errors @ map (\<lambda>u. lit ''alias uuid not found: '' @ u) (filter (\<lambda>u. u \<noteq> c \<and> map_of m u = None \<and> u \<notin> foreign) us))))"
      by (simp add: case_prod_unfold Let_def)
  qed (simp add: alias_ok_def)
qed

lemma expand_by_name:
  assumes ok: "graph_ok L E V"
  shows "aliases_by_name L E c g k ns acc s = Some (s', r) \<Longrightarrow> alias_ok (V (cs_db s)) g (fst acc) \<Longrightarrow>
    V (cs_db s') = V (cs_db s) \<and> (\<exists>m errs. r = Inr (m, errs) \<and> alias_ok (V (cs_db s)) g m)"
proof (induction ns arbitrary: acc s)
  case Nil
  then show ?case by (cases acc) (auto simp: aret_def)
next
  case (Cons n ns)
  obtain m errs where acc: "acc = (m, errs)" by (cases acc)
  let ?f = "\<lambda>rows. (fold (keep_row c) rows m, errs @ (if rows = [] then
      [lit ''alias name '' @ single_quoted n @ lit '' matches no entities in group '' @ single_quoted g] else []))"
  let ?h = "\<lambda>e. (m, errs @ [lit ''alias name lookup failed for '' @ single_quoted n @ lit '': '' @ show_error L e])"
  have one: "V (cs_db t) = V (cs_db s) \<and> (\<exists>m errs. x = Inr (m, errs) \<and> alias_ok (V (cs_db s)) g m)"
    if x: "atry (abind (get_entities_by_name_all L E n g k) (\<lambda>rows. aret (?f rows))) (\<lambda>e. aret (?h e)) s = Some (t, x)" for t x
  proof -
    have "alias_ok (V (cs_db s)) g (fst (?f rows))" if "get_entities_by_name_all L E n g k s = Some (u, Inr rows)" for u rows
      using by_name_rows [OF ok that] Cons.prems(2) by (auto simp: acc intro: keep_rows_ok)
    then show ?thesis using x Cons.prems(2) framesD [OF frame_lookups(3) [OF ok]]
      by (auto simp: acc abind_def aret_def on_view_def split: option.splits sum.splits elim!: try_run)
  qed
  from Cons.prems(1) [unfolded acc aliases_by_name.simps] show ?case
  proof (cases rule: bind_run)
    case (err e)
    with one show ?thesis by blast
  next
    case (val t x)
    from one [OF val(1)] have "V (cs_db t) = V (cs_db s)" "alias_ok (V (cs_db s)) g (fst x)" by auto
    with Cons.IH [OF val(2)] show ?thesis by simp
  qed
qed

lemma expand_all_by_name:
  assumes ok: "graph_ok L E V" and r: "aliases_all_by_name L E c g b acc s = Some (s', r)" and a: "alias_ok (V (cs_db s)) g (fst acc)"
  shows "V (cs_db s') = V (cs_db s) \<and> (\<exists>m errs. r = Inr (m, errs) \<and> alias_ok (V (cs_db s)) g m)"
proof (cases b)
  case False
  with r a show ?thesis by (cases acc) (auto simp: aliases_all_by_name_def aret_def)
next
  case True
  let ?q = "get_entities_by_name_all L E (er_name c) g (Some (er_kind c))"
  have "alias_ok (V (cs_db s)) g (fold (keep_row (er_uuid c)) rows (fst acc))" if "?q s = Some (u, Inr rows)" for u rows
    using by_name_rows [OF ok that] a by (auto intro: keep_rows_ok)
  then show ?thesis using r True a framesD [OF frame_lookups(3) [OF ok]]
    by (auto simp: aliases_all_by_name_def abind_def aret_def on_view_def split: option.splits sum.splits elim!: try_run)
qed

lemma expand_result:
  assumes ok: "graph_ok L E V" and r: "expand_aliases L E c P s = Some (s', r)"
  shows "V (cs_db s') = V (cs_db s) \<and> (\<exists>m errs. r = Inr (m, errs) \<and> alias_ok (V (cs_db s)) (merge_group P) m)"
  using r unfolding expand_aliases_def
proof (cases rule: bind_run)
  case (err e)
  with expand_by_uuid [OF ok err(1)] show ?thesis by blast
next
  case (val t acc)
  from expand_by_uuid [OF ok val(1)] have t: "V (cs_db t) = V (cs_db s)" "alias_ok (V (cs_db s)) (merge_group P) (fst acc)" by auto
  from val(2) show ?thesis
  proof (cases rule: bind_run)
    case (err e)
    with expand_by_name [OF ok err(1)] t show ?thesis by auto
  next
    case (val u acc')
    from expand_by_name [OF ok val(1)] t have u: "V (cs_db u) = V (cs_db s)" "alias_ok (V (cs_db s)) (merge_group P) (fst acc')" by auto
    with expand_all_by_name [OF ok val(2)] show ?thesis by simp
  qed
qed

section \<open>The guarantee\<close>

lemma merge_kinds_one:
  assumes "\<not> length (merge_kinds ho c m) > 1" "al \<in> set (ho m)"
  shows "er_kind al = er_kind c"
proof -
  let ?f = "\<lambda>a kinds. if er_kind a \<in> set kinds then kinds else kinds @ [er_kind a]"
  have grow: "set (fold ?f as ks) = set ks \<union> er_kind ` set as" for as ks by (induction as arbitrary: ks) auto
  have "er_kind c \<in> set (fold ?f (ho m) [er_kind c])" "er_kind al \<in> set (fold ?f (ho m) [er_kind c])"
    using assms(2) by (simp_all add: grow)
  with assms(1) show ?thesis unfolding merge_kinds_def by (cases "fold ?f (ho m) [er_kind c]") auto
qed

lemma canonical_result:
  assumes ok: "graph_ok L E V"
    and r: "(case mp_canonical_uuid P of Some uuid \<Rightarrow> canonical_by_uuid L E uuid
      | None \<Rightarrow> canonical_by_name L E (the (mp_canonical_name P)) (merge_group P) (mp_kind P)) s = Some (s', r)"
  shows "V (cs_db s') = V (cs_db s) \<and> (\<exists>x. r = Inr x \<and> (\<forall>c. x = Inr c \<longrightarrow> row_in (V (cs_db s)) c))"
proof (cases "mp_canonical_uuid P")
  case (Some u)
  with r have r: "canonical_by_uuid L E u s = Some (s', r)" by simp
  show ?thesis using r by_uuid_found [OF ok] framesD [OF frame_lookups(1) [OF ok]]
    by (auto simp: canonical_by_uuid_def abind_def aret_def on_view_def split: option.splits sum.splits elim!: try_run)
next
  case None
  let ?n = "the (mp_canonical_name P)"
  have p: "row_in (V (cs_db s)) c" if "get_entities_by_name_all L E ?n (merge_group P) (mp_kind P) s = Some (t, Inr rows)"
    "pick_canonical L ?n (merge_group P) rows = Inr c" for t rows c
  proof -
    from that(2) have "c \<in> set rows"
      by (auto simp: pick_canonical_def Let_def split: if_splits) (metis (no_types, lifting) filter_is_subset list.set_sel(1) subsetD)
    then show ?thesis using by_name_rows [OF ok that(1)] by blast
  qed
  from None r have r: "canonical_by_name L E ?n (merge_group P) (mp_kind P) s = Some (s', r)" by simp
  show ?thesis using r p framesD [OF frame_lookups(3) [OF ok]]
    by (auto simp: canonical_by_name_def abind_def aret_def on_view_def split: option.splits sum.splits elim!: try_run)
qed

text \<open>The entities and edges that a merge may touch: \<open>X\<close> are entities of the group, all of one kind.\<close>

definition merge_allowed :: "rstr \<Rightarrow> gview \<Rightarrow> gview \<Rightarrow> bool" where
  "merge_allowed g v w \<longleftrightarrow> (\<exists>X k. (\<forall>u \<in> X. \<exists>e. gv_entities v u = Some e \<and> er_group_id e = g \<and> er_kind e = k) \<and> only_own X g v w)"

lemma merge_allowed_same: "merge_allowed g v v"
  unfolding merge_allowed_def by (rule exI [of _ "{}"]) (simp add: only_own_def)

lemma merge_into_allowed:
  assumes ok: "graph_ok L E V" and r: "merge_into J L E mint ho P ts c acc s = Some (s', r)"
    and c: "row_in (V (cs_db s)) c" "er_group_id c = merge_group P" and a: "alias_ok (V (cs_db s)) (merge_group P) (fst acc)"
    and ho: "\<And>m. set (ho m) = snd ` set m"
    and fresh: "\<And>a u e. gv_edges (V (cs_db s)) (mint a u) = Some e \<Longrightarrow> re_group_id e = merge_group P"
  shows "merge_allowed (merge_group P) (V (cs_db s)) (V (cs_db s'))"
proof (cases "length (merge_kinds ho c (fst acc)) > 1")
  case True
  with r have "s' = s" by (auto simp: merge_into_def aret_def)
  then show ?thesis by (simp add: merge_allowed_same)
next
  case False
  let ?X = "insert (er_uuid c) (er_uuid ` set (ho (fst acc)))" and ?Y = "\<Union>a. range (mint a)" and ?v = "V (cs_db s)"
  have X: "\<exists>e. gv_entities ?v u = Some e \<and> er_group_id e = merge_group P \<and> er_kind e = er_kind c" if "u \<in> ?X" for u
  proof (cases "u = er_uuid c")
    case True
    with c show ?thesis by (auto simp: row_in_def)
  next
    case False
    with that obtain al where al: "al \<in> set (ho (fst acc))" "u = er_uuid al" by auto
    then have "row_in ?v al" "er_group_id al = merge_group P" using a by (auto simp: ho alias_ok_def)
    with al merge_kinds_one [OF \<open>\<not> length (merge_kinds ho c (fst acc)) > 1\<close> al(1)] show ?thesis by (auto simp: row_in_def)
  qed
  have "own ?X ?Y (merge_group P) ?v" unfolding own_def
  proof (intro conjI ballI allI impI)
    fix u e assume "u \<in> ?X" "gv_entities ?v u = Some e"
    with X [of u] show "er_group_id e = merge_group P" by auto
  next
    fix u e assume "u \<in> ?Y" "gv_edges ?v u = Some e"
    with fresh show "re_group_id e = merge_group P" by auto
  qed
  moreover have "on_view V (own_step ?X ?Y (merge_group P)) s s'" by (rule framesD [OF own_into [OF ok] r]) auto
  ultimately show ?thesis using X unfolding merge_allowed_def on_view_def own_step_def by blast
qed

lemma merge_entities_allowed:
  assumes ok: "graph_ok L E V" and r: "merge_entities J L E mint ho P ts s = Some (s', r)"
    and ho: "\<And>m. set (ho m) = snd ` set m"
    and fresh: "\<And>a u e. gv_edges (V (cs_db s)) (mint a u) = Some e \<Longrightarrow> re_group_id e = merge_group P"
  shows "merge_allowed (merge_group P) (V (cs_db s)) (V (cs_db s'))"
proof -
  let ?find = "case mp_canonical_uuid P of Some uuid \<Rightarrow> canonical_by_uuid L E uuid
      | None \<Rightarrow> canonical_by_name L E (the (mp_canonical_name P)) (merge_group P) (mp_kind P)"
  let ?rest = "\<lambda>found. case rbind found (check_canonical (merge_group P)) of Inl res \<Rightarrow> aret res
      | Inr canonical \<Rightarrow> abind (expand_aliases L E canonical P) (\<lambda>acc. merge_into J L E mint ho P ts canonical acc)"
  consider "s' = s" | "abind ?find ?rest s = Some (s', r)"
    using r by (auto simp: merge_entities_def aret_def split: if_splits)
  then show ?thesis
  proof cases
    case 2
    then show ?thesis
    proof (cases rule: bind_run)
      case (err e)
      with canonical_result [OF ok err(1)] show ?thesis by simp
    next
      case (val t x)
      from canonical_result [OF ok val(1)] have t: "V (cs_db t) = V (cs_db s)" "\<And>c. x = Inr c \<Longrightarrow> row_in (V (cs_db s)) c" by auto
      show ?thesis
      proof (cases "rbind x (check_canonical (merge_group P))")
        case (Inl res)
        with val(2) t show ?thesis by (simp add: aret_def merge_allowed_same)
      next
        case (Inr c)
        then have c: "x = Inr c" "er_group_id c = merge_group P" by (cases x; auto simp: check_canonical_def split: if_splits)+
        from val(2) Inr have "abind (expand_aliases L E c P) (\<lambda>acc. merge_into J L E mint ho P ts c acc) t = Some (s', r)" by simp
        then show ?thesis
        proof (cases rule: bind_run)
          case (err e)
          with expand_result [OF ok err(1)] show ?thesis by blast
        next
          case (val u acc)
          from expand_result [OF ok val(1)] t(1) have u: "V (cs_db u) = V (cs_db s)" "alias_ok (V (cs_db s)) (merge_group P) (fst acc)" by auto
          from merge_into_allowed [OF ok val(2)] show ?thesis using t c ho fresh unfolding u(1) by (simp add: u(2))
        qed
      qed
    qed
  qed (simp add: merge_allowed_same)
qed

section \<open>The merge returns a report\<close>

text \<open>Every failure inside a merge becomes a message of the report: the call itself has no error.\<close>

definition completes :: "('s, 'a) act \<Rightarrow> bool" where
  "completes m \<longleftrightarrow> (\<forall>s. \<exists>s' x. m s = Some (s', Inr x))"

lemma completes_ret: "completes (aret x)"
  by (simp add: completes_def aret_def)

lemma completes_bind: "completes m \<Longrightarrow> (\<And>x. completes (f x)) \<Longrightarrow> completes (abind m f)"
proof -
  assume m: "completes m" and f: "\<And>x. completes (f x)"
  have "\<exists>s' y. abind m f s = Some (s', Inr y)" for s
  proof -
    obtain t x where "m s = Some (t, Inr x)" using m unfolding completes_def by blast
    moreover obtain s' y where "f x t = Some (s', Inr y)" using f [of x] unfolding completes_def by blast
    ultimately show ?thesis by (simp add: abind_def)
  qed
  then show ?thesis by (simp add: completes_def)
qed

lemma completes_try: "returns m \<Longrightarrow> (\<And>e. completes (h e)) \<Longrightarrow> completes (atry m h)"
  by (fastforce simp: completes_def returns_def atry_def split: option.splits sum.splits)

lemma completes_attempt: "returns m \<Longrightarrow> completes (attempt m)"
  unfolding attempt_def by (intro completes_try completes_ret returns_bind returns_simps)

lemma completes_if: "completes m \<Longrightarrow> completes n \<Longrightarrow> completes (if b then m else n)"
  by simp

lemma returns_if: "returns m \<Longrightarrow> returns n \<Longrightarrow> returns (if b then m else n)"
  by simp

lemma returns_when: "returns m \<Longrightarrow> returns (awhen b m)"
  by (simp add: awhen_def)

lemma returns_rows:
  assumes ok: "graph_ok L E V"
  shows "returns (get_entity_by_uuid L E u)" "returns (get_entities_by_uuids L E us)" "returns (get_entities_by_name_all L E n g k)"
    "returns (get_full_edges_for_entity L E u)" "returns (has_directed_edge L E a b n g)"
proof -
  show "returns (get_entity_by_uuid L E u)" unfolding get_entity_by_uuid_def
    using by_uuid_row [OF ok query_result] by (intro returns_decoded_first returns_query) fastforce
  show "returns (get_entities_by_uuids L E us)" unfolding get_entities_by_uuids_def
    using by_uuids_row [OF ok query_result] by (intro returns_if returns_simps returns_decoded returns_query) fastforce
  show "returns (get_entities_by_name_all L E n g k)" unfolding get_entities_by_name_all_def
    using by_name_row [OF ok query_result bound_params(5)]
    by (intro returns_bind returns_simps returns_decoded returns_query) fastforce
  show "returns (get_full_edges_for_entity L E u)"
    unfolding get_full_edges_for_entity_def collect_full_relates_to_edges_def
    using edge_row [OF ok _ query_result] by (intro returns_bind returns_simps returns_decoded returns_query) fastforce+
  have "None \<notin> set (map (column 0) rows)" if "query_params L E ACTIVE_EDGE p s = Some (s', Inr rows)" for p s s' rows
  proof -
    have "[] \<notin> set rows" using ok query_result [OF that] by (simp add: graph_ok_def)
    then show ?thesis by (auto simp: column_def split: if_splits)
  qed
  then show "returns (has_directed_edge L E a b n g)" unfolding has_directed_edge_def find_active_relates_to_uuid_def
    by (intro returns_bind returns_simps returns_decoded_first returns_query)
qed

lemma returns_writes: "returns (invalidate_edge L E u ts)" "returns (insert_relates_to_edge L E e)"
  unfolding invalidate_edge_def insert_relates_to_edge_def Let_def by (intro returns_bind returns_ignore returns_exec_params)+

lemma returns_merge_edges: "graph_ok L E V \<Longrightarrow> returns (merge_edges L E mint c a g ts dry es counts)"
proof (induction es arbitrary: counts)
  case (Cons e es)
  show ?case unfolding merge_edges.simps Let_def
    by (intro returns_if returns_bind returns_when returns_rows [OF Cons.prems] returns_writes Cons)
qed simp

lemma completes_aliases:
  assumes ok: "graph_ok L E V"
  shows "completes (merge_aliases J L E mint c g ts dry als st)"
proof (induction als arbitrary: st)
  case (Cons al als)
  have "completes (mark_alias J L E c al st)" for st unfolding mark_alias_def Let_def update_entity_labels_def update_entity_attributes_def
    by (intro completes_bind completes_attempt completes_ret returns_exec_params)
  then have "completes (merge_alias J L E mint c g ts dry al st)" for st unfolding merge_alias_def merge_entities_inner_def Let_def
    by (auto intro!: completes_bind completes_attempt completes_ret returns_bind returns_rows [OF ok] returns_merge_edges [OF ok] split: sum.split)
  then show ?case using Cons by (auto intro: completes_bind)
qed (simp add: completes_ret)

lemma completes_by_name:
  assumes ok: "graph_ok L E V" shows "completes (aliases_by_name L E c g k ns acc)"
proof (induction ns arbitrary: acc)
  case (Cons n ns)
  then show ?case by (cases acc) (auto intro!: completes_bind completes_ret completes_try returns_bind returns_rows [OF ok])
qed (simp add: completes_ret)

lemma completes_merge:
  assumes ok: "graph_ok L E V" shows "completes (merge_entities J L E mint ho P ts)"
proof -
  have "completes (merge_into J L E mint ho P ts c acc)" for c acc unfolding merge_into_def Let_def update_entity_created_at_def
    by (intro completes_if completes_bind completes_aliases [OF ok] completes_attempt completes_ret returns_exec_params)
  moreover have "completes (expand_aliases L E c P)" for c
    unfolding expand_aliases_def aliases_by_uuid_def aliases_all_by_name_def
    by (intro completes_if completes_bind completes_by_name [OF ok] completes_try completes_ret returns_bind returns_rows [OF ok] returns_simps)
  moreover have "completes (canonical_by_uuid L E u)" "completes (canonical_by_name L E n g k)" for u n g k
    unfolding canonical_by_uuid_def canonical_by_name_def
    by (intro completes_try completes_ret returns_bind returns_rows [OF ok] returns_simps)+
  ultimately show ?thesis unfolding merge_entities_def
    by (auto intro!: completes_bind completes_ret split: option.split sum.split)
qed

section \<open>A dry run only reads\<close>

text \<open>A client of the connection that only uses the queries of a merge keeps every relation that these queries keep.\<close>

locale merge_reader = act_frame R for R :: "'d cstate \<Rightarrow> 'd cstate \<Rightarrow> bool" +
  fixes L :: lbug_env and E :: "'d lbug_engine"
  assumes merge_read: "q \<in> MERGE_READS \<Longrightarrow> frames R (query_params L E q p)"
begin

lemma lookups: "frames R (get_entity_by_uuid L E u)" "frames R (get_entities_by_uuids L E us)" "frames R (get_entities_by_name_all L E n g k)"
  "frames R (get_full_edges_for_entity L E u)" "frames R (has_directed_edge L E a b n g)"
  unfolding get_entity_by_uuid_def get_entities_by_uuids_def get_entities_by_name_all_def get_full_edges_for_entity_def
    collect_full_relates_to_edges_def has_directed_edge_def find_active_relates_to_uuid_def
  by (intro frames_if bind ret decode decode_first merge_read; simp add: MERGE_READS_def)+

lemma dry_edges: "frames R (merge_edges L E mint c a g ts True es counts)"
proof (induction es arbitrary: counts)
  case (Cons e es)
  show ?case unfolding merge_edges.simps Let_def by (intro frames_if bind cond lookups Cons) simp_all
qed (simp add: ret)

lemma dry_aliases: "frames R (merge_aliases J L E mint c g ts True als st)"
proof (induction als arbitrary: st)
  case (Cons al als)
  have "frames R (merge_alias J L E mint c g ts True al st)" for st unfolding merge_alias_def merge_entities_inner_def Let_def
    by (auto intro!: bind attempted ret lookups dry_edges split: sum.split)
  then show ?case using Cons by (auto intro: bind)
qed (simp add: ret)

lemma dry_by_name: "frames R (aliases_by_name L E c g k ns acc)"
proof (induction ns arbitrary: acc)
  case (Cons n ns)
  then show ?case by (cases acc) (auto intro!: bind catch ret lookups)
qed (simp add: ret)

lemma dry_merge: "mp_dry_run P \<Longrightarrow> frames R (merge_entities J L E mint ho P ts)"
proof -
  assume dry: "mp_dry_run P"
  have "frames R (merge_into J L E mint ho P ts c acc)" for c acc
    using dry unfolding merge_into_def Let_def by (auto intro!: frames_if bind dry_aliases ret)
  moreover have "frames R (expand_aliases L E c P)" for c
    unfolding expand_aliases_def aliases_by_uuid_def aliases_all_by_name_def
    by (intro frames_if bind catch ret dry_by_name lookups)
  moreover have "frames R (canonical_by_uuid L E u)" "frames R (canonical_by_name L E n g k)" for u n g k
    unfolding canonical_by_uuid_def canonical_by_name_def by (intro catch bind ret lookups)+
  ultimately show ?thesis unfolding merge_entities_def
    by (auto intro!: bind ret split: option.split sum.split)
qed

end

text \<open>The relation of a run that changed nothing: the same mutations recorded, and on an engine as above the same graph.\<close>

definition unchanged :: "lbug_env \<Rightarrow> 'd lbug_engine \<Rightarrow> ('d \<Rightarrow> gview) \<Rightarrow> 'd cstate \<Rightarrow> 'd cstate \<Rightarrow> bool" where
  "unchanged L E V s t \<longleftrightarrow> same_log s t \<and> (graph_ok L E V \<longrightarrow> V (cs_db t) = V (cs_db s))"

interpretation dry: merge_reader "unchanged L E V" L E for L :: lbug_env and E :: "'d lbug_engine" and V
proof unfold_locales
  show "unchanged L E V s s" for s by (simp add: unchanged_def same_log_def)
  show "unchanged L E V s u" if "unchanged L E V s t" "unchanged L E V t u" for s t u using that by (simp add: unchanged_def same_log_def)
  show "frames (unchanged L E V) (query_params L E q p)" if "q \<in> MERGE_READS" for q p
    using that reads_frame(1) [of L E V q p] quiet_query_params [of L E q p] by (auto simp: frames_def unchanged_def on_view_def)
qed

text \<open>C39: A merge always returns a report.  Whatever it did, there is a kind such that the only entities that differ
  afterwards are of the requested group and of that kind, and every edge of another group is the edge it was; a dry run
  changes neither the graph nor the recorded mutations.\<close>

theorem merge_own_group:
  assumes ok: "graph_ok L E V" and ho: "\<forall>m. set (ho m) = snd ` set m"
    and fresh: "\<forall>a u e. gv_edges (V (cs_db s)) (mint a u) = Some e \<longrightarrow> re_group_id e = merge_group P"
  shows "\<exists>s' res. merge_entities J L E mint ho P ts s = Some (s', Inr res)
    \<and> merge_allowed (merge_group P) (V (cs_db s)) (V (cs_db s'))
    \<and> (mp_dry_run P \<longrightarrow> V (cs_db s') = V (cs_db s) \<and> cs_executed_mutations s' = cs_executed_mutations s)"
proof -
  obtain s' res where r: "merge_entities J L E mint ho P ts s = Some (s', Inr res)"
    using completes_merge [OF ok, of J mint ho P ts] unfolding completes_def by blast
  have "merge_allowed (merge_group P) (V (cs_db s)) (V (cs_db s'))"
    using merge_entities_allowed [OF ok r] ho fresh by simp
  moreover have "unchanged L E V s s'" if "mp_dry_run P" by (rule framesD [OF dry.dry_merge [OF that] r])
  ultimately show ?thesis using r ok by (auto simp: unchanged_def same_log_def)
qed

text \<open>An engine with two entities of one kind and no edges.\<close>

definition toy_merge_view :: "unit \<Rightarrow> gview" where
  "toy_merge_view d = \<lparr>gv_entities = [lit ''1'' \<mapsto> toy_entity ''1'' ''Entity'', lit ''2'' \<mapsto> toy_entity ''2'' ''Entity''], gv_edges = Map.empty\<rparr>"

definition toy_short_columns :: "entity_row \<Rightarrow> lval list" where
  "toy_short_columns e = [VString (er_uuid e), VString (er_name e), VString (er_group_id e), VList TString (map VString (er_labels e)),
     VString (er_created_at e), VString (er_summary e), VString (er_attributes e), VString (er_kind e), VString (er_ingested_at e)]"

definition toy_merge_engine :: "unit lbug_engine" where
  "toy_merge_engine = \<lparr>en_query = (\<lambda>q d. (d, Inr [])), en_prepare = (\<lambda>d q. Inr ()), en_execute = (\<lambda>q b d. (d,
     Inr (if q = ENTITY_BY_UUID then [toy_columns (toy_entity ''1'' ''Entity'')]
          else if q = ENTITIES_BY_UUIDS then [toy_short_columns (toy_entity ''2'' ''Entity'')] else [])))\<rparr>"

definition toy_merge_params :: "bool \<Rightarrow> merge_params" where
  "toy_merge_params dry = \<lparr>mp_canonical_uuid = Some (lit ''1''), mp_canonical_name = None, mp_alias_uuids = [lit ''2''], mp_alias_names = [],
     mp_merge_all_by_name = False, mp_kind = None, mp_group_id = lit ''g'', mp_dry_run = dry\<rparr>"

lemma toy_merge_rows:
  "full_entity_of_row toy_lbug (toy_columns (toy_entity ''1'' ''Entity'')) = Some (toy_entity ''1'' ''Entity'')"
  "entity_of_row toy_lbug (toy_short_columns (toy_entity ''2'' ''Entity'')) = Some (toy_entity ''2'' ''Entity'')"
  by (simp_all add: toy_entity_def toy_columns_def toy_short_columns_def full_entity_of_row_def entity_of_row_def value_as_string_def
      value_as_str_list_def value_as_timestamp_str_def value_as_float_array_def value_as_kind_def default_entity_row_def text_eval)

lemma merge_stmts [simp]:
  "ENTITIES_BY_UUIDS \<noteq> ENTITY_BY_UUID" "ENTITIES_BY_NAME \<noteq> ENTITY_BY_UUID" "ENTITIES_BY_NAME \<noteq> ENTITIES_BY_UUIDS"
  "FULL_OUTGOING \<noteq> ENTITY_BY_UUID" "FULL_OUTGOING \<noteq> ENTITIES_BY_UUIDS" "FULL_INCOMING \<noteq> ENTITY_BY_UUID" "FULL_INCOMING \<noteq> ENTITIES_BY_UUIDS"
  "ACTIVE_EDGE \<noteq> ENTITY_BY_UUID" "ACTIVE_EDGE \<noteq> ENTITIES_BY_UUIDS"
  by (simp_all add: ENTITIES_BY_UUIDS_def ENTITY_BY_UUID_def ENTITIES_BY_NAME_def FULL_OUTGOING_def FULL_INCOMING_def ACTIVE_EDGE_def
      ENTITY_COLUMNS_def FULL_ENTITY_COLUMNS_def FULL_EDGE_COLUMNS_def)

lemma toy_graph_ok: "graph_ok toy_lbug toy_merge_engine toy_merge_view"
proof -
  have "row_in (toy_merge_view d) (toy_entity ''1'' ''Entity'')" "row_in (toy_merge_view d) (toy_entity ''2'' ''Entity'')" for d
    by (simp_all add: row_in_def toy_merge_view_def toy_entity_def)
  then show ?thesis
    by (simp add: graph_ok_def fts_invisible_def toy_merge_engine_def toy_merge_rows touches_entity_def touches_edge_def creates_edge_def)
qed

lemma toy_merge_query:
  "query_params toy_lbug toy_merge_engine q p s = Some (s, Inr (if q = ENTITY_BY_UUID then [toy_columns (toy_entity ''1'' ''Entity'')]
     else if q = ENTITIES_BY_UUIDS then [toy_short_columns (toy_entity ''2'' ''Entity'')] else []))"
  by (simp add: query_params_def abind_def prepare_def aread_def on_db_def of_lbug_def toy_merge_engine_def)

lemma toy_merge_exec: "exec_params toy_lbug toy_merge_engine q p s =
    Some (s\<lparr>cs_executed_mutations := cs_executed_mutations s @ [(q, p)]\<rparr>, Inr ())"
  by (simp add: exec_params_def abind_def prepare_def aread_def of_lbug_def with_backstop_def atry_def execute_prepared_def
      on_db_def aret_def record_mutation_def amodify_def toy_merge_engine_def)

lemma toy_entity_sel [simp]: "er_uuid (toy_entity u k) = lit u" "er_group_id (toy_entity u k) = lit ''g''" "er_kind (toy_entity u k) = lit k"
  "er_labels (toy_entity u k) = []" "er_created_at (toy_entity u k) = []"
  by (simp_all add: toy_entity_def default_entity_row_def)

lemma toy_lits: "lit ''g'' \<noteq> []" "lit ''2'' \<noteq> lit ''1''"
  by simp_all

lemma toy_merge_found:
  "canonical_by_uuid toy_lbug toy_merge_engine u s = Some (s, Inr (Inr (toy_entity ''1'' ''Entity'')))"
  "check_canonical (lit ''g'') (toy_entity ''1'' ''Entity'') = Inr (toy_entity ''1'' ''Entity'')"
  "expand_aliases toy_lbug toy_merge_engine (toy_entity ''1'' ''Entity'') (toy_merge_params dry) s
     = Some (s, Inr ([(lit ''2'', toy_entity ''2'' ''Entity'')], []))"
  by (simp_all add: canonical_by_uuid_def get_entity_by_uuid_def decoded_first_def decoded_def abind_def aret_def atry_def toy_merge_query
      toy_merge_rows check_canonical_def expand_aliases_def toy_merge_params_def merge_group_def aliases_by_uuid_def get_entities_by_uuids_def
      aliases_all_by_name_def toy_lits del: lit_Cons)

lemma toy_merge_run:
  "\<exists>s' res. merge_entities toy_json_text toy_lbug toy_merge_engine (\<lambda>a u. lit ''n'') (map snd) (toy_merge_params dry) (lit ''t'') toy_lookup_state
       = Some (s', Inr res) \<and> mr_success res \<and> mr_merged_count res = 1 \<and> length (cs_executed_mutations s') = (if dry then 0 else 2)"
proof -
  have p: "mp_canonical_uuid (toy_merge_params dry) = Some (lit ''1'')" "mp_alias_uuids (toy_merge_params dry) \<noteq> []"
    "merge_group (toy_merge_params dry) = lit ''g''" "mp_dry_run (toy_merge_params dry) = dry"
    by (simp_all add: toy_merge_params_def merge_group_def)
  have i: "merge_entities_inner toy_lbug toy_merge_engine mint c al g ts b s = Some (s, Inr no_edge_counts)" for mint c al g ts b s
    by (simp add: merge_entities_inner_def get_full_edges_for_entity_def collect_full_relates_to_edges_def decoded_def abind_def aret_def
        toy_merge_query)
  have k: "merge_kinds (map snd) (toy_entity ''1'' ''Entity'') [(lit ''2'', toy_entity ''2'' ''Entity'')] = [lit ''Entity'']"
    by (simp add: merge_kinds_def del: lit_Cons)
  have at: "attempt (merge_entities_inner toy_lbug toy_merge_engine mint c al g ts b) s = Some (s, Inr (Inr no_edge_counts))" for mint c al g ts b s
    by (simp add: attempt_def atry_def abind_def aret_def i)
  have ex: "attempt (exec_params toy_lbug toy_merge_engine q p) s
      = Some (s\<lparr>cs_executed_mutations := cs_executed_mutations s @ [(q, p)]\<rparr>, Inr (Inr ()))" for q p s
    by (simp add: attempt_def atry_def abind_def aret_def toy_merge_exec)
  show ?thesis
    by (simp add: merge_entities_def abind_def aret_def toy_merge_found p merge_into_def k merge_alias_def at ex Let_def
        mark_alias_def update_entity_labels_def update_entity_attributes_def add_error_def merge_report_def toy_lookup_state_def
        del: lit_Cons)
qed

theorem merge_own_group_witness:
  "\<exists>s' res. merge_entities toy_json_text toy_lbug toy_merge_engine (\<lambda>a u. lit ''n'') (map snd) (toy_merge_params True) (lit ''t'') toy_lookup_state
       = Some (s', Inr res) \<and> mr_merged_count res = 1 \<and> cs_executed_mutations s' = []
       \<and> merge_allowed (lit ''g'') (toy_merge_view ()) (toy_merge_view (cs_db s'))"
proof -
  have g: "merge_group (toy_merge_params True) = lit ''g''" by (simp add: toy_merge_params_def merge_group_def)
  have "mp_dry_run (toy_merge_params True)" by (simp add: toy_merge_params_def)
  with merge_own_group [OF toy_graph_ok, of "map snd" toy_lookup_state "\<lambda>a u. lit ''n''" "toy_merge_params True" toy_json_text "lit ''t''"]
    toy_merge_run [of True] show ?thesis
    by (auto simp: toy_merge_view_def toy_lookup_state_def g simp del: lit_Cons)
qed

text \<open>A message counts as harmless by its text: the failure of the engine itself can carry the words.\<close>

lemma hard_error_counts_as_soft: "soft_error (lit ''merge failed for alias a: '' @ show_error toy_lbug (Lbug (lit ''Table not found'')))"
  by (simp add: soft_error_def text_eval)

end
