(* ===== verification/Assertions.thy ===== *)
theory Assertions
  imports MergeEntities
begin

text \<open>
  Direct assertions (\<^verbatim>\<open>assert.rs\<close>, \<^verbatim>\<open>handlers.rs\<close>: \<^verbatim>\<open>handle_assert_entity\<close>, \<^verbatim>\<open>handle_assert_relationship\<close>): resolving a
  name or an identifier within one group, and the two handlers that create or update an entity or an
  edge.  A handler works in two passes under the write lock and asks the embedder in between, without
  the lock; calls are interleaved at these points.  The theorem: whatever the interleaving, a group
  keeps at most one active entity of a kind and name.
\<close>

section \<open>Resolution\<close>

datatype kind_scope = Exact rstr | AnyKind

definition for_read :: "rstr option \<Rightarrow> kind_scope" where
  "for_read kind = (case kind of None \<Rightarrow> AnyKind | Some k \<Rightarrow> Exact k)"

datatype resolved = NotFound | Existing entity_row

text \<open>The loop of \<^verbatim>\<open>follow_merged_into_chain\<close> on a connection.\<close>

partial_function (option) forward_merged ::
  "json_text \<Rightarrow> lbug_env \<Rightarrow> 'd lbug_engine \<Rightarrow> rstr \<Rightarrow> rstr set \<Rightarrow> entity_row \<Rightarrow> 'd cstate \<Rightarrow> ('d cstate \<times> entity_row option result) option" where
  "forward_merged J L E group_id visited current s =
     (case read_merged_into J (er_attributes current) of
        None \<Rightarrow> Some (s, Inr None)
      | Some target_uuid \<Rightarrow>
          if target_uuid \<in> visited then Some (s, Inr None)
          else (case get_entity_by_uuid L E target_uuid s of
                  None \<Rightarrow> None
                | Some (s', Inl e) \<Rightarrow> Some (s', Inl e)
                | Some (s', Inr None) \<Rightarrow> Some (s', Inr None)
                | Some (s', Inr (Some nxt)) \<Rightarrow>
                    if er_group_id nxt \<noteq> group_id then Some (s', Inr None)
                    else if MERGED \<notin> set (er_labels nxt) then Some (s', Inr (Some nxt))
                    else forward_merged J L E group_id (insert target_uuid visited) nxt s'))"

definition tombstone_msg :: "rstr \<Rightarrow> rstr \<Rightarrow> rstr" where
  "tombstone_msg name group_id =
     lit ''name '' @ single_quoted name @ lit '' resolves to a Merged tombstone in group '' @ single_quoted group_id @ lit '' whose '' @
     lit ''merged_into forwarding does not reach a canonical entity within the group '' @
     lit ''(dangling target, a cycle, or a target outside the group)'' @ [32, 8212] @ lit '' refusing to guess''"

fun forward_winners ::
  "json_text \<Rightarrow> lbug_env \<Rightarrow> 'd lbug_engine \<Rightarrow> rstr \<Rightarrow> rstr \<Rightarrow> entity_row list \<Rightarrow> ('d cstate, entity_row list) act" where
  "forward_winners J L E group_id name [] = aret []"
| "forward_winners J L E group_id name (winner # winners) =
     (if MERGED \<notin> set (er_labels winner)
      then abind (forward_winners J L E group_id name winners) (\<lambda>cs. aret (winner # cs))
      else abind (forward_merged J L E group_id {er_uuid winner} winner) (\<lambda>r.
           case r of
             Some canonical \<Rightarrow> abind (forward_winners J L E group_id name winners) (\<lambda>cs. aret (canonical # cs))
           | None \<Rightarrow> afail (Ipc (tombstone_msg name group_id))))"

definition resolve_entity_by_name ::
  "json_text \<Rightarrow> ucd \<Rightarrow> lbug_env \<Rightarrow> 'd lbug_engine \<Rightarrow> rstr \<Rightarrow> rstr \<Rightarrow> kind_scope \<Rightarrow> ('d cstate, resolved) act" where
  "resolve_entity_by_name J U L E group_id name scope =
     abind (case scope of
              Exact kind \<Rightarrow> abind (get_entity_by_name_ci_with_scan_fallback U L E name group_id kind) (\<lambda>r.
                aret (case r of None \<Rightarrow> [] | Some e \<Rightarrow> [e]))
            | AnyKind \<Rightarrow> resolve_entities_by_name_any_kind U L E name group_id) (\<lambda>winners.
     abind (forward_winners J L E group_id name winners) (\<lambda>canonicals.
       case canonicals of
         [] \<Rightarrow> aret NotFound
       | [c] \<Rightarrow> aret (Existing c)
       | _ \<Rightarrow> afail (ambiguity_error name group_id canonicals)))"

definition no_such_uuid_msg :: "rstr \<Rightarrow> rstr \<Rightarrow> rstr" where
  "no_such_uuid_msg entity_uuid group_id =
     lit ''entity_uuid '' @ single_quoted entity_uuid @ lit '' does not exist in group '' @ single_quoted group_id"

definition dead_uuid_msg :: "rstr \<Rightarrow> rstr \<Rightarrow> rstr" where
  "dead_uuid_msg entity_uuid group_id =
     lit ''entity_uuid '' @ single_quoted entity_uuid @ lit '' resolves to a Merged tombstone in group '' @ single_quoted group_id @
     lit '' whose merged_into forwarding does not reach a canonical entity within the group'' @ [32, 8212] @ lit '' refusing to guess''"

definition resolve_entity_by_uuid :: "json_text \<Rightarrow> lbug_env \<Rightarrow> 'd lbug_engine \<Rightarrow> rstr \<Rightarrow> rstr \<Rightarrow> ('d cstate, entity_row) act" where
  "resolve_entity_by_uuid J L E group_id entity_uuid =
     abind (get_entity_by_uuid L E entity_uuid) (\<lambda>found.
       case found of
         None \<Rightarrow> afail (Ipc (no_such_uuid_msg entity_uuid group_id))
       | Some entity \<Rightarrow>
           if er_group_id entity \<noteq> group_id then afail (Ipc (no_such_uuid_msg entity_uuid group_id))
           else if MERGED \<notin> set (er_labels entity) then aret entity
           else abind (forward_merged J L E group_id {er_uuid entity} entity) (\<lambda>r.
                case r of None \<Rightarrow> afail (Ipc (dead_uuid_msg entity_uuid group_id)) | Some c \<Rightarrow> aret c))"

section \<open>The service around a connection\<close>

text \<open>The database with the state of the connection in use, the writers of the log, and the file system.\<close>

record 'd service =
  sv_conn :: "'d cstate"
  sv_wal :: app_wal
  sv_fs :: fsys

record 'd handler_env =
  he_json :: json_text
  he_ucd :: ucd
  he_lbug :: lbug_env
  he_engine :: "'d lbug_engine"
  he_connect :: "'d \<Rightarrow> rstr + unit"
  he_wal :: wal_env
  he_running :: "rstr \<times> int"
  he_io :: "nat \<Rightarrow> mutation \<Rightarrow> io_outcome \<times> rstr"
  he_open :: "unit result"
  he_dim :: nat

definition on_conn :: "('d cstate, 'a) act \<Rightarrow> ('d service, 'a) act" where
  "on_conn m w = map_option (\<lambda>(s, r). (w\<lparr>sv_conn := s\<rparr>, r)) (m (sv_conn w))"

text \<open>A new connection shares the database and its statuses, and starts with no mutations and outside of a transaction.\<close>

definition connect :: "'d handler_env \<Rightarrow> ('d service, unit) act" where
  "connect H w =
     (case he_connect H (cs_db (sv_conn w)) of
        Inl e \<Rightarrow> Some (w, Inl (Ipc (lit ''db: '' @ show_error (he_lbug H) (Lbug e))))
      | Inr _ \<Rightarrow> Some (w\<lparr>sv_conn := (sv_conn w)\<lparr>cs_executed_mutations := [], cs_in_txn := False\<rparr>\<rparr>, Inr ()))"

definition SET_POSITION :: rstr where
  "SET_POSITION = lit ''MERGE (w:WalPosition {id: $group_id}) SET w.applied_seq = $seq, '' @
     lit ''w.generation = $generation, w.embedding_model = $embedding_model, '' @ lit ''w.embedding_dim = $embedding_dim''"

definition position_params :: "rstr \<Rightarrow> nat \<Rightarrow> rstr option \<Rightarrow> (rstr \<times> int) option \<Rightarrow> (rstr \<times> lval) list" where
  "position_params group_id seq generation embedding_identity =
     [(lit ''group_id'', VString group_id), (lit ''seq'', VInt64 (u64_as_i64 seq)),
      (lit ''generation'', case generation of Some g \<Rightarrow> VString g | None \<Rightarrow> VNull TAny),
      (lit ''embedding_model'', case embedding_identity of Some (model, _) \<Rightarrow> VString model | None \<Rightarrow> VNull TAny),
      (lit ''embedding_dim'', case embedding_identity of Some (_, dim) \<Rightarrow> VInt64 dim | None \<Rightarrow> VNull TAny)]"

definition conn_set_wal_position ::
  "'d lbug_engine \<Rightarrow> rstr \<Rightarrow> nat \<Rightarrow> rstr option \<Rightarrow> (rstr \<times> int) option \<Rightarrow> ('d cstate, unit) act" where
  "conn_set_wal_position E group_id seq generation embedding_identity =
     abind (prepare E SET_POSITION) (\<lambda>_.
     abind (on_db (en_execute E SET_POSITION (position_params group_id seq generation embedding_identity))) (\<lambda>_. aret ()))"

definition conn_advance_wal_position :: "'d lbug_engine \<Rightarrow> rstr \<times> int \<Rightarrow> rstr \<Rightarrow> position option \<Rightarrow> ('d cstate, unit) act" where
  "conn_advance_wal_position E running group_id result =
     (case result of
        None \<Rightarrow> aret ()
      | Some (seq, generation) \<Rightarrow> aignore (conn_set_wal_position E group_id seq generation (Some running)))"

text \<open>What every writing handler does last: the mutations go to the log of the group, and its position advances.\<close>

definition log_and_advance :: "'d handler_env \<Rightarrow> rstr \<Rightarrow> ('d service, unit) act" where
  "log_and_advance H group_id =
     abind (on_conn drain_mutations) (\<lambda>ms w.
       case wal_flush_ungrouped (he_wal H) group_id (map (\<lambda>(i, mu). (mu, he_io H i mu)) (enumerate 0 ms)) (sv_wal w) (sv_fs w) of
         (wal, fs, result) \<Rightarrow>
           on_conn (conn_advance_wal_position (he_engine H) (he_running H) group_id result) (w\<lparr>sv_wal := wal, sv_fs := fs\<rparr>))"

section \<open>Asserting an entity\<close>

record assert_request =
  ar_name :: rstr
  ar_entity_uuid :: "rstr option"
  ar_group_id :: rstr
  ar_labels :: "rstr list"
  ar_summary :: rstr
  ar_attributes :: rstr
  ar_kind :: rstr
  ar_kind_explicit :: bool

definition attributes_param_to_string :: "json_text \<Rightarrow> json \<Rightarrow> rstr" where
  "attributes_param_to_string J p = (case p of JObj _ \<Rightarrow> jt_print J p | _ \<Rightarrow> lit ''{}'')"

definition required_text :: "json \<Rightarrow> string \<Rightarrow> rstr result" where
  "required_text p key =
     (case as_str (value_index p (lit key)) of
        None \<Rightarrow> Inl (Ipc (lit key @ lit '' is required''))
      | Some t \<Rightarrow> if trim t = [] then Inl (Ipc (lit key @ lit '' is required'')) else Inr t)"

definition group_param :: "json \<Rightarrow> rstr" where
  "group_param p = (case as_str (value_index p (lit ''group_id'')) of None \<Rightarrow> DEFAULT_GROUP_ID | Some g \<Rightarrow> g)"

definition labels_param :: "json \<Rightarrow> rstr list" where
  "labels_param v =
     (let given = (case v of JArr xs \<Rightarrow> List.map_filter as_str xs | _ \<Rightarrow> []) in if given = [] then [ENTITY_LABEL] else given)"

definition parse_assert_entity :: "json_text \<Rightarrow> json \<Rightarrow> assert_request result" where
  "parse_assert_entity J p =
     rbind (required_text p ''name'') (\<lambda>name.
       let kind_explicit = (value_index p (lit ''kind'') \<noteq> JNull);
           given = (case as_str (value_index p (lit ''kind'')) of Some k \<Rightarrow> Some k | None \<Rightarrow> if kind_explicit then Some [] else None)
       in rbind (normalize_kind given) (\<lambda>kind.
          Inr \<lparr>ar_name = name, ar_entity_uuid = as_str (value_index p (lit ''entity_uuid'')), ar_group_id = group_param p,
               ar_labels = labels_param (value_index p (lit ''labels'')),
               ar_summary = (case as_str (value_index p (lit ''summary'')) of None \<Rightarrow> [] | Some t \<Rightarrow> t),
               ar_attributes = attributes_param_to_string J (value_index p (lit ''attributes'')),
               ar_kind = kind, ar_kind_explicit = kind_explicit\<rparr>))"

definition immutable_kind_msg :: "rstr \<Rightarrow> rstr \<Rightarrow> rstr \<Rightarrow> rstr" where
  "immutable_kind_msg eu actual kind =
     lit ''entity_uuid '' @ single_quoted eu @ lit '' is kind '' @ single_quoted actual @ lit '', but kind '' @ single_quoted kind @
     lit '' was supplied: an entity'' @ [39] @ lit ''s kind is immutable'' @ [32, 8212] @ lit '' assert a new entity of kind '' @
     single_quoted kind @ lit '' instead''"

definition rename_msg :: "entity_row \<Rightarrow> rstr \<Rightarrow> rstr \<Rightarrow> rstr" where
  "rename_msg existing name group_id =
     lit ''cannot rename entity '' @ single_quoted (er_uuid existing) @ lit '' to '' @ single_quoted name @ lit '': an active entity of kind '' @
     single_quoted (er_kind existing) @ lit '' in group '' @ single_quoted group_id @ lit '' already uses that name''"

definition resolve_target :: "'d handler_env \<Rightarrow> assert_request \<Rightarrow> ('d cstate, entity_row option) act" where
  "resolve_target H R =
     (case ar_entity_uuid R of
        Some eu \<Rightarrow>
          abind (resolve_entity_by_uuid (he_json H) (he_lbug H) (he_engine H) (ar_group_id R) eu) (\<lambda>e.
            if ar_kind_explicit R \<and> er_kind e \<noteq> ar_kind R then afail (Ipc (immutable_kind_msg eu (er_kind e) (ar_kind R)))
            else aret (Some e))
      | None \<Rightarrow>
          abind (resolve_entity_by_name (he_json H) (he_ucd H) (he_lbug H) (he_engine H) (ar_group_id R) (ar_name R) (Exact (ar_kind R))) (\<lambda>r.
            aret (case r of Existing e \<Rightarrow> Some e | NotFound \<Rightarrow> None)))"

definition guard_rename :: "'d handler_env \<Rightarrow> assert_request \<Rightarrow> entity_row \<Rightarrow> ('d cstate, unit) act" where
  "guard_rename H R existing =
     (if lower_trim (he_ucd H) (er_name existing) \<noteq> lower_trim (he_ucd H) (ar_name R)
      then abind (count_active_entities_by_name_ci (he_ucd H) (he_lbug H) (he_engine H) (ar_name R) (ar_group_id R) (Some (er_kind existing))) (\<lambda>n.
           if n > 0 then afail (Ipc (rename_msg existing (ar_name R) (ar_group_id R))) else aret ())
      else aret ())"

definition resolve_and_update_entity :: "'d handler_env \<Rightarrow> assert_request \<Rightarrow> ('d service, rstr option) act" where
  "resolve_and_update_entity H R =
     abind (on_conn (resolve_target H R)) (\<lambda>resolved.
       case resolved of
         None \<Rightarrow> aret None
       | Some existing \<Rightarrow>
           abind (on_conn (guard_rename H R existing)) (\<lambda>_.
           abind (on_conn (update_entity_core (he_ucd H) (he_lbug H) (he_engine H) existing (ar_name R) (ar_labels R) (ar_summary R) (ar_attributes R))) (\<lambda>_.
           abind (log_and_advance H (ar_group_id R)) (\<lambda>_. aret (Some (er_uuid existing))))))"

text \<open>The first pass: resolution under the lock.\<close>

definition entity_pass1 :: "'d handler_env \<Rightarrow> assert_request \<Rightarrow> ('d service, rstr option) act" where
  "entity_pass1 H R = abind (connect H) (\<lambda>_. resolve_and_update_entity H R)"

text \<open>What the embedder left for the second pass, with the fallback to zero vectors.\<close>

record embedded =
  eb_name :: "f64 list"
  eb_summary :: "f64 list"
  eb_warnings :: "rstr list"

definition embed_or_zero :: "'d handler_env \<Rightarrow> f64 list result \<Rightarrow> f64 list \<times> rstr option" where
  "embed_or_zero H r = (case r of Inr v \<Rightarrow> (v, None) | Inl e \<Rightarrow> (replicate (he_dim H) (Finite 0 0), Some (show_error (he_lbug H) e)))"

definition entity_embedding :: "'d handler_env \<Rightarrow> assert_request \<Rightarrow> (rstr \<Rightarrow> f64 list result) \<Rightarrow> embedded" where
  "entity_embedding H R emb =
     (let (name_embedding, name_err) = embed_or_zero H (emb (ar_name R));
          (summary_embedding, summary_err) =
            (if trim (ar_summary R) = [] then (replicate (he_dim H) (Finite 0 0), None) else embed_or_zero H (emb (ar_summary R)));
          warn = (\<lambda>field err. case err of None \<Rightarrow> [] | Some e \<Rightarrow> [lit ''embedder unavailable; stored a zero-vector '' @ field @ lit '': '' @ e])
      in \<lparr>eb_name = name_embedding, eb_summary = summary_embedding,
          eb_warnings = warn (lit ''name_embedding'') name_err @ warn (lit ''summary_embedding'') summary_err\<rparr>)"

definition asserted_row :: "assert_request \<Rightarrow> embedded \<Rightarrow> rstr \<Rightarrow> rstr \<Rightarrow> entity_row" where
  "asserted_row R eb uuid ts =
     default_entity_row\<lparr>er_ingested_at := [], er_uuid := uuid, er_name := ar_name R, er_group_id := ar_group_id R, er_labels := ar_labels R,
       er_kind := ar_kind R, er_created_at := ts, er_name_embedding := eb_name eb, er_summary := ar_summary R,
       er_attributes := ar_attributes R, er_episode_uuids := [], er_source_descriptions := [], er_summary_embedding := eb_summary eb\<rparr>"

text \<open>The second pass: resolution from scratch under the lock, and the insertion if there still is no such entity.\<close>

definition entity_pass2 :: "'d handler_env \<Rightarrow> assert_request \<Rightarrow> embedded \<Rightarrow> rstr \<Rightarrow> rstr \<Rightarrow> ('d service, rstr \<times> bool) act" where
  "entity_pass2 H R eb uuid ts =
     abind (connect H) (\<lambda>_.
     abind (resolve_and_update_entity H (R\<lparr>ar_entity_uuid := None\<rparr>)) (\<lambda>found.
       case found of
         Some u \<Rightarrow> aret (u, False)
       | None \<Rightarrow>
           abind (on_conn (insert_entity (he_ucd H) (he_lbug H) (he_engine H) (asserted_row R eb uuid ts))) (\<lambda>_.
           abind (log_and_advance H (ar_group_id R)) (\<lambda>_. aret (uuid, True)))))"

definition assert_reply :: "string \<Rightarrow> rstr \<Rightarrow> bool \<Rightarrow> rstr list \<Rightarrow> json" where
  "assert_reply key uuid created warnings =
     JObj [(lit key, JStr uuid), (lit ''created'', JBool created),
       (lit ''embedding_warning'', if warnings = [] then JNull else JStr (str_join (lit ''; '') warnings))]"

text \<open>The handler without interference; \<open>H1\<close> and \<open>H2\<close> are the surroundings of the two passes.\<close>

definition handle_assert_entity ::
  "'d handler_env \<Rightarrow> 'd handler_env \<Rightarrow> (rstr \<Rightarrow> f64 list result) \<Rightarrow> rstr \<Rightarrow> rstr \<Rightarrow> json \<Rightarrow> ('d service, json) act" where
  "handle_assert_entity H1 H2 emb uuid ts p =
     abind (aread (\<lambda>_. rbind (parse_assert_entity (he_json H1) p) (\<lambda>R. rbind (he_open H1) (\<lambda>_. Inr R)))) (\<lambda>R.
     abind (entity_pass1 H1 R) (\<lambda>found.
       case found of
         Some u \<Rightarrow> aret (assert_reply ''entity_uuid'' u False [])
       | None \<Rightarrow>
           (let eb = entity_embedding H1 R emb in
            abind (entity_pass2 H2 R eb uuid ts) (\<lambda>(u, created).
            aret (assert_reply ''entity_uuid'' u created (if created then eb_warnings eb else []))))))"

section \<open>Asserting a relationship\<close>

record edge_request =
  eq_source_name :: rstr
  eq_target_name :: rstr
  eq_predicate :: rstr
  eq_group_id :: rstr
  eq_fact :: rstr
  eq_attributes :: rstr
  eq_relation_type :: "rstr option"
  eq_valid_at :: "rstr option"
  eq_source_kind :: "rstr option"
  eq_target_kind :: "rstr option"

definition fact_param :: "json \<Rightarrow> rstr \<Rightarrow> rstr" where
  "fact_param v fallback =
     (case as_str v of None \<Rightarrow> fallback | Some t \<Rightarrow> if trim t = [] then fallback else t)"

definition parse_assert_relationship :: "lbug_env \<Rightarrow> json_text \<Rightarrow> json \<Rightarrow> edge_request result" where
  "parse_assert_relationship L J p =
     rbind (required_text p ''source_name'') (\<lambda>source_name.
     rbind (required_text p ''target_name'') (\<lambda>target_name.
     rbind (required_text p ''predicate'') (\<lambda>predicate.
     rbind (case as_str (value_index p (lit ''valid_at'')) of
              None \<Rightarrow> Inr None
            | Some raw \<Rightarrow> rbind (validate_and_normalize_valid_at L raw) (\<lambda>v. Inr (Some v))) (\<lambda>valid_at.
     rbind (optional_kind_param (value_index p (lit ''source_kind''))) (\<lambda>source_kind.
     rbind (optional_kind_param (value_index p (lit ''target_kind''))) (\<lambda>target_kind.
       Inr \<lparr>eq_source_name = source_name, eq_target_name = target_name, eq_predicate = predicate, eq_group_id = group_param p,
            eq_fact = fact_param (value_index p (lit ''fact'')) (source_name @ lit '' '' @ predicate @ lit '' '' @ target_name),
            eq_attributes = attributes_param_to_string J (value_index p (lit ''attributes'')),
            eq_relation_type = as_str (value_index p (lit ''relation_type'')), eq_valid_at = valid_at,
            eq_source_kind = source_kind, eq_target_kind = target_kind\<rparr>))))))"

definition no_endpoint_msg :: "rstr \<Rightarrow> rstr \<Rightarrow> rstr" where
  "no_endpoint_msg n group_id =
     single_quoted n @ lit '' does not exist in group '' @ single_quoted group_id @ [32, 8212] @
     lit '' knowledge_assert_relationship only resolves endpoints within its own '' @
     lit ''group_id and never falls back to a cross-group search; use '' @
     lit ''knowledge_add_cross_group_edge to connect entities across groups''"

definition resolve_or_err :: "'d handler_env \<Rightarrow> rstr \<Rightarrow> rstr \<Rightarrow> rstr option \<Rightarrow> ('d cstate, entity_row) act" where
  "resolve_or_err H group_id n kind =
     abind (resolve_entity_by_name (he_json H) (he_ucd H) (he_lbug H) (he_engine H) group_id n (for_read kind)) (\<lambda>r.
       case r of Existing e \<Rightarrow> aret e | NotFound \<Rightarrow> afail (Ipc (no_endpoint_msg n group_id)))"

definition resolve_and_update_edge ::
  "'d handler_env \<Rightarrow> edge_request \<Rightarrow> rstr \<Rightarrow> rstr \<Rightarrow> ('d service, rstr option \<times> rstr \<times> rstr) act" where
  "resolve_and_update_edge H Q source_uuid target_uuid =
     abind (on_conn (resolve_entity_by_uuid (he_json H) (he_lbug H) (he_engine H) (eq_group_id Q) source_uuid)) (\<lambda>src.
     abind (on_conn (resolve_entity_by_uuid (he_json H) (he_lbug H) (he_engine H) (eq_group_id Q) target_uuid)) (\<lambda>tgt.
     abind (on_conn (find_active_relates_to_uuid (he_lbug H) (he_engine H) (er_uuid src) (er_uuid tgt) (eq_predicate Q) (eq_group_id Q))) (\<lambda>found.
       case found of
         None \<Rightarrow> aret (None, er_uuid src, er_uuid tgt)
       | Some u \<Rightarrow>
           abind (on_conn (update_relates_to_core (he_lbug H) (he_engine H) u (eq_fact Q) (eq_valid_at Q) (eq_relation_type Q) (eq_attributes Q))) (\<lambda>_.
           abind (log_and_advance H (eq_group_id Q)) (\<lambda>_. aret (Some u, er_uuid src, er_uuid tgt))))))"

definition edge_pass1 :: "'d handler_env \<Rightarrow> edge_request \<Rightarrow> ('d service, rstr option \<times> rstr \<times> rstr) act" where
  "edge_pass1 H Q =
     abind (connect H) (\<lambda>_.
     abind (on_conn (resolve_or_err H (eq_group_id Q) (eq_source_name Q) (eq_source_kind Q))) (\<lambda>src.
     abind (on_conn (resolve_or_err H (eq_group_id Q) (eq_target_name Q) (eq_target_kind Q))) (\<lambda>tgt.
     resolve_and_update_edge H Q (er_uuid src) (er_uuid tgt))))"

definition asserted_edge :: "edge_request \<Rightarrow> f64 list \<Rightarrow> rstr \<Rightarrow> rstr \<Rightarrow> rstr \<Rightarrow> rstr \<Rightarrow> relates_to_edge" where
  "asserted_edge Q fact_embedding uuid ts src dst =
     \<lparr>re_uuid = uuid, re_name = eq_predicate Q, re_source_node_uuid = src, re_target_node_uuid = dst, re_group_id = eq_group_id Q,
      re_fact = eq_fact Q, re_fact_embedding = fact_embedding, re_created_at = ts, re_ingested_at = [], re_valid_at = eq_valid_at Q,
      re_invalid_at = None, re_attributes = eq_attributes Q, re_relation_type = eq_relation_type Q, re_episode_uuids = [],
      re_source_descriptions = []\<rparr>"

definition edge_pass2 ::
  "'d handler_env \<Rightarrow> edge_request \<Rightarrow> f64 list \<Rightarrow> rstr \<Rightarrow> rstr \<Rightarrow> rstr \<Rightarrow> rstr \<Rightarrow> ('d service, rstr \<times> bool) act" where
  "edge_pass2 H Q fact_embedding uuid ts source_uuid target_uuid =
     abind (connect H) (\<lambda>_.
     abind (resolve_and_update_edge H Q source_uuid target_uuid) (\<lambda>(existing, src, tgt).
       case existing of
         Some u \<Rightarrow> aret (u, False)
       | None \<Rightarrow>
           abind (on_conn (insert_relates_to_edge (he_lbug H) (he_engine H) (asserted_edge Q fact_embedding uuid ts src tgt))) (\<lambda>_.
           abind (log_and_advance H (eq_group_id Q)) (\<lambda>_. aret (uuid, True)))))"

definition handle_assert_relationship ::
  "'d handler_env \<Rightarrow> 'd handler_env \<Rightarrow> (rstr \<Rightarrow> f64 list result) \<Rightarrow> rstr \<Rightarrow> rstr \<Rightarrow> json \<Rightarrow> ('d service, json) act" where
  "handle_assert_relationship H1 H2 emb uuid ts p =
     abind (aread (\<lambda>_. rbind (parse_assert_relationship (he_lbug H1) (he_json H1) p) (\<lambda>Q. rbind (he_open H1) (\<lambda>_. Inr Q)))) (\<lambda>Q.
     abind (edge_pass1 H1 Q) (\<lambda>(found, source_uuid, target_uuid).
       case found of
         Some u \<Rightarrow> aret (assert_reply ''edge_uuid'' u False [])
       | None \<Rightarrow>
           (let (fact_embedding, err) = embed_or_zero H1 (emb (eq_fact Q)) in
            abind (edge_pass2 H2 Q fact_embedding uuid ts source_uuid target_uuid) (\<lambda>(u, created).
            aret (assert_reply ''edge_uuid'' u created (case err of
                    None \<Rightarrow> []
                  | Some e \<Rightarrow> if created then [lit ''embedder unavailable; stored a zero-vector fact_embedding: '' @ e] else []))))))"

section \<open>Interleaved calls\<close>

datatype call_phase = Waiting | Embedding | Answered "(rstr \<times> bool) result"

definition after_pass1 :: "rstr option result \<Rightarrow> call_phase" where
  "after_pass1 r = (case r of Inl e \<Rightarrow> Answered (Inl e) | Inr None \<Rightarrow> Embedding | Inr (Some u) \<Rightarrow> Answered (Inr (u, False)))"

text \<open>Any number of calls with the requests \<open>R i\<close>.  A pass holds the lock and is one step; between its two passes a call
  only waits for the embedder, whose answer, like the minted identifier, the clock and the outcomes of the
  connection and of the log, is whatever it is.\<close>

definition in_call :: "('d \<Rightarrow> rstr + unit) \<Rightarrow> (nat \<Rightarrow> mutation \<Rightarrow> io_outcome \<times> rstr) \<Rightarrow> 'd handler_env \<Rightarrow> 'd handler_env" where
  "in_call cn io H = H\<lparr>he_connect := cn, he_io := io\<rparr>"

inductive assert_step ::
  "'d handler_env \<Rightarrow> (nat \<Rightarrow> assert_request) \<Rightarrow> 'd service \<times> (nat \<Rightarrow> call_phase) \<Rightarrow> 'd service \<times> (nat \<Rightarrow> call_phase) \<Rightarrow> bool"
  for H R where
  first: "calls i = Waiting \<Longrightarrow> entity_pass1 (in_call cn io H) (R i) w = Some (w', r)
    \<Longrightarrow> assert_step H R (w, calls) (w', calls(i := after_pass1 r))"
| second: "calls i = Embedding \<Longrightarrow> entity_pass2 (in_call cn io H) (R i) eb uuid ts w = Some (w', r)
    \<Longrightarrow> assert_step H R (w, calls) (w', calls(i := Answered r))"

section \<open>The table of entities under assertions\<close>

definition active :: "entity_row \<Rightarrow> bool" where
  "active e \<longleftrightarrow> MERGED \<notin> set (er_labels e)"

definition one_active :: "ucd \<Rightarrow> entity_row set \<Rightarrow> bool" where
  "one_active U T \<longleftrightarrow> (\<forall>a \<in> T. \<forall>b \<in> T. active a \<longrightarrow> active b \<longrightarrow> hit_fits U (er_name b) (er_group_id b) (er_kind b) a
     \<longrightarrow> er_uuid a = er_uuid b)"

definition tidy :: "entity_row set \<Rightarrow> bool" where
  "tidy T \<longleftrightarrow> (\<forall>e \<in> T. trim (er_name e) = er_name e \<and> trim (er_kind e) = er_kind e \<and> er_kind e \<noteq> [])"

text \<open>What an update leaves of the row it changes.\<close>

definition updated_row :: "entity_row \<Rightarrow> rstr \<Rightarrow> rstr list \<Rightarrow> rstr \<Rightarrow> rstr \<Rightarrow> entity_row \<Rightarrow> entity_row" where
  "updated_row x n ls sm at e =
     (if er_uuid e = er_uuid x
      then e\<lparr>er_name := n, er_labels := labels_with_kind ls (normalize_row_kind (er_kind x)), er_summary := sm, er_attributes := at,
             er_group_id := er_group_id x, er_kind := normalize_row_kind (er_kind x)\<rparr>
      else e)"

text \<open>On top of what the queries return (\<open>table_ok\<close>): a failed statement changes no entity, creating adds the row, updating
  changes the row of that identifier, counting looks at the lower case of the stored name, and the table of positions is
  another one.\<close>

definition assert_ok :: "ucd \<Rightarrow> lbug_env \<Rightarrow> 'd lbug_engine \<Rightarrow> ('d \<Rightarrow> entity_row list) \<Rightarrow> bool" where
  "assert_ok U L E V \<longleftrightarrow>
     table_ok U L E V
   \<and> (\<forall>q \<in> {CREATE_ENTITY, UPDATE_ENTITY}. \<forall>b d e. snd (en_execute E q b d) = Inl e \<longrightarrow> V (fst (en_execute E q b d)) = V d)
   \<and> (\<forall>q \<in> {COUNT_ACTIVE, SET_POSITION}. \<forall>b d. V (fst (en_execute E q b d)) = V d)
   \<and> (\<forall>row kind d d' rows. en_execute E CREATE_ENTITY (json_params_to_values L (insert_entity_params U L row kind)) d = (d', Inr rows)
        \<longrightarrow> trim kind = kind \<longrightarrow> kind \<noteq> []
        \<longrightarrow> (\<exists>e. set (V d') = insert e (set (V d)) \<and> er_uuid e = er_uuid row \<and> er_name e = er_name row \<and> er_group_id e = er_group_id row
               \<and> er_kind e = kind \<and> er_labels e = labels_with_kind (er_labels row) kind))
   \<and> (\<forall>x n ls sm at d d' rows. en_execute E UPDATE_ENTITY (json_params_to_values L (update_entity_params U x n ls sm at)) d = (d', Inr rows)
        \<longrightarrow> x \<in> set (V d) \<longrightarrow> set (V d') = updated_row x n ls sm at ` set (V d))
   \<and> (\<forall>n g d rows. snd (en_execute E COUNT_ACTIVE [(lit ''lower_name'', VString n), (lit ''gid'', VString g)] d) = Inr rows
        \<longrightarrow> map (active_columns L) rows
          = map (\<lambda>e. Some (er_labels e, er_kind e)) (filter (\<lambda>e. ucd_lower_str U (er_name e) = n \<and> er_group_id e = g) (V d)))"

text \<open>The view after a statement: as before, or as one successful execution leaves it, whatever was tried before that.\<close>

definition one_execution :: "('d \<Rightarrow> 'v) \<Rightarrow> ('d \<Rightarrow> 'd \<times> (rstr + lval list list)) \<Rightarrow> 'd cstate \<Rightarrow> 'd cstate \<Rightarrow> bool" where
  "one_execution V x s t \<longleftrightarrow> V (cs_db t) = V (cs_db s) \<or> (\<exists>d rows. V d = V (cs_db s) \<and> x d = (cs_db t, Inr rows))"

lemma one_execution_after: "V (cs_db t) = V (cs_db s) \<Longrightarrow> one_execution V x t u \<Longrightarrow> one_execution V x s u"
  by (auto simp: one_execution_def)

lemma exec_view:
  assumes f: "fts_invisible E V"
    and fail: "\<And>d e. snd (en_execute E q (json_params_to_values L p) d) = Inl e \<Longrightarrow> V (fst (en_execute E q (json_params_to_values L p) d)) = V d"
    and r: "exec_params L E q p s = Some (s', r)"
  shows "one_execution V (en_execute E q (json_params_to_values L p)) s s'"
proof -
  let ?x = "en_execute E q (json_params_to_values L p)" and ?e = "execute_prepared L E q p"
  have e: "one_execution V ?x t t'" "x = Inl err \<Longrightarrow> V (cs_db t') = V (cs_db t)" if "?e t = Some (t', x)" for t t' x err
    using that fail [of "cs_db t"]
    by (auto simp: one_execution_def execute_prepared_def abind_def on_db_def aret_def of_lbug_def map_sum_def split: prod.splits sum.splits)
  have p: "V (cs_db t') = V (cs_db t)" if "prepare E q t = Some (t', x)" for t t' x
    using that by (auto simp: prepare_def aread_def)
  have pe: "one_execution V ?x t t'" if "abind (prepare E q) (\<lambda>_. ?e) t = Some (t', x)" for t t' x
    using that
  proof (cases rule: bind_run)
    case (err e)
    with p show ?thesis by (simp add: one_execution_def)
  next
    case (val u y)
    from one_execution_after [of V u t, OF p [OF val(1)] e(1) [OF val(2)]] show ?thesis .
  qed
  have w: "one_execution V ?x t t'" if "with_backstop L E ?e (abind (prepare E q) (\<lambda>_. ?e)) t = Some (t', x)" for t t' x
    using that unfolding with_backstop_def
  proof (cases rule: try_run)
    case (err u er)
    from e(2) [OF err(1)] have u: "V (cs_db u) = V (cs_db t)" by simp
    from err(2) show ?thesis
    proof (cases rule: bind_run)
      case (err e)
      with framesD [OF same.view_repair [OF f] err(1)] u show ?thesis by (simp add: one_execution_def on_view_def)
    next
      case (val v b)
      have v: "V (cs_db v) = V (cs_db t)" using framesD [OF same.view_repair [OF f] val(1)] u by (simp add: on_view_def)
      show ?thesis
      proof (cases b)
        case True
        with val(2) pe [of v t' x] one_execution_after [of V v t, OF v] show ?thesis by simp
      next
        case False
        with val(2) v show ?thesis by (simp add: afail_def one_execution_def)
      qed
    qed
  next
    case (val y)
    with e(1) show ?thesis by blast
  qed
  from r [unfolded exec_params_def] show ?thesis
  proof (cases rule: bind_run)
    case (err er)
    with p show ?thesis by (simp add: one_execution_def)
  next
    case (val t y)
    note t = p [OF val(1)]
    from val(2) show ?thesis
    proof (cases rule: bind_run)
      case (err er)
      with one_execution_after [of V t s, OF t w] show ?thesis by blast
    next
      case (val u y)
      then have "cs_db s' = cs_db u" by (auto simp: record_mutation_def amodify_def)
      moreover have "one_execution V ?x s u" using one_execution_after [of V t s, OF t w [OF val(1)]] .
      ultimately show ?thesis by (simp add: one_execution_def)
    qed
  qed
qed

section \<open>What the passes do to the table\<close>

lemma lookup_same:
  assumes ok: "table_ok U L E V" and r: "get_entity_by_name_ci_with_scan_fallback U L E n g k s = Some (s', r)"
  shows "V (cs_db s') = V (cs_db s)"
proof -
  have note_same: "V (cs_db t') = V (cs_db t)" if "record_lookup_key_fallback_scan t = Some (t', x)" for t t' x
    using that by (auto simp: record_lookup_key_fallback_scan_def amodify_def)
  have scan_frame: "frames (on_view V (=)) (scan_entities_by_name_ci U L E n g k')" for k'
    unfolding scan_entities_by_name_ci_def by (intro same.bind same.decode frame_query [OF ok] frame_hydrate [OF ok]) simp
  have fb: "V (cs_db t') = V (cs_db t)" if t: "fall_back U L E n g k t = Some (t', x)" for t t' x
    using t unfolding fall_back_def
  proof (cases rule: bind_run)
    case (err e)
    with note_same show ?thesis by blast
  next
    case (val u y)
    note u = note_same [OF val(1)]
    from val(2) show ?thesis
    proof (cases rule: bind_run)
      case (err e)
      with framesD [OF scan_frame err(1)] u show ?thesis by (simp add: on_view_def)
    next
      case (val v rows)
      from scan_result [OF ok val(1)] have v: "V (cs_db v) = V (cs_db u)"
        and rows: "rows = take 1 (filter (fits U n g (Some k)) (V (cs_db u)))" by simp_all
      show ?thesis
      proof (cases rows)
        case Nil
        with val(2) u v show ?thesis by (simp add: aret_def)
      next
        case (Cons e es)
        then have "e \<in> set (filter (fits U n g (Some k)) (V (cs_db u)))" using rows by (metis in_set_takeD list.set_intros(1))
        then have "e \<in> set (V (cs_db v))" using v by simp
        moreover obtain y where "self_heal_lookup_key U L E e v = Some (t', y)"
          using val(2) Cons by (auto simp: abind_def aret_def split: option.splits sum.splits)
        ultimately have "V (cs_db t') = V (cs_db v)" using self_heal_keeps [OF ok] by blast
        with u v show ?thesis by simp
      qed
    qed
  qed
  from r [unfolded get_entity_by_name_ci_with_scan_fallback_def] show ?thesis
  proof (cases rule: bind_run)
    case (err e)
    with framesD [OF frame_by_key [OF ok] err(1)] show ?thesis by (simp add: on_view_def)
  next
    case (val t hit)
    from framesD [OF frame_by_key [OF ok] val(1)] have t: "V (cs_db t) = V (cs_db s)" by (simp add: on_view_def)
    from val(2) have "s' = t \<or> (\<exists>x. fall_back U L E n g k t = Some (s', x))"
      by (auto simp: aret_def split: option.splits if_splits)
    with fb t show ?thesis by auto
  qed
qed

lemma abind_aret: "abind (aret x) f = f x"
  by (simp add: abind_def aret_def fun_eq_iff)

lemma by_uuid_member:
  assumes ok: "table_ok U L E V" and r: "get_entity_by_uuid L E u s = Some (s', x)"
  shows "V (cs_db s') = V (cs_db s)" "x = Inr (Some e) \<Longrightarrow> e \<in> set (V (cs_db s)) \<and> er_uuid e = u"
    "x = Inr None \<Longrightarrow> u \<notin> er_uuid ` set (V (cs_db s))"
proof -
  show "V (cs_db s') = V (cs_db s)" using framesD [OF frame_by_uuid [OF ok] r] by (simp add: on_view_def)
  have f: "y = find (\<lambda>e. er_uuid e = u) (V (cs_db s))" if "x = Inr y" for y using by_uuid_result [OF ok] r that by blast
  show "e \<in> set (V (cs_db s)) \<and> er_uuid e = u" if "x = Inr (Some e)"
    using f [OF that] by (auto simp: find_Some_iff in_set_conv_nth dest!: sym [of "Some e"])
  show "u \<notin> er_uuid ` set (V (cs_db s))" if "x = Inr None"
    using f [OF that] by (auto simp: find_None_iff dest!: sym [of None])
qed

text \<open>The walk along the forwarding references leaves the table alone and ends at an active entity of the group.\<close>

definition walked :: "('d \<Rightarrow> entity_row list) \<Rightarrow> rstr \<Rightarrow> 'd cstate \<Rightarrow> 'd cstate \<times> entity_row option result \<Rightarrow> bool" where
  "walked V g s y \<longleftrightarrow> V (cs_db (fst y)) = V (cs_db s)
     \<and> (\<forall>e. snd y = Inr (Some e) \<longrightarrow> e \<in> set (V (cs_db s)) \<and> active e \<and> er_group_id e = g)"

lemma walked_after: "V (cs_db t) = V (cs_db s) \<Longrightarrow> walked V g t y \<Longrightarrow> walked V g s y"
  by (simp add: walked_def)

lemma walked_stop: "V (cs_db t) = V (cs_db s) \<Longrightarrow> walked V g s (t, Inr None)" "V (cs_db t) = V (cs_db s) \<Longrightarrow> walked V g s (t, Inl er)"
  by (simp_all add: walked_def)

lemma forward_merged_inv:
  fixes V :: "'d \<Rightarrow> entity_row list"
  assumes "forward_merged J L E g vs cur s = Some y"
  shows "table_ok U L E V \<longrightarrow> walked V g s y"
  using assms
proof (rule forward_merged.raw_induct [where P = "\<lambda>J L E g vs cur s y. table_ok U L E V \<longrightarrow> walked V g s y", rotated])
  fix f :: "json_text \<Rightarrow> lbug_env \<Rightarrow> 'd lbug_engine \<Rightarrow> rstr \<Rightarrow> rstr set \<Rightarrow> entity_row \<Rightarrow> 'd cstate \<Rightarrow> ('d cstate \<times> entity_row option result) option"
    and J :: json_text and L :: lbug_env and E :: "'d lbug_engine" and g vs and cur :: entity_row and s :: "'d cstate" and y
  assume ih: "\<And>J L E g vs cur s y. f J L E g vs cur s = Some y \<Longrightarrow> table_ok U L E V \<longrightarrow> walked V g s y"
    and step: "(case read_merged_into J (er_attributes cur) of
        None \<Rightarrow> Some (s, Inr None)
      | Some target_uuid \<Rightarrow>
          if target_uuid \<in> vs then Some (s, Inr None)
          else (case get_entity_by_uuid L E target_uuid s of
                  None \<Rightarrow> None
                | Some (s', Inl e) \<Rightarrow> Some (s', Inl e)
                | Some (s', Inr None) \<Rightarrow> Some (s', Inr None)
                | Some (s', Inr (Some nxt)) \<Rightarrow>
                    if er_group_id nxt \<noteq> g then Some (s', Inr None)
                    else if MERGED \<notin> set (er_labels nxt) then Some (s', Inr (Some nxt))
                    else f J L E g (insert target_uuid vs) nxt s')) = Some y"
  show "table_ok U L E V \<longrightarrow> walked V g s y"
  proof
    assume ok: "table_ok U L E V"
    consider (stop) "y = (s, Inr None)"
      | (read) t u x where "get_entity_by_uuid L E u s = Some (t, x)" "y = (t, Inr None) \<or> (\<exists>er. y = (t, Inl er))"
      | (arrive) t u e where "get_entity_by_uuid L E u s = Some (t, Inr (Some e))" "y = (t, Inr (Some e))" "active e" "er_group_id e = g"
      | (hop) t u e vs' where "get_entity_by_uuid L E u s = Some (t, Inr (Some e))" "f J L E g vs' e t = Some y"
      using step by (auto simp: active_def split: option.splits if_splits sum.splits)
    then show "walked V g s y"
    proof cases
      case stop
      then show ?thesis by (simp add: walked_stop)
    next
      case read
      with by_uuid_member(1) [OF ok] show ?thesis by (auto intro: walked_stop)
    next
      case arrive
      with by_uuid_member(1) [OF ok arrive(1)] by_uuid_member(2) [OF ok arrive(1) refl] show ?thesis by (simp add: walked_def)
    next
      case hop
      from ih [OF hop(2)] ok walked_after [OF by_uuid_member(1) [OF ok hop(1)]] show ?thesis by blast
    qed
  qed
qed

lemma forward_merged_result: "table_ok U L E V \<Longrightarrow> forward_merged J L E g vs cur s = Some y \<Longrightarrow> walked V g s y"
  using forward_merged_inv by blast

lemma forward_one:
  assumes ok: "table_ok U L E V" and w: "w \<in> set (V (cs_db s))" "er_group_id w = g"
    and r: "forward_winners J L E g n [w] s = Some (s', r)"
  shows "V (cs_db s') = V (cs_db s) \<and> (\<forall>cs. r = Inr cs \<longrightarrow> (\<exists>c. cs = [c] \<and> c \<in> set (V (cs_db s)) \<and> active c \<and> er_group_id c = g))"
proof (cases "active w")
  case True
  with r w show ?thesis by (auto simp: active_def abind_def aret_def)
next
  case False
  with r have "abind (forward_merged J L E g {er_uuid w} w)
      (case_option (afail (Ipc (tombstone_msg n g))) (\<lambda>c. abind (aret []) (\<lambda>cs. aret (c # cs)))) s = Some (s', r)" by (simp add: active_def)
  then show ?thesis
  proof (cases rule: bind_run)
    case (err e)
    with forward_merged_result [OF ok err(1)] show ?thesis by (simp add: walked_def)
  next
    case (val t x)
    with forward_merged_result [OF ok val(1)] show ?thesis
      by (auto simp: walked_def afail_def abind_def aret_def split: option.splits)
  qed
qed

text \<open>The target of an assertion: an active entity of the group, or no entity of this name at all.\<close>

lemma resolve_target_result:
  assumes ok: "table_ok (he_ucd H) (he_lbug H) (he_engine H) V" and r: "resolve_target H R s = Some (s', r)"
  shows "V (cs_db s') = V (cs_db s)
    \<and> (\<forall>e. r = Inr (Some e) \<longrightarrow> e \<in> set (V (cs_db s)) \<and> active e \<and> er_group_id e = ar_group_id R)
    \<and> (r = Inr None \<longrightarrow> ar_entity_uuid R = None \<and> (\<forall>e \<in> set (V (cs_db s)). \<not> hit_fits (he_ucd H) (ar_name R) (ar_group_id R) (ar_kind R) e))"
proof (cases "ar_entity_uuid R")
  case (Some u)
  let ?m = "resolve_entity_by_uuid (he_json H) (he_lbug H) (he_engine H) (ar_group_id R) u"
  have m: "V (cs_db t) = V (cs_db s) \<and> (\<forall>e. x = Inr e \<longrightarrow> e \<in> set (V (cs_db s)) \<and> active e \<and> er_group_id e = ar_group_id R)"
    if "?m s = Some (t, x)" for t x
    using that unfolding resolve_entity_by_uuid_def
  proof (cases rule: bind_run)
    case (err e)
    with by_uuid_member(1) [OF ok err(1)] show ?thesis by simp
  next
    case (val v found)
    note v = by_uuid_member [OF ok val(1)]
    show ?thesis
    proof (cases found)
      case None
      with val(2) v(1) show ?thesis by (auto simp: afail_def)
    next
      case (Some e)
      with v(2) have e: "e \<in> set (V (cs_db s))" by simp
      show ?thesis
      proof (cases "er_group_id e \<noteq> ar_group_id R \<or> active e")
        case True
        with val(2) Some v(1) e show ?thesis by (auto simp: afail_def aret_def active_def split: if_splits)
      next
        case False
        with val(2) Some have "abind (forward_merged (he_json H) (he_lbug H) (he_engine H) (ar_group_id R) {er_uuid e} e)
            (\<lambda>r. case r of None \<Rightarrow> afail (Ipc (dead_uuid_msg u (ar_group_id R))) | Some c \<Rightarrow> aret c) v = Some (t, x)" by (simp add: active_def)
        then show ?thesis
        proof (cases rule: bind_run)
          case (err er)
          with forward_merged_result [OF ok err(1)] v(1) show ?thesis by (simp add: walked_def)
        next
          case (val z c)
          with forward_merged_result [OF ok val(1)] v(1) show ?thesis by (auto simp: walked_def afail_def aret_def split: option.splits)
        qed
      qed
    qed
  qed
  from r Some have "abind ?m (\<lambda>e. if ar_kind_explicit R \<and> er_kind e \<noteq> ar_kind R then afail (Ipc (immutable_kind_msg u (er_kind e) (ar_kind R)))
      else aret (Some e)) s = Some (s', r)" by (simp add: resolve_target_def)
  then show ?thesis
  proof (cases rule: bind_run)
    case (err e)
    with m [OF err(1)] show ?thesis by simp
  next
    case (val t x)
    with m [OF val(1)] show ?thesis by (auto simp: afail_def aret_def split: if_splits)
  qed
next
  case None
  let ?l = "get_entity_by_name_ci_with_scan_fallback (he_ucd H) (he_lbug H) (he_engine H) (ar_name R) (ar_group_id R) (ar_kind R)"
  let ?f = "forward_winners (he_json H) (he_lbug H) (he_engine H) (ar_group_id R) (ar_name R)"
  let ?g = "\<lambda>cs. case cs of [] \<Rightarrow> aret NotFound | [c] \<Rightarrow> aret (Existing c) | _ \<Rightarrow> afail (ambiguity_error (ar_name R) (ar_group_id R) cs)"
  let ?e = "\<lambda>r. aret (case r of Existing e \<Rightarrow> Some e | NotFound \<Rightarrow> None)"
  have "resolve_target H R = abind ?l (\<lambda>x. abind (?f (case x of None \<Rightarrow> [] | Some e \<Rightarrow> [e])) (\<lambda>cs. abind (?g cs) ?e))"
    using None by (simp add: resolve_target_def resolve_entity_by_name_def abind_assoc abind_aret)
  with r have "abind ?l (\<lambda>x. abind (?f (case x of None \<Rightarrow> [] | Some e \<Rightarrow> [e])) (\<lambda>cs. abind (?g cs) ?e)) s = Some (s', r)" by simp
  then show ?thesis
  proof (cases rule: bind_run)
    case (err e)
    with lookup_same [OF ok err(1)] show ?thesis by simp
  next
    case (val t x)
    from lookup_result [OF ok val(1)] have t: "V (cs_db t) = V (cs_db s)"
      and x: "case x of None \<Rightarrow> \<forall>e \<in> set (V (cs_db s)). \<not> hit_fits (he_ucd H) (ar_name R) (ar_group_id R) (ar_kind R) e
        | Some e \<Rightarrow> e \<in> set (V (cs_db s)) \<and> hit_fits (he_ucd H) (ar_name R) (ar_group_id R) (ar_kind R) e" by simp_all
    show ?thesis
    proof (cases x)
      case None
      with val(2) t x \<open>ar_entity_uuid R = None\<close> show ?thesis by (auto simp: abind_aret aret_def abind_def)
    next
      case (Some w)
      with x t have w: "w \<in> set (V (cs_db t))" "er_group_id w = ar_group_id R" by (auto simp: hit_fits_def)
      from val(2) have "abind (?f [w]) (\<lambda>cs. abind (?g cs) ?e) t = Some (s', r)" unfolding Some option.case .
      then show ?thesis
      proof (cases rule: bind_run)
        case (err e)
        with forward_one [of _ _ _ V, OF ok w err(1)] t show ?thesis by simp
      next
        case (val u cs)
        with forward_one [of _ _ _ V, OF ok w val(1)] t show ?thesis by (auto simp: abind_def aret_def)
      qed
    qed
  qed
qed

lemma assert_ok_table: "assert_ok U L E V \<Longrightarrow> table_ok U L E V"
  by (simp add: assert_ok_def)

lemma assert_ok_create:
  assumes "assert_ok U L E V" "en_execute E CREATE_ENTITY (json_params_to_values L (insert_entity_params U L row kind)) d = (d', Inr rows)"
    "trim kind = kind" "kind \<noteq> []"
  shows "\<exists>e. set (V d') = insert e (set (V d)) \<and> er_uuid e = er_uuid row \<and> er_name e = er_name row \<and> er_group_id e = er_group_id row
    \<and> er_kind e = kind \<and> er_labels e = labels_with_kind (er_labels row) kind"
  using assms(1) [unfolded assert_ok_def, THEN conjunct2, THEN conjunct2, THEN conjunct2, THEN conjunct1, rule_format, OF assms(2-4)] .

lemma assert_ok_update:
  assumes "assert_ok U L E V" "en_execute E UPDATE_ENTITY (json_params_to_values L (update_entity_params U x n ls sm at)) d = (d', Inr rows)"
    "x \<in> set (V d)"
  shows "set (V d') = updated_row x n ls sm at ` set (V d)"
  using assms(1) [unfolded assert_ok_def, THEN conjunct2, THEN conjunct2, THEN conjunct2, THEN conjunct2, THEN conjunct1, rule_format, OF assms(2,3)] .

lemma count_params:
  "json_params_to_values L (JObj [(lit ''lower_name'', JStr n), (lit ''gid'', JStr g)]) = [(lit ''lower_name'', VString n), (lit ''gid'', VString g)]"
  by (simp add: json_params_to_values_def json_value_for_param_def TIMESTAMP_PARAM_NAMES_def)

lemma count_frame: "assert_ok U L E V \<Longrightarrow> frames (on_view V (=)) (count_active_entities_by_name_ci U L E n g k)"
  unfolding count_active_entities_by_name_ci_def
  by (intro same.bind same.decode same.ret same.view_query_params) (simp add: assert_ok_def)

text \<open>The count looks at the stored name as it is: it is exact for names without surrounding space.\<close>

lemma count_zero:
  assumes ok: "assert_ok U L E V" and r: "count_active_entities_by_name_ci U L E n g (Some k) s = Some (s', Inr 0)"
    and t: "tidy (set (V (cs_db s)))" and e: "e \<in> set (V (cs_db s))" "active e"
  shows "\<not> hit_fits U n g k e"
proof
  assume h: "hit_fits U n g k e"
  let ?p = "JObj [(lit ''lower_name'', JStr (lower_trim U n)), (lit ''gid'', JStr g)]"
  from r [unfolded count_active_entities_by_name_ci_def] obtain t rows where
    d: "decoded (active_columns L) (query_params L E COUNT_ACTIVE ?p) s = Some (t, Inr rows)"
    and z: "filter (\<lambda>(labels, k'). MERGED \<notin> set labels \<and> k' = k) rows = []"
    by (auto simp: aret_def elim!: bind_result simp del: lit_Cons)
  from decoded_result [OF d] obtain raw where raw: "query_params L E COUNT_ACTIVE ?p s = Some (t, Inr raw)"
    and m: "map (active_columns L) raw = map Some rows" by blast
  have "map (active_columns L) raw
      = map (\<lambda>e. Some (er_labels e, er_kind e)) (filter (\<lambda>e. ucd_lower_str U (er_name e) = lower_trim U n \<and> er_group_id e = g) (V (cs_db s)))"
    using ok query_result [OF raw] unfolding count_params by (simp add: assert_ok_def)
  from arg_cong [OF this, of set] have all: "Some ` set rows
      = (\<lambda>e. Some (er_labels e, er_kind e)) ` set (filter (\<lambda>e. ucd_lower_str U (er_name e) = lower_trim U n \<and> er_group_id e = g) (V (cs_db s)))"
    unfolding m by (simp only: list.set_map)
  have "ucd_lower_str U (er_name e) = lower_trim U n \<and> er_group_id e = g"
    using h e t by (auto simp: hit_fits_def lower_trim_def tidy_def)
  with e have "e \<in> set (filter (\<lambda>e. ucd_lower_str U (er_name e) = lower_trim U n \<and> er_group_id e = g) (V (cs_db s)))" by simp
  then have "Some (er_labels e, er_kind e) \<in> Some ` set rows" unfolding all by (rule imageI)
  then have "(er_labels e, er_kind e) \<in> set rows" by auto
  moreover have "er_kind e = k" "MERGED \<notin> set (er_labels e)" using h e by (simp_all add: hit_fits_def active_def)
  ultimately show False using z by (auto simp: filter_empty_conv)
qed

lemma guard_rename_result:
  assumes ok: "assert_ok (he_ucd H) (he_lbug H) (he_engine H) V" and r: "guard_rename H R x s = Some (s', r)"
  shows "V (cs_db s') = V (cs_db s)
    \<and> (r = Inr () \<longrightarrow> tidy (set (V (cs_db s))) \<longrightarrow> lower_trim (he_ucd H) (er_name x) \<noteq> lower_trim (he_ucd H) (ar_name R) \<longrightarrow>
        (\<forall>e \<in> set (V (cs_db s)). active e \<longrightarrow> \<not> hit_fits (he_ucd H) (ar_name R) (ar_group_id R) (er_kind x) e))"
proof (cases "lower_trim (he_ucd H) (er_name x) = lower_trim (he_ucd H) (ar_name R)")
  case True
  with r show ?thesis by (simp add: guard_rename_def aret_def)
next
  case False
  let ?c = "count_active_entities_by_name_ci (he_ucd H) (he_lbug H) (he_engine H) (ar_name R) (ar_group_id R) (Some (er_kind x))"
  from False r have "abind ?c (\<lambda>n. if n > 0 then afail (Ipc (rename_msg x (ar_name R) (ar_group_id R))) else aret ()) s = Some (s', r)"
    by (simp add: guard_rename_def)
  then show ?thesis
  proof (cases rule: bind_run)
    case (err e)
    with framesD [OF count_frame [OF ok] err(1)] show ?thesis by (simp add: on_view_def)
  next
    case (val t n)
    with framesD [OF count_frame [OF ok] val(1)] have t: "V (cs_db t) = V (cs_db s)" by (simp add: on_view_def)
    show ?thesis
    proof (cases "n = 0")
      case True
      with val count_zero [OF ok] t show ?thesis by (auto simp: aret_def)
    next
      case False
      with val(2) t show ?thesis by (auto simp: afail_def)
    qed
  qed
qed

text \<open>The invariant of the table, and the two changes.\<close>

definition table_inv :: "ucd \<Rightarrow> entity_row set \<Rightarrow> bool" where
  "table_inv U T \<longleftrightarrow> one_active U T \<and> tidy T"

lemma tidy_kind: "tidy T \<Longrightarrow> x \<in> T \<Longrightarrow> normalize_row_kind (er_kind x) = er_kind x"
  by (auto simp: tidy_def normalize_row_kind_def)

lemma inv_update:
  assumes T: "table_inv U T" and x: "x \<in> T" "active x" and uuids: "\<And>a b. a \<in> T \<Longrightarrow> b \<in> T \<Longrightarrow> er_uuid a = er_uuid b \<Longrightarrow> a = b"
    and n: "trim n = n"
    and g: "lower_trim U (er_name x) \<noteq> lower_trim U n \<Longrightarrow> \<forall>e \<in> T. active e \<longrightarrow> \<not> hit_fits U n (er_group_id x) (er_kind x) e"
  shows "table_inv U (updated_row x n ls sm at ` T)"
proof -
  let ?u = "updated_row x n ls sm at"
  have k: "normalize_row_kind (er_kind x) = er_kind x" using T x by (auto simp: table_inv_def intro: tidy_kind)
  have other: "?u e = e" if "e \<in> T" "e \<noteq> x" for e using uuids [OF that(1) x(1)] that by (auto simp: updated_row_def)
  have xf: "er_uuid (?u x) = er_uuid x" "er_name (?u x) = n" "er_group_id (?u x) = er_group_id x" "er_kind (?u x) = er_kind x"
    by (simp_all add: updated_row_def k)
  have t: "tidy (?u ` T)" using T x n by (auto simp: table_inv_def tidy_def updated_row_def k)
  have clash: "e = x" if e: "e \<in> T" "active e" "hit_fits U n (er_group_id x) (er_kind x) e" for e
  proof -
    have "lower_trim U (er_name x) = lower_trim U n" using g e by blast
    then have "hit_fits U (er_name x) (er_group_id x) (er_kind x) e" using e(3) by (simp add: hit_fits_def)
    with T e(1,2) x have "er_uuid e = er_uuid x" by (auto simp: table_inv_def one_active_def)
    with uuids e(1) x(1) show ?thesis by blast
  qed
  have "er_uuid (?u a) = er_uuid (?u b)" if ab: "a \<in> T" "b \<in> T" "active (?u a)" "active (?u b)"
    "hit_fits U (er_name (?u b)) (er_group_id (?u b)) (er_kind (?u b)) (?u a)" for a b
  proof (cases "a = x")
    case True
    show ?thesis
    proof (cases "b = x")
      case False
      have "hit_fits U n (er_group_id x) (er_kind x) b" using ab(5) xf \<open>a = x\<close> other [OF ab(2) False] by (auto simp: hit_fits_def)
      with clash ab(2,4) other [OF ab(2) False] False show ?thesis by auto
    qed (use \<open>a = x\<close> in simp)
  next
    case False
    note a = other [OF ab(1) False]
    show ?thesis
    proof (cases "b = x")
      case True
      have "hit_fits U n (er_group_id x) (er_kind x) a" using ab(5) xf a True by (simp add: hit_fits_def)
      with clash ab(1,3) a False show ?thesis by auto
    next
      case b: False
      from T ab a other [OF ab(2) b] show ?thesis by (auto simp: table_inv_def one_active_def)
    qed
  qed
  with t show ?thesis by (auto simp: table_inv_def one_active_def)
qed

lemma inv_insert:
  assumes T: "table_inv U T" and e: "trim (er_name e) = er_name e" "trim (er_kind e) = er_kind e" "er_kind e \<noteq> []"
    and n: "\<forall>x \<in> T. \<not> hit_fits U (er_name e) (er_group_id e) (er_kind e) x"
  shows "table_inv U (insert e T)"
proof -
  have "\<not> hit_fits U (er_name x) (er_group_id x) (er_kind x) e" if "x \<in> T" for x using n that by (auto simp: hit_fits_def)
  with T e n show ?thesis by (auto simp: table_inv_def one_active_def tidy_def)
qed

definition table_of :: "('d \<Rightarrow> entity_row list) \<Rightarrow> 'd service \<Rightarrow> entity_row list" where
  "table_of V w = V (cs_db (sv_conn w))"

lemma on_conn_run:
  assumes "on_conn m w = Some (w', r)"
  obtains s where "m (sv_conn w) = Some (s, r)" "w' = w\<lparr>sv_conn := s\<rparr>"
  using assms by (auto simp: on_conn_def)

lemma connect_same: "connect H w = Some (w', r) \<Longrightarrow> table_of V w' = table_of V w"
  by (auto simp: connect_def table_of_def split: sum.splits)

lemma log_same:
  assumes ok: "assert_ok U L (he_engine H) V" and r: "log_and_advance H g w = Some (w', r)"
  shows "table_of V w' = table_of V w"
proof -
  have a: "frames (on_view V (=)) (conn_advance_wal_position (he_engine H) (he_running H) g res)" for res
    unfolding conn_advance_wal_position_def conn_set_wal_position_def
    by (auto intro!: same.ret same.ignore same.bind same.view_prepare same.view_on_db split: option.split)
      (use ok in \<open>simp add: assert_ok_def\<close>)
  have d: "\<exists>s ms. on_conn drain_mutations w = Some (w\<lparr>sv_conn := s\<rparr>, Inr ms) \<and> cs_db s = cs_db (sv_conn w)"
    by (intro exI [of _ "sv_conn w\<lparr>cs_executed_mutations := []\<rparr>"] exI [of _ "cs_executed_mutations (sv_conn w)"])
      (simp add: on_conn_def drain_mutations_def)
  then obtain s ms where s: "on_conn drain_mutations w = Some (w\<lparr>sv_conn := s\<rparr>, Inr ms)" "cs_db s = cs_db (sv_conn w)" by blast
  obtain wal fs res where f: "wal_flush_ungrouped (he_wal H) g (map (\<lambda>(i, mu). (mu, he_io H i mu)) (enumerate 0 ms)) (sv_wal w) (sv_fs w) = (wal, fs, res)"
    by (rule prod_cases3)
  from r s f have "on_conn (conn_advance_wal_position (he_engine H) (he_running H) g res) (w\<lparr>sv_conn := s, sv_wal := wal, sv_fs := fs\<rparr>) = Some (w', r)"
    by (simp add: log_and_advance_def abind_def)
  then obtain t where "conn_advance_wal_position (he_engine H) (he_running H) g res s = Some (t, r)" "sv_conn w' = t"
    by (auto elim!: on_conn_run)
  with framesD [OF a this(1)] s(2) show ?thesis by (simp add: on_view_def table_of_def)
qed

lemma table_uuids: "table_ok U L E V \<Longrightarrow> a \<in> set (V d) \<Longrightarrow> b \<in> set (V d) \<Longrightarrow> er_uuid a = er_uuid b \<Longrightarrow> a = b"
  by (auto simp: table_ok_def distinct_map dest: inj_onD)

lemma resolve_and_update_result:
  assumes ok: "assert_ok (he_ucd H) (he_lbug H) (he_engine H) V" and n: "trim (ar_name R) = ar_name R"
    and inv: "table_inv (he_ucd H) (set (table_of V w))" and r: "resolve_and_update_entity H R w = Some (w', r)"
  shows "table_inv (he_ucd H) (set (table_of V w'))
    \<and> (r = Inr None \<longrightarrow> table_of V w' = table_of V w \<and> (\<forall>e \<in> set (table_of V w). \<not> hit_fits (he_ucd H) (ar_name R) (ar_group_id R) (ar_kind R) e))"
  using r unfolding resolve_and_update_entity_def
proof (cases rule: bind_run)
  case (err e)
  then obtain s where "resolve_target H R (sv_conn w) = Some (s, Inl e)" "sv_conn w' = s" by (auto elim!: on_conn_run)
  with resolve_target_result [OF assert_ok_table [OF ok] this(1)] inv err show ?thesis by (simp add: table_of_def)
next
  case (val v found)
  then obtain s where s: "resolve_target H R (sv_conn w) = Some (s, Inr found)" "sv_conn v = s" by (auto elim!: on_conn_run)
  note found = resolve_target_result [OF assert_ok_table [OF ok] s(1)]
  have v: "table_of V v = table_of V w" using found s by (simp add: table_of_def)
  show ?thesis
  proof (cases found)
    case None
    with val(2) found inv v show ?thesis by (auto simp: aret_def table_of_def)
  next
    case (Some x)
    with found have x: "x \<in> set (table_of V w)" "active x" "er_group_id x = ar_group_id R" by (auto simp: table_of_def)
    let ?up = "update_entity_core (he_ucd H) (he_lbug H) (he_engine H) x (ar_name R) (ar_labels R) (ar_summary R) (ar_attributes R)"
    from val(2) Some have "abind (on_conn (guard_rename H R x)) (\<lambda>_. abind (on_conn ?up) (\<lambda>_.
        abind (log_and_advance H (ar_group_id R)) (\<lambda>_. aret (Some (er_uuid x))))) v = Some (w', r)" by simp
    then show ?thesis
    proof (cases rule: bind_run)
      case (err e)
      then obtain t where "guard_rename H R x (sv_conn v) = Some (t, Inl e)" "sv_conn w' = t" by (auto elim!: on_conn_run)
      with guard_rename_result [OF ok this(1)] v inv err(2) show ?thesis by (simp add: table_of_def)
    next
      case (val u y)
      then obtain t where t: "guard_rename H R x (sv_conn v) = Some (t, Inr ())" "sv_conn u = t" by (auto elim!: on_conn_run)
      note g = guard_rename_result [OF ok t(1)]
      have u: "table_of V u = table_of V w" using g v t(2) by (simp add: table_of_def)
      have upd: "table_inv (he_ucd H) (set (table_of V z))" if z: "on_conn ?up u = Some (z, q)" for z q
      proof -
        from z obtain t' where t': "?up (sv_conn u) = Some (t', q)" "sv_conn z = t'" by (auto elim!: on_conn_run)
        let ?p = "update_entity_params (he_ucd H) x (ar_name R) (ar_labels R) (ar_summary R) (ar_attributes R)"
        have "one_execution V (en_execute (he_engine H) UPDATE_ENTITY (json_params_to_values (he_lbug H) ?p)) (sv_conn u) t'"
          using ok by (intro exec_view [OF _ _ t'(1) [unfolded update_entity_core_def]]) (auto simp: assert_ok_def table_ok_def)
        then consider "table_of V z = table_of V w"
          | d rows where "V d = table_of V w" "en_execute (he_engine H) UPDATE_ENTITY (json_params_to_values (he_lbug H) ?p) d = (cs_db t', Inr rows)"
          using u t'(2) by (auto simp: one_execution_def table_of_def)
        then show ?thesis
        proof cases
          case 1
          with inv show ?thesis by simp
        next
          case 2
          with assert_ok_update [OF ok 2(2)] x(1)
          have e: "set (table_of V z) = updated_row x (ar_name R) (ar_labels R) (ar_summary R) (ar_attributes R) ` set (table_of V w)"
            by (simp add: table_of_def t'(2))
          show ?thesis unfolding e
          proof (rule inv_update [OF inv x(1,2) _ n])
            show "a = b" if "a \<in> set (table_of V w)" "b \<in> set (table_of V w)" "er_uuid a = er_uuid b" for a b
              using table_uuids [OF assert_ok_table [OF ok]] that by (simp add: table_of_def)
            show "\<forall>e \<in> set (table_of V w). active e \<longrightarrow> \<not> hit_fits (he_ucd H) (ar_name R) (er_group_id x) (er_kind x) e"
              if "lower_trim (he_ucd H) (er_name x) \<noteq> lower_trim (he_ucd H) (ar_name R)"
              using g that inv x(3) v by (auto simp: table_inv_def table_of_def)
          qed
        qed
      qed
      from val(2) show ?thesis
      proof (cases rule: bind_run)
        case (err e)
        with upd show ?thesis by simp
      next
        case (val z y)
        from val(2) have "table_of V w' = table_of V z \<and> r \<noteq> Inr None"
          using log_same [OF ok] by (cases rule: bind_run) (auto simp: aret_def)
        with upd [OF val(1)] show ?thesis by simp
      qed
    qed
  qed
qed

lemma pass1_keeps:
  assumes ok: "assert_ok (he_ucd H) (he_lbug H) (he_engine H) V" and n: "trim (ar_name R) = ar_name R"
    and inv: "table_inv (he_ucd H) (set (table_of V w))" and r: "entity_pass1 H R w = Some (w', r)"
  shows "table_inv (he_ucd H) (set (table_of V w'))"
  using r unfolding entity_pass1_def
proof (cases rule: bind_run)
  case (err e)
  with connect_same [OF err(1)] inv show ?thesis by metis
next
  case (val v x)
  with connect_same [OF val(1), of V] inv have "table_inv (he_ucd H) (set (table_of V v))" by simp
  with resolve_and_update_result [OF ok n _ val(2)] show ?thesis by blast
qed

lemma normal_kind: "normalize_kind k = Inr k' \<Longrightarrow> trim k' = k' \<and> k' \<noteq> []"
proof (cases k)
  case None
  moreover have "trim DEFAULT_KIND = DEFAULT_KIND" by (rule trim_id) (simp add: DEFAULT_KIND_def is_whitespace_def)
  ultimately show "normalize_kind k = Inr k' \<Longrightarrow> trim k' = k' \<and> k' \<noteq> []" by (auto simp: normalize_kind_def DEFAULT_KIND_def)
next
  case (Some t)
  then show "normalize_kind k = Inr k' \<Longrightarrow> trim k' = k' \<and> k' \<noteq> []" by (auto simp: normalize_kind_def Let_def trim_twice split: if_splits)
qed

lemma parsed_kind:
  assumes "parse_assert_entity J p = Inr R"
  shows "trim (ar_kind R) = ar_kind R \<and> ar_kind R \<noteq> []"
  using assms by (auto simp: parse_assert_entity_def rbind_Inr_iff Let_def dest!: normal_kind)

lemma insert_entity_table:
  assumes ok: "assert_ok U L E V" and inv: "table_inv U (set (V (cs_db s)))"
    and row: "trim (er_name row) = er_name row" "trim (er_kind row) = er_kind row" "er_kind row \<noteq> []"
    and new: "\<forall>e \<in> set (V (cs_db s)). \<not> hit_fits U (er_name row) (er_group_id row) (er_kind row) e"
    and r: "insert_entity U L E row s = Some (s', r)"
  shows "table_inv U (set (V (cs_db s')))"
proof -
  let ?p = "insert_entity_params U L row (er_kind row)"
  have "normalize_kind (if trim (er_kind row) = [] then None else Some (er_kind row)) = Inr (er_kind row) \<or>
      (\<exists>e. normalize_kind (if trim (er_kind row) = [] then None else Some (er_kind row)) = Inl e)"
    using row by (auto simp: normalize_kind_def Let_def)
  then consider "s' = s" | "abind (exec_params L E CREATE_ENTITY ?p) (\<lambda>_. register_kind (er_kind row)) s = Some (s', r)"
    using r by (auto simp: insert_entity_def abind_def aread_def)
  then show ?thesis
  proof cases
    case 2
    then obtain t x where t: "exec_params L E CREATE_ENTITY ?p s = Some (t, x)" and s': "cs_db s' = cs_db t"
      by (cases rule: bind_run) (auto simp: register_kind_def amodify_def)
    have "one_execution V (en_execute E CREATE_ENTITY (json_params_to_values L ?p)) s t"
      using ok by (intro exec_view [OF _ _ t]) (auto simp: assert_ok_def table_ok_def)
    then consider "V (cs_db t) = V (cs_db s)"
      | d rows where "V d = V (cs_db s)" "en_execute E CREATE_ENTITY (json_params_to_values L ?p) d = (cs_db t, Inr rows)"
      by (auto simp: one_execution_def)
    then show ?thesis
    proof cases
      case 2
      from assert_ok_create [OF ok 2(2) row(2,3)] obtain e where e: "set (V (cs_db t)) = insert e (set (V (cs_db s)))" "er_name e = er_name row"
        "er_group_id e = er_group_id row" "er_kind e = er_kind row" using 2(1) by auto
      with inv_insert [OF inv, of e] row new s' show ?thesis by simp
    qed (use inv s' in simp)
  qed (use inv in simp)
qed

lemma pass2_keeps:
  assumes ok: "assert_ok (he_ucd H) (he_lbug H) (he_engine H) V" and n: "trim (ar_name R) = ar_name R"
    and k: "trim (ar_kind R) = ar_kind R" "ar_kind R \<noteq> []"
    and inv: "table_inv (he_ucd H) (set (table_of V w))" and r: "entity_pass2 H R eb uuid ts w = Some (w', r)"
  shows "table_inv (he_ucd H) (set (table_of V w'))"
  using r unfolding entity_pass2_def
proof (cases rule: bind_run)
  case (err e)
  with connect_same [OF err(1)] inv show ?thesis by metis
next
  case (val v x)
  with connect_same [OF val(1), of V] inv have v: "table_inv (he_ucd H) (set (table_of V v))" by simp
  let ?R = "R\<lparr>ar_entity_uuid := None\<rparr>"
  have n': "trim (ar_name ?R) = ar_name ?R" using n by simp
  from val(2) show ?thesis
  proof (cases rule: bind_run)
    case (err e)
    with resolve_and_update_result [OF ok n' v] show ?thesis by blast
  next
    case (val z found)
    note z = resolve_and_update_result [OF ok n' v val(1)]
    show ?thesis
    proof (cases found)
      case (Some u)
      with val(2) z show ?thesis by (simp add: aret_def)
    next
      case None
      let ?row = "asserted_row R eb uuid ts"
      let ?ins = "insert_entity (he_ucd H) (he_lbug H) (he_engine H) ?row"
      from z None have zv: "table_of V z = table_of V v"
        "\<forall>e \<in> set (table_of V z). \<not> hit_fits (he_ucd H) (ar_name R) (ar_group_id R) (ar_kind R) e" by simp_all
      have f: "er_name ?row = ar_name R" "er_group_id ?row = ar_group_id R" "er_kind ?row = ar_kind R"
        by (simp_all add: asserted_row_def)
      have ins: "table_inv (he_ucd H) (set (table_of V y))" if y: "on_conn ?ins z = Some (y, q)" for y q
      proof -
        from y obtain t where t: "?ins (sv_conn z) = Some (t, q)" "sv_conn y = t" by (auto elim!: on_conn_run)
        with insert_entity_table [OF ok _ _ _ _ _ t(1)] v zv f n k show ?thesis by (simp add: table_of_def)
      qed
      from val(2) None have "abind (on_conn ?ins) (\<lambda>_. abind (log_and_advance H (ar_group_id R)) (\<lambda>_. aret (uuid, True))) z = Some (w', r)"
        by simp
      then show ?thesis
      proof (cases rule: bind_run)
        case (err e)
        with ins show ?thesis by simp
      next
        case (val y q)
        from val(2) have "table_of V w' = table_of V y"
          using log_same [OF ok] by (cases rule: bind_run) (auto simp: aret_def)
        with ins [OF val(1)] show ?thesis by simp
      qed
    qed
  qed
qed

section \<open>The passes return\<close>

lemma forward_merged_returns:
  assumes ok: "table_ok U L E V"
  shows "\<exists>y. forward_merged J L E g vs cur s = Some y"
proof (induction "card (er_uuid ` set (V (cs_db s)) - vs)" arbitrary: vs cur s rule: less_induct)
  case less
  have hop: "\<exists>y. forward_merged J L E g (insert u vs) nxt t = Some y" if "u \<notin> vs" "get_entity_by_uuid L E u s = Some (t, Inr (Some nxt))" for u t nxt
  proof (rule less)
    note m = by_uuid_member [OF ok that(2)]
    have "u \<in> er_uuid ` set (V (cs_db s))" using m(2) [OF refl] by force
    with that(1) have "er_uuid ` set (V (cs_db s)) - insert u vs \<subset> er_uuid ` set (V (cs_db s)) - vs" by blast
    then show "card (er_uuid ` set (V (cs_db t)) - insert u vs) < card (er_uuid ` set (V (cs_db s)) - vs)"
      unfolding m(1) by (intro psubset_card_mono) auto
  qed
  show ?case
  proof (cases "read_merged_into J (er_attributes cur)")
    case None
    then show ?thesis by (subst forward_merged.simps) simp
  next
    case (Some u)
    obtain t x where g: "get_entity_by_uuid L E u s = Some (t, x)"
      using returns_by_uuid [OF ok, of u] unfolding returns_def by (metis option.exhaust prod.exhaust)
    show ?thesis
    proof (cases "u \<notin> vs \<and> (\<exists>nxt. x = Inr (Some nxt))")
      case True
      then obtain nxt where x: "u \<notin> vs" "x = Inr (Some nxt)" by blast
      with hop g obtain y where "forward_merged J L E g (insert u vs) nxt t = Some y" by blast
      with Some g x show ?thesis by (subst forward_merged.simps) simp
    next
      case False
      with Some g show ?thesis by (subst forward_merged.simps) (auto split: sum.split option.split)
    qed
  qed
qed

lemma returns_forward: "table_ok U L E V \<Longrightarrow> returns (forward_merged J L E g vs cur)"
  using forward_merged_returns by (fastforce simp: returns_def)

lemma returns_winners_forwarded: "table_ok U L E V \<Longrightarrow> returns (forward_winners J L E g n ws)"
  by (induction ws) (auto intro!: returns_bind returns_forward split: option.split)

lemma returns_on_conn: "returns m \<Longrightarrow> returns (on_conn m)"
  by (simp add: returns_def on_conn_def)

lemma returns_option: "returns m \<Longrightarrow> (\<And>x. returns (f x)) \<Longrightarrow> returns (case_option m f z)"
  by (cases z) simp_all

lemma returns_resolve_target:
  assumes ok: "table_ok (he_ucd H) (he_lbug H) (he_engine H) V"
  shows "returns (resolve_target H R)"
  unfolding resolve_target_def resolve_entity_by_name_def resolve_entity_by_uuid_def kind_scope.case
  by (intro returns_option returns_bind returns_if returns_by_uuid [OF ok] returns_lookup [OF ok] returns_forward [OF ok]
      returns_winners_forwarded [OF ok] returns_simps) (auto split: list.split)

lemma returns_count:
  assumes ok: "assert_ok U L E V" shows "returns (count_active_entities_by_name_ci U L E n g k)"
  unfolding count_active_entities_by_name_ci_def
proof (intro returns_bind returns_decoded returns_query returns_simps)
  fix s s' rows assume "query_params L E COUNT_ACTIVE (JObj [(lit ''lower_name'', JStr (lower_trim U n)), (lit ''gid'', JStr g)]) s = Some (s', Inr rows)"
  from query_result [OF this] ok have "map (active_columns L) rows
      = map (\<lambda>e. Some (er_labels e, er_kind e)) (filter (\<lambda>e. ucd_lower_str U (er_name e) = lower_trim U n \<and> er_group_id e = g) (V (cs_db s)))"
    unfolding count_params by (simp add: assert_ok_def)
  then show "None \<notin> set (map (active_columns L) rows)" by (auto simp: image_iff dest!: arg_cong [where f = set])
qed

lemma returns_log: "returns (log_and_advance H g)"
proof -
  have "returns (conn_advance_wal_position (he_engine H) (he_running H) g res)" for res
    unfolding conn_advance_wal_position_def conn_set_wal_position_def prepare_def
    by (intro returns_option returns_simps) (auto intro!: returns_ignore returns_bind)
  then have "returns (on_conn (conn_advance_wal_position (he_engine H) (he_running H) g res))" for res by (rule returns_on_conn)
  then have "returns (\<lambda>w. case wal_flush_ungrouped (he_wal H) g (map (\<lambda>(i, mu). (mu, he_io H i mu)) (enumerate 0 ms)) (sv_wal w) (sv_fs w) of
      (wal, fs, res) \<Rightarrow> on_conn (conn_advance_wal_position (he_engine H) (he_running H) g res) (w\<lparr>sv_wal := wal, sv_fs := fs\<rparr>))" for ms
    by (simp add: returns_def split: prod.split)
  moreover have "returns (on_conn drain_mutations)" by (intro returns_on_conn) (simp add: returns_def drain_mutations_def)
  ultimately show ?thesis unfolding log_and_advance_def by (intro returns_bind)
qed

lemma returns_passes:
  assumes ok: "assert_ok (he_ucd H) (he_lbug H) (he_engine H) V"
  shows "returns (entity_pass1 H R)" "returns (entity_pass2 H R eb uuid ts)"
proof -
  have c: "returns (connect H)" by (simp add: returns_def connect_def split: sum.split)
  have "returns (guard_rename H R x)" for R x unfolding guard_rename_def by (intro returns_if returns_bind returns_count [OF ok] returns_simps)
  then have u: "returns (resolve_and_update_entity H R)" for R
    unfolding resolve_and_update_entity_def update_entity_core_def
    by (intro returns_bind returns_option returns_simps returns_on_conn returns_exec_params returns_log
        returns_resolve_target [OF assert_ok_table [OF ok]])
  show "returns (entity_pass1 H R)" unfolding entity_pass1_def by (intro returns_bind c u)
  show "returns (entity_pass2 H R eb uuid ts)" unfolding entity_pass2_def insert_entity_def register_kind_def
    by (intro returns_bind returns_option c u returns_simps returns_on_conn returns_exec_params returns_log)
qed

section \<open>The guarantee\<close>

lemma in_call_simps [simp]: "he_ucd (in_call cn io H) = he_ucd H" "he_lbug (in_call cn io H) = he_lbug H" "he_engine (in_call cn io H) = he_engine H"
  "he_json (in_call cn io H) = he_json H"
  by (simp_all add: in_call_def)

lemma step_keeps:
  assumes ok: "assert_ok (he_ucd H) (he_lbug H) (he_engine H) V"
    and R: "\<And>i. trim (ar_name (R i)) = ar_name (R i) \<and> (\<exists>p. parse_assert_entity (he_json H) p = Inr (R i))"
    and s: "assert_step H R c c'" and inv: "table_inv (he_ucd H) (set (table_of V (fst c)))"
  shows "table_inv (he_ucd H) (set (table_of V (fst c')))"
  using s
proof (cases rule: assert_step.cases)
  case (first calls i cn io w w' r)
  then show ?thesis using pass1_keeps [of "in_call cn io H" V "R i" w w' r] ok inv R by simp
next
  case (second calls i cn io eb uuid ts w w' r)
  moreover have "trim (ar_kind (R i)) = ar_kind (R i)" "ar_kind (R i) \<noteq> []" using R [of i] parsed_kind by blast+
  ultimately show ?thesis using pass2_keeps [of "in_call cn io H" V "R i" w eb uuid ts w' r] ok inv R by simp
qed


section \<open>An engine with a table\<close>

text \<open>A table of entities in the order of creation, seen through what reading a row gives; the column of keys is never
  filled in, so every lookup by name scans.\<close>

definition as_read :: "entity_row \<Rightarrow> entity_row" where
  "as_read e = the (full_entity_of_row toy_lbug (toy_columns e))"

fun first_rows :: "entity_row list \<Rightarrow> entity_row list" where
  "first_rows [] = []"
| "first_rows (e # es) = e # filter (\<lambda>x. er_uuid x \<noteq> er_uuid e) (first_rows es)"

definition live_rows :: "entity_row list \<Rightarrow> entity_row list" where
  "live_rows d = first_rows (map as_read d)"

definition bound_text :: "(rstr \<times> lval) list \<Rightarrow> string \<Rightarrow> rstr" where
  "bound_text b key = (case map_of b (lit key) of Some (VString t) \<Rightarrow> t | _ \<Rightarrow> [])"

definition bound_labels :: "(rstr \<times> lval) list \<Rightarrow> rstr list" where
  "bound_labels b = (case map_of b (lit ''labels'') of Some v \<Rightarrow> value_as_str_list toy_lbug v | None \<Rightarrow> [])"

definition bound_row :: "(rstr \<times> lval) list \<Rightarrow> entity_row" where
  "bound_row b = default_entity_row\<lparr>er_uuid := bound_text b ''uuid'', er_name := bound_text b ''name'', er_group_id := bound_text b ''group_id'',
     er_labels := bound_labels b, er_kind := bound_text b ''kind'', er_created_at := bound_text b ''created_at'',
     er_summary := bound_text b ''summary'', er_attributes := bound_text b ''attributes'', er_ingested_at := bound_text b ''ingested_at''\<rparr>"

definition bound_update :: "(rstr \<times> lval) list \<Rightarrow> entity_row \<Rightarrow> entity_row" where
  "bound_update b e =
     (if er_uuid e = bound_text b ''uuid''
      then e\<lparr>er_name := bound_text b ''name'', er_labels := bound_labels b, er_summary := bound_text b ''summary'',
             er_attributes := bound_text b ''attributes'', er_group_id := bound_text b ''group_id'', er_kind := bound_text b ''kind''\<rparr>
      else e)"

definition table_engine :: "entity_row list lbug_engine" where
  "table_engine = \<lparr>en_query = (\<lambda>q d. (d, Inr [])), en_prepare = (\<lambda>d q. Inr ()), en_execute = (\<lambda>q b d.
     if q = ENTITY_BY_UUID then (d, Inr (map toy_columns (filter (\<lambda>e. [(lit ''uuid'', VString (er_uuid e))] = b) (live_rows d))))
     else if q = SCAN_GROUP then (d, Inr (map toy_scan_columns (filter (\<lambda>e. [(lit ''gid'', VString (er_group_id e))] = b) (live_rows d))))
     else if q = COUNT_ACTIVE
     then (d, Inr (map (\<lambda>e. [VList TString (map VString (er_labels e)), VString (er_kind e)])
             (filter (\<lambda>e. [(lit ''lower_name'', VString (ucd_lower_str ascii_ucd (er_name e))), (lit ''gid'', VString (er_group_id e))] = b) (live_rows d))))
     else if q = CREATE_ENTITY
     then (if bound_text b ''uuid'' \<in> er_uuid ` set d then (d, Inl (lit ''duplicated primary key'')) else (d @ [bound_row b], Inr []))
     else if q = UPDATE_ENTITY then (map (bound_update b) d, Inr [])
     else (d, Inr []))\<rparr>"

lemma as_read_Some: "full_entity_of_row toy_lbug (toy_columns e) = Some (as_read e)"
  by (simp add: as_read_def full_entity_of_row_def toy_columns_def)

lemma as_read_sel [simp]:
  "er_uuid (as_read e) = er_uuid e" "er_name (as_read e) = er_name e" "er_group_id (as_read e) = er_group_id e"
  "er_labels (as_read e) = er_labels e" "er_kind (as_read e) = (if trim (er_kind e) = [] then DEFAULT_KIND else er_kind e)"
  by (simp_all add: as_read_def full_entity_of_row_def toy_columns_def value_as_string_def value_as_str_list_def value_as_kind_def
      default_entity_row_def comp_def)

lemma kind_default: "trim DEFAULT_KIND = DEFAULT_KIND" "DEFAULT_KIND \<noteq> []"
  by (rule trim_id) (simp_all add: DEFAULT_KIND_def is_whitespace_def)

lemma as_read_twice: "as_read (as_read e) = as_read e"
  by (simp add: as_read_def full_entity_of_row_def toy_columns_def value_as_string_def value_as_str_list_def value_as_kind_def
      value_as_timestamp_str_def value_as_float_array_def default_entity_row_def comp_def kind_default Let_def)

lemma first_rows_set: "set (first_rows es) \<subseteq> set es"
  by (induction es) auto

lemma first_rows_distinct: "distinct (map er_uuid (first_rows es))"
  by (induction es) (auto simp: distinct_map inj_on_def)

lemma first_rows_append: "er_uuid e \<notin> er_uuid ` set es \<Longrightarrow> first_rows (es @ [e]) = first_rows es @ [e]"
  by (induction es) auto

lemma first_rows_map: "(\<And>e. er_uuid (f e) = er_uuid e) \<Longrightarrow> first_rows (map f es) = map f (first_rows es)"
  by (induction es) (auto simp: filter_map comp_def)

lemma live_read: "e \<in> set (live_rows d) \<Longrightarrow> as_read e = e"
  using first_rows_set by (fastforce simp: live_rows_def as_read_twice)

lemma live_kind: "e \<in> set (live_rows d) \<Longrightarrow> trim (er_kind e) \<noteq> []"
  using live_read [of e d] as_read_sel(5) [of e] kind_default by metis

lemma live_uuids: "er_uuid ` set (live_rows d) \<subseteq> er_uuid ` set d"
  using first_rows_set [of "map as_read d"] by (force simp: live_rows_def)

lemma stmts_differ:
  "COUNT_ACTIVE \<noteq> ENTITY_BY_UUID" "COUNT_ACTIVE \<noteq> SCAN_GROUP" "CREATE_ENTITY \<noteq> ENTITY_BY_UUID" "CREATE_ENTITY \<noteq> SCAN_GROUP"
  "CREATE_ENTITY \<noteq> COUNT_ACTIVE" "UPDATE_ENTITY \<noteq> ENTITY_BY_UUID" "UPDATE_ENTITY \<noteq> SCAN_GROUP" "UPDATE_ENTITY \<noteq> COUNT_ACTIVE"
  "UPDATE_ENTITY \<noteq> CREATE_ENTITY" "SELF_HEAL \<noteq> COUNT_ACTIVE" "SELF_HEAL \<noteq> CREATE_ENTITY" "SELF_HEAL \<noteq> UPDATE_ENTITY"
  "ENTITY_BY_KEY \<noteq> COUNT_ACTIVE" "ENTITY_BY_KEY \<noteq> CREATE_ENTITY" "ENTITY_BY_KEY \<noteq> UPDATE_ENTITY"
  "SET_POSITION \<noteq> ENTITY_BY_UUID" "SET_POSITION \<noteq> SCAN_GROUP" "SET_POSITION \<noteq> COUNT_ACTIVE" "SET_POSITION \<noteq> CREATE_ENTITY" "SET_POSITION \<noteq> UPDATE_ENTITY"
  "MARKER_DELETE \<noteq> CREATE_ENTITY" "MARKER_DELETE \<noteq> UPDATE_ENTITY" "MARKER_WRITE \<noteq> CREATE_ENTITY" "MARKER_WRITE \<noteq> UPDATE_ENTITY"
  by (simp_all add: ENTITY_BY_KEY_def ENTITY_BY_UUID_def SCAN_GROUP_def SELF_HEAL_def COUNT_ACTIVE_def CREATE_ENTITY_def
      UPDATE_ENTITY_def SET_POSITION_def MARKER_DELETE_def MARKER_WRITE_def FULL_ENTITY_COLUMNS_def)

lemma strs_value: "json_to_value L (json_strs xs) = VList TString (map VString xs)"
  by (cases xs) (simp_all add: json_strs_def comp_def as_str_def)

lemma bound_insert:
  fixes row kind
  defines "b \<equiv> json_params_to_values toy_lbug (insert_entity_params ascii_ucd toy_lbug row kind)"
  shows "bound_text b ''uuid'' = er_uuid row" "bound_text b ''name'' = er_name row" "bound_text b ''group_id'' = er_group_id row"
    "bound_text b ''kind'' = kind" "bound_labels b = labels_with_kind (er_labels row) kind"
  unfolding b_def by (simp_all add: bound_text_def bound_labels_def json_params_to_values_def insert_entity_params_def Let_def
      json_value_for_param_def TIMESTAMP_PARAM_NAMES_def strs_value value_as_str_list_def value_as_string_def comp_def)

lemma bound_updates:
  fixes x n ls sm at
  defines "b \<equiv> json_params_to_values toy_lbug (update_entity_params ascii_ucd x n ls sm at)"
  shows "bound_text b ''uuid'' = er_uuid x" "bound_text b ''name'' = n" "bound_text b ''group_id'' = er_group_id x"
    "bound_text b ''kind'' = normalize_row_kind (er_kind x)" "bound_labels b = labels_with_kind ls (normalize_row_kind (er_kind x))"
    "bound_text b ''summary'' = sm" "bound_text b ''attributes'' = at"
  unfolding b_def by (simp_all add: bound_text_def bound_labels_def json_params_to_values_def update_entity_params_def Let_def
      json_value_for_param_def TIMESTAMP_PARAM_NAMES_def strs_value value_as_str_list_def value_as_string_def comp_def)

lemma live_append:
  assumes "er_uuid e \<notin> er_uuid ` set d"
  shows "live_rows (d @ [e]) = live_rows d @ [as_read e]"
  using assms first_rows_append [of "as_read e" "map as_read d"] by (simp add: live_rows_def image_image)

lemma read_update:
  fixes x n ls sm at
  defines "b \<equiv> json_params_to_values toy_lbug (update_entity_params ascii_ucd x n ls sm at)"
  shows "as_read (bound_update b e) = updated_row x n ls sm at (as_read e)"
proof -
  have k: "trim (normalize_row_kind (er_kind x)) \<noteq> []" by (simp add: normalize_row_kind_def kind_default trim_twice)
  show ?thesis
    by (simp add: bound_update_def updated_row_def b_def bound_updates as_read_def full_entity_of_row_def toy_columns_def k
        value_as_string_def value_as_str_list_def value_as_kind_def value_as_timestamp_str_def value_as_float_array_def
        default_entity_row_def comp_def Let_def del: lit_Cons)
qed

lemma live_update:
  fixes x n ls sm at
  defines "b \<equiv> json_params_to_values toy_lbug (update_entity_params ascii_ucd x n ls sm at)"
  shows "live_rows (map (bound_update b) d) = map (updated_row x n ls sm at) (live_rows d)"
proof -
  have "map as_read (map (bound_update b) d) = map (updated_row x n ls sm at) (map as_read d)"
    by (simp add: b_def read_update)
  moreover have "first_rows (map (updated_row x n ls sm at) (map as_read d)) = map (updated_row x n ls sm at) (first_rows (map as_read d))"
    by (rule first_rows_map) (simp add: updated_row_def)
  ultimately show ?thesis by (simp only: live_rows_def)
qed

lemma table_rows:
  "map (full_entity_of_row toy_lbug) (map toy_columns (filter P (live_rows d))) = map Some (filter P (live_rows d))"
  "map (scan_columns toy_lbug) (map toy_scan_columns (filter P (live_rows d))) = map (\<lambda>e. Some (er_uuid e, er_name e, er_kind e)) (filter P (live_rows d))"
  by (auto simp: as_read_Some live_read live_kind toy_scan_columns_def scan_columns_def value_as_string_def value_as_kind_def)

lemma table_engine_ok: "table_ok ascii_ucd toy_lbug table_engine live_rows"
proof -
  have f: "fts_invisible table_engine live_rows" by (simp add: fts_invisible_def table_engine_def stmts_differ)
  have d: "distinct (map er_uuid (live_rows d))" for d by (simp add: live_rows_def first_rows_distinct)
  show ?thesis
    unfolding table_ok_def
    by (intro conjI f allI d) (auto simp: table_engine_def stmts_differ table_rows simp del: lit_Cons map_map)
qed

lemma table_created:
  assumes r: "en_execute table_engine CREATE_ENTITY (json_params_to_values toy_lbug (insert_entity_params ascii_ucd toy_lbug row kind)) d = (d', Inr rows)"
    and k: "trim kind = kind" "kind \<noteq> []"
  shows "\<exists>e. set (live_rows d') = insert e (set (live_rows d)) \<and> er_uuid e = er_uuid row \<and> er_name e = er_name row \<and> er_group_id e = er_group_id row
    \<and> er_kind e = kind \<and> er_labels e = labels_with_kind (er_labels row) kind"
proof -
  let ?b = "json_params_to_values toy_lbug (insert_entity_params ascii_ucd toy_lbug row kind)"
  have new: "d' = d @ [bound_row ?b]" "er_uuid (bound_row ?b) \<notin> er_uuid ` set d"
    using r by (auto simp: table_engine_def stmts_differ bound_row_def split: if_splits)
  show ?thesis
    by (rule exI [of _ "as_read (bound_row ?b)"]) (simp add: new live_append, simp add: bound_row_def bound_insert k)
qed

lemma table_updated:
  "en_execute table_engine UPDATE_ENTITY (json_params_to_values toy_lbug (update_entity_params ascii_ucd x n ls sm at)) d
     = (map (bound_update (json_params_to_values toy_lbug (update_entity_params ascii_ucd x n ls sm at))) d, Inr [])"
  by (simp add: table_engine_def stmts_differ)

lemma table_counted:
  "snd (en_execute table_engine COUNT_ACTIVE [(lit ''lower_name'', VString n), (lit ''gid'', VString g)] d)
     = Inr (map (\<lambda>e. [VList TString (map VString (er_labels e)), VString (er_kind e)])
         (filter (\<lambda>e. ucd_lower_str ascii_ucd (er_name e) = n \<and> er_group_id e = g) (live_rows d)))"
  by (simp add: table_engine_def stmts_differ del: lit_Cons)

lemma table_assert_ok: "assert_ok ascii_ucd toy_lbug table_engine live_rows"
proof -
  have c: "map (active_columns toy_lbug) (map (\<lambda>e. [VList TString (map VString (er_labels e)), VString (er_kind e)]) (filter P (live_rows d)))
    = map (\<lambda>e. Some (er_labels e, er_kind e)) (filter P (live_rows d))" for P d
    by (auto simp: active_columns_def value_as_str_list_def value_as_kind_def value_as_string_def comp_def live_kind)
  show ?thesis
    unfolding assert_ok_def
    apply (intro conjI allI impI ballI table_engine_ok)
        apply (auto simp: table_engine_def stmts_differ stmts_differ [symmetric] split: if_splits) [1]
       apply (auto simp: table_engine_def stmts_differ stmts_differ [symmetric]) [1]
      apply (erule (2) table_created)
     apply (auto simp: table_updated live_update) [1]
    apply (auto simp: table_counted c simp del: lit_Cons map_map)
    done
qed

definition toy_handler :: "entity_row list handler_env" where
  "toy_handler = \<lparr>he_json = toy_json_text, he_ucd = ascii_ucd, he_lbug = toy_lbug, he_engine = table_engine, he_connect = (\<lambda>_. Inr ()),
     he_wal = WalExec.toy_env, he_running = (lit ''m'', 3), he_io = (\<lambda>_ _. (IoOk, [])), he_open = Inr (), he_dim = 3\<rparr>"

definition toy_service :: "entity_row list \<Rightarrow> entity_row list service" where
  "toy_service d = \<lparr>sv_conn = \<lparr>cs_db = d, cs_executed_mutations = [], cs_in_txn = False, cs_fts_repairs = (0, 0),
     cs_known_kinds = {DEFAULT_KIND}, cs_fallback_scans = 0\<rparr>, sv_wal = toy_app\<lparr>aw_root := None\<rparr>, sv_fs = toy_disk\<rparr>"

definition toy_assert :: "string \<Rightarrow> assert_request" where
  "toy_assert n = \<lparr>ar_name = lit n, ar_entity_uuid = None, ar_group_id = DEFAULT_GROUP_ID, ar_labels = [ENTITY_LABEL], ar_summary = [],
     ar_attributes = lit ''{}'', ar_kind = DEFAULT_KIND, ar_kind_explicit = False\<rparr>"

lemma toy_trim: "trim (lit ''A'') = lit ''A''"
  by (rule trim_id) (simp_all add: is_whitespace_def)

lemma toy_parsed: "parse_assert_entity toy_json_text (JObj [(lit ''name'', JStr (lit ''A''))]) = Inr (toy_assert ''A'')"
  by (simp add: parse_assert_entity_def required_text_def value_index_def value_get_def Let_def as_str_def normalize_kind_def group_param_def
      labels_param_def attributes_param_to_string_def toy_assert_def toy_trim [simplified] jget_def)

lemma table_query:
  "query_params toy_lbug table_engine q p s =
     Some (s\<lparr>cs_db := fst (en_execute table_engine q (json_params_to_values toy_lbug p) (cs_db s))\<rparr>,
       case snd (en_execute table_engine q (json_params_to_values toy_lbug p) (cs_db s)) of Inl e \<Rightarrow> Inl (Lbug e) | Inr rows \<Rightarrow> Inr rows)"
  by (simp add: query_params_def abind_def prepare_def aread_def on_db_def of_lbug_def split_beta, simp add: table_engine_def)

text \<open>In an empty table the first pass finds nothing.\<close>

lemma table_selects:
  "en_execute table_engine ENTITY_BY_KEY b d = (d, Inr [])"
  "en_execute table_engine SCAN_GROUP b d = (d, Inr (map toy_scan_columns (filter (\<lambda>e. [(lit ''gid'', VString (er_group_id e))] = b) (live_rows d))))"
  by (simp_all add: table_engine_def stmts_differ del: lit_Cons)

lemma table_counts:
  "en_execute table_engine COUNT_ACTIVE b d
     = (d, Inr (map (\<lambda>e. [VList TString (map VString (er_labels e)), VString (er_kind e)])
         (filter (\<lambda>e. [(lit ''lower_name'', VString (ucd_lower_str ascii_ucd (er_name e))), (lit ''gid'', VString (er_group_id e))] = b) (live_rows d))))"
  by (simp add: table_engine_def stmts_differ del: lit_Cons)

lemma empty_lookup:
  assumes "cs_db s = []"
  shows "\<exists>t. get_entity_by_name_ci_with_scan_fallback ascii_ucd toy_lbug table_engine n g k s = Some (t, Inr None) \<and> cs_db t = []"
proof -
  have q: "query_params toy_lbug table_engine q p s = Some (s, Inr [])" if "q \<in> {ENTITY_BY_KEY, SCAN_GROUP}" "cs_db s = []" for q p s
    using that by (auto simp: table_query table_selects live_rows_def simp del: lit_Cons)
  show ?thesis
    by (simp add: get_entity_by_name_ci_with_scan_fallback_def get_entity_by_name_ci_def decoded_first_def decoded_def abind_def aret_def
        fall_back_def record_lookup_key_fallback_scan_def amodify_def scan_entities_by_name_ci_def q assms del: lit_Cons)
qed

lemma empty_target:
  assumes "cs_db s = []"
  shows "\<exists>t. resolve_target (in_call cn io toy_handler) (toy_assert n) s = Some (t, Inr None) \<and> cs_db t = []"
proof -
  obtain t where t: "get_entity_by_name_ci_with_scan_fallback ascii_ucd toy_lbug table_engine (lit n) DEFAULT_GROUP_ID DEFAULT_KIND s = Some (t, Inr None)"
    "cs_db t = []" using empty_lookup [OF assms] by blast
  have "he_ucd toy_handler = ascii_ucd" "he_lbug toy_handler = toy_lbug" "he_engine toy_handler = table_engine" by (simp_all add: toy_handler_def)
  with t show ?thesis
    by (simp add: resolve_target_def toy_assert_def resolve_entity_by_name_def abind_def aret_def)
qed

lemma empty_pass1:
  assumes "cs_db (sv_conn w) = []"
  shows "\<exists>w'. entity_pass1 (in_call (\<lambda>_. Inr ()) io toy_handler) (toy_assert n) w = Some (w', Inr None) \<and> cs_db (sv_conn w') = []"
proof -
  define w1 where "w1 = w\<lparr>sv_conn := sv_conn w\<lparr>cs_executed_mutations := [], cs_in_txn := False\<rparr>\<rparr>"
  have c: "connect (in_call (\<lambda>_. Inr ()) io toy_handler) w = Some (w1, Inr ())" by (simp add: connect_def in_call_def w1_def)
  have "cs_db (sv_conn w1) = []" using assms by (simp add: w1_def)
  from empty_target [OF this] obtain t
    where t: "resolve_target (in_call (\<lambda>_. Inr ()) io toy_handler) (toy_assert n) (sv_conn w1) = Some (t, Inr None)" "cs_db t = []" by blast
  show ?thesis using t by (simp add: entity_pass1_def resolve_and_update_entity_def abind_def aret_def c on_conn_def)
qed

definition toy_eb :: embedded where
  "toy_eb = \<lparr>eb_name = [], eb_summary = [], eb_warnings = []\<rparr>"

lemma four_steps: "r a b \<Longrightarrow> r b c \<Longrightarrow> r c d \<Longrightarrow> r d e \<Longrightarrow> r\<^sup>*\<^sup>* a e"
  by (rule rtranclp_trans [OF rtranclp_trans [of r a b c] rtranclp_trans [of r c d e]]) (rule r_into_rtranclp, assumption)+


text \<open>The count behind a rename compares the stored name as it is, so names that were stored with surrounding space do not
  count: a second active entity of the same name passes the guard.\<close>

definition toy_named :: "string \<Rightarrow> string \<Rightarrow> entity_row" where
  "toy_named u n = default_entity_row\<lparr>er_uuid := lit u, er_name := lit n, er_group_id := DEFAULT_GROUP_ID, er_labels := [ENTITY_LABEL],
     er_kind := DEFAULT_KIND\<rparr>"

lemma toy_named_read: "live_rows [toy_named ''u'' '' A'', toy_named ''v'' ''B''] = [toy_named ''u'' '' A'', toy_named ''v'' ''B'']"
  by (simp add: live_rows_def as_read_def full_entity_of_row_def toy_columns_def value_as_string_def value_as_str_list_def
      value_as_kind_def value_as_timestamp_str_def value_as_float_array_def default_entity_row_def comp_def Let_def kind_default toy_named_def)

lemma spaced_name_passes_guard:
  fixes s :: "entity_row list cstate"
  assumes "cs_db s = [toy_named ''u'' '' A'', toy_named ''v'' ''B'']"
  shows "guard_rename toy_handler (toy_assert ''A'') (toy_named ''v'' ''B'') s = Some (s, Inr ())"
    "active (toy_named ''u'' '' A'')"
    "hit_fits ascii_ucd (lit ''A'') DEFAULT_GROUP_ID DEFAULT_KIND (toy_named ''u'' '' A'')"
proof -
  have h: "he_ucd toy_handler = ascii_ucd" "he_lbug toy_handler = toy_lbug" "he_engine toy_handler = table_engine" by (simp_all add: toy_handler_def)
  have q: "query_params toy_lbug table_engine COUNT_ACTIVE (JObj [(lit ''lower_name'', JStr (lower_trim ascii_ucd (lit ''A''))), (lit ''gid'', JStr DEFAULT_GROUP_ID)]) s
    = Some (s, Inr [])"
    by (simp add: table_query table_counts assms toy_named_read, simp add: toy_named_def lower_trim_def toy_trim [simplified] ascii_ucd_def ascii_lower_def
        json_params_to_values_def json_value_for_param_def TIMESTAMP_PARAM_NAMES_def)
  show "guard_rename toy_handler (toy_assert ''A'') (toy_named ''v'' ''B'') s = Some (s, Inr ())"
    by (simp add: guard_rename_def h count_active_entities_by_name_ci_def decoded_def abind_def aret_def toy_assert_def q del: lit_Cons)
  show "active (toy_named ''u'' '' A'')" by (simp add: active_def toy_named_def MERGED_def ENTITY_LABEL_def)
  show "hit_fits ascii_ucd (lit ''A'') DEFAULT_GROUP_ID DEFAULT_KIND (toy_named ''u'' '' A'')" 
    by (simp add: hit_fits_def toy_named_def lower_trim_def, simp add: trim_def trim_start_def trim_end_def is_whitespace_def)
qed

end
