(* ===== verification/Spec2Isabelle.thy ===== *)
theory Spec2Isabelle
  imports Replay EmbeddingCache LlmRouter Rebuild SummaryMerge CrossGroup OntologyDrift Canonicalize ReadPage WalStrip Assertions
begin

text \<open>
  Verification of the liminis context graph (\<^verbatim>\<open>crates/core\<close>), a service that keeps a knowledge graph
  in an embedded database and, per group of data, a write-ahead log of the Cypher statements that
  built it.

  The program's parts and how they interact.  A write handler runs its statements on the database,
  takes the list of executed mutations from the connection and passes it to a flush helper
  (\<^verbatim>\<open>wal_exec.rs\<close>), which reaches the writer of the group through \<^verbatim>\<open>AppState::with_wal_writer\<close> and
  appends the mutations that pass the text classification of \<^verbatim>\<open>wal.rs\<close> to the newest JSONL file of
  the directory of that group.  The number of the last line written becomes the recorded position
  of the group.  A rebuild reads all files of a group back, translates statements of older formats,
  recomputes the embeddings that the writer stripped, and executes the rows in batches inside
  transactions.  Checkpoints name positions; a generation marker tells streams apart; a manifest
  caches the least and the greatest number of a stream.  Extraction asks a language model for
  entities, with a fallback model behind a router, and decides with deterministic rules and a
  judging model which entities are the same.

  Conventions.  A Rust string is a list of Unicode scalar values (\<open>rstr\<close>), a byte string a list of
  numbers; \<^verbatim>\<open>u64\<close> and \<^verbatim>\<open>u32\<close> are natural numbers with the wrap-around and saturation of the code written
  out, a signed column is a 64-bit word.  A file system is a finite map from paths to files and
  directories, passed through every operation that uses it.  Fallible code returns \<open>error + 'a\<close>.
  An outer \<open>None\<close> means that the code does not return: it panics (\<open>extract_json_block\<close>,
  \<open>get_or_compute_batch\<close>) or loops forever (\<open>replay_opts\<close>, \<open>scan_file_for_uuid\<close>); where it is used there
  is a theorem that says exactly when this happens or that it does not.  There is no fuel: loops
  are structural recursions or have a termination proof.

  Parameters.  Code outside the sources is an argument of the definitions, and what is relied on is
  a named hypothesis with an instance in a witness: the JSON serialisers (\<open>wal_codec\<close> with
  \<open>codec_ok\<close>, \<open>gen_codec\<close> with \<open>gen_ok\<close>, \<open>ck_codec\<close>, \<open>bounds_env\<close>), the Unicode tables (\<open>ucd\<close> with
  \<open>ucd_ok\<close>), the regular expressions of the legacy translation, the database (\<open>conn\<close> with
  \<open>engine_ok\<close> and \<open>engine_live\<close> for replay, \<open>group_view\<close> for counts), the embedder, the digest, the
  extractors, clocks, UUIDs and the outcome of the system calls of a flush (\<open>io_outcome\<close>).

  Theories, by part of the program.

  \<^descr> \<open>Prelude\<close>, \<open>Utf8\<close>, \<open>FileSys\<close>, \<open>Json\<close>: strings, numbers, results, UTF-8, the file system, lines and
  JSON objects; the locales \<open>unit_codec\<close>, \<open>path_store\<close> and \<open>inv_store\<close> state the interfaces that the
  components use and are interpreted here and by the components.
  \<^descr> \<open>GroupName\<close> (\<^verbatim>\<open>wal_group.rs\<close>): directory names of groups round-trip, are safe path components, and
  the listing of a root is exact.
  \<^descr> \<open>Cypher\<close> (\<^verbatim>\<open>wal.rs\<close>, \<^verbatim>\<open>replay.rs\<close>): which statements are logged and which are replayed; what replay
  knows, the writer logs.
  \<^descr> \<open>WalGeneration\<close> (\<^verbatim>\<open>wal_generation.rs\<close>): minting the generation marker, alone and as a race of any
  number of processes over single file-system calls; all that return agree.
  \<^descr> \<open>WalScan\<close>, \<open>Wal\<close>, \<open>WalSafety\<close> (\<^verbatim>\<open>wal.rs\<close>): scanning, the writer with rotation, and its guarantees: a
  chunk is committed whole and read back, failures only append, numbers are never reused, a new
  writer starts above everything on disk, a torn write costs one line.
  \<^descr> \<open>WalBounds\<close> (\<^verbatim>\<open>wal.rs\<close>): the manifest answers equal a fresh scan when its fingerprint holds.
  \<^descr> \<open>Checkpoint\<close> (\<^verbatim>\<open>checkpoint.rs\<close>): create, delete and list refine a finite map.
  \<^descr> \<open>LegacyWal\<close> (\<^verbatim>\<open>legacy_wal.rs\<close>), \<open>ReplayEmbed\<close>, \<open>ReplayBatch\<close>, \<open>Replay\<close> (\<^verbatim>\<open>replay.rs\<close>): translation,
  embedding windows, batches with their transactions, and the driver; replay equals executing the
  resolved rows one after the other, each line is counted once, a batch is atomic, and replay ends
  exactly when no directory is named like a WAL file.
  \<^descr> \<open>EmbeddingCache\<close> (\<^verbatim>\<open>embedding_cache.rs\<close>): cached batches agree with the embedder.
  \<^descr> \<open>WalExec\<close> (\<^verbatim>\<open>wal_exec.rs\<close>, \<^verbatim>\<open>app_state.rs\<close>): the map of writers of a process; the locales
  \<open>wal_action\<close> and \<open>stream_action\<close> state what \<^verbatim>\<open>with_wal_writer\<close> asks of its closures and are interpreted
  on the three closures of the code.  Groups are isolated, streams stay well-formed, and reported
  positions are on disk.
  \<^descr> \<open>Position\<close> (\<^verbatim>\<open>db.rs\<close>, \<^verbatim>\<open>handlers.rs\<close>), \<open>Recovery\<close> (\<^verbatim>\<open>recovery.rs\<close>), \<open>Rebuild\<close> (\<^verbatim>\<open>handlers.rs\<close>): the table of
  positions, their derivation from the log, and the decisions around a rebuild.
  \<^descr> \<open>WalMigrate\<close> (\<^verbatim>\<open>wal_group.rs\<close>): moving an old WAL root with a single stream into the directory of the
  default group, with all states between its file-system calls; interrupted attempts are resumed
  without loss.
  \<^descr> \<open>WalStrip\<close> (\<^verbatim>\<open>wal_strip.rs\<close>): removing vectors from log files; records are kept but for the vectors, files
  are replaced as a whole, and a second run changes nothing.
  \<^descr> \<open>Pointer\<close> (\<^verbatim>\<open>pointer.rs\<close>), \<open>CrossGroup\<close> (\<^verbatim>\<open>cross_group.rs\<close>): pointers in the attributes of edges, resolving
  endpoints, and re-binding.  The operations of the connection that the code calls are the record
  \<open>xconn\<close>; \<open>reads_ok\<close> and \<open>writes_ok\<close> state what their statements do, seen through the hops and
  attributes of edges (\<open>estate\<close>).  Attributes round-trip, the walk along forwarding references ends
  and is exact, and re-binding settles an edge.
  \<^descr> \<open>DedupJudge\<close> (\<^verbatim>\<open>dedup_judge.rs\<close>, \<^verbatim>\<open>extractor.rs\<close>), \<open>LlmRouter\<close> (\<^verbatim>\<open>llm_router.rs\<close>), \<open>SummaryMerge\<close>
  (\<^verbatim>\<open>summary_merge.rs\<close>), \<open>IdentifierVeto\<close> (\<^verbatim>\<open>identifier_veto.rs\<close>): reading verdicts, the router as interleaved
  atomic actions, merging summaries, and the veto on look-alike names.
  \<^descr> \<open>Ontology\<close> (\<^verbatim>\<open>ontology.rs\<close>), \<open>OntologyDrift\<close> (\<^verbatim>\<open>ontology.rs\<close>, \<^verbatim>\<open>ontology_sidecar.rs\<close>): the declared types, the
  cleaning of their hierarchy with the ancestor map, the content hash and the records of the last
  ontology.  The cleaning clears exactly the undeclared and the cyclic parents; drift is reported
  exactly when the hash differs.
  \<^descr> \<open>Canonicalize\<close> (\<^verbatim>\<open>canonicalize.rs\<close>): classifying relations against the ontology and rewriting their
  types; a second run changes nothing, under a condition on the keywords that is needed.
  \<^descr> \<open>ReadPage\<close> (\<^verbatim>\<open>read_page.rs\<close>, \<^verbatim>\<open>handlers.rs\<close>, \<^verbatim>\<open>db.rs\<close>): paged reads of entities and episodes; following the
  cursors visits every row once, and a cursor of another query is refused.  \<open>entities_view_ok\<close> and
  \<open>episodes_view_ok\<close> state what the two queries return.

  \<^descr> \<open>DbConn\<close> (\<^verbatim>\<open>db.rs\<close>, \<^verbatim>\<open>error.rs\<close>, \<^verbatim>\<open>schema.rs\<close>): the connection: parameters and columns, the texts of errors,
  the list of executed mutations, the repair of the full-text indexes with one retry, and the flag of
  an open transaction.  Computations on it are state-passing actions (\<open>act\<close> over \<open>cstate\<close>); the engine is
  the record \<open>lbug_engine\<close>, the libraries for time, numbers and printing are \<open>lbug_env\<close>.  A statement is
  recorded once or not at all.  The locales \<open>act_frame\<close> and \<open>view_frame\<close> carry a relation between states
  through all actions, given that the engine's steps keep it; \<open>fts_invisible\<close> says that the maintenance
  of the indexes is not seen by a view.
  \<^descr> \<open>GraphDb\<close> (\<^verbatim>\<open>db.rs\<close>): statements on entities, edges and episodes, with their text and parameters; written
  entities are well-typed, and removals are attributed to their groups and rolled back as a whole.
  \<^descr> \<open>NameLookup\<close> (\<^verbatim>\<open>db.rs\<close>): finding entities by name through a key column that may be stale.  \<open>table_ok\<close> states
  what the queries return of the table of entities, and nothing about the key; the lookups are exact all
  the same.
  \<^descr> \<open>MergeEntities\<close> (\<^verbatim>\<open>corrections.rs\<close>, \<^verbatim>\<open>assert.rs\<close>): merging entities.  \<open>graph_ok\<close> states which entity or edge each
  statement may touch and that rows show what is stored; a merge then stays within its group and one
  kind, a dry run only reads, and every failure ends in the report.
  \<^descr> \<open>Assertions\<close> (\<^verbatim>\<open>assert.rs\<close>, \<^verbatim>\<open>handlers.rs\<close>, \<^verbatim>\<open>wal_exec.rs\<close>): the handlers that assert an entity or a relationship.
  The state \<open>service\<close> is the connection with the writers and the files; a pass under the write lock is a function
  (\<open>entity_pass1\<close>, \<open>entity_pass2\<close>) and \<open>assert_step\<close> interleaves the passes of any number of calls.  \<open>assert_ok\<close> states
  what creating, updating and counting do to the table; a group then keeps at most one active entity of a kind and
  name.  The last section has an engine with a table that satisfies these hypotheses.

  Not modelled: the meaning of the Cypher statements beyond the hypotheses above (the database is not
  part of the sources), its schema and indexes, HTTP clients, asynchronous scheduling other than the
  router's flag, prompts, search ranking in floating point, the reading of YAML, the tool protocol,
  sockets and process start, and offline tools.
\<close>

end
